(* ===== verification/Prelude.thy ===== *)
theory Prelude
  imports Complex_Main "HOL-Library.Monad_Syntax" "HOL-Library.Sublist"
begin

text \<open>
  Shared vocabulary of the development: the collections of rewrite rules the component
  theories add to, the JSON value type of the TypeScript packages, JavaScript number and
  string helpers, and generic facts on lists and maps that several components use.
\<close>

named_theorems gate_simps \<open>rewrite rules of the operator gate\<close>
named_theorems sess_simps \<open>rewrite rules of the robot session\<close>
named_theorems delta_simps \<open>rewrite rules of the JSON delta operations\<close>
named_theorems store_simps \<open>rewrite rules of the durable storage\<close>

subsection \<open>JSON values\<close>

text \<open>
  A strict JSON value. A finite IEEE double is a rational, and \<open>===\<close> on finite doubles
  (with \<open>-0 === 0\<close>) is equality of rationals. A string is a list of code units. An object
  keeps its own enumerable keys in order, as an association list.
\<close>

datatype json =
    JNull
  | JBool bool
  | JNum rat
  | JStr string
  | JArr "json list"
  | JObj "(string \<times> json) list"

fun is_JArr :: "json \<Rightarrow> bool" where
  "is_JArr (JArr _) = True"
| "is_JArr _ = False"

fun is_JObj :: "json \<Rightarrow> bool" where
  "is_JObj (JObj _) = True"
| "is_JObj _ = False"

text \<open>JavaScript's \<open>Number.isInteger\<close> and \<open>Number.isSafeInteger\<close> on a finite double.\<close>

definition js_is_integer :: "rat \<Rightarrow> bool" where
  "js_is_integer q \<longleftrightarrow> snd (quotient_of q) = 1"

definition max_safe :: int where
  "max_safe = 9007199254740991"

definition js_is_safe_integer :: "rat \<Rightarrow> bool" where
  "js_is_safe_integer q \<longleftrightarrow> js_is_integer q \<and> \<bar>q\<bar> \<le> rat_of_int max_safe"

text \<open>\<open>Math.round\<close>: halves round up.\<close>

definition js_round :: "rat \<Rightarrow> int" where
  "js_round q = \<lfloor>q + 1 / 2\<rfloor>"

text \<open>\<open>String.prototype.trim\<close> on code units below 256: the ASCII white space, the
  no-break space, and nothing else.\<close>

definition js_space :: "char \<Rightarrow> bool" where
  "js_space c \<longleftrightarrow> (let n = of_char c :: nat in (9 \<le> n \<and> n \<le> 13) \<or> n = 32 \<or> n = 160)"

definition js_trim :: "string \<Rightarrow> string" where
  "js_trim s = rev (dropWhile js_space (rev (dropWhile js_space s)))"

text \<open>\<open>s.split(/\s+/).join(" ").slice(0, 200)\<close>: runs of white space become one space; and the same
  trimmed before the cut.\<close>

fun squeeze :: "bool \<Rightarrow> string \<Rightarrow> string" where
  "squeeze after_space [] = []"
| "squeeze after_space (c # cs) =
     (if js_space c then (if after_space then squeeze True cs else CHR '' '' # squeeze True cs)
      else c # squeeze False cs)"

definition oneLine :: "string \<Rightarrow> string" where
  "oneLine s = take 200 (js_trim (squeeze False s))"

text \<open>The part of a text before its first line break, as \<open>split(/\r?\n/)[0]\<close>.\<close>

fun first_line :: "string \<Rightarrow> string" where
  "first_line [] = []"
| "first_line (c # cs) =
     (if c = CHR 10 then []
      else if c = CHR 13 \<and> (case cs of [] \<Rightarrow> False | d # _ \<Rightarrow> d = CHR 10) then []
      else c # first_line cs)"

subsection \<open>Results\<close>

text \<open>A call that throws is \<open>Inl\<close>; the code after it runs on \<open>Inr\<close>.\<close>

definition and_then :: "'e + 'a \<Rightarrow> ('a \<Rightarrow> 'e + 'b) \<Rightarrow> 'e + 'b" where
  "and_then r f = (case r of Inl e \<Rightarrow> Inl e | Inr a \<Rightarrow> f a)"

lemma and_then_simps [simp]: "and_then (Inl e) f = Inl e" "and_then (Inr a) f = f a"
  by (simp_all add: and_then_def)

lemma and_then_Inr: "and_then r f = Inr b \<longleftrightarrow> (\<exists>a. r = Inr a \<and> f a = Inr b)"
  by (cases r) auto

subsection \<open>Lists and maps\<close>

lemma list_update_mid [simp]: "(xs @ y # ys)[length xs := z] = xs @ z # ys"
  by simp

lemma nth_mid [simp]: "(xs @ y # ys) ! length xs = y"
  by simp

lemma map_of_eq_None_fst: "map_of al k = None \<longleftrightarrow> k \<notin> fst ` set al"
  by (simp add: map_of_eq_None_iff)

subsection \<open>Properties of an object\<close>

text \<open>
  The own properties of a JavaScript object, in key order: the array-index keys (a canonical
  decimal below 2^32 - 1) ascending, then the others in the order they were added. Defining a
  property that exists keeps its place. A number used as a key is its decimal text (exact below
  10^21, where JavaScript would switch to an exponent).
\<close>

fun nat_text :: "nat \<Rightarrow> string" where
  "nat_text n = (if n < 10 then [char_of (48 + n)] else nat_text (n div 10) @ [char_of (48 + n mod 10)])"

declare nat_text.simps [simp del]

definition digit_value :: "char \<Rightarrow> nat" where
  "digit_value c = of_char c - 48"

definition is_digit :: "char \<Rightarrow> bool" where
  "is_digit c \<longleftrightarrow> (let n = of_char c :: nat in 48 \<le> n \<and> n \<le> 57)"

definition index_key :: "string \<Rightarrow> nat option" where
  "index_key k =
     (let n = foldl (\<lambda>a c. 10 * a + digit_value c) 0 k
      in if k \<noteq> [] \<and> list_all is_digit k \<and> (hd k \<noteq> CHR ''0'' \<or> length k = 1) \<and> n < 2 ^ 32 - 1
         then Some n else None)"

definition key_before :: "string \<Rightarrow> string \<Rightarrow> bool" where
  "key_before k k' =
     (case (index_key k, index_key k') of
        (Some i, Some j) \<Rightarrow> i < j
      | (Some i, None) \<Rightarrow> True
      | _ \<Rightarrow> False)"

fun new_prop :: "string \<Rightarrow> 'v \<Rightarrow> (string \<times> 'v) list \<Rightarrow> (string \<times> 'v) list" where
  "new_prop k v [] = [(k, v)]"
| "new_prop k v ((k', v') # al) =
     (if key_before k k' then (k, v) # (k', v') # al else (k', v') # new_prop k v al)"

fun old_prop :: "string \<Rightarrow> 'v \<Rightarrow> (string \<times> 'v) list \<Rightarrow> (string \<times> 'v) list" where
  "old_prop k v [] = []"
| "old_prop k v ((k', v') # al) = (if k = k' then (k, v) # al else (k', v') # old_prop k v al)"

definition set_prop :: "string \<Rightarrow> 'v \<Rightarrow> (string \<times> 'v) list \<Rightarrow> (string \<times> 'v) list" where
  "set_prop k v al = (if map_of al k = None then new_prop k v al else old_prop k v al)"

definition del_prop :: "string \<Rightarrow> (string \<times> 'v) list \<Rightarrow> (string \<times> 'v) list" where
  "del_prop k al = filter (\<lambda>(k', _). k' \<noteq> k) al"

lemma new_prop_fst: "fst ` set (new_prop k v al) = insert k (fst ` set al)"
  by (induction k v al rule: new_prop.induct) auto

lemma new_prop_map_of: "map_of al k = None \<Longrightarrow> map_of (new_prop k v al) = (map_of al)(k \<mapsto> v)"
  by (induction k v al rule: new_prop.induct) (auto split: if_splits)

lemma old_prop_keys: "map fst (old_prop k v al) = map fst al"
  by (induction k v al rule: old_prop.induct) auto

lemma old_prop_map_of: "map_of al k \<noteq> None \<Longrightarrow> map_of (old_prop k v al) = (map_of al)(k \<mapsto> v)"
  by (induction k v al rule: old_prop.induct) (auto split: if_splits)

lemma new_prop_distinct: "map_of al k = None \<Longrightarrow> distinct (map fst al) \<Longrightarrow> distinct (map fst (new_prop k v al))"
  by (induction k v al rule: new_prop.induct) (auto simp: new_prop_fst split: if_splits)

lemma set_prop_map_of [simp]: "map_of (set_prop k v al) = (map_of al)(k \<mapsto> v)"
  by (simp add: set_prop_def new_prop_map_of old_prop_map_of)

lemma set_prop_distinct [simp]: "distinct (map fst al) \<Longrightarrow> distinct (map fst (set_prop k v al))"
  by (simp add: set_prop_def new_prop_distinct old_prop_keys)

lemma del_prop_map_of [simp]: "map_of (del_prop k al) = (map_of al)(k := None)"
proof (induction al)
  case (Cons a al)
  then show ?case by (cases a) (auto simp: del_prop_def)
qed (simp add: del_prop_def)

lemma del_prop_distinct [simp]: "distinct (map fst al) \<Longrightarrow> distinct (map fst (del_prop k al))"
  unfolding del_prop_def by (rule distinct_map_filter)

lemma new_prop_values: "snd ` set (new_prop k v al) \<subseteq> insert v (snd ` set al)"
  by (induction k v al rule: new_prop.induct) auto

lemma old_prop_values: "snd ` set (old_prop k v al) \<subseteq> insert v (snd ` set al)"
  by (induction k v al rule: old_prop.induct) auto

lemma set_prop_values: "snd ` set (set_prop k v al) \<subseteq> insert v (snd ` set al)"
  using new_prop_values[of k v al] old_prop_values[of k v al] by (simp add: set_prop_def)

lemma first_line_no_newline: "CHR 10 \<notin> set (first_line s)"
  by (induction s) auto

end
