(* ===== verification/Operator_Gate.thy ===== *)
theory Operator_Gate
  imports Prelude "HOL-Library.Multiset"
begin

text \<open>
  The operator gate of the MCP server on a real robot,
  \<^verbatim>\<open>packages/embodied/src/integrations/mcp/gate.ts\<close>. A motion of a real robot runs only when
  the whole session was authorised at launch or when the operator's confirm file holds a fresh
  ticket that names the tool; the call it admits consumes the ticket. The confirm file is the
  only state, and the file system around it (what \<open>stat\<close>, \<open>read\<close> and \<open>unlink\<close> answer) is
  explicit. A refusal is a value with one constructor per message of the source.
\<close>

subsection \<open>Configuration and the confirm file\<close>

record gate_options =
  go_robot :: string
  go_real :: bool
  go_session_confirmed :: bool
  go_confirm_file :: "string option"

record op_gate =
  og_robot :: string
  og_real :: bool
  og_session_confirmed :: bool
  og_confirm_file :: "string option"

text \<open>What is at the confirm path: nothing, an entry whose \<open>stat\<close> or \<open>read\<close> fails, or a file
  with its content and modification time (ms).\<close>

datatype confirm_entry =
    Absent
  | Broken string
  | Holds string rat

record confirm_fs =
  cf_entry :: confirm_entry
  cf_removable :: bool

datatype ticket =
    TNone
  | TError string
  | TTool string rat

definition ticket_ttl_ms :: rat where
  "ticket_ttl_ms = 10 * 60000"

text \<open>\<open>homedir()\<close> and \<open>path.resolve\<close> are the platform's: parameters.\<close>

definition expandHome :: "string \<Rightarrow> string \<Rightarrow> string" where
  "expandHome home path =
     (if path = ''~'' then home
      else if prefix ''~/'' path then home @ drop 1 path
      else path)"

definition new_gate :: "(string \<Rightarrow> string) \<Rightarrow> string \<Rightarrow> gate_options \<Rightarrow> op_gate" where
  "new_gate resolve home o' =
     \<lparr>og_robot = go_robot o', og_real = go_real o',
      og_session_confirmed = go_session_confirmed o',
      og_confirm_file = map_option (\<lambda>f. resolve (expandHome home f)) (go_confirm_file o')\<rparr>"

definition gated :: "op_gate \<Rightarrow> bool" where
  "gated g \<longleftrightarrow> og_real g \<and> \<not> og_session_confirmed g"

text \<open>An empty path is falsy in JavaScript: it counts as no confirm file.\<close>

definition has_file :: "op_gate \<Rightarrow> bool" where
  "has_file g \<longleftrightarrow> (case og_confirm_file g of None \<Rightarrow> False | Some f \<Rightarrow> f \<noteq> [])"

subsection \<open>What the server reports\<close>

datatype gate_notice =
    Simulator string
  | SessionAuthorised string
  | TicketPerCall string string
  | NoAuthorisation string

definition describe :: "op_gate \<Rightarrow> gate_notice" where
  "describe g =
     (if \<not> og_real g then Simulator (og_robot g)
      else if og_session_confirmed g then SessionAuthorised (og_robot g)
      else if has_file g then TicketPerCall (og_robot g) (the (og_confirm_file g))
      else NoAuthorisation (og_robot g))"

datatype unsafe_place = TempDir | WorkingDir

definition under :: "string \<Rightarrow> string \<Rightarrow> bool" where
  "under file dir \<longleftrightarrow> file = dir \<or> prefix (dir @ ''/'') file"

definition warning :: "string \<Rightarrow> string \<Rightarrow> op_gate \<Rightarrow> unsafe_place option" where
  "warning tmp cwd g =
     (if \<not> has_file g \<or> \<not> og_real g then None
      else if under (the (og_confirm_file g)) tmp then Some TempDir
      else if under (the (og_confirm_file g)) cwd then Some WorkingDir
      else None)"

subsection \<open>Tickets\<close>

definition peek :: "op_gate \<Rightarrow> rat \<Rightarrow> confirm_fs \<Rightarrow> ticket" where
  "peek g now fs =
     (if \<not> has_file g then TNone
      else case cf_entry fs of
        Absent \<Rightarrow> TNone
      | Broken e \<Rightarrow> TError e
      | Holds content mtime \<Rightarrow> TTool (js_trim (first_line content)) (max 0 (now - mtime)))"

text \<open>\<open>unlinkSync\<close>: fails where nothing is there or the directory is not writable.\<close>

definition consume :: "confirm_fs \<Rightarrow> bool \<times> confirm_fs" where
  "consume fs =
     (if cf_removable fs \<and> cf_entry fs \<noteq> Absent then (True, fs\<lparr>cf_entry := Absent\<rparr>)
      else (False, fs))"

datatype gate_refusal =
    NoChannel
  | NoTicket
  | Unreadable string
  | EmptyTicket
  | StaleTicket string int bool
  | OtherTicket string
  | NotConsumable

definition authorise :: "op_gate \<Rightarrow> rat \<Rightarrow> string \<Rightarrow> confirm_fs \<Rightarrow> gate_refusal option \<times> confirm_fs" where
  "authorise g now tool fs =
     (if \<not> gated g then (None, fs)
      else if \<not> has_file g then (Some NoChannel, fs)
      else case peek g now fs of
        TNone \<Rightarrow> (Some NoTicket, fs)
      | TError e \<Rightarrow> (Some (Unreadable e), fs)
      | TTool named age \<Rightarrow>
          if named = [] then (Some EmptyTicket, fs)
          else if age > ticket_ttl_ms then
            (let (removed, fs') = consume fs
             in (Some (StaleTicket named (js_round (age / 1000)) removed), fs'))
          else if named \<noteq> tool then (Some (OtherTicket named), fs)
          else (let (removed, fs') = consume fs
                in if removed then (None, fs') else (Some NotConsumable, fs')))"

datatype ticket_status =
    SNone
  | SError string
  | STicket string int

record gate_status =
  gs_real :: bool
  gs_gated :: bool
  gs_session_confirmed :: bool
  gs_confirm_file :: "string option"
  gs_ticket :: ticket_status

definition gate_status_of :: "op_gate \<Rightarrow> rat \<Rightarrow> confirm_fs \<Rightarrow> gate_status" where
  "gate_status_of g now fs =
     \<lparr>gs_real = og_real g, gs_gated = gated g, gs_session_confirmed = og_session_confirmed g,
      gs_confirm_file = og_confirm_file g,
      gs_ticket = (case peek g now fs of
          TNone \<Rightarrow> SNone
        | TError e \<Rightarrow> SError e
        | TTool t age \<Rightarrow> STicket t (js_round (age / 1000)))\<rparr>"

subsection \<open>What an authorisation does to the file\<close>

definition fresh_ticket :: "op_gate \<Rightarrow> rat \<Rightarrow> string \<Rightarrow> confirm_fs \<Rightarrow> bool" where
  "fresh_ticket g now tool fs \<longleftrightarrow>
     (\<exists>content mtime. cf_entry fs = Holds content mtime
        \<and> js_trim (first_line content) = tool \<and> tool \<noteq> [] \<and> now - mtime \<le> ticket_ttl_ms)"

lemma consume_entry [gate_simps]:
  "consume fs = (True, fs') \<Longrightarrow> cf_entry fs' = Absent \<and> cf_entry fs \<noteq> Absent"
  by (auto simp: consume_def split: if_splits)

lemma ttl_pos [simp]: "0 \<le> ticket_ttl_ms"
  by (simp add: ticket_ttl_ms_def)

lemma ttl_less_max [simp]: "ticket_ttl_ms < max 0 x \<longleftrightarrow> ticket_ttl_ms < x"
  using ttl_pos by (auto simp: less_max_iff_disj simp del: ttl_pos)

lemma authorise_ungated [gate_simps]: "\<not> gated g \<Longrightarrow> authorise g now tool fs = (None, fs)"
  by (simp add: authorise_def)

lemma authorise_gated_admits:
  assumes "gated g"
  shows "authorise g now tool fs = (None, fs') \<longleftrightarrow>
    has_file g \<and> fresh_ticket g now tool fs \<and> cf_removable fs \<and> fs' = fs\<lparr>cf_entry := Absent\<rparr>"
  using assms
  by (auto simp: authorise_def peek_def fresh_ticket_def consume_def Let_def
      split: confirm_entry.splits if_splits)

lemma authorise_keeps_removable [gate_simps]:
  "authorise g now tool fs = (r, fs') \<Longrightarrow> cf_removable fs' = cf_removable fs"
  by (auto simp: authorise_def consume_def Let_def split: if_splits ticket.splits)

lemma authorise_entry_cases:
  "authorise g now tool fs = (r, fs') \<Longrightarrow> fs' = fs \<or> fs' = fs\<lparr>cf_entry := Absent\<rparr>"
  by (auto simp: authorise_def consume_def Let_def split: if_splits ticket.splits)

subsection \<open>Tickets as one-shot credits\<close>

text \<open>
  The interface a caller of the gate relies on: the state holds a multiset of credits, one per
  name; an admitted attempt for a name spends a credit of that name, a refused attempt creates
  none. The client lemma bounds what a whole sequence of attempts and deposits can admit.
\<close>

locale one_shot_gate =
  fixes attempt :: "'t \<Rightarrow> 's \<Rightarrow> bool \<times> 's"
    and deposit :: "'d \<Rightarrow> 's \<Rightarrow> 's"
    and spends :: "'t \<Rightarrow> 'n"
    and gives :: "'d \<Rightarrow> 'n"
    and credits :: "'s \<Rightarrow> 'n multiset"
  assumes attempt_spends: "attempt t s = (True, s') \<Longrightarrow> add_mset (spends t) (credits s') \<subseteq># credits s"
    and attempt_keeps: "attempt t s = (False, s') \<Longrightarrow> credits s' \<subseteq># credits s"
    and deposit_gives: "credits (deposit d s) \<subseteq># add_mset (gives d) (credits s)"
begin

fun drive :: "('t + 'd) list \<Rightarrow> 's \<Rightarrow> 't list \<times> 's" where
  "drive [] s = ([], s)"
| "drive (Inl t # es) s =
     (let (ok, s') = attempt t s; (ts, s'') = drive es s' in ((if ok then t # ts else ts), s''))"
| "drive (Inr d # es) s = drive es (deposit d s)"

abbreviation deposits :: "('t + 'd) list \<Rightarrow> 'd list" where
  "deposits es \<equiv> map projr (filter (\<lambda>e. \<not> isl e) es)"

lemma drive_conserves:
  "image_mset spends (mset (fst (drive es s))) + credits (snd (drive es s))
     \<subseteq># credits s + image_mset gives (mset (deposits es))"
proof (induction es arbitrary: s)
  case Nil
  then show ?case by simp
next
  case (Cons e es)
  show ?case
  proof (cases e)
    case (Inl t)
    obtain ok s' where a: "attempt t s = (ok, s')" by fastforce
    note IH = Cons[of s']
    show ?thesis
    proof (cases ok)
      case True
      with a have "add_mset (spends t) (credits s') \<subseteq># credits s" using attempt_spends by auto
      then have "add_mset (spends t) (credits s' + image_mset gives (mset (deposits es)))
          \<subseteq># credits s + image_mset gives (mset (deposits es))"
        by (metis add_mset_add_single subset_mset.add_right_mono union_mset_add_mset_left)
      with IH have "add_mset (spends t) (image_mset spends (mset (fst (drive es s'))) + credits (snd (drive es s')))
          \<subseteq># credits s + image_mset gives (mset (deposits es))"
        by (meson mset_subset_eq_add_mset_cancel subset_mset.order_trans)
      then show ?thesis using Inl a True by (cases "drive es s'") simp
    next
      case False
      with a have "credits s' \<subseteq># credits s" using attempt_keeps by auto
      then have "credits s' + image_mset gives (mset (deposits es))
          \<subseteq># credits s + image_mset gives (mset (deposits es))"
        by (rule subset_mset.add_right_mono)
      with IH have "image_mset spends (mset (fst (drive es s'))) + credits (snd (drive es s'))
          \<subseteq># credits s + image_mset gives (mset (deposits es))"
        by (rule subset_mset.order_trans)
      then show ?thesis using Inl a False by (cases "drive es s'") simp
    qed
  next
    case (Inr d)
    have "credits (deposit d s) + image_mset gives (mset (deposits es))
        \<subseteq># add_mset (gives d) (credits s) + image_mset gives (mset (deposits es))"
      using deposit_gives by (rule subset_mset.add_right_mono)
    from subset_mset.order_trans[OF Cons[of "deposit d s"] this] show ?thesis using Inr by simp
  qed
qed

end

text \<open>The confirm file as a purse: at most one ticket, named by its first line.\<close>

definition ticket_name :: "string \<Rightarrow> string" where
  "ticket_name content = js_trim (first_line content)"

definition tickets_on_file :: "confirm_fs \<Rightarrow> string multiset" where
  "tickets_on_file fs = (case cf_entry fs of Holds content _ \<Rightarrow> {#ticket_name content#} | _ \<Rightarrow> {#})"

text \<open>A real robot without session authorisation, whose tickets are written to \<open>f\<close>.\<close>

definition real_gate :: "string \<Rightarrow> string option \<Rightarrow> op_gate" where
  "real_gate robot f = \<lparr>og_robot = robot, og_real = True, og_session_confirmed = False, og_confirm_file = f\<rparr>"

definition call_tool :: "op_gate \<Rightarrow> rat \<times> string \<Rightarrow> confirm_fs \<Rightarrow> bool \<times> confirm_fs" where
  "call_tool g c fs = (let (r, fs') = authorise g (fst c) (snd c) fs in (r = None, fs'))"

definition operator_writes :: "string \<times> rat \<Rightarrow> confirm_fs \<Rightarrow> confirm_fs" where
  "operator_writes w fs = fs\<lparr>cf_entry := Holds (fst w) (snd w)\<rparr>"

lemma gated_real_gate [simp]: "gated (real_gate robot f)"
  by (simp add: gated_def real_gate_def)

lemma call_tool_spends:
  assumes "gated g" "call_tool g c fs = (True, fs')"
  shows "add_mset (snd c) (tickets_on_file fs') \<subseteq># tickets_on_file fs"
proof -
  from assms(2) have "authorise g (fst c) (snd c) fs = (None, fs')"
    by (auto simp: call_tool_def Let_def split: prod.splits)
  with assms(1) show ?thesis
    by (auto simp: authorise_gated_admits fresh_ticket_def tickets_on_file_def ticket_name_def)
qed

lemma call_tool_keeps: "call_tool g c fs = (b, fs') \<Longrightarrow> tickets_on_file fs' \<subseteq># tickets_on_file fs"
  using authorise_entry_cases[of g "fst c" "snd c" fs]
  by (fastforce simp: call_tool_def tickets_on_file_def split: prod.splits)

lemma operator_writes_gives:
  "tickets_on_file (operator_writes w fs) \<subseteq># add_mset (ticket_name (fst w)) (tickets_on_file fs)"
  by (simp add: operator_writes_def tickets_on_file_def)

interpretation purse: one_shot_gate "call_tool (real_gate robot f)" operator_writes snd
    "\<lambda>w. ticket_name (fst w)" tickets_on_file for robot f
  by unfold_locales
    (rule call_tool_spends[OF gated_real_gate] call_tool_keeps operator_writes_gives; assumption?)+

text \<open>A session of the gate: calls (time and tool) and operator writes (content and time).\<close>

datatype gate_event =
    GCall rat string
  | GWrite string rat

fun gate_run :: "op_gate \<Rightarrow> gate_event list \<Rightarrow> confirm_fs \<Rightarrow> string list \<times> confirm_fs" where
  "gate_run g [] fs = ([], fs)"
| "gate_run g (GCall now tool # es) fs =
     (let (r, fs') = authorise g now tool fs; (ts, fs'') = gate_run g es fs'
      in ((if r = None then tool # ts else ts), fs''))"
| "gate_run g (GWrite content mtime # es) fs = gate_run g es (fs\<lparr>cf_entry := Holds content mtime\<rparr>)"

fun writes_of :: "gate_event list \<Rightarrow> string list" where
  "writes_of [] = []"
| "writes_of (GCall _ _ # es) = writes_of es"
| "writes_of (GWrite content _ # es) = ticket_name content # writes_of es"

fun as_move :: "gate_event \<Rightarrow> (rat \<times> string) + (string \<times> rat)" where
  "as_move (GCall now tool) = Inl (now, tool)"
| "as_move (GWrite content mtime) = Inr (content, mtime)"

lemma operator_writes_pair:
  "operator_writes (content, mtime) fs = fs\<lparr>cf_entry := Holds content mtime\<rparr>"
  by (simp add: operator_writes_def)

lemma call_tool_eq: "call_tool g (now, tool) fs = (b, fs') \<Longrightarrow>
    \<exists>r. authorise g now tool fs = (r, fs') \<and> b = (r = None)"
  by (auto simp: call_tool_def split: prod.splits)

lemma gate_run_drive:
  "gate_run (real_gate robot f) es fs =
     (map snd (fst (purse.drive robot f (map as_move es) fs)), snd (purse.drive robot f (map as_move es) fs))"
proof (induction es arbitrary: fs)
  case Nil
  then show ?case by simp
next
  case (Cons e es)
  show ?case
  proof (cases e)
    case (GCall now tool)
    obtain b fs' where c: "call_tool (real_gate robot f) (now, tool) fs = (b, fs')" by fastforce
    then obtain r where r: "authorise (real_gate robot f) now tool fs = (r, fs')" "b = (r = None)"
      using call_tool_eq by blast
    show ?thesis using GCall c r Cons[of fs'] by (simp split: prod.split)
  next
    case (GWrite content mtime)
    then show ?thesis using Cons by (simp add: operator_writes_pair)
  qed
qed

lemma writes_of_deposits:
  "mset (writes_of es) = image_mset (\<lambda>w. ticket_name (fst w))
     (mset (map projr (filter (\<lambda>e. \<not> isl e) (map as_move es))))"
  by (induction es rule: writes_of.induct) auto

subsection \<open>Properties\<close>

text \<open>
  C25: exactly what admits a call. Where the gate is in force, \<open>authorise\<close> admits a tool if and
  only if a confirm file is configured, it holds a ticket that names this very tool and is not
  older than ten minutes, and the file can be removed; the admitted call then leaves no ticket
  behind. Where the gate is not in force every call is admitted and the file is not touched.
\<close>

theorem gate_admission:
  "authorise g now tool fs = (None, fs') \<longleftrightarrow>
     (if gated g
      then has_file g \<and> fresh_ticket g now tool fs \<and> cf_removable fs \<and> fs' = fs\<lparr>cf_entry := Absent\<rparr>
      else fs' = fs)"
  by (auto simp: authorise_gated_admits authorise_ungated)

text \<open>
  Conservation of tickets. Over any sequence of calls and of writes to the confirm file, with
  any clock readings, the calls a gated real robot admits, counted per tool, together with the
  ticket still on the file are at most the ticket that was there and the tickets the operator
  wrote: a ticket is never spent twice and never for another tool.
\<close>

theorem tickets_conserved:
  "mset (fst (gate_run (real_gate robot f) es fs)) + tickets_on_file (snd (gate_run (real_gate robot f) es fs))
     \<subseteq># tickets_on_file fs + mset (writes_of es)"
  using purse.drive_conserves[of robot f "map as_move es" fs]
  by (simp add: gate_run_drive writes_of_deposits)

end
