(* ===== verification/Robot_Manifest.thy ===== *)
theory Robot_Manifest
  imports Prelude
begin

text \<open>
  A robot's primitive manifest and what the MCP server makes of it:
  \<^verbatim>\<open>packages/embodied/src/primitives/manifest.ts\<close> (entries, their checks, schemas),
  \<^verbatim>\<open>primitives/arguments.ts\<close> (the method's kwargs of a tool call) and
  \<^verbatim>\<open>integrations/mcp/tools.ts\<close> (which entries become tools). A thrown error is \<open>Inl\<close>.
  A JavaScript \<open>Map\<close> or object is an association list in insertion order.
\<close>

subsection \<open>Entries\<close>

datatype side = SideEnv | SideTs | SideCode
datatype tier = High | Low | Raw | Privileged
datatype mode = ToolMode | CodeMode

datatype ptype = PNumber | PInteger | PBoolean | PString | PEnum | PVec3 | PQuat | PArray | PObject

datatype pvalues = Values "string list" | ValuesVar string

datatype mparam = MParam
    (mp_type: ptype) (mp_required: bool) (mp_description: "string option")
    (mp_values: "pvalues option") (mp_items: "mitems option")
    (mp_minItems: "nat option") (mp_maxItems: "nat option")
    (mp_minimum: "rat option") (mp_maximum: "rat option") (mp_modes: "mode list option")
and mitems = ItemType ptype | ItemSpec mparam

record manifest_entry =
  me_name :: string
  me_side :: side
  me_method :: "string option"
  me_tier :: tier
  me_mutating :: bool
  me_requires :: "string list"
  me_params :: "(string \<times> mparam) list"
  me_doc_tool :: string
  me_doc_code :: string
  me_module :: "string option"

record manifest =
  mf_robot :: string
  mf_primitives :: "manifest_entry list"

text \<open>A variable's value; a number carries its JavaScript rendering.\<close>

datatype var_value = VStr string | VNum string | VList "string list"

type_synonym vars = "(string \<times> var_value) list"

text \<open>An optional text is absent or empty alike for the code's truthiness tests: \<open>[]\<close>.
  A module is absent, or a name whose truthiness is that it is not empty.\<close>

definition has_module :: "manifest_entry \<Rightarrow> bool" where
  "has_module e \<longleftrightarrow> (case me_module e of None \<Rightarrow> False | Some m \<Rightarrow> m \<noteq> [])"

subsection \<open>Entry checks\<close>

datatype entry_error = BadName | NeedsMethod | HasMethod | NoDoc | CodeWithTool | TsWithCode

definition word_start :: "char \<Rightarrow> bool" where
  "word_start c \<longleftrightarrow> (let n = of_char c :: nat in (65 \<le> n \<and> n \<le> 90) \<or> (97 \<le> n \<and> n \<le> 122) \<or> n = 95)"

definition word_char :: "char \<Rightarrow> bool" where
  "word_char c \<longleftrightarrow> word_start c \<or> (let n = of_char c :: nat in 48 \<le> n \<and> n \<le> 57)"

fun is_identifier :: "string \<Rightarrow> bool" where
  "is_identifier [] = False"
| "is_identifier (c # cs) = (word_start c \<and> list_all word_char cs)"

definition checkEntry :: "manifest_entry \<Rightarrow> entry_error option" where
  "checkEntry e =
     (if \<not> is_identifier (me_name e) then Some BadName
      else if me_side e \<noteq> SideTs \<and> me_method e = None then Some NeedsMethod
      else if me_side e = SideTs \<and> me_method e \<noteq> None then Some HasMethod
      else if me_doc_tool e = [] \<and> me_doc_code e = [] then Some NoDoc
      else if me_side e = SideCode \<and> me_doc_tool e \<noteq> [] then Some CodeWithTool
      else if me_side e = SideTs \<and> me_doc_code e \<noteq> [] then Some TsWithCode
      else None)"

subsection \<open>Descriptions and schemas\<close>

definition var_text :: "var_value \<Rightarrow> string" where
  "var_text v = (case v of VStr s \<Rightarrow> s | VNum s \<Rightarrow> s
     | VList vs \<Rightarrow> concat (case vs of [] \<Rightarrow> [] | w # ws \<Rightarrow> w # map (\<lambda>x. '', '' @ x) ws))"

text \<open>One match of \<open>{{name}}\<close> at the start of a text: the name and the rest.\<close>

definition braced :: "string \<Rightarrow> (string \<times> string) option" where
  "braced s =
     (if prefix ''{{'' s then
        (let w = takeWhile word_char (drop 2 s); r = dropWhile word_char (drop 2 s)
         in if w \<noteq> [] \<and> prefix ''}}'' r then Some (w, drop 2 r) else None)
      else None)"

lemma braced_shorter: "braced s = Some (w, r) \<Longrightarrow> length r < length s"
proof -
  assume a: "braced s = Some (w, r)"
  then have "r = drop 2 (dropWhile word_char (drop 2 s))" "prefix ''{{'' s"
    by (auto simp: braced_def Let_def split: if_splits)
  moreover have "length (dropWhile word_char (drop 2 s)) \<le> length (drop 2 s)"
    by (rule length_dropWhile_le)
  ultimately show ?thesis by (auto simp: prefix_def)
qed

function (sequential) fill :: "vars \<Rightarrow> string \<Rightarrow> string" where
  "fill vs [] = []"
| "fill vs (c # cs) =
     (case braced (c # cs) of
        None \<Rightarrow> c # fill vs cs
      | Some (w, r) \<Rightarrow>
          (case map_of vs w of None \<Rightarrow> ''{{'' @ w @ ''}}'' | Some v \<Rightarrow> var_text v) @ fill vs r)"
  by pat_completeness auto
termination
  by (relation "measure (\<lambda>(_, s). length s)") (auto dest: braced_shorter)

text \<open>The whole of a text is \<open>{{name}}\<close>.\<close>

definition var_ref :: "string \<Rightarrow> string option" where
  "var_ref s = (case braced s of Some (w, []) \<Rightarrow> Some w | _ \<Rightarrow> None)"

definition list_var :: "vars \<Rightarrow> string \<Rightarrow> string list option" where
  "list_var vs s = (case Option.bind (var_ref s) (map_of vs) of Some (VList l) \<Rightarrow> Some l | _ \<Rightarrow> None)"

datatype schema_error = NoListVariable string

fun enumValues :: "pvalues \<Rightarrow> vars \<Rightarrow> schema_error + string list" where
  "enumValues (Values l) vs = Inr l"
| "enumValues (ValuesVar s) vs = (case list_var vs s of None \<Rightarrow> Inl (NoListVariable s) | Some l \<Rightarrow> Inr l)"

definition dropped :: "mparam \<Rightarrow> vars \<Rightarrow> bool" where
  "dropped p vs =
     (if mp_type p \<noteq> PEnum then False
      else case mp_values p of
        Some (Values _) \<Rightarrow> False
      | Some (ValuesVar s) \<Rightarrow> list_var vs s = Some []
      | None \<Rightarrow> list_var vs [] = Some [])"

datatype schema =
    SNumber "string option" "rat option" "rat option"
  | SInteger "string option" "rat option" "rat option"
  | SBoolean "string option"
  | SString "string option"
  | SEnum "string list" "string option"
  | SArray schema "nat option" "nat option" "string option"
  | SObject "string option"

text \<open>An empty description is falsy and left out.\<close>

definition filled_description :: "mparam \<Rightarrow> vars \<Rightarrow> string option" where
  "filled_description p vs =
     (case mp_description p of Some (c # cs) \<Rightarrow> Some (fill vs (c # cs)) | _ \<Rightarrow> None)"

text \<open>The schema of an array item given as a type name: the parameter spec \<open>{type}\<close>. Items of an
  array given as a bare \<open>array\<close> are numbers, and a bare \<open>enum\<close> has no values.\<close>

definition bare_schema :: "ptype \<Rightarrow> schema" where
  "bare_schema t = (case t of
      PNumber \<Rightarrow> SNumber None None None
    | PInteger \<Rightarrow> SInteger None None None
    | PBoolean \<Rightarrow> SBoolean None
    | PString \<Rightarrow> SString None
    | PEnum \<Rightarrow> SEnum [] None
    | PVec3 \<Rightarrow> SArray (SNumber None None None) (Some 3) (Some 3) None
    | PQuat \<Rightarrow> SArray (SNumber None None None) (Some 4) (Some 4) None
    | PArray \<Rightarrow> SArray (SNumber None None None) None None None
    | PObject \<Rightarrow> SObject None)"

fun paramSchema :: "vars \<Rightarrow> mparam \<Rightarrow> schema_error + schema" where
  "paramSchema vs (MParam t req desc vals items mini maxi lo hi modes) =
     (let d = filled_description (MParam t req desc vals items mini maxi lo hi modes) vs in
      case t of
        PNumber \<Rightarrow> Inr (SNumber d lo hi)
      | PInteger \<Rightarrow> Inr (SInteger d lo hi)
      | PBoolean \<Rightarrow> Inr (SBoolean d)
      | PString \<Rightarrow> Inr (SString d)
      | PEnum \<Rightarrow> (case enumValues (case vals of None \<Rightarrow> Values [] | Some v \<Rightarrow> v) vs of
                    Inl e \<Rightarrow> Inl e | Inr l \<Rightarrow> Inr (SEnum l d))
      | PVec3 \<Rightarrow> Inr (SArray (SNumber None None None) (Some 3) (Some 3) d)
      | PQuat \<Rightarrow> Inr (SArray (SNumber None None None) (Some 4) (Some 4) d)
      | PArray \<Rightarrow>
          (case items of
             None \<Rightarrow> Inr (SArray (bare_schema PNumber) mini maxi d)
           | Some (ItemType it) \<Rightarrow> Inr (SArray (bare_schema it) mini maxi d)
           | Some (ItemSpec ip) \<Rightarrow>
               (case paramSchema vs ip of Inl e \<Rightarrow> Inl e | Inr s \<Rightarrow> Inr (SArray s mini maxi d)))
      | PObject \<Rightarrow> Inr (SObject d))"

definition inMode :: "mparam \<Rightarrow> mode \<Rightarrow> bool" where
  "inMode p m \<longleftrightarrow> (case mp_modes p of None \<Rightarrow> True | Some ms \<Rightarrow> m \<in> set ms)"

fun schema_props :: "vars \<Rightarrow> (string \<times> mparam) list \<Rightarrow> schema_error + (string \<times> bool \<times> schema) list" where
  "schema_props vs [] = Inr []"
| "schema_props vs ((k, p) # ps) =
     (if \<not> inMode p ToolMode \<or> dropped p vs then schema_props vs ps
      else case paramSchema vs p of
        Inl e \<Rightarrow> Inl e
      | Inr s \<Rightarrow> (case schema_props vs ps of Inl e \<Rightarrow> Inl e | Inr r \<Rightarrow> Inr ((k, mp_required p, s) # r)))"

definition toolSchema :: "manifest_entry \<Rightarrow> vars \<Rightarrow> schema_error + (string \<times> bool \<times> schema) list" where
  "toolSchema e vs = schema_props vs (me_params e)"

definition toolDescription :: "manifest_entry \<Rightarrow> vars \<Rightarrow> string" where
  "toolDescription e vs = fill vs (me_doc_tool e)"

definition available :: "manifest_entry \<Rightarrow> (string \<Rightarrow> bool) \<Rightarrow> bool" where
  "available e have \<longleftrightarrow> list_all have (me_requires e)"

definition toolEntry :: "manifest \<Rightarrow> string \<Rightarrow> manifest_entry option" where
  "toolEntry m name = find (\<lambda>p. me_name p = name \<and> me_side p \<noteq> SideCode \<and> me_doc_tool p \<noteq> []) (mf_primitives m)"

subsection \<open>The kwargs of a tool call\<close>

text \<open>
  An argument value as the conversion needs it: absent, a JSON value, and for the elements of a
  point the number \<open>Number(v)\<close> makes of them (\<open>None\<close> where it is not finite), which is the
  language's and a parameter here.
\<close>

definition toolOnly :: "mparam \<Rightarrow> bool" where
  "toolOnly p \<longleftrightarrow> (case mp_modes p of None \<Rightarrow> False | Some ms \<Rightarrow> ToolMode \<in> set ms \<and> CodeMode \<notin> set ms)"

definition mapped :: "manifest_entry \<Rightarrow> string \<Rightarrow> bool" where
  "mapped e name \<longleftrightarrow> name = ''point'' \<and>
     list_all (\<lambda>k. case map_of (me_params e) k of None \<Rightarrow> False | Some p \<Rightarrow> inMode p CodeMode)
       [''row'', ''col'']"

definition rpcParams :: "manifest_entry \<Rightarrow> (string \<times> mparam) list" where
  "rpcParams e = filter (\<lambda>(k, p). inMode p ToolMode \<and> (\<not> toolOnly p \<or> mapped e k)) (me_params e)"

datatype args_error = BadPoint | PiSideParameter string

definition pointArgs :: "(json \<Rightarrow> rat option) \<Rightarrow> json \<Rightarrow> args_error + (string \<times> json) list" where
  "pointArgs to_number v =
     (case v of
        JArr [a, b] \<Rightarrow>
          (case (to_number a, to_number b) of
             (Some x, Some y) \<Rightarrow> Inr [(''row'', JNum (of_int (js_round x))), (''col'', JNum (of_int (js_round y)))]
           | _ \<Rightarrow> Inl BadPoint)
      | _ \<Rightarrow> Inl BadPoint)"

text \<open>Assigning a property of an object: an existing key keeps its place.\<close>

fun put :: "'k \<Rightarrow> 'v \<Rightarrow> ('k \<times> 'v) list \<Rightarrow> ('k \<times> 'v) list" where
  "put k v [] = [(k, v)]"
| "put k v ((k', v') # al) = (if k = k' then (k, v) # al else (k', v') # put k v al)"

fun rpc_args_into :: "(json \<Rightarrow> rat option) \<Rightarrow> manifest_entry \<Rightarrow> (string \<times> json option) list
    \<Rightarrow> (string \<times> json) list \<Rightarrow> args_error + (string \<times> json) list" where
  "rpc_args_into nf e [] out = Inr out"
| "rpc_args_into nf e ((k, None) # ps) out = rpc_args_into nf e ps out"
| "rpc_args_into nf e ((k, Some v) # ps) out =
     (if (case map_of (me_params e) k of None \<Rightarrow> False | Some p \<Rightarrow> toolOnly p) then
        (if \<not> mapped e k then Inl (PiSideParameter k)
         else case pointArgs nf v of
           Inl er \<Rightarrow> Inl er
         | Inr pa \<Rightarrow> rpc_args_into nf e ps (fold (\<lambda>(k, v). put k v) pa out))
      else rpc_args_into nf e ps (put k v out))"

definition rpcArguments :: "(json \<Rightarrow> rat option) \<Rightarrow> manifest_entry \<Rightarrow> (string \<times> json option) list
    \<Rightarrow> args_error + (string \<times> json) list" where
  "rpcArguments nf e params = rpc_args_into nf e params []"

lemma put_dom: "fst ` set (put k v al) = insert k (fst ` set al)"
  by (induction k v al rule: put.induct) auto

lemma put_map_of: "map_of (put k v al) = (map_of al)(k \<mapsto> v)"
  by (induction k v al rule: put.induct) auto

lemma put_distinct: "distinct (map fst al) \<Longrightarrow> distinct (map fst (put k v al))"
  by (induction k v al rule: put.induct) (auto simp: put_dom image_iff dest: put_dom[THEN equalityD1, THEN subsetD])

subsection \<open>Which entries become tools\<close>

record selection =
  sel_tier :: "tier option"
  sel_privileged :: bool

text \<open>The entries of each name, the names in the order they first occur.\<close>

fun by_name :: "manifest_entry list \<Rightarrow> (string \<times> manifest_entry list) list \<Rightarrow> (string \<times> manifest_entry list) list" where
  "by_name [] m = m"
| "by_name (e # es) m =
     (if me_side e \<noteq> SideEnv \<or> me_doc_tool e = [] \<or> has_module e then by_name es m
      else by_name es (put (me_name e) ((case map_of m (me_name e) of None \<Rightarrow> [] | Some l \<Rightarrow> l) @ [e]) m))"

definition choose_entry :: "selection \<Rightarrow> manifest_entry list \<Rightarrow> manifest_entry option" where
  "choose_entry s es =
     (let priv = find (\<lambda>e. me_tier e = Privileged) es;
          plain = find (\<lambda>e. me_tier e \<noteq> Privileged) es;
          chosen = (if sel_privileged s then (case priv of None \<Rightarrow> plain | Some p \<Rightarrow> Some p) else plain)
      in case chosen of
           None \<Rightarrow> None
         | Some c \<Rightarrow>
             (case sel_tier s of
                Some t \<Rightarrow> if me_tier c \<noteq> t \<and> me_tier c \<noteq> Privileged then None else Some c
              | None \<Rightarrow> Some c))"

definition selectEntries :: "manifest \<Rightarrow> selection \<Rightarrow> manifest_entry list" where
  "selectEntries m s = List.map_filter (\<lambda>(n, es). choose_entry s es) (by_name (mf_primitives m) [])"

definition capabilitiesFrom :: "manifest \<Rightarrow> string list option \<Rightarrow> string list \<Rightarrow> bool \<Rightarrow> string \<Rightarrow> bool" where
  "capabilitiesFrom m served explicit privileged c \<longleftrightarrow>
     c \<in> set explicit \<or> (privileged \<and> c = ''privileged'') \<or>
     (case served of
        None \<Rightarrow> False
      | Some names \<Rightarrow>
          list_ex (\<lambda>e. me_side e \<noteq> SideTs \<and> me_doc_code e \<noteq> [] \<and> me_name e \<in> set names
            \<and> c \<in> set (me_requires e)) (mf_primitives m))"

record mcp_tool =
  mt_entry :: manifest_entry
  mt_description :: string
  mt_schema :: "(string \<times> bool \<times> schema) list"
  mt_read_only :: bool
  mt_destructive :: bool

fun collect_tools :: "(string \<Rightarrow> bool) \<Rightarrow> vars \<Rightarrow> manifest_entry list \<Rightarrow> mcp_tool list \<times> (string \<times> schema_error) list" where
  "collect_tools has vs [] = ([], [])"
| "collect_tools has vs (e # es) =
     (let (ts, ls) = collect_tools has vs es in
      if \<not> available e has then (ts, ls)
      else case toolSchema (e\<lparr>me_params := rpcParams e\<rparr>) vs of
        Inl er \<Rightarrow> (ts, (me_name e, er) # ls)
      | Inr sch \<Rightarrow>
          (\<lparr>mt_entry = e, mt_description = toolDescription e vs, mt_schema = sch,
            mt_read_only = (\<not> me_mutating e), mt_destructive = me_mutating e\<rparr> # ts, ls))"

definition manifestTools :: "manifest \<Rightarrow> selection \<Rightarrow> (string \<Rightarrow> bool) \<Rightarrow> vars
    \<Rightarrow> mcp_tool list \<times> (string \<times> schema_error) list" where
  "manifestTools m s has vs = collect_tools has vs (selectEntries m s)"

definition moves :: "manifest_entry \<Rightarrow> bool" where
  "moves e = me_mutating e"

definition BUILTIN_MOTIONS :: "string list" where
  "BUILTIN_MOTIONS = [''reset'']"

definition REAL_ROBOTS :: "string list" where
  "REAL_ROBOTS = [''franka'', ''dual_franka'', ''piper'', ''ur5e'']"

definition isReal :: "string \<Rightarrow> bool" where
  "isReal robot \<longleftrightarrow> robot \<in> set REAL_ROBOTS"

lemma by_name_distinct: "distinct (map fst m) \<Longrightarrow> distinct (map fst (by_name es m))"
  by (induction es m rule: by_name.induct) (auto simp: put_distinct)

definition groups_ok :: "manifest_entry list \<Rightarrow> (string \<times> manifest_entry list) list \<Rightarrow> bool" where
  "groups_ok es m \<longleftrightarrow> (\<forall>(n, g) \<in> set m. \<forall>e \<in> set g. e \<in> set es \<and> me_name e = n \<and> me_side e = SideEnv
      \<and> me_doc_tool e \<noteq> [] \<and> \<not> has_module e)"

lemma put_in: "x \<in> set (put k v al) \<Longrightarrow> x = (k, v) \<or> x \<in> set al"
  by (induction k v al rule: put.induct) (auto split: if_splits)

lemma by_name_ok:
  "set es \<subseteq> set ps \<Longrightarrow> groups_ok ps m \<Longrightarrow> groups_ok ps (by_name es m)"
proof (induction es m rule: by_name.induct)
  case (1 m)
  then show ?case by simp
next
  case (2 e es m)
  show ?case
  proof (cases "me_side e \<noteq> SideEnv \<or> me_doc_tool e = [] \<or> has_module e")
    case True
    with 2 show ?thesis by simp
  next
    case False
    let ?m = "put (me_name e) ((case map_of m (me_name e) of None \<Rightarrow> [] | Some l \<Rightarrow> l) @ [e]) m"
    have "groups_ok ps ?m"
      using "2.prems" False
      by (fastforce simp: groups_ok_def dest!: put_in dest: map_of_SomeD split: option.splits)
    with 2 False show ?thesis by simp
  qed
qed

lemma choose_entry_in: "choose_entry s es = Some c \<Longrightarrow> c \<in> set es"
  by (auto simp: choose_entry_def Let_def find_Some_iff split: if_splits option.splits)

lemma choose_entry_plain:
  "choose_entry s es = Some c \<Longrightarrow> \<not> sel_privileged s \<Longrightarrow> me_tier c \<noteq> Privileged"
  by (auto simp: choose_entry_def Let_def find_Some_iff split: if_splits option.splits)

lemma selectEntries_member:
  assumes "e \<in> set (selectEntries m s)"
  shows "e \<in> set (mf_primitives m) \<and> me_side e = SideEnv \<and> me_doc_tool e \<noteq> [] \<and> \<not> has_module e
    \<and> (\<not> sel_privileged s \<longrightarrow> me_tier e \<noteq> Privileged)"
proof -
  from assms obtain n es where g: "(n, es) \<in> set (by_name (mf_primitives m) [])" "choose_entry s es = Some e"
    by (auto simp: selectEntries_def List.map_filter_def)
  have "groups_ok (mf_primitives m) (by_name (mf_primitives m) [])"
    by (rule by_name_ok) (auto simp: groups_ok_def)
  with g choose_entry_in[of s es e] choose_entry_plain[of s es e] show ?thesis
    by (fastforce simp: groups_ok_def)
qed

lemma map_filter_names_distinct:
  assumes "distinct (map fst m)" "\<And>n es c. (n, es) \<in> set m \<Longrightarrow> choose_entry s es = Some c \<Longrightarrow> me_name c = n"
  shows "distinct (map me_name (List.map_filter (\<lambda>(n, es). choose_entry s es) m))"
  using assms
proof (induction m)
  case Nil
  then show ?case by (simp add: List.map_filter_def)
next
  case (Cons a m)
  obtain n es where a: "a = (n, es)" by fastforce
  let ?r = "List.map_filter (\<lambda>(n, es). choose_entry s es) m"
  have names: "me_name ` set ?r \<subseteq> fst ` set m"
    using Cons.prems(2) by (force simp: List.map_filter_def image_iff)
  have IH: "distinct (map me_name ?r)"
    using Cons by auto
  show ?case
  proof (cases "choose_entry s es")
    case None
    then show ?thesis using IH a by (simp add: List.map_filter_simps)
  next
    case (Some c)
    then have "me_name c = n" using Cons.prems(2) a by auto
    moreover have "n \<notin> fst ` set m" using Cons.prems(1) a by simp
    ultimately show ?thesis using IH names a Some by (auto simp: List.map_filter_simps)
  qed
qed

lemma collect_tools_entries:
  "t \<in> set (fst (collect_tools has vs es)) \<Longrightarrow>
     mt_entry t \<in> set es \<and> available (mt_entry t) has \<and> mt_destructive t = moves (mt_entry t)"
  by (induction es) (auto simp: moves_def Let_def split: prod.splits if_splits sum.splits)

lemma collect_tools_names:
  "distinct (map me_name es) \<Longrightarrow>
    distinct (map (\<lambda>t. me_name (mt_entry t)) (fst (collect_tools has vs es)))"
proof (induction es)
  case Nil
  then show ?case by simp
next
  case (Cons e es)
  have "(\<lambda>t. me_name (mt_entry t)) ` set (fst (collect_tools has vs es)) \<subseteq> me_name ` set es"
    by (auto dest: collect_tools_entries)
  moreover have "me_name e \<notin> me_name ` set es" using Cons.prems by simp
  ultimately have "me_name e \<notin> (\<lambda>t. me_name (mt_entry t)) ` set (fst (collect_tools has vs es))"
    by blast
  moreover have "distinct (map (\<lambda>t. me_name (mt_entry t)) (fst (collect_tools has vs es)))"
    using Cons by simp
  ultimately show ?case by (auto simp: Let_def split: prod.split sum.split)
qed

lemma selectEntries_distinct: "distinct (map me_name (selectEntries m s))"
proof -
  have ok: "groups_ok (mf_primitives m) (by_name (mf_primitives m) [])"
    by (rule by_name_ok) (auto simp: groups_ok_def)
  have "me_name c = n" if "(n, es) \<in> set (by_name (mf_primitives m) [])" "choose_entry s es = Some c" for n es c
    using ok that choose_entry_in[OF that(2)] by (fastforce simp: groups_ok_def)
  then show ?thesis unfolding selectEntries_def
    by (intro map_filter_names_distinct by_name_distinct) auto
qed

subsection \<open>Properties\<close>

text \<open>C40: The MCP tools of a manifest are fail closed and unambiguous: tool names are distinct; every
  exposed tool is a declared env-side entry with a tool doc and no pi-side module, holds every
  capability it requires, is marked destructive exactly when it moves the robot, and is not a
  privileged entry unless privileged tools were asked for.\<close>

theorem manifest_tools_fail_closed:
  "distinct (map (\<lambda>t. me_name (mt_entry t)) (fst (manifestTools m s has vs))) \<and>
   list_all (\<lambda>t. mt_entry t \<in> set (mf_primitives m) \<and> me_side (mt_entry t) = SideEnv
        \<and> me_doc_tool (mt_entry t) \<noteq> [] \<and> \<not> has_module (mt_entry t)
        \<and> list_all has (me_requires (mt_entry t))
        \<and> mt_destructive t = moves (mt_entry t)
        \<and> (if sel_privileged s then True else me_tier (mt_entry t) \<noteq> Privileged))
     (fst (manifestTools m s has vs))"
proof -
  have "mt_entry t \<in> set (selectEntries m s) \<and> list_all has (me_requires (mt_entry t)) \<and> mt_destructive t = moves (mt_entry t)"
    if "t \<in> set (fst (manifestTools m s has vs))" for t
    using collect_tools_entries[of t has vs "selectEntries m s"] that
    by (auto simp: manifestTools_def available_def)
  moreover have "if sel_privileged s then True else me_tier (mt_entry t) \<noteq> Privileged"
    if "mt_entry t \<in> set (selectEntries m s)" for t
    using selectEntries_member[OF that] by auto
  ultimately show ?thesis
    using collect_tools_names[OF selectEntries_distinct, of has vs m s] selectEntries_member
    by (fastforce simp: manifestTools_def list_all_iff)
qed

end
