(* ===== verification/Robot_Session.thy ===== *)
theory Robot_Session
  imports Operator_Gate Robot_Manifest
begin

text \<open>
  One MCP session on one robot env server,
  \<^verbatim>\<open>packages/embodied/src/integrations/mcp/session.ts\<close>. Calls run concurrently: every \<open>await\<close>
  of the source is a point where other calls may run. The model is a deterministic step function
  on events; a call that waits is a pending program counter, and the reply it waits for is a later
  event. What the session sends or answers is the output of the step.
\<close>

subsection \<open>Configuration, calls and state\<close>

text \<open>Where the active cameras come from: a list given by the operator, the robot's own question
  to the server, or every declared camera.\<close>

datatype camera_source = GivenCameras "string list" | AskServer | DeclaredCameras

record render_path =
  rp_method :: string
  rp_cameras :: "(string \<times> string) list"
  rp_kwargs :: "string \<Rightarrow> (string \<times> json) list"
  rp_active :: camera_source

record observation_path =
  op_observation :: "string option"
  op_render :: "render_path option"
  op_state :: "string option"

text \<open>\<open>validateToolArguments\<close> (the schema check of \<open>pi-ai\<close>) and \<open>Number\<close> are parameters.\<close>

record sess_config =
  scf_tools :: "mcp_tool list"
  scf_pid :: "int option"
  scf_gate :: op_gate
  scf_validate :: "mcp_tool \<Rightarrow> (string \<times> json) list \<Rightarrow> string + (string \<times> json option) list"
  scf_to_number :: "json \<Rightarrow> rat option"
  scf_path :: "string + observation_path"

datatype pc =
    AtGuard string string "(string \<times> json) list" nat
  | AtRpc
  | AtInterrupt
  | AtStatus
  | AtObservation
  | AtCameras "string option"
  | AtRender string "string list" "string option"
  | AtState

datatype camera_memo = CamUnasked | CamPending | CamKnown "string list"

record sess =
  ss_claimed :: "(string \<times> string) option"
  ss_halted :: bool
  ss_stops :: nat
  ss_broken :: "string option"
  ss_cameras :: camera_memo
  ss_fs :: confirm_fs
  ss_now :: rat
  ss_pending :: "(nat \<times> pc) list"
  ss_next :: nat

text \<open>Replies of the server: an answer, an error of the method, or no server (\<open>RpcUnavailable\<close>).\<close>

datatype 'a reply = ROk 'a | RFail string | RUnavailable string

datatype sess_event =
    ECall string "(string \<times> json) list"
  | EHealthz nat "int option reply"
  | ERpc nat "json reply"
  | ECameras "string list reply"
  | EInterrupted nat
  | EOperator string rat
  | EClock rat

datatype failure =
    RobotFailed string
  | EpisodeFinished
  | MotionStopped
  | StoppedWhileWaiting
  | BadArguments string
  | BadKwargs args_error
  | GuardNoAnswer string
  | WrongProcess int int
  | Unauthorised gate_refusal
  | ServerError string
  | FinishFields
  | NoPath string
  | NothingToObserve
  | NoSuchCamera string
  | NoKnownCamera

record status_report =
  sr_reachable :: bool
  sr_same_process :: "bool option"
  sr_halted :: bool
  sr_stops :: nat
  sr_gate :: gate_status
  sr_claimed :: "(string \<times> string) option"
  sr_broken :: "string option"

datatype answer =
    Failed failure
  | Rendered
  | Stopped
  | Resumed
  | Finished string string
  | Status status_report
  | UnknownTool

datatype sess_out =
    Healthz nat
  | Dispatch nat string string "(string \<times> json) list"
  | Send nat string "(string \<times> json) list"
  | AskCameras
  | Interrupt nat
  | Answer nat answer

subsection \<open>Lookup, refusals, failures\<close>

definition BUILTIN :: "string list" where
  "BUILTIN = [''observe'', ''reset'', ''finish'', ''stop'', ''resume'', ''robot_status'']"

definition AFTER_FINISH :: "string list" where
  "AFTER_FINISH = [''observe'', ''finish'', ''stop'', ''robot_status'']"

definition tool_of :: "sess_config \<Rightarrow> string \<Rightarrow> mcp_tool option" where
  "tool_of cfg name = find (\<lambda>t. me_name (mt_entry t) = name) (rev (scf_tools cfg))"

definition sess_moves :: "sess_config \<Rightarrow> string \<Rightarrow> bool" where
  "sess_moves cfg name =
     (case tool_of cfg name of Some t \<Rightarrow> moves (mt_entry t) | None \<Rightarrow> name \<in> set BUILTIN_MOTIONS)"

definition refusal :: "sess_config \<Rightarrow> string \<Rightarrow> sess \<Rightarrow> failure option" where
  "refusal cfg name s =
     (if ss_broken s \<noteq> None \<and> name \<noteq> ''robot_status'' then Some (RobotFailed (the (ss_broken s)))
      else if ss_claimed s \<noteq> None \<and> name \<notin> set AFTER_FINISH then Some EpisodeFinished
      else if sess_moves cfg name \<and> ss_halted s then Some MotionStopped
      else None)"

definition fail_sess :: "string \<Rightarrow> sess \<Rightarrow> sess" where
  "fail_sess why s = s\<lparr>ss_broken := (case ss_broken s of None \<Rightarrow> Some why | Some w \<Rightarrow> Some w)\<rparr>"

definition wait :: "nat \<Rightarrow> pc \<Rightarrow> sess \<Rightarrow> sess" where
  "wait i p s = s\<lparr>ss_pending := (i, p) # ss_pending s\<rparr>"

definition settle :: "nat \<Rightarrow> sess \<Rightarrow> sess" where
  "settle i s = s\<lparr>ss_pending := filter (\<lambda>(j, _). j \<noteq> i) (ss_pending s)\<rparr>"

definition waiting_at :: "nat \<Rightarrow> sess \<Rightarrow> pc option" where
  "waiting_at i s = map_of (ss_pending s) i"

subsection \<open>Motions and forwarded calls\<close>

definition motion :: "nat \<Rightarrow> string \<Rightarrow> string \<Rightarrow> (string \<times> json) list \<Rightarrow> sess \<Rightarrow> sess \<times> sess_out list" where
  "motion i name method kwargs s = (wait i (AtGuard name method kwargs (ss_stops s)) s, [Healthz i])"

definition forward :: "nat \<Rightarrow> string \<Rightarrow> string \<Rightarrow> (string \<times> json) list \<Rightarrow> sess \<Rightarrow> sess \<times> sess_out list" where
  "forward i name method kwargs s = (wait i AtRpc s, [Dispatch i name method kwargs])"

text \<open>Before a motion the server must answer and be the process this session attached; both pids
  known and different is a refusal.\<close>

definition wrong_process :: "sess_config \<Rightarrow> int option \<Rightarrow> failure option" where
  "wrong_process cfg got =
     (case (scf_pid cfg, got) of
        (Some want, Some g) \<Rightarrow> if g \<noteq> want then Some (WrongProcess g want) else None
      | _ \<Rightarrow> None)"

definition no_healthz :: "string \<Rightarrow> string" where
  "no_healthz e = ''env server did not answer healthz before the motion: '' @ e"

definition motion_guard :: "sess_config \<Rightarrow> int option reply \<Rightarrow> sess \<Rightarrow> failure option \<times> sess" where
  "motion_guard cfg r s =
     (case r of
        RUnavailable e \<Rightarrow> (Some (GuardNoAnswer (no_healthz e)), fail_sess (no_healthz e) s)
      | RFail e \<Rightarrow> (Some (GuardNoAnswer (no_healthz e)), s)
      | ROk got \<Rightarrow> (wrong_process cfg got, s))"

text \<open>After the guard, with no wait in between: the stop generation, the latch and the operator's
  authorisation, then the dispatch.\<close>

definition after_guard :: "sess_config \<Rightarrow> nat \<Rightarrow> string \<Rightarrow> string \<Rightarrow> (string \<times> json) list \<Rightarrow> nat
    \<Rightarrow> int option reply \<Rightarrow> sess \<Rightarrow> sess \<times> sess_out list" where
  "after_guard cfg i name method kwargs admitted r s =
     (case motion_guard cfg r s of
        (Some f, s1) \<Rightarrow> (s1, [Answer i (Failed f)])
      | (None, s1) \<Rightarrow>
          if ss_stops s1 \<noteq> admitted then (s1, [Answer i (Failed StoppedWhileWaiting)])
          else case refusal cfg name s1 of
            Some f \<Rightarrow> (s1, [Answer i (Failed f)])
          | None \<Rightarrow>
              (case authorise (scf_gate cfg) (ss_now s1) name (ss_fs s1) of
                 (Some f, fs') \<Rightarrow> (s1\<lparr>ss_fs := fs'\<rparr>, [Answer i (Failed (Unauthorised f))])
               | (None, fs') \<Rightarrow> forward i name method kwargs (s1\<lparr>ss_fs := fs'\<rparr>)))"

definition after_rpc :: "nat \<Rightarrow> 'a reply \<Rightarrow> sess \<Rightarrow> sess \<times> sess_out list" where
  "after_rpc i r s =
     (case r of
        ROk v \<Rightarrow> (s, [Answer i Rendered])
      | RFail e \<Rightarrow> (s, [Answer i (Failed (ServerError e))])
      | RUnavailable e \<Rightarrow> (fail_sess e s, [Answer i (Failed (ServerError e))]))"

subsection \<open>The observation\<close>

text \<open>The next RPC of an observation: the first camera left, then the state, then the answer.\<close>

definition next_view :: "nat \<Rightarrow> render_path \<Rightarrow> string list \<Rightarrow> string option \<Rightarrow> sess \<Rightarrow> sess \<times> sess_out list" where
  "next_view i rp names st s =
     (case names of
        n # ns \<Rightarrow>
          (wait i (AtRender n ns st) s,
           [Send i (rp_method rp) (rp_kwargs rp (case map_of (rp_cameras rp) n of None \<Rightarrow> [] | Some c \<Rightarrow> c))])
      | [] \<Rightarrow> (case st of
          Some m \<Rightarrow> (wait i AtState s, [Send i m []])
        | None \<Rightarrow> (s, [Answer i Rendered])))"

definition with_cameras :: "nat \<Rightarrow> observation_path \<Rightarrow> render_path \<Rightarrow> string list \<Rightarrow> string option \<Rightarrow> sess \<Rightarrow> sess \<times> sess_out list" where
  "with_cameras i op rp active camera s =
     (let names = (case camera of
            None \<Rightarrow> active
          | Some c \<Rightarrow> filter (\<lambda>k. k = c \<or> map_of (rp_cameras rp) k = Some c) active)
      in if names = [] then (s, [Answer i (Failed (NoSuchCamera (case camera of None \<Rightarrow> [] | Some c \<Rightarrow> c)))])
         else next_view i rp names (if camera = None then op_state op else None) s)"

definition observe :: "sess_config \<Rightarrow> nat \<Rightarrow> string option \<Rightarrow> sess \<Rightarrow> sess \<times> sess_out list" where
  "observe cfg i camera s =
     (case scf_path cfg of
        Inl e \<Rightarrow> (s, [Answer i (Failed (NoPath e))])
      | Inr op \<Rightarrow>
          (case (camera, op_observation op) of
             (None, Some m) \<Rightarrow> (wait i AtObservation s, [Send i m []])
           | _ \<Rightarrow>
             (case op_render op of
                None \<Rightarrow> (s, [Answer i (Failed NothingToObserve)])
              | Some rp \<Rightarrow>
                  (case ss_cameras s of
                     CamKnown active \<Rightarrow> with_cameras i op rp active camera s
                   | CamPending \<Rightarrow> (wait i (AtCameras camera) s, [])
                   | CamUnasked \<Rightarrow> (wait i (AtCameras camera) (s\<lparr>ss_cameras := CamPending\<rparr>), [AskCameras])))))"

text \<open>The discovery of the active cameras settles: every observation that waits for it goes on, in
  the order they asked, or fails with it; only a success is remembered.\<close>

definition known_cameras :: "render_path \<Rightarrow> string list reply \<Rightarrow> failure + string list" where
  "known_cameras rp r =
     (let declared = map fst (rp_cameras rp);
          names = (case rp_active rp of
              GivenCameras ns \<Rightarrow> ROk ns
            | DeclaredCameras \<Rightarrow> ROk declared
            | AskServer \<Rightarrow> r)
      in case names of
           ROk ns \<Rightarrow> (let known = filter (\<lambda>n. n \<in> set declared) ns
                      in if known = [] then Inl NoKnownCamera else Inr known)
         | RFail e \<Rightarrow> Inl (ServerError e)
         | RUnavailable e \<Rightarrow> Inl (ServerError e))"

fun resume_observers :: "observation_path \<Rightarrow> render_path \<Rightarrow> failure + string list
    \<Rightarrow> (nat \<times> string option) list \<Rightarrow> sess \<Rightarrow> sess \<times> sess_out list" where
  "resume_observers op rp res [] s = (s, [])"
| "resume_observers op rp res ((i, camera) # ws) s =
     (let (s1, o1) = (case res of
            Inl f \<Rightarrow> (settle i s, [Answer i (Failed f)])
          | Inr active \<Rightarrow> with_cameras i op rp active camera (settle i s));
          (s2, o2) = resume_observers op rp res ws s1
      in (s2, o1 @ o2))"

definition camera_waiters :: "sess \<Rightarrow> (nat \<times> string option) list" where
  "camera_waiters s = List.map_filter (\<lambda>(i, p). case p of AtCameras c \<Rightarrow> Some (i, c) | _ \<Rightarrow> None) (rev (ss_pending s))"

definition cameras_settle :: "sess_config \<Rightarrow> string list reply \<Rightarrow> sess \<Rightarrow> sess \<times> sess_out list" where
  "cameras_settle cfg r s =
     (case scf_path cfg of
        Inr op \<Rightarrow>
          (case op_render op of
             Some rp \<Rightarrow>
               if ss_cameras s \<noteq> CamPending then (s, [])
               else let s0 = (case (rp_active rp, r) of
                         (AskServer, RUnavailable e) \<Rightarrow> fail_sess e s | _ \<Rightarrow> s);
                        res = known_cameras rp r
                    in resume_observers op rp res (camera_waiters s)
                         (s0\<lparr>ss_cameras := (case res of Inl _ \<Rightarrow> CamUnasked | Inr a \<Rightarrow> CamKnown a)\<rparr>)
           | None \<Rightarrow> (s, []))
      | Inl _ \<Rightarrow> (s, []))"

subsection \<open>Built-in tools\<close>

definition text_field :: "(string \<times> json) list \<Rightarrow> string \<Rightarrow> string option" where
  "text_field args k = (case map_of args k of Some (JStr t) \<Rightarrow> Some t | _ \<Rightarrow> None)"

definition builtin :: "sess_config \<Rightarrow> nat \<Rightarrow> string \<Rightarrow> (string \<times> json) list \<Rightarrow> sess \<Rightarrow> sess \<times> sess_out list" where
  "builtin cfg i name args s =
     (case refusal cfg name s of
        Some f \<Rightarrow> (s, [Answer i (Failed f)])
      | None \<Rightarrow>
          if name = ''robot_status'' then (wait i AtStatus s, [Healthz i])
          else if name = ''reset'' then motion i name ''env.reset'' [] s
          else if name = ''stop'' then
            (wait i AtInterrupt (s\<lparr>ss_halted := True, ss_stops := ss_stops s + 1\<rparr>), [Interrupt i])
          else if name = ''resume'' then (s\<lparr>ss_halted := False\<rparr>, [Answer i Resumed])
          else if name = ''finish'' then
            (let status = (case text_field args ''status'' of None \<Rightarrow> [] | Some t \<Rightarrow> t);
                 summary = (case text_field args ''summary'' of None \<Rightarrow> [] | Some t \<Rightarrow> t)
             in if status = [] \<or> summary = [] then (s, [Answer i (Failed FinishFields)])
                else (s\<lparr>ss_claimed := Some (status, summary)\<rparr>, [Answer i (Finished status summary)]))
          else observe cfg i (text_field args ''camera'') s)"

definition status_report_of :: "sess_config \<Rightarrow> int option reply \<Rightarrow> sess \<Rightarrow> status_report" where
  "status_report_of cfg r s =
     (let got = (case r of ROk p \<Rightarrow> p | _ \<Rightarrow> None) in
      \<lparr>sr_reachable = (case r of ROk _ \<Rightarrow> True | _ \<Rightarrow> False),
       sr_same_process = (case (scf_pid cfg, got) of (Some w, Some g) \<Rightarrow> Some (g = w) | _ \<Rightarrow> None),
       sr_halted = ss_halted s, sr_stops = ss_stops s,
       sr_gate = gate_status_of (scf_gate cfg) (ss_now s) (ss_fs s),
       sr_claimed = ss_claimed s, sr_broken = ss_broken s\<rparr>)"

subsection \<open>A call and the steps of the session\<close>

definition call_manifest :: "sess_config \<Rightarrow> nat \<Rightarrow> string \<Rightarrow> (string \<times> json) list \<Rightarrow> sess \<Rightarrow> sess \<times> sess_out list" where
  "call_manifest cfg i name args s =
     (case tool_of cfg name of
        None \<Rightarrow> (s, [Answer i UnknownTool])
      | Some t \<Rightarrow>
          (case refusal cfg name s of
             Some f \<Rightarrow> (s, [Answer i (Failed f)])
           | None \<Rightarrow>
               (case scf_validate cfg t args of
                  Inl e \<Rightarrow> (s, [Answer i (Failed (BadArguments e))])
                | Inr params \<Rightarrow>
                    (case rpcArguments (scf_to_number cfg) (mt_entry t) params of
                       Inl e \<Rightarrow> (s, [Answer i (Failed (BadKwargs e))])
                     | Inr kwargs \<Rightarrow>
                         (let m = (case me_method (mt_entry t) of None \<Rightarrow> [] | Some m \<Rightarrow> m)
                          in if moves (mt_entry t) then motion i name m kwargs s
                             else forward i name m kwargs s)))))"

definition call :: "sess_config \<Rightarrow> string \<Rightarrow> (string \<times> json) list \<Rightarrow> sess \<Rightarrow> sess \<times> sess_out list" where
  "call cfg name args s =
     (let i = ss_next s; s0 = s\<lparr>ss_next := i + 1\<rparr> in
      if name \<in> set BUILTIN then builtin cfg i name args s0 else call_manifest cfg i name args s0)"

text \<open>A reply for a call that does not wait for it changes nothing.\<close>

definition sess_step :: "sess_config \<Rightarrow> sess_event \<Rightarrow> sess \<Rightarrow> sess \<times> sess_out list" where
  "sess_step cfg e s =
     (case e of
        ECall name args \<Rightarrow> call cfg name args s
      | EHealthz i r \<Rightarrow>
          (case waiting_at i s of
             Some (AtGuard name m kw admitted) \<Rightarrow> after_guard cfg i name m kw admitted r (settle i s)
           | Some AtStatus \<Rightarrow> (settle i s, [Answer i (Status (status_report_of cfg r s))])
           | _ \<Rightarrow> (s, []))
      | ERpc i r \<Rightarrow>
          (case waiting_at i s of
             Some AtRpc \<Rightarrow> after_rpc i r (settle i s)
           | Some AtObservation \<Rightarrow> after_rpc i r (settle i s)
           | Some AtState \<Rightarrow> after_rpc i r (settle i s)
           | Some (AtRender n ns st) \<Rightarrow>
               (case (r, scf_path cfg) of
                  (ROk _, Inr op) \<Rightarrow>
                    (case op_render op of
                       Some rp \<Rightarrow> next_view i rp ns st (settle i s)
                     | None \<Rightarrow> (s, []))
                | _ \<Rightarrow> after_rpc i r (settle i s))
           | _ \<Rightarrow> (s, []))
      | ECameras r \<Rightarrow> cameras_settle cfg r s
      | EInterrupted i \<Rightarrow>
          (case waiting_at i s of
             Some AtInterrupt \<Rightarrow> (settle i s, [Answer i Stopped])
           | _ \<Rightarrow> (s, []))
      | EOperator content mtime \<Rightarrow> (s\<lparr>ss_fs := (ss_fs s)\<lparr>cf_entry := Holds content mtime\<rparr>\<rparr>, [])
      | EClock t \<Rightarrow> (s\<lparr>ss_now := t\<rparr>, []))"

fun sess_run :: "sess_config \<Rightarrow> sess_event list \<Rightarrow> sess \<Rightarrow> sess \<times> sess_out list" where
  "sess_run cfg [] s = (s, [])"
| "sess_run cfg (e # es) s =
     (let (s1, o1) = sess_step cfg e s; (s2, o2) = sess_run cfg es s1 in (s2, o1 @ o2))"

definition sess_init :: "confirm_fs \<Rightarrow> rat \<Rightarrow> sess" where
  "sess_init fs now =
     \<lparr>ss_claimed = None, ss_halted = False, ss_stops = 0, ss_broken = None, ss_cameras = CamUnasked,
      ss_fs = fs, ss_now = now, ss_pending = [], ss_next = 0\<rparr>"

end
