(* ===== verification/Robot_Session_Safety.thy ===== *)
theory Robot_Session_Safety
  imports Robot_Session
begin

text \<open>
  What the robot session guarantees under every interleaving of calls, replies, operator writes
  and clock readings: a motion is handed to the RPC client only past every guard, and tickets are spent one
  per motion; with the invariants of pending guards that \<open>Robot_Session_Sends\<close> builds on.
\<close>

subsection \<open>Frame rules of the helpers\<close>

lemma wait_fields [sess_simps]:
  "ss_pending (wait i p s) = (i, p) # ss_pending s" "ss_stops (wait i p s) = ss_stops s"
  "ss_broken (wait i p s) = ss_broken s" "ss_claimed (wait i p s) = ss_claimed s"
  "ss_halted (wait i p s) = ss_halted s" "ss_next (wait i p s) = ss_next s" "ss_fs (wait i p s) = ss_fs s"
  "ss_now (wait i p s) = ss_now s" "ss_cameras (wait i p s) = ss_cameras s"
  by (simp_all add: wait_def)

lemma settle_fields [sess_simps]:
  "ss_pending (settle i s) = filter (\<lambda>(j, _). j \<noteq> i) (ss_pending s)" "ss_stops (settle i s) = ss_stops s"
  "ss_broken (settle i s) = ss_broken s" "ss_claimed (settle i s) = ss_claimed s"
  "ss_halted (settle i s) = ss_halted s" "ss_next (settle i s) = ss_next s" "ss_fs (settle i s) = ss_fs s"
  "ss_now (settle i s) = ss_now s" "ss_cameras (settle i s) = ss_cameras s"
  by (simp_all add: settle_def)

lemma fail_fields [sess_simps]:
  "ss_pending (fail_sess w s) = ss_pending s" "ss_stops (fail_sess w s) = ss_stops s"
  "\<exists>y. ss_broken (fail_sess w s) = Some y" "ss_claimed (fail_sess w s) = ss_claimed s"
  "ss_halted (fail_sess w s) = ss_halted s" "ss_next (fail_sess w s) = ss_next s" "ss_fs (fail_sess w s) = ss_fs s"
  "ss_now (fail_sess w s) = ss_now s" "ss_cameras (fail_sess w s) = ss_cameras s"
  by (auto simp: fail_sess_def split: option.split)

lemma refusal_settle [sess_simps]: "refusal cfg n (settle i s) = refusal cfg n s"
  by (simp add: refusal_def sess_simps)

lemma refusal_None:
  "refusal cfg n s = None \<Longrightarrow>
    (ss_broken s = None \<or> n = ''robot_status'') \<and> (ss_claimed s = None \<or> n \<in> set AFTER_FINISH)
    \<and> (sess_moves cfg n \<longrightarrow> \<not> ss_halted s)"
  by (cases "ss_claimed s") (auto simp: refusal_def split: if_splits)

text \<open>The observation only reads: it sends observation requests and waits at observation points.\<close>

definition observing_pc :: "pc \<Rightarrow> bool" where
  "observing_pc p = (case p of AtObservation \<Rightarrow> True | AtCameras _ \<Rightarrow> True | AtRender _ _ _ \<Rightarrow> True
     | AtState \<Rightarrow> True | _ \<Rightarrow> False)"

definition quiet_out :: "sess_out \<Rightarrow> bool" where
  "quiet_out x = (case x of Dispatch _ _ _ _ \<Rightarrow> False | _ \<Rightarrow> True)"

text \<open>The fields a motion's safety depends on.\<close>

definition same_core :: "sess \<Rightarrow> sess \<Rightarrow> bool" where
  "same_core s t \<longleftrightarrow> ss_stops t = ss_stops s \<and> ss_claimed t = ss_claimed s \<and> ss_halted t = ss_halted s
     \<and> ss_next t = ss_next s \<and> ss_fs t = ss_fs s \<and> (ss_broken s \<noteq> None \<longrightarrow> ss_broken t \<noteq> None)"

definition only_observes :: "sess \<Rightarrow> sess \<times> sess_out list \<Rightarrow> bool" where
  "only_observes s r \<longleftrightarrow> same_core s (fst r) \<and> list_all quiet_out (snd r)
     \<and> (\<forall>x \<in> set (ss_pending (fst r)). x \<in> set (ss_pending s) \<or> observing_pc (snd x))"

lemma only_observes_answer [simp]: "only_observes s (s, [Answer i a])"
  by (simp add: only_observes_def same_core_def quiet_out_def)

lemma only_observes_refl [simp]: "only_observes s (s, [])"
  by (simp add: only_observes_def same_core_def)

lemma next_view_observes: "only_observes s (next_view i rp ns st s)"
  by (auto simp: next_view_def only_observes_def same_core_def quiet_out_def observing_pc_def sess_simps
      split: list.split option.split)

lemma with_cameras_observes: "only_observes s (with_cameras i op rp active camera s)"
  by (simp add: with_cameras_def Let_def next_view_observes)

lemma observe_observes: "only_observes s (observe cfg i camera s)"
proof -
  have "only_observes s (wait i p s, [Send i m []])" if "observing_pc p" for p m
    using that by (simp add: only_observes_def same_core_def quiet_out_def sess_simps)
  moreover have "only_observes s (wait i (AtCameras camera) s, [])"
    by (simp add: only_observes_def same_core_def observing_pc_def sess_simps)
  moreover have "only_observes s (wait i (AtCameras camera) (s\<lparr>ss_cameras := CamPending\<rparr>), [AskCameras])"
    by (simp add: only_observes_def same_core_def quiet_out_def observing_pc_def sess_simps)
  ultimately show ?thesis
    by (auto simp: observe_def observing_pc_def with_cameras_observes split: sum.split option.split camera_memo.split)
qed

lemma only_observes_trans:
  assumes "only_observes s (t, o1)" "only_observes t (u, o2)"
  shows "only_observes s (u, o1 @ o2)"
  using assms by (fastforce simp: only_observes_def same_core_def)

lemma settle_observes: "only_observes s (settle i s, [])"
  by (auto simp: only_observes_def same_core_def sess_simps)

lemma resume_observers_observes: "only_observes s (resume_observers op rp res ws s)"
proof (induction ws arbitrary: s)
  case Nil
  then show ?case by simp
next
  case (Cons w ws)
  obtain i camera where w: "w = (i, camera)" by fastforce
  let ?r = "case res of Inl f \<Rightarrow> (settle i s, [Answer i (Failed f)])
            | Inr active \<Rightarrow> with_cameras i op rp active camera (settle i s)"
  have "only_observes (settle i s) ?r" by (simp add: with_cameras_observes split: sum.split)
  from only_observes_trans[OF settle_observes, of i s "fst ?r" "snd ?r"] this
  have 1: "only_observes s (fst ?r, snd ?r)" by simp
  have "only_observes s (fst (resume_observers op rp res ws (fst ?r)), snd ?r @ snd (resume_observers op rp res ws (fst ?r)))"
    using 1 Cons[of "fst ?r"] by (intro only_observes_trans[OF 1]) simp
  then show ?case using w by (simp add: Let_def case_prod_unfold)
qed

lemma cameras_settle_observes: "only_observes s (cameras_settle cfg r s)"
proof -
  have "only_observes s (resume_observers op rp res ws (t\<lparr>ss_cameras := c\<rparr>))"
    if "t = s \<or> (\<exists>e. t = fail_sess e s)" for op rp res ws c t
  proof -
    have "only_observes s (t\<lparr>ss_cameras := c\<rparr>, [])"
      using that by (auto simp: only_observes_def same_core_def sess_simps)
    from only_observes_trans[OF this, of "fst (resume_observers op rp res ws (t\<lparr>ss_cameras := c\<rparr>))"
        "snd (resume_observers op rp res ws (t\<lparr>ss_cameras := c\<rparr>))"]
    show ?thesis using resume_observers_observes by simp
  qed
  then have "only_observes s (resume_observers op rp res ws (s\<lparr>ss_cameras := c\<rparr>))"
      "only_observes s (resume_observers op rp res ws ((fail_sess e s)\<lparr>ss_cameras := c\<rparr>))" for op rp res ws c e
    by blast+
  then show ?thesis
    by (auto simp: cameras_settle_def Let_def split: sum.split option.split camera_source.split reply.split)
qed

subsection \<open>Where a dispatch comes from\<close>

lemma after_guard_dispatch:
  assumes "Dispatch j n m kw \<in> set (snd (after_guard cfg i name method kwargs admitted r s))"
  shows "j = i \<and> n = name \<and> m = method \<and> kw = kwargs \<and> ss_stops s = admitted \<and> refusal cfg name s = None
    \<and> (\<exists>p. r = ROk p \<and> wrong_process cfg p = None)
    \<and> fst (authorise (scf_gate cfg) (ss_now s) name (ss_fs s)) = None
    \<and> ss_fs (fst (after_guard cfg i name method kwargs admitted r s))
        = snd (authorise (scf_gate cfg) (ss_now s) name (ss_fs s))"
  using assms
  by (auto simp: after_guard_def motion_guard_def forward_def sess_simps
      split: prod.splits option.splits if_splits reply.splits)

lemma motion_quiet: "list_all quiet_out (snd (motion i n m kw s))"
  by (simp add: motion_def quiet_out_def)

lemma refusal_next [sess_simps]: "refusal cfg n (s\<lparr>ss_next := k\<rparr>) = refusal cfg n s"
  by (simp add: refusal_def)

lemma builtin_quiet: "list_all quiet_out (snd (builtin cfg i name args s))"
proof -
  have "list_all quiet_out (snd (observe cfg i (text_field args ''camera'') s))"
    using observe_observes by (simp add: only_observes_def)
  then show ?thesis
    unfolding builtin_def Let_def motion_def
    by (cases "refusal cfg name s") (simp_all add: quiet_out_def if_distrib[where f = snd] del: observe_def)
qed

lemma call_manifest_dispatch:
  assumes "Dispatch j n m kw \<in> set (snd (call_manifest cfg i name args s))"
  shows "j = i \<and> n = name \<and> \<not> sess_moves cfg n \<and> refusal cfg n s = None"
  using assms
  by (simp add: call_manifest_def Let_def motion_def forward_def sess_moves_def
      split: option.splits sum.splits if_splits)

lemma call_dispatch:
  assumes "Dispatch i n m kw \<in> set (snd (call cfg name args s))"
  shows "i = ss_next s \<and> n = name \<and> \<not> sess_moves cfg n \<and> n \<notin> set BUILTIN \<and> refusal cfg n s = None"
proof (cases "name \<in> set BUILTIN")
  case True
  with assms builtin_quiet show ?thesis
    by (force simp: call_def Let_def list_all_iff quiet_out_def)
next
  case False
  with assms call_manifest_dispatch[of i n m kw cfg "ss_next s" name args "s\<lparr>ss_next := ss_next s + 1\<rparr>"]
  show ?thesis by (auto simp: call_def Let_def sess_simps)
qed

lemma after_rpc_quiet: "list_all quiet_out (snd (after_rpc i r s))"
  by (simp add: after_rpc_def quiet_out_def split: reply.split)

lemma step_dispatch_cases:
  assumes "Dispatch i n m kw \<in> set (snd (sess_step cfg e s))"
  obtains (called) args where "e = ECall n args" "i = ss_next s" "\<not> sess_moves cfg n" "n \<notin> set BUILTIN"
      "refusal cfg n s = None"
  | (guarded) p where "e = EHealthz i (ROk p)" "waiting_at i s = Some (AtGuard n m kw (ss_stops s))"
      "refusal cfg n s = None" "wrong_process cfg p = None"
      "fst (authorise (scf_gate cfg) (ss_now s) n (ss_fs s)) = None"
      "ss_fs (fst (sess_step cfg e s)) = snd (authorise (scf_gate cfg) (ss_now s) n (ss_fs s))"
proof (cases e)
  case (ECall name args)
  with assms have "Dispatch i n m kw \<in> set (snd (call cfg name args s))" by (simp add: sess_step_def)
  from call_dispatch[OF this] called ECall show thesis by blast
next
  case (EHealthz j r)
  with assms obtain name m' kw' admitted where w: "waiting_at j s = Some (AtGuard name m' kw' admitted)"
    by (auto simp: sess_step_def split: option.splits pc.splits)
  with assms EHealthz have "Dispatch i n m kw \<in> set (snd (after_guard cfg j name m' kw' admitted r (settle j s)))"
    by (simp add: sess_step_def)
  from after_guard_dispatch[OF this] w EHealthz guarded show thesis
    by (auto simp: sess_step_def sess_simps)
next
  case (ERpc j r)
  have "list_all quiet_out (snd (sess_step cfg e s))"
    using after_rpc_quiet next_view_observes unfolding ERpc
    by (auto simp: sess_step_def only_observes_def split: option.split pc.split reply.split sum.split)
  with assms show thesis by (force simp: list_all_iff quiet_out_def)
next
  case (ECameras r)
  then have "list_all quiet_out (snd (sess_step cfg e s))"
    using cameras_settle_observes[of s cfg r] by (simp add: sess_step_def only_observes_def)
  with assms show thesis by (force simp: list_all_iff quiet_out_def)
next
  case (EInterrupted j)
  with assms show thesis by (auto simp: sess_step_def split: option.splits pc.splits)
next
  case (EOperator c t)
  with assms show thesis by (simp add: sess_step_def)
next
  case (EClock t)
  with assms show thesis by (simp add: sess_step_def)
qed

subsection \<open>What a step keeps\<close>

text \<open>A guard a call installs carries the current stop generation and a name that is neither
  admitted after finish nor the status tool.\<close>

definition fresh_guard :: "sess \<Rightarrow> nat \<Rightarrow> pc \<Rightarrow> bool" where
  "fresh_guard s i p \<longleftrightarrow> (case p of
      AtGuard n _ _ adm \<Rightarrow> i = ss_next s \<and> adm = ss_stops s \<and> n \<notin> set AFTER_FINISH
    | _ \<Rightarrow> True)"

definition advances :: "sess \<Rightarrow> sess \<Rightarrow> bool" where
  "advances s t \<longleftrightarrow> ss_stops s \<le> ss_stops t \<and> ss_next s \<le> ss_next t
     \<and> (ss_broken s \<noteq> None \<longrightarrow> ss_broken t \<noteq> None) \<and> (ss_claimed s \<noteq> None \<longrightarrow> ss_claimed t \<noteq> None)
     \<and> (\<forall>(i, p) \<in> set (ss_pending t). (i, p) \<in> set (ss_pending s) \<or> fresh_guard s i p)"

lemma advances_refl [simp]: "advances s s"
  by (auto simp: advances_def)

lemma advances_observes: "only_observes s r \<Longrightarrow> advances s (fst r)"
  by (fastforce simp: only_observes_def same_core_def advances_def fresh_guard_def observing_pc_def
      split: pc.splits)

lemma fresh_guard_settle: "fresh_guard (settle i s) = fresh_guard s"
  by (auto simp: fun_eq_iff fresh_guard_def sess_simps split: pc.split)

lemma advances_settle: "advances (settle i s) t \<Longrightarrow> advances s t"
  by (auto simp: advances_def sess_simps fresh_guard_settle)

lemma advances_settled: "advances s (settle i s)"
  by (auto simp: advances_def sess_simps)

lemma advances_wait: "fresh_guard s i p \<Longrightarrow> advances s (wait i p s)"
  by (auto simp: advances_def sess_simps)

lemma advances_fail: "advances s (fail_sess w s)"
  by (auto simp: advances_def sess_simps)

lemma after_rpc_advances: "advances s (fst (after_rpc i r s))"
  by (simp add: after_rpc_def advances_fail split: reply.split)

lemma after_guard_advances: "advances s (fst (after_guard cfg i n m kw adm r s))"
proof -
  have "advances s (wait i AtRpc (s\<lparr>ss_fs := f\<rparr>))" "advances s (s\<lparr>ss_fs := f\<rparr>)" for f
    by (auto simp: advances_def sess_simps fresh_guard_def)
  then show ?thesis
    by (auto simp: after_guard_def motion_guard_def forward_def advances_fail
        split: prod.split option.split reply.split)
qed

lemma advances_bump: "advances s (s\<lparr>ss_next := ss_next s + 1\<rparr>)"
  by (simp add: advances_def case_prod_unfold)

lemma motion_advances:
  "n \<notin> set AFTER_FINISH \<Longrightarrow> s = t\<lparr>ss_next := ss_next t + 1\<rparr> \<Longrightarrow>
    advances t (fst (motion (ss_next t) n m kw s))"
  by (auto simp: motion_def advances_def sess_simps fresh_guard_def)

lemma builtin_advances:
  assumes "s = t\<lparr>ss_next := ss_next t + 1\<rparr>"
  shows "advances t (fst (builtin cfg (ss_next t) name args s))"
proof -
  have obs: "advances t (fst (observe cfg (ss_next t) c s))" for c
    using observe_observes[of s cfg "ss_next t" c] assms
    by (fastforce simp: only_observes_def same_core_def advances_def fresh_guard_def observing_pc_def
        split: pc.splits)
  have base: "advances t s" using assms advances_bump by simp
  have mot: "name = ''reset'' \<Longrightarrow> advances t (fst (motion (ss_next t) name ''env.reset'' [] s))"
    using assms by (intro motion_advances) (auto simp: AFTER_FINISH_def)
  have st: "advances t (wait (ss_next t) AtStatus s)"
    "advances t (wait (ss_next t) AtInterrupt (s\<lparr>ss_halted := True, ss_stops := ss_stops s + 1\<rparr>))"
    "advances t (s\<lparr>ss_halted := False\<rparr>)" "advances t (s\<lparr>ss_claimed := Some c\<rparr>)" for c
    using assms by (auto simp: advances_def sess_simps fresh_guard_def)
  show ?thesis
    using obs base mot st by (cases "refusal cfg name s") (simp_all add: builtin_def Let_def)
qed

lemma call_advances: "advances s (fst (call cfg name args s))"
proof (cases "name \<in> set BUILTIN")
  case True
  then show ?thesis using builtin_advances[OF refl] by (simp add: call_def Let_def)
next
  case False
  then have n: "name \<notin> set AFTER_FINISH" by (auto simp: BUILTIN_def AFTER_FINISH_def)
  let ?s = "s\<lparr>ss_next := ss_next s + 1\<rparr>"
  have "advances s (fst (motion (ss_next s) name m kw ?s))" for m kw
    using n by (intro motion_advances) auto
  moreover have "advances s (fst (forward (ss_next s) name m kw ?s))" for m kw
    by (auto simp: forward_def advances_def sess_simps fresh_guard_def)
  ultimately show ?thesis using False advances_bump[of s]
    by (simp add: call_def call_manifest_def Let_def split: option.split sum.split)
qed

lemma step_advances: "advances s (fst (sess_step cfg e s))"
proof (cases e)
  case (ECall name args)
  then show ?thesis using call_advances by (simp add: sess_step_def)
next
  case (EHealthz i r)
  then show ?thesis using advances_settled advances_settle[OF after_guard_advances]
    by (simp add: sess_step_def split: option.split pc.split)
next
  case (ERpc i r)
  then show ?thesis
    using advances_settle[OF after_rpc_advances] advances_settle[OF advances_observes[OF next_view_observes]]
    by (auto simp: sess_step_def split: option.split pc.split reply.split sum.split)
next
  case (ECameras r)
  then show ?thesis using advances_observes[OF cameras_settle_observes] by (simp add: sess_step_def)
next
  case (EInterrupted i)
  then show ?thesis using advances_settled by (simp add: sess_step_def split: option.split pc.split)
next
  case (EOperator c t)
  then show ?thesis by (auto simp: sess_step_def advances_def)
next
  case (EClock t)
  then show ?thesis by (auto simp: sess_step_def advances_def)
qed

lemma run_advances_core:
  "sess_run cfg es s = (t, outs) \<Longrightarrow> ss_stops s \<le> ss_stops t \<and> ss_next s \<le> ss_next t
     \<and> (ss_broken s \<noteq> None \<longrightarrow> ss_broken t \<noteq> None) \<and> (ss_claimed s \<noteq> None \<longrightarrow> ss_claimed t \<noteq> None)"
proof (induction es arbitrary: s t outs)
  case Nil
  then show ?case by simp
next
  case (Cons e es)
  obtain s1 o1 where 1: "sess_step cfg e s = (s1, o1)" by fastforce
  obtain s2 o2 where 2: "sess_run cfg es s1 = (s2, o2)" by fastforce
  from Cons.prems 1 2 have t: "t = s2" by simp
  have "ss_stops s \<le> ss_stops s1 \<and> ss_next s \<le> ss_next s1
     \<and> (ss_broken s \<noteq> None \<longrightarrow> ss_broken s1 \<noteq> None) \<and> (ss_claimed s \<noteq> None \<longrightarrow> ss_claimed s1 \<noteq> None)"
    using step_advances[of s cfg e] 1 by (simp add: advances_def)
  with Cons.IH[OF 2] t show ?case by (meson le_trans)
qed

subsection \<open>The invariant of pending motions\<close>

definition guards_ok :: "sess \<Rightarrow> bool" where
  "guards_ok s \<longleftrightarrow> (\<forall>(i, p) \<in> set (ss_pending s). case p of
      AtGuard n _ _ adm \<Rightarrow> i < ss_next s \<and> adm \<le> ss_stops s \<and> n \<notin> set AFTER_FINISH
    | _ \<Rightarrow> True)"

lemma guards_ok_init [simp]: "guards_ok (sess_init fs now)"
  by (simp add: guards_ok_def sess_init_def)

lemma call_fresh_next: "ss_next (fst (call cfg name args s)) = ss_next s + 1"
proof -
  let ?s = "s\<lparr>ss_next := ss_next s + 1\<rparr>"
  have "ss_next (fst (observe cfg i c ?s)) = ss_next s + 1" for i c
    using observe_observes[of ?s cfg i c] by (simp add: only_observes_def same_core_def)
  then have "ss_next (fst (builtin cfg i name args ?s)) = ss_next s + 1" for i
    by (cases "refusal cfg name ?s") (simp_all add: builtin_def motion_def Let_def sess_simps)
  then show ?thesis
    by (simp add: call_def call_manifest_def motion_def forward_def Let_def sess_simps
        split: option.split sum.split)
qed

lemma step_guards_ok:
  assumes "guards_ok s"
  shows "guards_ok (fst (sess_step cfg e s))"
proof -
  let ?t = "fst (sess_step cfg e s)"
  have adv: "advances s ?t" by (rule step_advances)
  have "case p of AtGuard n _ _ adm \<Rightarrow> i < ss_next ?t \<and> adm \<le> ss_stops ?t \<and> n \<notin> set AFTER_FINISH | _ \<Rightarrow> True"
    if ip: "(i, p) \<in> set (ss_pending ?t)" for i p
  proof (cases "(i, p) \<in> set (ss_pending s)")
    case True
    with assms adv show ?thesis by (fastforce simp: guards_ok_def advances_def split: pc.splits)
  next
    case False
    with ip adv have f: "fresh_guard s i p" by (auto simp: advances_def)
    have "\<exists>n a. e = ECall n a" if "p = AtGuard n' m kw adm" for n' m kw adm
    proof (cases e)
      case (EHealthz j r)
      with ip False that show ?thesis
        by (auto simp: sess_step_def after_guard_def motion_guard_def forward_def sess_simps
            split: option.splits pc.splits prod.splits reply.splits if_splits)
    next
      case (ERpc j r)
      have "p = AtGuard n' m kw adm \<Longrightarrow> (i, p) \<in> set (ss_pending (fst (next_view j rp ns st (settle j s)))) \<Longrightarrow>
          (i, p) \<in> set (ss_pending s)" for rp ns st
        using next_view_observes[of "settle j s" j rp ns st]
        by (fastforce simp: only_observes_def observing_pc_def sess_simps)
      with ip False that ERpc show ?thesis
        by (auto simp: sess_step_def after_rpc_def sess_simps
            split: option.splits pc.splits reply.splits sum.splits)
    next
      case (ECameras r)
      with ip False that cameras_settle_observes[of s cfg r] show ?thesis
        by (fastforce simp: sess_step_def only_observes_def observing_pc_def)
    qed (use ip False that in \<open>auto simp: sess_step_def sess_simps split: option.splits pc.splits\<close>)
    with f adv call_fresh_next show ?thesis
      by (fastforce simp: fresh_guard_def advances_def sess_step_def split: pc.split)
  qed
  then show ?thesis by (auto simp: guards_ok_def)
qed

lemma run_guards_ok: "guards_ok s \<Longrightarrow> guards_ok (fst (sess_run cfg es s))"
proof (induction es arbitrary: s)
  case Nil
  then show ?case by simp
next
  case (Cons e es)
  from Cons.IH[OF step_guards_ok[OF Cons.prems]] show ?case
    by (simp add: Let_def case_prod_unfold)
qed

lemma waiting_at_in: "waiting_at i s = Some p \<Longrightarrow> (i, p) \<in> set (ss_pending s)"
  by (simp add: waiting_at_def map_of_SomeD)

subsection \<open>Dispatches of a run\<close>

definition dispatched :: "sess_out list \<Rightarrow> (nat \<times> string) list" where
  "dispatched outs = List.map_filter (\<lambda>x. case x of Dispatch i n _ _ \<Rightarrow> Some (i, n) | _ \<Rightarrow> None) outs"

lemma dispatched_append [simp]: "dispatched (xs @ ys) = dispatched xs @ dispatched ys"
  by (simp add: dispatched_def List.map_filter_def)

lemma dispatched_Nil [simp]: "dispatched [] = []"
  by (simp add: dispatched_def List.map_filter_def)

lemma dispatched_Cons:
  "dispatched (x # xs) = (case x of Dispatch i n _ _ \<Rightarrow> [(i, n)] | _ \<Rightarrow> []) @ dispatched xs"
  by (cases x) (simp_all add: dispatched_def List.map_filter_def)

lemma dispatched_mem: "(i, n) \<in> set (dispatched outs) \<longleftrightarrow> (\<exists>m kw. Dispatch i n m kw \<in> set outs)"
  by (induction outs) (auto simp: dispatched_Cons split: sess_out.split)

lemma dispatched_quiet: "list_all quiet_out outs \<Longrightarrow> dispatched outs = []"
  by (induction outs) (auto simp: dispatched_Cons quiet_out_def split: sess_out.splits)

text \<open>When no later step may dispatch a call older than \<open>k\<close>: the session is over, or every older
  guard was admitted under an earlier stop generation.\<close>

definition overtaken :: "nat \<Rightarrow> sess \<Rightarrow> bool" where
  "overtaken k s \<longleftrightarrow> k \<le> ss_next s \<and> (ss_broken s \<noteq> None \<or>
     (\<forall>(i, p) \<in> set (ss_pending s). i < k \<longrightarrow>
        (case p of AtGuard _ _ _ adm \<Rightarrow> adm < ss_stops s | _ \<Rightarrow> True)))"

lemma step_overtaken:
  assumes "guards_ok s" "overtaken k s"
  shows "overtaken k (fst (sess_step cfg e s))" "\<forall>(i, n) \<in> set (dispatched (snd (sess_step cfg e s))). k \<le> i"
proof -
  have adv: "advances s (fst (sess_step cfg e s))" by (rule step_advances)
  then show "overtaken k (fst (sess_step cfg e s))"
    using assms(2) by (fastforce simp: overtaken_def advances_def fresh_guard_def split: pc.splits)
  show "\<forall>(i, n) \<in> set (dispatched (snd (sess_step cfg e s))). k \<le> i"
  proof (clarify)
    fix i n
    assume "(i, n) \<in> set (dispatched (snd (sess_step cfg e s)))"
    then obtain m kw where d: "Dispatch i n m kw \<in> set (snd (sess_step cfg e s))"
      by (auto simp: dispatched_mem)
    from d show "k \<le> i"
    proof (cases rule: step_dispatch_cases)
      case (called args)
      then show ?thesis using assms(2) by (simp add: overtaken_def)
    next
      case (guarded p)
      then have g: "(i, AtGuard n m kw (ss_stops s)) \<in> set (ss_pending s)" by (simp add: waiting_at_in)
      then have "n \<notin> set AFTER_FINISH" using assms(1) by (fastforce simp: guards_ok_def)
      then have "ss_broken s = None" using refusal_None[OF guarded(3)] by (auto simp: AFTER_FINISH_def)
      then show ?thesis using g assms(2) by (fastforce simp: overtaken_def)
    qed
  qed
qed

lemma run_overtaken:
  "guards_ok s \<Longrightarrow> overtaken k s \<Longrightarrow> \<forall>(i, n) \<in> set (dispatched (snd (sess_run cfg es s))). k \<le> i"
proof (induction es arbitrary: s)
  case Nil
  then show ?case by simp
next
  case (Cons e es)
  from Cons.IH[OF step_guards_ok[OF Cons.prems(1)] step_overtaken(1)[OF Cons.prems], of cfg e]
    step_overtaken(2)[OF Cons.prems, of cfg e]
  show ?case by (auto simp: Let_def case_prod_unfold)
qed

definition episode_over :: "sess \<Rightarrow> bool" where
  "episode_over s \<longleftrightarrow> ss_claimed s \<noteq> None \<or> ss_broken s \<noteq> None"

lemma step_over:
  assumes "guards_ok s" "episode_over s"
  shows "episode_over (fst (sess_step cfg e s)) \<and> dispatched (snd (sess_step cfg e s)) = []"
proof -
  have "episode_over (fst (sess_step cfg e s))"
    using assms(2) step_advances[of s cfg e] by (auto simp: episode_over_def advances_def)
  moreover have False if "(i, n) \<in> set (dispatched (snd (sess_step cfg e s)))" for i n
  proof -
    from that obtain m kw where "Dispatch i n m kw \<in> set (snd (sess_step cfg e s))"
      by (auto simp: dispatched_mem)
    then have "refusal cfg n s = None \<and> n \<notin> set AFTER_FINISH"
    proof (cases rule: step_dispatch_cases)
      case (called args)
      then show ?thesis by (auto simp: BUILTIN_def AFTER_FINISH_def)
    next
      case (guarded p)
      then show ?thesis using waiting_at_in[OF guarded(2)] assms(1) by (fastforce simp: guards_ok_def)
    qed
    with refusal_None[of cfg n s] assms(2) show False by (auto simp: episode_over_def AFTER_FINISH_def)
  qed
  ultimately show ?thesis by (cases "dispatched (snd (sess_step cfg e s))") auto
qed

lemma run_over: "guards_ok s \<Longrightarrow> episode_over s \<Longrightarrow> dispatched (snd (sess_run cfg es s)) = []"
proof (induction es arbitrary: s)
  case Nil
  then show ?case by simp
next
  case (Cons e es)
  from Cons.IH[OF step_guards_ok[OF Cons.prems(1)]] step_over[OF Cons.prems] show ?case
    by (simp add: Let_def case_prod_unfold)
qed

subsection \<open>Properties of motions\<close>

text \<open>C1: In every reachable state, a motion is handed to the RPC client only by the answer of the
  guard's health check, and then the server is not another process than the one attached, nothing
  was stopped since the motion was admitted, the latch is clear, the episode is neither finished
  nor failed, and on a gated robot the confirm file held a fresh ticket for this very tool, which
  is gone afterwards.\<close>

theorem motion_dispatch_guarded:
  assumes "s = fst (sess_run cfg es (sess_init fs now))"
    and "Dispatch i n m kw \<in> set (snd (sess_step cfg e s))"
    and "sess_moves cfg n"
  shows "(\<exists>p. e = EHealthz i (ROk p) \<and> wrong_process cfg p = None)
    \<and> waiting_at i s = Some (AtGuard n m kw (ss_stops s))
    \<and> \<not> ss_halted s \<and> ss_claimed s = None \<and> ss_broken s = None
    \<and> (gated (scf_gate cfg) \<longrightarrow> fresh_ticket (scf_gate cfg) (ss_now s) n (ss_fs s)
         \<and> cf_entry (ss_fs (fst (sess_step cfg e s))) = Absent)"
proof -
  have ok: "guards_ok s" using assms(1) run_guards_ok[of "sess_init fs now" cfg es] by simp
  from assms(2) show ?thesis
  proof (cases rule: step_dispatch_cases)
    case (called args)
    with assms(3) show ?thesis by simp
  next
    case (guarded p)
    have "n \<notin> set AFTER_FINISH"
      using waiting_at_in[OF guarded(2)] ok by (fastforce simp: guards_ok_def)
    then have "\<not> ss_halted s \<and> ss_claimed s = None \<and> ss_broken s = None"
      using refusal_None[OF guarded(3)] assms(3) by (auto simp: AFTER_FINISH_def)
    moreover have "gated (scf_gate cfg) \<longrightarrow> fresh_ticket (scf_gate cfg) (ss_now s) n (ss_fs s)
         \<and> cf_entry (snd (authorise (scf_gate cfg) (ss_now s) n (ss_fs s))) = Absent"
      using authorise_gated_admits[of "scf_gate cfg" "ss_now s" n "ss_fs s"
          "snd (authorise (scf_gate cfg) (ss_now s) n (ss_fs s))"] guarded(5)
      by (cases "authorise (scf_gate cfg) (ss_now s) n (ss_fs s)") auto
    ultimately show ?thesis using guarded by auto
  qed
qed

subsection \<open>Tickets\<close>

definition motions :: "sess_config \<Rightarrow> sess_out list \<Rightarrow> string list" where
  "motions cfg outs = filter (sess_moves cfg) (map snd (dispatched outs))"

fun tickets_written :: "sess_event list \<Rightarrow> string list" where
  "tickets_written [] = []"
| "tickets_written (EOperator content mtime # es) = ticket_name content # tickets_written es"
| "tickets_written (_ # es) = tickets_written es"

lemma observe_fs: "ss_fs (fst (observe cfg i c s)) = ss_fs s"
  using observe_observes[of s cfg i c] by (simp add: only_observes_def same_core_def)

lemma builtin_fs: "ss_fs (fst (builtin cfg i name args s)) = ss_fs s"
  by (cases "refusal cfg name s") (simp_all add: builtin_def motion_def Let_def sess_simps observe_fs)

lemma call_fs: "ss_fs (fst (call cfg name args s)) = ss_fs s"
  by (simp add: call_def call_manifest_def motion_def forward_def Let_def sess_simps builtin_fs
      split: option.split sum.split)

lemma after_guard_fs:
  "ss_fs (fst (after_guard cfg i n m kw adm r s)) = ss_fs s
   \<or> ss_fs (fst (after_guard cfg i n m kw adm r s)) = snd (authorise (scf_gate cfg) (ss_now s) n (ss_fs s))"
  by (auto simp: after_guard_def motion_guard_def forward_def sess_simps
      split: prod.split option.split reply.split)

lemma step_fs_other:
  assumes "\<And>c t. e \<noteq> EOperator c t" "\<And>i r. e \<noteq> EHealthz i r"
  shows "ss_fs (fst (sess_step cfg e s)) = ss_fs s"
proof (cases e)
  case (ERpc i r)
  have "ss_fs (fst (next_view i rp ns st (settle i s))) = ss_fs s" for rp ns st
    using next_view_observes[of "settle i s" i rp ns st]
    by (simp add: only_observes_def same_core_def sess_simps)
  then show ?thesis using ERpc
    by (auto simp: sess_step_def after_rpc_def sess_simps split: option.split pc.split reply.split sum.split)
next
  case (ECameras r)
  then show ?thesis using cameras_settle_observes[of s cfg r]
    by (simp add: sess_step_def only_observes_def same_core_def)
qed (use assms in \<open>auto simp: sess_step_def call_fs sess_simps split: option.split pc.split\<close>)

lemma authorise_tickets:
  "tickets_on_file (snd (authorise g now n fs)) \<subseteq># tickets_on_file fs"
  using authorise_entry_cases[of g now n fs] by (auto simp: tickets_on_file_def prod_eq_iff)

lemma after_guard_tickets:
  "tickets_on_file (ss_fs (fst (after_guard cfg i n m kw adm r s))) \<subseteq># tickets_on_file (ss_fs s)"
  using after_guard_fs[of cfg i n m kw adm r s] authorise_tickets by fastforce

lemma step_tickets_no_motion:
  assumes "\<And>c t. e \<noteq> EOperator c t"
  shows "tickets_on_file (ss_fs (fst (sess_step cfg e s))) \<subseteq># tickets_on_file (ss_fs s)"
proof (cases "\<exists>i r. e = EHealthz i r")
  case True
  then obtain i r where "e = EHealthz i r" by blast
  then show ?thesis using after_guard_tickets[of cfg i _ _ _ _ r "settle i s"]
    by (auto simp: sess_step_def sess_simps split: option.split pc.split)
next
  case False
  with step_fs_other[of e cfg s] assms show ?thesis by simp
qed

lemma step_dispatches_one:
  "dispatched (snd (sess_step cfg e s)) = [] \<or> (\<exists>i n. dispatched (snd (sess_step cfg e s)) = [(i, n)])"
proof (cases e)
  case (ECall name args)
  have "dispatched (snd (builtin cfg i name args t)) = []" for i t
    by (rule dispatched_quiet[OF builtin_quiet])
  then show ?thesis using ECall
    by (auto simp: sess_step_def call_def call_manifest_def motion_def forward_def Let_def dispatched_Cons
        split: option.split sum.split)
next
  case (EHealthz i r)
  then show ?thesis
    by (auto simp: sess_step_def after_guard_def motion_guard_def forward_def dispatched_Cons
        split: option.split pc.split prod.split reply.split)
next
  case (ERpc i r)
  have "dispatched (snd (next_view i rp ns st (settle i s))) = []" for rp ns st
    using next_view_observes[of "settle i s" i rp ns st] by (simp add: only_observes_def dispatched_quiet)
  then show ?thesis using ERpc dispatched_quiet[OF after_rpc_quiet]
    by (auto simp: sess_step_def split: option.split pc.split reply.split sum.split)
next
  case (ECameras r)
  then show ?thesis using cameras_settle_observes[of s cfg r]
    by (simp add: sess_step_def only_observes_def dispatched_quiet)
qed (auto simp: sess_step_def dispatched_Cons split: option.split pc.split)

lemma step_tickets:
  assumes "gated (scf_gate cfg)"
  shows "mset (motions cfg (snd (sess_step cfg e s))) + tickets_on_file (ss_fs (fst (sess_step cfg e s)))
    \<subseteq># tickets_on_file (ss_fs s) + mset (tickets_written [e])"
proof (cases "motions cfg (snd (sess_step cfg e s)) = []")
  case True
  show ?thesis
  proof (cases "\<exists>c t. e = EOperator c t")
    case True
    then show ?thesis using \<open>motions cfg _ = []\<close>
      by (auto simp: sess_step_def tickets_on_file_def motions_def)
  next
    case False
    then have "tickets_written [e] = []" by (cases e) auto
    then show ?thesis using True step_tickets_no_motion[of e cfg s] False by simp
  qed
next
  case False
  then obtain i n where d: "dispatched (snd (sess_step cfg e s)) = [(i, n)]" and mv: "sess_moves cfg n"
    using step_dispatches_one[of cfg e s] by (auto simp: motions_def split: if_splits)
  then obtain m kw where "Dispatch i n m kw \<in> set (snd (sess_step cfg e s))"
    using dispatched_mem[of i n "snd (sess_step cfg e s)"] by auto
  then show ?thesis
  proof (cases rule: step_dispatch_cases)
    case (called args)
    with mv show ?thesis by simp
  next
    case (guarded p)
    have "call_tool (scf_gate cfg) (ss_now s, n) (ss_fs s) = (True, ss_fs (fst (sess_step cfg e s)))"
      using guarded(5,6) by (cases "authorise (scf_gate cfg) (ss_now s) n (ss_fs s)") (simp add: call_tool_def)
    from call_tool_spends[OF assms this] d mv guarded(1) show ?thesis
      by (simp add: motions_def)
  qed
qed

lemma tickets_written_Cons: "mset (tickets_written (e # es)) = mset (tickets_written [e]) + mset (tickets_written es)"
  by (cases e) auto

lemma motions_append: "motions cfg (xs @ ys) = motions cfg xs @ motions cfg ys"
  by (simp add: motions_def)

text \<open>C3: On a gated robot every motion of a session is paid for by a ticket that names it: in any
  run, the motions handed to the RPC client, counted with multiplicity, and what is still on file are
  covered by the ticket on file at the start and the tickets the operator wrote.\<close>

theorem motions_are_paid:
  assumes "gated (scf_gate cfg)"
  shows "mset (motions cfg (snd (sess_run cfg es s))) + tickets_on_file (ss_fs (fst (sess_run cfg es s)))
    \<subseteq># tickets_on_file (ss_fs s) + mset (tickets_written es)"
proof (induction es arbitrary: s)
  case Nil
  then show ?case by (simp add: motions_def)
next
  case (Cons e es)
  let ?s1 = "fst (sess_step cfg e s)" and ?o1 = "snd (sess_step cfg e s)"
  let ?s2 = "fst (sess_run cfg es ?s1)" and ?o2 = "snd (sess_run cfg es ?s1)"
  have r: "sess_run cfg (e # es) s = (?s2, ?o1 @ ?o2)" by (simp add: Let_def case_prod_unfold)
  have "mset (motions cfg ?o1) + (mset (motions cfg ?o2) + tickets_on_file (ss_fs ?s2))
      \<subseteq># mset (motions cfg ?o1) + (tickets_on_file (ss_fs ?s1) + mset (tickets_written es))"
    by (rule subset_mset.add_left_mono[OF Cons.IH])
  also have "\<dots> = (mset (motions cfg ?o1) + tickets_on_file (ss_fs ?s1)) + mset (tickets_written es)"
    by (simp add: ac_simps)
  also have "\<dots> \<subseteq># (tickets_on_file (ss_fs s) + mset (tickets_written [e])) + mset (tickets_written es)"
    by (rule subset_mset.add_right_mono[OF step_tickets[OF assms]])
  finally show ?case unfolding r
    by (simp add: motions_append tickets_written_Cons[of e es] ac_simps)
qed

subsection \<open>A concrete session\<close>

text \<open>A gated UR5e whose operator wrote a ticket for \<open>reset\<close>, and its built-in motion.\<close>

definition ur5e_cfg :: sess_config where
  "ur5e_cfg = \<lparr>scf_tools = [], scf_pid = Some 7, scf_gate = real_gate ''ur5e'' (Some ''/confirm''),
     scf_validate = (\<lambda>_ _. Inl ''no schema''), scf_to_number = (\<lambda>_. None), scf_path = Inl ''no cameras''\<rparr>"

definition reset_ticket :: confirm_fs where
  "reset_ticket = \<lparr>cf_entry = Holds ''reset'' 0, cf_removable = True\<rparr>"

definition reset_wanted :: "sess_event list" where
  "reset_wanted = [ECall ''reset'' []]"

lemma reset_ticket_name: "js_trim (first_line ''reset'') = ''reset''"
  by code_simp

lemma ur5e_gate [simp]: "gated (scf_gate ur5e_cfg)" "has_file (scf_gate ur5e_cfg)"
  by (simp_all add: ur5e_cfg_def real_gate_def gated_def has_file_def)

lemma ur5e_reset_admitted:
  "authorise (scf_gate ur5e_cfg) 0 ''reset'' reset_ticket = (None, reset_ticket\<lparr>cf_entry := Absent\<rparr>)"
  using reset_ticket_name
  by (simp add: authorise_gated_admits fresh_ticket_def reset_ticket_def)

lemma ur5e_wants_reset:
  "fst (sess_run ur5e_cfg reset_wanted (sess_init reset_ticket 0)) =
     (sess_init reset_ticket 0)\<lparr>ss_next := 1, ss_pending := [(0, AtGuard ''reset'' ''env.reset'' [] 0)]\<rparr>"
  by (simp add: reset_wanted_def sess_init_def sess_step_def call_def BUILTIN_def builtin_def refusal_def
      motion_def wait_def sess_moves_def tool_of_def ur5e_cfg_def)

lemma ur5e_sends_reset:
  "sess_step ur5e_cfg (EHealthz 0 (ROk (Some 7))) (fst (sess_run ur5e_cfg reset_wanted (sess_init reset_ticket 0)))
     = ((sess_init (reset_ticket\<lparr>cf_entry := Absent\<rparr>) 0)\<lparr>ss_next := 1, ss_pending := [(0, AtRpc)]\<rparr>,
        [Dispatch 0 ''reset'' ''env.reset'' []])"
proof -
  have "motion_guard ur5e_cfg (ROk (Some 7)) s = (None, s)" for s
    by (simp add: motion_guard_def wrong_process_def ur5e_cfg_def)
  then show ?thesis
    unfolding ur5e_wants_reset
    by (simp add: sess_step_def waiting_at_def settle_def after_guard_def sess_init_def refusal_def
        forward_def wait_def ur5e_reset_admitted)
qed

lemma ur5e_reset_moves: "sess_moves ur5e_cfg ''reset''"
  by (simp add: sess_moves_def tool_of_def ur5e_cfg_def BUILTIN_MOTIONS_def)

lemma ur5e_no_tools: "tool_of ur5e_cfg name = None"
  by (simp add: tool_of_def ur5e_cfg_def)

lemma sess_init_stops: "ss_stops (sess_init fs now) = 0"
  by (simp add: sess_init_def)

theorem motion_dispatch_guarded_witness:
  "waiting_at 0 (fst (sess_run ur5e_cfg reset_wanted (sess_init reset_ticket 0)))
     = Some (AtGuard ''reset'' ''env.reset'' [] 0)"
  using motion_dispatch_guarded[OF refl, of 0 "''reset''" "''env.reset''" "[]" ur5e_cfg
      "EHealthz 0 (ROk (Some 7))" reset_wanted reset_ticket 0] ur5e_sends_reset ur5e_reset_moves
  by (simp add: ur5e_wants_reset sess_init_stops)

theorem motions_are_paid_witness:
  "mset (motions ur5e_cfg (snd (sess_run ur5e_cfg (reset_wanted @ [EHealthz 0 (ROk (Some 7))]) (sess_init reset_ticket 0))))
     \<subseteq># tickets_on_file reset_ticket"
  using motions_are_paid[of ur5e_cfg "reset_wanted @ [EHealthz 0 (ROk (Some 7))]" "sess_init reset_ticket 0"]
  by (simp add: reset_wanted_def sess_init_def del: sess_run.simps)
    (meson mset_subset_eq_add_left subset_mset.order_trans)

end
