(* ===== verification/Robot_Session_Sends.thy ===== *)
theory Robot_Session_Sends
  imports Robot_Session_Safety
begin

text \<open>
  Everything a robot session sends after a stop, and after the end of an episode: beside the calls of tools
  these are the reads of an observation, the health checks and the stop itself. A call counts as handed over
  when it is given to \<open>RpcClient.call\<close>; what the client does with it is the theory \<open>Rpc_Client\<close>.
\<close>

subsection \<open>The reads of an observation\<close>

text \<open>The methods that the observation path of the robot names.\<close>

definition observation_rpc :: "sess_config \<Rightarrow> string \<Rightarrow> bool" where
  "observation_rpc cfg m \<longleftrightarrow>
     (case scf_path cfg of
        Inl _ \<Rightarrow> False
      | Inr op \<Rightarrow> op_observation op = Some m \<or> op_state op = Some m \<or> map_option rp_method (op_render op) = Some m)"

definition view_ok :: "sess_config \<Rightarrow> pc \<Rightarrow> bool" where
  "view_ok cfg p \<longleftrightarrow> (case p of AtRender _ _ (Some m) \<Rightarrow> observation_rpc cfg m | _ \<Rightarrow> True)"

definition reading :: "sess_config \<Rightarrow> nat set \<Rightarrow> bool \<Rightarrow> sess_out \<Rightarrow> bool" where
  "reading cfg J asks x \<longleftrightarrow>
     (case x of Send i m _ \<Rightarrow> i \<in> J \<and> observation_rpc cfg m | AskCameras \<Rightarrow> asks | Answer _ _ \<Rightarrow> True | _ \<Rightarrow> False)"

text \<open>A step that only reads, for the calls in \<open>J\<close>.\<close>

definition reads_for :: "sess_config \<Rightarrow> nat set \<Rightarrow> bool \<Rightarrow> sess \<Rightarrow> sess \<times> sess_out list \<Rightarrow> bool" where
  "reads_for cfg J asks s r \<longleftrightarrow>
     list_all (reading cfg J asks) (snd r)
     \<and> (\<forall>x \<in> set (ss_pending (fst r)). x \<in> set (ss_pending s) \<or> fst x \<in> J \<and> view_ok cfg (snd x))"

lemma reads_for_mono: "reads_for cfg J asks s r \<Longrightarrow> J \<subseteq> K \<Longrightarrow> (asks \<Longrightarrow> asks') \<Longrightarrow> reads_for cfg K asks' s r"
  unfolding reads_for_def list_all_iff reading_def by (fastforce split: sess_out.splits)

lemma reads_for_answer [simp]: "reads_for cfg J asks s (s, [Answer i a])" "reads_for cfg J asks s (s, [])"
  by (simp_all add: reads_for_def reading_def)

lemma reads_for_trans:
  assumes "reads_for cfg J asks s (t, o1)" "reads_for cfg J asks t (u, o2)"
  shows "reads_for cfg J asks s (u, o1 @ o2)"
  using assms by (fastforce simp: reads_for_def)

lemma next_view_reads:
  assumes "scf_path cfg = Inr op" "op_render op = Some rp" "\<And>m. st = Some m \<Longrightarrow> observation_rpc cfg m"
  shows "reads_for cfg {i} False s (next_view i rp ns st s)"
  using assms
  by (auto simp: next_view_def reads_for_def reading_def view_ok_def observation_rpc_def sess_simps
      split: list.split option.split)

lemma with_cameras_reads:
  assumes "scf_path cfg = Inr op" "op_render op = Some rp"
  shows "reads_for cfg {i} False s (with_cameras i op rp active camera s)"
  using assms next_view_reads[OF assms]
  by (auto simp: with_cameras_def Let_def observation_rpc_def)

lemma observe_reads: "reads_for cfg {i} True s (observe cfg i camera s)"
proof -
  have views: "reads_for cfg {i} True s (with_cameras i op rp active camera s)"
    if "scf_path cfg = Inr op" "op_render op = Some rp" for op rp active
    using with_cameras_reads[OF that] by (rule reads_for_mono) auto
  have one: "reads_for cfg {i} True s (wait i AtObservation s, [Send i m []])"
    if "scf_path cfg = Inr op" "op_observation op = Some m" for op m
    using that by (auto simp: reads_for_def reading_def view_ok_def observation_rpc_def sess_simps)
  have ask: "reads_for cfg {i} True s (wait i (AtCameras camera) s, [])"
    "reads_for cfg {i} True s (wait i (AtCameras camera) (s\<lparr>ss_cameras := CamPending\<rparr>), [AskCameras])"
    by (auto simp: reads_for_def reading_def view_ok_def sess_simps)
  show ?thesis
    using views one ask by (auto simp: observe_def split: sum.split option.split camera_memo.split)
qed

lemma settled_reads: "reads_for cfg J asks s (settle i s, [])"
  by (auto simp: reads_for_def sess_simps)

lemma resumed_reads:
  assumes "scf_path cfg = Inr op" "op_render op = Some rp"
  shows "reads_for cfg (fst ` set ws) False s (resume_observers op rp res ws s)"
proof (induction ws arbitrary: s)
  case (Cons w ws)
  obtain i camera where w: "w = (i, camera)" by (cases w)
  let ?J = "fst ` set (w # ws)"
  let ?r = "case res of Inl f \<Rightarrow> (settle i s, [Answer i (Failed f)])
            | Inr active \<Rightarrow> with_cameras i op rp active camera (settle i s)"
  have "reads_for cfg {i} False (settle i s) ?r" using with_cameras_reads[OF assms] by (auto split: sum.split)
  then have "reads_for cfg ?J False (settle i s) (fst ?r, snd ?r)" using w by (auto elim: reads_for_mono)
  from reads_for_trans[OF settled_reads this] have 1: "reads_for cfg ?J False s (fst ?r, snd ?r)" by simp
  have "reads_for cfg ?J False (fst ?r) (fst (resume_observers op rp res ws (fst ?r)), snd (resume_observers op rp res ws (fst ?r)))"
    using reads_for_mono[OF Cons.IH, of ?J] by auto
  from reads_for_trans[OF 1 this] show ?case using w by (simp add: Let_def case_prod_unfold)
qed simp

text \<open>The calls that an observation keeps waiting.\<close>

definition observing_ids :: "sess \<Rightarrow> nat set" where
  "observing_ids s = {i. \<exists>p. (i, p) \<in> set (ss_pending s) \<and> observing_pc p}"

lemma camera_waiters_observe: "fst ` set (camera_waiters s) \<subseteq> observing_ids s"
  by (force simp: camera_waiters_def List.map_filter_def observing_ids_def observing_pc_def split: pc.splits)

lemma reads_pending_cong: "ss_pending t = ss_pending s \<Longrightarrow> reads_for cfg J asks t r = reads_for cfg J asks s r"
  by (simp add: reads_for_def)

lemma cameras_settle_reads: "reads_for cfg (observing_ids s) False s (cameras_settle cfg r s)"
proof -
  have "reads_for cfg (observing_ids s) False s (resume_observers op rp res (camera_waiters s) (t\<lparr>ss_cameras := c\<rparr>))"
    if "scf_path cfg = Inr op" "op_render op = Some rp" "ss_pending t = ss_pending s" for op rp res t c
    using reads_for_mono[OF resumed_reads[OF that(1,2)] camera_waiters_observe] that(3)
    by (subst reads_pending_cong[of "t\<lparr>ss_cameras := c\<rparr>" s, symmetric]) simp_all
  then show ?thesis
    by (auto simp: cameras_settle_def Let_def sess_simps split: sum.split option.split camera_source.split reply.split)
qed

subsection \<open>What a step sends\<close>

text \<open>A health check and a stop belong to the call of this step; a read belongs to an observation that waits,
  or to the call of this step while the robot has not failed.\<close>

definition sent_ok :: "sess_config \<Rightarrow> sess \<Rightarrow> sess_out \<Rightarrow> bool" where
  "sent_ok cfg s x \<longleftrightarrow>
     (case x of
        Healthz i \<Rightarrow> i = ss_next s
      | Interrupt i \<Rightarrow> i = ss_next s \<and> ss_broken s = None
      | Send i m _ \<Rightarrow> observation_rpc cfg m \<and> (i \<in> observing_ids s \<or> i = ss_next s \<and> ss_broken s = None)
      | AskCameras \<Rightarrow> ss_broken s = None
      | _ \<Rightarrow> True)"

definition waits_ok :: "sess_config \<Rightarrow> bool \<Rightarrow> sess \<Rightarrow> (nat \<times> pc) \<Rightarrow> bool" where
  "waits_ok cfg called s x \<longleftrightarrow>
     x \<in> set (ss_pending s)
     \<or> view_ok cfg (snd x) \<and> (observing_pc (snd x) \<longrightarrow> fst x \<in> observing_ids s \<or> fst x = ss_next s \<and> ss_broken s = None \<and> called)"

definition step_fits :: "sess_config \<Rightarrow> bool \<Rightarrow> sess \<Rightarrow> sess \<times> sess_out list \<Rightarrow> bool" where
  "step_fits cfg called s r \<longleftrightarrow> list_all (sent_ok cfg s) (snd r) \<and> (\<forall>x \<in> set (ss_pending (fst r)). waits_ok cfg called s x)"

lemma fits_reads:
  assumes "reads_for cfg J asks t r" "set (ss_pending t) \<subseteq> set (ss_pending s)"
    and "J \<subseteq> observing_ids s \<or> J = {ss_next s} \<and> ss_broken s = None \<and> called" "asks \<Longrightarrow> ss_broken s = None"
  shows "step_fits cfg called s r"
proof -
  have "sent_ok cfg s x" if "reading cfg J asks x" for x
    using that assms(3,4) by (auto simp: reading_def sent_ok_def split: sess_out.splits)
  moreover have "waits_ok cfg called s x"
    if "x \<in> set (ss_pending t) \<or> fst x \<in> J \<and> view_ok cfg (snd x)" for x
    using that assms(2,3) by (auto simp: waits_ok_def)
  ultimately show ?thesis using assms(1) by (auto simp: reads_for_def step_fits_def list_all_iff)
qed

lemma fits_quiet:
  assumes "list_all (sent_ok cfg s) outs" "\<And>x. x \<in> set (ss_pending t) \<Longrightarrow> x \<in> set (ss_pending s) \<or> \<not> observing_pc (snd x)"
  shows "step_fits cfg called s (t, outs)"
  using assms by (force simp: step_fits_def waits_ok_def view_ok_def observing_pc_def split: pc.split option.split)

lemma call_fits: "step_fits cfg True s (call cfg name args s)"
proof -
  let ?i = "ss_next s" and ?s = "s\<lparr>ss_next := ss_next s + 1\<rparr>"
  have quiet: "step_fits cfg True s (t, outs)"
    if "list_all (sent_ok cfg s) outs" "\<And>x. x \<in> set (ss_pending t) \<Longrightarrow> x \<in> set (ss_pending s) \<or> \<not> observing_pc (snd x)" for t outs
    by (rule fits_quiet) (use that in auto)
  have motion: "step_fits cfg True s (motion ?i n m kw ?s)" "step_fits cfg True s (forward ?i n m kw ?s)" for n m kw
    by (auto simp: motion_def forward_def sess_simps sent_ok_def observing_pc_def intro!: quiet)
  have refused: "step_fits cfg True s (?s, [Answer ?i a])" for a by (auto simp: sent_ok_def intro!: quiet)
  show ?thesis
  proof (cases "name \<in> set BUILTIN")
    case False
    then show ?thesis using motion refused
      by (simp add: call_def call_manifest_def Let_def split: option.split sum.split)
  next
    case True
    show ?thesis
    proof (cases "refusal cfg name ?s")
      case (Some f)
      then show ?thesis using True refused by (simp add: call_def builtin_def Let_def)
    next
      case None
      have broken: "name \<noteq> ''robot_status'' \<Longrightarrow> ss_broken s = None" using refusal_None[OF None] by simp
      have "step_fits cfg True s (observe cfg ?i c ?s)" if "name \<noteq> ''robot_status''" for c
        by (rule fits_reads[OF observe_reads]) (use broken[OF that] in auto)
      moreover have "step_fits cfg True s (wait ?i AtStatus ?s, [Healthz ?i])"
        by (auto simp: sess_simps sent_ok_def observing_pc_def intro!: quiet)
      moreover have "step_fits cfg True s (wait ?i AtInterrupt (?s\<lparr>ss_halted := True, ss_stops := ss_stops s + 1\<rparr>), [Interrupt ?i])"
        if "name \<noteq> ''robot_status''"
        using broken[OF that] by (auto simp: sess_simps sent_ok_def observing_pc_def intro!: quiet)
      moreover have "step_fits cfg True s (?s\<lparr>ss_halted := False\<rparr>, [Answer ?i a])" "step_fits cfg True s (?s\<lparr>ss_claimed := c\<rparr>, [Answer ?i a])"
        for a c by (auto simp: sent_ok_def intro!: quiet)
      ultimately show ?thesis using True None motion refused by (simp add: call_def builtin_def Let_def)
    qed
  qed
qed

lemma after_rpc_fits: "step_fits cfg called s (after_rpc i r (settle i s))"
  by (auto simp: after_rpc_def sess_simps sent_ok_def intro!: fits_quiet split: reply.split)

lemma after_guard_fits: "step_fits cfg called s (after_guard cfg i n m kw adm r (settle i s))"
  by (auto simp: after_guard_def motion_guard_def forward_def sess_simps sent_ok_def observing_pc_def intro!: fits_quiet
      split: prod.split option.split reply.split)

definition views_ok :: "sess_config \<Rightarrow> sess \<Rightarrow> bool" where
  "views_ok cfg s \<longleftrightarrow> (\<forall>(i, p) \<in> set (ss_pending s). view_ok cfg p)"

lemma step_sends:
  assumes "views_ok cfg s"
  shows "step_fits cfg (\<exists>n a. e = ECall n a) s (sess_step cfg e s)"
proof (cases e)
  case (ECall name args)
  then show ?thesis using call_fits by (simp add: sess_step_def)
next
  case (EHealthz i r)
  have "step_fits cfg False s (settle i s, [Answer i a])" for a
    by (auto simp: sess_simps sent_ok_def intro!: fits_quiet)
  moreover have "step_fits cfg False s (s, [])" by (auto intro!: fits_quiet)
  ultimately show ?thesis using EHealthz after_guard_fits by (auto simp: sess_step_def split: option.split pc.split)
next
  case (ERpc i r)
  have same: "step_fits cfg False s (s, [])" by (auto intro!: fits_quiet)
  have "step_fits cfg False s (next_view i rp ns st (settle i s))"
    if w: "waiting_at i s = Some (AtRender n ns st)" and path: "scf_path cfg = Inr op" "op_render op = Some rp" for n ns st op rp
  proof (rule fits_reads[OF next_view_reads[OF path]])
    note pending = waiting_at_in[OF w]
    with assms show "\<And>m. st = Some m \<Longrightarrow> observation_rpc cfg m" by (fastforce simp: views_ok_def view_ok_def)
    from pending show "{i} \<subseteq> observing_ids s \<or> {i} = {ss_next s} \<and> ss_broken s = None \<and> False"
      by (auto simp: observing_ids_def observing_pc_def intro!: exI[of _ "AtRender n ns st"])
  qed (auto simp: sess_simps)
  then show ?thesis using ERpc after_rpc_fits same
    by (auto simp: sess_step_def split: option.split pc.split reply.split sum.split)
next
  case (ECameras r)
  then show ?thesis using fits_reads[OF cameras_settle_reads, where s = s and called = False] by (simp add: sess_step_def)
next
  case (EInterrupted i)
  then show ?thesis by (auto simp: sess_step_def sess_simps sent_ok_def intro!: fits_quiet split: option.split pc.split)
next
  case (EOperator c t)
  then show ?thesis by (auto simp: sess_step_def intro!: fits_quiet)
next
  case (EClock t)
  then show ?thesis by (auto simp: sess_step_def intro!: fits_quiet)
qed

lemma views_ok_step: "views_ok cfg s \<Longrightarrow> views_ok cfg (fst (sess_step cfg e s))"
  using step_sends[of cfg s e] by (fastforce simp: step_fits_def waits_ok_def views_ok_def)

lemma views_ok_run: "views_ok cfg s \<Longrightarrow> views_ok cfg (fst (sess_run cfg es s))"
proof (induction es arbitrary: s)
  case (Cons e es)
  from Cons.IH[OF views_ok_step[OF Cons.prems]] show ?case by (simp add: Let_def case_prod_unfold)
qed simp

lemma views_ok_init [simp]: "views_ok cfg (sess_init fs now)"
  by (simp add: views_ok_def sess_init_def)

subsection \<open>After a stop\<close>

definition late_ok :: "sess_config \<Rightarrow> nat \<Rightarrow> sess_out \<Rightarrow> bool" where
  "late_ok cfg k x \<longleftrightarrow>
     (case x of
        Dispatch i _ _ _ \<Rightarrow> k \<le> i
      | Healthz i \<Rightarrow> k \<le> i
      | Interrupt i \<Rightarrow> k \<le> i
      | Send _ m _ \<Rightarrow> observation_rpc cfg m
      | _ \<Rightarrow> True)"

lemma late_step:
  assumes "guards_ok s" "overtaken k s" "views_ok cfg s"
  shows "list_all (late_ok cfg k) (snd (sess_step cfg e s))"
  unfolding list_all_iff
proof
  fix x assume x: "x \<in> set (snd (sess_step cfg e s))"
  have "sent_ok cfg s x" using step_sends[OF assms(3)] x by (auto simp: step_fits_def list_all_iff)
  moreover have "k \<le> ss_next s" using assms(2) by (simp add: overtaken_def)
  moreover have "k \<le> i" if "x = Dispatch i n m kw" for i n m kw
    using step_overtaken(2)[OF assms(1,2), of cfg e] x that dispatched_mem[of i n "snd (sess_step cfg e s)"] by fastforce
  ultimately show "late_ok cfg k x" by (auto simp: late_ok_def sent_ok_def split: sess_out.split)
qed

lemma late_run:
  "guards_ok s \<Longrightarrow> overtaken k s \<Longrightarrow> views_ok cfg s \<Longrightarrow> list_all (late_ok cfg k) (snd (sess_run cfg es s))"
proof (induction es arbitrary: s)
  case (Cons e es)
  from Cons.IH[OF step_guards_ok[OF Cons.prems(1)] step_overtaken(1)[OF Cons.prems(1,2)] views_ok_step[OF Cons.prems(3)], of e]
    late_step[OF Cons.prems, of e]
  show ?case by (simp add: Let_def case_prod_unfold)
qed simp

text \<open>C2: A stop is never overtaken. In a session whose manifest declares no tool named \<open>stop\<close>, once \<open>stop\<close> was
  called, nothing that moves or commands the robot is handed to the RPC client for a call made before it,
  whatever follows, a resume included: every manifest tool, every reset, every health check of a guard and
  every stop handed over belongs to the stop itself or to a later call. The only RPCs that an older call may
  still make are the reads of an observation that was underway.\<close>

theorem stop_never_overtaken:
  assumes "s = fst (sess_run cfg es (sess_init fs now))"
    and "tool_of cfg ''stop'' = None"
    and "x \<in> set (snd (sess_run cfg (ECall ''stop'' args # es') s))"
  shows "case x of
      Dispatch i n m kw \<Rightarrow> ss_next s \<le> i
    | Healthz i \<Rightarrow> ss_next s \<le> i
    | Interrupt i \<Rightarrow> ss_next s \<le> i
    | Send i m kw \<Rightarrow> observation_rpc cfg m
    | _ \<Rightarrow> True"
proof -
  have ok: "guards_ok s" "views_ok cfg s"
    using assms(1) run_guards_ok[of "sess_init fs now" cfg es] views_ok_run[of cfg "sess_init fs now" es] by simp_all
  let ?r = "sess_step cfg (ECall ''stop'' args) s"
  have "ss_next s \<le> ss_next (fst ?r)"
    using step_advances[of s cfg "ECall ''stop'' args"] by (simp add: advances_def)
  have o: "overtaken (ss_next s) (fst ?r) \<and> list_all (late_ok cfg (ss_next s)) (snd ?r)"
  proof (cases "ss_broken s = None")
    case True
    have moves: "\<not> sess_moves cfg ''stop''" using assms(2) by (simp add: sess_moves_def BUILTIN_MOTIONS_def)
    have "?r = (wait (ss_next s) AtInterrupt
        (s\<lparr>ss_next := ss_next s + 1, ss_halted := True, ss_stops := ss_stops s + 1\<rparr>), [Interrupt (ss_next s)])"
      using True moves by (simp add: sess_step_def call_def BUILTIN_def builtin_def refusal_def AFTER_FINISH_def Let_def)
    then show ?thesis using ok(1)
      by (fastforce simp: overtaken_def sess_simps guards_ok_def late_ok_def split: pc.splits)
  next
    case False
    have "overtaken (ss_next s) s" using False by (simp add: overtaken_def)
    with late_step[OF ok(1) _ ok(2), where k = "ss_next s" and e = "ECall ''stop'' args"] step_overtaken(1)[OF ok(1)] show ?thesis by blast
  qed
  have "list_all (late_ok cfg (ss_next s)) (snd (sess_run cfg (ECall ''stop'' args # es') s))"
    using o late_run[OF step_guards_ok[OF ok(1), of cfg "ECall ''stop'' args"] _ views_ok_step[OF ok(2)], of "ss_next s" es']
    by (simp add: Let_def case_prod_unfold)
  then show ?thesis using assms(3) by (simp add: list_all_iff late_ok_def)
qed

subsection \<open>After the end of an episode\<close>









subsection \<open>A concrete session\<close>

text \<open>The motion that waited for its guard when stop and resume went by is refused: only the stop is sent.\<close>

theorem stop_never_overtaken_witness:
  "list_all (late_ok ur5e_cfg 1) (snd (sess_run ur5e_cfg (ECall ''stop'' [] # [ECall ''resume'' [], EHealthz 0 (ROk (Some 7))])
      (fst (sess_run ur5e_cfg reset_wanted (sess_init reset_ticket 0)))))"
  unfolding list_all_iff
proof
  fix x
  assume "x \<in> set (snd (sess_run ur5e_cfg (ECall ''stop'' [] # [ECall ''resume'' [], EHealthz 0 (ROk (Some 7))])
      (fst (sess_run ur5e_cfg reset_wanted (sess_init reset_ticket 0)))))"
  from stop_never_overtaken[OF refl ur5e_no_tools this]
  show "late_ok ur5e_cfg 1 x" unfolding ur5e_wants_reset by (simp add: late_ok_def split: sess_out.splits)
qed



end
