(* ===== verification/Rpc_Client.thy ===== *)
theory Rpc_Client
  imports Prelude
begin

text \<open>
  The calls to one robot service, \<^verbatim>\<open>packages/embodied/src/infra/rpc.ts\<close>: \<open>RpcClient.call\<close> puts a call into the queue
  of its endpoint and posts it when the server has answered the one before; a timeout or an abort releases
  the caller, never the endpoint; a server that stays silent after that is given up on. Timers, the signal
  and the transport are events, and so is the turn of the next call, the continuation that runs once the
  previous call has settled: other events may come before it. The encoding of arrays is left out.
\<close>

subsection \<open>State, events and results\<close>

datatype rpc_release = TimedOut | SignalAborted

datatype rpc_result =
    Returned "json option"
  | MethodError string "json option"
  | BadReply
  | AbortedAtCall string
  | StillRunning string rpc_release
  | NeverSent string rpc_release "string option"
  | StoppedAnswering string string
  | ConnectionLost string

text \<open>A call between its entry into the queue and its settlement: \<open>sent\<close> and \<open>gaveUp\<close> of the source, and the
  method of the call it waits for.\<close>

record rpc_slot =
  sl_id :: nat
  sl_method :: string
  sl_body :: json
  sl_sent :: bool
  sl_gave_up :: bool
  sl_previous :: "string option"

record rpc_client =
  rc_queue :: "rpc_slot list"     \<comment> \<open>oldest first\<close>
  rc_dead :: "string option"
  rc_next :: nat

definition rpc_start :: rpc_client where
  "rpc_start = \<lparr>rc_queue = [], rc_dead = None, rc_next = 0\<rparr>"

text \<open>What comes back for a posted call: the text of the answer, parsed (none when it is malformed), or the
  failure of the connection.\<close>

datatype rpc_transport = AnswerText "json option" | Lost string

datatype rpc_event =
    RCall string json bool     \<comment> \<open>method, body, and whether the signal has aborted already\<close>
  | RTurn
  | RAnswer nat rpc_transport
  | RRelease nat rpc_release
  | RGraceOver nat
  | RInterrupt
  | RForget

datatype rpc_out =
    Post nat string json
  | PostStop
  | Settled nat
  | Result nat rpc_result

subsection \<open>A call\<close>

definition last_method :: "rpc_slot list \<Rightarrow> string option" where
  "last_method queue = (if queue = [] then None else Some (sl_method (last queue)))"

definition rpc_call :: "string \<Rightarrow> json \<Rightarrow> bool \<Rightarrow> rpc_client \<Rightarrow> rpc_client \<times> rpc_out list" where
  "rpc_call method body aborted s =
     (let i = rc_next s; s0 = s\<lparr>rc_next := i + 1\<rparr> in
      if aborted then (s0, [Result i (AbortedAtCall method)])
      else case rc_dead s of
          Some why \<Rightarrow> (s0, [Result i (StoppedAnswering method why)])
        | None \<Rightarrow>
            (s0\<lparr>rc_queue := rc_queue s @ [\<lparr>sl_id = i, sl_method = method, sl_body = body, sl_sent = False,
                                         sl_gave_up = False, sl_previous = last_method (rc_queue s)\<rparr>]\<rparr>, []))"

text \<open>The call at the head of the queue: one that was released is dropped, an endpoint given up on fails it,
  otherwise it is posted.\<close>

definition rpc_turn :: "rpc_client \<Rightarrow> rpc_client \<times> rpc_out list" where
  "rpc_turn s =
     (case rc_queue s of
        [] \<Rightarrow> (s, [])
      | x # xs \<Rightarrow>
          if sl_sent x then (s, [])
          else if sl_gave_up x then (s\<lparr>rc_queue := xs\<rparr>, [])
          else case rc_dead s of
              Some why \<Rightarrow> (s\<lparr>rc_queue := xs\<rparr>, [Result (sl_id x) (StoppedAnswering (sl_method x) why)])
            | None \<Rightarrow> (s\<lparr>rc_queue := x\<lparr>sl_sent := True\<rparr> # xs\<rparr>, [Post (sl_id x) (sl_method x) (sl_body x)]))"

subsection \<open>Answers, releases and the end of patience\<close>

text \<open>\<open>!reply.ok\<close>: a value that JavaScript takes for false.\<close>

fun falsy :: "json option \<Rightarrow> bool" where
  "falsy None = True"
| "falsy (Some v) = (case v of JNull \<Rightarrow> True | JBool b \<Rightarrow> \<not> b | JNum q \<Rightarrow> q = 0 | JStr t \<Rightarrow> t = [] | _ \<Rightarrow> False)"

fun field_of :: "json \<Rightarrow> string \<Rightarrow> json option" where
  "field_of (JObj al) k = map_of al k"
| "field_of _ k = None"

definition rpc_reply :: "string \<Rightarrow> rpc_transport \<Rightarrow> rpc_result" where
  "rpc_reply method t =
     (case t of
        Lost e \<Rightarrow> ConnectionLost e
      | AnswerText None \<Rightarrow> BadReply
      | AnswerText (Some reply) \<Rightarrow>
          if reply = JNull then BadReply
          else if falsy (field_of reply ''ok'') then MethodError method (field_of reply ''error'')
          else Returned (field_of reply ''result''))"

definition rpc_answer :: "nat \<Rightarrow> rpc_transport \<Rightarrow> rpc_client \<Rightarrow> rpc_client \<times> rpc_out list" where
  "rpc_answer i t s =
     (case rc_queue s of
        [] \<Rightarrow> (s, [])
      | x # xs \<Rightarrow>
          if sl_id x = i \<and> sl_sent x
          then (s\<lparr>rc_queue := xs\<rparr>, Settled i # (if sl_gave_up x then [] else [Result i (rpc_reply (sl_method x) t)]))
          else (s, []))"

definition released_result :: "rpc_release \<Rightarrow> rpc_slot \<Rightarrow> rpc_result" where
  "released_result why x =
     (if sl_sent x then StillRunning (sl_method x) why else NeverSent (sl_method x) why (sl_previous x))"

text \<open>The timer or the signal of a call that waits; an abort also asks the server to stop a call it runs.\<close>

definition rpc_release_call :: "nat \<Rightarrow> rpc_release \<Rightarrow> rpc_client \<Rightarrow> rpc_client \<times> rpc_out list" where
  "rpc_release_call i why s =
     (case List.find (\<lambda>x. sl_id x = i \<and> \<not> sl_gave_up x) (rc_queue s) of
        None \<Rightarrow> (s, [])
      | Some x \<Rightarrow>
          (s\<lparr>rc_queue := map (\<lambda>y. if sl_id y = i then y\<lparr>sl_gave_up := True\<rparr> else y) (rc_queue s)\<rparr>,
           (if why = SignalAborted \<and> sl_sent x then [PostStop] else []) @ [Result i (released_result why x)]))"

definition rpc_grace :: "nat \<Rightarrow> rpc_client \<Rightarrow> rpc_client" where
  "rpc_grace i s =
     (case List.find (\<lambda>x. sl_id x = i \<and> sl_sent x \<and> sl_gave_up x) (rc_queue s) of
        None \<Rightarrow> s
      | Some x \<Rightarrow> s\<lparr>rc_dead := Some (sl_method x)\<rparr>)"

text \<open>\<open>interrupt\<close> posts the stop beside the queue; \<open>forgetUnresponsive\<close> gives the endpoint another chance.\<close>

definition rpc_step :: "rpc_event \<Rightarrow> rpc_client \<Rightarrow> rpc_client \<times> rpc_out list" where
  "rpc_step e s =
     (case e of
        RCall method body aborted \<Rightarrow> rpc_call method body aborted s
      | RTurn \<Rightarrow> rpc_turn s
      | RAnswer i t \<Rightarrow> rpc_answer i t s
      | RRelease i why \<Rightarrow> rpc_release_call i why s
      | RGraceOver i \<Rightarrow> (rpc_grace i s, [])
      | RInterrupt \<Rightarrow> (s, [PostStop])
      | RForget \<Rightarrow> (s\<lparr>rc_dead := None\<rparr>, []))"

fun rpc_run :: "rpc_event list \<Rightarrow> rpc_client \<Rightarrow> rpc_client \<times> rpc_out list" where
  "rpc_run [] s = (s, [])"
| "rpc_run (e # es) s = (let (s1, o1) = rpc_step e s; (s2, o2) = rpc_run es s1 in (s2, o1 @ o2))"

subsection \<open>What is observed of a run\<close>

definition posted :: "rpc_out list \<Rightarrow> nat list" where
  "posted outs = List.map_filter (\<lambda>x. case x of Post i _ _ \<Rightarrow> Some i | _ \<Rightarrow> None) outs"

definition answered_posts :: "rpc_out list \<Rightarrow> nat list" where
  "answered_posts outs = List.map_filter (\<lambda>x. case x of Settled i \<Rightarrow> Some i | _ \<Rightarrow> None) outs"

definition rpc_calls :: "rpc_event list \<Rightarrow> (string \<times> json) list" where
  "rpc_calls es = List.map_filter (\<lambda>e. case e of RCall m b _ \<Rightarrow> Some (m, b) | _ \<Rightarrow> None) es"

named_theorems rpc_simps

lemma observed_append [rpc_simps]:
  "posted (xs @ ys) = posted xs @ posted ys" "answered_posts (xs @ ys) = answered_posts xs @ answered_posts ys"
  by (simp_all add: posted_def answered_posts_def List.map_filter_def)

lemma observed_simps [rpc_simps]:
  "posted [] = []" "posted (Post i m b # xs) = i # posted xs" "posted (PostStop # xs) = posted xs"
  "posted (Settled i # xs) = posted xs" "posted (Result i r # xs) = posted xs"
  "answered_posts [] = []" "answered_posts (Post i m b # xs) = answered_posts xs" "answered_posts (PostStop # xs) = answered_posts xs"
  "answered_posts (Settled i # xs) = i # answered_posts xs" "answered_posts (Result i r # xs) = answered_posts xs"
  by (simp_all add: posted_def answered_posts_def List.map_filter_def)

lemma posted_mem: "i \<in> set (posted outs) \<longleftrightarrow> (\<exists>m b. Post i m b \<in> set outs)"
  by (induction outs) (auto simp: posted_def map_filter_simps split: rpc_out.splits)

lemma rpc_run_append:
  "rpc_run (es @ es') s = (let (s1, o1) = rpc_run es s; (s2, o2) = rpc_run es' s1 in (s2, o1 @ o2))"
  by (induction es arbitrary: s) (simp_all add: Let_def case_prod_unfold)

subsection \<open>The queue\<close>

definition underway :: "rpc_slot list \<Rightarrow> nat list" where
  "underway queue = (case queue of x # _ \<Rightarrow> if sl_sent x then [sl_id x] else [] | [] \<Rightarrow> [])"

text \<open>The calls in the queue, in the order they came: only the first may have been sent, and those that were not
  came after every call that was posted. A call whose caller has its result is not in it, or was released.\<close>

definition queue_ok :: "rpc_client \<Rightarrow> rpc_event list \<Rightarrow> rpc_out list \<Rightarrow> bool" where
  "queue_ok s es outs \<longleftrightarrow>
     sorted_wrt (<) (map sl_id (rc_queue s))
     \<and> rc_next s = length (rpc_calls es)
     \<and> (\<forall>x \<in> set (rc_queue s). sl_id x < rc_next s \<and> rpc_calls es ! sl_id x = (sl_method x, sl_body x))
     \<and> (\<forall>x \<in> set (tl (rc_queue s)). \<not> sl_sent x)
     \<and> sorted_wrt (<) (posted outs)
     \<and> (\<forall>i \<in> set (posted outs). i < rc_next s \<and> (\<forall>x \<in> set (rc_queue s). \<not> sl_sent x \<longrightarrow> i < sl_id x))
     \<and> answered_posts outs @ underway (rc_queue s) = posted outs
     \<and> (\<forall>i m b. Post i m b \<in> set outs \<longrightarrow> rpc_calls es ! i = (m, b))
     \<and> (\<forall>x \<in> set (rc_queue s). \<not> sl_gave_up x \<longrightarrow> (\<forall>r. Result (sl_id x) r \<notin> set outs))
     \<and> (\<forall>i r. Result i r \<in> set outs \<longrightarrow> i < rc_next s)"

lemma queue_okD:
  assumes "queue_ok s es outs"
  shows "sorted_wrt (<) (map sl_id (rc_queue s))" "rc_next s = length (rpc_calls es)"
    "x \<in> set (rc_queue s) \<Longrightarrow> sl_id x < rc_next s" "x \<in> set (rc_queue s) \<Longrightarrow> rpc_calls es ! sl_id x = (sl_method x, sl_body x)"
    "x \<in> set (tl (rc_queue s)) \<Longrightarrow> \<not> sl_sent x" "sorted_wrt (<) (posted outs)"
    "i \<in> set (posted outs) \<Longrightarrow> i < rc_next s" "i \<in> set (posted outs) \<Longrightarrow> x \<in> set (rc_queue s) \<Longrightarrow> \<not> sl_sent x \<Longrightarrow> i < sl_id x"
    "answered_posts outs @ underway (rc_queue s) = posted outs" "Post i m b \<in> set outs \<Longrightarrow> rpc_calls es ! i = (m, b)"
    "x \<in> set (rc_queue s) \<Longrightarrow> \<not> sl_gave_up x \<Longrightarrow> Result (sl_id x) r \<notin> set outs" "Result i r \<in> set outs \<Longrightarrow> i < rc_next s"
  using assms unfolding queue_ok_def by blast+

lemma tl_mem: "x \<in> set (tl xs) \<Longrightarrow> x \<in> set xs"
  by (cases xs) auto

lemma queue_ok_same:
  assumes "queue_ok s es outs" "rpc_calls es' = rpc_calls es" "new = [] \<or> new = [PostStop]"
    and "rc_queue s' = rc_queue s" "rc_next s' = rc_next s"
  shows "queue_ok s' es' (outs @ new)"
  using assms unfolding queue_ok_def by (auto simp: rpc_simps)

lemma queue_ok_start: "queue_ok rpc_start [] []"
  by (simp add: queue_ok_def rpc_start_def rpc_simps underway_def rpc_calls_def List.map_filter_def)

text \<open>A step that makes no call sees the same calls.\<close>

lemma rpc_calls_snoc:
  "rpc_calls (es @ [e]) = rpc_calls es @ (case e of RCall m b _ \<Rightarrow> [(m, b)] | _ \<Rightarrow> [])"
  by (simp add: rpc_calls_def List.map_filter_def split: rpc_event.split)

lemma call_queue_ok:
  assumes "queue_ok s es outs" "rpc_call method body aborted s = (s', new)"
  shows "queue_ok s' (es @ [RCall method body aborted]) (outs @ new)"
proof -
  note ok = queue_okD[OF assms(1)]
  let ?i = "rc_next s" and ?es = "es @ [RCall method body aborted]"
  let ?x = "\<lparr>sl_id = ?i, sl_method = method, sl_body = body, sl_sent = False, sl_gave_up = False, sl_previous = last_method (rc_queue s)\<rparr>"
  have old: "rpc_calls ?es ! j = rpc_calls es ! j" if "j < ?i" for j
    using that ok(2) by (simp add: rpc_calls_snoc nth_append)
  have this_call: "rpc_calls ?es ! ?i = (method, body)" "length (rpc_calls ?es) = ?i + 1"
    using ok(2) by (simp_all add: rpc_calls_snoc)
  have posts: "Post j m b \<in> set outs \<Longrightarrow> j < ?i" for j m b using ok(7)[of j] by (auto simp: posted_mem)
  have slots: "x \<in> set (rc_queue s) \<Longrightarrow> sl_id x \<noteq> ?i" for x using ok(3) by fastforce
  consider (refused) r where "s' = s\<lparr>rc_next := ?i + 1\<rparr>" "new = [Result ?i r]"
    | (queued) "s' = s\<lparr>rc_next := ?i + 1, rc_queue := rc_queue s @ [?x]\<rparr>" "new = []"
    using assms(2) by (auto simp: rpc_call_def Let_def split: if_splits option.splits)
  then show ?thesis
  proof cases
    case refused
    show ?thesis
      unfolding queue_ok_def refused
      using ok old posts slots this_call by (auto simp: rpc_simps less_Suc_eq)
  next
    case queued
    have queue: "rc_queue s' = rc_queue s @ [?x]" "rc_next s' = ?i + 1" by (simp_all add: queued)
    have tail: "x \<in> set (tl (rc_queue s @ [?x])) \<Longrightarrow> x \<in> set (tl (rc_queue s)) \<or> x = ?x" for x
      by (cases "rc_queue s") auto
    have head: "underway (rc_queue s @ [?x]) = underway (rc_queue s)" by (cases "rc_queue s") (simp_all add: underway_def)
    show ?thesis
      unfolding queue_ok_def queue head queued(2)
    proof (intro conjI ballI allI impI)
      show "sorted_wrt (<) (map sl_id (rc_queue s @ [?x]))" using ok(1,3) by (auto simp: sorted_wrt_append)
      show "?i + 1 = length (rpc_calls ?es)" using this_call(2) by simp
    next
      fix x assume x: "x \<in> set (rc_queue s @ [?x])"
      show "sl_id x < ?i + 1" using x ok(3)[of x] by auto
      show "rpc_calls ?es ! sl_id x = (sl_method x, sl_body x)" using x ok(3,4)[of x] old this_call(1) by auto
    next
      fix x assume "x \<in> set (tl (rc_queue s @ [?x]))"
      from tail[OF this] show "\<not> sl_sent x" using ok(5)[of x] by (elim disjE) simp_all
    next
      show "sorted_wrt (<) (posted (outs @ []))" using ok(6) by simp
      show "answered_posts (outs @ []) @ underway (rc_queue s) = posted (outs @ [])" using ok(9) by simp
    next
      fix j assume "j \<in> set (posted (outs @ []))"
      with ok(7)[of j] show "j < ?i + 1" by simp
    next
      fix j x assume "j \<in> set (posted (outs @ []))" "x \<in> set (rc_queue s @ [?x])" "\<not> sl_sent x"
      with ok(7,8)[of j] show "j < sl_id x" by auto
    next
      fix j m b assume "Post j m b \<in> set (outs @ [])"
      with ok(10)[of j m b] posts[of j m b] old[of j] show "rpc_calls ?es ! j = (m, b)" by simp
    next
      fix x r assume "x \<in> set (rc_queue s @ [?x])" "\<not> sl_gave_up x"
      with ok(11)[of x r] ok(12)[of ?i r] show "Result (sl_id x) r \<notin> set (outs @ [])" by auto
    next
      fix j r assume "Result j r \<in> set (outs @ [])"
      with ok(12)[of j r] show "j < ?i + 1" by simp
    qed
  qed
qed

lemma dropped_queue_ok:
  assumes "queue_ok s es outs" "rc_queue s = x # xs" "\<not> sl_sent x" "new = [] \<or> new = [Result (sl_id x) r]" "rpc_calls es' = rpc_calls es"
  shows "queue_ok (s\<lparr>rc_queue := xs\<rparr>) es' (outs @ new)"
proof -
  note ok = queue_okD[OF assms(1), unfolded assms(2)]
  have rest: "y \<in> set xs \<Longrightarrow> \<not> sl_sent y \<and> sl_id x < sl_id y" for y using ok(1,5) by auto
  have "underway xs = []" using rest by (cases xs) (auto simp: underway_def)
  moreover have "underway (x # xs) = []" using assms(3) by (simp add: underway_def)
  ultimately show ?thesis
    unfolding queue_ok_def using ok rest assms(4,5)
    by (auto simp: rpc_simps sorted_wrt_append dest: tl_mem) (metis less_irrefl)
qed

lemma turn_queue_ok:
  assumes "queue_ok s es outs" "rpc_turn s = (s', new)" "rpc_calls es' = rpc_calls es"
  shows "queue_ok s' es' (outs @ new)"
proof (cases "rc_queue s")
  case Nil
  with assms(2) have "s' = s" "new = []" by (simp_all add: rpc_turn_def)
  with queue_ok_same[OF assms(1,3), of new s'] show ?thesis by simp
next
  case (Cons x xs)
  note ok = queue_okD[OF assms(1), unfolded Cons]
  show ?thesis
  proof (cases "sl_sent x")
    case True
    with assms(2) Cons have "s' = s" "new = []" by (simp_all add: rpc_turn_def)
    with queue_ok_same[OF assms(1,3), of new s'] show ?thesis by simp
  next
    case unsent: False
    show ?thesis
    proof (cases "sl_gave_up x \<or> rc_dead s \<noteq> None")
      case True
      then have "\<exists>r. s' = s\<lparr>rc_queue := xs\<rparr> \<and> (new = [] \<or> new = [Result (sl_id x) r])"
        using assms(2) Cons unsent by (auto simp: rpc_turn_def split: if_splits option.splits)
      with dropped_queue_ok[OF assms(1) Cons unsent _ assms(3)] show ?thesis by blast
    next
      case False
      then have step: "s' = s\<lparr>rc_queue := x\<lparr>sl_sent := True\<rparr> # xs\<rparr>" "new = [Post (sl_id x) (sl_method x) (sl_body x)]"
        using assms(2) Cons unsent by (auto simp: rpc_turn_def)
      have rest: "y \<in> set xs \<Longrightarrow> \<not> sl_sent y \<and> sl_id x < sl_id y" for y using ok(1,5) by auto
      have none: "underway (x # xs) = []" "underway (x\<lparr>sl_sent := True\<rparr> # xs) = [sl_id x]"
        using unsent by (simp_all add: underway_def)
      show ?thesis
        unfolding queue_ok_def step using ok rest none unsent assms(3)
        by (auto simp: rpc_simps sorted_wrt_append)
    qed
  qed
qed

lemma answer_queue_ok:
  assumes "queue_ok s es outs" "rpc_answer i t s = (s', new)" "rpc_calls es' = rpc_calls es"
  shows "queue_ok s' es' (outs @ new)"
proof (cases "\<exists>x xs. rc_queue s = x # xs \<and> sl_id x = i \<and> sl_sent x")
  case False
  then have "s' = s" "new = []" using assms(2) by (auto simp: rpc_answer_def split: list.splits if_splits)
  with queue_ok_same[OF assms(1,3), of new s'] show ?thesis by simp
next
  case True
  then obtain x xs where x: "rc_queue s = x # xs" "sl_id x = i" "sl_sent x" by blast
  note ok = queue_okD[OF assms(1), unfolded x(1)]
  have step: "s' = s\<lparr>rc_queue := xs\<rparr>" "new = Settled i # (if sl_gave_up x then [] else [Result i (rpc_reply (sl_method x) t)])"
    using assms(2) x by (simp_all add: rpc_answer_def)
  have rest: "y \<in> set xs \<Longrightarrow> \<not> sl_sent y \<and> sl_id x < sl_id y" for y using ok(1,5) by auto
  have none: "underway xs = []" "underway (x # xs) = [i]" using rest x by (cases xs; auto simp: underway_def)+
  show ?thesis
    unfolding queue_ok_def step using ok rest none x(2) assms(3)
    by (auto simp: rpc_simps dest: tl_mem)
qed

lemma release_queue_ok:
  assumes "queue_ok s es outs" "rpc_release_call i why s = (s', new)" "rpc_calls es' = rpc_calls es"
  shows "queue_ok s' es' (outs @ new)"
proof (cases "List.find (\<lambda>x. sl_id x = i \<and> \<not> sl_gave_up x) (rc_queue s)")
  case None
  with assms(2) have "s' = s" "new = []" by (simp_all add: rpc_release_call_def)
  with queue_ok_same[OF assms(1,3), of new s'] show ?thesis by simp
next
  case (Some x)
  note ok = queue_okD[OF assms(1)]
  from Some have x: "x \<in> set (rc_queue s)" "sl_id x = i" by (auto simp: find_Some_iff)
  define f :: "rpc_slot \<Rightarrow> rpc_slot" where "f = (\<lambda>y. if sl_id y = i then y\<lparr>sl_gave_up := True\<rparr> else y)"
  have step: "rc_queue s' = map f (rc_queue s)" "rc_next s' = rc_next s"
    "new = (if why = SignalAborted \<and> sl_sent x then [PostStop] else []) @ [Result i (released_result why x)]"
    using assms(2) Some by (auto simp: rpc_release_call_def f_def)
  have f: "sl_id (f y) = sl_id y" "sl_sent (f y) = sl_sent y" "sl_method (f y) = sl_method y" "sl_body (f y) = sl_body y"
    "\<not> sl_gave_up (f y) \<Longrightarrow> sl_id y \<noteq> i \<and> \<not> sl_gave_up y" for y
    by (auto simp: f_def split: if_splits)
  have ids: "map sl_id (map f (rc_queue s)) = map sl_id (rc_queue s)" using f(1) by simp
  have under: "underway (map f (rc_queue s)) = underway (rc_queue s)" using f by (cases "rc_queue s") (simp_all add: underway_def)
  have tail: "set (tl (map f (rc_queue s))) = f ` set (tl (rc_queue s))" by (cases "rc_queue s") auto
  have outs: "posted (outs @ new) = posted outs" "answered_posts (outs @ new) = answered_posts outs"
    "Post j m b \<in> set (outs @ new) \<longleftrightarrow> Post j m b \<in> set outs"
    "Result j r \<in> set (outs @ new) \<longrightarrow> Result j r \<in> set outs \<or> j = i" for j m b r
    by (auto simp: step(3) rpc_simps)
  show ?thesis
    unfolding queue_ok_def step(1,2) ids under outs(1-3) assms(3)
  proof (intro conjI ballI allI impI)
    fix y r assume "y \<in> set (map f (rc_queue s))" "\<not> sl_gave_up y"
    then obtain z where "z \<in> set (rc_queue s)" "sl_id z \<noteq> i" "\<not> sl_gave_up z" "sl_id y = sl_id z" using f(1,5) by auto
    with ok(11)[of z r] outs(4) show "Result (sl_id y) r \<notin> set (outs @ new)" by metis
  next
    fix j r assume "Result j r \<in> set (outs @ new)"
    with outs(4) ok(3)[OF x(1)] x(2) ok(12) show "j < rc_next s" by metis
  next
    show "sorted_wrt (<) (map sl_id (rc_queue s))" using ok(1) .
    show "rc_next s = length (rpc_calls es)" using ok(2) .
    show "sorted_wrt (<) (posted outs)" using ok(6) .
    show "answered_posts outs @ underway (rc_queue s) = posted outs" using ok(9) .
  next
    fix y assume "y \<in> set (tl (map f (rc_queue s)))"
    then show "\<not> sl_sent y" using tail f(2) ok(5) by auto
  qed (use ok(3,4,7,8,10) f(1-4) in auto)
qed

lemma step_queue_ok:
  assumes "queue_ok s es outs" "rpc_step e s = (s', new)"
  shows "queue_ok s' (es @ [e]) (outs @ new)"
proof (cases e)
  case (RCall m b a)
  with assms call_queue_ok[OF assms(1)] show ?thesis by (simp add: rpc_step_def)
next
  case RTurn
  with assms turn_queue_ok[OF assms(1)] show ?thesis by (simp add: rpc_step_def rpc_calls_snoc)
next
  case (RAnswer i t)
  with assms answer_queue_ok[OF assms(1)] show ?thesis by (simp add: rpc_step_def rpc_calls_snoc)
next
  case (RRelease i why)
  with assms release_queue_ok[OF assms(1)] show ?thesis by (simp add: rpc_step_def rpc_calls_snoc)
next
  case (RGraceOver i)
  then have "rc_queue s' = rc_queue s" "rc_next s' = rc_next s" "new = []"
    using assms(2) by (auto simp: rpc_step_def rpc_grace_def split: option.splits)
  with RGraceOver show ?thesis by (intro queue_ok_same[OF assms(1)]) (simp_all add: rpc_calls_snoc)
next
  case RInterrupt
  with assms(2) show ?thesis by (intro queue_ok_same[OF assms(1)]) (auto simp: rpc_calls_snoc rpc_step_def)
next
  case RForget
  with assms(2) show ?thesis by (intro queue_ok_same[OF assms(1)]) (auto simp: rpc_calls_snoc rpc_step_def)
qed

lemma run_queue_ok:
  assumes "queue_ok s es outs" "rpc_run es' s = (s', new)"
  shows "queue_ok s' (es @ es') (outs @ new)"
  using assms
proof (induction es' arbitrary: s es outs new)
  case (Cons e es')
  obtain s1 o1 where 1: "rpc_step e s = (s1, o1)" by fastforce
  obtain o2 where 2: "rpc_run es' s1 = (s', o2)" "new = o1 @ o2" using Cons.prems(2) 1 by (auto simp: Let_def split: prod.splits)
  from Cons.IH[OF step_queue_ok[OF Cons.prems(1) 1] 2(1)] 2(2) show ?case by simp
qed simp

subsection \<open>Properties\<close>


text \<open>A call that can no longer be posted: it is not in the queue, was posted already, or was released.\<close>

definition past :: "nat \<Rightarrow> rpc_client \<Rightarrow> bool" where
  "past i s \<longleftrightarrow> i < rc_next s \<and> (\<forall>x \<in> set (rc_queue s). sl_id x = i \<longrightarrow> sl_gave_up x \<or> sl_sent x)"

lemma step_past:
  assumes "past i s" "rpc_step e s = (s', new)"
  shows "past i s' \<and> i \<notin> set (posted new)"
proof (cases e)
  case (RTurn)
  with assms show ?thesis
    by (auto simp: past_def rpc_step_def rpc_turn_def rpc_simps split: list.splits if_splits option.splits)
next
  case (RCall m b a)
  with assms show ?thesis
    by (auto simp: past_def rpc_step_def rpc_call_def Let_def rpc_simps split: if_splits option.splits)
next
  case (RAnswer j t)
  with assms show ?thesis
    by (auto simp: past_def rpc_step_def rpc_answer_def rpc_simps split: list.splits if_splits)
next
  case (RRelease j why)
  with assms show ?thesis
    by (auto simp: past_def rpc_step_def rpc_release_call_def rpc_simps split: if_splits option.splits)
next
  case (RGraceOver j)
  with assms show ?thesis by (auto simp: past_def rpc_step_def rpc_grace_def rpc_simps split: option.splits)
qed (use assms in \<open>auto simp: past_def rpc_step_def rpc_simps\<close>)

lemma run_past: "past i s \<Longrightarrow> i \<notin> set (posted (snd (rpc_run es s)))"
proof (induction es arbitrary: s)
  case (Cons e es)
  obtain s1 o1 where 1: "rpc_step e s = (s1, o1)" by fastforce
  from step_past[OF Cons.prems 1] Cons.IH[of s1] 1 show ?case by (simp add: Let_def case_prod_unfold rpc_simps)
qed (simp add: rpc_simps)

lemma step_given_up:
  assumes "rc_dead s \<noteq> None" "rpc_step e s = (s', new)" "e \<noteq> RForget"
  shows "rc_dead s' \<noteq> None \<and> posted new = []"
  using assms
  by (cases e) (auto simp: rpc_step_def rpc_call_def rpc_turn_def rpc_answer_def rpc_release_call_def rpc_grace_def
      Let_def rpc_simps split: list.splits if_splits option.splits)

lemma run_given_up: "rc_dead s \<noteq> None \<Longrightarrow> RForget \<notin> set es \<Longrightarrow> posted (snd (rpc_run es s)) = []"
proof (induction es arbitrary: s)
  case (Cons e es)
  obtain s1 o1 where 1: "rpc_step e s = (s1, o1)" by fastforce
  from step_given_up[OF Cons.prems(1) 1] Cons.prems(2) Cons.IH[of s1] 1 show ?case
    by (auto simp: Let_def case_prod_unfold rpc_simps)
qed (simp add: rpc_simps)

text \<open>C20: What was not sent in time is never sent: a call whose caller has its result, a timeout, an abort or a
  refusal, before it was posted is not posted later, whatever follows; and an endpoint that was given up
  on gets no call at all until it is forgotten.\<close>

theorem unsent_stays_unsent:
  assumes "rpc_run es rpc_start = (s, outs)"
  shows "(Result i r \<in> set outs \<and> i \<notin> set (posted outs) \<longrightarrow> i \<notin> set (posted (snd (rpc_run es' s))))
    \<and> (rc_dead s \<noteq> None \<and> RForget \<notin> set es' \<longrightarrow> posted (snd (rpc_run es' s)) = [])"
proof -
  from run_queue_ok[OF queue_ok_start assms] have "queue_ok s es outs" by simp
  note ok = queue_okD[OF this]
  have "past i s" if "Result i r \<in> set outs"
    unfolding past_def using that ok(11)[of _ r] ok(12)[OF that] by blast
  with run_past run_given_up show ?thesis by blast
qed

text \<open>A stop goes beside the queue and leaves it alone: a motion that waits in the queue when the stop is sent is
  posted after it, once the call before it is answered.\<close>

lemma stop_spares_queue:
  "snd (rpc_run [RCall ''get_observation'' b False, RTurn, RCall ''move_to'' b' False, RInterrupt, RAnswer 0 t, RTurn] rpc_start)
     = [Post 0 ''get_observation'' b, PostStop, Settled 0, Result 0 (rpc_reply ''get_observation'' t), Post 1 ''move_to'' b']"
  by (simp add: rpc_start_def rpc_step_def rpc_call_def rpc_turn_def rpc_answer_def Let_def)

text \<open>Three calls: the first runs and is aborted, the second times out in the queue, the third is posted.\<close>

definition three_calls :: "rpc_event list" where
  "three_calls =
     [RCall ''plan'' JNull False, RTurn, RCall ''look'' JNull False, RCall ''state'' JNull False,
      RRelease 0 SignalAborted, RRelease 1 TimedOut, RAnswer 0 (AnswerText None), RTurn, RTurn]"

lemma three_outs:
  "snd (rpc_run three_calls rpc_start)
     = [Post 0 ''plan'' JNull, PostStop, Result 0 (StillRunning ''plan'' SignalAborted),
        Result 1 (NeverSent ''look'' TimedOut (Some ''plan'')), Settled 0, Post 2 ''state'' JNull]"
  by code_simp

lemma three_run: "rpc_run three_calls rpc_start = (fst (rpc_run three_calls rpc_start), snd (rpc_run three_calls rpc_start))"
  by simp


theorem unsent_stays_unsent_witness:
  "1 \<notin> set (posted (snd (rpc_run [RTurn, RAnswer 2 (AnswerText None), RTurn] (fst (rpc_run three_calls rpc_start)))))"
  using unsent_stays_unsent[OF three_run, of 1 "NeverSent ''look'' TimedOut (Some ''plan'')"
      "[RTurn, RAnswer 2 (AnswerText None), RTurn]", THEN conjunct1] three_outs
  by (simp add: rpc_simps del: rpc_run.simps)

end
