(* ===== verification/Closed_Loop.thy ===== *)
theory Closed_Loop
  imports Prelude
begin

text \<open>
  The re-observe gate, \<^verbatim>\<open>packages/embodied/src/planner/closed-loop.ts\<close>: after a motion whose outcome is
  unknown the next motion is refused until an observation tool has run successfully. Which tools
  move the robot is the robot's \<open>moves\<close>, a parameter. The hooks of the extension are events of a
  step function; session entries are its outputs.
\<close>

subsection \<open>Tools\<close>

definition OBSERVE :: "string list" where
  "OBSERVE = [''view_env_state'', ''render'', ''look'', ''mm_observe'']"

definition NON_MOTION :: "string list" where
  "NON_MOTION =
     [''get_camera_meta'', ''get_object_pose'', ''sample_grasp_pose''] @ OBSERVE @
     [''get_robot_position'', ''view_camera_meta'', ''view_perception_setup'',
      ''describe_dual_franka_setup'', ''segment'', ''point'', ''molmo_point'', ''back_project'',
      ''back_project_batch'', ''back_project_correspondence'', ''sample_world_xyz'',
      ''query_world_map'', ''detect'', ''select_detection'', ''reject_detection'', ''enhance_depth'',
      ''plan'', ''plan_grasp'', ''plan_place'', ''preview_reach'', ''check_attached'',
      ''view_points'', ''mark_point'', ''ground_truth_poses'', ''halt_arm'', ''suggest_grasp'']"

definition RESETS :: "string list" where
  "RESETS = [''reset'', ''request_scene_reset'']"

subsection \<open>Unknown outcomes\<close>

text \<open>The regular expression \<open>UNKNOWN\<close>, case-insensitive, with its word boundaries: a match starts
  where no word character precedes and ends where none follows.\<close>

definition lower :: "char \<Rightarrow> char" where
  "lower c = (let n = of_char c :: nat in if 65 \<le> n \<and> n \<le> 90 then char_of (n + 32) else c)"

definition re_word :: "char \<Rightarrow> bool" where
  "re_word c \<longleftrightarrow> (let n = of_char c :: nat in (48 \<le> n \<and> n \<le> 57) \<or> (65 \<le> n \<and> n \<le> 90) \<or> n = 95 \<or> (97 \<le> n \<and> n \<le> 122))"

fun word_ends :: "string \<Rightarrow> bool" where
  "word_ends [] = True"
| "word_ends (c # cs) = (\<not> re_word c)"

definition phrase_here :: "string \<Rightarrow> string \<Rightarrow> bool" where
  "phrase_here p s \<longleftrightarrow> prefix p s \<and> word_ends (drop (length p) s)"

text \<open>\<open>timed?[\s_-]?out\<close>.\<close>

fun out_here :: "string \<Rightarrow> bool" where
  "out_here [] = False"
| "out_here (c # cs) =
     (phrase_here ''out'' (c # cs) \<or>
      ((js_space c \<or> c = CHR ''_'' \<or> c = CHR ''-'') \<and> phrase_here ''out'' cs))"

definition time_out_here :: "string \<Rightarrow> bool" where
  "time_out_here s \<longleftrightarrow>
     (prefix ''time'' s \<and> out_here (drop 4 s)) \<or> (prefix ''timed'' s \<and> out_here (drop 5 s))"

definition unknown_here :: "string \<Rightarrow> bool" where
  "unknown_here s \<longleftrightarrow> time_out_here s \<or>
     list_ex (\<lambda>p. phrase_here p s)
       [''timeout'', ''unanswered'', ''unknown outcome'', ''outcome unknown'', ''outcome is unknown'', ''ambiguous'']"

fun unknown_from :: "bool \<Rightarrow> string \<Rightarrow> bool" where
  "unknown_from after_word [] = False"
| "unknown_from after_word (c # cs) =
     ((\<not> after_word \<and> unknown_here (c # cs)) \<or> unknown_from (re_word c) cs)"

definition UNKNOWN :: "string \<Rightarrow> bool" where
  "UNKNOWN s = unknown_from False (map lower s)"

text \<open>A tool result: its text parts in order (another part counts as empty text) and its details.\<close>

record outcome =
  oc_error :: bool
  oc_texts :: "string list"
  oc_details :: "json option"

text \<open>A property read of \<open>(v ?? {})\<close>.\<close>

fun prop_of :: "json option \<Rightarrow> string \<Rightarrow> json option" where
  "prop_of (Some (JObj al)) k = map_of al k"
| "prop_of _ k = None"

fun join_space :: "string list \<Rightarrow> string" where
  "join_space [] = []"
| "join_space [t] = t"
| "join_space (t # ts) = t @ '' '' @ join_space ts"

definition unknown_error :: "json option \<Rightarrow> string option" where
  "unknown_error e = (case e of Some (JStr t) \<Rightarrow> if UNKNOWN t then Some (oneLine t) else None | _ \<Rightarrow> None)"

definition unknownOutcome :: "outcome \<Rightarrow> string option" where
  "unknownOutcome r =
     (let d = oc_details r; nested = prop_of d ''result'' in
      if prop_of d ''status'' = Some (JStr ''timeout'') \<or> prop_of d ''timed_out'' = Some (JBool True)
         \<or> prop_of d ''timeout'' = Some (JBool True)
      then Some ''timed out''
      else if prop_of d ''status'' = Some (JStr ''unknown'') \<or> prop_of d ''outcome'' = Some (JStr ''unknown'')
      then Some ''reported an unknown outcome''
      else case unknown_error (prop_of d ''error'') of
        Some why \<Rightarrow> Some why
      | None \<Rightarrow>
          (case unknown_error (prop_of nested ''error'') of
             Some why \<Rightarrow> Some why
           | None \<Rightarrow>
               if oc_error r \<and> UNKNOWN (join_space (oc_texts r))
               then Some (oneLine (join_space (oc_texts r)))
               else None))"

subsection \<open>The gate\<close>

datatype loop_entry =
    UnknownOutcome string string
  | Refused string string
  | Reobserved string string

record loop =
  lp_pending :: "(string \<times> string) option"
  lp_unknown :: nat
  lp_refused :: nat
  lp_hooked :: bool
  lp_entries :: "loop_entry list"

definition loop_init :: loop where
  "loop_init = \<lparr>lp_pending = None, lp_unknown = 0, lp_refused = 0, lp_hooked = False, lp_entries = []\<rparr>"

text \<open>Session starts and calls carry the tools that are active then.\<close>

datatype loop_event =
    LStart "string list"
  | LResult string outcome
  | LCall string "string list"

definition observers :: "string list \<Rightarrow> string list" where
  "observers active = filter (\<lambda>t. t \<in> set OBSERVE) active"

definition loop_start :: "string list \<Rightarrow> loop \<Rightarrow> loop" where
  "loop_start active s =
     s\<lparr>lp_pending := None, lp_unknown := 0, lp_refused := 0,
       lp_hooked := lp_hooked s \<or> observers active \<noteq> []\<rparr>"

definition watch :: "(string \<Rightarrow> bool) \<Rightarrow> string \<Rightarrow> outcome \<Rightarrow> loop \<Rightarrow> loop" where
  "watch moves tool r s =
     (if tool \<in> set OBSERVE then
        (case lp_pending s of
           None \<Rightarrow> s
         | Some (t, _) \<Rightarrow>
             if oc_error r then s
             else s\<lparr>lp_entries := lp_entries s @ [Reobserved tool t], lp_pending := None\<rparr>)
      else if \<not> moves tool then s
      else case unknownOutcome r of
        None \<Rightarrow> s
      | Some why \<Rightarrow>
          s\<lparr>lp_pending := Some (tool, why), lp_unknown := lp_unknown s + 1,
            lp_entries := lp_entries s @ [UnknownOutcome tool why]\<rparr>)"

text \<open>A refusal names the tool, the motion before it, why and the observation tools.\<close>

type_synonym refusal_text = "string \<times> string \<times> string \<times> string list"

definition loop_gate :: "(string \<Rightarrow> bool) \<Rightarrow> string \<Rightarrow> string list \<Rightarrow> loop \<Rightarrow> loop \<times> refusal_text option" where
  "loop_gate moves tool active s =
     (case lp_pending s of
        None \<Rightarrow> (s, None)
      | Some (t, why) \<Rightarrow>
          if \<not> moves tool \<or> observers active = [] then (s, None)
          else (s\<lparr>lp_refused := lp_refused s + 1, lp_entries := lp_entries s @ [Refused tool t]\<rparr>,
                Some (tool, t, why, observers active)))"

definition loop_step :: "(string \<Rightarrow> bool) \<Rightarrow> loop_event \<Rightarrow> loop \<Rightarrow> loop \<times> refusal_text option" where
  "loop_step moves e s =
     (case e of
        LStart active \<Rightarrow> (loop_start active s, None)
      | LResult tool r \<Rightarrow> (if lp_hooked s then watch moves tool r s else s, None)
      | LCall tool active \<Rightarrow> if lp_hooked s then loop_gate moves tool active s else (s, None))"

fun loop_run :: "(string \<Rightarrow> bool) \<Rightarrow> loop_event list \<Rightarrow> loop \<Rightarrow> loop" where
  "loop_run moves [] s = s"
| "loop_run moves (e # es) s = loop_run moves es (fst (loop_step moves e s))"

definition loop_result :: "loop \<Rightarrow> (nat \<times> nat) option" where
  "loop_result s = (if lp_hooked s then Some (lp_unknown s, lp_refused s) else None)"

subsection \<open>What leaves an outcome unresolved\<close>

text \<open>An unknown outcome of a motion, and the events that resolve it.\<close>

definition unknown_motion :: "(string \<Rightarrow> bool) \<Rightarrow> loop_event \<Rightarrow> bool" where
  "unknown_motion moves e \<longleftrightarrow>
     (case e of LResult tool r \<Rightarrow> tool \<notin> set OBSERVE \<and> moves tool \<and> unknownOutcome r \<noteq> None | _ \<Rightarrow> False)"

definition resolves :: "loop_event \<Rightarrow> bool" where
  "resolves e \<longleftrightarrow>
     (case e of LStart _ \<Rightarrow> True | LResult tool r \<Rightarrow> tool \<in> set OBSERVE \<and> \<not> oc_error r | LCall _ _ \<Rightarrow> False)"

definition unresolved :: "(string \<Rightarrow> bool) \<Rightarrow> loop_event list \<Rightarrow> bool" where
  "unresolved moves es \<longleftrightarrow>
     (\<exists>before e after. es = before @ e # after \<and> unknown_motion moves e \<and> list_all (\<lambda>x. \<not> resolves x) after)"

lemma loop_run_append: "loop_run moves (es @ es') s = loop_run moves es' (loop_run moves es s)"
  by (induction es arbitrary: s) auto

lemma step_hooked: "lp_hooked s \<Longrightarrow> lp_hooked (fst (loop_step moves e s))"
  by (auto simp: loop_step_def loop_start_def watch_def loop_gate_def split: loop_event.split option.split prod.split)

lemma run_hooked: "lp_hooked s \<Longrightarrow> lp_hooked (loop_run moves es s)"
  by (induction es arbitrary: s) (auto simp: step_hooked)

lemma step_pending:
  assumes "lp_hooked s"
  shows "lp_pending (fst (loop_step moves e s)) \<noteq> None \<longleftrightarrow>
    unknown_motion moves e \<or> (lp_pending s \<noteq> None \<and> \<not> resolves e)"
  using assms
  by (cases e)
    (auto simp: loop_step_def loop_start_def watch_def loop_gate_def unknown_motion_def resolves_def
      split: option.split)

lemma unresolved_snoc: "unresolved moves (es @ [e]) \<longleftrightarrow> unknown_motion moves e \<or> (unresolved moves es \<and> \<not> resolves e)"
proof
  assume "unresolved moves (es @ [e])"
  then obtain before m after where m: "es @ [e] = before @ m # after" "unknown_motion moves m"
    "list_all (\<lambda>x. \<not> resolves x) after" by (auto simp: unresolved_def)
  show "unknown_motion moves e \<or> (unresolved moves es \<and> \<not> resolves e)"
  proof (cases after rule: rev_cases)
    case Nil
    with m show ?thesis by simp
  next
    case (snoc ys y)
    with m have "es = before @ m # ys" "y = e" by auto
    with m snoc show ?thesis by (auto simp: unresolved_def)
  qed
next
  assume "unknown_motion moves e \<or> (unresolved moves es \<and> \<not> resolves e)"
  then show "unresolved moves (es @ [e])"
  proof
    assume "unresolved moves es \<and> \<not> resolves e"
    then obtain before m after where "es = before @ m # after" "unknown_motion moves m"
      "list_all (\<lambda>x. \<not> resolves x) (after @ [e])" by (auto simp: unresolved_def)
    then show ?thesis unfolding unresolved_def by (intro exI[of _ before] exI[of _ m] exI[of _ "after @ [e]"]) simp
  next
    assume "unknown_motion moves e"
    then show ?thesis unfolding unresolved_def by (intro exI[of _ es] exI[of _ e] exI[of _ "[]"]) simp
  qed
qed

lemma run_pending:
  "lp_hooked s \<Longrightarrow> lp_pending s = None \<Longrightarrow>
     lp_pending (loop_run moves es s) \<noteq> None \<longleftrightarrow> unresolved moves es"
proof (induction es rule: rev_induct)
  case Nil
  then show ?case by (simp add: unresolved_def)
next
  case (snoc e es)
  then show ?case
    using step_pending[OF run_hooked[OF snoc.prems(1), of moves es], of moves e]
    by (simp only: loop_run_append loop_run.simps unresolved_snoc)
qed

text \<open>
  C26: the re-observe rule, in both directions. From a session start with an observation tool active,
  after any history of results, calls and further session starts, a call is refused if and only if
  it moves the robot, an observation tool is active, and some motion's result left an unknown
  outcome that no successful observation (and no session start) has resolved since.
\<close>

theorem motion_needs_reobservation:
  assumes "observers active0 \<noteq> []"
  shows "snd (loop_step moves (LCall tool active) (loop_run moves es (loop_start active0 s))) \<noteq> None \<longleftrightarrow>
    moves tool \<and> observers active \<noteq> [] \<and> unresolved moves es"
proof -
  let ?s = "loop_start active0 s" and ?t = "loop_run moves es (loop_start active0 s)"
  have h: "lp_hooked ?s" "lp_pending ?s = None" using assms by (auto simp: loop_start_def)
  from run_hooked[OF h(1)] have "lp_hooked ?t" .
  then show ?thesis using run_pending[OF h, of moves es]
    by (auto simp: loop_step_def loop_gate_def split: option.split)
qed

definition not_listed :: "string \<Rightarrow> bool" where
  "not_listed tool \<longleftrightarrow> tool \<notin> set NON_MOTION"

definition act_timed_out :: loop_event where
  "act_timed_out =
     LResult ''act'' \<lparr>oc_error = False, oc_texts = [], oc_details = Some (JObj [(''status'', JStr ''timeout'')])\<rparr>"

lemma act_unknown: "unresolved not_listed [act_timed_out]"
  using unresolved_snoc[of not_listed "[]" act_timed_out]
  by (simp add: unknown_motion_def unknownOutcome_def act_timed_out_def not_listed_def NON_MOTION_def OBSERVE_def)

theorem motion_needs_reobservation_witness:
  "snd (loop_step not_listed (LCall ''move_to'' [''look''])
      (loop_run not_listed [act_timed_out] (loop_start [''look''] loop_init))) \<noteq> None"
  using motion_needs_reobservation[of "[''look'']" not_listed "''move_to''" "[''look'']" "[act_timed_out]" loop_init]
    act_unknown
  by (simp add: observers_def OBSERVE_def not_listed_def NON_MOTION_def del: loop_run.simps)

end
