(* ===== verification/Motion_Approval.thy ===== *)
theory Motion_Approval
  imports Prelude
begin

text \<open>
  Motion approval, the second half of \<^verbatim>\<open>packages/embodied/src/capabilities/operator.ts\<close> (lines
  311-675): which motion calls need an approval, how the operator's or the reviewer's answer
  decides one, the counters, and the program the operator approved once. The dialog and the
  reviewer model are the environment: their answers are arguments. \<open>JSON.parse\<close> and \<open>String\<close> of a
  value that is no string are parameters.
\<close>

subsection \<open>Risk\<close>

definition GRASP_PLACE_TOOLS :: "string list" where
  "GRASP_PLACE_TOOLS =
     [''execute_grasp'', ''execute_place'', ''grasp_object'', ''scripted_grasp'', ''pi0_pick'',
      ''pi0_doubled'', ''vla_grasp'', ''vla_right_grasp'', ''vla_handoff'', ''vla_left_place'',
      ''xpolicy_act'', ''lingbot_act'', ''rldx_skill'', ''rldx_arm'', ''release'']"

definition RESET_TOOLS :: "string list" where
  "RESET_TOOLS = [''reset'', ''request_scene_reset'', ''recover_joint_posture'']"

definition ABSOLUTE_MOVES :: "string list" where
  "ABSOLUTE_MOVES =
     [''move_to'', ''move_pose'', ''move_grip'', ''move_hand'', ''navigate_to'', ''navigate_to_pose'',
      ''move_to_joints'', ''move_along_trajectory'']"

fun is_num :: "json \<Rightarrow> bool" where
  "is_num (JNum _) = True"
| "is_num _ = False"

fun num_of :: "json \<Rightarrow> rat" where
  "num_of (JNum q) = q"
| "num_of _ = 0"

text \<open>\<open>Math.hypot\<close>, exact (the source rounds to a double).\<close>

definition hypot :: "rat list \<Rightarrow> real" where
  "hypot qs = sqrt (sum_list (map (\<lambda>q. (of_rat q)\<^sup>2) qs))"

definition translation_of :: "json option \<Rightarrow> real" where
  "translation_of v =
     (case v of
        Some (JArr xs) \<Rightarrow> if length xs \<ge> 2 \<and> list_all is_num xs then hypot (map num_of (take 3 xs)) else 0
      | _ \<Rightarrow> 0)"

definition commandedTranslation :: "(string \<times> json) list \<Rightarrow> real" where
  "commandedTranslation input =
     fold (\<lambda>key most. max most (translation_of (map_of input key)))
       [''delta_xyz'', ''delta'', ''dxyz'', ''translation''] 0"

definition highRisk :: "string \<Rightarrow> (string \<times> json) list \<Rightarrow> bool \<Rightarrow> rat \<Rightarrow> bool" where
  "highRisk tool input real_robot largeM \<longleftrightarrow>
     real_robot \<or> tool \<in> set GRASP_PLACE_TOOLS \<or> tool \<in> set RESET_TOOLS \<or> tool = ''run_code''
     \<or> tool \<in> set ABSOLUTE_MOVES \<or> commandedTranslation input > of_rat largeM"

subsection \<open>The reviewer's reply\<close>

datatype review = Approve | Reject | Abstain

fun index_where :: "('a \<Rightarrow> bool) \<Rightarrow> 'a list \<Rightarrow> nat option" where
  "index_where P [] = None"
| "index_where P (x # xs) = (if P x then Some 0 else map_option Suc (index_where P xs))"

definition last_index_where :: "('a \<Rightarrow> bool) \<Rightarrow> 'a list \<Rightarrow> nat option" where
  "last_index_where P xs = map_option (\<lambda>i. length xs - 1 - i) (index_where P (rev xs))"

definition to_lower :: "string \<Rightarrow> string" where
  "to_lower s =
     map (\<lambda>c. let n = of_char c :: nat in if (65 \<le> n \<and> n \<le> 90) \<or> (192 \<le> n \<and> n \<le> 222 \<and> n \<noteq> 215)
        then char_of (n + 32) else c) s"

definition review_word :: "string \<Rightarrow> review option" where
  "review_word d =
     (if d = ''approve'' then Some Approve else if d = ''reject'' then Some Reject
      else if d = ''abstain'' then Some Abstain else None)"

text \<open>\<open>String(v ?? "")\<close>.\<close>

fun text_or_empty :: "(json \<Rightarrow> string) \<Rightarrow> json option \<Rightarrow> string" where
  "text_or_empty to_text None = []"
| "text_or_empty to_text (Some JNull) = []"
| "text_or_empty to_text (Some (JStr t)) = t"
| "text_or_empty to_text (Some v) = to_text v"

definition parseReview :: "(string \<Rightarrow> json option) \<Rightarrow> (json \<Rightarrow> string) \<Rightarrow> string \<Rightarrow> (review \<times> string) option" where
  "parseReview json_parse to_text raw =
     (case (index_where (\<lambda>c. c = CHR 123) raw, last_index_where (\<lambda>c. c = CHR 125) raw) of
        (Some a, Some b) \<Rightarrow>
          if b \<le> a then None
          else (case json_parse (take (b + 1 - a) (drop a raw)) of
            Some (JObj j) \<Rightarrow>
              (let d = to_lower (js_trim (text_or_empty to_text (map_of j ''decision'')));
                   r = js_trim (text_or_empty to_text (map_of j ''reason''))
               in case review_word d of
                    None \<Rightarrow> None
                  | Some w \<Rightarrow> Some (w, if r = [] then ''reviewer decision: '' @ d else r))
          | _ \<Rightarrow> None)
      | _ \<Rightarrow> None)"

subsection \<open>Configuration, environment, state\<close>

datatype approval_mode = ModeOff | ModeStandard | ModeHuman | ModeReviewed | ModeOther string

definition mode_named :: "string \<Rightarrow> approval_mode" where
  "mode_named m =
     (if m = ''off'' then ModeOff else if m = ''standard'' then ModeStandard
      else if m = ''human'' then ModeHuman else if m = ''reviewed'' then ModeReviewed else ModeOther m)"

text \<open>The flags as given (\<open>--approval\<close> empty when not given; \<open>--approval-large-move\<close> as the number it
  reads as, if any) and the robot.\<close>

record approval_config =
  ac_flag :: string
  ac_large :: "rat option"
  ac_seconds :: string
  ac_real :: bool
  ac_ui :: bool
  ac_moves :: "string \<Rightarrow> bool"
  ac_observes :: "string \<Rightarrow> bool"
  ac_json_parse :: "string \<Rightarrow> json option"
  ac_to_text :: "json \<Rightarrow> string"

definition approval_mode_of :: "approval_config \<Rightarrow> approval_mode" where
  "approval_mode_of c =
     mode_named (if ac_flag c \<noteq> [] then ac_flag c else if ac_real c then ''human'' else ''off'')"

definition large_move :: "approval_config \<Rightarrow> rat" where
  "large_move c = (case ac_large c of None \<Rightarrow> 1 / 10 | Some q \<Rightarrow> if q = 0 then 1 / 10 else q)"

definition asksOperator :: "approval_config \<Rightarrow> string \<Rightarrow> (string \<times> json) list \<Rightarrow> bool" where
  "asksOperator c tool input \<longleftrightarrow>
     ac_moves c tool \<and>
     (approval_mode_of c = ModeHuman \<or>
      (approval_mode_of c = ModeStandard \<and> highRisk tool input (ac_real c) (large_move c)))"

datatype config_error = UnknownMode string | NeedsUI approval_mode

definition configError :: "approval_config \<Rightarrow> bool \<Rightarrow> config_error option" where
  "configError c hasUI =
     (case approval_mode_of c of
        ModeOther m \<Rightarrow> Some (UnknownMode m)
      | m \<Rightarrow>
          if (m = ModeHuman \<or> m = ModeStandard) \<and> \<not> hasUI \<and> ac_flag c \<noteq> [] then Some (NeedsUI m) else None)"

text \<open>The reviewer call: its reply and cost, a failure, or its timeout; the message of a branch: the
  tool result's tool and images (or another message).\<close>

datatype reviewer_call =
    Replied string rat
  | CallFailed string
  | TimedOut

type_synonym 'i branch = "(string \<times> 'i list) option list"

text \<open>The images of the latest observation or motion result, else of the latest result with any.
  The messages come latest first.\<close>

fun latest_images :: "approval_config \<Rightarrow> 'i branch \<Rightarrow> 'i list \<Rightarrow> 'i list" where
  "latest_images c [] any = any"
| "latest_images c (None # ms) any = latest_images c ms any"
| "latest_images c (Some (tool, images) # ms) any =
     (if images = [] then latest_images c ms any
      else if ac_observes c tool \<or> ac_moves c tool then take 4 images
      else latest_images c ms (if any = [] then take 4 images else any))"

datatype approval_source = ByHuman | ByReviewer

datatype approval_decision = DApprove | DReject | DAbstain | DError

record approval_entry =
  ae_mode :: approval_mode
  ae_tool :: string
  ae_input :: "(string \<times> json) list"
  ae_source :: approval_source
  ae_decision :: approval_decision
  ae_reason :: string
  ae_images :: nat

record approval_state =
  as_requests :: nat
  as_approved :: nat
  as_rejected :: nat
  as_errors :: nat
  as_cost :: rat
  as_code :: "string option"
  as_hooked :: bool
  as_entries :: "approval_entry list"

definition approval_init :: approval_state where
  "approval_init = \<lparr>as_requests = 0, as_approved = 0, as_rejected = 0, as_errors = 0, as_cost = 0,
     as_code = None, as_hooked = False, as_entries = []\<rparr>"

text \<open>What the environment answers to one decision: the dialog, the branch, the robot's own
  observation (none when it has no such tool or it failed) and the reviewer call.\<close>

record 'i answers =
  an_confirm :: bool
  an_branch :: "'i branch"
  an_observe :: "'i list option"
  an_review :: reviewer_call

subsection \<open>A decision\<close>

definition review_decision :: "review \<Rightarrow> approval_decision" where
  "review_decision w = (case w of Approve \<Rightarrow> DApprove | Reject \<Rightarrow> DReject | Abstain \<Rightarrow> DAbstain)"

text \<open>The decision, its reason and its cost.\<close>

definition reviewed :: "approval_config \<Rightarrow> reviewer_call \<Rightarrow> approval_decision \<times> string \<times> rat" where
  "reviewed c call =
     (case call of
        Replied raw cost \<Rightarrow>
          (case parseReview (ac_json_parse c) (ac_to_text c) raw of
             None \<Rightarrow> (DError, ''the reviewer's reply is not a decision: '' @ take 200 (squeeze False raw), cost)
           | Some (w, reason) \<Rightarrow> (review_decision w, reason, cost))
      | CallFailed e \<Rightarrow> (DError, ''the reviewer failed: '' @ e, 0)
      | TimedOut \<Rightarrow> (DError, ''the reviewer timed out after '' @ ac_seconds c @ '' s'', 0))"

definition review_images :: "approval_config \<Rightarrow> 'i answers \<Rightarrow> 'i list" where
  "review_images c a =
     (case latest_images c (an_branch a) [] of
        [] \<Rightarrow> (case an_observe a of None \<Rightarrow> [] | Some is \<Rightarrow> take 4 is)
      | images \<Rightarrow> images)"

text \<open>\<open>None\<close>: the call may run. \<open>Some\<close>: it is blocked, with the decision and the reason.\<close>

definition decide :: "approval_config \<Rightarrow> string \<Rightarrow> (string \<times> json) list \<Rightarrow> 'i answers \<Rightarrow> approval_state
    \<Rightarrow> (approval_decision \<times> string) option \<times> approval_state" where
  "decide c tool input a s =
     (let m = approval_mode_of c in
      if m = ModeOff \<or> \<not> ac_moves c tool then (None, s)
      else if m = ModeStandard \<and> \<not> asksOperator c tool input then (None, s)
      else
        (let by_human = (m = ModeHuman \<or> m = ModeStandard);
             (decision, reason, cost) =
               (if by_human then
                  (if ac_ui c \<and> an_confirm a then (DApprove, ''approved by the operator'', 0)
                   else (DReject, ''the operator declined this motion'', 0))
                else reviewed c (an_review a));
             allowed = (decision = DApprove);
             entry = \<lparr>ae_mode = m, ae_tool = tool, ae_input = input,
               ae_source = (if by_human then ByHuman else ByReviewer), ae_decision = decision,
               ae_reason = reason, ae_images = (if by_human then 0 else length (review_images c a))\<rparr>;
             code = (case map_of input ''code'' of Some (JStr t) \<Rightarrow> Some t | _ \<Rightarrow> None)
         in (if allowed then None else Some (decision, reason),
             s\<lparr>as_requests := as_requests s + 1,
               as_approved := as_approved s + (if allowed then 1 else 0),
               as_rejected := as_rejected s + (if \<not> allowed \<and> decision \<noteq> DError then 1 else 0),
               as_errors := as_errors s + (if decision = DError then 1 else 0),
               as_cost := as_cost s + cost,
               as_code := (if allowed \<and> by_human \<and> tool = ''run_code'' \<and> code \<noteq> None then code else as_code s),
               as_entries := as_entries s @ [entry]\<rparr>)))"

definition consumeApproved :: "string \<Rightarrow> approval_state \<Rightarrow> bool \<times> approval_state" where
  "consumeApproved code s = (as_code s = Some code, s\<lparr>as_code := None\<rparr>)"

text \<open>\<open>session_start\<close> resets the counters, not the approved program, and registers the hook when the
  mode is one of the known ones and not off.\<close>

definition approval_start :: "approval_config \<Rightarrow> approval_state \<Rightarrow> approval_state" where
  "approval_start c s =
     s\<lparr>as_requests := 0, as_approved := 0, as_rejected := 0, as_errors := 0, as_cost := 0,
       as_hooked := as_hooked s \<or> (case approval_mode_of c of ModeOff \<Rightarrow> False | ModeOther _ \<Rightarrow> False | _ \<Rightarrow> True)\<rparr>"

definition approval_call :: "approval_config \<Rightarrow> string \<Rightarrow> (string \<times> json) list \<Rightarrow> 'i answers \<Rightarrow> approval_state
    \<Rightarrow> (approval_decision \<times> string) option \<times> approval_state" where
  "approval_call c tool input a s = (if as_hooked s then decide c tool input a s else (None, s))"

datatype 'i approval_event =
    ACall string "(string \<times> json) list" "'i answers"
  | AConsume string
  | AStart

fun approval_step :: "approval_config \<Rightarrow> 'i approval_event \<Rightarrow> approval_state \<Rightarrow> approval_state" where
  "approval_step c (ACall tool input a) s = snd (approval_call c tool input a s)"
| "approval_step c (AConsume code) s = snd (consumeApproved code s)"
| "approval_step c AStart s = approval_start c s"

definition approval_run :: "approval_config \<Rightarrow> 'i approval_event list \<Rightarrow> approval_state \<Rightarrow> approval_state" where
  "approval_run c es s = fold (approval_step c) es s"

subsection \<open>Properties\<close>

text \<open>What approves a call: the operator's yes in a UI, or a reviewer reply that parses to an approval.\<close>

definition approved_by :: "approval_config \<Rightarrow> 'i answers \<Rightarrow> bool" where
  "approved_by c a \<longleftrightarrow>
     (if approval_mode_of c \<in> {ModeHuman, ModeStandard} then ac_ui c \<and> an_confirm a
      else \<exists>raw cost reason. an_review a = Replied raw cost
        \<and> parseReview (ac_json_parse c) (ac_to_text c) raw = Some (Approve, reason))"

lemma reviewed_approves:
  "fst (reviewed c call) = DApprove \<longleftrightarrow>
     (\<exists>raw cost reason. call = Replied raw cost
        \<and> parseReview (ac_json_parse c) (ac_to_text c) raw = Some (Approve, reason))"
  by (auto simp: reviewed_def review_decision_def split: reviewer_call.splits option.splits review.splits)

lemma decide_passes:
  "fst (decide c tool input a s) = None \<longleftrightarrow>
     approval_mode_of c = ModeOff \<or> \<not> ac_moves c tool
     \<or> (approval_mode_of c = ModeStandard \<and> \<not> highRisk tool input (ac_real c) (large_move c))
     \<or> approved_by c a"
proof (cases "reviewed c (an_review a)")
  case (fields d r q)
  then show ?thesis using reviewed_approves[of c "an_review a"]
    by (auto simp: decide_def approved_by_def asksOperator_def Let_def)
qed

text \<open>
  C23: motion approval is fail closed. In a session started under a known mode that is not off, a motion call
  passes the gate if and only if it was approved: by the operator's explicit yes in a UI under
  \<open>human\<close> and \<open>standard\<close>, by a reviewer reply that parses to an approval under \<open>reviewed\<close>. A missing
  UI, a refusal, an abstention, an unparseable reply, a failure and a timeout all block it. Only
  under \<open>standard\<close>, and never on a real robot, a motion that is not high risk needs none.
\<close>

theorem approval_fail_closed:
  assumes "approval_mode_of c \<in> {ModeStandard, ModeHuman, ModeReviewed}" "ac_moves c tool"
  shows "fst (approval_call c tool input a (approval_run c es (approval_start c s))) = None \<longleftrightarrow>
    approved_by c a \<or>
    (approval_mode_of c = ModeStandard \<and> \<not> ac_real c \<and> \<not> highRisk tool input False (large_move c))"
proof -
  have "as_hooked (approval_run c es t)" if "as_hooked t" for t
    using that
  proof (induction es arbitrary: t)
    case (Cons e es)
    have "as_hooked (approval_step c e t)"
      using Cons.prems
      by (cases e) (auto simp: approval_call_def decide_def consumeApproved_def approval_start_def Let_def
          split: prod.split)
    from Cons.IH[OF this] show ?case by (simp add: approval_run_def)
  qed (simp add: approval_run_def)
  moreover have "as_hooked (approval_start c s)"
    using assms(1) by (auto simp: approval_start_def)
  ultimately have "as_hooked (approval_run c es (approval_start c s))" by blast
  then show ?thesis using decide_passes[of c tool input a] assms
    by (auto simp: approval_call_def highRisk_def)
qed

definition accounted :: "approval_state \<Rightarrow> bool" where
  "accounted s \<longleftrightarrow> as_requests s = as_approved s + as_rejected s + as_errors s \<and> as_requests s \<le> length (as_entries s)"

lemma decide_accounted: "accounted s \<Longrightarrow> accounted (snd (decide c tool input a s))"
  by (cases "reviewed c (an_review a)") (auto simp: decide_def accounted_def Let_def)

lemma step_accounted: "accounted s \<Longrightarrow> accounted (approval_step c e s)"
proof (cases e)
  case (ACall tool input a)
  then show "accounted s \<Longrightarrow> ?thesis" by (simp add: approval_call_def decide_accounted)
qed (simp_all add: consumeApproved_def approval_start_def accounted_def)

text \<open>
  The counters account for every request: after any sequence of calls, consumptions and session
  starts, the requests are the approved, the rejected and the errors together, and each request of
  the session left one entry.
\<close>

theorem approvals_accounted:
  "let s = approval_run c es approval_init in
     as_requests s = as_approved s + as_rejected s + as_errors s \<and> as_requests s \<le> length (as_entries s)"
proof -
  have "accounted s \<Longrightarrow> accounted (approval_run c es s)" for s
    by (induction es arbitrary: s) (simp_all add: approval_run_def step_accounted)
  moreover have "accounted approval_init" by (simp add: accounted_def approval_init_def)
  ultimately have "accounted (approval_run c es approval_init)" by blast
  then show ?thesis by (simp add: accounted_def Let_def)
qed

definition confirmed_program :: "approval_config \<Rightarrow> string \<Rightarrow> 'i approval_event \<Rightarrow> bool" where
  "confirmed_program c code e \<longleftrightarrow>
     (\<exists>input a. e = ACall ''run_code'' input a \<and> map_of input ''code'' = Some (JStr code)
        \<and> ac_ui c \<and> an_confirm a \<and> approval_mode_of c \<in> {ModeHuman, ModeStandard})"

definition is_consume :: "'i approval_event \<Rightarrow> bool" where
  "is_consume e \<longleftrightarrow> (\<exists>code. e = AConsume code)"

lemma step_code:
  assumes "as_code (approval_step c e s) = Some code"
  shows "confirmed_program c code e \<or> (\<not> is_consume e \<and> as_code s = Some code)"
proof (cases e)
  case (ACall tool input a)
  show ?thesis
  proof (cases "reviewed c (an_review a)")
    case (fields d r q)
    with assms ACall show ?thesis
      by (auto simp: approval_call_def decide_def confirmed_program_def is_consume_def Let_def
          split: if_splits option.splits json.splits)
  qed
qed (use assms in \<open>auto simp: consumeApproved_def approval_start_def is_consume_def\<close>)

text \<open>
  An approved program is approved once. Code mode's question for a program is skipped only when a
  call of \<open>run_code\<close> with exactly this program was confirmed by the operator in the UI and no
  program was consumed since; so one confirmation never covers two runs.
\<close>

theorem program_approved_once:
  assumes "fst (consumeApproved code (approval_run c es approval_init))"
  shows "\<exists>before e after. es = before @ e # after \<and> confirmed_program c code e
    \<and> list_all (\<lambda>x. \<not> is_consume x) after"
proof -
  have "as_code (approval_run c es approval_init) = Some code" using assms by (simp add: consumeApproved_def)
  then show ?thesis
  proof (induction es rule: rev_induct)
    case Nil
    then show ?case by (simp add: approval_run_def approval_init_def)
  next
    case (snoc e es)
    from step_code[of c e "approval_run c es approval_init" code] snoc.prems
    consider (here) "confirmed_program c code e"
      | (before) "\<not> is_consume e" "as_code (approval_run c es approval_init) = Some code"
      by (auto simp: approval_run_def)
    then show ?case
    proof cases
      case here
      then show ?thesis by (intro exI[of _ es] exI[of _ e] exI[of _ "[]"]) simp
    next
      case before
      from snoc.IH[OF before(2)] obtain b x a where "es = b @ x # a" "confirmed_program c code x"
        "list_all (\<lambda>x. \<not> is_consume x) a" by blast
      with before(1) show ?thesis by (intro exI[of _ b] exI[of _ x] exI[of _ "a @ [e]"]) simp
    qed
  qed
qed

subsection \<open>A concrete session\<close>

definition real_ur5e :: approval_config where
  "real_ur5e = \<lparr>ac_flag = [], ac_large = None, ac_seconds = ''120'', ac_real = True, ac_ui = True,
     ac_moves = (\<lambda>t. t \<in> {''move_to'', ''run_code''}), ac_observes = (\<lambda>t. t = ''look''),
     ac_json_parse = (\<lambda>_. None), ac_to_text = (\<lambda>_. [])\<rparr>"

definition says :: "bool \<Rightarrow> unit answers" where
  "says yes = \<lparr>an_confirm = yes, an_branch = [], an_observe = None, an_review = TimedOut\<rparr>"

lemma real_ur5e_mode: "approval_mode_of real_ur5e = ModeHuman"
  by (simp add: approval_mode_of_def real_ur5e_def mode_named_def)

theorem approval_fail_closed_witness:
  "fst (approval_call real_ur5e ''move_to'' [] (says False)
      (approval_run real_ur5e [ACall ''move_to'' [] (says True)] (approval_start real_ur5e approval_init))) \<noteq> None"
  using approval_fail_closed[of real_ur5e "''move_to''" "[]" "says False" "[ACall ''move_to'' [] (says True)]" approval_init]
  by (simp add: real_ur5e_mode approved_by_def) (simp add: real_ur5e_def says_def)

definition program :: "(string \<times> json) list" where
  "program = [(''code'', JStr ''home()'')]"

lemma program_remembered:
  "fst (consumeApproved ''home()'' (approval_run real_ur5e [AStart, ACall ''run_code'' program (says True)] approval_init))"
proof -
  have "ac_moves real_ur5e ''run_code''" "ac_ui real_ur5e" by (simp_all add: real_ur5e_def)
  then show ?thesis
    by (simp add: approval_run_def approval_start_def real_ur5e_mode approval_call_def decide_def says_def
        consumeApproved_def program_def approval_init_def Let_def)
qed

theorem program_approved_once_witness:
  "\<exists>before e after. [AStart, ACall ''run_code'' program (says True)] = before @ e # after
    \<and> confirmed_program real_ur5e ''home()'' e \<and> list_all (\<lambda>x. \<not> is_consume x) after"
  by (rule program_approved_once[OF program_remembered])

end
