(* ===== verification/Human_Operator.thy ===== *)
theory Human_Operator
  imports Prelude
begin

text \<open>
  The human-in-the-loop operator, the first half of \<^verbatim>\<open>packages/embodied/src/capabilities/operator.ts\<close>
  (lines 23-309). At most one request to the operator is open. Every \<open>await\<close> is a point where other
  events happen: an open request remembers who asked, and its answer is a later event; so are the
  end of the agent's turn a verdict waits for and the end of the robot's reset. What a caller gets
  is the output of a step. Session entries and notifications are left out.
\<close>

subsection \<open>State\<close>

datatype request_kind = KReset | KVerdict

datatype end_verdict = VSuccess | VFailure | VAbort

text \<open>Who waits for the answer: the verdict tool, the hook on \<open>finish\<close>, or the scene reset. A verdict
  remembers the env step at which it was asked.\<close>

datatype asker = AskVerdict nat | AskFinish nat | AskReset

definition kind_of :: "asker \<Rightarrow> request_kind" where
  "kind_of a = (case a of AskReset \<Rightarrow> KReset | _ \<Rightarrow> KVerdict)"

record judged =
  jd_verdict :: string
  jd_notes :: string
  jd_step :: nat

record operator_state =
  os_pending :: "(nat \<times> asker) option"
  os_sealed :: "end_verdict option"
  os_verdict :: "judged option"
  os_aborted :: bool
  os_ready :: bool
  os_attempt :: nat
  os_step :: nat
  os_next :: nat
  os_closing :: "end_verdict option"
  os_resetting :: nat

record operator_config =
  oc_on :: bool
  oc_ui :: bool
  oc_has_reset :: bool

text \<open>The env step is the robot's: only \<open>OStep\<close> changes it.\<close>

definition operator_start :: "operator_state \<Rightarrow> operator_state" where
  "operator_start s =
     s\<lparr>os_pending := None, os_sealed := None, os_verdict := None, os_aborted := False, os_ready := True,
       os_attempt := 1, os_closing := None\<rparr>"

definition operator_init :: operator_state where
  "operator_init = \<lparr>os_pending = None, os_sealed = None, os_verdict = None, os_aborted = False,
     os_ready = True, os_attempt = 1, os_step = 0, os_next = 0, os_closing = None, os_resetting = 0\<rparr>"

subsection \<open>Outcomes\<close>

datatype operator_error = TerminalVerdict | RequestPending | RequestCancelled

datatype hook_answer =
    Pass
  | BlockSealed
  | BlockAborted
  | BlockSceneNotReady
  | BlockNotJudged

datatype operator_out =
    Threw operator_error
  | JudgeRefused
  | JudgeInvalid string
  | Judged string string nat bool
  | ResetUnavailable
  | ResetAborted
  | ResetUnconfirmed bool
  | ResetStarted
  | ResetFailed
  | ResetDone
  | Hook hook_answer
  | Notified
  | Shutdown
  | Quiet

subsection \<open>Requests\<close>

text \<open>\<open>check()\<close>, no UI (the answer is \<open>null\<close> at once), another request, or an open request.\<close>

datatype asked = AskThrew operator_error | AskNull | AskWaits operator_state

definition ask :: "operator_config \<Rightarrow> asker \<Rightarrow> operator_state \<Rightarrow> asked" where
  "ask c who s =
     (if os_sealed s \<noteq> None then AskThrew TerminalVerdict
      else if \<not> oc_ui c then AskNull
      else if os_pending s \<noteq> None then AskThrew RequestPending
      else AskWaits (s\<lparr>os_pending := Some (os_next s, who), os_next := os_next s + 1\<rparr>))"

text \<open>The first word of an answer and the rest: \<open>/^(\S*)\s*([\s\S]*)$/\<close> on the trimmed answer.\<close>

definition first_word :: "string \<Rightarrow> string" where
  "first_word t = takeWhile (\<lambda>c. \<not> js_space c) (js_trim t)"

definition rest_words :: "string \<Rightarrow> string" where
  "rest_words t = dropWhile js_space (dropWhile (\<lambda>c. \<not> js_space c) (js_trim t))"

definition lower_ascii :: "string \<Rightarrow> string" where
  "lower_ascii s = map (\<lambda>c. let n = of_char c :: nat in if 65 \<le> n \<and> n \<le> 90 then char_of (n + 32) else c) s"

definition verdict_word :: "string option \<Rightarrow> string" where
  "verdict_word response =
     (case response of
        None \<Rightarrow> ''unavailable''
      | Some t \<Rightarrow> if first_word t = [] then ''unavailable'' else lower_ascii (first_word t))"

definition verdict_notes :: "string option \<Rightarrow> string" where
  "verdict_notes response = (case response of None \<Rightarrow> [] | Some t \<Rightarrow> rest_words t)"

text \<open>\<open>judge\<close> up to its question, and after the answer.\<close>

definition judge_opens :: "operator_state \<Rightarrow> bool" where
  "judge_opens s \<longleftrightarrow> \<not> os_aborted s \<and> os_ready s"

definition judge_answer :: "nat \<Rightarrow> string option \<Rightarrow> operator_state \<Rightarrow> operator_out \<times> operator_state" where
  "judge_answer step response s =
     (let v = verdict_word response; notes = verdict_notes response in
      if v = ''abort'' \<or> response = None then
        (Judged v notes step True, s\<lparr>os_aborted := True, os_ready := False\<rparr>)
      else if v = ''success'' \<or> v = ''failure'' then
        (Judged v notes step (os_aborted s),
         s\<lparr>os_verdict := Some \<lparr>jd_verdict = v, jd_notes = notes, jd_step = step\<rparr>\<rparr>)
      else if v \<noteq> ''continue'' then (JudgeInvalid v, s)
      else (Judged v notes step (os_aborted s), s))"

text \<open>Why a tool may not run now.\<close>

definition operator_refuse :: "operator_config \<Rightarrow> string \<Rightarrow> operator_state \<Rightarrow> hook_answer" where
  "operator_refuse c name s =
     (if \<not> oc_on c then Pass
      else if os_sealed s \<noteq> None then BlockSealed
      else if name = ''finish'' then Pass
      else if os_aborted s then BlockAborted
      else if \<not> os_ready s \<and> name \<noteq> ''request_scene_reset'' \<and> name \<noteq> ''reset'' then BlockSceneNotReady
      else Pass)"

text \<open>The operator judged the current env step.\<close>

definition judged_now :: "operator_state \<Rightarrow> bool" where
  "judged_now s \<longleftrightarrow> (case os_verdict s of None \<Rightarrow> False | Some j \<Rightarrow> jd_step j = os_step s)"

text \<open>The hook on \<open>finish\<close> after its question (\<open>judge\<close> has no answer that lets it pass by itself).\<close>

definition finish_judged :: "operator_config \<Rightarrow> operator_state \<Rightarrow> operator_out \<times> operator_state" where
  "finish_judged c s =
     (if \<not> os_aborted s \<and> \<not> judged_now s then (Hook BlockNotJudged, s)
      else (Hook (operator_refuse c ''finish'' s), s))"

definition verdict_tool :: "operator_config \<Rightarrow> operator_state \<Rightarrow> operator_out \<times> operator_state" where
  "verdict_tool c s0 =
     (let s = s0\<lparr>os_verdict := None\<rparr> in
      if \<not> judge_opens s then (JudgeRefused, s)
      else case ask c (AskVerdict (os_step s)) s of
        AskThrew e \<Rightarrow> (Threw e, s)
      | AskNull \<Rightarrow> judge_answer (os_step s) None s
      | AskWaits s' \<Rightarrow> (Quiet, s'))"

definition tool_call :: "operator_config \<Rightarrow> string \<Rightarrow> operator_state \<Rightarrow> operator_out \<times> operator_state" where
  "tool_call c name s0 =
     (if \<not> oc_on c then (Hook Pass, s0)
      else if os_sealed s0 \<noteq> None then (Hook BlockSealed, s0)
      else if name = ''finish'' \<and> \<not> os_aborted s0 \<and> \<not> judged_now s0 then
        (let s = s0\<lparr>os_verdict := None\<rparr> in
         if \<not> judge_opens s then finish_judged c s
         else case ask c (AskFinish (os_step s)) s of
           AskThrew e \<Rightarrow> (Threw e, s)
         | AskNull \<Rightarrow> finish_judged c (snd (judge_answer (os_step s) None s))
         | AskWaits s' \<Rightarrow> (Quiet, s'))
      else (Hook (operator_refuse c name s0), s0))"

subsection \<open>The scene reset\<close>

definition reset_answer :: "string option \<Rightarrow> operator_state \<Rightarrow> operator_out \<times> operator_state" where
  "reset_answer response s =
     (let word = (case response of None \<Rightarrow> None | Some t \<Rightarrow> Some (lower_ascii (js_trim t))) in
      if word \<noteq> Some ''done'' then
        (let ab = (response = None \<or> word = Some ''abort'')
         in (ResetUnconfirmed ab, s\<lparr>os_aborted := ab\<rparr>))
      else (ResetStarted, s\<lparr>os_resetting := os_resetting s + 1\<rparr>))"

definition scene_reset :: "operator_config \<Rightarrow> operator_state \<Rightarrow> operator_out \<times> operator_state" where
  "scene_reset c s0 =
     (if \<not> oc_has_reset c then (ResetUnavailable, s0)
      else if os_aborted s0 then (ResetAborted, s0)
      else
        (let s = s0\<lparr>os_verdict := None, os_ready := False\<rparr> in
         case ask c AskReset s of
           AskThrew e \<Rightarrow> (Threw e, s)
         | AskNull \<Rightarrow> reset_answer None s
         | AskWaits s' \<Rightarrow> (Quiet, s')))"

definition reset_ends :: "bool \<Rightarrow> operator_state \<Rightarrow> operator_out \<times> operator_state" where
  "reset_ends ok s =
     (if os_resetting s = 0 then (Quiet, s)
      else if ok then (ResetDone, s\<lparr>os_attempt := os_attempt s + 1, os_ready := True, os_resetting := os_resetting s - 1\<rparr>)
      else (ResetFailed, s\<lparr>os_resetting := os_resetting s - 1\<rparr>))"

subsection \<open>Answers and verdict commands\<close>

text \<open>The open request gets an answer: \<open>ask\<close> checks for a terminal verdict, then its caller goes on.\<close>

definition resolve_pending :: "operator_config \<Rightarrow> string option \<Rightarrow> operator_state \<Rightarrow> operator_out \<times> operator_state" where
  "resolve_pending c response s0 =
     (case os_pending s0 of
        None \<Rightarrow> (Quiet, s0)
      | Some (_, who) \<Rightarrow>
          (let s = s0\<lparr>os_pending := None\<rparr> in
           if os_sealed s \<noteq> None then (Threw TerminalVerdict, s)
           else case who of
             AskVerdict step \<Rightarrow> judge_answer step response s
           | AskFinish step \<Rightarrow> finish_judged c (snd (judge_answer step response s))
           | AskReset \<Rightarrow> reset_answer response s))"

definition cancel_pending :: "operator_state \<Rightarrow> operator_out \<times> operator_state" where
  "cancel_pending s =
     (case os_pending s of None \<Rightarrow> (Quiet, s) | Some _ \<Rightarrow> (Threw RequestCancelled, s\<lparr>os_pending := None\<rparr>))"

definition seal :: "operator_config \<Rightarrow> end_verdict \<Rightarrow> operator_state \<Rightarrow> operator_out \<times> operator_state" where
  "seal c v s =
     (if \<not> oc_on c then (Notified, s)
      else if os_sealed s \<noteq> None \<or> (v = VSuccess \<and> (os_aborted s \<or> \<not> os_ready s)) then (Notified, s)
      else resolve_pending c None (s\<lparr>os_sealed := Some v, os_closing := Some v\<rparr>))"

text \<open>After the agent became idle the run is closed with the verdict.\<close>

definition verdict_text :: "end_verdict \<Rightarrow> string" where
  "verdict_text v = (case v of VSuccess \<Rightarrow> ''success'' | VFailure \<Rightarrow> ''failure'' | VAbort \<Rightarrow> ''abort'')"

definition close_run :: "operator_state \<Rightarrow> operator_out \<times> operator_state" where
  "close_run s =
     (case os_closing s of
        None \<Rightarrow> (Quiet, s)
      | Some v \<Rightarrow>
          (Shutdown,
           (if v = VAbort then s\<lparr>os_aborted := True, os_ready := False, os_closing := None\<rparr>
            else s\<lparr>os_verdict := Some \<lparr>jd_verdict = verdict_text v,
                     jd_notes = ''Operator entered /'' @ verdict_text v @ '' in the interactive terminal.'',
                     jd_step = os_step s\<rparr>, os_closing := None\<rparr>)))"

record operator_result =
  or_verdict :: "string option"
  or_notes :: string
  or_aborted :: bool
  or_finished :: bool

definition operator_result_of :: "operator_state \<Rightarrow> operator_result" where
  "operator_result_of s =
     \<lparr>or_verdict = (case os_sealed s of Some v \<Rightarrow> Some (verdict_text v) | None \<Rightarrow> map_option jd_verdict (os_verdict s)),
      or_notes = (case os_verdict s of None \<Rightarrow> [] | Some j \<Rightarrow> jd_notes j),
      or_aborted = (os_aborted s \<or> os_sealed s = Some VAbort),
      or_finished = (os_sealed s \<noteq> None)\<rparr>"

subsection \<open>Steps\<close>

text \<open>The dialog's choice and a matching \<open>/operator\<close> command are answers of the open request; the
  commands \<open>/done\<close> and \<open>/continue\<close> answer only a request of their kind.\<close>

datatype operator_event =
    OStart
  | OStep nat
  | OVerdictTool
  | OResetTool
  | OTool string
  | OAnswer string
  | OCommand request_kind
  | OOperator nat string
  | OCancel
  | OSeal end_verdict
  | OIdle
  | OResetEnds bool
  | OShutdown

definition command_word :: "request_kind \<Rightarrow> string" where
  "command_word k = (case k of KReset \<Rightarrow> ''done'' | KVerdict \<Rightarrow> ''continue'')"

definition operator_step :: "operator_config \<Rightarrow> operator_event \<Rightarrow> operator_state \<Rightarrow> operator_out \<times> operator_state" where
  "operator_step c e s =
     (case e of
        OStart \<Rightarrow> (Quiet, operator_start s)
      | OStep n \<Rightarrow> (Quiet, s\<lparr>os_step := n\<rparr>)
      | OVerdictTool \<Rightarrow> verdict_tool c s
      | OResetTool \<Rightarrow> scene_reset c s
      | OTool name \<Rightarrow> tool_call c name s
      | OAnswer t \<Rightarrow> resolve_pending c (Some t) s
      | OCommand k \<Rightarrow>
          (case os_pending s of
             Some (_, who) \<Rightarrow>
               if kind_of who = k then resolve_pending c (Some (command_word k)) s else (Notified, s)
           | None \<Rightarrow> (Notified, s))
      | OOperator i t \<Rightarrow>
          (case os_pending s of
             Some (j, _) \<Rightarrow> if i = j then resolve_pending c (Some (js_trim t)) s else (Notified, s)
           | None \<Rightarrow> (Notified, s))
      | OCancel \<Rightarrow> cancel_pending s
      | OSeal v \<Rightarrow> seal c v s
      | OIdle \<Rightarrow> close_run s
      | OResetEnds ok \<Rightarrow> reset_ends ok s
      | OShutdown \<Rightarrow> resolve_pending c None s)"

fun operator_run :: "operator_config \<Rightarrow> operator_event list \<Rightarrow> operator_state \<Rightarrow> operator_out list \<times> operator_state" where
  "operator_run c [] s = ([], s)"
| "operator_run c (e # es) s =
     (let (out, s1) = operator_step c e s; (outs, s2) = operator_run c es s1 in (out # outs, s2))"

subsection \<open>Invariants\<close>

text \<open>While a request is open nothing ended the episode; a run that closes is sealed.\<close>

definition operator_ok :: "operator_config \<Rightarrow> operator_state \<Rightarrow> bool" where
  "operator_ok c s \<longleftrightarrow> (os_pending s \<noteq> None \<longrightarrow> oc_ui c \<and> \<not> os_aborted s \<and> os_sealed s = None)
     \<and> (os_closing s \<noteq> None \<longrightarrow> os_sealed s \<noteq> None)"

lemmas operator_defs = verdict_tool_def tool_call_def scene_reset_def ask_def judge_answer_def judge_opens_def
  finish_judged_def reset_answer_def reset_ends_def Let_def

lemma resolve_ok: "operator_ok c s \<Longrightarrow> operator_ok c (snd (resolve_pending c r s))"
  by (auto simp: operator_ok_def resolve_pending_def operator_defs split: option.split asker.split)

lemma verdict_tool_ok: "operator_ok c s \<Longrightarrow> operator_ok c (snd (verdict_tool c s))"
  by (auto simp: operator_ok_def operator_defs split: option.split)

lemma tool_call_ok: "operator_ok c s \<Longrightarrow> operator_ok c (snd (tool_call c name s))"
  by (auto simp: operator_ok_def operator_defs split: option.split)

lemma scene_reset_ok: "operator_ok c s \<Longrightarrow> operator_ok c (snd (scene_reset c s))"
  by (auto simp: operator_ok_def operator_defs split: option.split)

lemma seal_ok: "operator_ok c s \<Longrightarrow> operator_ok c (snd (seal c v s))"
  by (auto simp: operator_ok_def seal_def resolve_pending_def split: option.split)

lemma step_operator_ok: "operator_ok c s \<Longrightarrow> operator_ok c (snd (operator_step c e s))"
  by (cases e)
    (auto simp: operator_step_def resolve_ok verdict_tool_ok tool_call_ok scene_reset_ok seal_ok
      split: option.split intro: resolve_ok,
     auto simp: operator_ok_def operator_start_def cancel_pending_def close_run_def reset_ends_def
       split: option.split)

lemma run_operator_ok: "operator_ok c s \<Longrightarrow> operator_ok c (snd (operator_run c es s))"
  by (induction es arbitrary: s) (auto simp: case_prod_unfold Let_def step_operator_ok)

lemma init_operator_ok: "operator_ok c operator_init"
  by (simp add: operator_ok_def operator_init_def)

text \<open>What ended the episode stays until the next session start.\<close>

lemma resolve_keeps:
  assumes "operator_ok c s"
  shows "os_aborted s \<longrightarrow> os_aborted (snd (resolve_pending c r s))"
    and "os_sealed (snd (resolve_pending c r s)) = os_sealed s"
  using assms
  by (auto simp: operator_ok_def resolve_pending_def operator_defs split: option.split asker.split)

lemma step_keeps:
  assumes "operator_ok c s" "e \<noteq> OStart"
  shows "(os_aborted s \<longrightarrow> os_aborted (snd (operator_step c e s)))
    \<and> (os_sealed s \<noteq> None \<longrightarrow> os_sealed (snd (operator_step c e s)) = os_sealed s)"
proof (cases e)
  case (OSeal v)
  show ?thesis using assms OSeal
    by (auto simp: operator_step_def seal_def resolve_pending_def operator_ok_def split: option.split)
next
  case OResetTool
  then show ?thesis by (auto simp: operator_step_def operator_defs split: option.split)
next
  case (OTool name)
  then show ?thesis by (auto simp: operator_step_def operator_defs split: option.split)
next
  case OVerdictTool
  then show ?thesis by (auto simp: operator_step_def operator_defs split: option.split)
qed (use assms resolve_keeps[OF assms(1)] in
    \<open>auto simp: operator_step_def cancel_pending_def close_run_def reset_ends_def split: option.split\<close>)

text \<open>Which hook answers are possible.\<close>

definition finish_hook :: "operator_event \<Rightarrow> bool" where
  "finish_hook e \<longleftrightarrow> (\<forall>name. e = OTool name \<longrightarrow> name = ''finish'')"

lemma resolve_pass:
  assumes "resolve_pending c r s = (Hook Pass, s')"
  shows "os_sealed s' = None \<and> (os_aborted s' \<or> judged_now s')"
proof -
  obtain i who where p: "os_pending s = Some (i, who)" "os_sealed s = None"
    using assms by (auto simp: resolve_pending_def Let_def split: option.splits if_splits)
  then obtain step where "who = AskFinish step"
    using assms by (cases who) (auto simp: resolve_pending_def operator_defs split: if_splits option.splits)
  with p assms show ?thesis
    by (auto simp: resolve_pending_def finish_judged_def judge_answer_def operator_refuse_def Let_def
        split: if_splits)
qed

lemma tool_pass:
  assumes "tool_call c name s = (Hook Pass, s')" "oc_on c"
  shows "os_sealed s' = None \<and> (name = ''finish'' \<longrightarrow> os_aborted s' \<or> judged_now s')
    \<and> (name \<noteq> ''finish'' \<longrightarrow> s' = s \<and> \<not> os_aborted s \<and> (os_ready s \<or> name \<in> {''request_scene_reset'', ''reset''}))"
  using assms
  by (auto simp: tool_call_def finish_judged_def judge_answer_def operator_refuse_def judge_opens_def ask_def Let_def
      split: if_splits option.splits asked.splits)

lemma step_pass:
  assumes "operator_step c e s = (Hook Pass, s')" "oc_on c"
  shows "os_sealed s' = None \<and> (finish_hook e \<longrightarrow> os_aborted s' \<or> judged_now s')
    \<and> (\<forall>name. e = OTool name \<and> name \<noteq> ''finish'' \<longrightarrow>
          s' = s \<and> \<not> os_aborted s \<and> (os_ready s \<or> name \<in> {''request_scene_reset'', ''reset''}))"
proof (cases "\<exists>name. e = OTool name")
  case True
  then obtain name where e: "e = OTool name" by blast
  with assms have "tool_call c name s = (Hook Pass, s')" by (simp add: operator_step_def)
  from tool_pass[OF this assms(2)] e show ?thesis unfolding finish_hook_def by simp
next
  case False
  then have "\<exists>r s0. resolve_pending c r s0 = (Hook Pass, s')"
    using assms
    by (cases e; auto simp: operator_step_def verdict_tool_def scene_reset_def ask_def judge_answer_def
        reset_answer_def cancel_pending_def seal_def close_run_def reset_ends_def Let_def
        split: option.splits if_splits; blast)
  with resolve_pass False show ?thesis by blast
qed

subsection \<open>Properties\<close>

text \<open>
  C24: with the operator on, a tool call passes the hook only as it may. \<open>finish\<close> passes only when the
  operator judged the current env step, or aborted; every other tool only when nothing ended the
  episode and the scene is confirmed (a scene reset excepted). No call passes once a terminal
  verdict is submitted. This covers the calls that first wait for the operator's answer.
\<close>

theorem operator_gates_tools:
  assumes "operator_step c e s = (Hook Pass, s')" "oc_on c"
  shows "os_sealed s' = None
    \<and> (if finish_hook e then os_aborted s' \<or> judged_now s'
       else \<exists>name. e = OTool name \<and> \<not> os_aborted s'
         \<and> (os_ready s' \<or> name = ''request_scene_reset'' \<or> name = ''reset''))"
  using step_pass[OF assms] by (auto simp: finish_hook_def)

lemma run_ended:
  assumes "operator_ok c s" "OStart \<notin> set es" "oc_on c" "os_aborted s \<or> os_sealed s \<noteq> None"
    and "(e, Hook Pass) \<in> set (zip es (fst (operator_run c es s)))"
  shows "finish_hook e \<and> os_sealed s = None"
  using assms
proof (induction es arbitrary: s)
  case (Cons e' es)
  obtain out s1 where 1: "operator_step c e' s = (out, s1)" by fastforce
  have k: "os_aborted s \<longrightarrow> os_aborted s1" "os_sealed s \<noteq> None \<longrightarrow> os_sealed s1 = os_sealed s"
    using step_keeps[OF Cons.prems(1), of e'] Cons.prems(2) 1 by auto
  have ok: "operator_ok c s1" using step_operator_ok[OF Cons.prems(1), of e'] 1 by simp
  have ended: "os_aborted s1 \<or> os_sealed s1 \<noteq> None" using k Cons.prems(4) by metis
  consider (here) "e = e'" "out = Hook Pass" | (later) "(e, Hook Pass) \<in> set (zip es (fst (operator_run c es s1)))"
    using Cons.prems(5) 1 by (auto simp: case_prod_unfold Let_def)
  then show ?case
  proof cases
    case here
    then have p: "os_sealed s1 = None" "\<forall>name. e = OTool name \<and> name \<noteq> ''finish'' \<longrightarrow> \<not> os_aborted s"
      using step_pass[of c e' s s1] 1 Cons.prems(3) by auto
    then have "os_sealed s = None" using k(2) by metis
    with p Cons.prems(4) show ?thesis unfolding finish_hook_def by blast
  next
    case later
    have "finish_hook e \<and> os_sealed s1 = None"
      by (rule Cons.IH[OF ok _ Cons.prems(3) ended later]) (use Cons.prems(2) in simp)
    then show ?thesis using k(2) by metis
  qed
qed simp

text \<open>
  C28: an ended episode stays ended. In any reachable state that the operator aborted or sealed, no tool call
  other than \<open>finish\<close> passes the hook any more until a session start, and none at all once a
  terminal verdict was submitted, whatever answers, commands, resets and steps follow.
\<close>

theorem operator_end_is_final:
  assumes "s = snd (operator_run c es0 operator_init)" "os_aborted s \<or> os_sealed s \<noteq> None"
    and "OStart \<notin> set es" "oc_on c"
  shows "\<forall>(e, out) \<in> set (zip es (fst (operator_run c es s))).
    out = Hook Pass \<longrightarrow> finish_hook e \<and> os_sealed s = None"
proof -
  have "operator_ok c s" using run_operator_ok[OF init_operator_ok] assms(1) by simp
  then show ?thesis using run_ended[OF _ assms(3,4,2)] by blast
qed

definition op_cfg :: operator_config where
  "op_cfg = \<lparr>oc_on = True, oc_ui = True, oc_has_reset = True\<rparr>"

definition judged_state :: operator_state where
  "judged_state = operator_init\<lparr>os_pending := Some (0, AskFinish 0), os_next := 1\<rparr>"

lemma finish_after_success:
  "operator_step op_cfg (OAnswer ''success'') judged_state
     = (Hook Pass, operator_init\<lparr>os_next := 1, os_verdict := Some \<lparr>jd_verdict = ''success'', jd_notes = [], jd_step = 0\<rparr>\<rparr>)"
proof -
  have v: "verdict_word (Some ''success'') = ''success''" "verdict_notes (Some ''success'') = []"
    by code_simp+
  show ?thesis
    by (simp add: operator_step_def resolve_pending_def judged_state_def judge_answer_def v finish_judged_def
        judged_now_def operator_refuse_def operator_init_def op_cfg_def Let_def)
qed

theorem operator_gates_tools_witness:
  "judged_now (operator_init\<lparr>os_next := 1, os_verdict := Some \<lparr>jd_verdict = ''success'', jd_notes = [], jd_step = 0\<rparr>\<rparr>)"
  using operator_gates_tools[OF finish_after_success] by (simp add: finish_hook_def op_cfg_def operator_init_def)

lemma sealed_failure: "os_sealed (snd (operator_run op_cfg [OSeal VFailure] operator_init)) = Some VFailure"
  by (simp add: op_cfg_def operator_step_def seal_def resolve_pending_def operator_init_def)

theorem operator_end_is_final_witness:
  "list_all (\<lambda>(e, out). out \<noteq> Hook Pass) (zip [OTool ''move_to'', OIdle, OTool ''finish'']
      (fst (operator_run op_cfg [OTool ''move_to'', OIdle, OTool ''finish'']
        (snd (operator_run op_cfg [OSeal VFailure] operator_init)))))"
proof -
  have "oc_on op_cfg" by (simp add: op_cfg_def)
  with operator_end_is_final[OF refl, of op_cfg "[OSeal VFailure]" "[OTool ''move_to'', OIdle, OTool ''finish'']"]
  show ?thesis using sealed_failure by (simp add: list_all_iff del: operator_run.simps)
qed

end
