(* ===== verification/Delta_Ops.thy ===== *)
theory Delta_Ops
  imports Prelude
begin

text \<open>
  Operations over plain JSON, \<^verbatim>\<open>packages/chord/src/delta/index.ts\<close> (lines 14-406): the decoded
  operations, their validation as untrusted input, and the applier. A thrown error is \<open>Inl\<close> with a
  constructor per error class (and the message of a type error). The source applies in place to a
  value the caller owns; here the new value is returned, which is the same for a value whose parts
  are not shared, the ownership rule the source states.
\<close>

subsection \<open>Operations and errors\<close>

datatype seg = SKey string | SIdx nat

type_synonym path = "seg list"

datatype op =
    OReplace json
  | OSet path json
  | ODelete path
  | OAppend path string
  | OTruncate path nat
  | OSplice path nat nat "json list"
  | OPermute path "nat list"

datatype delta_error =
    TypeError string
  | UnknownVerb json
  | UnsafePathError json
  | PathError path
  | PathIdError nat

fun isReplace :: "op \<Rightarrow> bool" where
  "isReplace (OReplace _) = True"
| "isReplace _ = False"

definition isBase :: "op list \<Rightarrow> bool" where
  "isBase ops \<longleftrightarrow> ops \<noteq> [] \<and> isReplace (hd ops)"

subsection \<open>Validation\<close>

definition RESERVED_SEGMENTS :: "string list" where
  "RESERVED_SEGMENTS = [''__proto__'', ''constructor'', ''prototype'']"

text \<open>\<open>Number.isInteger(n) && n >= 0\<close>.\<close>

fun nat_of :: "json \<Rightarrow> nat option" where
  "nat_of (JNum q) = (if js_is_integer q \<and> 0 \<le> q then Some (nat \<lfloor>q\<rfloor>) else None)"
| "nat_of _ = None"

fun safe_seg :: "json \<Rightarrow> delta_error + seg" where
  "safe_seg (JStr k) =
     (if k \<in> set RESERVED_SEGMENTS then Inl (UnsafePathError (JStr k)) else Inr (SKey k))"
| "safe_seg v = (case nat_of v of None \<Rightarrow> Inl (UnsafePathError v) | Some i \<Rightarrow> Inr (SIdx i))"

fun assertSafePath :: "json list \<Rightarrow> delta_error + path" where
  "assertSafePath [] = Inr []"
| "assertSafePath (s # ss) =
     and_then (safe_seg s) (\<lambda>k. and_then (assertSafePath ss) (\<lambda>ks. Inr (k # ks)))"

fun assertPathArg :: "bool \<Rightarrow> json \<Rightarrow> delta_error + path" where
  "assertPathArg nonEmpty (JArr p) =
     (if nonEmpty \<and> p = [] then Inl (TypeError ''path is empty'') else assertSafePath p)"
| "assertPathArg nonEmpty _ = Inl (TypeError ''path is not an array'')"

text \<open>The elements in order: each an integer index of the array that was not seen before.\<close>

fun bijection_from :: "nat \<Rightarrow> nat list \<Rightarrow> json list \<Rightarrow> nat list option" where
  "bijection_from n seen [] = Some []"
| "bijection_from n seen (v # vs) =
     (case nat_of v of
        None \<Rightarrow> None
      | Some i \<Rightarrow>
          if i \<ge> n \<or> i \<in> set seen then None
          else map_option ((#) i) (bijection_from n (i # seen) vs))"

fun assertPermutation :: "json \<Rightarrow> delta_error + nat list" where
  "assertPermutation (JArr vs) =
     (case bijection_from (length vs) [] vs of
        None \<Rightarrow> Inl (TypeError ''m permutation is not a bijection'')
      | Some p \<Rightarrow> Inr p)"
| "assertPermutation _ = Inl (TypeError ''m permutation is not an array'')"

text \<open>Verb, arity and payload shape of a decoded operation, per verb; the result is the operation.\<close>

fun valid_r :: "json list \<Rightarrow> delta_error + op" where
  "valid_r [v] = Inr (OReplace v)"
| "valid_r _ = Inl (TypeError ''r arity'')"

fun valid_s :: "json list \<Rightarrow> delta_error + op" where
  "valid_s [p, v] = and_then (assertPathArg True p) (\<lambda>path. Inr (OSet path v))"
| "valid_s _ = Inl (TypeError ''s arity'')"

fun valid_d :: "json list \<Rightarrow> delta_error + op" where
  "valid_d [p] = and_then (assertPathArg True p) (\<lambda>path. Inr (ODelete path))"
| "valid_d _ = Inl (TypeError ''d arity'')"

fun valid_a :: "json list \<Rightarrow> delta_error + op" where
  "valid_a [p, JStr t] = and_then (assertPathArg True p) (\<lambda>path. Inr (OAppend path t))"
| "valid_a _ = Inl (TypeError ''a shape'')"

fun valid_t :: "json list \<Rightarrow> delta_error + op" where
  "valid_t [p, c] =
     (case nat_of c of
        None \<Rightarrow> Inl (TypeError ''t shape'')
      | Some n \<Rightarrow> and_then (assertPathArg True p) (\<lambda>path. Inr (OTruncate path n)))"
| "valid_t _ = Inl (TypeError ''t shape'')"

fun items_of :: "json \<Rightarrow> delta_error + json list" where
  "items_of (JArr xs) = Inr xs"
| "items_of _ = Inl (TypeError ''p items'')"

definition count_of :: "string \<Rightarrow> json \<Rightarrow> delta_error + nat" where
  "count_of message v = (case nat_of v of None \<Rightarrow> Inl (TypeError message) | Some n \<Rightarrow> Inr n)"

fun valid_p :: "json list \<Rightarrow> delta_error + op" where
  "valid_p [p, i, r, items] =
     and_then (assertPathArg False p) (\<lambda>path.
       and_then (count_of ''p index'' i) (\<lambda>index.
         and_then (count_of ''p remove'' r) (\<lambda>remove.
           and_then (items_of items) (\<lambda>xs. Inr (OSplice path index remove xs)))))"
| "valid_p _ = Inl (TypeError ''p arity'')"

fun valid_m :: "json list \<Rightarrow> delta_error + op" where
  "valid_m [p, order] =
     and_then (assertPathArg False p) (\<lambda>path.
       and_then (assertPermutation order) (\<lambda>perm. Inr (OPermute path perm)))"
| "valid_m _ = Inl (TypeError ''m arity'')"

definition valid_args :: "json \<Rightarrow> json list \<Rightarrow> delta_error + op" where
  "valid_args verb args =
     (if verb = JStr ''r'' then valid_r args
      else if verb = JStr ''s'' then valid_s args
      else if verb = JStr ''d'' then valid_d args
      else if verb = JStr ''a'' then valid_a args
      else if verb = JStr ''t'' then valid_t args
      else if verb = JStr ''p'' then valid_p args
      else if verb = JStr ''m'' then valid_m args
      else Inl (UnknownVerb verb))"

fun assertValidOp :: "json \<Rightarrow> delta_error + op" where
  "assertValidOp (JArr (verb # args)) = valid_args verb args"
| "assertValidOp _ = Inl (TypeError ''op is not a tuple'')"

subsection \<open>The applier\<close>

fun prop_key :: "seg \<Rightarrow> string" where
  "prop_key (SKey k) = k"
| "prop_key (SIdx i) = nat_text i"

text \<open>
  \<open>resolve(root, path)\<close> and an edit of the container found there. \<open>whole\<close> is the path the errors
  name. Own properties only.
\<close>

fun at_path :: "path \<Rightarrow> (json \<Rightarrow> delta_error + json) \<Rightarrow> path \<Rightarrow> json \<Rightarrow> delta_error + json" where
  "at_path whole f [] node = f node"
| "at_path whole f (seg # segs) node =
     (case node of
        JArr xs \<Rightarrow>
          (case seg of
             SKey k \<Rightarrow> Inl (UnsafePathError (JStr k))
           | SIdx i \<Rightarrow>
               if i < length xs
               then and_then (at_path whole f segs (xs ! i)) (\<lambda>v. Inr (JArr (xs[i := v])))
               else Inl (PathError whole))
      | JObj al \<Rightarrow>
          (case map_of al (prop_key seg) of
             None \<Rightarrow> Inl (PathError whole)
           | Some v \<Rightarrow>
               and_then (at_path whole f segs v) (\<lambda>w. Inr (JObj (set_prop (prop_key seg) w al))))
      | _ \<Rightarrow> Inl (PathError whole))"

text \<open>\<open>Array.prototype.splice\<close> clamps the start and the count. The items are inserted in chunks.\<close>

definition js_splice :: "nat \<Rightarrow> nat \<Rightarrow> 'a list \<Rightarrow> 'a list \<Rightarrow> 'a list" where
  "js_splice start remove items xs = take start xs @ items @ drop (start + remove) xs"

definition chunk_size :: nat where
  "chunk_size = 10000"

function insert_chunks :: "nat \<Rightarrow> nat \<Rightarrow> 'a list \<Rightarrow> 'a list \<Rightarrow> 'a list" where
  "insert_chunks start offset items xs =
     (if offset < length items
      then insert_chunks start (offset + chunk_size) items
             (js_splice (start + offset) 0 (take chunk_size (drop offset items)) xs)
      else xs)"
  by pat_completeness auto
termination
  by (relation "measure (\<lambda>(_, offset, items, _). length items - offset)") (auto simp: chunk_size_def)

declare insert_chunks.simps [simp del]

fun splice_node :: "path \<Rightarrow> nat \<Rightarrow> nat \<Rightarrow> json list \<Rightarrow> json \<Rightarrow> delta_error + json" where
  "splice_node path index remove items (JArr xs) =
     Inr (JArr (insert_chunks index 0 items (js_splice index remove [] xs)))"
| "splice_node path index remove items _ = Inl (PathError path)"

fun permute_node :: "path \<Rightarrow> nat list \<Rightarrow> json \<Rightarrow> delta_error + json" where
  "permute_node path perm (JArr xs) =
     (if length xs \<noteq> length perm then Inl (PathError path)
      else Inr (JArr (map (\<lambda>i. xs ! i) perm)))"
| "permute_node path perm _ = Inl (PathError path)"

text \<open>The checks on an array parent: a numeric key, at most one past the end.\<close>

fun check_child :: "seg \<Rightarrow> json \<Rightarrow> delta_error option" where
  "check_child (SKey k) (JArr xs) = Some (UnsafePathError (JStr k))"
| "check_child (SIdx i) (JArr xs) =
     (if i > length xs then Some (UnsafePathError (JNum (of_nat i))) else None)"
| "check_child _ _ = None"

fun read_own :: "seg \<Rightarrow> json \<Rightarrow> json option" where
  "read_own (SIdx i) (JArr xs) = (if i < length xs then Some (xs ! i) else None)"
| "read_own seg (JObj al) = map_of al (prop_key seg)"
| "read_own _ _ = None"

fun write_own :: "seg \<Rightarrow> json \<Rightarrow> json \<Rightarrow> json" where
  "write_own (SIdx i) v (JArr xs) = JArr (if i < length xs then xs[i := v] else xs @ [v])"
| "write_own seg v (JObj al) = JObj (set_prop (prop_key seg) v al)"
| "write_own _ _ node = node"

fun delete_own :: "path \<Rightarrow> seg \<Rightarrow> json \<Rightarrow> delta_error + json" where
  "delete_own path (SIdx i) (JArr xs) =
     (if i \<ge> length xs then Inl (PathError path) else Inr (JArr (js_splice i 1 [] xs)))"
| "delete_own path seg (JObj al) = Inr (JObj (del_prop (prop_key seg) al))"
| "delete_own path _ _ = Inl (PathError path)"

definition rewrite_text :: "path \<Rightarrow> (string \<Rightarrow> string) \<Rightarrow> json \<Rightarrow> delta_error + json" where
  "rewrite_text path f parent =
     (case read_own (last path) parent of
        Some (JStr t) \<Rightarrow> Inr (write_own (last path) (JStr (f t)) parent)
      | _ \<Rightarrow> Inl (PathError path))"

definition at_parent :: "path \<Rightarrow> (json \<Rightarrow> delta_error + json) \<Rightarrow> json \<Rightarrow> delta_error + json" where
  "at_parent path f doc =
     at_path (butlast path)
       (\<lambda>parent.
          if \<not> (is_JArr parent \<or> is_JObj parent) then Inl (PathError (butlast path))
          else case check_child (last path) parent of Some e \<Rightarrow> Inl e | None \<Rightarrow> f parent)
       (butlast path) doc"

fun apply_op :: "json \<Rightarrow> op \<Rightarrow> delta_error + json" where
  "apply_op doc (OReplace v) = Inr v"
| "apply_op doc (OSplice path index remove items) =
     at_path path (splice_node path index remove items) path doc"
| "apply_op doc (OPermute path perm) = at_path path (permute_node path perm) path doc"
| "apply_op doc (OSet path v) = at_parent path (\<lambda>parent. Inr (write_own (last path) v parent)) doc"
| "apply_op doc (ODelete path) = at_parent path (delete_own path (last path)) doc"
| "apply_op doc (OAppend path t) = at_parent path (rewrite_text path (\<lambda>c. c @ t)) doc"
| "apply_op doc (OTruncate path n) = at_parent path (rewrite_text path (drop n)) doc"

text \<open>The target may be undefined before the first replacement; like \<open>null\<close> it is no container.\<close>

definition as_root :: "json option \<Rightarrow> json" where
  "as_root target = (case target of None \<Rightarrow> JNull | Some v \<Rightarrow> v)"

fun applyOps :: "json option \<Rightarrow> json list \<Rightarrow> delta_error + json option" where
  "applyOps target [] = Inr target"
| "applyOps target (raw # raws) =
     and_then (assertValidOp raw) (\<lambda>oper.
       and_then (apply_op (as_root target) oper) (\<lambda>doc. applyOps (Some doc) raws))"

subsection \<open>Splices\<close>

lemma insert_chunks_from:
  "offset \<le> length items \<Longrightarrow>
     insert_chunks start offset items (take start ys @ take offset items @ drop start ys)
       = take start ys @ items @ drop start ys"
proof (induction "length items - offset" arbitrary: offset rule: less_induct)
  case less
  show ?case
  proof (cases "offset < length items")
    case True
    let ?xs = "take start ys @ take offset items @ drop start ys"
    let ?next = "min (offset + chunk_size) (length items)"
    have split: "take (start + offset) ?xs = take start ys @ take offset items"
        "drop (start + offset) ?xs = drop start ys"
      using True by (cases "start \<le> length ys"; simp)+
    have chunk: "take offset items @ take chunk_size (drop offset items) = take ?next items"
      using take_add[of offset chunk_size items] by (cases "offset + chunk_size \<le> length items") auto
    have "js_splice (start + offset) 0 (take chunk_size (drop offset items)) ?xs
        = take start ys @ take ?next items @ drop start ys"
      unfolding js_splice_def add_0_right split chunk[symmetric] by simp
    moreover have "insert_chunks start (offset + chunk_size) items (take start ys @ take ?next items @ drop start ys)
        = take start ys @ items @ drop start ys"
    proof (cases "offset + chunk_size \<le> length items")
      case True
      with less.hyps[of "offset + chunk_size"] \<open>offset < length items\<close> show ?thesis
        by (simp add: min_def chunk_size_def)
    next
      case False
      then show ?thesis by (subst insert_chunks.simps) (simp add: min_def)
    qed
    ultimately show ?thesis using True by (subst insert_chunks.simps) simp
  next
    case False
    with less.prems show ?thesis by (subst insert_chunks.simps) simp
  qed
qed

lemma insert_chunks_splice: "insert_chunks start 0 items xs = js_splice start 0 items xs"
  using insert_chunks_from[of 0 items start xs] by (simp add: js_splice_def)

lemma splice_splice: "js_splice i 0 items (js_splice i r [] xs) = js_splice i r items xs"
  by (cases "i \<le> length xs") (simp_all add: js_splice_def)

lemma splice_node_eq:
  "splice_node path i r items (JArr xs) = Inr (JArr (js_splice i r items xs))"
  by (simp add: insert_chunks_splice splice_splice)

subsection \<open>The overlap of two texts\<close>

text \<open>\<open>s.indexOf(head, from)\<close>, and the candidates of one probe: at most \<open>left\<close> occurrences.\<close>

definition index_of :: "string \<Rightarrow> string \<Rightarrow> nat \<Rightarrow> nat option" where
  "index_of head s from = find (\<lambda>k. prefix head (drop k s)) [min from (length s)..<Suc (length s)]"

fun try_overlaps :: "string \<Rightarrow> string \<Rightarrow> string \<Rightarrow> nat \<Rightarrow> nat option \<Rightarrow> nat option" where
  "try_overlaps tail b head left None = None"
| "try_overlaps tail b head 0 (Some k) = None"
| "try_overlaps tail b head (Suc left) (Some k) =
     (let n = length tail - k in
      if n \<le> length b \<and> drop k tail = take n b then Some n
      else try_overlaps tail b head left (index_of head tail (k + 1)))"

definition probe_overlap :: "string \<Rightarrow> string \<Rightarrow> nat \<Rightarrow> nat \<Rightarrow> nat option" where
  "probe_overlap tail b h maxCandidates =
     try_overlaps tail b (take h b) maxCandidates (index_of (take h b) tail 0)"

definition scanned :: "string \<Rightarrow> nat \<Rightarrow> string" where
  "scanned a scan = (if length a > scan then drop (length a - scan) a else a)"

definition overlap :: "string \<Rightarrow> string \<Rightarrow> nat \<Rightarrow> nat \<Rightarrow> nat \<Rightarrow> nat" where
  "overlap a b scan probe maxCandidates =
     (if a = [] \<or> b = [] \<or> scan = 0 then 0
      else (case probe_overlap (scanned a scan) b (min probe (length b)) maxCandidates of
              Some n \<Rightarrow> n
            | None \<Rightarrow>
                (if min probe (length b) = 1 then 0
                 else case probe_overlap (scanned a scan) b 1 maxCandidates of Some n \<Rightarrow> n | None \<Rightarrow> 0)))"

text \<open>A suffix of length \<open>n\<close> of one text is a prefix of the other.\<close>

definition overlaps :: "string \<Rightarrow> string \<Rightarrow> nat \<Rightarrow> bool" where
  "overlaps a b n \<longleftrightarrow> n \<le> length a \<and> n \<le> length b \<and> drop (length a - n) a = take n b"

lemma overlaps_scanned: "overlaps (scanned a scan) b n \<longleftrightarrow> overlaps a b n \<and> n \<le> length (scanned a scan)"
  by (auto simp: overlaps_def scanned_def)

lemma index_of_first:
  assumes "index_of head s from = Some k"
  shows "k \<le> length s" "\<And>j. from \<le> j \<Longrightarrow> j < k \<Longrightarrow> \<not> prefix head (drop j s)"
proof -
  let ?l = "[min from (length s)..<Suc (length s)]"
  obtain i where i: "i < length ?l" "k = ?l ! i" "\<forall>j < i. \<not> prefix head (drop (?l ! j) s)"
    using assms by (auto simp: index_of_def find_Some_iff simp del: upt_Suc)
  then have k: "k = min from (length s) + i" by (simp add: nth_upt del: upt_Suc)
  with i(1) show "k \<le> length s" by auto
  fix j
  assume j: "from \<le> j" "j < k"
  with \<open>k \<le> length s\<close> have lo: "min from (length s) = from" by simp
  with j k have "j - from < i" by simp
  with i(1) j(1) lo have "?l ! (j - from) = j" by (simp add: nth_upt del: upt_Suc)
  with i(3) \<open>j - from < i\<close> show "\<not> prefix head (drop j s)" by metis
qed

lemma prefix_take_take: "h \<le> m \<Longrightarrow> prefix (take h b) (take m b)"
  by (metis min_def take_is_prefix take_take)

text \<open>What one probe finds is an overlap, and no longer one was passed over.\<close>

lemma try_overlaps_longest:
  assumes "try_overlaps tail b (take h b) left (index_of (take h b) tail from) = Some n"
    and "\<And>m. length tail - from < m \<Longrightarrow> h \<le> m \<Longrightarrow> \<not> overlaps tail b m"
  shows "overlaps tail b n \<and> (\<forall>m > n. h \<le> m \<longrightarrow> \<not> overlaps tail b m)"
  using assms
proof (induction left arbitrary: "from")
  case 0
  then show ?case by (cases "index_of (take h b) tail from") auto
next
  case (Suc left)
  then obtain k where k: "index_of (take h b) tail from = Some k"
    by (cases "index_of (take h b) tail from") auto
  have skipped: "\<not> overlaps tail b m" if m: "length tail - k < m" "h \<le> m" for m
  proof
    assume o': "overlaps tail b m"
    then have mt: "m \<le> length tail" by (simp add: overlaps_def)
    have "prefix (take h b) (drop (length tail - m) tail)"
      using o' m(2) by (simp add: overlaps_def prefix_take_take)
    moreover have "from \<le> length tail - m"
    proof -
      have "m \<le> length tail - from" using Suc.prems(2)[of m] o' m(2) by (simp add: linorder_not_less[symmetric]) blast
      with m(1) show ?thesis by linarith
    qed
    ultimately show False
      using index_of_first(2)[OF k, of "length tail - m"] m(1) mt index_of_first(1)[OF k] by linarith
  qed
  show ?case
  proof (cases "length tail - k \<le> length b \<and> drop k tail = take (length tail - k) b")
    case True
    then have "n = length tail - k" using Suc.prems(1) k by (simp add: Let_def)
    moreover have "overlaps tail b (length tail - k)"
      using True index_of_first(1)[OF k] by (simp add: overlaps_def)
    ultimately show ?thesis using skipped by blast
  next
    case False
    then have "try_overlaps tail b (take h b) left (index_of (take h b) tail (k + 1)) = Some n"
      using Suc.prems(1) k by (auto simp: Let_def)
    moreover have "\<not> overlaps tail b m" if m: "length tail - (k + 1) < m" "h \<le> m" for m
    proof (cases "m = length tail - k")
      case True
      with False index_of_first(1)[OF k] show ?thesis by (auto simp: overlaps_def)
    next
      case False
      with m skipped show ?thesis by auto
    qed
    ultimately show ?thesis by (rule Suc.IH)
  qed
qed

lemma probe_overlap_longest:
  assumes "probe_overlap tail b h left = Some n"
  shows "overlaps tail b n \<and> (\<forall>m > n. h \<le> m \<longrightarrow> \<not> overlaps tail b m)"
  by (rule try_overlaps_longest[of _ _ _ left 0])
    (use assms in \<open>auto simp: probe_overlap_def overlaps_def\<close>)

lemma overlap_cases:
  assumes "overlap a b scan probe left = n" "0 < n"
  obtains h where "probe_overlap (scanned a scan) b h left = Some n" "h = min probe (length b) \<or> h = 1"
  using assms by (auto simp: overlap_def split: if_splits option.splits)

lemma overlap_overlaps: "overlaps a b (overlap a b scan probe left)"
proof (cases "overlap a b scan probe left = 0")
  case True
  then show ?thesis by (simp add: overlaps_def)
next
  case False
  then obtain h where "probe_overlap (scanned a scan) b h left = Some (overlap a b scan probe left)"
    using overlap_cases[OF refl, of a b scan probe left] by blast
  then show ?thesis using probe_overlap_longest overlaps_scanned by blast
qed

text \<open>
  \<open>overlap\<close> is always correct, and maximal up to its probe: the length it returns is a suffix of
  the first text that is a prefix of the second, inside the scan window, and when it returns a
  positive length no longer overlap within the window was missed, except one shorter than the
  probe.
\<close>

theorem overlap_correct:
  "let n = overlap a b scan probe left in
     n \<le> length a \<and> n \<le> length b \<and> drop (length a - n) a = take n b
     \<and> (0 < n \<longrightarrow> n \<le> scan
          \<and> (\<forall>m > n. m \<le> scan \<and> min probe (length b) \<le> m \<longrightarrow> \<not> overlaps a b m))"
proof -
  let ?n = "overlap a b scan probe left"
  have "overlaps a b ?n" by (rule overlap_overlaps)
  moreover have "?n \<le> scan \<and> (\<forall>m > ?n. m \<le> scan \<and> min probe (length b) \<le> m \<longrightarrow> \<not> overlaps a b m)"
    if pos: "0 < ?n"
  proof -
    obtain h where h: "probe_overlap (scanned a scan) b h left = Some ?n" "h = min probe (length b) \<or> h = 1"
      using overlap_cases[OF refl pos] by blast
    note l = probe_overlap_longest[OF h(1)]
    have "length (scanned a scan) \<le> scan" by (simp add: scanned_def)
    then have "?n \<le> scan" using l by (auto simp: overlaps_def)
    moreover have "\<not> overlaps a b m" if m: "?n < m" "m \<le> scan" "min probe (length b) \<le> m" for m
    proof
      assume "overlaps a b m"
      with m(2) have "overlaps (scanned a scan) b m"
        by (auto simp: overlaps_scanned) (auto simp: scanned_def overlaps_def)
      moreover have "h \<le> m" using h(2) m(1,3) pos by auto
      ultimately show False using l m(1) by blast
    qed
    ultimately show ?thesis by blast
  qed
  ultimately show ?thesis by (auto simp: Let_def overlaps_def)
qed

lemma scanned_abcd: "scanned ''abcd'' 65536 = ''abcd''"
  by (simp add: scanned_def)

lemma index_of_c: "index_of ''c'' ''abcd'' 0 = Some 2"
  by (simp add: index_of_def)

lemma probe_cdef: "probe_overlap (scanned ''abcd'' 65536) ''cdef'' (min 64 (length ''cdef'')) 8 = None"
  by (simp add: probe_overlap_def scanned_def index_of_def)

lemma probe_c: "probe_overlap (scanned ''abcd'' 65536) ''cdef'' 1 8 = Some 2"
  unfolding scanned_abcd by (simp add: probe_overlap_def index_of_c eval_nat_numeral)

lemma overlap_abcd: "overlap ''abcd'' ''cdef'' 65536 64 8 = 2"
  unfolding overlap_def probe_cdef probe_c by simp

theorem overlap_correct_witness:
  "drop 2 ''abcd'' = take 2 ''cdef'' \<and> \<not> overlaps ''abcd'' ''cdef'' 4"
  using overlap_correct[of "''abcd''" "''cdef''" 65536 64 8] by (simp add: overlap_abcd)

end
