(* ===== verification/Delta_Edit.thy ===== *)
theory Delta_Edit
  imports Delta_Ops
begin

text \<open>
  What validation accepts (exactly the tuples of well-formed operations), the value at a path and
  its replacement, and the effect of a batch of operations below a path. The difference of two
  revisions and the immutable appliers are proved over these.
\<close>

subsection \<open>The tuples of operations\<close>

fun seg_json :: "seg \<Rightarrow> json" where
  "seg_json (SKey k) = JStr k"
| "seg_json (SIdx i) = JNum (of_nat i)"

definition path_json :: "path \<Rightarrow> json" where
  "path_json path = JArr (map seg_json path)"

definition num_json :: "nat \<Rightarrow> json" where
  "num_json n = JNum (of_nat n)"

fun op_json :: "op \<Rightarrow> json" where
  "op_json (OReplace v) = JArr [JStr ''r'', v]"
| "op_json (OSet path v) = JArr [JStr ''s'', path_json path, v]"
| "op_json (ODelete path) = JArr [JStr ''d'', path_json path]"
| "op_json (OAppend path t) = JArr [JStr ''a'', path_json path, JStr t]"
| "op_json (OTruncate path n) = JArr [JStr ''t'', path_json path, num_json n]"
| "op_json (OSplice path i r items) = JArr [JStr ''p'', path_json path, num_json i, num_json r, JArr items]"
| "op_json (OPermute path perm) = JArr [JStr ''m'', path_json path, JArr (map num_json perm)]"

fun seg_ok :: "seg \<Rightarrow> bool" where
  "seg_ok (SKey k) \<longleftrightarrow> k \<notin> set RESERVED_SEGMENTS"
| "seg_ok (SIdx i) \<longleftrightarrow> True"

abbreviation path_ok :: "path \<Rightarrow> bool" where
  "path_ok path \<equiv> list_all seg_ok path"

definition is_permutation :: "nat list \<Rightarrow> bool" where
  "is_permutation p \<longleftrightarrow> distinct p \<and> set p \<subseteq> {..<length p}"

fun op_ok :: "op \<Rightarrow> bool" where
  "op_ok (OReplace v) \<longleftrightarrow> True"
| "op_ok (OSet path v) \<longleftrightarrow> path \<noteq> [] \<and> path_ok path"
| "op_ok (ODelete path) \<longleftrightarrow> path \<noteq> [] \<and> path_ok path"
| "op_ok (OAppend path t) \<longleftrightarrow> path \<noteq> [] \<and> path_ok path"
| "op_ok (OTruncate path n) \<longleftrightarrow> path \<noteq> [] \<and> path_ok path"
| "op_ok (OSplice path i r items) \<longleftrightarrow> path_ok path"
| "op_ok (OPermute path perm) \<longleftrightarrow> path_ok path \<and> is_permutation perm"

lemma integer_of_nat: "js_is_integer (of_nat n)"
  using quotient_of_int[of "int n"] by (simp add: js_is_integer_def)

lemma integer_floor: "js_is_integer q \<Longrightarrow> of_int \<lfloor>q\<rfloor> = q"
proof -
  assume "js_is_integer q"
  then obtain n where "quotient_of q = (n, 1)" by (cases "quotient_of q") (auto simp: js_is_integer_def)
  then have "q = of_int n" using quotient_of_div[of q n 1] by simp
  then show ?thesis by simp
qed

lemma nat_of_Some: "nat_of v = Some n \<longleftrightarrow> v = num_json n"
proof (cases v)
  case (JNum q)
  have "of_nat (nat \<lfloor>q\<rfloor>) = q" if "js_is_integer q" "0 \<le> q"
    using integer_floor[OF that(1)] that(2) by (simp add: of_nat_nat)
  then show ?thesis using JNum integer_of_nat by (auto simp: num_json_def)
qed (auto simp: num_json_def)

lemma nat_of_num [simp]: "nat_of (num_json n) = Some n"
  by (simp only: nat_of_Some)

lemma nat_of_JNum [simp]: "nat_of (JNum (of_nat n)) = Some n"
  using nat_of_num by (simp only: num_json_def)

declare nat_of.simps(1) [simp del]

lemma safe_seg_Inr: "safe_seg v = Inr s \<longleftrightarrow> v = seg_json s \<and> seg_ok s"
proof (cases v)
  case (JNum q)
  show ?thesis
  proof (cases "nat_of (JNum q)")
    case None
    then show ?thesis using JNum by (cases s) auto
  next
    case (Some n)
    then have "JNum q = JNum (of_nat n)" by (simp add: nat_of_Some num_json_def)
    then show ?thesis using JNum by (cases s) auto
  qed
qed (cases s; auto)+

lemma assertSafePath_Inr: "assertSafePath vs = Inr p \<longleftrightarrow> vs = map seg_json p \<and> path_ok p"
proof (induction vs arbitrary: p)
  case (Cons v vs)
  then show ?case by (cases p) (auto simp: and_then_Inr safe_seg_Inr)
qed auto

lemma assertPathArg_Inr:
  "assertPathArg ne v = Inr p \<longleftrightarrow> v = path_json p \<and> path_ok p \<and> (ne \<longrightarrow> p \<noteq> [])"
proof (cases v)
  case (JArr vs)
  then show ?thesis by (cases "ne \<and> vs = []") (auto simp: assertSafePath_Inr path_json_def)
qed (auto simp: path_json_def)

lemma bijection_from_Some:
  "bijection_from n seen vs = Some p \<longleftrightarrow>
     vs = map num_json p \<and> distinct p \<and> set p \<subseteq> {..<n} \<and> set p \<inter> set seen = {}"
proof (induction vs arbitrary: seen p)
  case Nil
  then show ?case by auto
next
  case (Cons v vs)
  show ?case
  proof (cases "nat_of v")
    case None
    then have "v \<noteq> num_json i" for i using nat_of_Some[of v i] by simp
    with None show ?thesis by (auto simp: Cons_eq_map_conv)
  next
    case (Some i)
    then have v: "v = num_json i" by (simp add: nat_of_Some)
    have inj: "num_json i = num_json j \<longleftrightarrow> i = j" for j by (simp add: num_json_def)
    show ?thesis using Some v Cons[of "i # seen"]
      by (cases p) (auto simp: inj)
  qed
qed

lemma assertPermutation_Inr:
  "assertPermutation v = Inr p \<longleftrightarrow> v = JArr (map num_json p) \<and> is_permutation p"
proof (cases v)
  case (JArr vs)
  show ?thesis
  proof (cases "bijection_from (length vs) [] vs")
    case None
    then have "\<not> (vs = map num_json p \<and> is_permutation p)"
      using bijection_from_Some[of "length vs" "[]" vs p] by (auto simp: is_permutation_def)
    with None JArr show ?thesis by auto
  next
    case (Some p')
    then have p': "vs = map num_json p'" "is_permutation p'"
      using bijection_from_Some[of "length vs" "[]" vs p'] by (auto simp: is_permutation_def)
    have "map num_json p' = map num_json p \<longleftrightarrow> p' = p"
      by (rule inj_map_eq_map) (auto simp: inj_def num_json_def)
    with p' Some JArr show ?thesis by auto
  qed
qed auto

lemma count_of_Inr: "count_of m v = Inr n \<longleftrightarrow> v = num_json n"
  using nat_of_Some[of v n] by (auto simp: count_of_def split: option.split)

lemma items_of_Inr: "items_of v = Inr xs \<longleftrightarrow> v = JArr xs"
  by (cases v) auto

lemma valid_verb_Inr:
  "valid_r args = Inr oper \<longleftrightarrow> (\<exists>v. args = [v] \<and> oper = OReplace v)"
  "valid_s args = Inr oper \<longleftrightarrow> (\<exists>p v. args = [path_json p, v] \<and> oper = OSet p v \<and> op_ok oper)"
  "valid_d args = Inr oper \<longleftrightarrow> (\<exists>p. args = [path_json p] \<and> oper = ODelete p \<and> op_ok oper)"
  "valid_a args = Inr oper \<longleftrightarrow> (\<exists>p t. args = [path_json p, JStr t] \<and> oper = OAppend p t \<and> op_ok oper)"
  "valid_t args = Inr oper \<longleftrightarrow> (\<exists>p n. args = [path_json p, num_json n] \<and> oper = OTruncate p n \<and> op_ok oper)"
  "valid_p args = Inr oper \<longleftrightarrow>
     (\<exists>p i r xs. args = [path_json p, num_json i, num_json r, JArr xs] \<and> oper = OSplice p i r xs \<and> op_ok oper)"
  "valid_m args = Inr oper \<longleftrightarrow>
     (\<exists>p perm. args = [path_json p, JArr (map num_json perm)] \<and> oper = OPermute p perm \<and> op_ok oper)"
  by ((cases args rule: valid_r.cases; auto),
      (cases args rule: valid_s.cases; auto simp: and_then_Inr assertPathArg_Inr),
      (cases args rule: valid_d.cases; auto simp: and_then_Inr assertPathArg_Inr),
      (cases args rule: valid_a.cases; auto simp: and_then_Inr assertPathArg_Inr),
      (cases args rule: valid_t.cases; auto simp: and_then_Inr assertPathArg_Inr nat_of_Some split: option.split_asm),
      (cases args rule: valid_p.cases; auto simp: and_then_Inr assertPathArg_Inr count_of_Inr items_of_Inr),
      (cases args rule: valid_m.cases; auto simp: and_then_Inr assertPathArg_Inr assertPermutation_Inr))

lemma assertValidOp_iff:
  "assertValidOp raw = Inr oper \<longleftrightarrow> raw = op_json oper \<and> op_ok oper"
proof (cases "\<exists>verb args. raw = JArr (verb # args)")
  case True
  then obtain verb args where raw: "raw = JArr (verb # args)" by blast
  show ?thesis unfolding raw
    by (cases oper; simp add: valid_args_def valid_verb_Inr; blast)
next
  case False
  then have "assertValidOp raw \<noteq> Inr oper"
    by (cases raw rule: assertValidOp.cases) auto
  moreover have "raw \<noteq> op_json oper" using False by (cases oper) auto
  ultimately show ?thesis by blast
qed

text \<open>
  C39: validation is exact: \<open>assertValidOp\<close> accepts a JSON value if and only if it is the tuple of an
  operation whose path is safe (no segment reaches the prototype chain, indices are naturals),
  is not the root where the verb forbids it, and whose permutation is a bijection; it then reads
  that operation.
\<close>

theorem valid_op_exact:
  "assertValidOp raw = Inr oper \<longleftrightarrow> raw = op_json oper \<and> op_ok oper"
  by (rule assertValidOp_iff)

subsection \<open>The value at a path\<close>

fun get_at :: "json \<Rightarrow> path \<Rightarrow> json option" where
  "get_at node [] = Some node"
| "get_at node (seg # segs) = Option.bind (read_own seg node) (\<lambda>v. get_at v segs)"

fun put_at :: "path \<Rightarrow> json \<Rightarrow> json \<Rightarrow> json" where
  "put_at [] w node = w"
| "put_at (seg # segs) w node =
     (case read_own seg node of None \<Rightarrow> node | Some v \<Rightarrow> write_own seg (put_at segs w v) node)"

lemma read_own_cases:
  assumes "read_own seg node = Some v"
  obtains (arr) i xs where "seg = SIdx i" "node = JArr xs" "i < length xs" "v = xs ! i"
    | (obj) al where "node = JObj al" "map_of al (prop_key seg) = Some v"
  using assms by (cases "(seg, node)" rule: read_own.cases) (auto split: if_splits)

lemma old_prop_old_prop: "old_prop k w (old_prop k v al) = old_prop k w al"
  by (induction k v al rule: old_prop.induct) auto

lemma old_prop_same: "map_of al k = Some v \<Longrightarrow> old_prop k v al = al"
  by (induction k v al rule: old_prop.induct) auto

lemma set_prop_again: "map_of al k = Some u \<Longrightarrow> set_prop k w (set_prop k v al) = set_prop k w al"
  by (simp add: set_prop_def old_prop_old_prop old_prop_map_of)

lemma set_prop_same: "map_of al k = Some v \<Longrightarrow> set_prop k v al = al"
  by (simp add: set_prop_def old_prop_same)

lemma write_own_laws [delta_simps]:
  assumes "read_own seg node = Some v"
  shows "read_own seg (write_own seg w node) = Some w"
    and "write_own seg u (write_own seg w node) = write_own seg u node"
    and "write_own seg v node = node"
  using assms by (cases rule: read_own_cases; cases seg; simp add: set_prop_again set_prop_same)+

lemma get_put: "get_at node p = Some v \<Longrightarrow> get_at (put_at p w node) p = Some w"
  by (induction p arbitrary: node) (auto simp: write_own_laws bind_eq_Some_conv)

lemma put_put: "get_at node p = Some v \<Longrightarrow> put_at p u (put_at p w node) = put_at p u node"
  by (induction p arbitrary: node) (auto simp: write_own_laws bind_eq_Some_conv)

lemma put_same: "get_at node p = Some v \<Longrightarrow> put_at p v node = node"
  by (induction p arbitrary: node) (auto simp: write_own_laws bind_eq_Some_conv)

lemma get_append: "get_at node (p @ q) = Option.bind (get_at node p) (\<lambda>v. get_at v q)"
  by (induction p arbitrary: node) (auto simp: bind_assoc)

lemma put_append: "get_at node p = Some v \<Longrightarrow> put_at (p @ q) w node = put_at p (put_at q w v) node"
  by (induction p arbitrary: node) (auto simp: bind_eq_Some_conv)

text \<open>\<open>at_path\<close> edits exactly the value at the path.\<close>

lemma at_path_get:
  "get_at node p = Some v \<Longrightarrow> f v = Inr w \<Longrightarrow> at_path whole f p node = Inr (put_at p w node)"
proof (induction p arbitrary: node)
  case (Cons seg segs)
  then obtain c where c: "read_own seg node = Some c" "get_at c segs = Some v"
    by (auto simp: bind_eq_Some_conv)
  note IH = Cons.IH[OF c(2) Cons.prems(2)]
  from c(1) show ?case
    by (cases rule: read_own_cases) (use c(1) IH in \<open>auto split: seg.split\<close>)
qed simp

lemma at_path_Inr:
  assumes "at_path whole f p node = Inr node'"
  obtains v w where "get_at node p = Some v" "f v = Inr w" "node' = put_at p w node"
proof -
  have "\<exists>v. get_at node p = Some v \<and> (\<exists>w. f v = Inr w)"
    using assms
  proof (induction p arbitrary: node node')
    case (Cons seg segs)
    then show ?case
      by (fastforce simp: and_then_Inr split: json.split_asm seg.split_asm option.split_asm if_splits)
  qed simp
  then show ?thesis using that at_path_get[of node p _ f _ whole] assms by fastforce
qed

subsection \<open>Batches\<close>

fun apply_all :: "json \<Rightarrow> op list \<Rightarrow> delta_error + json" where
  "apply_all doc [] = Inr doc"
| "apply_all doc (oper # ops) = and_then (apply_op doc oper) (\<lambda>d. apply_all d ops)"

lemma apply_all_append:
  "apply_all doc (ops @ ops') = and_then (apply_all doc ops) (\<lambda>d. apply_all d ops')"
proof (induction ops arbitrary: doc)
  case (Cons oper ops)
  then show ?case by (cases "apply_op doc oper") auto
qed simp

lemma applyOps_tuples:
  "list_all op_ok ops \<Longrightarrow> apply_all doc ops = Inr w \<Longrightarrow> applyOps (Some doc) (map op_json ops) = Inr (Some w)"
proof (induction ops arbitrary: doc)
  case (Cons oper ops)
  then have "assertValidOp (op_json oper) = Inr oper" by (simp add: assertValidOp_iff)
  with Cons show ?case by (auto simp: and_then_Inr as_root_def)
qed simp

text \<open>A batch takes the value \<open>v\<close> at \<open>path\<close> to \<open>w\<close>, in every document that has \<open>v\<close> there.\<close>

definition runs :: "path \<Rightarrow> json \<Rightarrow> op list \<Rightarrow> json \<Rightarrow> bool" where
  "runs path v ops w \<longleftrightarrow>
     (\<forall>doc. get_at doc path = Some v \<longrightarrow> apply_all doc ops = Inr (put_at path w doc))"

lemma runs_Nil: "runs path v [] v"
  by (simp add: runs_def put_same)

lemma runs_append: "runs path v ops w \<Longrightarrow> runs path w ops' u \<Longrightarrow> runs path v (ops @ ops') u"
  by (auto simp: runs_def apply_all_append get_put put_put)

lemma runs_child:
  assumes "runs (path @ [seg]) v ops w" "read_own seg node = Some v"
  shows "runs path node ops (write_own seg w node)"
  using assms by (auto simp: runs_def get_append put_append)

lemma runs_at:
  assumes "\<And>doc. get_at doc path = Some v \<Longrightarrow> apply_op doc oper = at_path whole f path doc" "f v = Inr w"
  shows "runs path v [oper] w"
  using assms by (auto simp: runs_def at_path_get)

lemma runs_replace: "runs [] v [OReplace w] w"
  by (simp add: runs_def)

lemma runs_splice: "runs path (JArr xs) [OSplice path i r items] (JArr (js_splice i r items xs))"
  by (rule runs_at[where whole = path]) (simp, simp only: splice_node_eq)

lemma runs_permute:
  "length xs = length perm \<Longrightarrow> runs path (JArr xs) [OPermute path perm] (JArr (map (\<lambda>i. xs ! i) perm))"
  by (rule runs_at[where whole = path and f = "permute_node path perm"]) auto

lemma runs_parent:
  assumes "\<And>doc. apply_op doc oper = at_parent (path @ [seg]) f doc"
    and "is_JArr node \<or> is_JObj node" "check_child seg node = None" "f node = Inr node'"
  shows "runs path node [oper] node'"
  unfolding runs_def
  using assms at_path_get[where p = path and v = node and w = node' and whole = path] by (auto simp: at_parent_def)

lemma runs_set:
  assumes "is_JArr node \<or> is_JObj node" "check_child seg node = None"
  shows "runs path node [OSet (path @ [seg]) v] (write_own seg v node)"
  by (rule runs_parent[OF _ assms, where f = "\<lambda>parent. Inr (write_own seg v parent)"]) simp_all

lemma runs_delete:
  assumes "is_JArr node \<or> is_JObj node" "check_child seg node = None"
    and "delete_own (path @ [seg]) seg node = Inr node'"
  shows "runs path node [ODelete (path @ [seg])] node'"
  by (rule runs_parent[OF _ assms(1,2), where f = "delete_own (path @ [seg]) seg"]) (simp_all add: assms(3))

lemma read_own_container:
  "read_own seg node = Some v \<Longrightarrow> (is_JArr node \<or> is_JObj node) \<and> check_child seg node = None"
  by (erule read_own_cases; cases seg; simp)

text \<open>The same below the root of the document: a value at a non-empty path is rewritten in place.\<close>

lemma get_at_snoc:
  assumes "get_at doc (path @ [seg]) = Some v"
  obtains node where "get_at doc path = Some node" "read_own seg node = Some v"
  using assms by (auto simp: get_append bind_eq_Some_conv)

lemma runs_below:
  assumes "path \<noteq> []"
    and "\<And>node. read_own (last path) node = Some v \<Longrightarrow>
      runs (butlast path) node ops (write_own (last path) w node)"
  shows "runs path v ops w"
  unfolding runs_def
proof (intro allI impI)
  fix doc
  assume g: "get_at doc path = Some v"
  have p: "butlast path @ [last path] = path" using assms(1) by simp
  with g obtain node where n: "get_at doc (butlast path) = Some node" "read_own (last path) node = Some v"
    using get_at_snoc[of doc "butlast path" "last path" v] by auto
  with assms(2) have "apply_all doc ops = Inr (put_at (butlast path) (write_own (last path) w node) doc)"
    by (auto simp: runs_def)
  also have "put_at (butlast path) (write_own (last path) w node) doc = put_at path w doc"
    using put_append[OF n(1), of "[last path]" w] n(2) p by simp
  finally show "apply_all doc ops = Inr (put_at path w doc)" .
qed

lemma runs_set_here: "path \<noteq> [] \<Longrightarrow> runs path v [OSet path w] w"
proof (rule runs_below)
  fix node
  assume "path \<noteq> []" "read_own (last path) node = Some v"
  then show "runs (butlast path) node [OSet path w] (write_own (last path) w node)"
    using runs_set[of node "last path" "butlast path" w] read_own_container[of "last path" node v] by simp
qed

lemma runs_rewrite:
  assumes "path \<noteq> []" "\<And>doc. apply_op doc oper = at_parent path (rewrite_text path f) doc"
  shows "runs path (JStr t) [oper] (JStr (f t))"
proof (rule runs_below[OF assms(1)])
  fix node
  assume r: "read_own (last path) node = Some (JStr t)"
  show "runs (butlast path) node [oper] (write_own (last path) (JStr (f t)) node)"
    using read_own_container[OF r] r assms
    by (intro runs_parent[where seg = "last path" and f = "rewrite_text path f"])
      (simp_all add: rewrite_text_def)
qed

lemma runs_append_text: "path \<noteq> [] \<Longrightarrow> runs path (JStr t) [OAppend path u] (JStr (t @ u))"
  by (rule runs_rewrite[where f = "\<lambda>c. c @ u"]) simp_all

lemma runs_truncate: "path \<noteq> [] \<Longrightarrow> runs path (JStr t) [OTruncate path n] (JStr (drop n t))"
  by (rule runs_rewrite[where f = "drop n"]) simp_all

end
