(* ===== verification/Delta_Codec.thy ===== *)
theory Delta_Codec
  imports Delta_Edit
begin

text \<open>
  The wire codec of \<^verbatim>\<open>packages/chord/src/delta/index.ts\<close> (lines 210-277 and 542-738): a path is
  interned on its second use and omitted when it is the path of the operation before. A path's key
  \<open>JSON.stringify(path)\<close> is the path itself: the text determines the segments and their types. The
  encoder's \<open>Set\<close> and \<open>Map\<close>s are lists; a thrown error leaves the decoder in the state it reached.
\<close>

subsection \<open>Wire operations\<close>

datatype path_ref = Inline path | PathId nat

text \<open>No reference is the short form.\<close>

datatype wire_op =
    WReplace json
  | WSet "path_ref option" json
  | WDelete "path_ref option"
  | WAppend "path_ref option" string
  | WTruncate "path_ref option" nat
  | WSplice "path_ref option" nat nat "json list"
  | WPermute "path_ref option" "nat list"
  | WDefine nat path

fun ref_json :: "path_ref \<Rightarrow> json" where
  "ref_json (Inline path) = path_json path"
| "ref_json (PathId i) = num_json i"

definition ref_args :: "path_ref option \<Rightarrow> json list" where
  "ref_args r = (case r of None \<Rightarrow> [] | Some ref \<Rightarrow> [ref_json ref])"

fun wire_json :: "wire_op \<Rightarrow> json" where
  "wire_json (WReplace v) = JArr [JStr ''r'', v]"
| "wire_json (WSet r v) = JArr (JStr ''s'' # ref_args r @ [v])"
| "wire_json (WDelete r) = JArr (JStr ''d'' # ref_args r)"
| "wire_json (WAppend r t) = JArr (JStr ''a'' # ref_args r @ [JStr t])"
| "wire_json (WTruncate r n) = JArr (JStr ''t'' # ref_args r @ [num_json n])"
| "wire_json (WSplice r i n items) = JArr (JStr ''p'' # ref_args r @ [num_json i, num_json n, JArr items])"
| "wire_json (WPermute r perm) = JArr (JStr ''m'' # ref_args r @ [JArr (map num_json perm)])"
| "wire_json (WDefine i path) = JArr [JStr ''#'', num_json i, path_json path]"

fun ok_ref :: "json \<Rightarrow> delta_error + path_ref" where
  "ok_ref (JNum q) =
     (case nat_of (JNum q) of None \<Rightarrow> Inl (TypeError ''bad path id'') | Some i \<Rightarrow> Inr (PathId i))"
| "ok_ref (JArr p) = and_then (assertSafePath p) (\<lambda>path. Inr (Inline path))"
| "ok_ref _ = Inl (TypeError ''path is not an array'')"

fun text_of :: "json \<Rightarrow> delta_error + string" where
  "text_of (JStr t) = Inr t"
| "text_of _ = Inl (TypeError ''a value'')"

text \<open>The reference of a long form, then the payload.\<close>

definition with_ref :: "json \<Rightarrow> (path_ref option \<Rightarrow> delta_error + wire_op) \<Rightarrow> delta_error + wire_op" where
  "with_ref r f = and_then (ok_ref r) (\<lambda>ref. f (Some ref))"

fun wire_r :: "json list \<Rightarrow> delta_error + wire_op" where
  "wire_r [v] = Inr (WReplace v)"
| "wire_r _ = Inl (TypeError ''r arity'')"

fun wire_s :: "json list \<Rightarrow> delta_error + wire_op" where
  "wire_s [r, v] = with_ref r (\<lambda>ref. Inr (WSet ref v))"
| "wire_s [v] = Inr (WSet None v)"
| "wire_s _ = Inl (TypeError ''s arity'')"

fun wire_d :: "json list \<Rightarrow> delta_error + wire_op" where
  "wire_d [r] = with_ref r (\<lambda>ref. Inr (WDelete ref))"
| "wire_d [] = Inr (WDelete None)"
| "wire_d _ = Inl (TypeError ''d arity'')"

fun wire_a :: "json list \<Rightarrow> delta_error + wire_op" where
  "wire_a [r, v] = with_ref r (\<lambda>ref. and_then (text_of v) (\<lambda>t. Inr (WAppend ref t)))"
| "wire_a [v] = and_then (text_of v) (\<lambda>t. Inr (WAppend None t))"
| "wire_a _ = Inl (TypeError ''a arity'')"

fun wire_t :: "json list \<Rightarrow> delta_error + wire_op" where
  "wire_t [r, c] = with_ref r (\<lambda>ref. and_then (count_of ''t count'' c) (\<lambda>n. Inr (WTruncate ref n)))"
| "wire_t [c] = and_then (count_of ''t count'' c) (\<lambda>n. Inr (WTruncate None n))"
| "wire_t _ = Inl (TypeError ''t arity'')"

definition splice_of :: "json \<Rightarrow> json \<Rightarrow> json \<Rightarrow> path_ref option \<Rightarrow> delta_error + wire_op" where
  "splice_of i r items ref =
     and_then (count_of ''p index'' i) (\<lambda>index.
       and_then (count_of ''p remove'' r) (\<lambda>remove.
         and_then (items_of items) (\<lambda>xs. Inr (WSplice ref index remove xs))))"

fun wire_p :: "json list \<Rightarrow> delta_error + wire_op" where
  "wire_p [r, i, n, items] = with_ref r (splice_of i n items)"
| "wire_p [i, n, items] = splice_of i n items None"
| "wire_p _ = Inl (TypeError ''p arity'')"

fun wire_m :: "json list \<Rightarrow> delta_error + wire_op" where
  "wire_m [r, order] = with_ref r (\<lambda>ref. and_then (assertPermutation order) (\<lambda>perm. Inr (WPermute ref perm)))"
| "wire_m [order] = and_then (assertPermutation order) (\<lambda>perm. Inr (WPermute None perm))"
| "wire_m _ = Inl (TypeError ''m arity'')"

fun wire_define :: "json list \<Rightarrow> delta_error + wire_op" where
  "wire_define [i, JArr p] =
     (case nat_of i of
        None \<Rightarrow> Inl (TypeError ''# shape'')
      | Some n \<Rightarrow> and_then (assertSafePath p) (\<lambda>path. Inr (WDefine n path)))"
| "wire_define _ = Inl (TypeError ''# shape'')"

definition wire_args :: "json \<Rightarrow> json list \<Rightarrow> delta_error + wire_op" where
  "wire_args verb args =
     (if verb = JStr ''r'' then wire_r args
      else if verb = JStr ''s'' then wire_s args
      else if verb = JStr ''d'' then wire_d args
      else if verb = JStr ''a'' then wire_a args
      else if verb = JStr ''t'' then wire_t args
      else if verb = JStr ''p'' then wire_p args
      else if verb = JStr ''m'' then wire_m args
      else if verb = JStr ''#'' then wire_define args
      else Inl (UnknownVerb verb))"

fun assertValidWireOp :: "json \<Rightarrow> delta_error + wire_op" where
  "assertValidWireOp (JArr (verb # args)) = wire_args verb args"
| "assertValidWireOp _ = Inl (TypeError ''op is not a tuple'')"

subsection \<open>Encoder\<close>

record encoder =
  en_seen :: "path list"
  en_ids :: "(path \<times> nat) list"
  en_next :: nat

definition encoder_start :: encoder where
  "encoder_start = \<lparr>en_seen = [], en_ids = [], en_next = 0\<rparr>"

fun op_path :: "op \<Rightarrow> path" where
  "op_path (OReplace v) = []"
| "op_path (OSet path v) = path"
| "op_path (ODelete path) = path"
| "op_path (OAppend path t) = path"
| "op_path (OTruncate path n) = path"
| "op_path (OSplice path i r items) = path"
| "op_path (OPermute path perm) = path"

fun with_path_ref :: "op \<Rightarrow> path_ref option \<Rightarrow> wire_op" where
  "with_path_ref (OReplace v) ref = WReplace v"
| "with_path_ref (OSet path v) ref = WSet ref v"
| "with_path_ref (ODelete path) ref = WDelete ref"
| "with_path_ref (OAppend path t) ref = WAppend ref t"
| "with_path_ref (OTruncate path n) ref = WTruncate ref n"
| "with_path_ref (OSplice path i r items) ref = WSplice ref i r items"
| "with_path_ref (OPermute path perm) ref = WPermute ref perm"

fun encode_from :: "path option \<Rightarrow> op list \<Rightarrow> encoder \<Rightarrow> wire_op list \<times> encoder" where
  "encode_from previous [] e = ([], e)"
| "encode_from previous (oper # ops) e =
     (if isReplace oper then
        (let (out, e') = encode_from None ops \<lparr>en_seen = [], en_ids = [], en_next = 0\<rparr>
         in (with_path_ref oper None # out, e'))
      else if previous = Some (op_path oper) then
        (let (out, e') = encode_from previous ops e in (with_path_ref oper None # out, e'))
      else
        (let path = op_path oper;
             (defs, ref, e1) =
               (case map_of (en_ids e) path of
                  Some i \<Rightarrow> ([], PathId i, e)
                | None \<Rightarrow>
                    if path \<in> set (en_seen e)
                    then ([WDefine (en_next e) path], PathId (en_next e),
                          e\<lparr>en_next := en_next e + 1, en_ids := (path, en_next e) # en_ids e\<rparr>)
                    else ([], Inline path, e\<lparr>en_seen := path # en_seen e\<rparr>));
             (out, e') = encode_from (Some path) ops e1
         in (defs @ with_path_ref oper (Some ref) # out, e')))"

definition encode :: "op list \<Rightarrow> encoder \<Rightarrow> wire_op list \<times> encoder" where
  "encode ops e = encode_from None ops e"

subsection \<open>Decoder\<close>

type_synonym decoder = "(nat \<times> path) list"

fun wire_ref :: "wire_op \<Rightarrow> path_ref option" where
  "wire_ref (WSet ref v) = ref"
| "wire_ref (WDelete ref) = ref"
| "wire_ref (WAppend ref t) = ref"
| "wire_ref (WTruncate ref n) = ref"
| "wire_ref (WSplice ref i r items) = ref"
| "wire_ref (WPermute ref perm) = ref"
| "wire_ref _ = None"

fun root_allowed :: "wire_op \<Rightarrow> bool" where
  "root_allowed (WSplice _ _ _ _) = True"
| "root_allowed (WPermute _ _) = True"
| "root_allowed _ = False"

fun with_path :: "wire_op \<Rightarrow> path \<Rightarrow> op" where
  "with_path (WReplace v) path = OReplace v"
| "with_path (WSet ref v) path = OSet path v"
| "with_path (WDelete ref) path = ODelete path"
| "with_path (WAppend ref t) path = OAppend path t"
| "with_path (WTruncate ref n) path = OTruncate path n"
| "with_path (WSplice ref i r items) path = OSplice path i r items"
| "with_path (WPermute ref perm) path = OPermute path perm"
| "with_path (WDefine i p) path = OReplace JNull"

definition resolve_ref :: "path option \<Rightarrow> decoder \<Rightarrow> path_ref option \<Rightarrow> delta_error + path" where
  "resolve_ref previous paths ref =
     (case ref of
        None \<Rightarrow> (case previous of None \<Rightarrow> Inl (PathError []) | Some path \<Rightarrow> Inr path)
      | Some (PathId i) \<Rightarrow> (case map_of paths i of None \<Rightarrow> Inl (PathIdError i) | Some path \<Rightarrow> Inr path)
      | Some (Inline path) \<Rightarrow> Inr path)"

fun decode_from :: "path option \<Rightarrow> json list \<Rightarrow> decoder \<Rightarrow> (delta_error + op list) \<times> decoder" where
  "decode_from previous [] paths = (Inr [], paths)"
| "decode_from previous (raw # raws) paths =
     (case assertValidWireOp raw of
        Inl err \<Rightarrow> (Inl err, paths)
      | Inr w \<Rightarrow>
          (case w of
             WDefine i path \<Rightarrow> decode_from previous raws ((i, path) # paths)
           | WReplace v \<Rightarrow>
               (let (r, paths') = decode_from None raws []
                in (and_then r (\<lambda>ops. Inr (OReplace v # ops)), paths'))
           | _ \<Rightarrow>
               (case resolve_ref previous paths (wire_ref w) of
                  Inl err \<Rightarrow> (Inl err, paths)
                | Inr path \<Rightarrow>
                    if \<not> root_allowed w \<and> path = [] then (Inl (PathError path), paths)
                    else
                      (let (r, paths') = decode_from (Some path) raws paths
                       in (and_then r (\<lambda>ops. Inr (with_path w path # ops)), paths')))))"

definition decode :: "json list \<Rightarrow> decoder \<Rightarrow> (delta_error + op list) \<times> decoder" where
  "decode wire paths = decode_from None wire paths"

subsection \<open>Encoded operations are valid\<close>

fun ref_ok :: "path_ref \<Rightarrow> bool" where
  "ref_ok (Inline path) \<longleftrightarrow> path_ok path"
| "ref_ok (PathId i) \<longleftrightarrow> True"

lemma safe_path_json: "path_ok path \<Longrightarrow> assertSafePath (map seg_json path) = Inr path"
  by (simp add: assertSafePath_Inr)

lemma ok_ref_json: "ref_ok ref \<Longrightarrow> ok_ref (ref_json ref) = Inr ref"
  by (cases ref) (simp_all add: path_json_def safe_path_json num_json_def)

lemma count_json: "count_of m (num_json n) = Inr n"
  by (simp add: count_of_Inr)

lemma permutation_json: "is_permutation perm \<Longrightarrow> assertPermutation (JArr (map num_json perm)) = Inr perm"
  by (simp only: assertPermutation_Inr)

lemma wire_args_verb [simp]:
  "wire_args (JStr ''r'') args = wire_r args" "wire_args (JStr ''s'') args = wire_s args"
  "wire_args (JStr ''d'') args = wire_d args" "wire_args (JStr ''a'') args = wire_a args"
  "wire_args (JStr ''t'') args = wire_t args" "wire_args (JStr ''p'') args = wire_p args"
  "wire_args (JStr ''m'') args = wire_m args" "wire_args (JStr ''#'') args = wire_define args"
  by (simp_all add: wire_args_def)

lemma valid_wire:
  assumes "op_ok oper" "\<And>ref. r = Some ref \<Longrightarrow> ref_ok ref"
  shows "assertValidWireOp (wire_json (with_path_ref oper r)) = Inr (with_path_ref oper r)"
  using assms
  by (cases oper; cases r)
    (simp_all add: ref_args_def with_ref_def ok_ref_json count_json permutation_json splice_of_def
      del: assertPermutation.simps)

lemma valid_define: "path_ok path \<Longrightarrow> assertValidWireOp (wire_json (WDefine i path)) = Inr (WDefine i path)"
  by (simp add: path_json_def safe_path_json)

lemma op_ok_path: "op_ok oper \<Longrightarrow> path_ok (op_path oper)"
  by (cases oper) auto

subsection \<open>The decoder follows the encoder\<close>

definition follows :: "encoder \<Rightarrow> decoder \<Rightarrow> bool" where
  "follows e paths \<longleftrightarrow>
     (\<forall>p i. map_of (en_ids e) p = Some i \<longrightarrow> i < en_next e \<and> map_of paths i = Some p)"

definition decoded :: "op list \<Rightarrow> (delta_error + op list) \<times> decoder \<Rightarrow> (delta_error + op list) \<times> decoder" where
  "decoded ops rest = (and_then (fst rest) (\<lambda>later. Inr (ops @ later)), snd rest)"

lemma decoded_Nil [simp]: "decoded [] rest = rest"
  by (cases "fst rest"; cases rest) (auto simp: decoded_def)

lemma decoded_decoded: "decoded [x] (decoded xs rest) = decoded (x # xs) rest"
  by (cases "fst rest") (simp_all add: decoded_def)

lemma decode_step:
  assumes "op_ok oper" "\<not> isReplace oper" "\<And>ref. r = Some ref \<Longrightarrow> ref_ok ref"
    and "resolve_ref previous paths r = Inr (op_path oper)"
  shows "decode_from previous (wire_json (with_path_ref oper r) # raws) paths
    = decoded [oper] (decode_from (Some (op_path oper)) raws paths)"
proof -
  have "assertValidWireOp (wire_json (with_path_ref oper r)) = Inr (with_path_ref oper r)"
    using assms(1,3) by (rule valid_wire)
  then show ?thesis using assms
    by (cases oper) (auto simp: decoded_def Let_def and_then_def split: prod.split)
qed

lemma decode_replace:
  "decode_from previous (wire_json (WReplace v) # raws) paths = decoded [OReplace v] (decode_from None raws [])"
  by (auto simp: decoded_def Let_def and_then_def split: prod.split)

lemma decode_define:
  "path_ok path \<Longrightarrow>
    decode_from previous (wire_json (WDefine i path) # raws) paths = decode_from previous raws ((i, path) # paths)"
  using valid_define[of path i] by simp

lemma follows_reset: "follows \<lparr>en_seen = [], en_ids = [], en_next = 0\<rparr> paths"
  by (simp add: follows_def)

lemma intern_step:
  assumes "follows e paths" "path_ok path"
    and "(case map_of (en_ids e) path of
            Some i \<Rightarrow> ([], PathId i, e)
          | None \<Rightarrow>
              if path \<in> set (en_seen e)
              then ([WDefine (en_next e) path], PathId (en_next e),
                    e\<lparr>en_next := en_next e + 1, en_ids := (path, en_next e) # en_ids e\<rparr>)
              else ([], Inline path, e\<lparr>en_seen := path # en_seen e\<rparr>)) = (defs, ref, e1)"
  shows "\<exists>paths1. follows e1 paths1 \<and> ref_ok ref \<and> resolve_ref pd paths1 (Some ref) = Inr path
    \<and> (\<forall>raws. decode_from pd (map wire_json defs @ raws) paths = decode_from pd raws paths1)"
proof -
  consider (known) i where "map_of (en_ids e) path = Some i" "defs = []" "ref = PathId i" "e1 = e"
    | (second) "map_of (en_ids e) path = None" "defs = [WDefine (en_next e) path]" "ref = PathId (en_next e)"
      "e1 = e\<lparr>en_next := en_next e + 1, en_ids := (path, en_next e) # en_ids e\<rparr>"
    | (first) "defs = []" "ref = Inline path" "e1 = e\<lparr>en_seen := path # en_seen e\<rparr>"
    using assms(3) by (auto split: option.splits if_splits)
  then show ?thesis
  proof cases
    case known
    then show ?thesis using assms(1) by (intro exI[of _ paths]) (auto simp: follows_def resolve_ref_def)
  next
    case second
    have "follows e1 ((en_next e, path) # paths)"
      using assms(1) second(4) by (auto simp: follows_def less_Suc_eq)
    then show ?thesis using second decode_define[OF assms(2)]
      by (intro exI[of _ "(en_next e, path) # paths"]) (simp add: resolve_ref_def)
  next
    case first
    then show ?thesis using assms(1,2) by (intro exI[of _ paths]) (auto simp: follows_def resolve_ref_def)
  qed
qed

lemma encode_decode:
  assumes "list_all op_ok ops" "follows e paths \<or> isBase ops" "pe = None \<or> pe = pd"
    and "encode_from pe ops e = (out, e')"
  shows "\<exists>pd' paths'. (follows e' paths' \<or> ops = [])
    \<and> decode_from pd (map wire_json out @ rest) paths = decoded ops (decode_from pd' rest paths')
    \<and> (ops = [] \<longrightarrow> paths' = paths)"
  using assms
proof (induction pe ops e arbitrary: out pd paths e' rule: encode_from.induct)
  case (1 previous e)
  then show ?case by (intro exI[of _ pd] exI[of _ paths]) simp
next
  case (2 previous oper ops e)
  show ?case
  proof (cases "isReplace oper")
    case True
    then obtain v where v: "oper = OReplace v" by (cases oper) auto
    let ?e = "\<lparr>en_seen = [], en_ids = [], en_next = 0\<rparr>"
    obtain out1 where o1: "encode_from None ops ?e = (out1, e')" "out = WReplace v # out1"
      using "2.prems"(4) v by (auto split: prod.splits)
    obtain pd' paths' where IH: "follows e' paths' \<or> ops = []"
      "decode_from None (map wire_json out1 @ rest) [] = decoded ops (decode_from pd' rest paths')"
      "ops = [] \<longrightarrow> paths' = []"
      using "2.IH"(1)[OF True _ _ _ o1(1), of "[]" None] "2.prems"(1) follows_reset by auto
    have "follows e' paths'"
    proof (cases "ops = []")
      case True
      then show ?thesis using o1(1) follows_reset by simp
    qed (use IH in blast)
    moreover have "decode_from pd (map wire_json out @ rest) paths = decoded (oper # ops) (decode_from pd' rest paths')"
      using IH(2) unfolding o1(2) v list.map append_Cons decode_replace by (simp add: decoded_decoded)
    ultimately show ?thesis by blast
  next
    case False
    then have f: "follows e paths" using "2.prems"(2) by (simp add: isBase_def)
    have ok: "op_ok oper" "list_all op_ok ops" using "2.prems"(1) by auto
    show ?thesis
    proof (cases "previous = Some (op_path oper)")
      case True
      then have pd: "pd = Some (op_path oper)" using "2.prems"(3) by auto
      obtain out1 where o1: "encode_from previous ops e = (out1, e')" "out = with_path_ref oper None # out1"
        using "2.prems"(4) True False by (auto split: prod.splits)
      obtain pd' paths' where IH: "follows e' paths' \<or> ops = []"
        "decode_from pd (map wire_json out1 @ rest) paths = decoded ops (decode_from pd' rest paths')"
        "ops = [] \<longrightarrow> paths' = paths"
        using "2.IH"(2)[OF False True ok(2) _ _ o1(1), of paths pd] f "2.prems"(3) by blast
      have "follows e' paths'"
        using IH(1,3) f o1(1) by (cases "ops = []") auto
      moreover have "resolve_ref pd paths None = Inr (op_path oper)" by (simp add: resolve_ref_def pd)
      from decode_step[OF ok(1) False _ this]
      have "decode_from pd (map wire_json out @ rest) paths = decoded [oper] (decode_from pd (map wire_json out1 @ rest) paths)"
        unfolding o1(2) using pd by simp
      ultimately show ?thesis using IH(2) by (auto simp: decoded_decoded)
    next
      case np: False
      define path where "path = op_path oper"
      have pok: "path_ok path" using op_ok_path[OF ok(1)] by (simp add: path_def)
      obtain defs ref e1 where d: "(case map_of (en_ids e) path of
            Some i \<Rightarrow> ([], PathId i, e)
          | None \<Rightarrow>
              if path \<in> set (en_seen e)
              then ([WDefine (en_next e) path], PathId (en_next e),
                    e\<lparr>en_next := en_next e + 1, en_ids := (path, en_next e) # en_ids e\<rparr>)
              else ([], Inline path, e\<lparr>en_seen := path # en_seen e\<rparr>)) = (defs, ref, e1)"
        by (metis prod_cases3)
      obtain out1 where o1: "encode_from (Some path) ops e1 = (out1, e')"
        "out = defs @ with_path_ref oper (Some ref) # out1"
        using "2.prems"(4) False np d[unfolded path_def] unfolding path_def
        by (auto simp: Let_def split: prod.splits)
      have step: "\<exists>paths1. follows e1 paths1 \<and> ref_ok ref \<and> resolve_ref pd paths1 (Some ref) = Inr path
          \<and> (\<forall>raws. decode_from pd (map wire_json defs @ raws) paths = decode_from pd raws paths1)"
        by (rule intern_step[OF f pok d])
      then obtain paths1 where s: "follows e1 paths1" "ref_ok ref" "resolve_ref pd paths1 (Some ref) = Inr path"
        "\<And>raws. decode_from pd (map wire_json defs @ raws) paths = decode_from pd raws paths1" by blast
      obtain pd' paths' where IH: "follows e' paths' \<or> ops = []"
        "decode_from (Some path) (map wire_json out1 @ rest) paths1 = decoded ops (decode_from pd' rest paths')"
        "ops = [] \<longrightarrow> paths' = paths1"
        using "2.IH"(3)[OF False np path_def d[symmetric] refl refl ok(2) _ _ o1(1), of paths1 "Some path"] s(1) by blast
      have "follows e' paths'"
        using IH(1,3) s(1) o1(1) by (cases "ops = []") auto
      moreover have "decode_from pd (map wire_json out @ rest) paths
          = decoded [oper] (decode_from (Some path) (map wire_json out1 @ rest) paths1)"
        unfolding o1(2) using s(4) decode_step[OF ok(1) False, of "Some ref" pd paths1] s(2,3) by (simp add: path_def)
      ultimately show ?thesis using IH(2) by (auto simp: decoded_decoded)
    qed
  qed
qed

subsection \<open>Streams of batches\<close>

text \<open>One encoder encodes batch after batch; one decoder decodes batch after batch.\<close>

fun encode_stream :: "op list list \<Rightarrow> encoder \<Rightarrow> json list list" where
  "encode_stream [] e = []"
| "encode_stream (ops # bs) e =
     (let (out, e') = encode ops e in map wire_json out # encode_stream bs e')"

fun decode_stream :: "json list list \<Rightarrow> decoder \<Rightarrow> (delta_error + op list) list" where
  "decode_stream [] paths = []"
| "decode_stream (raws # rs) paths =
     (let (r, paths') = decode raws paths in r # decode_stream rs paths')"

lemma stream_follows:
  assumes "list_all (list_all op_ok) bs" "follows e paths \<or> (bs \<noteq> [] \<and> isBase (hd bs))"
  shows "decode_stream (encode_stream bs e) paths = map Inr bs"
  using assms
proof (induction bs arbitrary: e paths)
  case (Cons ops bs)
  obtain out e' where o': "encode_from None ops e = (out, e')" by fastforce
  obtain pd' paths' where d: "follows e' paths' \<or> ops = []"
    "decode_from None (map wire_json out @ []) paths = decoded ops (decode_from pd' [] paths')"
    "ops = [] \<longrightarrow> paths' = paths"
    using encode_decode[OF _ _ _ o', of paths None "[]"] Cons.prems by auto
  have "follows e' paths'"
  proof (cases "ops = []")
    case True
    then show ?thesis using d(3) o' Cons.prems(2) by (simp add: isBase_def)
  qed (use d(1) in blast)
  then show ?case using Cons.IH[of e' paths'] Cons.prems(1) o' d(2) by (simp add: encode_def decode_def decoded_def)
qed simp

lemma encode_stream_drop: "\<exists>e'. drop k (encode_stream bs e) = encode_stream (drop k bs) e'"
proof (induction k arbitrary: bs e)
  case (Suc k)
  then show ?case by (cases bs) (auto simp: case_prod_unfold Let_def)
qed auto

text \<open>
  C7: the codec is a round trip with recovery. Any sequence of batches of valid operations, encoded by
  one encoder in whatever state, decodes to the same operations batch by batch, by a decoder in
  whatever state that starts at any batch that begins with a replacement: path ids, short forms and
  definitions never leak from before such a base.
\<close>

theorem codec_recovers:
  assumes "list_all (list_all op_ok) bs" "k < length bs" "isBase (bs ! k)"
  shows "decode_stream (drop k (encode_stream bs e)) paths = map Inr (drop k bs)"
proof -
  obtain e' where e': "drop k (encode_stream bs e) = encode_stream (drop k bs) e'"
    using encode_stream_drop by blast
  have "list_all (list_all op_ok) (drop k bs)"
    using assms(1) by (meson in_set_dropD list_all_iff)
  then show ?thesis unfolding e'
    using assms(2,3) by (intro stream_follows) (auto simp: hd_drop_conv_nth)
qed

definition counter_batches :: "op list list" where
  "counter_batches =
     [[OSet [SKey ''log'', SIdx 0] (JNum 1), OSet [SKey ''log'', SIdx 0] (JNum 2)],
      [OReplace (JObj [(''log'', JArr [JNum 3])]), OAppend [SKey ''t''] ''x'', ODelete [SKey ''log'']],
      [OSplice [SKey ''log''] 0 1 [], OAppend [SKey ''t''] ''y'']]"

theorem codec_recovers_witness:
  "decode_stream (drop 1 (encode_stream counter_batches encoder_start)) [] = map Inr (drop 1 counter_batches)"
  by (rule codec_recovers) (simp_all add: counter_batches_def isBase_def RESERVED_SEGMENTS_def)

lemma concat_follows:
  assumes "list_all (list_all op_ok) bs" "follows e paths" "pe = None"
  shows "\<exists>pd' paths'. decode_from pd (concat (encode_stream bs e)) paths = (Inr (concat bs), paths')"
  using assms
proof (induction bs arbitrary: e paths pd)
  case (Cons ops bs)
  obtain out e' where o': "encode_from None ops e = (out, e')" by fastforce
  obtain pd' paths' where d: "follows e' paths' \<or> ops = []"
    "decode_from pd (map wire_json out @ concat (encode_stream bs e')) paths
       = decoded ops (decode_from pd' (concat (encode_stream bs e')) paths')"
    "ops = [] \<longrightarrow> paths' = paths"
    using encode_decode[OF _ _ _ o', of paths pd "concat (encode_stream bs e')"] Cons.prems by auto
  have "follows e' paths'"
  proof (cases "ops = []")
    case True
    then show ?thesis using d(3) o' Cons.prems(2) by simp
  qed (use d(1) in blast)
  then obtain paths2 where "decode_from pd' (concat (encode_stream bs e')) paths' = (Inr (concat bs), paths2)"
    using Cons.IH[of e' paths' pd'] Cons.prems by auto
  then show ?case using d(2) o' by (simp add: encode_def decoded_def)
qed auto

text \<open>
  Consecutive batches of one encoder may be concatenated: a decoder that receives the encodings of
  any sequence of batches as one batch decodes it to the concatenation of their operations.
\<close>

theorem codec_coalesces:
  assumes "list_all (list_all op_ok) bs"
  shows "fst (decode (concat (encode_stream bs encoder_start)) []) = Inr (concat bs)"
  using concat_follows[OF assms, of encoder_start "[]" None None]
  by (auto simp: decode_def encoder_start_def follows_reset)

theorem codec_coalesces_witness:
  "fst (decode (concat (encode_stream counter_batches encoder_start)) []) = Inr (concat counter_batches)"
  by (rule codec_coalesces) (simp add: counter_batches_def RESERVED_SEGMENTS_def)

end
