(* ===== verification/Delta_Diff.thy ===== *)
theory Delta_Diff
  imports Delta_Edit
begin

text \<open>
  The difference of two immutable revisions, \<^verbatim>\<open>packages/chord/src/delta/diff.ts\<close>. Revisions share
  containers, and the source compares containers by identity: an array or object of a revision
  carries the identity of its JavaScript object, so that \<open>===\<close> is \<open>same\<close> below. A \<open>Map\<close> keyed by
  values is an association list looked up by \<open>same\<close>. The batch under construction is its operations
  and whether it overflowed (membership in \<open>overflowedBatches\<close>). The recursion over values and array
  regions runs on fuel; \<open>None\<close> is out of fuel, which \<open>diffRevisions\<close> never is.
\<close>

subsection \<open>Revisions\<close>

datatype rev =
    VNull
  | VBool bool
  | VNum rat
  | VStr string
  | VArr nat "rev list"
  | VObj nat "(string \<times> rev) list"

fun erase :: "rev \<Rightarrow> json" where
  "erase VNull = JNull"
| "erase (VBool b) = JBool b"
| "erase (VNum q) = JNum q"
| "erase (VStr t) = JStr t"
| "erase (VArr _ xs) = JArr (map erase xs)"
| "erase (VObj _ al) = JObj (map (\<lambda>(k, v). (k, erase v)) al)"

fun same :: "rev \<Rightarrow> rev \<Rightarrow> bool" where
  "same VNull VNull = True"
| "same (VBool a) (VBool b) = (a = b)"
| "same (VNum a) (VNum b) = (a = b)"
| "same (VStr a) (VStr b) = (a = b)"
| "same (VArr i _) (VArr j _) = (i = j)"
| "same (VObj i _) (VObj j _) = (i = j)"
| "same _ _ = False"

fun isContainer :: "rev \<Rightarrow> bool" where
  "isContainer (VArr _ _) = True"
| "isContainer (VObj _ _) = True"
| "isContainer _ = False"

fun equalJson :: "rev \<Rightarrow> rev \<Rightarrow> bool"
  and equal_elems :: "rev list \<Rightarrow> rev list \<Rightarrow> bool"
  and equal_props :: "(string \<times> rev) list \<Rightarrow> (string \<times> rev) list \<Rightarrow> bool" where
  "equalJson (VArr i xs) right =
     (same (VArr i xs) right \<or>
      (case right of VArr _ ys \<Rightarrow> length xs = length ys \<and> equal_elems xs ys | _ \<Rightarrow> False))"
| "equalJson (VObj i al) right =
     (same (VObj i al) right \<or>
      (case right of VObj _ bl \<Rightarrow> length al = length bl \<and> equal_props al bl | _ \<Rightarrow> False))"
| "equalJson left right = same left right"
| "equal_elems (x # xs) (y # ys) = (equalJson x y \<and> equal_elems xs ys)"
| "equal_elems _ _ = True"
| "equal_props [] bl = True"
| "equal_props ((k, v) # al) bl =
     ((case map_of bl k of None \<Rightarrow> False | Some w \<Rightarrow> equalJson v w) \<and> equal_props al bl)"

definition sameValue :: "rev \<Rightarrow> rev \<Rightarrow> bool" where
  "sameValue left right \<longleftrightarrow> same left right \<or> equalJson left right"

subsection \<open>The batch under construction\<close>

type_synonym batch = "op list \<times> bool"

definition DEFAULT_OVERLAP_SCAN :: nat where "DEFAULT_OVERLAP_SCAN = 65536"
definition MAX_DELTA_OPERATIONS :: nat where "MAX_DELTA_OPERATIONS = 4096"
definition MAX_IDENTITY_CANDIDATES :: nat where "MAX_IDENTITY_CANDIDATES = 200000"
definition MAX_SEMANTIC_CELLS :: nat where "MAX_SEMANTIC_CELLS = 65536"

fun emitOperation :: "op \<Rightarrow> batch \<Rightarrow> batch" where
  "emitOperation oper (ops, overflowed) =
     (if overflowed then (ops, overflowed)
      else if length ops \<ge> MAX_DELTA_OPERATIONS then (ops, True)
      else (ops @ [oper], False))"

definition emitSet :: "path \<Rightarrow> json \<Rightarrow> batch \<Rightarrow> batch" where
  "emitSet path v st = (if path = [] then emitOperation (OReplace v) st else emitOperation (OSet path v) st)"

definition emitString :: "string \<Rightarrow> string \<Rightarrow> path \<Rightarrow> batch \<Rightarrow> batch" where
  "emitString before after path st =
     (if before = after then st
      else if length after > length before \<and> take (length before) after = before then
        emitOperation (OAppend path (drop (length before) after)) st
      else
        (let shared = overlap before after DEFAULT_OVERLAP_SCAN 64 8 in
         if shared = 0 then emitOperation (OSet path (JStr after)) st
         else
           (let st' = emitOperation (OTruncate path (length before - shared)) st in
            if length after > shared then emitOperation (OAppend path (drop shared after)) st' else st')))"

subsection \<open>Permutations\<close>

text \<open>A \<open>Map\<close> keyed by values: \<open>get\<close>, and \<open>set\<close> or an update in place of the value of a key.\<close>

fun same_get :: "(rev \<times> 'v) list \<Rightarrow> rev \<Rightarrow> 'v option" where
  "same_get [] v = None"
| "same_get ((u, x) # m) v = (if same u v then Some x else same_get m v)"

fun same_set :: "rev \<Rightarrow> 'v \<Rightarrow> (rev \<times> 'v) list \<Rightarrow> (rev \<times> 'v) list" where
  "same_set v x [] = [(v, x)]"
| "same_set v x ((u, y) # m) = (if same u v then (u, x) # m else (u, y) # same_set v x m)"

text \<open>The indices of every value in \<open>xs\<close>, which starts at index \<open>i\<close>.\<close>

fun index_positions :: "nat \<Rightarrow> rev list \<Rightarrow> (rev \<times> nat list) list \<Rightarrow> (rev \<times> nat list) list" where
  "index_positions i [] m = m"
| "index_positions i (x # xs) m =
     index_positions (i + 1) xs
       (same_set x ((case same_get m x of None \<Rightarrow> [] | Some is \<Rightarrow> is) @ [i]) m)"

text \<open>Each value of the new array takes the next unused index of its value in the old one. An entry
  holds its indices and how many are used.\<close>

fun take_positions :: "rev list \<Rightarrow> (rev \<times> nat list \<times> nat) list \<Rightarrow> nat list option" where
  "take_positions [] m = Some []"
| "take_positions (y # ys) m =
     (case same_get m y of
        None \<Rightarrow> None
      | Some (indices, used) \<Rightarrow>
          if used = length indices then None
          else map_option ((#) (indices ! used)) (take_positions ys (same_set y (indices, used + 1) m)))"

definition permutation :: "rev list \<Rightarrow> rev list \<Rightarrow> nat list option" where
  "permutation before after =
     (if length before \<noteq> length after then None
      else take_positions after (map (\<lambda>(v, is). (v, is, 0)) (index_positions 0 before [])))"

subsection \<open>Matches of two array regions\<close>

text \<open>The semantic alignment of two elements: equal, or containers of one kind that share a child.\<close>

definition semanticallyAligned :: "rev \<Rightarrow> rev \<Rightarrow> bool" where
  "semanticallyAligned left right \<longleftrightarrow>
     sameValue left right \<or>
     (case (left, right) of
        (VArr _ xs, VArr _ ys) \<Rightarrow>
          length xs = length ys \<and> list_ex (\<lambda>(x, y). isContainer x \<and> same x y) (zip xs ys)
      | (VObj _ al, VObj _ bl) \<Rightarrow>
          list_ex (\<lambda>(k, v). isContainer v \<and> (case map_of bl k of None \<Rightarrow> False | Some w \<Rightarrow> same v w)) al
      | _ \<Rightarrow> False)"

text \<open>The table of \<open>lcsMatches\<close>, a row per index of the old array, from the last row up and each row
  from its last cell back.\<close>

fun lcs_row :: "(rev \<Rightarrow> rev \<Rightarrow> bool) \<Rightarrow> rev \<Rightarrow> rev list \<Rightarrow> nat list \<Rightarrow> nat list" where
  "lcs_row eq x [] below = [0]"
| "lcs_row eq x (y # ys) below =
     (let rest = lcs_row eq x ys (tl below)
      in (if eq x y then hd (tl below) + 1 else max (hd below) (hd rest)) # rest)"

fun lcs_table :: "(rev \<Rightarrow> rev \<Rightarrow> bool) \<Rightarrow> rev list \<Rightarrow> rev list \<Rightarrow> nat list list" where
  "lcs_table eq [] after = [replicate (length after + 1) 0]"
| "lcs_table eq (x # xs) after =
     (let t = lcs_table eq xs after in lcs_row eq x after (hd t) # t)"

function lcs_walk :: "(rev \<Rightarrow> rev \<Rightarrow> bool) \<Rightarrow> rev list \<Rightarrow> rev list \<Rightarrow> nat list list
    \<Rightarrow> nat \<Rightarrow> nat \<Rightarrow> (nat \<times> nat) list" where
  "lcs_walk eq before after lengths left right =
     (if left < length before \<and> right < length after then
        if eq (before ! left) (after ! right)
           \<and> lengths ! left ! right = lengths ! (left + 1) ! (right + 1) + 1
        then (left, right) # lcs_walk eq before after lengths (left + 1) (right + 1)
        else if lengths ! (left + 1) ! right \<ge> lengths ! left ! (right + 1)
        then lcs_walk eq before after lengths (left + 1) right
        else lcs_walk eq before after lengths left (right + 1)
      else [])"
  by pat_completeness auto
termination
  by (relation "measure (\<lambda>(_, before, after, _, left, right). (length before - left) + (length after - right))") auto

declare lcs_walk.simps [simp del]

definition lcsMatches :: "rev list \<Rightarrow> rev list \<Rightarrow> (rev \<Rightarrow> rev \<Rightarrow> bool) \<Rightarrow> nat \<Rightarrow> (nat \<times> nat) list option" where
  "lcsMatches before after eq maxCells =
     (if before = [] \<or> after = [] then Some []
      else if length before * length after > maxCells then None
      else Some (lcs_walk eq before after (lcs_table eq before after) 0 0))"

function lower_bound_from :: "nat list \<Rightarrow> nat \<Rightarrow> nat \<Rightarrow> nat \<Rightarrow> nat" where
  "lower_bound_from values v low high =
     (if low < high then
        (let middle = (low + high) div 2 in
         if values ! middle < v then lower_bound_from values v (middle + 1) high
         else lower_bound_from values v low middle)
      else low)"
  by pat_completeness auto
termination
  by (relation "measure (\<lambda>(_, _, low, high). high - low)") auto

declare lower_bound_from.simps [simp del]

definition lowerBound :: "nat list \<Rightarrow> nat \<Rightarrow> nat" where
  "lowerBound values v = lower_bound_from values v 0 (length values)"

text \<open>Every index of \<open>js\<close>, in order, with the first index of the other range that matches it and
  comes after the one before.\<close>

fun match_each :: "(nat \<Rightarrow> nat \<Rightarrow> bool) \<Rightarrow> nat \<Rightarrow> nat \<Rightarrow> nat list \<Rightarrow> (nat \<times> nat) list option" where
  "match_each eq i stop [] = Some []"
| "match_each eq i stop (j # js) =
     (case find (\<lambda>k. eq k j) [i..<stop] of
        None \<Rightarrow> None
      | Some k \<Rightarrow> map_option ((#) (k, j)) (match_each eq (k + 1) stop js))"

definition identitySubsequence :: "rev list \<Rightarrow> nat \<Rightarrow> nat \<Rightarrow> rev list \<Rightarrow> nat \<Rightarrow> nat \<Rightarrow> (nat \<times> nat) list option" where
  "identitySubsequence before beforeStart beforeEnd after afterStart afterEnd =
     (let beforeCount = beforeEnd - beforeStart; afterCount = afterEnd - afterStart in
      if afterCount < beforeCount then
        match_each (\<lambda>k j. same (before ! k) (after ! j)) beforeStart beforeEnd [afterStart..<afterEnd]
      else if beforeCount < afterCount then
        map_option (map prod.swap)
          (match_each (\<lambda>k j. same (before ! j) (after ! k)) afterStart afterEnd [beforeStart..<beforeEnd])
      else None)"

text \<open>\<open>from\<close> is \<open>previous + 1\<close>.\<close>

fun greedy_anchors :: "(rev \<times> nat list) list \<Rightarrow> rev list \<Rightarrow> nat \<Rightarrow> nat list \<Rightarrow> (nat \<times> nat) list" where
  "greedy_anchors positions after i [] = []"
| "greedy_anchors positions after i (j # js) =
     (case same_get positions (after ! j) of
        None \<Rightarrow> greedy_anchors positions after i js
      | Some candidates \<Rightarrow>
          (let slot = lowerBound candidates i in
           if slot < length candidates
           then (candidates ! slot, j) # greedy_anchors positions after (candidates ! slot + 1) js
           else greedy_anchors positions after i js))"

definition greedyIdentityAnchors :: "(rev \<times> nat list) list \<Rightarrow> rev list \<Rightarrow> nat \<Rightarrow> nat \<Rightarrow> (nat \<times> nat) list" where
  "greedyIdentityAnchors positions after afterStart afterEnd =
     greedy_anchors positions after 0 [afterStart..<afterEnd]"

text \<open>Candidates (old index, new index, previous candidate), and per length of an increasing chain
  its last candidate and that candidate's old index.\<close>

record chains =
  ch_candidates :: "(nat \<times> nat \<times> nat option) list"
  ch_tails :: "nat list"
  ch_tailValues :: "nat list"

definition set_index :: "nat \<Rightarrow> 'a \<Rightarrow> 'a list \<Rightarrow> 'a list" where
  "set_index i x xs = (if i < length xs then xs[i := x] else xs @ [x])"

definition add_candidate :: "nat \<Rightarrow> nat \<Rightarrow> chains \<Rightarrow> chains" where
  "add_candidate afterIndex beforeIndex c =
     (let slot = lowerBound (ch_tailValues c) beforeIndex;
          candidateIndex = length (ch_candidates c);
          previous = (if slot = 0 then None else Some (ch_tails c ! (slot - 1)))
      in \<lparr>ch_candidates = ch_candidates c @ [(beforeIndex, afterIndex, previous)],
          ch_tails = set_index slot candidateIndex (ch_tails c),
          ch_tailValues = set_index slot beforeIndex (ch_tailValues c)\<rparr>)"

definition add_candidates :: "(rev \<times> nat list) list \<Rightarrow> rev list \<Rightarrow> nat \<Rightarrow> chains \<Rightarrow> chains" where
  "add_candidates positions after afterIndex c =
     (case same_get positions (after ! afterIndex) of
        None \<Rightarrow> c
      | Some beforePositions \<Rightarrow> fold (add_candidate afterIndex) (rev beforePositions) c)"

text \<open>The chain that ends in a candidate, pushed and reversed. A previous candidate has a smaller
  index, so as many steps as there are candidates are enough.\<close>

fun follow :: "nat \<Rightarrow> (nat \<times> nat \<times> nat option) list \<Rightarrow> nat option \<Rightarrow> (nat \<times> nat) list" where
  "follow steps cs None = []"
| "follow 0 cs (Some i) = []"
| "follow (Suc steps) cs (Some i) = (let (b, a, previous) = cs ! i in follow steps cs previous @ [(b, a)])"

definition longest_chain :: "chains \<Rightarrow> (nat \<times> nat) list" where
  "longest_chain c =
     follow (length (ch_candidates c)) (ch_candidates c)
       (if ch_tails c = [] then None else Some (last (ch_tails c)))"

fun count_candidates :: "(rev \<times> nat list) list \<Rightarrow> rev list \<Rightarrow> nat list \<Rightarrow> nat \<Rightarrow> nat option" where
  "count_candidates positions after [] count = Some count"
| "count_candidates positions after (j # js) count =
     (let count' = count + (case same_get positions (after ! j) of None \<Rightarrow> 0 | Some is \<Rightarrow> length is)
      in if count' > MAX_IDENTITY_CANDIDATES then None
         else count_candidates positions after js count')"

definition identityAnchors :: "rev list \<Rightarrow> nat \<Rightarrow> nat \<Rightarrow> rev list \<Rightarrow> nat \<Rightarrow> nat \<Rightarrow> (nat \<times> nat) list" where
  "identityAnchors before beforeStart beforeEnd after afterStart afterEnd =
     (let positions = index_positions beforeStart (take (beforeEnd - beforeStart) (drop beforeStart before)) []
      in case count_candidates positions after [afterStart..<afterEnd] 0 of
           None \<Rightarrow> greedyIdentityAnchors positions after afterStart afterEnd
         | Some count \<Rightarrow>
             if count = 0 then []
             else longest_chain
                    (fold (add_candidates positions after) [afterStart..<afterEnd]
                      \<lparr>ch_candidates = [], ch_tails = [], ch_tailValues = []\<rparr>))"

subsection \<open>Array regions, objects and values\<close>

function trim_front :: "rev list \<Rightarrow> rev list \<Rightarrow> nat \<Rightarrow> nat \<Rightarrow> nat \<Rightarrow> nat \<Rightarrow> nat \<times> nat" where
  "trim_front before after beforeStart beforeEnd afterStart afterEnd =
     (if beforeStart < beforeEnd \<and> afterStart < afterEnd
         \<and> sameValue (before ! beforeStart) (after ! afterStart)
      then trim_front before after (beforeStart + 1) beforeEnd (afterStart + 1) afterEnd
      else (beforeStart, afterStart))"
  by pat_completeness auto
termination
  by (relation "measure (\<lambda>(_, _, beforeStart, beforeEnd, _). beforeEnd - beforeStart)") auto

declare trim_front.simps [simp del]

function trim_back :: "rev list \<Rightarrow> rev list \<Rightarrow> nat \<Rightarrow> nat \<Rightarrow> nat \<Rightarrow> nat \<Rightarrow> nat \<times> nat" where
  "trim_back before after beforeStart beforeEnd afterStart afterEnd =
     (if beforeStart < beforeEnd \<and> afterStart < afterEnd
         \<and> sameValue (before ! (beforeEnd - 1)) (after ! (afterEnd - 1))
      then trim_back before after beforeStart (beforeEnd - 1) afterStart (afterEnd - 1)
      else (beforeEnd, afterEnd))"
  by pat_completeness auto
termination
  by (relation "measure (\<lambda>(_, _, beforeStart, beforeEnd, _). beforeEnd - beforeStart)") auto

declare trim_back.simps [simp del]

definition slice :: "nat \<Rightarrow> nat \<Rightarrow> 'a list \<Rightarrow> 'a list" where
  "slice i j xs = take (j - i) (drop i xs)"

definition positional :: "rev list \<Rightarrow> rev list \<Rightarrow> nat \<Rightarrow> nat \<Rightarrow> nat \<Rightarrow> (nat \<times> nat) list" where
  "positional before after beforeStart afterStart count =
     map (\<lambda>offset. (beforeStart + offset, afterStart + offset))
       (filter (\<lambda>offset. sameValue (before ! (beforeStart + offset)) (after ! (afterStart + offset))) [0..<count])"

text \<open>The anchors of a region, from the first kind that finds any: equal positions, a subsequence of
  identical elements, an increasing chain of identical elements, a semantic alignment.\<close>

definition region_matches :: "rev list \<Rightarrow> rev list \<Rightarrow> nat \<Rightarrow> nat \<Rightarrow> nat \<Rightarrow> nat \<Rightarrow> (nat \<times> nat) list" where
  "region_matches before after beforeStart beforeEnd afterStart afterEnd =
     (let beforeCount = beforeEnd - beforeStart; afterCount = afterEnd - afterStart;
          pos = (if beforeCount = afterCount then positional before after beforeStart afterStart beforeCount else [])
      in if pos \<noteq> [] then pos
         else case identitySubsequence before beforeStart beforeEnd after afterStart afterEnd of
           Some (m # ms) \<Rightarrow> m # ms
         | _ \<Rightarrow>
           (case identityAnchors before beforeStart beforeEnd after afterStart afterEnd of
              m # ms \<Rightarrow> m # ms
            | [] \<Rightarrow>
              (case lcsMatches (slice beforeStart beforeEnd before) (slice afterStart afterEnd after)
                      semanticallyAligned MAX_SEMANTIC_CELLS of
                 Some (m # ms) \<Rightarrow> map (\<lambda>(i, j). (beforeStart + i, afterStart + j)) (m # ms)
               | _ \<Rightarrow> [])))"

fun delete_keys :: "(string \<times> rev) list \<Rightarrow> path \<Rightarrow> string list \<Rightarrow> batch \<Rightarrow> batch" where
  "delete_keys al path [] st = st"
| "delete_keys al path (k # ks) st =
     (if snd st then st
      else if map_of al k = None then delete_keys al path ks (emitOperation (ODelete (path @ [SKey k])) st)
      else delete_keys al path ks st)"

function (sequential) diffValue :: "nat \<Rightarrow> rev \<Rightarrow> rev \<Rightarrow> path \<Rightarrow> batch \<Rightarrow> batch option"
  and diffArrayRegion :: "nat \<Rightarrow> rev list \<Rightarrow> rev list \<Rightarrow> path \<Rightarrow> nat \<Rightarrow> nat \<Rightarrow> nat \<Rightarrow> nat \<Rightarrow> nat \<Rightarrow> batch \<Rightarrow> batch option"
  and processArrayMatches :: "nat \<Rightarrow> rev list \<Rightarrow> rev list \<Rightarrow> path \<Rightarrow> nat \<Rightarrow> nat \<Rightarrow> nat \<Rightarrow> nat \<Rightarrow> nat
      \<Rightarrow> (nat \<times> nat) list \<Rightarrow> batch \<Rightarrow> batch option"
  and diffKeys :: "nat \<Rightarrow> (string \<times> rev) list \<Rightarrow> path \<Rightarrow> (string \<times> rev) list \<Rightarrow> batch \<Rightarrow> batch option"
where
  "diffValue 0 before after path st = None"
| "diffValue (Suc n) before after path st =
     (if same before after \<or> snd st then Some st
      else case (before, after) of
        (VStr b, VStr a) \<Rightarrow>
          Some (if path \<noteq> [] then emitString b a path st else emitSet path (erase after) st)
      | (VArr _ xs, VArr _ ys) \<Rightarrow>
          (if equalJson before after then Some st
           else if length xs = length ys \<and> length xs > 1
             \<and> \<not> sameValue (hd xs) (hd ys) \<and> \<not> sameValue (last xs) (last ys)
             \<and> permutation xs ys \<noteq> None
           then Some (emitOperation (OPermute path (the (permutation xs ys))) st)
           else diffArrayRegion n xs ys path 0 (length xs) 0 (length ys) 0 st)
      | (VObj _ al, VObj _ bl) \<Rightarrow>
          (if list_ex (\<lambda>k. k \<in> set RESERVED_SEGMENTS) (map fst al @ map fst bl) then
             Some (if \<not> equalJson before after then emitSet path (erase after) st else st)
           else case diffKeys n al path bl st of
             None \<Rightarrow> None
           | Some st' \<Rightarrow> Some (delete_keys bl path (map fst al) st'))
      | _ \<Rightarrow> Some (emitSet path (erase after) st))"
| "diffArrayRegion 0 before after path beforeStart beforeEnd afterStart afterEnd outputStart st = None"
| "diffArrayRegion (Suc n) before after path beforeStart0 beforeEnd0 afterStart0 afterEnd0 outputStart0 st =
     (if snd st then Some st
      else
        (let (beforeStart, afterStart) = trim_front before after beforeStart0 beforeEnd0 afterStart0 afterEnd0;
             outputStart = outputStart0 + (beforeStart - beforeStart0);
             (beforeEnd, afterEnd) = trim_back before after beforeStart beforeEnd0 afterStart afterEnd0;
             beforeCount = beforeEnd - beforeStart;
             afterCount = afterEnd - afterStart;
             splice = OSplice path outputStart beforeCount (map erase (slice afterStart afterEnd after))
         in if beforeCount = 0 \<and> afterCount = 0 then Some st
            else if beforeCount = 0 \<or> afterCount = 0 then Some (emitOperation splice st)
            else case region_matches before after beforeStart beforeEnd afterStart afterEnd of
              m # ms \<Rightarrow>
                processArrayMatches n before after path beforeStart beforeEnd afterStart afterEnd outputStart (m # ms) st
            | [] \<Rightarrow>
                if beforeCount = 1 \<and> afterCount = 1
                then diffValue n (before ! beforeStart) (after ! afterStart) (path @ [SIdx outputStart]) st
                else Some (emitOperation splice st)))"
| "processArrayMatches n before after path beforeAt beforeEnd afterAt afterEnd outputAt [] st =
     (if snd st then Some st
      else diffArrayRegion n before after path beforeAt beforeEnd afterAt afterEnd outputAt st)"
| "processArrayMatches n before after path beforeAt beforeEnd afterAt afterEnd outputAt ((bm, am) # ms) st =
     (if snd st then Some st
      else case diffArrayRegion n before after path beforeAt bm afterAt am outputAt st of
        None \<Rightarrow> None
      | Some st1 \<Rightarrow>
          (let out = outputAt + (am - afterAt) in
           case (if \<not> sameValue (before ! bm) (after ! am)
                 then diffValue n (before ! bm) (after ! am) (path @ [SIdx out]) st1
                 else Some st1) of
             None \<Rightarrow> None
           | Some st2 \<Rightarrow>
               processArrayMatches n before after path (bm + 1) beforeEnd (am + 1) afterEnd (out + 1) ms st2))"
| "diffKeys n al path [] st = Some st"
| "diffKeys n al path ((k, a) # bl) st =
     (if snd st then Some st
      else case (case map_of al k of
                   Some b \<Rightarrow> diffValue n b a (path @ [SKey k]) st
                 | None \<Rightarrow> Some (emitSet (path @ [SKey k]) (erase a) st)) of
        None \<Rightarrow> None
      | Some st' \<Rightarrow> diffKeys n al path bl st')"
  by pat_completeness auto
termination
  by (relation "inv_image (less_than <*lex*> less_than <*lex*> less_than)
      (\<lambda>x. case x of
          Inl (Inl (n, _)) \<Rightarrow> (n, 0, 0)
        | Inl (Inr (n, _)) \<Rightarrow> (n, 0, 0)
        | Inr (Inl (n, _, _, _, _, _, _, _, _, ms, _)) \<Rightarrow> (n, 1, length ms)
        | Inr (Inr (n, _, _, bl, _)) \<Rightarrow> (n, 1, length bl))") auto

subsection \<open>Costs and the difference\<close>

text \<open>\<open>String(value).length\<close> of a number, a parameter for numbers that are not small naturals.\<close>

fun jsonCost :: "(rat \<Rightarrow> nat) \<Rightarrow> json \<Rightarrow> nat" where
  "jsonCost num_len JNull = 4"
| "jsonCost num_len (JStr t) = length t + 2"
| "jsonCost num_len (JNum q) = num_len q"
| "jsonCost num_len (JBool b) = (if b then 4 else 5)"
| "jsonCost num_len (JArr xs) = 2 + sum_list (map (jsonCost num_len) xs) + (length xs - 1)"
| "jsonCost num_len (JObj al) =
     2 + sum_list (map (\<lambda>(k, v). length k + 3 + jsonCost num_len v) al) + (length al - 1)"

fun segCost :: "seg \<Rightarrow> nat" where
  "segCost (SKey k) = length k + 2"
| "segCost (SIdx i) = length (nat_text i)"

definition pathCost :: "path \<Rightarrow> nat" where
  "pathCost path = 2 + sum_list (map segCost path) + (length path - 1)"

fun operationCost :: "(rat \<Rightarrow> nat) \<Rightarrow> op \<Rightarrow> nat" where
  "operationCost num_len (OReplace v) = 6 + jsonCost num_len v"
| "operationCost num_len (OSet path v) = 7 + pathCost path + jsonCost num_len v"
| "operationCost num_len (ODelete path) = 6 + pathCost path"
| "operationCost num_len (OAppend path t) = 7 + pathCost path + length t + 2"
| "operationCost num_len (OTruncate path n) = 7 + pathCost path + length (nat_text n)"
| "operationCost num_len (OSplice path i r items) =
     10 + pathCost path + length (nat_text i) + length (nat_text r) + jsonCost num_len (JArr items)"
| "operationCost num_len (OPermute path perm) =
     7 + pathCost path + jsonCost num_len (JArr (map num_json perm))"

text \<open>The fuel is the size of both revisions.\<close>

definition diffRevisions :: "(rat \<Rightarrow> nat) \<Rightarrow> rev \<Rightarrow> rev \<Rightarrow> op list option" where
  "diffRevisions num_len before after =
     (case diffValue (Suc (size before + size after)) before after [] ([], False) of
        None \<Rightarrow> None
      | Some (operations, overflowed) \<Rightarrow>
          Some (if overflowed then [OReplace (erase after)]
                else if operations = [] \<or> isReplace (hd operations) then operations
                else
                  (let deltaCost = 2 + sum_list (map (\<lambda>oper. operationCost num_len oper + 1) operations) in
                   if deltaCost < 65536 then operations
                   else if deltaCost \<ge> jsonCost num_len (erase after) + 6 then [OReplace (erase after)]
                   else operations)))"

end
