(* ===== verification/Delta_Matches.thy ===== *)
theory Delta_Matches
  imports Delta_Diff "HOL-Library.Multiset"
begin

text \<open>
  The anchors \<^verbatim>\<open>diff.ts\<close> finds between two array regions are increasing in both arrays and lie in
  the regions, whichever search finds them, and a permutation it finds is one.
\<close>

subsection \<open>Identity\<close>

lemma same_refl [simp]: "same v v"
  by (cases v) auto

lemma same_sym: "same u v \<Longrightarrow> same v u"
  by (cases u; cases v) auto

lemma same_trans: "same u v \<Longrightarrow> same v w \<Longrightarrow> same u w"
  by (cases u; cases v; cases w) auto

lemma same_cong: "same u v \<Longrightarrow> same u w \<longleftrightarrow> same v w"
  using same_sym same_trans by blast

subsection \<open>Increasing matches\<close>

definition before_pair :: "nat \<times> nat \<Rightarrow> nat \<times> nat \<Rightarrow> bool" where
  "before_pair p q \<longleftrightarrow> fst p < fst q \<and> snd p < snd q"

definition matches_in :: "nat \<Rightarrow> nat \<Rightarrow> nat \<Rightarrow> nat \<Rightarrow> (nat \<times> nat) list \<Rightarrow> bool" where
  "matches_in i i' j j' ms \<longleftrightarrow>
     sorted_wrt before_pair ms \<and> (\<forall>(b, a) \<in> set ms. i \<le> b \<and> b < i' \<and> j \<le> a \<and> a < j')"

lemma matches_in_Nil [simp]: "matches_in i i' j j' []"
  by (simp add: matches_in_def)

lemma matches_in_Cons:
  "matches_in i i' j j' ((b, a) # ms) \<longleftrightarrow>
     i \<le> b \<and> b < i' \<and> j \<le> a \<and> a < j' \<and> matches_in (b + 1) i' (a + 1) j' ms"
  by (fastforce simp: matches_in_def before_pair_def)

lemma matches_in_mono: "matches_in i i' j j' ms \<Longrightarrow> k \<le> i \<Longrightarrow> l \<le> j \<Longrightarrow> matches_in k i' l j' ms"
  by (fastforce simp: matches_in_def)

lemma matches_in_swap: "matches_in i i' j j' ms \<Longrightarrow> matches_in j j' i i' (map prod.swap ms)"
proof (induction ms arbitrary: i j)
  case (Cons m ms)
  then show ?case by (cases m) (simp add: matches_in_Cons)
qed simp

lemma matches_in_shift:
  "matches_in i i' j j' ms \<Longrightarrow> matches_in (k + i) (k + i') (l + j) (l + j') (map (\<lambda>(b, a). (k + b, l + a)) ms)"
proof (induction ms arbitrary: i j)
  case (Cons m ms)
  then show ?case using Cons.IH[of "Suc (fst m)" "Suc (snd m)"] by (cases m) (simp add: matches_in_Cons)
qed simp

subsection \<open>The searches\<close>

lemma positional_matches:
  "matches_in i (i + n) j (j + n) (positional before after i j n)"
proof -
  have "sorted_wrt before_pair (map (\<lambda>k. (i + k, j + k)) ks)" if "sorted_wrt (<) ks" for ks
    using that by (simp add: sorted_wrt_map before_pair_def sorted_wrt_mono_rel)
  then show ?thesis
    by (auto simp: matches_in_def positional_def sorted_wrt_filter)
qed

lemma match_each_matches:
  "match_each eq i stop js = Some ms \<Longrightarrow> sorted_wrt (<) js \<Longrightarrow> \<forall>j \<in> set js. lo \<le> j \<and> j < hi \<Longrightarrow>
     matches_in i stop lo hi ms"
proof (induction js arbitrary: i lo ms)
  case (Cons j js)
  then obtain k rest where k: "find (\<lambda>k. eq k j) [i..<stop] = Some k"
    "match_each eq (k + 1) stop js = Some rest" "ms = (k, j) # rest"
    by (auto split: option.splits)
  then have "i \<le> k \<and> k < stop" by (auto simp: find_Some_iff)
  moreover have "matches_in (k + 1) stop (j + 1) hi rest"
    using Cons.prems by (intro Cons.IH[OF k(2)]) auto
  ultimately show ?case using Cons.prems k by (simp add: matches_in_Cons)
qed simp

lemma identitySubsequence_matches:
  "identitySubsequence before i i' after j j' = Some ms \<Longrightarrow> matches_in i i' j j' ms"
  using match_each_matches[of "\<lambda>k l. same (before ! k) (after ! l)" i i' "[j..<j']" ms j j']
    match_each_matches[of "\<lambda>k l. same (before ! l) (after ! k)" j j' "[i..<i']" _ i i']
  by (auto simp: identitySubsequence_def Let_def matches_in_swap split: if_splits)

lemma lcs_walk_matches:
  "matches_in left (length before) right (length after) (lcs_walk eq before after lengths left right)"
proof (induction eq before after lengths left right rule: lcs_walk.induct)
  case (1 eq before after lengths left right)
  show ?case
  proof (cases "left < length before \<and> right < length after")
    case True
    note t = this
    consider (hit) "eq (before ! left) (after ! right) \<and> lengths ! left ! right = lengths ! (left + 1) ! (right + 1) + 1"
      | (down) "\<not> (eq (before ! left) (after ! right) \<and> lengths ! left ! right = lengths ! (left + 1) ! (right + 1) + 1)"
        "lengths ! (left + 1) ! right \<ge> lengths ! left ! (right + 1)"
      | (side) "\<not> (eq (before ! left) (after ! right) \<and> lengths ! left ! right = lengths ! (left + 1) ! (right + 1) + 1)"
        "\<not> lengths ! (left + 1) ! right \<ge> lengths ! left ! (right + 1)"
      by blast
    then show ?thesis
    proof cases
      case hit
      with t 1(1) show ?thesis by (subst lcs_walk.simps) (simp add: matches_in_Cons)
    next
      case down
      with t 1(2) show ?thesis by (subst lcs_walk.simps) (auto intro: matches_in_mono)
    next
      case side
      with t 1(3) show ?thesis by (subst lcs_walk.simps) (auto intro: matches_in_mono)
    qed
  next
    case False
    then have "lcs_walk eq before after lengths left right = []"
      by (subst lcs_walk.simps) (simp only: if_False)
    then show ?thesis by simp
  qed
qed

lemma lcsMatches_matches:
  "lcsMatches before after eq cells = Some ms \<Longrightarrow> matches_in 0 (length before) 0 (length after) ms"
  using lcs_walk_matches by (auto simp: lcsMatches_def split: if_splits)

text \<open>The lower bound of a sorted list.\<close>

lemma lower_bound_from:
  assumes "sorted_wrt (<) vs" "low \<le> high" "high \<le> length vs"
    and "\<forall>k < low. vs ! k < v" "\<forall>k. high \<le> k \<and> k < length vs \<longrightarrow> v \<le> vs ! k"
  shows "let r = lower_bound_from vs v low high in
    r \<le> length vs \<and> (\<forall>k < r. vs ! k < v) \<and> (\<forall>k. r \<le> k \<and> k < length vs \<longrightarrow> v \<le> vs ! k)"
  using assms
proof (induction vs v low high rule: lower_bound_from.induct)
  case (1 vs v low high)
  show ?case
  proof (cases "low < high")
    case True
    let ?m = "(low + high) div 2"
    have m: "low \<le> ?m" "?m < high" using True by auto
    have mono: "vs ! k \<le> vs ! l" if "k \<le> l" "l < length vs" for k l
      using "1.prems"(1) that by (cases "k = l") (auto simp: sorted_wrt_iff_nth_less less_imp_le)
    show ?thesis
    proof (cases "vs ! ?m < v")
      case True
      have "vs ! k < v" if "k < ?m + 1" for k
        using mono[of k ?m] that True m "1.prems"(3) by simp
      with "1.IH"(1)[OF \<open>low < high\<close> refl True] "1.prems" m show ?thesis
        by (subst lower_bound_from.simps) (use \<open>low < high\<close> True in \<open>simp add: Let_def\<close>)
    next
      case False
      have "v \<le> vs ! k" if "?m \<le> k" "k < length vs" for k
        using mono[of ?m k] that False by simp
      with "1.IH"(2)[OF \<open>low < high\<close> refl False] "1.prems" m show ?thesis
        by (subst lower_bound_from.simps) (use \<open>low < high\<close> False in \<open>simp add: Let_def\<close>)
    qed
  next
    case False
    with "1.prems" show ?thesis by (subst lower_bound_from.simps) (simp add: Let_def)
  qed
qed

lemma lowerBound:
  assumes "sorted_wrt (<) vs"
  shows "lowerBound vs v \<le> length vs"
    and "k < lowerBound vs v \<Longrightarrow> vs ! k < v"
    and "lowerBound vs v \<le> k \<Longrightarrow> k < length vs \<Longrightarrow> v \<le> vs ! k"
  using lower_bound_from[OF assms, of 0 "length vs" v] by (auto simp: lowerBound_def Let_def)

subsection \<open>The positions of values\<close>

lemma same_get_Some: "same_get m v = Some x \<Longrightarrow> \<exists>u. (u, x) \<in> set m \<and> same u v"
  by (induction m v rule: same_get.induct) (auto split: if_splits)

lemma same_set_mem: "(u, y) \<in> set (same_set v x m) \<Longrightarrow>
    (u, y) \<in> set m \<or> (y = x \<and> same u v \<and> (same_get m v = None \<and> u = v \<or> (\<exists>z. same_get m v = Some z \<and> (u, z) \<in> set m)))"
  by (induction v x m rule: same_set.induct) (auto split: if_splits)

text \<open>Every entry lists, in ascending order, indices of the array that hold its value.\<close>

definition entries_ok :: "(nat \<Rightarrow> rev) \<Rightarrow> nat \<Rightarrow> nat \<Rightarrow> (rev \<times> nat list) list \<Rightarrow> bool" where
  "entries_ok arr lo hi m \<longleftrightarrow>
     (\<forall>(u, is) \<in> set m. sorted_wrt (<) is \<and> (\<forall>k \<in> set is. lo \<le> k \<and> k < hi \<and> same (arr k) u))"

lemma entries_ok_get:
  assumes "entries_ok arr lo hi m" "same_get m v = Some is"
  shows "sorted_wrt (<) is" "\<forall>k \<in> set is. lo \<le> k \<and> k < hi \<and> same (arr k) v"
proof -
  obtain u where u: "(u, is) \<in> set m" "same u v" using same_get_Some[OF assms(2)] by blast
  with assms(1) show "sorted_wrt (<) is" by (auto simp: entries_ok_def)
  from u assms(1) show "\<forall>k \<in> set is. lo \<le> k \<and> k < hi \<and> same (arr k) v"
    using same_trans[of "arr _" u v] by (fastforce simp: entries_ok_def)
qed

lemma entries_ok_add:
  assumes "entries_ok arr lo hi m" "lo \<le> hi" "arr hi = x"
  shows "entries_ok arr lo (Suc hi) (same_set x ((case same_get m x of None \<Rightarrow> [] | Some is \<Rightarrow> is) @ [hi]) m)"
  unfolding entries_ok_def
proof (clarify)
  fix u ks
  assume "(u, ks) \<in> set (same_set x ((case same_get m x of None \<Rightarrow> [] | Some is \<Rightarrow> is) @ [hi]) m)"
  from same_set_mem[OF this] consider (old) "(u, ks) \<in> set m"
    | (new) "ks = (case same_get m x of None \<Rightarrow> [] | Some is \<Rightarrow> is) @ [hi]" "same u x"
      "same_get m x = None \<and> u = x \<or> (\<exists>z. same_get m x = Some z \<and> (u, z) \<in> set m)"
    by blast
  then show "sorted_wrt (<) ks \<and> (\<forall>k \<in> set ks. lo \<le> k \<and> k < Suc hi \<and> same (arr k) u)"
  proof cases
    case old
    with assms(1) show ?thesis by (fastforce simp: entries_ok_def)
  next
    case new
    then show ?thesis using assms same_sym[OF new(2)]
      by (fastforce simp: entries_ok_def sorted_wrt_append split: option.splits)
  qed
qed

lemma index_positions_ok:
  assumes "entries_ok arr lo i m" "lo \<le> i" "\<forall>k < length xs. arr (i + k) = xs ! k"
  shows "entries_ok arr lo (i + length xs) (index_positions i xs m)"
  using assms
proof (induction i xs m rule: index_positions.induct)
  case (2 i x xs m)
  have "arr i = x" using 2(4)[rule_format, of 0] by simp
  moreover have "\<forall>k < length xs. arr (Suc i + k) = xs ! k"
    using 2(4) by (metis Suc_less_eq add_Suc_shift length_Cons nth_Cons_Suc)
  ultimately show ?case using 2(1) entries_ok_add[OF 2(2,3), of x] 2(3) by simp
qed simp

lemma positions_ok:
  assumes "i \<le> i'" "i' \<le> length before"
  shows "entries_ok (\<lambda>k. before ! k) i i' (index_positions i (take (i' - i) (drop i before)) [])"
  using index_positions_ok[of "\<lambda>k. before ! k" i i "[]" "take (i' - i) (drop i before)"] assms
  by (simp add: entries_ok_def)

lemma greedy_matches:
  assumes "entries_ok arr lo hi positions" "sorted_wrt (<) js" "\<forall>j \<in> set js. l \<le> j \<and> j < l'"
  shows "matches_in (max lo i) hi l l' (greedy_anchors positions after i js)"
  using assms
proof (induction js arbitrary: i l)
  case (Cons j js)
  have tail: "matches_in (max lo k) hi (j + 1) l' (greedy_anchors positions after k js)" for k
    using Cons.prems by (intro Cons.IH) auto
  have skip: "matches_in (max lo i) hi l l' (greedy_anchors positions after i js)"
    using tail[of i] Cons.prems by (auto intro: matches_in_mono)
  show ?case
  proof (cases "same_get positions (after ! j)")
    case None
    with skip show ?thesis by simp
  next
    case (Some cs)
    note e = entries_ok_get[OF Cons.prems(1) Some]
    let ?b = "cs ! lowerBound cs i"
    show ?thesis
    proof (cases "lowerBound cs i < length cs")
      case True
      then have "?b \<in> set cs" by simp
      with e(2) have "lo \<le> ?b" "?b < hi" by auto
      moreover have "i \<le> ?b" using lowerBound(3)[OF e(1) order_refl True] .
      ultimately show ?thesis using True Some Cons.prems tail[of "?b + 1"]
        by (simp add: matches_in_Cons Let_def max_def split: if_splits)
    next
      case False
      with Some skip show ?thesis by (simp add: Let_def)
    qed
  qed
qed simp

subsection \<open>Increasing chains\<close>

text \<open>
  Candidates lie in the regions and a previous one comes before in both arrays; the tails, one per
  chain length, have ascending old indices, and those below \<open>b\<close> belong to new indices before \<open>a\<close>.
\<close>

definition chains_ok :: "nat \<Rightarrow> nat \<Rightarrow> nat \<Rightarrow> nat \<Rightarrow> nat \<Rightarrow> chains \<Rightarrow> bool" where
  "chains_ok i i' j a b c \<longleftrightarrow>
     length (ch_tails c) = length (ch_tailValues c) \<and>
     sorted_wrt (<) (ch_tailValues c) \<and>
     (\<forall>k < length (ch_tails c). ch_tails c ! k < length (ch_candidates c)
        \<and> fst (ch_candidates c ! (ch_tails c ! k)) = ch_tailValues c ! k
        \<and> (ch_tailValues c ! k < b \<longrightarrow> fst (snd (ch_candidates c ! (ch_tails c ! k))) < a)) \<and>
     (\<forall>x < length (ch_candidates c).
        (case ch_candidates c ! x of (b', a', prev) \<Rightarrow>
           i \<le> b' \<and> b' < i' \<and> j \<le> a' \<and> a' \<le> a \<and>
           (\<forall>p. prev = Some p \<longrightarrow> p < x
              \<and> before_pair (fst (ch_candidates c ! p), fst (snd (ch_candidates c ! p))) (b', a'))))"

lemma sorted_wrt_set_index:
  fixes vs :: "nat list"
  assumes "sorted_wrt (<) vs" "slot \<le> length vs"
    and "\<forall>k < slot. vs ! k < v" "\<forall>k. slot \<le> k \<and> k < length vs \<longrightarrow> v \<le> vs ! k"
  shows "sorted_wrt (<) (set_index slot v vs)"
proof (cases "slot < length vs")
  case True
  have "(vs[slot := v]) ! k < (vs[slot := v]) ! l" if "k < l" "l < length vs" for k l
  proof -
    have s: "vs ! k < vs ! l" using assms(1) that by (simp add: sorted_wrt_iff_nth_less)
    consider "k = slot" | "l = slot" | "k \<noteq> slot" "l \<noteq> slot" by blast
    then show ?thesis
    proof cases
      case 1
      then show ?thesis using s that True assms(4) by (auto simp: nth_list_update intro: le_less_trans)
    next
      case 2
      then show ?thesis using that assms(3) by (auto simp: nth_list_update)
    qed (use s in simp)
  qed
  then show ?thesis using True by (simp add: set_index_def sorted_wrt_iff_nth_less)
next
  case False
  then have "\<forall>k < length vs. vs ! k < v" using assms(2,3) by simp
  then show ?thesis using False assms(1)
    by (auto simp: set_index_def sorted_wrt_append in_set_conv_nth)
qed

lemma set_index_nth:
  "slot \<le> length xs \<Longrightarrow> k < length (set_index slot x xs) \<Longrightarrow>
     set_index slot x xs ! k = (if k = slot then x else xs ! k) \<and> (k \<noteq> slot \<longrightarrow> k < length xs)"
  by (auto simp: set_index_def nth_append less_Suc_eq split: if_splits)

lemma add_candidate_ok:
  assumes ok: "chains_ok i i' j a b c" and x: "x < b" and r: "i \<le> x" "x < i'" "j \<le> a"
  shows "chains_ok i i' j a x (add_candidate a x c)"
proof -
  let ?slot = "lowerBound (ch_tailValues c) x"
  have sorted: "sorted_wrt (<) (ch_tailValues c)" and len: "length (ch_tails c) = length (ch_tailValues c)"
    using ok by (auto simp: chains_ok_def)
  note lb = lowerBound[OF sorted, where v = x]
  define prev where "prev = (if ?slot = 0 then None else Some (ch_tails c ! (?slot - 1)))"
  let ?cs = "ch_candidates c @ [(x, a, prev)]"
  let ?ts = "set_index ?slot (length (ch_candidates c)) (ch_tails c)"
  let ?vs = "set_index ?slot x (ch_tailValues c)"
  have new: "add_candidate a x c = \<lparr>ch_candidates = ?cs, ch_tails = ?ts, ch_tailValues = ?vs\<rparr>"
    by (simp add: add_candidate_def Let_def prev_def)
  have prev_ok: "p < length (ch_candidates c)
      \<and> before_pair (fst (ch_candidates c ! p), fst (snd (ch_candidates c ! p))) (x, a)"
    if "prev = Some p" for p
  proof -
    from that have p: "?slot \<noteq> 0" "p = ch_tails c ! (?slot - 1)" by (auto simp: prev_def split: if_splits)
    then have k: "?slot - 1 < length (ch_tails c)" "ch_tailValues c ! (?slot - 1) < x"
      using lb(1) lb(2)[of "?slot - 1"] len by auto
    with ok p(2) x show ?thesis by (auto simp: chains_ok_def before_pair_def)
  qed
  have tails: "?ts ! k < length ?cs \<and> fst (?cs ! (?ts ! k)) = ?vs ! k
      \<and> (?vs ! k < x \<longrightarrow> fst (snd (?cs ! (?ts ! k))) < a)" if k: "k < length ?ts" for k
  proof (cases "k = ?slot")
    case True
    then show ?thesis using set_index_nth[of ?slot "ch_tails c" k] set_index_nth[of ?slot "ch_tailValues c" k x]
        lb(1) len k by (simp add: set_index_def split: if_splits)
  next
    case False
    have "k < length ?vs" using k len by (simp add: set_index_def split: if_splits)
    then have kk: "?ts ! k = ch_tails c ! k" "?vs ! k = ch_tailValues c ! k" "k < length (ch_tails c)"
      using set_index_nth[of ?slot "ch_tails c" k] set_index_nth[of ?slot "ch_tailValues c" k x]
        lb(1) len k False by auto
    then have "ch_tails c ! k < length (ch_candidates c)"
      "fst (ch_candidates c ! (ch_tails c ! k)) = ch_tailValues c ! k"
      "ch_tailValues c ! k < b \<longrightarrow> fst (snd (ch_candidates c ! (ch_tails c ! k))) < a"
      using ok by (auto simp: chains_ok_def)
    with kk x show ?thesis by (auto simp: nth_append)
  qed
  have cands: "case ?cs ! y of (b', a', prev) \<Rightarrow>
      i \<le> b' \<and> b' < i' \<and> j \<le> a' \<and> a' \<le> a \<and>
      (\<forall>p. prev = Some p \<longrightarrow> p < y \<and> before_pair (fst (?cs ! p), fst (snd (?cs ! p))) (b', a'))"
    if y: "y < length ?cs" for y
  proof (cases "y < length (ch_candidates c)")
    case True
    then have "case ch_candidates c ! y of (b', a', prev) \<Rightarrow>
        i \<le> b' \<and> b' < i' \<and> j \<le> a' \<and> a' \<le> a \<and>
        (\<forall>p. prev = Some p \<longrightarrow> p < y
          \<and> before_pair (fst (ch_candidates c ! p), fst (snd (ch_candidates c ! p))) (b', a'))"
      using ok by (simp add: chains_ok_def)
    with True show ?thesis by (auto simp: nth_append split: prod.splits)
  next
    case False
    with y have "y = length (ch_candidates c)" by simp
    with prev_ok r show ?thesis by (auto simp: nth_append)
  qed
  have "sorted_wrt (<) ?vs"
    using lb by (intro sorted_wrt_set_index[OF sorted]) auto
  moreover have "length ?ts = length ?vs" using len by (simp add: set_index_def)
  ultimately show ?thesis using tails cands unfolding new chains_ok_def by simp
qed

lemma chains_ok_cand:
  assumes "chains_ok i i' j a b c" "x < length (ch_candidates c)"
  shows "i \<le> fst (ch_candidates c ! x)" "fst (ch_candidates c ! x) < i'"
    and "j \<le> fst (snd (ch_candidates c ! x))" "fst (snd (ch_candidates c ! x)) \<le> a"
    and "\<And>p. snd (snd (ch_candidates c ! x)) = Some p \<Longrightarrow> p < x \<and> before_pair
      (fst (ch_candidates c ! p), fst (snd (ch_candidates c ! p)))
      (fst (ch_candidates c ! x), fst (snd (ch_candidates c ! x)))"
  using assms unfolding chains_ok_def by (auto simp: case_prod_unfold)

lemma chains_ok_tail:
  "chains_ok i i' j a b c \<Longrightarrow> k < length (ch_tails c) \<Longrightarrow> ch_tails c ! k < length (ch_candidates c)"
  by (simp add: chains_ok_def)

lemma chains_ok_next: "chains_ok i i' j a b c \<Longrightarrow> a < a' \<Longrightarrow> chains_ok i i' j a' b' c"
proof -
  assume ok: "chains_ok i i' j a b c" and a: "a < a'"
  have le: "fst (snd (ch_candidates c ! (ch_tails c ! k))) < a'" if "k < length (ch_tails c)" for k
    using chains_ok_cand(4)[OF ok chains_ok_tail[OF ok that]] a by simp
  show ?thesis unfolding chains_ok_def
  proof (intro conjI allI impI)
    fix x
    assume "x < length (ch_candidates c)"
    from chains_ok_cand[OF ok this] a show "case ch_candidates c ! x of (b', a'', prev) \<Rightarrow>
        i \<le> b' \<and> b' < i' \<and> j \<le> a'' \<and> a'' \<le> a' \<and>
        (\<forall>p. prev = Some p \<longrightarrow> p < x
          \<and> before_pair (fst (ch_candidates c ! p), fst (snd (ch_candidates c ! p))) (b', a''))"
      by (auto split: prod.splits)
  qed (use ok le in \<open>auto simp: chains_ok_def\<close>)
qed

lemma add_candidate_fold_ok:
  assumes "chains_ok i i' j a b c" "sorted_wrt (>) xs" "\<forall>x \<in> set xs. x < b \<and> i \<le> x \<and> x < i'" "j \<le> a"
  shows "\<exists>b'. chains_ok i i' j a b' (fold (add_candidate a) xs c)"
  using assms
proof (induction xs arbitrary: b c)
  case (Cons x xs)
  have "chains_ok i i' j a x (add_candidate a x c)"
    using Cons.prems by (intro add_candidate_ok) auto
  with Cons.IH[of x "add_candidate a x c"] Cons.prems show ?case by auto
qed auto

lemma add_candidates_ok:
  assumes "entries_ok arr i i' positions" "\<And>b. chains_ok i i' j a b c" "j \<le> a"
  shows "\<exists>b'. chains_ok i i' j a b' (add_candidates positions after a c)"
proof (cases "same_get positions (after ! a)")
  case None
  with assms(2) show ?thesis by (simp add: add_candidates_def)
next
  case (Some ks)
  note e = entries_ok_get[OF assms(1) Some]
  from e(1) have "sorted_wrt (>) (rev ks)" by (simp add: sorted_wrt_rev)
  with e(2) add_candidate_fold_ok[OF assms(2)[of i'], of "rev ks"] assms(3) show ?thesis
    using Some by (simp add: add_candidates_def)
qed

lemma add_all_ok:
  assumes "entries_ok arr i i' positions" "\<forall>a \<in> set js. \<forall>b. chains_ok i i' j a b c"
    and "sorted_wrt (<) js" "\<forall>a \<in> set js. j \<le> a \<and> a < j'" "js \<noteq> []"
  shows "\<exists>a b. a < j' \<and> chains_ok i i' j a b (fold (add_candidates positions after) js c)"
  using assms
proof (induction js arbitrary: c)
  case (Cons a js)
  obtain b' where b': "chains_ok i i' j a b' (add_candidates positions after a c)"
    using add_candidates_ok[of arr i i' positions j a c after] Cons.prems by auto
  show ?case
  proof (cases "js = []")
    case True
    with b' Cons.prems show ?thesis by auto
  next
    case False
    have "\<forall>x \<in> set js. \<forall>b. chains_ok i i' j x b (add_candidates positions after a c)"
      using chains_ok_next[OF b'] Cons.prems(3) by simp
    with Cons.IH[of "add_candidates positions after a c"] Cons.prems False show ?thesis by simp
  qed
qed simp

lemma follow_chain:
  assumes "chains_ok i i' j a b c" "x < length (ch_candidates c)"
  shows "let ms = follow n (ch_candidates c) (Some x); top = (fst (ch_candidates c ! x), fst (snd (ch_candidates c ! x))) in
    sorted_wrt before_pair ms \<and> (\<forall>m \<in> set ms. m = top \<or> before_pair m top)
    \<and> (\<forall>(p, q) \<in> set ms. i \<le> p \<and> p < i' \<and> j \<le> q \<and> q \<le> a)"
  using assms(2)
proof (induction n arbitrary: x)
  case (Suc n)
  obtain p q prev where x: "ch_candidates c ! x = (p, q, prev)" by (cases "ch_candidates c ! x")
  have r: "i \<le> p \<and> p < i' \<and> j \<le> q \<and> q \<le> a" and prev: "\<And>y. prev = Some y \<Longrightarrow> y < x
      \<and> before_pair (fst (ch_candidates c ! y), fst (snd (ch_candidates c ! y))) (p, q)"
    using chains_ok_cand[OF assms(1) Suc.prems] x by auto
  show ?case
  proof (cases prev)
    case None
    then show ?thesis using x r by simp
  next
    case (Some y)
    note y = prev[OF Some]
    then have "y < length (ch_candidates c)" using Suc.prems by simp
    note IH = Suc.IH[OF this]
    have "before_pair m (p, q)" if "m \<in> set (follow n (ch_candidates c) (Some y))" for m
      using IH that y by (fastforce simp: Let_def before_pair_def)
    then show ?thesis using IH x r Some by (auto simp: Let_def sorted_wrt_append)
  qed
qed simp

text \<open>The steps given to \<open>follow\<close> are enough: more change nothing.\<close>

lemma follow_enough:
  assumes "chains_ok i i' j a b c" "x < length (ch_candidates c)" "x < n" "x < n'"
  shows "follow n (ch_candidates c) (Some x) = follow n' (ch_candidates c) (Some x)"
  using assms(2-)
proof (induction n arbitrary: x n')
  case (Suc n)
  obtain k where k: "n' = Suc k" using Suc.prems(3) by (cases n') auto
  obtain p q prev where x: "ch_candidates c ! x = (p, q, prev)" by (cases "ch_candidates c ! x")
  have "\<And>y. prev = Some y \<Longrightarrow> y < x"
    using chains_ok_cand(5)[OF assms(1) Suc.prems(1)] x by simp
  then have "follow n (ch_candidates c) prev = follow k (ch_candidates c) prev"
    using Suc.IH[of _ k] Suc.prems k by (cases prev) auto
  then show ?case using k x by simp
qed simp

lemma longest_chain_matches:
  assumes "chains_ok i i' j a b c" "a < j'"
  shows "matches_in i i' j j' (longest_chain c)"
proof (cases "ch_tails c = []")
  case True
  then show ?thesis by (simp add: longest_chain_def)
next
  case False
  then have "last (ch_tails c) = ch_tails c ! (length (ch_tails c) - 1)" by (simp add: last_conv_nth)
  then have "last (ch_tails c) < length (ch_candidates c)"
    using chains_ok_tail[OF assms(1)] False by simp
  from follow_chain[OF assms(1) this, of "length (ch_candidates c)"] assms(2) False show ?thesis
    by (fastforce simp: longest_chain_def matches_in_def Let_def)
qed

lemma identityAnchors_matches:
  assumes "i \<le> i'" "i' \<le> length before"
  shows "matches_in i i' j j' (identityAnchors before i i' after j j')"
proof -
  define positions where "positions = index_positions i (take (i' - i) (drop i before)) []"
  have e: "entries_ok (\<lambda>k. before ! k) i i' positions"
    unfolding positions_def by (rule positions_ok[OF assms])
  let ?c = "\<lparr>ch_candidates = [], ch_tails = [], ch_tailValues = []\<rparr>"
  have "matches_in i i' j j' (greedyIdentityAnchors positions after j j')"
    unfolding greedyIdentityAnchors_def
    using greedy_matches[OF e, of "[j..<j']" j j' 0 after] by simp
  moreover have "matches_in i i' j j' (longest_chain (fold (add_candidates positions after) [j..<j'] ?c))"
  proof (cases "j < j'")
    case True
    have "\<forall>a \<in> set [j..<j']. \<forall>b. chains_ok i i' j a b ?c" by (simp add: chains_ok_def)
    from add_all_ok[OF e this, where j' = j' and after = after] True
    obtain a b where "a < j'" "chains_ok i i' j a b (fold (add_candidates positions after) [j..<j'] ?c)"
      by auto
    then show ?thesis by (rule longest_chain_matches[rotated])
  next
    case False
    then show ?thesis by (simp add: longest_chain_def)
  qed
  ultimately show ?thesis
    by (simp add: identityAnchors_def Let_def flip: positions_def split: option.split)
qed

lemma slice_length [simp]: "j \<le> length xs \<Longrightarrow> length (slice i j xs) = j - i"
  by (auto simp: slice_def min_def)

lemma slice_nth: "k < j - i \<Longrightarrow> j \<le> length xs \<Longrightarrow> slice i j xs ! k = xs ! (i + k)"
  by (simp add: slice_def)

lemma region_matches_in:
  assumes "i \<le> i'" "i' \<le> length before" "j \<le> j'" "j' \<le> length after"
  shows "matches_in i i' j j' (region_matches before after i i' j j')"
proof -
  have pos: "matches_in i i' j j' (positional before after i j (i' - i))" if "i' - i = j' - j"
  proof -
    have "i + (i' - i) = i'" "j + (i' - i) = j'" using that assms by auto
    then show ?thesis using positional_matches[of i "i' - i" j before after] by simp
  qed
  have sem: "matches_in i i' j j' (map (\<lambda>(b, a). (i + b, j + a)) ms)"
    if "lcsMatches (slice i i' before) (slice j j' after) semanticallyAligned MAX_SEMANTIC_CELLS = Some ms" for ms
    using matches_in_shift[OF lcsMatches_matches[OF that], of i j] assms by simp
  show ?thesis
    using pos identityAnchors_matches[OF assms(1,2), of j j' after] identitySubsequence_matches[of before i i' after j j']
      sem
    by (auto simp: region_matches_def Let_def simp del: list.map split: option.split list.split)
qed

subsection \<open>Permutations\<close>

lemma same_get_split:
  assumes "same_get m v = Some x"
  obtains u m1 m2 where "m = m1 @ (u, x) # m2" "same u v" "\<And>y. same_set v y m = m1 @ (u, y) # m2"
  using assms
proof (induction m v arbitrary: thesis rule: same_get.induct)
  case (2 u x' m v)
  show ?case
  proof (cases "same u v")
    case True
    with 2(3) 2(2)[of "[]" u m] show ?thesis by simp
  next
    case False
    with 2(3) obtain u' m1 m2 where "m = m1 @ (u', x) # m2" "same u' v" "\<And>y. same_set v y m = m1 @ (u', y) # m2"
      using 2(1) by auto
    with False 2(2)[of "(u, x') # m1" u' m2] show ?thesis by simp
  qed
qed simp

lemma same_set_fresh: "same_get m v = None \<Longrightarrow> same_set v x m = m @ [(v, x)]"
  by (induction v x m rule: same_set.induct) (auto split: if_splits)

text \<open>The indices entered so far are distinct over all entries.\<close>

lemma index_positions_distinct:
  assumes "distinct (concat (map snd m))" "\<forall>k \<in> set (concat (map snd m)). k < i"
  shows "distinct (concat (map snd (index_positions i xs m)))"
  using assms
proof (induction i xs m rule: index_positions.induct)
  case (2 i x xs m)
  let ?m = "same_set x ((case same_get m x of None \<Rightarrow> [] | Some is \<Rightarrow> is) @ [i]) m"
  have "mset (concat (map snd ?m)) = add_mset i (mset (concat (map snd m)))"
    (is "mset ?l = add_mset i (mset ?r)")
  proof (cases "same_get m x")
    case None
    then show ?thesis by (simp add: same_set_fresh)
  next
    case (Some ks)
    obtain u m1 m2 where "m = m1 @ (u, ks) # m2" "\<And>y. same_set x y m = m1 @ (u, y) # m2"
      using same_get_split[OF Some] by metis
    then show ?thesis unfolding Some by simp
  qed
  then have e: "mset ?l = mset (i # ?r)" by simp
  have "distinct (i # ?r)" using 2(2,3) by (auto simp del: set_concat)
  then have "distinct ?l" using mset_eq_imp_distinct_iff[OF e] by blast
  moreover have "\<forall>k \<in> set ?l. k < i + 1"
    using mset_eq_setD[OF e] 2(3) by (auto simp del: set_concat)
  ultimately show ?case using 2(1) by simp
qed simp

definition unused :: "(rev \<times> nat list \<times> nat) list \<Rightarrow> nat list" where
  "unused m = concat (map (\<lambda>(v, is, u). drop u is) m)"

lemma take_positions_ok:
  assumes "take_positions ys m = Some p" "distinct (unused m)"
    and "\<forall>(v, is, u) \<in> set m. u \<le> length is \<and> (\<forall>k \<in> set is. same (arr k) v)"
  shows "distinct p \<and> set p \<subseteq> set (unused m) \<and> list_all2 (\<lambda>k y. same (arr k) y) p ys"
  using assms
proof (induction ys m arbitrary: p rule: take_positions.induct)
  case (2 y ys m)
  then obtain indices used rest where g: "same_get m y = Some (indices, used)" "used \<noteq> length indices"
    "take_positions ys (same_set y (indices, used + 1) m) = Some rest" "p = indices ! used # rest"
    by (auto split: option.splits if_splits)
  let ?m = "same_set y (indices, used + 1) m"
  obtain v m1 m2 where s: "m = m1 @ (v, indices, used) # m2" "same v y"
    "?m = m1 @ (v, indices, used + 1) # m2"
    using same_get_split[OF g(1)] by metis
  have True: "used < length indices" using 2(4) g(2) unfolding s(1) by auto
  then have d: "drop used indices = indices ! used # drop (used + 1) indices"
    by (simp add: Cons_nth_drop_Suc)
  have u: "unused m = unused m1 @ (indices ! used # drop (used + 1) indices) @ unused m2"
    "unused ?m = unused m1 @ drop (used + 1) indices @ unused m2"
    unfolding s(3) unfolding s(1) using d by (simp_all add: unused_def)
  have "\<forall>(v, is, u) \<in> set ?m. u \<le> length is \<and> (\<forall>k \<in> set is. same (arr k) v)"
    using 2(4) True unfolding s(3) unfolding s(1) by auto
  moreover have "distinct (unused ?m)" using 2(3) unfolding u by auto
  ultimately have IH: "distinct rest \<and> set rest \<subseteq> set (unused ?m) \<and> list_all2 (\<lambda>k y. same (arr k) y) rest ys"
    using 2(1)[OF g(1) refl g(2) g(3)] by blast
  have "same (arr (indices ! used)) v" using 2(4) True unfolding s(1) by auto
  then have "same (arr (indices ! used)) y" using s(2) same_trans by blast
  with IH show ?case using g(4) 2(3) unfolding u by auto
qed auto

lemma permutation_correct:
  assumes "permutation before after = Some p"
  shows "is_permutation p" "length p = length before" "list_all2 (\<lambda>k y. same (before ! k) y) p after"
proof -
  define m where "m = index_positions 0 before []"
  have len: "length before = length after"
    and t: "take_positions after (map (\<lambda>(v, is). (v, is, 0)) m) = Some p"
    using assms by (auto simp: permutation_def m_def split: if_splits)
  have e: "entries_ok (\<lambda>k. before ! k) 0 (length before) m"
    using positions_ok[of 0 "length before" before] by (simp add: m_def)
  have un: "unused (map (\<lambda>(v, is). (v, is, 0)) m) = concat (map snd m)"
    unfolding unused_def by (induction m) auto
  have "distinct (concat (map snd m))" unfolding m_def by (rule index_positions_distinct) auto
  moreover have "\<forall>(v, is, u) \<in> set (map (\<lambda>(v, is). (v, is, 0)) m).
      u \<le> length is \<and> (\<forall>k \<in> set is. same (before ! k) v)"
    using e by (fastforce simp: entries_ok_def)
  ultimately have p: "distinct p" "set p \<subseteq> set (concat (map snd m))"
    "list_all2 (\<lambda>k y. same (before ! k) y) p after"
    using take_positions_ok[OF t] unfolding un by auto
  show "length p = length before" using list_all2_lengthD[OF p(3)] len by simp
  moreover have "set (concat (map snd m)) \<subseteq> {..<length before}"
    using e by (fastforce simp: entries_ok_def)
  ultimately show "is_permutation p" using p by (auto simp: is_permutation_def)
  show "list_all2 (\<lambda>k y. same (before ! k) y) p after" by (rule p(3))
qed

end
