(* ===== verification/Delta_Diff_Correct.thy ===== *)
theory Delta_Diff_Correct
  imports Delta_Matches
begin

text \<open>
  The difference of two revisions is correct and always found: applied to the old revision it gives
  the new one, up to the order of object keys. The two revisions may share containers; what the
  code relies on is that one identity is one container, which JavaScript guarantees.
\<close>

subsection \<open>Equality up to key order\<close>

fun jeq :: "json \<Rightarrow> json \<Rightarrow> bool" where
  "jeq (JArr xs) (JArr ys) \<longleftrightarrow> list_all2 jeq xs ys"
| "jeq (JObj al) (JObj bl) \<longleftrightarrow>
     length al = length bl \<and>
     list_all (\<lambda>(k, v). case map_of bl k of None \<Rightarrow> False | Some w \<Rightarrow> jeq v w) al"
| "jeq u v \<longleftrightarrow> u = v"

subsection \<open>Revisions that share containers\<close>

fun subs :: "rev \<Rightarrow> rev list" where
  "subs (VArr i xs) = VArr i xs # concat (map subs xs)"
| "subs (VObj i al) = VObj i al # concat (map (\<lambda>(k, v). subs v) al)"
| "subs v = [v]"

text \<open>A set of values closed under children, in which an identity is one container and an object's
  keys are distinct.\<close>

definition universe :: "rev set \<Rightarrow> bool" where
  "universe U \<longleftrightarrow>
     (\<forall>x \<in> U. \<forall>y \<in> U. same x y \<longrightarrow> x = y) \<and>
     (\<forall>i xs. VArr i xs \<in> U \<longrightarrow> set xs \<subseteq> U) \<and>
     (\<forall>i al. VObj i al \<in> U \<longrightarrow> distinct (map fst al) \<and> snd ` set al \<subseteq> U)"

definition revisions_ok :: "rev \<Rightarrow> rev \<Rightarrow> bool" where
  "revisions_ok before after \<longleftrightarrow>
     list_all (\<lambda>x. list_all (\<lambda>y. same x y \<longrightarrow> x = y) (subs before @ subs after)) (subs before @ subs after) \<and>
     list_all (\<lambda>x. case x of VObj _ al \<Rightarrow> distinct (map fst al) | _ \<Rightarrow> True) (subs before @ subs after)"

lemma subs_self: "v \<in> set (subs v)"
  by (cases v) auto

lemma subs_trans: "u \<in> set (subs v) \<Longrightarrow> set (subs u) \<subseteq> set (subs v)"
  by (induction v rule: subs.induct) fastforce+

lemma subs_children:
  "VArr i xs \<in> set (subs v) \<Longrightarrow> set xs \<subseteq> set (subs v)"
  "VObj i al \<in> set (subs v) \<Longrightarrow> snd ` set al \<subseteq> set (subs v)"
  using subs_trans[of "VArr i xs" v] subs_trans[of "VObj i al" v] subs_self by fastforce+

lemma revisions_universe:
  assumes "revisions_ok before after"
  shows "universe (set (subs before @ subs after))"
proof -
  have "distinct (map fst al)" if "VObj i al \<in> set (subs before @ subs after)" for i al
  proof -
    have "\<forall>x \<in> set (subs before @ subs after). case x of VObj _ al \<Rightarrow> distinct (map fst al) | _ \<Rightarrow> True"
      using assms unfolding revisions_ok_def list_all_iff by blast
    from bspec[OF this that] show ?thesis by simp
  qed
  moreover have "x = y" if "x \<in> set (subs before @ subs after)" "y \<in> set (subs before @ subs after)" "same x y" for x y
  proof -
    have "\<forall>x \<in> set (subs before @ subs after). \<forall>y \<in> set (subs before @ subs after). same x y \<longrightarrow> x = y"
      using assms unfolding revisions_ok_def list_all_iff by blast
    with that show ?thesis by blast
  qed
  moreover have "set xs \<subseteq> set (subs before @ subs after)" if "VArr i xs \<in> set (subs before @ subs after)" for i xs
    using that subs_children(1)[of i xs] by (simp only: set_append Un_iff) blast
  moreover have "snd ` set al \<subseteq> set (subs before @ subs after)" if "VObj i al \<in> set (subs before @ subs after)" for i al
    using that subs_children(2)[of i al] by (simp only: set_append Un_iff) blast
  ultimately show ?thesis unfolding universe_def by blast
qed

lemma universe_same: "universe U \<Longrightarrow> x \<in> U \<Longrightarrow> y \<in> U \<Longrightarrow> same x y \<Longrightarrow> x = y"
  by (simp add: universe_def)

lemma universe_arr: "universe U \<Longrightarrow> VArr i xs \<in> U \<Longrightarrow> set xs \<subseteq> U"
  by (simp add: universe_def)

lemma universe_obj:
  "universe U \<Longrightarrow> VObj i al \<in> U \<Longrightarrow> distinct (map fst al) \<and> snd ` set al \<subseteq> U"
  by (simp add: universe_def)

lemma map_of_erase: "map_of (map (\<lambda>(k, v). (k, erase v)) al) k = map_option erase (map_of al k)"
  by (induction al) auto

lemma jeq_refl: "universe U \<Longrightarrow> v \<in> U \<Longrightarrow> jeq (erase v) (erase v)"
proof (induction v rule: erase.induct)
  case (5 i xs)
  then have "jeq (erase x) (erase x)" if "x \<in> set xs" for x
    using universe_arr that by blast
  then show ?case by (simp add: list.rel_map list.rel_refl_strong)
next
  case (6 i al)
  have "jeq (erase v) (erase v)" if "(k, v) \<in> set al" for k v
    using 6 universe_obj[OF 6(2,3)] that by force
  moreover have "map_of al k = Some v" if "(k, v) \<in> set al" for k v
    using universe_obj[OF 6(2,3)] that by simp
  ultimately show ?case by (auto simp: list_all_iff map_of_erase)
qed auto

lemma equal_elems_all2: "length xs = length ys \<Longrightarrow> equal_elems xs ys \<longleftrightarrow> list_all2 equalJson xs ys"
  by (induction xs ys rule: list_induct2) auto

lemma equal_props_all:
  "equal_props al bl \<longleftrightarrow>
     (\<forall>(k, v) \<in> set al. case map_of bl k of None \<Rightarrow> False | Some w \<Rightarrow> equalJson v w)"
  by (induction al) auto

lemma equalJson_jeq:
  "universe U \<Longrightarrow> x \<in> U \<Longrightarrow> y \<in> U \<Longrightarrow> equalJson x y \<Longrightarrow> jeq (erase x) (erase y)"
proof (induction x arbitrary: y rule: erase.induct)
  case (5 i xs)
  show ?case
  proof (cases "same (VArr i xs) y")
    case True
    with 5 jeq_refl universe_same show ?thesis by metis
  next
    case False
    with 5(5) obtain j ys where y: "y = VArr j ys" "list_all2 equalJson xs ys"
      by (auto simp: equal_elems_all2 split: rev.splits)
    have "jeq (erase u) (erase v)" if "u \<in> set xs" "v \<in> set ys" "equalJson u v" for u v
      using 5(1)[OF that(1) 5(2)] that universe_arr[OF 5(2)] 5(3,4) y(1) by blast
    then show ?thesis using y by (auto simp: list.rel_map intro: list.rel_mono_strong)
  qed
next
  case (6 i al)
  show ?case
  proof (cases "same (VObj i al) y")
    case True
    with 6 jeq_refl universe_same show ?thesis by metis
  next
    case False
    with 6(5) obtain j bl where y: "y = VObj j bl" "length al = length bl" "equal_props al bl"
      by (auto split: rev.splits)
    have "jeq (erase v) (erase w)" if "(k, v) \<in> set al" "map_of bl k = Some w" "equalJson v w" for k v w
    proof -
      have "v \<in> U" "w \<in> U" using that universe_obj[OF 6(2)] 6(3,4) y(1) by (force dest: map_of_SomeD)+
      then show ?thesis using 6(1)[OF that(1) refl 6(2)] that by blast
    qed
    then show ?thesis using y(2,3) unfolding y(1)
      by (fastforce simp: list_all_iff map_of_erase equal_props_all split: option.splits)
  qed
qed (auto simp: same.simps elim: same.elims)

lemma sameValue_jeq: "universe U \<Longrightarrow> x \<in> U \<Longrightarrow> y \<in> U \<Longrightarrow> sameValue x y \<Longrightarrow> jeq (erase x) (erase y)"
  using equalJson_jeq jeq_refl universe_same unfolding sameValue_def by metis

subsection \<open>Steps of the batch\<close>

text \<open>Unless the batch overflowed, it grew by operations that are valid and take \<open>v\<close> to \<open>w\<close>.\<close>

definition step_ok :: "path \<Rightarrow> json \<Rightarrow> json \<Rightarrow> batch \<Rightarrow> batch \<Rightarrow> bool" where
  "step_ok path v w st st' \<longleftrightarrow>
     snd st' \<or> (\<not> snd st \<and> (\<exists>new. fst st' = fst st @ new \<and> list_all op_ok new \<and> runs path v new w))"

lemma step_ok_refl: "step_ok path v v st st"
  using runs_Nil by (auto simp: step_ok_def intro: exI[of _ "[]"])

lemma step_ok_trans: "step_ok path v w st st1 \<Longrightarrow> step_ok path w u st1 st2 \<Longrightarrow> step_ok path v u st st2"
  unfolding step_ok_def using runs_append by fastforce

lemma step_ok_emit:
  assumes "op_ok oper" "runs path v [oper] w"
  shows "step_ok path v w st (emitOperation oper st)"
  using assms by (cases st) (auto simp: step_ok_def)

declare emitOperation.simps [simp del]

lemma step_ok_overflow: "snd st \<Longrightarrow> step_ok path v w st st"
  by (simp add: step_ok_def)

lemma step_ok_child:
  assumes "step_ok (path @ [seg]) v w st st'" "read_own seg node = Some v"
  shows "step_ok path node (write_own seg w node) st st'"
  using assms runs_child by (fastforce simp: step_ok_def)

definition becomes :: "path \<Rightarrow> json \<Rightarrow> json \<Rightarrow> batch \<Rightarrow> batch \<Rightarrow> bool" where
  "becomes path v target st st' \<longleftrightarrow> (\<exists>w. jeq w target \<and> step_ok path v w st st')"

lemma becomesI: "jeq w target \<Longrightarrow> step_ok path v w st st' \<Longrightarrow> becomes path v target st st'"
  unfolding becomes_def by blast

lemma emitSet_becomes:
  assumes "universe U" "a \<in> U" "path_ok path"
  shows "becomes path v (erase a) st (emitSet path (erase a) st)"
proof -
  have "step_ok path v (erase a) st (emitSet path (erase a) st)"
    using assms(3) runs_replace runs_set_here by (auto simp: emitSet_def intro!: step_ok_emit)
  then show ?thesis using jeq_refl[OF assms(1,2)] by (auto simp: becomes_def)
qed

lemma emitString_becomes:
  assumes "path \<noteq> []" "path_ok path"
  shows "becomes path (JStr b) (JStr a) st (emitString b a path st)"
proof -
  have "step_ok path (JStr b) (JStr a) st (emitString b a path st)"
  proof (cases "b = a \<or> (length a > length b \<and> take (length b) a = b)")
    case True
    have "step_ok path (JStr b) (JStr (b @ drop (length b) a)) st
        (emitOperation (OAppend path (drop (length b) a)) st)"
      using assms by (intro step_ok_emit runs_append_text) auto
    moreover have "b @ drop (length b) a = a" if "take (length b) a = b"
      using that append_take_drop_id[of "length b" a] by simp
    ultimately show ?thesis using True by (auto simp: emitString_def step_ok_refl)
  next
    case False
    let ?n = "overlap b a DEFAULT_OVERLAP_SCAN 64 8"
    have o': "drop (length b - ?n) b = take ?n a" "?n \<le> length a"
      using overlap_overlaps[of b a DEFAULT_OVERLAP_SCAN 64 8] by (auto simp: overlaps_def)
    let ?st = "emitOperation (OTruncate path (length b - ?n)) st"
    have cut: "step_ok path (JStr b) (JStr (take ?n a)) st ?st"
      unfolding o'(1)[symmetric] using assms by (intro step_ok_emit runs_truncate) auto
    have "step_ok path (JStr (take ?n a)) (JStr (take ?n a @ drop ?n a)) ?st
        (emitOperation (OAppend path (drop ?n a)) ?st)"
      using assms by (intro step_ok_emit runs_append_text) auto
    with cut have "step_ok path (JStr b) (JStr a) st (emitOperation (OAppend path (drop ?n a)) ?st)"
      using step_ok_trans by fastforce
    moreover have "step_ok path (JStr b) (JStr a) st (emitOperation (OSet path (JStr a)) st)"
      using assms by (intro step_ok_emit runs_set_here) auto
    moreover have "step_ok path (JStr b) (JStr a) st ?st" if "\<not> ?n < length a"
      using cut that by simp
    ultimately show ?thesis using False by (auto simp: emitString_def Let_def)
  qed
  then show ?thesis by (auto simp: becomes_def)
qed

subsection \<open>Array regions\<close>

lemma slice_split: "i \<le> j \<Longrightarrow> j \<le> k \<Longrightarrow> slice i k xs = slice i j xs @ slice j k xs"
proof -
  assume ij: "i \<le> j" "j \<le> k"
  then have "k - i = (j - i) + (k - j)" by simp
  then have "take (k - i) (drop i xs) = take (j - i) (drop i xs) @ take (k - j) (drop (j - i) (drop i xs))"
    by (simp only: take_add)
  then show ?thesis using ij by (simp add: slice_def)
qed

lemma slice_one: "i < length xs \<Longrightarrow> slice i (Suc i) xs = [xs ! i]"
  by (simp add: slice_def take_Suc_conv_app_nth)

lemma slice_empty [simp]: "j \<le> i \<Longrightarrow> slice i j xs = []"
  by (simp add: slice_def)

lemma slice_subset: "set (slice i j xs) \<subseteq> set xs"
  unfolding slice_def by (meson order_trans set_drop_subset set_take_subset)

abbreviation region :: "json list \<Rightarrow> rev list \<Rightarrow> json list \<Rightarrow> json" where
  "region pre xs post \<equiv> JArr (pre @ map erase xs @ post)"

text \<open>A region is rewritten in place, between what comes before it and after it.\<close>

definition turns :: "path \<Rightarrow> json list \<Rightarrow> rev list \<Rightarrow> json list \<Rightarrow> rev list \<Rightarrow> batch \<Rightarrow> batch \<Rightarrow> bool" where
  "turns path pre xs post ys st st' \<longleftrightarrow>
     (\<exists>ws. list_all2 jeq ws (map erase ys) \<and> step_ok path (region pre xs post) (JArr (pre @ ws @ post)) st st')"

definition jeqs :: "rev list \<Rightarrow> rev list \<Rightarrow> bool" where
  "jeqs xs ys \<longleftrightarrow> list_all2 (\<lambda>x y. jeq (erase x) (erase y)) xs ys"

lemma turns_keep: "jeqs xs ys \<Longrightarrow> turns path pre xs post ys st st"
  unfolding turns_def jeqs_def
  by (rule exI[of _ "map erase xs"]) (simp add: list.rel_map step_ok_refl)

lemma turns_append:
  assumes "turns path pre xs (map erase xs' @ post) ys st st1"
    and "\<And>ws. length ws = length ys \<Longrightarrow> turns path (pre @ ws) xs' post ys' st1 st'"
  shows "turns path pre (xs @ xs') post (ys @ ys') st st'"
proof -
  obtain ws where ws: "list_all2 jeq ws (map erase ys)"
    "step_ok path (region pre xs (map erase xs' @ post)) (JArr (pre @ ws @ map erase xs' @ post)) st st1"
    using assms(1) by (auto simp: turns_def)
  have "length ws = length ys" using ws(1) by (auto dest: list_all2_lengthD)
  from assms(2)[OF this] obtain ws' where ws': "list_all2 jeq ws' (map erase ys')"
    "step_ok path (region (pre @ ws) xs' post) (JArr ((pre @ ws) @ ws' @ post)) st1 st'"
    by (auto simp: turns_def)
  have "list_all2 jeq (ws @ ws') (map erase (ys @ ys'))" using ws(1) ws'(1) by (simp add: list_all2_appendI)
  moreover have "step_ok path (region pre (xs @ xs') post) (JArr (pre @ (ws @ ws') @ post)) st st'"
    using step_ok_trans[OF ws(2), of "JArr ((pre @ ws) @ ws' @ post)" st'] ws'(2) by simp
  ultimately show ?thesis unfolding turns_def by blast
qed

lemma turns_splice:
  assumes "path_ok path" "length pre = i" "r = length xs" "\<forall>y \<in> set ys. jeq (erase y) (erase y)"
  shows "turns path pre xs post ys st (emitOperation (OSplice path i r (map erase ys)) st)"
proof -
  have "runs path (region pre xs post) [OSplice path i r (map erase ys)]
      (JArr (js_splice i r (map erase ys) (pre @ map erase xs @ post)))"
    by (rule runs_splice)
  also have "js_splice i r (map erase ys) (pre @ map erase xs @ post) = pre @ map erase ys @ post"
    using assms(2,3) by (auto simp: js_splice_def)
  finally have "step_ok path (region pre xs post) (JArr (pre @ map erase ys @ post)) st
      (emitOperation (OSplice path i r (map erase ys)) st)"
    using assms(1) by (intro step_ok_emit) auto
  moreover have "list_all2 jeq (map erase ys) (map erase ys)"
    using assms(4) by (simp add: list.rel_map list.rel_refl_strong)
  ultimately show ?thesis by (auto simp: turns_def)
qed

lemma turns_element:
  assumes "becomes (path @ [SIdx (length pre)]) (erase x) (erase y) st st'"
  shows "turns path pre [x] post [y] st st'"
proof -
  obtain w where w: "jeq w (erase y)" "step_ok (path @ [SIdx (length pre)]) (erase x) w st st'"
    using assms by (auto simp: becomes_def)
  have "step_ok path (region pre [x] post) (write_own (SIdx (length pre)) w (region pre [x] post)) st st'"
    by (rule step_ok_child[OF w(2)]) simp
  then have "step_ok path (region pre [x] post) (JArr (pre @ [w] @ post)) st st'" by simp
  with w(1) show ?thesis unfolding turns_def by (intro exI[of _ "[w]"]) simp
qed

lemma turns_overflow: "snd st' \<Longrightarrow> universe U \<Longrightarrow> set ys \<subseteq> U \<Longrightarrow> turns path pre xs post ys st st'"
  unfolding turns_def using jeq_refl[of U]
  by (intro exI[of _ "map erase ys"]) (auto simp: step_ok_def list.rel_map intro!: list.rel_refl_strong)

text \<open>The trimmed ends are pairwise equal.\<close>

lemma trim_front_spec:
  assumes "trim_front before after i i' j j' = (b, a)" "i \<le> i'" "j \<le> j'"
  shows "i \<le> b \<and> b \<le> i' \<and> j \<le> a \<and> a \<le> j' \<and> a - j = b - i
    \<and> (\<forall>k < b - i. sameValue (before ! (i + k)) (after ! (j + k)))"
  using assms
proof (induction before after i i' j j' rule: trim_front.induct)
  case (1 before after i i' j j')
  show ?case
  proof (cases "i < i' \<and> j < j' \<and> sameValue (before ! i) (after ! j)")
    case True
    then have t: "trim_front before after (i + 1) i' (j + 1) j' = (b, a)"
      using 1(2) by (subst (asm) trim_front.simps) simp
    note IH = 1(1)[OF True t]
    have "sameValue (before ! (i + k)) (after ! (j + k))" if "k < b - i" for k
      using IH True that by (cases k) auto
    with IH True show ?thesis by auto
  next
    case False
    then have "(i, j) = (b, a)" using 1(2) by (subst (asm) trim_front.simps) (simp only: if_False)
    with 1(3,4) show ?thesis by auto
  qed
qed

lemma trim_back_spec:
  assumes "trim_back before after i i' j j' = (b, a)" "i \<le> i'" "j \<le> j'"
  shows "i \<le> b \<and> b \<le> i' \<and> j \<le> a \<and> a \<le> j' \<and> j' - a = i' - b
    \<and> (\<forall>k < i' - b. sameValue (before ! (b + k)) (after ! (a + k)))"
  using assms
proof (induction before after i i' j j' rule: trim_back.induct)
  case (1 before after i i' j j')
  show ?case
  proof (cases "i < i' \<and> j < j' \<and> sameValue (before ! (i' - 1)) (after ! (j' - 1))")
    case True
    then have t: "trim_back before after i (i' - 1) j (j' - 1) = (b, a)"
      using 1(2) by (subst (asm) trim_back.simps) simp
    have IH: "i \<le> b \<and> b \<le> i' - 1 \<and> j \<le> a \<and> a \<le> j' - 1 \<and> j' - 1 - a = i' - 1 - b
        \<and> (\<forall>k < i' - 1 - b. sameValue (before ! (b + k)) (after ! (a + k)))"
      using True by (intro 1(1)[OF True t]) auto
    have "sameValue (before ! (b + k)) (after ! (a + k))" if "k < i' - b" for k
    proof (cases "k < i' - 1 - b")
      case False
      then have "b + k = i' - 1" "a + k = j' - 1" using IH True that by auto
      then show ?thesis using True by simp
    qed (use IH in blast)
    with IH True show ?thesis by auto
  next
    case False
    then have "(i', j') = (b, a)" using 1(2) by (subst (asm) trim_back.simps) (simp only: if_False)
    with 1(3,4) show ?thesis by auto
  qed
qed

lemma slices_jeqs:
  assumes "universe U" "set before \<subseteq> U" "set after \<subseteq> U" "i + n \<le> length before" "j + n \<le> length after"
    and "\<forall>k < n. sameValue (before ! (i + k)) (after ! (j + k))"
  shows "jeqs (slice i (i + n) before) (slice j (j + n) after)"
  unfolding jeqs_def list_all2_conv_all_nth
proof (intro conjI allI impI)
  fix k
  assume "k < length (slice i (i + n) before)"
  then have k: "k < n" using assms(4) by simp
  then have "before ! (i + k) \<in> U" "after ! (j + k) \<in> U"
    using assms(2-5) by (meson add_strict_left_mono nth_mem order_less_le_trans subsetD)+
  with k assms(6) sameValue_jeq[OF assms(1)] show "jeq (erase (slice i (i + n) before ! k)) (erase (slice j (j + n) after ! k))"
    using assms(4,5) by (simp add: slice_nth)
qed (use assms(4,5) in simp)

subsection \<open>The recursion, a level of fuel at a time\<close>

definition value_correct :: "rev set \<Rightarrow> nat \<Rightarrow> bool" where
  "value_correct U n \<longleftrightarrow>
     (\<forall>b a path st st'. b \<in> U \<longrightarrow> a \<in> U \<longrightarrow> path_ok path \<longrightarrow> diffValue n b a path st = Some st' \<longrightarrow>
        becomes path (erase b) (erase a) st st')"

definition region_correct :: "rev set \<Rightarrow> nat \<Rightarrow> bool" where
  "region_correct U n \<longleftrightarrow>
     (\<forall>before after path i i' j j' pre post st st'.
        set before \<subseteq> U \<longrightarrow> set after \<subseteq> U \<longrightarrow> i \<le> i' \<longrightarrow> i' \<le> length before \<longrightarrow> j \<le> j' \<longrightarrow> j' \<le> length after \<longrightarrow>
        path_ok path \<longrightarrow> diffArrayRegion n before after path i i' j j' (length pre) st = Some st' \<longrightarrow>
        turns path pre (slice i i' before) post (slice j j' after) st st')"

lemma value_correctD:
  "value_correct U n \<Longrightarrow> diffValue n b a path st = Some st' \<Longrightarrow> b \<in> U \<Longrightarrow> a \<in> U \<Longrightarrow> path_ok path \<Longrightarrow>
     becomes path (erase b) (erase a) st st'"
  unfolding value_correct_def by blast

lemma region_correctD:
  "region_correct U n \<Longrightarrow> diffArrayRegion n before after path i i' j j' (length pre) st = Some st' \<Longrightarrow>
     set before \<subseteq> U \<Longrightarrow> set after \<subseteq> U \<Longrightarrow> i \<le> i' \<Longrightarrow> i' \<le> length before \<Longrightarrow> j \<le> j' \<Longrightarrow> j' \<le> length after \<Longrightarrow>
     path_ok path \<Longrightarrow> turns path pre (slice i i' before) post (slice j j' after) st st'"
  unfolding region_correct_def by blast

lemma element_correct:
  assumes "universe U" "value_correct U n" "b \<in> U" "a \<in> U" "path_ok path"
    and "(if \<not> sameValue b a then diffValue n b a (path @ [SIdx (length pre)]) st else Some st) = Some st'"
  shows "turns path pre [b] post [a] st st'"
proof (cases "sameValue b a")
  case True
  then show ?thesis using assms sameValue_jeq by (auto simp: jeqs_def intro!: turns_keep)
next
  case False
  with assms have "becomes (path @ [SIdx (length pre)]) (erase b) (erase a) st st'"
    by (auto intro!: value_correctD[OF assms(2)])
  then show ?thesis by (rule turns_element)
qed

lemma process_correct:
  assumes U: "universe U" and v: "value_correct U n" and r: "region_correct U n"
    and sub: "set before \<subseteq> U" "set after \<subseteq> U" "i' \<le> length before" "j' \<le> length after" "path_ok path"
    and "matches_in i i' j j' ms" "i \<le> i'" "j \<le> j'"
    and "processArrayMatches n before after path i i' j j' (length pre) ms st = Some st'"
  shows "turns path pre (slice i i' before) post (slice j j' after) st st'"
  using assms(9-)
proof (induction ms arbitrary: i j pre st)
  case Nil
  show ?case
  proof (cases "snd st")
    case True
    with Nil.prems have "st' = st" by simp
    with turns_overflow[OF True U order_trans[OF slice_subset sub(2)]] show ?thesis by simp
  next
    case False
    with Nil.prems region_correctD[OF r] sub show ?thesis by simp
  qed
next
  case (Cons m ms)
  obtain bm am where m: "m = (bm, am)" by fastforce
  have mi: "i \<le> bm" "bm < i'" "j \<le> am" "am < j'" "matches_in (bm + 1) i' (am + 1) j' ms"
    using Cons.prems(1) m by (auto simp: matches_in_Cons)
  show ?case
  proof (cases "snd st")
    case True
    with Cons.prems m have "st' = st" by simp
    with turns_overflow[OF True U order_trans[OF slice_subset sub(2)]] show ?thesis by simp
  next
    case False
    let ?out = "length pre + (am - j)"
    obtain st1 where 1: "diffArrayRegion n before after path i bm j am (length pre) st = Some st1"
      using Cons.prems(4) False m by (auto split: option.splits)
    obtain st2 where 2: "(if \<not> sameValue (before ! bm) (after ! am)
        then diffValue n (before ! bm) (after ! am) (path @ [SIdx ?out]) st1 else Some st1) = Some st2"
      using Cons.prems(4) False m 1 by (auto simp: Let_def split: option.splits if_splits)
    have 3: "processArrayMatches n before after path (bm + 1) i' (am + 1) j' (?out + 1) ms st2 = Some st'"
      using Cons.prems(4) False m 1 2 by (auto simp: Let_def split: if_splits)
    have bs: "slice i i' before = slice i bm before @ [before ! bm] @ slice (bm + 1) i' before"
      using mi sub slice_split[of i bm i' before] slice_split[of bm "bm + 1" i' before] slice_one[of bm before] by simp
    have as: "slice j j' after = slice j am after @ [after ! am] @ slice (am + 1) j' after"
      using mi sub slice_split[of j am j' after] slice_split[of am "am + 1" j' after] slice_one[of am after] by simp
    have el: "before ! bm \<in> U" "after ! am \<in> U" using mi sub by (meson nth_mem order_less_le_trans subsetD)+
    show ?thesis unfolding bs as
    proof (rule turns_append)
      show "turns path pre (slice i bm before) (map erase ([before ! bm] @ slice (bm + 1) i' before) @ post)
          (slice j am after) st st1"
        using region_correctD[OF r 1] sub mi by simp
      fix ws :: "json list"
      assume "length ws = length (slice j am after)"
      then have len: "length (pre @ ws) = ?out" using mi sub by simp
      show "turns path (pre @ ws) ([before ! bm] @ slice (bm + 1) i' before) post
          ([after ! am] @ slice (am + 1) j' after) st1 st'"
      proof (rule turns_append)
        show "turns path (pre @ ws) [before ! bm] (map erase (slice (bm + 1) i' before) @ post) [after ! am] st1 st2"
          by (rule element_correct[OF U v el sub(5)]) (simp only: len 2)
        fix ws' :: "json list"
        assume "length ws' = length [after ! am]"
        with len have "length ((pre @ ws) @ ws') = ?out + 1" by simp
        with Cons.IH[OF mi(5), of "(pre @ ws) @ ws'" st2] mi 3
        show "turns path ((pre @ ws) @ ws') (slice (bm + 1) i' before) post (slice (am + 1) j' after) st2 st'"
          by simp
      qed
    qed
  qed
qed

lemma middle_correct:
  assumes U: "universe U" and v: "value_correct U n" and r: "region_correct U n"
    and sub: "set before \<subseteq> U" "set after \<subseteq> U" "i' \<le> length before" "j' \<le> length after" "path_ok path"
    and ij: "i \<le> i'" "j \<le> j'" and out: "out = length pre"
    and st: "(let splice = OSplice path out (i' - i) (map erase (slice j j' after))
      in if i' - i = 0 \<and> j' - j = 0 then Some st
         else if i' - i = 0 \<or> j' - j = 0 then Some (emitOperation splice st)
         else case region_matches before after i i' j j' of
           m # ms \<Rightarrow> processArrayMatches n before after path i i' j j' out (m # ms) st
         | [] \<Rightarrow>
             if i' - i = 1 \<and> j' - j = 1
             then diffValue n (before ! i) (after ! j) (path @ [SIdx out]) st
             else Some (emitOperation splice st)) = Some st'"
  shows "turns path pre (slice i i' before) post (slice j j' after) st st'"
proof -
  have spl: "turns path pre (slice i i' before) post (slice j j' after) st
      (emitOperation (OSplice path out (i' - i) (map erase (slice j j' after))) st)"
    using sub out order_trans[OF slice_subset sub(2), of j j'] jeq_refl[OF U] by (intro turns_splice) auto
  consider (none) "i' - i = 0" "j' - j = 0"
    | (splice) "st' = emitOperation (OSplice path out (i' - i) (map erase (slice j j' after))) st"
    | (matches) m ms where "region_matches before after i i' j j' = m # ms"
        "processArrayMatches n before after path i i' j j' out (m # ms) st = Some st'"
    | (one) "i' - i = 1" "j' - j = 1" "diffValue n (before ! i) (after ! j) (path @ [SIdx out]) st = Some st'"
    using st by (auto simp: Let_def split: if_splits list.splits)
  then show ?thesis
  proof cases
    case none
    then have "st' = st" using st by (simp add: Let_def)
    with none show ?thesis using turns_keep[of "[]" "[]"] by (simp add: jeqs_def)
  next
    case splice
    with spl show ?thesis by simp
  next
    case matches
    have "matches_in i i' j j' (m # ms)"
      using region_matches_in[of i i' before j j' after] ij sub matches(1) by simp
    then show ?thesis using process_correct[OF U v r sub] ij matches(2) out by simp
  next
    case one
    then have e: "i < length before" "j < length after" "i' = Suc i" "j' = Suc j" using ij sub by auto
    then have "before ! i \<in> U" "after ! j \<in> U" using sub by auto
    with one(3) sub(5) out v have "becomes (path @ [SIdx (length pre)]) (erase (before ! i)) (erase (after ! j)) st st'"
      by (auto intro!: value_correctD[OF v])
    with e show ?thesis by (simp add: slice_one turns_element)
  qed
qed

lemma region_Suc:
  assumes U: "universe U" and v: "value_correct U n" and r: "region_correct U n"
  shows "region_correct U (Suc n)"
  unfolding region_correct_def
proof (intro allI impI)
  fix before after path i0 i0' j0 j0' and pre post :: "json list" and st st'
  assume sub: "set before \<subseteq> U" "set after \<subseteq> U" and i: "i0 \<le> i0'" "i0' \<le> length before"
    and j: "j0 \<le> j0'" "j0' \<le> length after" and p: "path_ok path"
    and d: "diffArrayRegion (Suc n) before after path i0 i0' j0 j0' (length pre) st = Some st'"
  show "turns path pre (slice i0 i0' before) post (slice j0 j0' after) st st'"
  proof (cases "snd st")
    case True
    with d have "st' = st" by simp
    with turns_overflow[OF True U order_trans[OF slice_subset sub(2)]] show ?thesis by simp
  next
    case False
    obtain i1 j1 where f: "trim_front before after i0 i0' j0 j0' = (i1, j1)" by fastforce
    obtain i2 j2 where b: "trim_back before after i1 i0' j1 j0' = (i2, j2)" by fastforce
    note fs = trim_front_spec[OF f i(1) j(1)]
    have bs: "i1 \<le> i2 \<and> i2 \<le> i0' \<and> j1 \<le> j2 \<and> j2 \<le> j0' \<and> j0' - j2 = i0' - i2
        \<and> (\<forall>k < i0' - i2. sameValue (before ! (i2 + k)) (after ! (j2 + k)))"
      using trim_back_spec[OF b] fs by simp
    have front: "jeqs (slice i0 i1 before) (slice j0 j1 after)"
    proof -
      have "i0 + (i1 - i0) = i1" "j0 + (i1 - i0) = j1" using fs by auto
      then show ?thesis using slices_jeqs[OF U sub, of i0 "i1 - i0" j0] fs i j by simp
    qed
    have rear: "jeqs (slice i2 i0' before) (slice j2 j0' after)"
    proof -
      have "i2 + (i0' - i2) = i0'" "j2 + (i0' - i2) = j0'" using bs by auto
      then show ?thesis using slices_jeqs[OF U sub, of i2 "i0' - i2" j2] bs i j by simp
    qed
    have B: "slice i0 i0' before = slice i0 i1 before @ slice i1 i2 before @ slice i2 i0' before"
      using slice_split[of i0 i1 i0' before] slice_split[of i1 i2 i0' before] fs bs by simp
    have A: "slice j0 j0' after = slice j0 j1 after @ slice j1 j2 after @ slice j2 j0' after"
      using slice_split[of j0 j1 j0' after] slice_split[of j1 j2 j0' after] fs bs by simp
    show ?thesis unfolding B A
    proof (rule turns_append[OF turns_keep[OF front]])
      fix ws :: "json list"
      assume "length ws = length (slice j0 j1 after)"
      then have out: "length pre + (i1 - i0) = length (pre @ ws)" using fs bs j by simp
      have m: "turns path (pre @ ws) (slice i1 i2 before) (map erase (slice i2 i0' before) @ post)
          (slice j1 j2 after) st st'"
      proof (rule middle_correct[OF U v r sub _ _ p _ _ out])
        show "(let splice = OSplice path (length pre + (i1 - i0)) (i2 - i1) (map erase (slice j1 j2 after))
            in if i2 - i1 = 0 \<and> j2 - j1 = 0 then Some st
               else if i2 - i1 = 0 \<or> j2 - j1 = 0 then Some (emitOperation splice st)
               else case region_matches before after i1 i2 j1 j2 of
                 m # ms \<Rightarrow> processArrayMatches n before after path i1 i2 j1 j2 (length pre + (i1 - i0)) (m # ms) st
               | [] \<Rightarrow>
                   if i2 - i1 = 1 \<and> j2 - j1 = 1
                   then diffValue n (before ! i1) (after ! j1) (path @ [SIdx (length pre + (i1 - i0))]) st
                   else Some (emitOperation splice st)) = Some st'"
          using d False f b by (simp only: diffArrayRegion.simps if_False Let_def prod.case)
      qed (use fs bs i j in simp_all)
      show "turns path (pre @ ws) (slice i1 i2 before @ slice i2 i0' before) post
          (slice j1 j2 after @ slice j2 j0' after) st st'"
        by (rule turns_append[OF m turns_keep[OF rear]])
    qed
  qed
qed

subsection \<open>Objects\<close>

lemma keys_correct:
  assumes U: "universe U" and v: "value_correct U n"
    and "snd ` set al \<subseteq> U" "snd ` set bl \<subseteq> U" "path_ok path"
    and "\<forall>k \<in> fst ` set bl. k \<notin> set RESERVED_SEGMENTS"
    and "distinct (map fst cur)" "distinct (map fst bl)"
    and "\<forall>k \<in> fst ` set bl. map_of cur k = map_option erase (map_of al k)"
    and "diffKeys n al path bl st = Some st'"
  shows "snd st' \<or> (\<exists>cur'. step_ok path (JObj cur) (JObj cur') st st' \<and> distinct (map fst cur')
    \<and> (\<forall>k. k \<notin> fst ` set bl \<longrightarrow> map_of cur' k = map_of cur k)
    \<and> (\<forall>(k, a) \<in> set bl. \<exists>w. map_of cur' k = Some w \<and> jeq w (erase a)))"
  using assms(4,6-)
proof (induction bl arbitrary: cur st)
  case Nil
  then show ?case using step_ok_refl by fastforce
next
  case (Cons x bl)
  obtain k a where x: "x = (k, a)" by fastforce
  show ?case
  proof (cases "snd st")
    case True
    with Cons.prems x show ?thesis by simp
  next
    case False
    obtain st1 where 1: "(case map_of al k of Some b \<Rightarrow> diffValue n b a (path @ [SKey k]) st
        | None \<Rightarrow> Some (emitSet (path @ [SKey k]) (erase a) st)) = Some st1"
      and 2: "diffKeys n al path bl st1 = Some st'"
      using Cons.prems(6) False x by (auto split: option.splits)
    have aU: "a \<in> U" and kp: "path_ok (path @ [SKey k])" using Cons.prems(1,2) x assms(5) by auto
    have ck: "map_of cur k = map_option erase (map_of al k)" using Cons.prems(5) x by simp
    have "\<exists>w. jeq w (erase a) \<and> step_ok path (JObj cur) (JObj (set_prop k w cur)) st st1"
    proof (cases "map_of al k")
      case None
      then have "st1 = emitOperation (OSet (path @ [SKey k]) (erase a)) st" using 1 by (simp add: emitSet_def)
      moreover have "runs path (JObj cur) [OSet (path @ [SKey k]) (erase a)] (JObj (set_prop k (erase a) cur))"
        using runs_set[of "JObj cur" "SKey k" path "erase a"] by simp
      ultimately show ?thesis using jeq_refl[OF U aU] kp by (auto intro!: step_ok_emit)
    next
      case (Some b)
      then have "b \<in> U" using assms(3) by (force dest: map_of_SomeD)
      with 1 Some have "becomes (path @ [SKey k]) (erase b) (erase a) st st1"
        using value_correctD[OF v _ _ aU kp] by simp
      then obtain w where w: "jeq w (erase a)" "step_ok (path @ [SKey k]) (erase b) w st st1"
        by (auto simp: becomes_def)
      have "step_ok path (JObj cur) (write_own (SKey k) w (JObj cur)) st st1"
        by (rule step_ok_child[OF w(2)]) (use ck Some in simp)
      with w(1) show ?thesis by auto
    qed
    then obtain w where w: "jeq w (erase a)" "step_ok path (JObj cur) (JObj (set_prop k w cur)) st st1" by blast
    have k_new: "k \<notin> fst ` set bl" using Cons.prems(4) x by simp
    have "snd st' \<or> (\<exists>cur'. step_ok path (JObj (set_prop k w cur)) (JObj cur') st1 st' \<and> distinct (map fst cur')
        \<and> (\<forall>l. l \<notin> fst ` set bl \<longrightarrow> map_of cur' l = map_of (set_prop k w cur) l)
        \<and> (\<forall>(l, c) \<in> set bl. \<exists>u. map_of cur' l = Some u \<and> jeq u (erase c)))"
      by (rule Cons.IH[OF _ _ _ _ _ 2]) (use Cons.prems x k_new in auto)
    then show ?thesis
    proof
      assume "\<exists>cur'. step_ok path (JObj (set_prop k w cur)) (JObj cur') st1 st' \<and> distinct (map fst cur')
        \<and> (\<forall>l. l \<notin> fst ` set bl \<longrightarrow> map_of cur' l = map_of (set_prop k w cur) l)
        \<and> (\<forall>(l, c) \<in> set bl. \<exists>u. map_of cur' l = Some u \<and> jeq u (erase c))"
      then obtain cur' where c: "step_ok path (JObj (set_prop k w cur)) (JObj cur') st1 st'" "distinct (map fst cur')"
        "\<forall>l. l \<notin> fst ` set bl \<longrightarrow> map_of cur' l = map_of (set_prop k w cur) l"
        "\<forall>(l, c) \<in> set bl. \<exists>u. map_of cur' l = Some u \<and> jeq u (erase c)"
        by blast
      have "map_of cur' k = Some w" using c(3) k_new by simp
      with c w(1) step_ok_trans[OF w(2) c(1)] x show ?thesis
        by (intro disjI2 exI[of _ cur']) auto
    qed simp
  qed
qed

lemma delete_keys_correct:
  assumes "path_ok path" "\<forall>k \<in> set ks. k \<notin> set RESERVED_SEGMENTS" "distinct (map fst cur)"
    and "delete_keys bl path ks st = st'"
  shows "snd st' \<or> (\<exists>cur'. step_ok path (JObj cur) (JObj cur') st st' \<and> distinct (map fst cur')
    \<and> (\<forall>k. map_of cur' k = (if k \<in> set ks \<and> map_of bl k = None then None else map_of cur k)))"
  using assms(2-)
proof (induction ks arbitrary: cur st)
  case Nil
  then show ?case using step_ok_refl by fastforce
next
  case (Cons k ks)
  show ?case
  proof (cases "snd st")
    case True
    with Cons.prems show ?thesis by simp
  next
    case False
    show ?thesis
    proof (cases "map_of bl k = None")
      case True
      let ?st = "emitOperation (ODelete (path @ [SKey k])) st"
      have s: "step_ok path (JObj cur) (JObj (del_prop k cur)) st ?st"
        using Cons.prems(1) assms(1) by (intro step_ok_emit runs_delete) auto
      have "delete_keys bl path ks ?st = st'" using Cons.prems(3) False True by simp
      then have "snd st' \<or> (\<exists>cur'. step_ok path (JObj (del_prop k cur)) (JObj cur') ?st st' \<and> distinct (map fst cur')
          \<and> (\<forall>l. map_of cur' l = (if l \<in> set ks \<and> map_of bl l = None then None else map_of (del_prop k cur) l)))"
        using Cons.prems by (intro Cons.IH) auto
      then show ?thesis
      proof
        assume "\<exists>cur'. step_ok path (JObj (del_prop k cur)) (JObj cur') ?st st' \<and> distinct (map fst cur')
          \<and> (\<forall>l. map_of cur' l = (if l \<in> set ks \<and> map_of bl l = None then None else map_of (del_prop k cur) l))"
        then obtain cur' where c: "step_ok path (JObj (del_prop k cur)) (JObj cur') ?st st'" "distinct (map fst cur')"
          "\<forall>l. map_of cur' l = (if l \<in> set ks \<and> map_of bl l = None then None else map_of (del_prop k cur) l)"
          by blast
        then have "\<forall>l. map_of cur' l = (if l \<in> set (k # ks) \<and> map_of bl l = None then None else map_of cur l)"
          using True by simp
        with c(2) step_ok_trans[OF s c(1)] show ?thesis by blast
      qed simp
    next
      case False2: False
      then have "delete_keys bl path ks st = st'" using Cons.prems(3) False by (simp only: delete_keys.simps if_False)
      then have "snd st' \<or> (\<exists>cur'. step_ok path (JObj cur) (JObj cur') st st' \<and> distinct (map fst cur')
          \<and> (\<forall>l. map_of cur' l = (if l \<in> set ks \<and> map_of bl l = None then None else map_of cur l)))"
        using Cons.prems by (intro Cons.IH) auto
      moreover have "(l \<in> set ks \<and> map_of bl l = None) = (l \<in> set (k # ks) \<and> map_of bl l = None)" for l
        using False2 by auto
      ultimately show ?thesis by simp
    qed
  qed
qed

lemma same_keys_length:
  "distinct (map fst al) \<Longrightarrow> distinct (map fst bl) \<Longrightarrow> fst ` set al = fst ` set bl \<Longrightarrow> length al = length bl"
  by (metis distinct_card length_map set_map)

lemma obj_jeq:
  assumes "distinct (map fst cur)" "distinct (map fst bl)"
    and "\<forall>k. k \<notin> fst ` set bl \<longrightarrow> map_of cur k = None"
    and "\<forall>(k, a) \<in> set bl. \<exists>w. map_of cur k = Some w \<and> jeq w (erase a)"
  shows "jeq (JObj cur) (erase (VObj i bl))"
proof -
  have keys: "fst ` set cur = fst ` set bl"
  proof (intro set_eqI iffI)
    fix k
    assume "k \<in> fst ` set cur"
    then have "map_of cur k \<noteq> None" by (simp add: map_of_eq_None_fst)
    then show "k \<in> fst ` set bl" using spec[OF assms(3), of k] by argo
  next
    fix k
    assume "k \<in> fst ` set bl"
    then obtain a where "(k, a) \<in> set bl" by force
    with assms(4) have "map_of cur k \<noteq> None" by fastforce
    then show "k \<in> fst ` set cur" by (simp add: map_of_eq_None_fst)
  qed
  have "case map_option erase (map_of bl k) of None \<Rightarrow> False | Some u \<Rightarrow> jeq v u" if "(k, v) \<in> set cur" for k v
  proof -
    have "k \<in> fst ` set bl" using keys that by force
    then obtain a where a: "(k, a) \<in> set bl" by force
    with assms(4) obtain w where "map_of cur k = Some w" "jeq w (erase a)" by blast
    moreover have "map_of cur k = Some v" "map_of bl k = Some a" using that a assms(1,2) by auto
    ultimately show ?thesis by simp
  qed
  then have "list_all (\<lambda>(k, v). case map_option erase (map_of bl k) of None \<Rightarrow> False | Some u \<Rightarrow> jeq v u) cur"
    unfolding list_all_iff by blast
  then show ?thesis using same_keys_length[OF assms(1,2) keys] by (simp add: map_of_erase)
qed

lemma object_correct:
  assumes U: "universe U" and v: "value_correct U n"
    and o1: "VObj i al \<in> U" and o2: "VObj j bl \<in> U" and "path_ok path"
    and "\<not> list_ex (\<lambda>k. k \<in> set RESERVED_SEGMENTS) (map fst al @ map fst bl)"
    and d: "diffKeys n al path bl st = Some st1"
  shows "becomes path (erase (VObj i al)) (erase (VObj j bl)) st (delete_keys bl path (map fst al) st1)"
proof -
  let ?cur = "map (\<lambda>(k, v). (k, erase v)) al" and ?st = "delete_keys bl path (map fst al) st1"
  have over: ?thesis if "snd ?st"
    using that jeq_refl[OF U o2] unfolding becomes_def step_ok_def by blast
  have keys: "map fst ?cur = map fst al" by (induction al) auto
  have ok: "\<forall>k \<in> set (map fst al). k \<notin> set RESERVED_SEGMENTS" "\<forall>k \<in> fst ` set bl. k \<notin> set RESERVED_SEGMENTS"
    using assms(6) by (auto simp: list_ex_iff)
  have d1: "distinct (map fst ?cur)" unfolding keys using universe_obj[OF U o1] by blast
  have 1: "snd st1 \<or> (\<exists>cur'. step_ok path (JObj ?cur) (JObj cur') st st1 \<and> distinct (map fst cur')
    \<and> (\<forall>k. k \<notin> fst ` set bl \<longrightarrow> map_of cur' k = map_of ?cur k)
    \<and> (\<forall>(k, a) \<in> set bl. \<exists>w. map_of cur' k = Some w \<and> jeq w (erase a)))"
    using universe_obj[OF U o1] universe_obj[OF U o2] assms(5) ok(2)
    by (intro keys_correct[OF U v _ _ _ _ d1 _ _ d]) (auto simp: map_of_erase)
  show ?thesis
  proof (cases "snd ?st")
    case False
    have "\<not> snd st1"
      using False by (cases "map fst al") auto
    then obtain c1 where c1: "step_ok path (JObj ?cur) (JObj c1) st st1" "distinct (map fst c1)"
      "\<forall>k. k \<notin> fst ` set bl \<longrightarrow> map_of c1 k = map_of ?cur k"
      "\<forall>(k, a) \<in> set bl. \<exists>w. map_of c1 k = Some w \<and> jeq w (erase a)"
      using 1 by blast
    obtain c2 where c2: "step_ok path (JObj c1) (JObj c2) st1 ?st" "distinct (map fst c2)"
      "\<forall>k. map_of c2 k = (if k \<in> set (map fst al) \<and> map_of bl k = None then None else map_of c1 k)"
      using delete_keys_correct[OF assms(5) ok(1) c1(2) refl, of bl st1] False by blast
    have "jeq (JObj c2) (erase (VObj j bl))"
    proof (rule obj_jeq[OF c2(2)])
      have "map_of c2 k = None" if "k \<notin> fst ` set bl" for k
      proof (cases "k \<in> set (map fst al)")
        case True
        then show ?thesis using c2(3) that by (simp add: map_of_eq_None_fst)
      next
        case False
        then have "map_of al k = None" by (simp add: map_of_eq_None_fst)
        then show ?thesis using c1(3) c2(3) that False by (simp add: map_of_erase)
      qed
      then show "\<forall>k. k \<notin> fst ` set bl \<longrightarrow> map_of c2 k = None" by blast
      have "map_of c2 k = map_of c1 k" if "(k, a) \<in> set bl" for k a
      proof -
        have "k \<in> fst ` set bl" using imageI[OF that, of fst] by simp
        then have "map_of bl k \<noteq> None" by (simp add: map_of_eq_None_fst)
        then show ?thesis using spec[OF c2(3), of k] by (simp only: simp_thms if_False)
      qed
      then show "\<forall>(k, a) \<in> set bl. \<exists>w. map_of c2 k = Some w \<and> jeq w (erase a)"
        using c1(4) by fastforce
    qed (use universe_obj[OF U o2] in blast)
    then show ?thesis using becomesI[OF _ step_ok_trans[OF c1(1) c2(1)]] by simp
  qed (rule over)
qed

lemma array_permuted:
  assumes U: "universe U" and sub: "set xs \<subseteq> U" "set ys \<subseteq> U" and p: "permutation xs ys = Some perm" and "path_ok path"
  shows "becomes path (JArr (map erase xs)) (JArr (map erase ys)) st (emitOperation (OPermute path perm) st)"
proof -
  note perm = permutation_correct[OF p]
  have "step_ok path (JArr (map erase xs)) (JArr (map (\<lambda>i. map erase xs ! i) perm)) st (emitOperation (OPermute path perm) st)"
    using perm(1,2) assms(5) by (intro step_ok_emit runs_permute) auto
  moreover have "list_all2 jeq (map (\<lambda>i. map erase xs ! i) perm) (map erase ys)"
    unfolding list.rel_map
  proof (rule list.rel_mono_strong[OF perm(3)])
    fix k y
    assume k: "k \<in> set perm" "y \<in> set ys" "same (xs ! k) y"
    then have "k < length xs" using perm(1,2) by (auto simp: is_permutation_def)
    moreover from this have "xs ! k \<in> U" using sub by auto
    ultimately show "jeq (map erase xs ! k) (erase y)"
      using universe_same[OF U _ _ k(3)] k(2) sub jeq_refl[OF U] by auto
  qed
  ultimately show ?thesis by (auto intro: becomesI[rotated])
qed

lemma array_correct:
  assumes U: "universe U" and r: "region_correct U n" and "VArr i xs \<in> U" "VArr j ys \<in> U" and p: "path_ok path"
    and d: "diffArrayRegion n xs ys path 0 (length xs) 0 (length ys) 0 st = Some st'"
  shows "becomes path (JArr (map erase xs)) (JArr (map erase ys)) st st'"
proof -
  have "set xs \<subseteq> U" "set ys \<subseteq> U" using universe_arr[OF U] assms(3,4) by auto
  then have "turns path [] (slice 0 (length xs) xs) [] (slice 0 (length ys) ys) st st'"
    using region_correctD[OF r, of xs ys path 0 _ 0 _ "[]"] d p by simp
  then obtain ws where "list_all2 jeq ws (map erase ys)" "step_ok path (JArr (map erase xs)) (JArr ws) st st'"
    by (auto simp: turns_def slice_def)
  then show ?thesis by (auto intro: becomesI[rotated])
qed

lemma value_Suc:
  assumes U: "universe U" and v: "value_correct U n" and r: "region_correct U n"
  shows "value_correct U (Suc n)"
  unfolding value_correct_def
proof (intro allI impI)
  fix b a path st st'
  assume bU: "b \<in> U" and aU: "a \<in> U" and p: "path_ok path" and d: "diffValue (Suc n) b a path st = Some st'"
  have keep: "becomes path (erase b) (erase a) st st" if "sameValue b a"
    using becomesI[OF sameValue_jeq[OF U bU aU that] step_ok_refl] .
  note set_it = emitSet_becomes[OF U aU p, of "erase b" st]
  show "becomes path (erase b) (erase a) st st'"
  proof (cases "same b a \<or> snd st")
    case True
    then have "st' = st" using d by auto
    with True keep show ?thesis
      using jeq_refl[OF U aU] by (auto simp: sameValue_def becomes_def step_ok_def)
  next
    case False
    consider (str) t u where "b = VStr t" "a = VStr u" | (arr) i xs j ys where "b = VArr i xs" "a = VArr j ys"
      | (obj) i al j bl where "b = VObj i al" "a = VObj j bl" | (other) "st' = emitSet path (erase a) st"
      using d False by (cases b; cases a; auto)
    then show ?thesis
    proof cases
      case str
      then show ?thesis using d False set_it emitString_becomes[of path t u st] p
        by (cases "path = []") auto
    next
      case arr
      have sub: "set xs \<subseteq> U" "set ys \<subseteq> U" using universe_arr[OF U] bU aU arr by auto
      let ?m = "length xs = length ys \<and> length xs > 1 \<and> \<not> sameValue (hd xs) (hd ys)
          \<and> \<not> sameValue (last xs) (last ys) \<and> permutation xs ys \<noteq> None"
      have e: "(if equalJson b a then Some st
          else if ?m then Some (emitOperation (OPermute path (the (permutation xs ys))) st)
          else diffArrayRegion n xs ys path 0 (length xs) 0 (length ys) 0 st) = Some st'"
        using d False unfolding arr by (simp only: diffValue.simps if_False prod.case rev.case)
      consider (eq) "equalJson b a" "st' = st"
        | (perm) q where "permutation xs ys = Some q" "st' = emitOperation (OPermute path q) st"
        | (region) "diffArrayRegion n xs ys path 0 (length xs) 0 (length ys) 0 st = Some st'"
      proof (cases "equalJson b a")
        case True
        with e that(1) show ?thesis by simp
      next
        case ne: False
        show ?thesis
        proof (cases ?m)
          case True
          with e[unfolded if_not_P[OF ne] if_P[OF True]] that(2) show ?thesis by auto
        next
          case False
          with e[unfolded if_not_P[OF ne] if_not_P[OF False]] that(3) show ?thesis by simp
        qed
      qed
      then show ?thesis
      proof cases
        case eq
        with keep show ?thesis by (simp add: sameValue_def)
      next
        case perm
        then show ?thesis using array_permuted[OF U sub perm(1) p] arr by simp
      next
        case region
        then show ?thesis using array_correct[OF U r _ _ p region] bU aU arr by auto
      qed
    next
      case obj
      let ?reserved = "list_ex (\<lambda>k. k \<in> set RESERVED_SEGMENTS) (map fst al @ map fst bl)"
      show ?thesis
      proof (cases ?reserved)
        case True
        then have "st' = (if \<not> equalJson b a then emitSet path (erase a) st else st)"
          using d False unfolding obj by (simp del: equalJson.simps)
        with keep set_it show ?thesis by (cases "equalJson b a") (simp_all add: sameValue_def)
      next
        case False2: False
        then obtain st1 where "diffKeys n al path bl st = Some st1" "st' = delete_keys bl path (map fst al) st1"
          using d False unfolding obj by (auto simp del: equalJson.simps split: option.splits)
        then show ?thesis using object_correct[OF U v _ _ p False2] bU aU obj by simp
      qed
    next
      case other
      with set_it show ?thesis by simp
    qed
  qed
qed

lemma fuel_correct: "universe U \<Longrightarrow> value_correct U n \<and> region_correct U n"
proof (induction n)
  case 0
  then show ?case by (simp add: value_correct_def region_correct_def)
next
  case (Suc n)
  then show ?case using value_Suc region_Suc by blast
qed

subsection \<open>The fuel is enough\<close>

abbreviation weight :: "nat \<Rightarrow> nat \<Rightarrow> rev list \<Rightarrow> nat" where
  "weight i i' xs \<equiv> size_list size (slice i i' xs)"

lemma weight_split: "i \<le> j \<Longrightarrow> j \<le> k \<Longrightarrow> weight i k xs = weight i j xs + weight j k xs"
  by (simp add: slice_split[of i j k xs])

lemma weight_one: "i < length xs \<Longrightarrow> weight i (Suc i) xs = Suc (size (xs ! i))"
  by (simp add: slice_one)

definition value_total :: "nat \<Rightarrow> bool" where
  "value_total n \<longleftrightarrow> (\<forall>b a path st. size b + size a < n \<longrightarrow> diffValue n b a path st \<noteq> None)"

definition region_total :: "nat \<Rightarrow> bool" where
  "region_total n \<longleftrightarrow>
     (\<forall>before after path i i' j j' out st.
        i \<le> i' \<longrightarrow> i' \<le> length before \<longrightarrow> j \<le> j' \<longrightarrow> j' \<le> length after \<longrightarrow>
        weight i i' before + weight j j' after < n \<longrightarrow>
        diffArrayRegion n before after path i i' j j' out st \<noteq> None)"

lemma value_totalD: "value_total n \<Longrightarrow> size b + size a < n \<Longrightarrow> \<exists>st'. diffValue n b a path st = Some st'"
  unfolding value_total_def by blast

lemma region_totalD:
  "region_total n \<Longrightarrow> i \<le> i' \<Longrightarrow> i' \<le> length before \<Longrightarrow> j \<le> j' \<Longrightarrow> j' \<le> length after \<Longrightarrow>
     weight i i' before + weight j j' after < n \<Longrightarrow>
     \<exists>st'. diffArrayRegion n before after path i i' j j' out st = Some st'"
  unfolding region_total_def by blast

lemma process_total:
  assumes v: "value_total n" and r: "region_total n"
    and "i' \<le> length before" "j' \<le> length after"
    and "matches_in i i' j j' ms" "i \<le> i'" "j \<le> j'"
    and "weight i i' before + weight j j' after \<le> n"
    and "ms = [] \<longrightarrow> weight i i' before + weight j j' after < n"
  shows "processArrayMatches n before after path i i' j j' out ms st \<noteq> None"
  using assms(5-)
proof (induction ms arbitrary: i j out st)
  case Nil
  then show ?case using region_totalD[OF r Nil.prems(2) assms(3) Nil.prems(3) assms(4), of path out st] by auto
next
  case (Cons m ms)
  obtain bm am where m: "m = (bm, am)" by fastforce
  have mi: "i \<le> bm" "bm < i'" "j \<le> am" "am < j'" "matches_in (bm + 1) i' (am + 1) j' ms"
    using Cons.prems(1) m by (auto simp: matches_in_Cons)
  have wb: "weight i i' before = weight i bm before + Suc (size (before ! bm)) + weight (Suc bm) i' before"
    using mi assms(3) weight_split[of i bm i' before] weight_split[of bm "Suc bm" i' before] weight_one[of bm before]
    by simp
  have wa: "weight j j' after = weight j am after + Suc (size (after ! am)) + weight (Suc am) j' after"
    using mi assms(4) weight_split[of j am j' after] weight_split[of am "Suc am" j' after] weight_one[of am after]
    by simp
  obtain st1 where 1: "diffArrayRegion n before after path i bm j am out st = Some st1"
    using region_totalD[OF r, of i bm before j am after path out st] mi assms(3,4) Cons.prems(4) wb wa by auto
  let ?out = "out + (am - j)"
  have "\<exists>st2. (if \<not> sameValue (before ! bm) (after ! am)
      then diffValue n (before ! bm) (after ! am) (path @ [SIdx ?out]) st1 else Some st1) = Some st2"
    using value_totalD[OF v, of "before ! bm" "after ! am" "path @ [SIdx ?out]" st1] Cons.prems(4) wb wa by simp
  then obtain st2 where 2: "(if \<not> sameValue (before ! bm) (after ! am)
      then diffValue n (before ! bm) (after ! am) (path @ [SIdx ?out]) st1 else Some st1) = Some st2" ..
  have "processArrayMatches n before after path (bm + 1) i' (am + 1) j' (?out + 1) ms st2 \<noteq> None"
    using Cons.prems(4) wb wa mi by (intro Cons.IH) auto
  then show ?case using m 1 2 by (simp add: Let_def split: if_splits)
qed

lemma region_total_Suc:
  assumes v: "value_total n" and r: "region_total n"
  shows "region_total (Suc n)"
  unfolding region_total_def
proof (intro allI impI)
  fix before after path i0 i0' j0 j0' and out :: nat and st
  assume i: "i0 \<le> i0'" "i0' \<le> length before" and j: "j0 \<le> j0'" "j0' \<le> length after"
    and w: "weight i0 i0' before + weight j0 j0' after < Suc n"
  obtain i1 j1 where f: "trim_front before after i0 i0' j0 j0' = (i1, j1)" by fastforce
  obtain i2 j2 where b: "trim_back before after i1 i0' j1 j0' = (i2, j2)" by fastforce
  note fs = trim_front_spec[OF f i(1) j(1)]
  have bs: "i1 \<le> i2 \<and> i2 \<le> i0' \<and> j1 \<le> j2 \<and> j2 \<le> j0'"
    using trim_back_spec[OF b] fs by simp
  have "weight i1 i2 before \<le> weight i0 i0' before" "weight j1 j2 after \<le> weight j0 j0' after"
    using fs bs weight_split[of i0 i1 i0' before] weight_split[of i1 i2 i0' before]
      weight_split[of j0 j1 j0' after] weight_split[of j1 j2 j0' after] by simp_all
  then have w': "weight i1 i2 before + weight j1 j2 after \<le> n" using w by simp
  let ?o = "out + (i1 - i0)"
  have p: "processArrayMatches n before after path i1 i2 j1 j2 ?o (m # ms) st \<noteq> None"
    if "region_matches before after i1 i2 j1 j2 = m # ms" for m ms
    using region_matches_in[of i1 i2 before j1 j2 after] that bs i j w' by (intro process_total[OF v r]) auto
  have d: "diffValue n (before ! i1) (after ! j1) (path @ [SIdx ?o]) st \<noteq> None" if "i2 - i1 = 1" "j2 - j1 = 1"
  proof -
    have "i2 = Suc i1" "j2 = Suc j1" "i1 < length before" "j1 < length after" using that bs i j by auto
    then have "size (before ! i1) + size (after ! j1) < n" using w' by (simp add: weight_one)
    then show ?thesis using value_totalD[OF v] by (metis option.distinct(1))
  qed
  show "diffArrayRegion (Suc n) before after path i0 i0' j0 j0' out st \<noteq> None"
    using p d by (auto simp: f b Let_def split: list.split)
qed

lemma keys_total:
  assumes "value_total n" "\<forall>(k, a) \<in> set bl. \<forall>b. map_of al k = Some b \<longrightarrow> size b + size a < n"
  shows "diffKeys n al path bl st \<noteq> None"
  using assms(2)
proof (induction bl arbitrary: st)
  case (Cons x bl)
  obtain k a where x: "x = (k, a)" by fastforce
  have "\<exists>st1. (case map_of al k of Some b \<Rightarrow> diffValue n b a (path @ [SKey k]) st
        | None \<Rightarrow> Some (emitSet (path @ [SKey k]) (erase a) st)) = Some st1"
    using value_totalD[OF assms(1)] Cons.prems x by (auto split: option.split)
  then show ?case using Cons x by auto
qed simp

lemma size_arr: "size_list size xs < size (VArr i xs)"
  by simp

lemma size_prop: "(k, v) \<in> set al \<Longrightarrow> size v < size (VObj i al)"
  by (induction al) auto

lemma value_total_Suc:
  assumes v: "value_total n" and r: "region_total n"
  shows "value_total (Suc n)"
  unfolding value_total_def
proof (intro allI impI)
  fix b a :: rev and path st
  assume s: "size b + size a < Suc n"
  have arr: "diffArrayRegion n xs ys path 0 (length xs) 0 (length ys) 0 st \<noteq> None"
    if "b = VArr i xs" "a = VArr j ys" for i xs j ys
    using region_totalD[OF r, of 0 "length xs" xs 0 "length ys" ys path 0 st] s that by (auto simp: slice_def)
  have obj: "diffKeys n al path bl st \<noteq> None" if o': "b = VObj i al" "a = VObj j bl" for i al j bl
  proof (rule keys_total[OF v], clarify)
    fix k c d
    assume "(k, c) \<in> set bl" "map_of al k = Some d"
    then have "size c < size a" "size d < size b"
      using size_prop[of k c bl j] size_prop[of k d al i] o' by (auto dest: map_of_SomeD)
    with s show "size d + size c < n" by simp
  qed
  consider (objs) i al j bl where "b = VObj i al" "a = VObj j bl" | (arrs) i xs j ys where "b = VArr i xs" "a = VArr j ys"
    | (rest) "diffValue (Suc n) b a path st \<noteq> None"
    by (cases b; cases a; simp)
  then show "diffValue (Suc n) b a path st \<noteq> None"
  proof cases
    case objs
    with obj[OF objs] show ?thesis by (auto simp del: equalJson.simps)
  next
    case arrs
    with arr[OF arrs] show ?thesis by (auto simp del: equalJson.simps)
  qed
qed

lemma fuel_enough: "value_total n \<and> region_total n"
proof (induction n)
  case 0
  then show ?case by (simp add: value_total_def region_total_def)
next
  case (Suc n)
  then show ?case using value_total_Suc region_total_Suc by blast
qed

subsection \<open>Properties\<close>

text \<open>
  C6: the difference is total and correct. Whenever identities are consistent and keys are distinct,
  \<open>diffRevisions\<close> returns a batch, the applier accepts every operation of it as untrusted input, and
  applying it to the old revision gives the new one up to the order of object keys. This covers
  every path of the code: identity and semantic anchors, permutations, text overlaps, and the
  fallback to one replacement when a batch overflows or costs more than a snapshot.
\<close>

theorem diff_then_apply:
  assumes "revisions_ok before after"
  shows "\<exists>ops w. diffRevisions num_len before after = Some ops
    \<and> applyOps (Some (erase before)) (map op_json ops) = Inr (Some w) \<and> jeq w (erase after)"
proof -
  let ?U = "set (subs before @ subs after)"
  have U: "universe ?U" and b: "before \<in> ?U" and a: "after \<in> ?U"
    using revisions_universe[OF assms] subs_self by auto
  obtain ops over where d: "diffValue (Suc (size before + size after)) before after [] ([], False) = Some (ops, over)"
    using value_totalD[OF conjunct1[OF fuel_enough], of before after "Suc (size before + size after)" "[]" "([], False)"]
    by auto
  then have bec: "becomes [] (erase before) (erase after) ([], False) (ops, over)"
    using value_correctD[OF conjunct1[OF fuel_correct[OF U]] d b a] by simp
  have good: "\<exists>w. applyOps (Some (erase before)) (map op_json ops) = Inr (Some w) \<and> jeq w (erase after)" if no: "\<not> over"
  proof -
    obtain w where w: "jeq w (erase after)" "list_all op_ok ops" "runs [] (erase before) ops w"
      using bec no by (auto simp: becomes_def step_ok_def)
    then have "apply_all (erase before) ops = Inr w" by (simp add: runs_def)
    with w applyOps_tuples show ?thesis by blast
  qed
  have repl: "applyOps (Some (erase before)) (map op_json [OReplace (erase after)]) = Inr (Some (erase after))"
    by (rule applyOps_tuples) simp_all
  have "jeq (erase after) (erase after)" by (rule jeq_refl[OF U a])
  then show ?thesis using d good repl
    by (cases over) (auto simp: diffRevisions_def Let_def simp del: applyOps.simps)
qed

definition counter_before :: rev where
  "counter_before = VObj 0 [(''n'', VNum 1), (''log'', VArr 1 [VStr ''ab''])]"

definition counter_after :: rev where
  "counter_after = VObj 2 [(''log'', VArr 3 [VStr ''ab'', VStr ''c'']), (''done'', VBool True)]"

theorem diff_then_apply_witness:
  "\<exists>ops w. diffRevisions (\<lambda>_. 1) counter_before counter_after = Some ops
    \<and> applyOps (Some (erase counter_before)) (map op_json ops) = Inr (Some w)
    \<and> jeq w (erase counter_after)"
  by (rule diff_then_apply) (simp add: revisions_ok_def counter_before_def counter_after_def)

end
