(* ===== verification/Delta_Immutable.thy ===== *)
theory Delta_Immutable
  imports Delta_Edit
begin

text \<open>
  The immutable replay of \<open>packages/chord/src/delta/index.ts\<close> (\<open>applyImmutableBatches\<close>,
  \<open>appendCopy\<close>, \<open>copyContainers\<close>, \<open>resolveValue\<close>): before an operation is applied, the containers on
  its path are copied, and an append to an array not copied before is built as one copy. The model
  keeps the values and every check; which containers were copied before (the \<open>owned\<close> set) is an
  arbitrary oracle, one answer per operation, so that the result is shown not to depend on it.
\<close>

definition is_container :: "json \<Rightarrow> bool" where
  "is_container v \<longleftrightarrow> is_JArr v \<or> is_JObj v"

text \<open>\<open>Object.hasOwn\<close> of a container: an array owns its indices and \<open>length\<close>.\<close>

fun has_own :: "seg \<Rightarrow> json \<Rightarrow> bool" where
  "has_own (SIdx i) (JArr xs) = (i < length xs)"
| "has_own (SKey k) (JArr xs) =
     (k = ''length'' \<or> (case index_key k of Some i \<Rightarrow> i < length xs | None \<Rightarrow> False))"
| "has_own seg (JObj al) = (map_of al (prop_key seg) \<noteq> None)"
| "has_own _ _ = False"

fun copy_from :: "path \<Rightarrow> path \<Rightarrow> json \<Rightarrow> delta_error + json" where
  "copy_from whole [] node = Inr node"
| "copy_from whole (seg # segs) node =
     (if \<not> has_own seg node then Inl (PathError whole)
      else case (node, seg) of
        (JArr _, SKey k) \<Rightarrow> Inl (UnsafePathError (JStr k))
      | _ \<Rightarrow>
          (case read_own seg node of
             None \<Rightarrow> Inl (PathError whole)
           | Some child \<Rightarrow>
               if \<not> is_container child then Inl (PathError whole)
               else and_then (copy_from whole segs child) (\<lambda>c. Inr (write_own seg c node))))"

definition copyContainers :: "json \<Rightarrow> path \<Rightarrow> delta_error + json" where
  "copyContainers doc path = (if \<not> is_container doc then Inl (PathError path) else copy_from path path doc)"

text \<open>The plain walk of \<open>appendCopy\<close>.\<close>

fun plain_walk :: "path \<Rightarrow> json \<Rightarrow> json option" where
  "plain_walk [] node = Some node"
| "plain_walk (SKey k # segs) (JObj al) =
     (if k \<in> set RESERVED_SEGMENTS then None
      else case map_of al k of None \<Rightarrow> None | Some v \<Rightarrow> plain_walk segs v)"
| "plain_walk (SIdx i # segs) (JArr xs) = (if i < length xs then plain_walk segs (xs ! i) else None)"
| "plain_walk _ _ = None"

definition appendCopy :: "bool \<Rightarrow> json \<Rightarrow> path \<Rightarrow> nat \<Rightarrow> nat \<Rightarrow> json list \<Rightarrow> (delta_error + json) option" where
  "appendCopy owned doc path index deleteCount items =
     (if deleteCount \<noteq> 0 then None
      else case plain_walk path doc of
        Some (JArr xs) \<Rightarrow>
          if owned \<or> index \<noteq> length xs then None
          else if path = [] then Some (Inr (JArr (xs @ items)))
          else Some (and_then (copyContainers doc (butlast path)) (\<lambda>copied.
                 at_path (butlast path) (\<lambda>parent. Inr (write_own (last path) (JArr (xs @ items)) parent))
                   (butlast path) copied))
      | _ \<Rightarrow> None)"

text \<open>The containers an operation changes: the array itself, or the parent of the target.\<close>

fun copied_path :: "op \<Rightarrow> path" where
  "copied_path (OSplice path _ _ _) = path"
| "copied_path (OPermute path _) = path"
| "copied_path (OSet path _) = butlast path"
| "copied_path (ODelete path) = butlast path"
| "copied_path (OAppend path _) = butlast path"
| "copied_path (OTruncate path _) = butlast path"
| "copied_path (OReplace _) = []"

definition replay_copied :: "json \<Rightarrow> op \<Rightarrow> json \<Rightarrow> delta_error + json option" where
  "replay_copied doc oper raw =
     and_then (copyContainers doc (copied_path oper)) (\<lambda>copied. applyOps (Some copied) [raw])"

definition replay_op :: "bool \<Rightarrow> json option \<Rightarrow> json \<Rightarrow> delta_error + json option" where
  "replay_op owned target raw =
     and_then (assertValidOp raw) (\<lambda>oper.
       case oper of
         OReplace v \<Rightarrow> Inr (Some v)
       | OSplice path index deleteCount items \<Rightarrow>
           (case appendCopy owned (as_root target) path index deleteCount items of
              Some r \<Rightarrow> and_then r (\<lambda>doc. Inr (Some doc))
            | None \<Rightarrow> replay_copied (as_root target) oper raw)
       | _ \<Rightarrow> replay_copied (as_root target) oper raw)"

fun replay_ops :: "(nat \<Rightarrow> bool) \<Rightarrow> nat \<Rightarrow> json option \<Rightarrow> json list \<Rightarrow> delta_error + json option" where
  "replay_ops owned i target [] = Inr target"
| "replay_ops owned i target (raw # raws) =
     and_then (replay_op (owned i) target raw) (\<lambda>t. replay_ops owned (Suc i) t raws)"

fun replay_batches :: "(nat \<Rightarrow> bool) \<Rightarrow> nat \<Rightarrow> json option \<Rightarrow> json list list \<Rightarrow> delta_error + json option" where
  "replay_batches owned i target [] = Inr target"
| "replay_batches owned i target (ops # bs) =
     and_then (replay_ops owned i target ops) (\<lambda>t. replay_batches owned (i + length ops) t bs)"

definition applyImmutableBatches :: "(nat \<Rightarrow> bool) \<Rightarrow> json option \<Rightarrow> json list list \<Rightarrow> delta_error + json option" where
  "applyImmutableBatches owned target bs = replay_batches owned 0 target bs"

definition applyImmutable :: "(nat \<Rightarrow> bool) \<Rightarrow> json option \<Rightarrow> json list \<Rightarrow> delta_error + json option" where
  "applyImmutable owned target ops = applyImmutableBatches owned target [ops]"

subsection \<open>A copy has the value of the original\<close>

lemma write_read_own: "read_own seg node = Some v \<Longrightarrow> write_own seg v node = node"
  by (cases "(seg, node)" rule: read_own.cases) (auto simp: set_prop_def old_prop_same split: if_splits)

lemma copy_from_same: "copy_from whole p node = Inr n \<Longrightarrow> n = node"
proof (induction p arbitrary: node n)
  case (Cons seg segs)
  from Cons.prems obtain child c where child: "read_own seg node = Some child"
    and "copy_from whole segs child = Inr c" "n = write_own seg c node"
    by (auto simp: and_then_Inr split: if_split_asm json.split_asm seg.split_asm option.split_asm)
  with Cons.IH[of child c] write_read_own[OF child] show ?case by simp
qed simp

lemma copyContainers_same: "copyContainers doc p = Inr d \<Longrightarrow> d = doc"
  by (auto simp: copyContainers_def copy_from_same split: if_splits)

text \<open>An edit that succeeds on containers only walks through containers.\<close>

lemma edit_through_containers:
  assumes "at_path whole f p node = Inr r" and "\<And>v w. f v = Inr w \<Longrightarrow> is_container v"
  shows "is_container node"
  using assms by (cases p) (auto simp: is_container_def split: json.splits)

lemma edit_copies:
  assumes "at_path whole f p node = Inr r" and "\<And>v w. f v = Inr w \<Longrightarrow> is_container v"
  shows "copy_from whole' p node = Inr node"
  using assms(1)
proof (induction p arbitrary: node r)
  case (Cons seg segs)
  have child: "is_container v \<and> copy_from whole' segs v = Inr v" if "at_path whole f segs v = Inr w" for v w
    using Cons.IH[OF that] edit_through_containers[OF that assms(2)] by simp
  show ?case
  proof (cases node)
    case (JArr xs)
    with Cons.prems show ?thesis
      by (cases seg) (auto simp: and_then_Inr dest!: child split: if_splits)
  next
    case (JObj al)
    with Cons.prems obtain v w where "map_of al (prop_key seg) = Some v" "at_path whole f segs v = Inr w"
      by (auto simp: and_then_Inr split: option.splits)
    with child[of v w] JObj write_read_own[of seg node v] show ?thesis by (cases seg) auto
  qed (use Cons.prems in auto)
qed simp

lemma at_parent_container: "at_parent p f doc = Inr r \<Longrightarrow> copyContainers doc (butlast p) = Inr doc"
  unfolding at_parent_def copyContainers_def
  by (frule edit_through_containers; (frule edit_copies)?)
     (auto simp: is_container_def split: if_splits)

lemma apply_op_copies:
  assumes "apply_op doc oper = Inr r" "\<And>v. oper \<noteq> OReplace v"
  shows "copyContainers doc (copied_path oper) = Inr doc"
proof -
  have array: "splice_node p i d xs v = Inr w \<Longrightarrow> is_container v" "permute_node p perm v = Inr w \<Longrightarrow> is_container v"
    for p i d xs perm v w
    by (cases v; simp add: is_container_def)+
  show ?thesis
  proof (cases oper)
    case (OSplice p i d xs)
    with assms have "at_path p (splice_node p i d xs) p doc = Inr r" by simp
    from edit_through_containers[OF this array(1)] edit_copies[OF this array(1), where whole' = p] OSplice
    show ?thesis by (simp add: copyContainers_def)
  next
    case (OPermute p perm)
    with assms have "at_path p (permute_node p perm) p doc = Inr r" by simp
    from edit_through_containers[OF this array(2)] edit_copies[OF this array(2), where whole' = p] OPermute
    show ?thesis by (simp add: copyContainers_def)
  qed (use assms in \<open>auto intro: at_parent_container\<close>)
qed

subsection \<open>An append built as one copy\<close>

lemma at_path_append:
  "at_path whole f (p @ [seg]) node = at_path whole (at_path whole f [seg]) p node"
proof (induction p arbitrary: node)
  case (Cons s p)
  then show ?case by (auto split: json.splits seg.splits option.splits)
qed simp

lemma plain_walk_append:
  "plain_walk (p @ [seg]) node = (case plain_walk p node of None \<Rightarrow> None | Some v \<Rightarrow> plain_walk [seg] v)"
  by (induction p node rule: plain_walk.induct) (auto split: option.splits)

lemma plain_walk_at:
  "plain_walk p node = Some v \<Longrightarrow> f v = Inr w \<Longrightarrow> g v = Inr w \<Longrightarrow> at_path whole f p node = at_path whole' g p node"
  by (induction p node rule: plain_walk.induct) (auto split: option.splits if_splits)

lemma plain_walk_total: "plain_walk p node = Some v \<Longrightarrow> f v = Inr w \<Longrightarrow> \<exists>r. at_path whole f p node = Inr r"
  by (induction p node rule: plain_walk.induct) (auto split: option.splits if_splits)

lemma splice_at_end: "splice_node path (length xs) 0 items (JArr xs) = Inr (JArr (xs @ items))"
  by (simp add: splice_node_eq js_splice_def del: splice_node.simps)

lemma plain_child:
  assumes "plain_walk [seg] parent = Some (JArr xs)"
  shows "at_path whole (splice_node path (length xs) 0 items) [seg] parent
       = Inr (write_own seg (JArr (xs @ items)) parent)" and "is_container parent"
  using assms
  by (cases seg; cases parent;
      simp add: splice_at_end is_container_def del: splice_node.simps split: if_split_asm option.split_asm)+

lemma appendCopy_applies:
  assumes "appendCopy owned doc path i d items = Some res"
  shows "res = apply_op doc (OSplice path i d items)"
proof -
  from assms obtain xs where walk: "plain_walk path doc = Some (JArr xs)" and d: "d = 0" and i: "i = length xs"
    and res: "res = (if path = [] then Inr (JArr (xs @ items))
        else and_then (copyContainers doc (butlast path)) (\<lambda>copied.
          at_path (butlast path) (\<lambda>parent. Inr (write_own (last path) (JArr (xs @ items)) parent)) (butlast path) copied))"
    unfolding appendCopy_def by (auto split: if_splits option.splits json.splits)
  show ?thesis
  proof (cases path rule: rev_cases)
    case Nil
    with walk d i res show ?thesis by (simp add: splice_at_end del: splice_node.simps)
  next
    case (snoc p seg)
    from walk snoc obtain parent where parent: "plain_walk p doc = Some parent"
      and child: "plain_walk [seg] parent = Some (JArr xs)"
      by (auto simp: plain_walk_append split: option.splits)
    note step = plain_child(1)[OF child, of path path items]
    let ?g = "\<lambda>v. if is_container v then Inr (write_own seg (JArr (xs @ items)) v) else Inl (PathError p)"
    from plain_walk_total[OF parent, of ?g] plain_child(2)[OF child]
    obtain r where r: "at_path p ?g p doc = Inr r" by fastforce
    have only: "is_container v" if "?g v = Inr w" for v w using that by (simp split: if_split_asm)
    from edit_through_containers[OF r only] edit_copies[OF r only, where whole' = p]
    have "copyContainers doc p = Inr doc" by (simp add: copyContainers_def)
    moreover have "at_path path (at_path path (splice_node path i d items) [seg]) p doc
        = at_path p (\<lambda>v. Inr (write_own seg (JArr (xs @ items)) v)) p doc"
      by (rule plain_walk_at[OF parent]) (use step i d in auto)
    ultimately show ?thesis using res snoc by (simp add: at_path_append del: at_path.simps)
  qed
qed

subsection \<open>The replay computes what the mutable applier computes\<close>

lemma replay_copied_applies:
  assumes "assertValidOp raw = Inr oper" "\<And>v. oper \<noteq> OReplace v"
  shows "replay_copied doc oper raw = Inr r \<longleftrightarrow> applyOps (Some doc) [raw] = Inr r"
  using assms apply_op_copies[of doc oper]
  by (auto simp: replay_copied_def and_then_Inr as_root_def dest: copyContainers_same)

lemma replay_op_applies: "replay_op owned target raw = Inr r \<longleftrightarrow> applyOps target [raw] = Inr r"
proof (cases "assertValidOp raw")
  case (Inr oper)
  have same: "applyOps target [raw] = applyOps (Some (as_root target)) [raw]" by (simp add: as_root_def)
  note plain = replay_copied_applies[OF Inr]
  show ?thesis
  proof (cases oper)
    case (OSplice path i d items)
    then show ?thesis
    proof (cases "appendCopy owned (as_root target) path i d items")
      case (Some res)
      with Inr OSplice appendCopy_applies[OF Some] show ?thesis by (auto simp: replay_op_def and_then_Inr)
    next
      case None
      with OSplice have "replay_op owned target raw = replay_copied (as_root target) oper raw"
        by (simp add: replay_op_def Inr)
      then show ?thesis unfolding same using plain[of "as_root target" r] OSplice by (simp del: applyOps.simps)
    qed
  next
    case (OReplace v)
    with Inr show ?thesis by (simp add: replay_op_def)
  qed (unfold same; (subst plain[symmetric])?; simp add: replay_op_def Inr)+
qed (simp add: replay_op_def)

lemma applyOps_cons:
  "applyOps target (raw # raws) = and_then (applyOps target [raw]) (\<lambda>t. applyOps t raws)"
  by (cases "assertValidOp raw") (auto simp: and_then_def split: sum.splits)

lemma applyOps_append: "applyOps target (xs @ ys) = and_then (applyOps target xs) (\<lambda>t. applyOps t ys)"
proof (induction xs arbitrary: target)
  case (Cons x xs)
  have "applyOps target ((x # xs) @ ys) = and_then (applyOps target [x]) (\<lambda>t. applyOps t (xs @ ys))"
    unfolding append_Cons by (rule applyOps_cons)
  moreover have "applyOps target (x # xs) = and_then (applyOps target [x]) (\<lambda>t. applyOps t xs)"
    by (rule applyOps_cons)
  ultimately show ?case by (simp add: Cons and_then_def split: sum.splits del: applyOps.simps)
qed simp

lemma replay_ops_applies: "replay_ops owned i target raws = Inr r \<longleftrightarrow> applyOps target raws = Inr r"
proof (induction raws arbitrary: i target)
  case (Cons raw raws)
  show ?case
    by (subst applyOps_cons) (simp add: and_then_Inr replay_op_applies Cons del: applyOps.simps(2))
qed simp

lemma immutable_replay:
  "applyImmutableBatches owned target bs = Inr r \<longleftrightarrow> applyOps target (concat bs) = Inr r"
proof -
  have "replay_batches owned i target bs = Inr r \<longleftrightarrow> applyOps target (concat bs) = Inr r" for i
    by (induction bs arbitrary: i target) (auto simp: and_then_Inr replay_ops_applies applyOps_append)
  then show ?thesis by (simp add: applyImmutableBatches_def)
qed

text \<open>C29: The immutable replay that rebuilds stored documents computes what the plain applier computes:
  whichever containers were copied before, it succeeds exactly when applying all batches in order
  succeeds, and with the same value.\<close>

theorem immutable_replay_applies:
  "applyImmutableBatches owned target bs = Inr r \<longleftrightarrow> applyOps target (concat bs) = Inr r"
  by (rule immutable_replay)

end
