(* ===== verification/Durable_Types.thy ===== *)
theory Durable_Types
  imports Delta_Immutable
begin

text \<open>
  The records of \<open>packages/durable/src/types.ts\<close> that the storage keeps, and the writes of one commit.
  IDs and commit sequences are the numbers of the source. Payloads (messages, task inputs and
  checkpoints, document values) are JSON values. An optional property is an option.
\<close>

record conversation =
  cv_id :: int
  cv_parent :: "(int \<times> int) option"   \<comment> \<open>conversation and inclusive entry\<close>
  cv_owner :: "(int \<times> int) option"    \<comment> \<open>conversation and task\<close>

datatype edit_action = EditOmit | EditReplace "json list"

record context_edit =
  ce_target :: int
  ce_action :: edit_action

record entry =
  en_id :: int
  en_conversation :: int
  en_kind :: string
  en_model :: "json list option"
  en_data :: "json option"
  en_head :: "int option"
  en_edits :: "context_edit list option"
  en_task :: "int option"

datatype submission_type = SubInput | SubWrite
datatype submission_status = SQueued | SPlaced | SDone | SUnanswered

datatype submission_state =
    Queued
  | Placed int
  | Done int "int option"                        \<comment> \<open>entry, and the answer of an input\<close>
  | Unanswered "int option" string "json option" \<comment> \<open>entry, reason, detail\<close>

fun submission_status_of :: "submission_state \<Rightarrow> submission_status" where
  "submission_status_of Queued = SQueued"
| "submission_status_of (Placed _) = SPlaced"
| "submission_status_of (Done _ _) = SDone"
| "submission_status_of (Unanswered _ _ _) = SUnanswered"

record submission =
  sb_id :: int
  sb_conversation :: int
  sb_request :: "string option"
  sb_type :: submission_type
  sb_state :: submission_state

definition sb_status :: "submission \<Rightarrow> submission_status" where
  "sb_status s = submission_status_of (sb_state s)"

datatype join_policy = FailFast | AllSettled

text \<open>Message and detail of a task's error.\<close>

type_synonym task_error = "string \<times> json option"

datatype task_outcome =
    Completed json
  | Failed task_error "json option"
  | Aborted "string option" "json option"
  | Orphaned string
  | Faulted task_error

datatype task_status = TPending | TRunning | TWaiting | TCompleting | TTerminal

datatype task_state =
    Pending json
  | Running json
  | Waiting json "int list" join_policy
  | Completing task_outcome
  | Terminal task_outcome

fun task_status_of :: "task_state \<Rightarrow> task_status" where
  "task_status_of (Pending _) = TPending"
| "task_status_of (Running _) = TRunning"
| "task_status_of (Waiting _ _ _) = TWaiting"
| "task_status_of (Completing _) = TCompleting"
| "task_status_of (Terminal _) = TTerminal"

record task =
  tk_id :: int
  tk_conversation :: int
  tk_kind :: string
  tk_version :: int
  tk_input :: json
  tk_owner :: "int option"
  tk_background :: bool
  tk_abort :: bool
  tk_restart :: bool                  \<comment> \<open>\<open>abortReason\<close> is \<open>restart\<close>\<close>
  tk_abandon :: bool
  tk_started :: "rat option"
  tk_ended :: "rat option"
  tk_state :: task_state
  tk_memos :: "(string \<times> json) list option"

definition tk_status :: "task \<Rightarrow> task_status" where
  "tk_status t = task_status_of (tk_state t)"

datatype doc_scope = SessionScope | ConversationScope int | TaskScope int
datatype doc_history = Latest | Rewindable
datatype doc_fork = ForkAsOf | ForkCurrent | ForkInitial

text \<open>The fields of a creation; the stamped record extends them.\<close>

record doc_create =
  dc_id :: int
  dc_kind :: string
  dc_key :: "string option"
  dc_scope :: doc_scope
  dc_history :: "doc_history option"
  dc_fork :: "doc_fork option"

record doc_record = doc_create +
  dr_created :: int
  dr_retired :: "int option"

datatype doc_point = Current | AtSeq int

datatype content = Base int json | Delta int "json list"

fun content_version :: "content \<Rightarrow> int" where
  "content_version (Base v _) = v"
| "content_version (Delta v _) = v"

fun is_base :: "content \<Rightarrow> bool" where
  "is_base (Base _ _) = True"
| "is_base (Delta _ _) = False"

record doc_address =
  ad_kind :: string
  ad_scope :: doc_scope
  ad_key :: "string option"

record stored_document =
  sd_record :: doc_record
  sd_version :: int
  sd_value :: json
  sd_deltas :: nat

datatype table_name = ConversationTable | EntryTable | TaskTable | SubmissionTable | DocumentTable

datatype storage_write =
    WConversation conversation
  | WEntry entry
  | WTask task
  | WSubmission submission
  | WCreate doc_create int json          \<comment> \<open>record, version and value of the base\<close>
  | WCopy doc_create int doc_point       \<comment> \<open>record, source document and point\<close>
  | WChange int content
  | WRetire int

end
