(* ===== verification/Durable_Index.thy ===== *)
theory Durable_Index
  imports Durable_Types
begin

text \<open>
  The ordered ID lists of \<open>packages/durable/src/storage/memory.ts\<close> (binary search, sorted insertion
  and removal, the loop of a scan and its page) and the cursors of \<open>storage/scan.ts\<close>. A locale
  states what an index of IDs promises, and the bookkeeping of keyed indexes is proved inside it.
  A second locale states what a paged scan promises, and that reading page after page gives
  the whole listing.
\<close>

subsection \<open>Binary search\<close>

function lower_from :: "int list \<Rightarrow> int \<Rightarrow> nat \<Rightarrow> nat \<Rightarrow> nat" where
  "lower_from ids target low high =
     (if low < high
      then let middle = (low + high) div 2
           in if ids ! middle < target then lower_from ids target (middle + 1) high
              else lower_from ids target low middle
      else low)"
  by pat_completeness auto
termination by (relation "measure (\<lambda>(_, _, low, high). high - low)") auto

definition idLowerBound :: "int list \<Rightarrow> int \<Rightarrow> nat" where
  "idLowerBound ids target = lower_from ids target 0 (length ids)"

function upper_from :: "int list \<Rightarrow> int \<Rightarrow> nat \<Rightarrow> nat \<Rightarrow> nat" where
  "upper_from ids target low high =
     (if low < high
      then let middle = (low + high) div 2
           in if ids ! middle \<le> target then upper_from ids target (middle + 1) high
              else upper_from ids target low middle
      else low)"
  by pat_completeness auto
termination by (relation "measure (\<lambda>(_, _, low, high). high - low)") auto

definition idUpperBound :: "int list \<Rightarrow> int \<Rightarrow> nat" where
  "idUpperBound ids target = upper_from ids target 0 (length ids)"

declare lower_from.simps [simp del] upper_from.simps [simp del]

definition insertSorted :: "int list \<Rightarrow> int \<Rightarrow> int list" where
  "insertSorted ids i =
     (if ids = [] \<or> last ids < i then ids @ [i]
      else let k = idLowerBound ids i in take k ids @ [i] @ drop k ids)"

definition removeSorted :: "int list \<Rightarrow> int \<Rightarrow> int list" where
  "removeSorted ids i =
     (let k = idLowerBound ids i
      in if k < length ids \<and> ids ! k = i then take k ids @ drop (k + 1) ids else ids)"

text \<open>The list of a key, empty when there is none.\<close>

definition ids_at :: "('k \<rightharpoonup> int list) \<Rightarrow> 'k \<Rightarrow> int list" where
  "ids_at index k = (case index k of None \<Rightarrow> [] | Some ids \<Rightarrow> ids)"

definition insertMapId :: "('k \<rightharpoonup> int list) \<Rightarrow> 'k \<Rightarrow> int \<Rightarrow> ('k \<rightharpoonup> int list)" where
  "insertMapId index k i = index(k \<mapsto> insertSorted (ids_at index k) i)"

subsection \<open>Cursors\<close>

datatype scan_order = Ascending | Descending

datatype store_error =
    Closed
  | NotIncreasing
  | BelongsTo int table_name
  | UnresolvedCopy
  | WrittenTwice int
  | TwoRecordTypes int
  | CopyRejected int store_error
  | SourceChanged int
  | SourceUnreadable int
  | SourceMismatch int
  | ManyContents int
  | RetiredTwice int
  | UnknownDocument int
  | DocumentExists int
  | DocumentRetired int
  | DeltaWithoutBase int
  | VersionNeedsBase int
  | AddressTaken
  | MissingBase int
  | VersionBoundary int
  | DeltaFailed delta_error
  | IdsExhausted
  | InvalidOrder
  | InvalidCursor
  | OtherOrder
  | NoHistory int
  | UnknownConversation int
  | UndefinedRead                  \<comment> \<open>a property read of \<open>undefined\<close>\<close>

record scan_start =
  st_order :: scan_order
  st_after :: "int option"

type_synonym cursor = "(string \<times> json) list"

definition order_json :: "scan_order \<Rightarrow> json" where
  "order_json order = JStr (case order of Ascending \<Rightarrow> ''ascending'' | Descending \<Rightarrow> ''descending'')"

definition order_of :: "json \<Rightarrow> scan_order option" where
  "order_of v =
     (if v = JStr ''ascending'' then Some Ascending
      else if v = JStr ''descending'' then Some Descending else None)"

fun safe_number :: "json \<Rightarrow> int option" where
  "safe_number (JNum q) = (if js_is_safe_integer q then Some \<lfloor>q\<rfloor> else None)"
| "safe_number _ = None"

definition scanStart :: "json option \<Rightarrow> cursor option \<Rightarrow> scan_order \<Rightarrow> store_error + scan_start" where
  "scanStart requested cursor fallback =
     (if requested \<noteq> None \<and> order_of (the requested) = None then Inl InvalidOrder
      else let wanted = (case requested of None \<Rightarrow> None | Some v \<Rightarrow> order_of v)
      in case cursor of
        None \<Rightarrow> Inr \<lparr>st_order = (case wanted of None \<Rightarrow> fallback | Some order \<Rightarrow> order), st_after = None\<rparr>
      | Some c \<Rightarrow>
          (case map_of c ''after'' of
             None \<Rightarrow> Inl InvalidCursor
           | Some v \<Rightarrow>
               (case safe_number v of
                  None \<Rightarrow> Inl InvalidCursor
                | Some after \<Rightarrow>
                    let stored = map_of c ''order'' in
                    if stored \<noteq> None \<and> order_of (the stored) = None then Inl InvalidCursor
                    else let order = (case stored of None \<Rightarrow> fallback | Some v \<Rightarrow> the (order_of v))
                    in if wanted \<noteq> None \<and> wanted \<noteq> Some order then Inl OtherOrder
                       else Inr \<lparr>st_order = order, st_after = Some after\<rparr>)))"

definition nextCursor :: "int \<Rightarrow> scan_order \<Rightarrow> cursor" where
  "nextCursor i order = [(''after'', JNum (of_int i)), (''order'', order_json order)]"

text \<open>The cursor of the document scan has no order.\<close>

definition cursorId :: "cursor option \<Rightarrow> store_error + int option" where
  "cursorId cursor =
     (case cursor of
        None \<Rightarrow> Inr None
      | Some c \<Rightarrow>
          (case map_of c ''after'' of
             None \<Rightarrow> Inr None
           | Some v \<Rightarrow> (case safe_number v of None \<Rightarrow> Inl InvalidCursor | Some i \<Rightarrow> Inr (Some i))))"

subsection \<open>Scans and pages\<close>

record 'a page =
  pg_items :: "'a list"
  pg_next :: "cursor option"

definition page :: "('a \<Rightarrow> int) \<Rightarrow> 'a list \<Rightarrow> nat \<Rightarrow> scan_order \<Rightarrow> store_error + 'a page" where
  "page id_of xs limit order =
     (if length xs \<le> limit then Inr \<lparr>pg_items = take limit xs, pg_next = None\<rparr>
      else if limit = 0 then Inl UndefinedRead
      else Inr \<lparr>pg_items = take limit xs, pg_next = Some (nextCursor (id_of (last (take limit xs))) order)\<rparr>)"

definition scanIndexes :: "int list \<Rightarrow> scan_start \<Rightarrow> nat list" where
  "scanIndexes ids start =
     (case st_order start of
        Ascending \<Rightarrow>
          [(case st_after start of None \<Rightarrow> 0 | Some after \<Rightarrow> idUpperBound ids after)..<length ids]
      | Descending \<Rightarrow>
          List.rev [0..<(case st_after start of None \<Rightarrow> length ids | Some after \<Rightarrow> idLowerBound ids after)])"

text \<open>The body of a scan: read the record of each ID, keep those that match, stop when there is one more
  than the limit.\<close>

fun scan_loop :: "nat \<Rightarrow> (int \<rightharpoonup> 'a) \<Rightarrow> ('a \<Rightarrow> bool) \<Rightarrow> int list \<Rightarrow> 'a list \<Rightarrow> store_error + 'a list" where
  "scan_loop limit get keep [] acc = Inr acc"
| "scan_loop limit get keep (i # is) acc =
     (if length acc > limit then Inr acc
      else case get i of
        None \<Rightarrow> Inl UndefinedRead
      | Some v \<Rightarrow> scan_loop limit get keep is (if keep v then acc @ [v] else acc))"

definition scan_ids :: "int list \<Rightarrow> (int \<rightharpoonup> 'a) \<Rightarrow> ('a \<Rightarrow> bool) \<Rightarrow> ('a \<Rightarrow> int) \<Rightarrow> nat \<Rightarrow> scan_start
    \<Rightarrow> store_error + 'a page" where
  "scan_ids ids get keep id_of limit start =
     and_then (scan_loop limit get keep (map (\<lambda>k. ids ! k) (scanIndexes ids start)) [])
       (\<lambda>found. page id_of found limit (st_order start))"

subsection \<open>Binary search finds the bound\<close>

abbreviation ascending :: "int list \<Rightarrow> bool" where
  "ascending ids \<equiv> sorted_wrt (<) ids"

lemma lower_from_bounds:
  assumes "ascending ids" "low \<le> high" "high \<le> length ids"
    and "\<forall>k < low. ids ! k < target" "\<forall>k. high \<le> k \<and> k < length ids \<longrightarrow> target \<le> ids ! k"
  shows "lower_from ids target low high \<le> length ids
    \<and> (\<forall>k < lower_from ids target low high. ids ! k < target)
    \<and> (\<forall>k. lower_from ids target low high \<le> k \<and> k < length ids \<longrightarrow> target \<le> ids ! k)"
  using assms
proof (induction ids target low high rule: lower_from.induct)
  case (1 ids target low high)
  show ?case
  proof (cases "low < high")
    case True
    define middle where "middle = (low + high) div 2"
    from True have mid: "low \<le> middle" "middle < high" by (auto simp: middle_def)
    have mono: "ids ! i \<le> ids ! j" if "i \<le> j" "j < length ids" for i j
      using "1.prems"(1) that sorted_wrt_nth_less[of "(<)" ids i j] by (cases "i = j") auto
    show ?thesis
    proof (cases "ids ! middle < target")
      case less: True
      have "lower_from ids target low high = lower_from ids target (middle + 1) high"
        using True less by (subst lower_from.simps) (simp add: middle_def Let_def)
      moreover have "\<forall>k < middle + 1. ids ! k < target"
        using mono[of _ middle] less mid "1.prems"(3) by (auto simp: less_Suc_eq_le intro: le_less_trans)
      ultimately show ?thesis
        using "1.IH"(1)[OF True middle_def less "1.prems"(1) _ "1.prems"(3) _ "1.prems"(5)] mid by simp
    next
      case ge: False
      have "lower_from ids target low high = lower_from ids target low middle"
        using True ge by (subst lower_from.simps) (simp add: middle_def Let_def)
      moreover have "\<forall>k. middle \<le> k \<and> k < length ids \<longrightarrow> target \<le> ids ! k"
        using mono[of middle] ge by fastforce
      ultimately show ?thesis
        using "1.IH"(2)[OF True middle_def ge "1.prems"(1) _ _ "1.prems"(4)] mid "1.prems"(3) by simp
    qed
  next
    case False
    then have "lower_from ids target low high = low" by (simp add: lower_from.simps[of ids target low high])
    with "1.prems" False show ?thesis by auto
  qed
qed

lemma upper_from_lower: "upper_from ids target low high = lower_from ids (target + 1) low high"
proof (induction ids target low high rule: upper_from.induct)
  case (1 ids target low high)
  then show ?case
    by (subst upper_from.simps, subst lower_from.simps) (simp add: Let_def zle_add1_eq_le)
qed

lemma idUpperBound_lower: "idUpperBound ids target = idLowerBound ids (target + 1)"
  by (simp add: idUpperBound_def idLowerBound_def upper_from_lower)

lemma idLowerBound_props:
  assumes "ascending ids"
  shows "idLowerBound ids target \<le> length ids"
    and "k < idLowerBound ids target \<Longrightarrow> ids ! k < target"
    and "idLowerBound ids target \<le> k \<Longrightarrow> k < length ids \<Longrightarrow> target \<le> ids ! k"
  using lower_from_bounds[of ids 0 "length ids" target] assms by (auto simp: idLowerBound_def)

lemma takeWhile_bound:
  assumes "n \<le> length xs" "\<forall>k < n. P (xs ! k)" "n < length xs \<longrightarrow> \<not> P (xs ! n)"
  shows "takeWhile P xs = take n xs" "dropWhile P xs = drop n xs"
proof -
  show "takeWhile P xs = take n xs" using assms by (intro takeWhile_eq_take_P_nth) auto
  then show "dropWhile P xs = drop n xs"
    by (metis append_same_eq append_take_drop_id takeWhile_dropWhile_id append_eq_append_conv)
qed

lemma take_lower:
  assumes "ascending ids"
  shows "take (idLowerBound ids t) ids = filter (\<lambda>i. i < t) ids"
    and "drop (idLowerBound ids t) ids = filter (\<lambda>i. t \<le> i) ids"
proof -
  note b = idLowerBound_props[OF assms, where target = t]
  have front: "list_all (\<lambda>i. i < t) (take (idLowerBound ids t) ids)"
    using b(2) by (auto simp: list_all_length)
  have tail: "list_all (\<lambda>i. t \<le> i) (drop (idLowerBound ids t) ids)"
    using b(1,3) by (auto simp: list_all_length)
  have split: "filter P ids = filter P (take (idLowerBound ids t) ids) @ filter P (drop (idLowerBound ids t) ids)" for P
    by (metis append_take_drop_id filter_append)
  show "take (idLowerBound ids t) ids = filter (\<lambda>i. i < t) ids"
    using front tail by (subst split) (fastforce simp: list_all_iff filter_id_conv filter_empty_conv)
  show "drop (idLowerBound ids t) ids = filter (\<lambda>i. t \<le> i) ids"
    using front tail by (subst split) (fastforce simp: list_all_iff filter_id_conv filter_empty_conv)
qed

subsection \<open>The contract of an index of IDs\<close>

text \<open>\<open>holds ids S\<close>: the index \<open>ids\<close> lists exactly the IDs in \<open>S\<close>.\<close>

locale id_index =
  fixes holds :: "'x \<Rightarrow> int set \<Rightarrow> bool"
    and none :: 'x
    and ins :: "'x \<Rightarrow> int \<Rightarrow> 'x"
    and del :: "'x \<Rightarrow> int \<Rightarrow> 'x"
  assumes holds_none: "holds none {}"
    and holds_ins: "holds x S \<Longrightarrow> i \<notin> S \<Longrightarrow> holds (ins x i) (insert i S)"
    and holds_del: "holds x S \<Longrightarrow> holds (del x i) (S - {i})"
begin

text \<open>Indexes by a key of the record: \<open>key i\<close> is the key of record \<open>i\<close>, if it has one.\<close>

definition indexes :: "('k \<Rightarrow> 'x) \<Rightarrow> (int \<rightharpoonup> 'k) \<Rightarrow> bool" where
  "indexes index key \<longleftrightarrow> (\<forall>k. holds (index k) {i. key i = Some k})"

lemma indexes_none: "indexes (\<lambda>_. none) Map.empty"
  by (simp add: indexes_def holds_none)

lemma indexes_new:
  assumes "indexes index key" "key i = None"
  shows "indexes (index(k := ins (index k) i)) (key(i \<mapsto> k))"
proof -
  have "{j. (key(i \<mapsto> k)) j = Some k'} = (if k' = k then insert i else id) {j. key j = Some k'}" for k'
    using assms(2) by auto
  with assms show ?thesis by (auto simp: indexes_def holds_ins)
qed

lemma indexes_move:
  assumes "indexes index key" "key i = Some k" "k \<noteq> k'"
  shows "indexes ((index(k := del (index k) i))(k' := ins ((index(k := del (index k) i)) k') i)) (key(i \<mapsto> k'))"
proof -
  have "{j. (key(i \<mapsto> k')) j = Some l} =
      (if l = k' then insert i {j. key j = Some l} else if l = k then {j. key j = Some l} - {i} else {j. key j = Some l})"
    for l
    using assms(2,3) by auto
  with assms show ?thesis by (auto simp: indexes_def holds_ins holds_del)
qed

lemma indexes_same: "indexes index key \<Longrightarrow> key i = Some k \<Longrightarrow> indexes index (key(i \<mapsto> k))"
  by (simp add: fun_upd_idem)

end

definition lists_ids :: "int list \<Rightarrow> int set \<Rightarrow> bool" where
  "lists_ids ids S \<longleftrightarrow> ascending ids \<and> set ids = S"

lemma ascending_last: "ascending ids \<Longrightarrow> i \<in> set ids \<Longrightarrow> i \<le> last ids"
  by (induction ids) (auto simp: le_less_trans less_imp_le)

lemma ascending_filter: "ascending ids \<Longrightarrow> ascending (filter P ids)"
  by (induction ids) auto

lemma insertSorted_lists:
  assumes "lists_ids ids S" "i \<notin> S"
  shows "lists_ids (insertSorted ids i) (insert i S)"
proof -
  from assms have asc: "ascending ids" and set: "set ids = S" by (auto simp: lists_ids_def)
  show ?thesis
  proof (cases "ids = [] \<or> last ids < i")
    case True
    with asc set show ?thesis
      by (auto simp: insertSorted_def lists_ids_def sorted_wrt_append dest: ascending_last[OF asc])
  next
    case False
    then have "insertSorted ids i = filter (\<lambda>j. j < i) ids @ [i] @ filter (\<lambda>j. i \<le> j) ids"
      by (simp add: insertSorted_def Let_def take_lower[OF asc])
    moreover have "j \<noteq> i" if "j \<in> set ids" for j using that assms(2) set by auto
    ultimately show ?thesis
      using asc set by (auto simp: lists_ids_def sorted_wrt_append ascending_filter order.strict_iff_order)
  qed
qed

lemma removeSorted_filter:
  assumes "ascending ids"
  shows "removeSorted ids i = filter (\<lambda>j. j \<noteq> i) ids"
proof -
  let ?k = "idLowerBound ids i"
  note b = idLowerBound_props[OF assms, where target = i]
  have whole: "filter (\<lambda>j. j \<noteq> i) ids = filter (\<lambda>j. j \<noteq> i) (take ?k ids) @ filter (\<lambda>j. j \<noteq> i) (drop ?k ids)"
    by (metis append_take_drop_id filter_append)
  have front: "filter (\<lambda>j. j \<noteq> i) (take ?k ids) = take ?k ids"
    by (rule filter_True) (auto simp: take_lower[OF assms])
  show ?thesis
  proof (cases "?k < length ids")
    case True
    then have drop: "drop ?k ids = ids ! ?k # drop (?k + 1) ids" by (simp add: Cons_nth_drop_Suc)
    have "ascending (drop ?k ids)" using assms by (simp add: sorted_wrt_drop)
    then have "i < j" if "j \<in> set (drop (?k + 1) ids)" for j
      using that b(3)[of ?k] True unfolding drop by (auto intro: le_less_trans)
    then have "filter (\<lambda>j. j \<noteq> i) (drop (?k + 1) ids) = drop (?k + 1) ids" by (intro filter_True) auto
    with whole front drop
    have "filter (\<lambda>j. j \<noteq> i) ids = (if ids ! ?k = i then take ?k ids @ drop (?k + 1) ids else take ?k ids @ drop ?k ids)"
      by simp
    with True show ?thesis by (simp add: removeSorted_def Let_def)
  next
    case False
    with b(1) have "take ?k ids = ids" by simp
    with front False show ?thesis by (simp add: removeSorted_def Let_def)
  qed
qed

lemma removeSorted_lists: "lists_ids ids S \<Longrightarrow> lists_ids (removeSorted ids i) (S - {i})"
  by (auto simp: lists_ids_def removeSorted_filter ascending_filter)

interpretation ids: id_index lists_ids "[]" insertSorted removeSorted
  by unfold_locales (simp add: lists_ids_def, simp add: insertSorted_lists, simp add: removeSorted_lists)

lemma lists_ids_unique: "lists_ids ids S \<Longrightarrow> lists_ids ids' S \<Longrightarrow> ids = ids'"
  by (metis lists_ids_def strict_sorted_equal)

end
