(* ===== verification/Durable_Memory.thy ===== *)
theory Durable_Memory
  imports Durable_Index "HOL-Library.AList"
begin

text \<open>
  The in-memory storage of \<open>packages/durable/src/storage/memory.ts\<close>: its tables and indexes, the
  preparation and application of a commit, and every read. A \<open>Map\<close> whose order is never read is a
  map; one whose order is read, or whose emptiness is, is an association list. The keys of the
  address and scope maps are JSON texts in the source and the values they encode here. Cloning
  and freezing keep values, so they do not appear.
\<close>

subsection \<open>State\<close>

record doc_state =
  ds_record :: doc_record
  ds_revisions :: "(content \<times> int) list"   \<comment> \<open>content and commit sequence\<close>

record address_index =
  ai_ids :: "int list"
  ai_current :: "int option"

record store =
  ms_types :: "int \<rightharpoonup> table_name"
  ms_conversations :: "int \<rightharpoonup> conversation"
  ms_conversationIds :: "int list"
  ms_byOwnerConversation :: "int \<rightharpoonup> int list"
  ms_byOwnerTask :: "int \<rightharpoonup> int list"
  ms_entries :: "int \<rightharpoonup> entry"
  ms_entryIds :: "int \<rightharpoonup> int list"
  ms_headEntryIds :: "int \<rightharpoonup> int list"
  ms_entrySeqs :: "int \<rightharpoonup> int"
  ms_tasks :: "int \<rightharpoonup> task"
  ms_taskIds :: "int list"
  ms_taskIdsByStatus :: "task_status \<Rightarrow> int list"
  ms_submissions :: "int \<rightharpoonup> submission"
  ms_submissionIds :: "int list"
  ms_submissionIdsByStatus :: "submission_status \<Rightarrow> int list"
  ms_byRequest :: "int \<rightharpoonup> (string \<times> int) list"
  ms_documents :: "int \<rightharpoonup> doc_state"
  ms_addresses :: "doc_address \<rightharpoonup> address_index"
  ms_byScope :: "doc_scope \<rightharpoonup> int list"
  ms_nextId :: int
  ms_nextSeq :: int
  ms_closed :: bool

definition new_store :: store where
  "new_store =
     \<lparr>ms_types = Map.empty, ms_conversations = Map.empty, ms_conversationIds = [],
      ms_byOwnerConversation = Map.empty, ms_byOwnerTask = Map.empty, ms_entries = Map.empty,
      ms_entryIds = Map.empty, ms_headEntryIds = Map.empty, ms_entrySeqs = Map.empty,
      ms_tasks = Map.empty, ms_taskIds = [], ms_taskIdsByStatus = (\<lambda>_. []),
      ms_submissions = Map.empty, ms_submissionIds = [], ms_submissionIdsByStatus = (\<lambda>_. []),
      ms_byRequest = Map.empty, ms_documents = Map.empty, ms_addresses = Map.empty,
      ms_byScope = Map.empty, ms_nextId = 2, ms_nextSeq = 1, ms_closed = False\<rparr>"

definition assertOpen :: "store \<Rightarrow> (store_error + 'a) \<Rightarrow> store_error + 'a" where
  "assertOpen m r = (if ms_closed m then Inl Closed else r)"

subsection \<open>Documents\<close>

definition recordAddressKey :: "'a doc_create_scheme \<Rightarrow> doc_address" where
  "recordAddressKey r = \<lparr>ad_kind = dc_kind r, ad_scope = dc_scope r, ad_key = dc_key r\<rparr>"

fun isAliveAt :: "doc_record \<Rightarrow> doc_point \<Rightarrow> bool" where
  "isAliveAt r Current = (dr_retired r = None)"
| "isAliveAt r (AtSeq s) = (dr_created r \<le> s \<and> (case dr_retired r of None \<Rightarrow> True | Some t \<Rightarrow> s < t))"

fun in_conversation :: "doc_scope \<Rightarrow> bool" where
  "in_conversation (ConversationScope _) = True"
| "in_conversation _ = False"

definition isCurrentOnly :: "'a doc_create_scheme \<Rightarrow> bool" where
  "isCurrentOnly r \<longleftrightarrow> \<not> in_conversation (dc_scope r) \<or> dc_history r = Some Latest"

text \<open>The delta batches after a base, and whether a revision that is no delta of the base's version cuts
  them short.\<close>

fun documentDeltaBatches :: "int \<Rightarrow> (content \<times> int) list \<Rightarrow> json list list \<times> bool" where
  "documentDeltaBatches version [] = ([], False)"
| "documentDeltaBatches version ((Delta v ops, s) # revs) =
     (if v \<noteq> version then ([], True)
      else let (bs, cut) = documentDeltaBatches version revs in (ops # bs, cut))"
| "documentDeltaBatches version ((Base _ _, s) # revs) = ([], True)"

text \<open>The last base, and the revisions after it.\<close>

fun last_base :: "(content \<times> int) list \<Rightarrow> ((int \<times> json) \<times> (content \<times> int) list) option" where
  "last_base [] = None"
| "last_base ((c, s) # revs) =
     (case last_base revs of
        Some r \<Rightarrow> Some r
      | None \<Rightarrow> (case c of Base v x \<Rightarrow> Some ((v, x), revs) | Delta _ _ \<Rightarrow> None))"

definition visible_revisions :: "doc_point \<Rightarrow> (content \<times> int) list \<Rightarrow> (content \<times> int) list" where
  "visible_revisions p revs = (case p of Current \<Rightarrow> revs | AtSeq s \<Rightarrow> filter (\<lambda>(_, t). t \<le> s) revs)"

text \<open>\<open>owned\<close> is the copy oracle of the immutable replay.\<close>

definition replay_document :: "(nat \<Rightarrow> bool) \<Rightarrow> int \<Rightarrow> (content \<times> int) list \<Rightarrow> store_error + (int \<times> json \<times> nat)" where
  "replay_document owned i revs =
     (case last_base revs of
        None \<Rightarrow> Inl (MissingBase i)
      | Some ((version, base), deltas) \<Rightarrow>
          let (bs, cut) = documentDeltaBatches version deltas in
          (case applyImmutableBatches owned (Some base) bs of
             Inl e \<Rightarrow> Inl (DeltaFailed e)
           | Inr v \<Rightarrow>
               if cut then Inl (VersionBoundary i)
               else Inr (version, as_root v, length deltas)))"

definition materializeDocument :: "(nat \<Rightarrow> bool) \<Rightarrow> store \<Rightarrow> int \<Rightarrow> doc_point \<Rightarrow> store_error + stored_document option" where
  "materializeDocument owned m i p =
     (case ms_documents m i of
        None \<Rightarrow> Inr None
      | Some d \<Rightarrow>
          if p \<noteq> Current \<and> isCurrentOnly (ds_record d) then Inl (NoHistory i)
          else if \<not> isAliveAt (ds_record d) p then Inr None
          else and_then (replay_document owned i (visible_revisions p (ds_revisions d)))
                 (\<lambda>(version, v, n).
                    Inr (Some \<lparr>sd_record = ds_record d, sd_version = version, sd_value = v, sd_deltas = n\<rparr>)))"

definition document :: "(nat \<Rightarrow> bool) \<Rightarrow> store \<Rightarrow> int \<Rightarrow> doc_point \<Rightarrow> store_error + stored_document option" where
  "document owned m i p = assertOpen m (materializeDocument owned m i p)"

subsection \<open>Preparing a commit\<close>

fun changed_document :: "storage_write \<Rightarrow> int option" where
  "changed_document (WCreate r _ _) = Some (dc_id r)"
| "changed_document (WCopy r _ _) = Some (dc_id r)"
| "changed_document (WChange i _) = Some i"
| "changed_document (WRetire i) = Some i"
| "changed_document _ = None"

definition copy_matches :: "doc_record \<Rightarrow> doc_create \<Rightarrow> bool" where
  "copy_matches source r \<longleftrightarrow>
     in_conversation (dc_scope source) \<and> in_conversation (dc_scope r) \<and> dc_kind source = dc_kind r
     \<and> dc_key source = dc_key r \<and> dc_history source = dc_history r \<and> dc_fork source = dc_fork r"

fun resolve_copy :: "(nat \<Rightarrow> bool) \<Rightarrow> store \<Rightarrow> int option list \<Rightarrow> storage_write \<Rightarrow> store_error + storage_write" where
  "resolve_copy owned m changed (WCopy r source p) =
     (if Some source \<in> set changed then Inl (CopyRejected (dc_id r) (SourceChanged source))
      else case materializeDocument owned m source p of
        Inl e \<Rightarrow> Inl (CopyRejected (dc_id r) e)
      | Inr None \<Rightarrow> Inl (CopyRejected (dc_id r) (SourceUnreadable source))
      | Inr (Some sd) \<Rightarrow>
          if copy_matches (sd_record sd) r then Inr (WCreate r (sd_version sd) (sd_value sd))
          else Inl (CopyRejected (dc_id r) (SourceMismatch source)))"
| "resolve_copy owned m changed w = Inr w"

fun each :: "('a \<Rightarrow> 'e + 'b) \<Rightarrow> 'a list \<Rightarrow> 'e + 'b list" where
  "each f [] = Inr []"
| "each f (x # xs) = and_then (f x) (\<lambda>y. and_then (each f xs) (\<lambda>ys. Inr (y # ys)))"

definition resolveDocumentCopies :: "(nat \<Rightarrow> bool) \<Rightarrow> store \<Rightarrow> storage_write list \<Rightarrow> store_error + storage_write list" where
  "resolveDocumentCopies owned m ws = each (resolve_copy owned m (map changed_document ws)) ws"

text \<open>The table and ID that a write claims, if any.\<close>

fun claim :: "storage_write \<Rightarrow> (int \<times> table_name) option" where
  "claim (WConversation c) = Some (cv_id c, ConversationTable)"
| "claim (WEntry e) = Some (en_id e, EntryTable)"
| "claim (WTask t) = Some (tk_id t, TaskTable)"
| "claim (WSubmission s) = Some (sb_id s, SubmissionTable)"
| "claim (WCreate r _ _) = Some (dc_id r, DocumentTable)"
| "claim (WCopy r _ _) = Some (dc_id r, DocumentTable)"
| "claim (WChange _ _) = None"
| "claim (WRetire _) = None"

definition written_once :: "table_name \<Rightarrow> bool" where
  "written_once t \<longleftrightarrow> t \<in> {ConversationTable, EntryTable, DocumentTable}"

fun checkGlobalIds :: "store \<Rightarrow> (int \<rightharpoonup> table_name) \<Rightarrow> storage_write list \<Rightarrow> store_error option" where
  "checkGlobalIds m claimed [] = None"
| "checkGlobalIds m claimed (w # ws) =
     (case claim w of
        None \<Rightarrow> checkGlobalIds m claimed ws
      | Some (i, t) \<Rightarrow>
          (case ms_types m i of
             Some t' \<Rightarrow>
               if written_once t \<or> t' \<noteq> t then Some (BelongsTo i t')
               else if claimed i \<noteq> None \<and> claimed i \<noteq> Some t then Some (TwoRecordTypes i)
               else checkGlobalIds m (claimed(i \<mapsto> t)) ws
           | None \<Rightarrow>
               if written_once t \<and> claimed i \<noteq> None then Some (WrittenTwice i)
               else if claimed i \<noteq> None \<and> claimed i \<noteq> Some t then Some (TwoRecordTypes i)
               else checkGlobalIds m (claimed(i \<mapsto> t)) ws))"

record doc_action =
  da_create :: "doc_create option"
  da_content :: "content option"
  da_retire :: bool

definition no_action :: doc_action where
  "no_action = \<lparr>da_create = None, da_content = None, da_retire = False\<rparr>"

type_synonym doc_actions = "(int \<times> doc_action) list"

definition action_of :: "doc_actions \<Rightarrow> int \<Rightarrow> doc_action" where
  "action_of acts i = (case map_of acts i of None \<Rightarrow> no_action | Some a \<Rightarrow> a)"

fun add_action :: "storage_write \<Rightarrow> doc_actions \<Rightarrow> store_error + doc_actions" where
  "add_action (WCreate r version v) acts =
     (let a = action_of acts (dc_id r) in
      if da_create a \<noteq> None \<or> da_content a \<noteq> None then Inl (ManyContents (dc_id r))
      else Inr (AList.update (dc_id r) (a\<lparr>da_create := Some r, da_content := Some (Base version v)\<rparr>) acts))"
| "add_action (WChange i c) acts =
     (let a = action_of acts i in
      if da_content a \<noteq> None then Inl (ManyContents i)
      else Inr (AList.update i (a\<lparr>da_content := Some c\<rparr>) acts))"
| "add_action (WRetire i) acts =
     (let a = action_of acts i in
      if da_retire a then Inl (RetiredTwice i)
      else Inr (AList.update i (a\<lparr>da_retire := True\<rparr>) acts))"
| "add_action _ acts = Inr acts"

fun prepareDocumentActions :: "storage_write list \<Rightarrow> doc_actions \<Rightarrow> store_error + doc_actions" where
  "prepareDocumentActions [] acts = Inr acts"
| "prepareDocumentActions (w # ws) acts = and_then (add_action w acts) (prepareDocumentActions ws)"

definition check_action :: "store \<Rightarrow> int \<Rightarrow> doc_action \<Rightarrow> store_error option" where
  "check_action m i a =
     (let existing = ms_documents m i;
          previous = (case existing of
              None \<Rightarrow> None
            | Some d \<Rightarrow> if ds_revisions d = [] then None else Some (fst (last (ds_revisions d))))
      in if da_create a = None \<and> existing = None then Some (UnknownDocument i)
         else if da_create a \<noteq> None \<and> existing \<noteq> None then Some (DocumentExists i)
         else if (case existing of None \<Rightarrow> False | Some d \<Rightarrow> dr_retired (ds_record d) \<noteq> None)
         then Some (DocumentRetired i)
         else case da_content a of
           Some (Delta version _) \<Rightarrow>
             (case previous of
                None \<Rightarrow> Some (DeltaWithoutBase i)
              | Some c \<Rightarrow> if content_version c \<noteq> version then Some (VersionNeedsBase i) else None)
         | _ \<Rightarrow> None)"

definition action_address :: "store \<Rightarrow> int \<Rightarrow> doc_action \<Rightarrow> doc_address" where
  "action_address m i a =
     (case da_create a of
        None \<Rightarrow> recordAddressKey (ds_record (the (ms_documents m i)))
      | Some r \<Rightarrow> recordAddressKey r)"

definition current_of :: "store \<Rightarrow> doc_address \<Rightarrow> int option" where
  "current_of m k = (case ms_addresses m k of None \<Rightarrow> None | Some ai \<Rightarrow> ai_current ai)"

text \<open>The count of live incarnations of one address after an action.\<close>

definition count_live :: "store \<Rightarrow> int \<Rightarrow> doc_action \<Rightarrow> (doc_address \<times> int) list \<Rightarrow> (doc_address \<times> int) list" where
  "count_live m i a live =
     (let k = action_address m i a;
          n0 = (case map_of live k of Some n \<Rightarrow> n | None \<Rightarrow> if current_of m k = None then 0 else 1);
          n1 = (if da_retire a \<and> current_of m k = Some i then n0 - 1 else n0);
          n2 = (if da_create a \<noteq> None \<and> \<not> da_retire a then n1 + 1 else n1)
      in AList.update k n2 live)"

fun check_actions :: "store \<Rightarrow> doc_actions \<Rightarrow> (doc_address \<times> int) list \<Rightarrow> store_error option" where
  "check_actions m [] live = (if \<exists>(_, n) \<in> set live. n > 1 then Some AddressTaken else None)"
| "check_actions m ((i, a) # acts) live =
     (case check_action m i a of
        Some e \<Rightarrow> Some e
      | None \<Rightarrow> check_actions m acts (count_live m i a live))"

definition checkDocumentActions :: "store \<Rightarrow> doc_actions \<Rightarrow> store_error option" where
  "checkDocumentActions m acts = check_actions m acts []"

record prepared =
  pc_seq :: int
  pc_writes :: "storage_write list"
  pc_actions :: doc_actions
  pc_applied :: bool

definition fails_if :: "store_error option \<Rightarrow> (store_error + 'a) \<Rightarrow> store_error + 'a" where
  "fails_if e r = (case e of Some err \<Rightarrow> Inl err | None \<Rightarrow> r)"

text \<open>No sequence given means the next one.\<close>

definition prepareCommit :: "(nat \<Rightarrow> bool) \<Rightarrow> store \<Rightarrow> storage_write list \<Rightarrow> int option \<Rightarrow> store_error + prepared" where
  "prepareCommit owned m ws given =
     assertOpen m
       (let seq = (case given of None \<Rightarrow> ms_nextSeq m | Some s \<Rightarrow> s) in
        if \<bar>seq\<bar> > max_safe \<or> seq < ms_nextSeq m then Inl NotIncreasing
        else and_then (resolveDocumentCopies owned m ws) (\<lambda>resolved.
          fails_if (checkGlobalIds m Map.empty resolved)
            (and_then (prepareDocumentActions resolved []) (\<lambda>acts.
               fails_if (checkDocumentActions m acts)
                 (Inr \<lparr>pc_seq = seq, pc_writes = resolved, pc_actions = acts, pc_applied = False\<rparr>)))))"

subsection \<open>Applying a commit\<close>

definition used_id :: "int \<Rightarrow> store \<Rightarrow> store" where
  "used_id i m = m\<lparr>ms_nextId := max (ms_nextId m) (i + 1)\<rparr>"

definition put_conversation :: "conversation \<Rightarrow> store \<Rightarrow> store" where
  "put_conversation c m =
     (let i = cv_id c;
          m1 = m\<lparr>ms_types := (ms_types m)(i \<mapsto> ConversationTable),
                 ms_conversations := (ms_conversations m)(i \<mapsto> c),
                 ms_conversationIds := insertSorted (ms_conversationIds m) i\<rparr>;
          m2 = (case cv_owner c of
              None \<Rightarrow> m1
            | Some (oc, ot) \<Rightarrow>
                m1\<lparr>ms_byOwnerConversation := insertMapId (ms_byOwnerConversation m1) oc i,
                   ms_byOwnerTask := insertMapId (ms_byOwnerTask m1) ot i\<rparr>)
      in used_id i m2)"

definition put_entry :: "int \<Rightarrow> entry \<Rightarrow> store \<Rightarrow> store" where
  "put_entry seq e m =
     (let i = en_id e;
          m1 = m\<lparr>ms_types := (ms_types m)(i \<mapsto> EntryTable),
                 ms_entries := (ms_entries m)(i \<mapsto> e),
                 ms_entrySeqs := (ms_entrySeqs m)(i \<mapsto> seq),
                 ms_entryIds := insertMapId (ms_entryIds m) (en_conversation e) i\<rparr>;
          m2 = (if en_head e = None then m1
                else m1\<lparr>ms_headEntryIds := insertMapId (ms_headEntryIds m1) (en_conversation e) i\<rparr>)
      in used_id i m2)"

text \<open>An index by status: a new record is added, a record whose status changed moves.\<close>

definition insert_status :: "('s \<Rightarrow> int list) \<Rightarrow> 's \<Rightarrow> int \<Rightarrow> ('s \<Rightarrow> int list)" where
  "insert_status index s i = index(s := insertSorted (index s) i)"

definition remove_status :: "('s \<Rightarrow> int list) \<Rightarrow> 's \<Rightarrow> int \<Rightarrow> ('s \<Rightarrow> int list)" where
  "remove_status index s i = index(s := removeSorted (index s) i)"

definition put_task :: "task \<Rightarrow> store \<Rightarrow> store" where
  "put_task t m =
     (let i = tk_id t;
          m1 = m\<lparr>ms_types := (ms_types m)(i \<mapsto> TaskTable)\<rparr>;
          m2 = (case ms_tasks m i of
              None \<Rightarrow>
                m1\<lparr>ms_taskIds := insertSorted (ms_taskIds m1) i,
                   ms_taskIdsByStatus := insert_status (ms_taskIdsByStatus m1) (tk_status t) i\<rparr>
            | Some p \<Rightarrow>
                if tk_status p = tk_status t then m1
                else m1\<lparr>ms_taskIdsByStatus :=
                     insert_status (remove_status (ms_taskIdsByStatus m1) (tk_status p) i) (tk_status t) i\<rparr>)
      in used_id i (m2\<lparr>ms_tasks := (ms_tasks m2)(i \<mapsto> t)\<rparr>))"

definition drop_request :: "submission option \<Rightarrow> int \<Rightarrow> (int \<rightharpoonup> (string \<times> int) list) \<Rightarrow> (int \<rightharpoonup> (string \<times> int) list)" where
  "drop_request previous i index =
     (case previous of
        None \<Rightarrow> index
      | Some p \<Rightarrow>
          (case (sb_request p, index (sb_conversation p)) of
             (Some r, Some requests) \<Rightarrow>
               if map_of requests r = Some i
               then let rest = AList.delete r requests
                    in if rest = [] then index(sb_conversation p := None)
                       else index(sb_conversation p \<mapsto> rest)
               else index
           | _ \<Rightarrow> index))"

definition add_request :: "submission \<Rightarrow> (int \<rightharpoonup> (string \<times> int) list) \<Rightarrow> (int \<rightharpoonup> (string \<times> int) list)" where
  "add_request s index =
     (case sb_request s of
        None \<Rightarrow> index
      | Some r \<Rightarrow>
          index(sb_conversation s \<mapsto>
            AList.update r (sb_id s) (case index (sb_conversation s) of None \<Rightarrow> [] | Some rs \<Rightarrow> rs)))"

definition put_submission :: "submission \<Rightarrow> store \<Rightarrow> store" where
  "put_submission s m =
     (let i = sb_id s;
          previous = ms_submissions m i;
          m1 = m\<lparr>ms_types := (ms_types m)(i \<mapsto> SubmissionTable)\<rparr>;
          m2 = (case previous of
              None \<Rightarrow>
                m1\<lparr>ms_submissionIds := insertSorted (ms_submissionIds m1) i,
                   ms_submissionIdsByStatus := insert_status (ms_submissionIdsByStatus m1) (sb_status s) i\<rparr>
            | Some p \<Rightarrow>
                if sb_status p = sb_status s then m1
                else m1\<lparr>ms_submissionIdsByStatus :=
                     insert_status (remove_status (ms_submissionIdsByStatus m1) (sb_status p) i) (sb_status s) i\<rparr>);
          m3 = m2\<lparr>ms_byRequest := drop_request previous i (ms_byRequest m2)\<rparr>
      in used_id i (m3\<lparr>ms_submissions := (ms_submissions m3)(i \<mapsto> s),
                      ms_byRequest := add_request s (ms_byRequest m3)\<rparr>))"

fun apply_write :: "int \<Rightarrow> storage_write \<Rightarrow> store \<Rightarrow> store" where
  "apply_write seq (WConversation c) m = put_conversation c m"
| "apply_write seq (WEntry e) m = put_entry seq e m"
| "apply_write seq (WTask t) m = put_task t m"
| "apply_write seq (WSubmission s) m = put_submission s m"
| "apply_write seq _ m = m"

definition create_document :: "int \<Rightarrow> doc_create \<Rightarrow> content \<Rightarrow> bool \<Rightarrow> int \<Rightarrow> store \<Rightarrow> store" where
  "create_document i r c retire seq m =
     (let record = doc_create.extend r \<lparr>dr_created = seq, dr_retired = (if retire then Some seq else None)\<rparr>;
          k = recordAddressKey record;
          ai = (case ms_addresses m k of None \<Rightarrow> \<lparr>ai_ids = [], ai_current = None\<rparr> | Some ai \<Rightarrow> ai)
      in used_id i
           (m\<lparr>ms_types := (ms_types m)(i \<mapsto> DocumentTable),
              ms_documents := (ms_documents m)(i \<mapsto> \<lparr>ds_record = record, ds_revisions = [(c, seq)]\<rparr>),
              ms_addresses := (ms_addresses m)(k \<mapsto> ai\<lparr>ai_ids := insertSorted (ai_ids ai) i\<rparr>),
              ms_byScope := insertMapId (ms_byScope m) (dc_scope record) i\<rparr>))"

definition change_document :: "content \<Rightarrow> int \<Rightarrow> doc_state \<Rightarrow> doc_state" where
  "change_document c seq d =
     (if is_base c \<and> isCurrentOnly (ds_record d) then d\<lparr>ds_revisions := [(c, seq)]\<rparr>
      else d\<lparr>ds_revisions := ds_revisions d @ [(c, seq)]\<rparr>)"

definition retire_document :: "bool \<Rightarrow> int \<Rightarrow> doc_state \<Rightarrow> doc_state" where
  "retire_document created seq d =
     (let d1 = (if created then d else d\<lparr>ds_record := (ds_record d)\<lparr>dr_retired := Some seq\<rparr>\<rparr>)
      in if isCurrentOnly (ds_record d1) then d1\<lparr>ds_revisions := []\<rparr> else d1)"

definition update_document :: "int \<Rightarrow> (doc_state \<Rightarrow> doc_state) \<Rightarrow> store \<Rightarrow> store" where
  "update_document i f m = m\<lparr>ms_documents := (ms_documents m)(i := map_option f (ms_documents m i))\<rparr>"

definition point_address :: "int \<Rightarrow> doc_action \<Rightarrow> store \<Rightarrow> store" where
  "point_address i a m =
     (case ms_documents m i of
        None \<Rightarrow> m
      | Some d \<Rightarrow>
          let k = recordAddressKey (ds_record d) in
          m\<lparr>ms_addresses := (ms_addresses m)(k := map_option
               (\<lambda>ai. let ai1 = (if da_retire a \<and> ai_current ai = Some i then ai\<lparr>ai_current := None\<rparr> else ai)
                     in if da_create a \<noteq> None \<and> \<not> da_retire a then ai1\<lparr>ai_current := Some i\<rparr> else ai1)
               (ms_addresses m k))\<rparr>)"

definition apply_action :: "int \<Rightarrow> int \<times> doc_action \<Rightarrow> store \<Rightarrow> store" where
  "apply_action seq ia m =
     (let (i, a) = ia;
          m1 = (case (da_create a, da_content a) of
              (Some r, Some c) \<Rightarrow> create_document i r c (da_retire a) seq m
            | (None, Some c) \<Rightarrow> update_document i (change_document c seq) m
            | _ \<Rightarrow> m);
          m2 = (if da_retire a then update_document i (retire_document (da_create a \<noteq> None) seq) m1 else m1)
      in if da_create a \<noteq> None \<or> da_retire a then point_address i a m2 else m2)"

definition applyDocumentActions :: "doc_actions \<Rightarrow> int \<Rightarrow> store \<Rightarrow> store" where
  "applyDocumentActions acts seq m = fold (apply_action seq) acts m"

fun is_copy :: "storage_write \<Rightarrow> bool" where
  "is_copy (WCopy _ _ _) = True"
| "is_copy _ = False"

definition applyPreparedCommit :: "storage_write list \<Rightarrow> doc_actions \<Rightarrow> int \<Rightarrow> store \<Rightarrow> store_error + store" where
  "applyPreparedCommit ws acts seq m =
     (if list_ex is_copy ws then Inl UnresolvedCopy
      else Inr ((applyDocumentActions acts seq (fold (apply_write seq) ws m))\<lparr>ms_nextSeq := seq + 1\<rparr>))"

text \<open>\<open>apply()\<close> of a prepared commit, once.\<close>

definition apply_prepared :: "prepared \<Rightarrow> store \<Rightarrow> store_error + (prepared \<times> store)" where
  "apply_prepared p m =
     (if pc_applied p then Inr (p, m)
      else and_then (applyPreparedCommit (pc_writes p) (pc_actions p) (pc_seq p) m)
             (\<lambda>m'. Inr (p\<lparr>pc_applied := True\<rparr>, m')))"

definition commit :: "(nat \<Rightarrow> bool) \<Rightarrow> storage_write list \<Rightarrow> store \<Rightarrow> store_error + (int \<times> store)" where
  "commit owned ws m =
     and_then (prepareCommit owned m ws None) (\<lambda>p.
       and_then (apply_prepared p m) (\<lambda>(_, m'). Inr (pc_seq p, m')))"

definition mintId :: "store \<Rightarrow> store_error + (int \<times> store)" where
  "mintId m =
     assertOpen m
       (if \<bar>ms_nextId m\<bar> > max_safe then Inl IdsExhausted
        else Inr (ms_nextId m, m\<lparr>ms_nextId := ms_nextId m + 1\<rparr>))"

definition close_store :: "store \<Rightarrow> store" where
  "close_store m = m\<lparr>ms_closed := True\<rparr>"

end
