(* ===== verification/Durable_Reads.thy ===== *)
theory Durable_Reads
  imports Durable_Memory
begin

text \<open>
  The reads of \<open>packages/durable/src/storage/memory.ts\<close>: records by ID, scans, the latest head marker,
  and the entries that a conversation sees through its chain of forks, newest first and oldest
  first. A walk of the fork chain is a partial function: with a cycle of parents the source does
  not return, and the value is \<open>None\<close>. A scan over entries stops as soon as its consumer has
  enough, so the walks take the number of entries still needed.
\<close>

definition conversation_of :: "store \<Rightarrow> int \<Rightarrow> store_error + conversation option" where
  "conversation_of m i = assertOpen m (Inr (ms_conversations m i))"

definition task_of :: "store \<Rightarrow> int \<Rightarrow> store_error + task option" where
  "task_of m i = assertOpen m (Inr (ms_tasks m i))"

definition submission_of :: "store \<Rightarrow> int \<Rightarrow> store_error + submission option" where
  "submission_of m i = assertOpen m (Inr (ms_submissions m i))"

definition submissionByRequest :: "store \<Rightarrow> int \<Rightarrow> string \<Rightarrow> store_error + submission option" where
  "submissionByRequest m c r =
     assertOpen m
       (case ms_byRequest m c of
          None \<Rightarrow> Inr None
        | Some requests \<Rightarrow>
            (case map_of requests r of
               None \<Rightarrow> Inr None
             | Some i \<Rightarrow> Inr (ms_submissions m i)))"

text \<open>An absent filter matches everything.\<close>

definition wants :: "'a option \<Rightarrow> 'a \<Rightarrow> bool" where
  "wants w v \<longleftrightarrow> (case w of None \<Rightarrow> True | Some x \<Rightarrow> v = x)"

record conversation_query =
  cq_ownerConversation :: "int option"
  cq_ownerTask :: "int option"
  cq_order :: "json option"

definition conversation_ids :: "store \<Rightarrow> conversation_query \<Rightarrow> int list" where
  "conversation_ids m q =
     (case cq_ownerTask q of
        Some t \<Rightarrow> ids_at (ms_byOwnerTask m) t
      | None \<Rightarrow>
          (case cq_ownerConversation q of
             Some c \<Rightarrow> ids_at (ms_byOwnerConversation m) c
           | None \<Rightarrow> ms_conversationIds m))"

definition owner_matches :: "conversation_query \<Rightarrow> conversation \<Rightarrow> bool" where
  "owner_matches q v \<longleftrightarrow>
     (case cq_ownerConversation q of None \<Rightarrow> True | Some c \<Rightarrow> map_option fst (cv_owner v) = Some c)"

definition scanConversations :: "store \<Rightarrow> conversation_query \<Rightarrow> nat \<Rightarrow> cursor option \<Rightarrow> store_error + conversation page" where
  "scanConversations m q limit cursor =
     assertOpen m
       (and_then (scanStart (cq_order q) cursor Ascending)
          (scan_ids (conversation_ids m q) (ms_conversations m) (owner_matches q) cv_id limit))"

record task_query =
  tq_conversation :: "int option"
  tq_kind :: "string option"
  tq_status :: "task_status option"
  tq_abort :: "bool option"
  tq_background :: "bool option"
  tq_order :: "json option"

definition task_ids :: "store \<Rightarrow> task_query \<Rightarrow> int list" where
  "task_ids m q = (case tq_status q of None \<Rightarrow> ms_taskIds m | Some s \<Rightarrow> ms_taskIdsByStatus m s)"

definition task_matches :: "task_query \<Rightarrow> task \<Rightarrow> bool" where
  "task_matches q v \<longleftrightarrow>
     wants (tq_conversation q) (tk_conversation v) \<and> wants (tq_kind q) (tk_kind v)
     \<and> wants (tq_abort q) (tk_abort v) \<and> wants (tq_background q) (tk_background v)"

definition scanTasks :: "store \<Rightarrow> task_query \<Rightarrow> nat \<Rightarrow> cursor option \<Rightarrow> store_error + task page" where
  "scanTasks m q limit cursor =
     assertOpen m
       (and_then (scanStart (tq_order q) cursor Ascending)
          (scan_ids (task_ids m q) (ms_tasks m) (task_matches q) tk_id limit))"

record submission_query =
  sq_conversation :: "int option"
  sq_status :: "submission_status option"
  sq_order :: "json option"

definition submission_ids :: "store \<Rightarrow> submission_query \<Rightarrow> int list" where
  "submission_ids m q =
     (case sq_status q of None \<Rightarrow> ms_submissionIds m | Some s \<Rightarrow> ms_submissionIdsByStatus m s)"

definition submission_matches :: "submission_query \<Rightarrow> submission \<Rightarrow> bool" where
  "submission_matches q v \<longleftrightarrow> wants (sq_conversation q) (sb_conversation v)"

definition scanSubmissions :: "store \<Rightarrow> submission_query \<Rightarrow> nat \<Rightarrow> cursor option \<Rightarrow> store_error + submission page" where
  "scanSubmissions m q limit cursor =
     assertOpen m
       (and_then (scanStart (sq_order q) cursor Ascending)
          (scan_ids (submission_ids m q) (ms_submissions m) (submission_matches q) sb_id limit))"

fun find_alive :: "store \<Rightarrow> doc_point \<Rightarrow> int list \<Rightarrow> store_error + doc_record option" where
  "find_alive m p [] = Inr None"
| "find_alive m p (i # is) =
     (case ms_documents m i of
        None \<Rightarrow> Inl UndefinedRead
      | Some d \<Rightarrow> if isAliveAt (ds_record d) p then Inr (Some (ds_record d)) else find_alive m p is)"

definition findDocument :: "store \<Rightarrow> doc_address \<Rightarrow> doc_point \<Rightarrow> store_error + doc_record option" where
  "findDocument m k p =
     assertOpen m
       (if p = Current
        then case current_of m k of
            None \<Rightarrow> Inr None
          | Some i \<Rightarrow>
              (case ms_documents m i of None \<Rightarrow> Inl UndefinedRead | Some d \<Rightarrow> Inr (Some (ds_record d)))
        else find_alive m p (case ms_addresses m k of None \<Rightarrow> [] | Some ai \<Rightarrow> ai_ids ai))"

record document_query =
  dq_scope :: doc_scope
  dq_at :: doc_point
  dq_kind :: "string option"

definition document_matches :: "document_query \<Rightarrow> doc_state \<Rightarrow> bool" where
  "document_matches q d \<longleftrightarrow> wants (dq_kind q) (dc_kind (ds_record d)) \<and> isAliveAt (ds_record d) (dq_at q)"

definition scanDocuments :: "store \<Rightarrow> document_query \<Rightarrow> nat \<Rightarrow> cursor option \<Rightarrow> store_error + doc_record page" where
  "scanDocuments m q limit cursor =
     assertOpen m
       (let ids = ids_at (ms_byScope m) (dq_scope q) in
        and_then (cursorId cursor) (\<lambda>after.
          let start = (case after of None \<Rightarrow> 0 | Some t \<Rightarrow> idUpperBound ids t) in
          and_then (scan_loop limit (ms_documents m) (document_matches q) (drop start ids) [])
            (\<lambda>found. page dc_id (map ds_record found) limit Ascending)))"

subsection \<open>Entries through the fork chain\<close>

definition upper_index :: "int list \<Rightarrow> int option \<Rightarrow> nat" where
  "upper_index ids hi = (case hi of None \<Rightarrow> length ids | Some t \<Rightarrow> idUpperBound ids t)"

definition lower_index :: "int list \<Rightarrow> int option \<Rightarrow> nat" where
  "lower_index ids lo = (case lo of None \<Rightarrow> 0 | Some t \<Rightarrow> idLowerBound ids t)"

definition min_bound :: "int option \<Rightarrow> int \<Rightarrow> int" where
  "min_bound hi pt = (case hi of None \<Rightarrow> pt | Some h \<Rightarrow> min h pt)"

definition below :: "int \<Rightarrow> int option \<Rightarrow> bool" where
  "below i lo \<longleftrightarrow> (case lo of None \<Rightarrow> False | Some l \<Rightarrow> i < l)"

definition above :: "int \<Rightarrow> int option \<Rightarrow> bool" where
  "above i hi \<longleftrightarrow> (case hi of None \<Rightarrow> False | Some h \<Rightarrow> h < i)"

definition read_entry :: "store \<Rightarrow> int \<Rightarrow> store_error + entry" where
  "read_entry m i = (case ms_entries m i of None \<Rightarrow> Inl UndefinedRead | Some e \<Rightarrow> Inr e)"

text \<open>The entry IDs of one conversation of the chain, in the order of each walk.\<close>

definition segment_desc :: "store \<Rightarrow> int \<Rightarrow> int option \<Rightarrow> int option \<Rightarrow> int list" where
  "segment_desc m c lo hi =
     (let ids = ids_at (ms_entryIds m) c
      in takeWhile (\<lambda>i. \<not> below i lo) (List.rev (take (upper_index ids hi) ids)))"

definition segment_asc :: "store \<Rightarrow> int \<Rightarrow> int option \<Rightarrow> int option \<Rightarrow> int list" where
  "segment_asc m c lo hi =
     (let ids = ids_at (ms_entryIds m) c
      in takeWhile (\<lambda>i. \<not> above i hi) (drop (lower_index ids lo) ids))"

partial_function (option) entries_desc ::
  "store \<Rightarrow> int option \<Rightarrow> int \<Rightarrow> int option \<Rightarrow> nat \<Rightarrow> (store_error + entry list) option" where
  "entries_desc m lo c hi need =
     (let seg = segment_desc m c lo hi in
      case each (read_entry m) (take need seg) of
        Inl e \<Rightarrow> Some (Inl e)
      | Inr got \<Rightarrow>
          if need \<le> length seg then Some (Inr got)
          else case ms_conversations m c of
            None \<Rightarrow> Some (Inl UndefinedRead)
          | Some v \<Rightarrow>
              (case cv_parent v of
                 None \<Rightarrow> Some (Inr got)
               | Some (pc, pt) \<Rightarrow>
                   if below (min_bound hi pt) lo then Some (Inr got)
                   else Option.bind (entries_desc m lo pc (Some (min_bound hi pt)) (need - length seg))
                          (\<lambda>r. Some (and_then r (\<lambda>more. Inr (got @ more))))))"

definition visibleEntries :: "store \<Rightarrow> int \<Rightarrow> int option \<Rightarrow> int option \<Rightarrow> nat \<Rightarrow> (store_error + entry list) option" where
  "visibleEntries m c lo hi need =
     (if ms_conversations m c = None then Some (Inl (UnknownConversation c)) else entries_desc m lo c hi need)"

partial_function (option) fork_segments ::
  "store \<Rightarrow> int option \<Rightarrow> int \<Rightarrow> int option \<Rightarrow> (store_error + (int \<times> int option) list) option" where
  "fork_segments m lo c hi =
     (case ms_conversations m c of
        None \<Rightarrow> Some (Inl UndefinedRead)
      | Some v \<Rightarrow>
          (case cv_parent v of
             None \<Rightarrow> Some (Inr [(c, hi)])
           | Some (pc, pt) \<Rightarrow>
               if below (min_bound hi pt) lo then Some (Inr [(c, hi)])
               else Option.bind (fork_segments m lo pc (Some (min_bound hi pt)))
                      (\<lambda>r. Some (and_then r (\<lambda>segs. Inr ((c, hi) # segs))))))"

definition visibleEntriesAscending :: "store \<Rightarrow> int \<Rightarrow> int option \<Rightarrow> int option \<Rightarrow> nat \<Rightarrow> (store_error + entry list) option" where
  "visibleEntriesAscending m c lo hi need =
     (if ms_conversations m c = None then Some (Inl (UnknownConversation c))
      else Option.bind (fork_segments m lo c hi) (\<lambda>r. Some (and_then r (\<lambda>segs.
        each (read_entry m) (take need (concat (map (\<lambda>(sc, sh). segment_asc m sc lo sh) (List.rev segs))))))))"

record entry_query =
  eq_conversation :: int
  eq_min :: "int option"
  eq_max :: "int option"
  eq_order :: "json option"

text \<open>The cursor narrows the bound on the side the scan moves away from.\<close>

definition entry_max :: "scan_start \<Rightarrow> int option \<Rightarrow> int option" where
  "entry_max start hi =
     (case st_after start of
        Some after \<Rightarrow>
          if st_order start = Descending
          then Some (min (case hi of None \<Rightarrow> after | Some h \<Rightarrow> h) (after - 1)) else hi
      | None \<Rightarrow> hi)"

definition entry_min :: "scan_start \<Rightarrow> int option \<Rightarrow> int option" where
  "entry_min start lo =
     (case st_after start of
        Some after \<Rightarrow>
          if st_order start = Ascending
          then Some (max (case lo of None \<Rightarrow> after | Some l \<Rightarrow> l) (after + 1)) else lo
      | None \<Rightarrow> lo)"

definition visible_in_order :: "store \<Rightarrow> scan_order \<Rightarrow> int \<Rightarrow> int option \<Rightarrow> int option \<Rightarrow> nat \<Rightarrow> (store_error + entry list) option" where
  "visible_in_order m order c lo hi need =
     (case order of
        Descending \<Rightarrow> visibleEntries m c lo hi need
      | Ascending \<Rightarrow> visibleEntriesAscending m c lo hi need)"

definition scanEntries :: "store \<Rightarrow> entry_query \<Rightarrow> nat \<Rightarrow> cursor option \<Rightarrow> (store_error + entry page) option" where
  "scanEntries m q limit cursor =
     (if ms_closed m then Some (Inl Closed)
      else case scanStart (eq_order q) cursor Descending of
        Inl e \<Rightarrow> Some (Inl e)
      | Inr start \<Rightarrow>
          Option.bind
            (visible_in_order m (st_order start) (eq_conversation q) (entry_min start (eq_min q))
               (entry_max start (eq_max q)) (limit + 1))
            (\<lambda>r. Some (and_then r (\<lambda>found. page en_id found limit (st_order start)))))"

text \<open>\<open>entry(id)\<close> and \<open>entry(conversation, id)\<close>: the record with its commit sequence.\<close>

definition with_seq :: "store \<Rightarrow> int \<Rightarrow> entry \<Rightarrow> entry \<times> int option" where
  "with_seq m i e = (e, ms_entrySeqs m i)"

definition entry_by_id :: "store \<Rightarrow> int \<Rightarrow> store_error + (entry \<times> int option) option" where
  "entry_by_id m i = assertOpen m (Inr (map_option (with_seq m i) (ms_entries m i)))"

definition entry_in :: "store \<Rightarrow> int \<Rightarrow> int \<Rightarrow> (store_error + (entry \<times> int option) option) option" where
  "entry_in m c i =
     (if ms_closed m then Some (Inl Closed)
      else Option.bind (visibleEntries m c (Some i) (Some i) 1) (\<lambda>r. Some (and_then r (\<lambda>es.
        Inr (case es of [] \<Rightarrow> None | e # _ \<Rightarrow> Some (with_seq m i e))))))"

partial_function (option) head_marker :: "store \<Rightarrow> int \<Rightarrow> int option \<Rightarrow> (store_error + entry option) option" where
  "head_marker m c hi =
     (let ids = ids_at (ms_headEntryIds m) c; n = upper_index ids hi in
      if n > 0
      then Some (and_then (read_entry m (ids ! (n - 1))) (\<lambda>e. Inr (Some e)))
      else case ms_conversations m c of
        None \<Rightarrow> Some (Inl UndefinedRead)
      | Some v \<Rightarrow>
          (case cv_parent v of
             None \<Rightarrow> Some (Inr None)
           | Some (pc, pt) \<Rightarrow> head_marker m pc (Some (min_bound hi pt))))"

definition findLatestHeadMarker :: "store \<Rightarrow> int \<Rightarrow> int option \<Rightarrow> (store_error + entry option) option" where
  "findLatestHeadMarker m c hi =
     (if ms_closed m then Some (Inl Closed)
      else if ms_conversations m c = None then Some (Inl (UnknownConversation c))
      else head_marker m c hi)"

end
