(* ===== verification/Durable_Tables.thy ===== *)
theory Durable_Tables
  imports Durable_Reads
begin

text \<open>
  The table side of a commit: every write keeps each record under its own ID and each index equal to
  the IDs of the records it is for. The checks of a prepared commit give each write what it needs.
\<close>

subsection \<open>Well-formed tables\<close>

definition keyed :: "('a \<Rightarrow> 'k option) \<Rightarrow> (int \<rightharpoonup> 'a) \<Rightarrow> (int \<rightharpoonup> 'k)" where
  "keyed f table = (\<lambda>i. Option.bind (table i) f)"

lemma keyed_upd: "keyed f (table(i \<mapsto> v)) = (keyed f table)(i := f v)"
  by (auto simp: keyed_def)

lemma keyed_none: "table i = None \<Longrightarrow> keyed f table i = None"
  by (simp add: keyed_def)

lemma keyed_some: "table i = Some v \<Longrightarrow> keyed f table i = f v"
  by (simp add: keyed_def)

lemma ids_at_insertMapId [simp]:
  "ids_at (insertMapId index k i) = (ids_at index)(k := insertSorted (ids_at index k) i)"
  by (auto simp: ids_at_def insertMapId_def)

definition owned_by :: "(int \<times> int \<Rightarrow> int) \<Rightarrow> conversation \<Rightarrow> int option" where
  "owned_by f c = map_option f (cv_owner c)"

definition conversations_ok :: "store \<Rightarrow> bool" where
  "conversations_ok m \<longleftrightarrow>
     (\<forall>i c. ms_conversations m i = Some c \<longrightarrow> cv_id c = i)
     \<and> lists_ids (ms_conversationIds m) (dom (ms_conversations m))
     \<and> ids.indexes (ids_at (ms_byOwnerConversation m)) (keyed (owned_by fst) (ms_conversations m))
     \<and> ids.indexes (ids_at (ms_byOwnerTask m)) (keyed (owned_by snd) (ms_conversations m))"

definition head_of :: "entry \<Rightarrow> int option" where
  "head_of e = (if en_head e = None then None else Some (en_conversation e))"

definition entries_ok :: "store \<Rightarrow> bool" where
  "entries_ok m \<longleftrightarrow>
     (\<forall>i e. ms_entries m i = Some e \<longrightarrow> en_id e = i)
     \<and> ids.indexes (ids_at (ms_entryIds m)) (keyed (Some \<circ> en_conversation) (ms_entries m))
     \<and> ids.indexes (ids_at (ms_headEntryIds m)) (keyed head_of (ms_entries m))
     \<and> dom (ms_entrySeqs m) = dom (ms_entries m)"

definition tasks_ok :: "store \<Rightarrow> bool" where
  "tasks_ok m \<longleftrightarrow>
     (\<forall>i t. ms_tasks m i = Some t \<longrightarrow> tk_id t = i)
     \<and> lists_ids (ms_taskIds m) (dom (ms_tasks m))
     \<and> ids.indexes (ms_taskIdsByStatus m) (keyed (Some \<circ> tk_status) (ms_tasks m))"

definition requests_ok :: "store \<Rightarrow> bool" where
  "requests_ok m \<longleftrightarrow>
     (\<forall>c rs r i. ms_byRequest m c = Some rs \<longrightarrow> map_of rs r = Some i \<longrightarrow>
        (\<exists>s. ms_submissions m i = Some s \<and> sb_conversation s = c \<and> sb_request s = Some r))"

definition submissions_ok :: "store \<Rightarrow> bool" where
  "submissions_ok m \<longleftrightarrow>
     (\<forall>i s. ms_submissions m i = Some s \<longrightarrow> sb_id s = i)
     \<and> lists_ids (ms_submissionIds m) (dom (ms_submissions m))
     \<and> ids.indexes (ms_submissionIdsByStatus m) (keyed (Some \<circ> sb_status) (ms_submissions m))
     \<and> requests_ok m"

text \<open>The type on record of an ID, against the tables that hold it.\<close>

definition typed :: "table_name option \<Rightarrow> bool \<Rightarrow> bool \<Rightarrow> bool \<Rightarrow> bool \<Rightarrow> bool \<Rightarrow> bool" where
  "typed t conv ent tsk sub doc \<longleftrightarrow>
     conv = (t = Some ConversationTable) \<and> ent = (t = Some EntryTable) \<and> tsk = (t = Some TaskTable)
     \<and> sub = (t = Some SubmissionTable) \<and> doc = (t = Some DocumentTable)"

definition typed_in :: "store \<Rightarrow> int \<Rightarrow> bool" where
  "typed_in m i \<longleftrightarrow>
     typed (ms_types m i) (i \<in> dom (ms_conversations m)) (i \<in> dom (ms_entries m)) (i \<in> dom (ms_tasks m))
       (i \<in> dom (ms_submissions m)) (i \<in> dom (ms_documents m))"

definition types_ok :: "store \<Rightarrow> bool" where
  "types_ok m \<longleftrightarrow> (\<forall>i. typed_in m i) \<and> (\<forall>i. ms_types m i \<noteq> None \<longrightarrow> i < ms_nextId m)"

lemma types_ok_at:
  assumes "types_ok m"
  shows "ms_conversations m i = None \<longleftrightarrow> ms_types m i \<noteq> Some ConversationTable"
    "ms_entries m i = None \<longleftrightarrow> ms_types m i \<noteq> Some EntryTable"
    "ms_tasks m i = None \<longleftrightarrow> ms_types m i \<noteq> Some TaskTable"
    "ms_submissions m i = None \<longleftrightarrow> ms_types m i \<noteq> Some SubmissionTable"
    "ms_documents m i = None \<longleftrightarrow> ms_types m i \<noteq> Some DocumentTable"
proof -
  from assms have "typed_in m i" by (simp add: types_ok_def)
  then show "ms_conversations m i = None \<longleftrightarrow> ms_types m i \<noteq> Some ConversationTable"
    "ms_entries m i = None \<longleftrightarrow> ms_types m i \<noteq> Some EntryTable"
    "ms_tasks m i = None \<longleftrightarrow> ms_types m i \<noteq> Some TaskTable"
    "ms_submissions m i = None \<longleftrightarrow> ms_types m i \<noteq> Some SubmissionTable"
    "ms_documents m i = None \<longleftrightarrow> ms_types m i \<noteq> Some DocumentTable"
    unfolding typed_in_def typed_def domIff by blast+
qed

definition tables_ok :: "store \<Rightarrow> bool" where
  "tables_ok m \<longleftrightarrow> conversations_ok m \<and> entries_ok m \<and> tasks_ok m \<and> submissions_ok m \<and> types_ok m"

text \<open>What the write of a record must find.\<close>

fun write_ok :: "store \<Rightarrow> storage_write \<Rightarrow> bool" where
  "write_ok m (WConversation c) = (ms_types m (cv_id c) = None)"
| "write_ok m (WEntry e) = (ms_types m (en_id e) = None)"
| "write_ok m (WTask t) = (ms_types m (tk_id t) \<in> {None, Some TaskTable})"
| "write_ok m (WSubmission s) = (ms_types m (sb_id s) \<in> {None, Some SubmissionTable})"
| "write_ok m _ = True"

lemmas table_defs = conversations_ok_def entries_ok_def tasks_ok_def submissions_ok_def requests_ok_def

lemma lists_new: "lists_ids ids (dom table) \<Longrightarrow> table i = None \<Longrightarrow> lists_ids (insertSorted ids i) (insert i (dom table))"
  by (simp add: insertSorted_lists domIff)

text \<open>A keyed index after a new record is written.\<close>

definition insert_key :: "'k option \<Rightarrow> int \<Rightarrow> ('k \<rightharpoonup> int list) \<Rightarrow> ('k \<rightharpoonup> int list)" where
  "insert_key k i index = (case k of None \<Rightarrow> index | Some k \<Rightarrow> insertMapId index k i)"

lemma indexes_put:
  assumes "ids.indexes (ids_at index) (keyed f table)" "table i = None"
  shows "ids.indexes (ids_at (insert_key (f v) i index)) (keyed f (table(i \<mapsto> v)))"
proof (cases "f v")
  case None
  then have "keyed f (table(i \<mapsto> v)) = keyed f table" using assms(2) by (auto simp: keyed_def)
  with None assms(1) show ?thesis by (simp add: insert_key_def)
next
  case (Some k)
  with ids.indexes_new[OF assms(1) keyed_none[where table = table, OF assms(2)], of k] show ?thesis
    by (simp add: insert_key_def keyed_upd)
qed

subsection \<open>The fields a write changes\<close>

lemma put_conversation_fields [store_simps]:
  "ms_types (put_conversation c m) = (ms_types m)(cv_id c \<mapsto> ConversationTable)"
  "ms_conversations (put_conversation c m) = (ms_conversations m)(cv_id c \<mapsto> c)"
  "ms_conversationIds (put_conversation c m) = insertSorted (ms_conversationIds m) (cv_id c)"
  "ms_byOwnerConversation (put_conversation c m) = insert_key (owned_by fst c) (cv_id c) (ms_byOwnerConversation m)"
  "ms_byOwnerTask (put_conversation c m) = insert_key (owned_by snd c) (cv_id c) (ms_byOwnerTask m)"
  "ms_nextId (put_conversation c m) = max (ms_nextId m) (cv_id c + 1)"
  "ms_entries (put_conversation c m) = ms_entries m"
  "ms_entryIds (put_conversation c m) = ms_entryIds m"
  "ms_headEntryIds (put_conversation c m) = ms_headEntryIds m"
  "ms_entrySeqs (put_conversation c m) = ms_entrySeqs m"
  "ms_tasks (put_conversation c m) = ms_tasks m"
  "ms_taskIds (put_conversation c m) = ms_taskIds m"
  "ms_taskIdsByStatus (put_conversation c m) = ms_taskIdsByStatus m"
  "ms_submissions (put_conversation c m) = ms_submissions m"
  "ms_submissionIds (put_conversation c m) = ms_submissionIds m"
  "ms_submissionIdsByStatus (put_conversation c m) = ms_submissionIdsByStatus m"
  "ms_byRequest (put_conversation c m) = ms_byRequest m"
  by (cases "cv_owner c"; simp add: put_conversation_def used_id_def Let_def owned_by_def insert_key_def
      split: prod.split)+

lemma put_entry_fields [store_simps]:
  "ms_types (put_entry seq e m) = (ms_types m)(en_id e \<mapsto> EntryTable)"
  "ms_entries (put_entry seq e m) = (ms_entries m)(en_id e \<mapsto> e)"
  "ms_entryIds (put_entry seq e m) = insert_key ((Some \<circ> en_conversation) e) (en_id e) (ms_entryIds m)"
  "ms_headEntryIds (put_entry seq e m) = insert_key (head_of e) (en_id e) (ms_headEntryIds m)"
  "ms_entrySeqs (put_entry seq e m) = (ms_entrySeqs m)(en_id e \<mapsto> seq)"
  "ms_nextId (put_entry seq e m) = max (ms_nextId m) (en_id e + 1)"
  "ms_conversations (put_entry seq e m) = ms_conversations m"
  "ms_conversationIds (put_entry seq e m) = ms_conversationIds m"
  "ms_byOwnerConversation (put_entry seq e m) = ms_byOwnerConversation m"
  "ms_byOwnerTask (put_entry seq e m) = ms_byOwnerTask m"
  "ms_tasks (put_entry seq e m) = ms_tasks m"
  "ms_taskIds (put_entry seq e m) = ms_taskIds m"
  "ms_taskIdsByStatus (put_entry seq e m) = ms_taskIdsByStatus m"
  "ms_submissions (put_entry seq e m) = ms_submissions m"
  "ms_submissionIds (put_entry seq e m) = ms_submissionIds m"
  "ms_submissionIdsByStatus (put_entry seq e m) = ms_submissionIdsByStatus m"
  "ms_byRequest (put_entry seq e m) = ms_byRequest m"
  by (simp_all add: put_entry_def used_id_def Let_def head_of_def insert_key_def)

text \<open>An index by status after a record is written.\<close>

definition move_status :: "'s option \<Rightarrow> 's \<Rightarrow> int \<Rightarrow> ('s \<Rightarrow> int list) \<Rightarrow> ('s \<Rightarrow> int list)" where
  "move_status old new i index =
     (case old of
        None \<Rightarrow> insert_status index new i
      | Some s \<Rightarrow> if s = new then index else insert_status (remove_status index s i) new i)"

lemma indexes_status:
  assumes "ids.indexes index (keyed (Some \<circ> f) table)"
  shows "ids.indexes (move_status (map_option f (table i)) (f v) i index) (keyed (Some \<circ> f) (table(i \<mapsto> v)))"
proof (cases "table i")
  case None
  from ids.indexes_new[OF assms keyed_none[where table = table, OF None], of "f v"] None show ?thesis
    by (simp add: move_status_def insert_status_def keyed_upd o_def)
next
  case (Some p)
  then have key: "keyed (Some \<circ> f) table i = Some (f p)" by (simp add: keyed_def)
  show ?thesis
  proof (cases "f p = f v")
    case True
    from ids.indexes_same[OF assms key] True Some show ?thesis by (simp add: move_status_def keyed_upd o_def)
  next
    case False
    from ids.indexes_move[OF assms key False] False Some show ?thesis
      by (simp add: move_status_def insert_status_def remove_status_def keyed_upd o_def)
  qed
qed

definition add_if_new :: "'a option \<Rightarrow> int \<Rightarrow> int list \<Rightarrow> int list" where
  "add_if_new old i ids = (if old = None then insertSorted ids i else ids)"

lemma lists_add_if_new:
  assumes "lists_ids ids (dom table)"
  shows "lists_ids (add_if_new (table i) i ids) (insert i (dom table))"
  using assms lists_new[OF assms] by (cases "table i") (auto simp: add_if_new_def insert_absorb domI)

lemma put_task_fields [store_simps]:
  "ms_types (put_task t m) = (ms_types m)(tk_id t \<mapsto> TaskTable)"
  "ms_tasks (put_task t m) = (ms_tasks m)(tk_id t \<mapsto> t)"
  "ms_taskIds (put_task t m) = add_if_new (ms_tasks m (tk_id t)) (tk_id t) (ms_taskIds m)"
  "ms_taskIdsByStatus (put_task t m) =
     move_status (map_option tk_status (ms_tasks m (tk_id t))) (tk_status t) (tk_id t) (ms_taskIdsByStatus m)"
  "ms_nextId (put_task t m) = max (ms_nextId m) (tk_id t + 1)"
  "ms_conversations (put_task t m) = ms_conversations m"
  "ms_conversationIds (put_task t m) = ms_conversationIds m"
  "ms_byOwnerConversation (put_task t m) = ms_byOwnerConversation m"
  "ms_byOwnerTask (put_task t m) = ms_byOwnerTask m"
  "ms_entries (put_task t m) = ms_entries m"
  "ms_entryIds (put_task t m) = ms_entryIds m"
  "ms_headEntryIds (put_task t m) = ms_headEntryIds m"
  "ms_entrySeqs (put_task t m) = ms_entrySeqs m"
  "ms_submissions (put_task t m) = ms_submissions m"
  "ms_submissionIds (put_task t m) = ms_submissionIds m"
  "ms_submissionIdsByStatus (put_task t m) = ms_submissionIdsByStatus m"
  "ms_byRequest (put_task t m) = ms_byRequest m"
  by (cases "ms_tasks m (tk_id t)"; simp add: put_task_def used_id_def Let_def move_status_def add_if_new_def)+

lemma put_submission_fields [store_simps]:
  "ms_types (put_submission s m) = (ms_types m)(sb_id s \<mapsto> SubmissionTable)"
  "ms_submissions (put_submission s m) = (ms_submissions m)(sb_id s \<mapsto> s)"
  "ms_submissionIds (put_submission s m) = add_if_new (ms_submissions m (sb_id s)) (sb_id s) (ms_submissionIds m)"
  "ms_submissionIdsByStatus (put_submission s m) =
     move_status (map_option sb_status (ms_submissions m (sb_id s))) (sb_status s) (sb_id s)
       (ms_submissionIdsByStatus m)"
  "ms_byRequest (put_submission s m) =
     add_request s (drop_request (ms_submissions m (sb_id s)) (sb_id s) (ms_byRequest m))"
  "ms_nextId (put_submission s m) = max (ms_nextId m) (sb_id s + 1)"
  "ms_conversations (put_submission s m) = ms_conversations m"
  "ms_conversationIds (put_submission s m) = ms_conversationIds m"
  "ms_byOwnerConversation (put_submission s m) = ms_byOwnerConversation m"
  "ms_byOwnerTask (put_submission s m) = ms_byOwnerTask m"
  "ms_entries (put_submission s m) = ms_entries m"
  "ms_entryIds (put_submission s m) = ms_entryIds m"
  "ms_headEntryIds (put_submission s m) = ms_headEntryIds m"
  "ms_entrySeqs (put_submission s m) = ms_entrySeqs m"
  "ms_tasks (put_submission s m) = ms_tasks m"
  "ms_taskIds (put_submission s m) = ms_taskIds m"
  "ms_taskIdsByStatus (put_submission s m) = ms_taskIdsByStatus m"
  by (cases "ms_submissions m (sb_id s)"; simp add: put_submission_def used_id_def Let_def move_status_def add_if_new_def)+

text \<open>No table write touches a document or the commit sequence.\<close>

definition same_documents :: "store \<Rightarrow> store \<Rightarrow> bool" where
  "same_documents m m' \<longleftrightarrow>
     ms_documents m' = ms_documents m \<and> ms_addresses m' = ms_addresses m \<and> ms_byScope m' = ms_byScope m
     \<and> ms_nextSeq m' = ms_nextSeq m \<and> ms_closed m' = ms_closed m"

lemma put_documents [simp]:
  "same_documents m (put_conversation c m)" "same_documents m (put_entry seq e m)"
  "same_documents m (put_task t m)" "same_documents m (put_submission s m)"
  by (auto simp: same_documents_def put_conversation_def put_entry_def put_task_def put_submission_def
      used_id_def Let_def split: option.split)

lemma apply_write_documents: "same_documents m (apply_write seq w m)"
  by (cases w) (simp_all, simp_all add: same_documents_def)

lemma apply_writes_documents: "same_documents m (fold (apply_write seq) ws m)"
proof (induction ws arbitrary: m)
  case (Cons w ws)
  from apply_write_documents[of m seq w] Cons[of "apply_write seq w m"] show ?case
    by (simp add: same_documents_def)
qed (simp add: same_documents_def)

subsection \<open>Every write keeps the tables well-formed\<close>

lemma same_documentsD:
  "same_documents m m' \<Longrightarrow> ms_documents m' = ms_documents m"
  by (simp add: same_documents_def)

text \<open>The type of one ID after a write to the table of that type.\<close>

lemma types_okI:
  assumes "types_ok m" "ms_types m' = (ms_types m)(i \<mapsto> t)" "ms_nextId m' = max (ms_nextId m) (i + 1)"
    and "ms_types m i \<in> {None, Some t}" "t \<noteq> DocumentTable"
    and "dom (ms_conversations m') = (if t = ConversationTable then insert i (dom (ms_conversations m)) else dom (ms_conversations m))"
    and "dom (ms_entries m') = (if t = EntryTable then insert i (dom (ms_entries m)) else dom (ms_entries m))"
    and "dom (ms_tasks m') = (if t = TaskTable then insert i (dom (ms_tasks m)) else dom (ms_tasks m))"
    and "dom (ms_submissions m') = (if t = SubmissionTable then insert i (dom (ms_submissions m)) else dom (ms_submissions m))"
    and "ms_documents m' = ms_documents m"
  shows "types_ok m'"
proof -
  have "typed_in m' j" for j
  proof -
    from assms(1) have "typed_in m j" by (simp add: types_ok_def)
    with assms(4,5) show ?thesis
      unfolding typed_in_def typed_def assms(2,6-10) by (cases "j = i"; cases t; auto)
  qed
  moreover have "j < ms_nextId m'" if "ms_types m' j \<noteq> None" for j
    using assms(1) that unfolding types_ok_def assms(2,3) by (cases "j = i") auto
  ultimately show ?thesis by (simp add: types_ok_def)
qed

lemma put_conversation_ok:
  assumes "tables_ok m" "write_ok m (WConversation c)"
  shows "tables_ok (put_conversation c m)"
proof -
  from assms have none: "ms_conversations m (cv_id c) = None" and types: "types_ok m" and conv: "conversations_ok m"
    by (simp_all add: tables_ok_def types_ok_at)
  have "conversations_ok (put_conversation c m)"
    using conv none by (simp add: conversations_ok_def store_simps indexes_put lists_new)
  moreover have "types_ok (put_conversation c m)"
    by (rule types_okI[where i = "cv_id c" and t = ConversationTable, OF types])
      (use assms(2) in \<open>simp_all add: store_simps same_documentsD[OF put_documents(1)]\<close>)
  moreover have "entries_ok (put_conversation c m) = entries_ok m" "tasks_ok (put_conversation c m) = tasks_ok m" "submissions_ok (put_conversation c m) = submissions_ok m"
    by (simp_all only: table_defs store_simps)
  ultimately show ?thesis using assms(1) by (simp add: tables_ok_def)
qed

lemma put_entry_ok:
  assumes "tables_ok m" "write_ok m (WEntry e)"
  shows "tables_ok (put_entry seq e m)"
proof -
  from assms have none: "ms_entries m (en_id e) = None" and types: "types_ok m" and entry: "entries_ok m"
    by (simp_all add: tables_ok_def types_ok_at)
  have "entries_ok (put_entry seq e m)"
    using entry none by (simp add: entries_ok_def store_simps indexes_put del: o_apply)
  moreover have "types_ok (put_entry seq e m)"
    by (rule types_okI[where i = "en_id e" and t = EntryTable, OF types])
      (use assms(2) in \<open>simp_all add: store_simps same_documentsD[OF put_documents(2)]\<close>)
  moreover have "conversations_ok (put_entry seq e m) = conversations_ok m" "tasks_ok (put_entry seq e m) = tasks_ok m" "submissions_ok (put_entry seq e m) = submissions_ok m"
    by (simp_all only: table_defs store_simps)
  ultimately show ?thesis using assms(1) by (simp add: tables_ok_def)
qed

lemma put_task_ok:
  assumes "tables_ok m" "write_ok m (WTask t)"
  shows "tables_ok (put_task t m)"
proof -
  from assms have types: "types_ok m" and task: "tasks_ok m" by (auto simp: tables_ok_def)
  have "tasks_ok (put_task t m)"
    using task by (simp add: tasks_ok_def store_simps lists_add_if_new indexes_status)
  moreover have "types_ok (put_task t m)"
    by (rule types_okI[where i = "tk_id t" and t = TaskTable, OF types])
      (use assms(2) in \<open>simp_all add: store_simps same_documentsD[OF put_documents(3)]\<close>)
  moreover have "conversations_ok (put_task t m) = conversations_ok m" "entries_ok (put_task t m) = entries_ok m" "submissions_ok (put_task t m) = submissions_ok m"
    by (simp_all only: table_defs store_simps)
  ultimately show ?thesis using assms(1) by (simp add: tables_ok_def)
qed

lemma drop_request_only:
  assumes "drop_request previous i index c = Some rs" "map_of rs r = Some j"
  shows "\<exists>rs'. index c = Some rs' \<and> map_of rs' r = Some j
    \<and> (\<forall>p. previous = Some p \<longrightarrow> sb_conversation p = c \<longrightarrow> sb_request p = Some r \<longrightarrow> j \<noteq> i)"
  using assms
  by (auto simp: drop_request_def Let_def delete_conv fun_upd_apply split: option.splits if_splits)

lemma add_request_cases:
  assumes "add_request s index c = Some rs" "map_of rs r = Some j"
  shows "(sb_conversation s = c \<and> sb_request s = Some r \<and> j = sb_id s)
    \<or> (\<exists>rs'. index c = Some rs' \<and> map_of rs' r = Some j)"
proof (cases "sb_request s")
  case (Some q)
  show ?thesis
  proof (cases "c = sb_conversation s")
    case True
    with assms Some have "map_of (AList.update q (sb_id s) (case index c of None \<Rightarrow> [] | Some rs \<Rightarrow> rs)) r = Some j"
      by (simp add: add_request_def)
    then show ?thesis using True Some
      by (cases "q = r"; cases "index c"; simp add: update_conv)
  qed (use assms Some in \<open>simp add: add_request_def\<close>)
qed (use assms in \<open>simp add: add_request_def\<close>)

lemma put_submission_requests:
  assumes "submissions_ok m"
  shows "requests_ok (put_submission s m)"
  unfolding requests_ok_def
proof (intro allI impI)
  fix c rs r j
  let ?dropped = "drop_request (ms_submissions m (sb_id s)) (sb_id s) (ms_byRequest m)"
  assume a: "ms_byRequest (put_submission s m) c = Some rs" "map_of rs r = Some j"
  from add_request_cases[OF a[unfolded store_simps]] consider (new) "sb_conversation s = c" "sb_request s = Some r" "j = sb_id s"
    | (old) rs' where "?dropped c = Some rs'" "map_of rs' r = Some j"
    by blast
  then show "\<exists>t. ms_submissions (put_submission s m) j = Some t \<and> sb_conversation t = c \<and> sb_request t = Some r"
  proof cases
    case old
    from drop_request_only[OF old] obtain rs'' where rs: "ms_byRequest m c = Some rs''" "map_of rs'' r = Some j"
      and not: "\<forall>p. ms_submissions m (sb_id s) = Some p \<longrightarrow> sb_conversation p = c \<longrightarrow> sb_request p = Some r \<longrightarrow> j \<noteq> sb_id s"
      by blast
    from assms have "requests_ok m" by (simp add: submissions_ok_def)
    with rs obtain t where t: "ms_submissions m j = Some t" "sb_conversation t = c" "sb_request t = Some r"
      unfolding requests_ok_def by blast
    with not have "j \<noteq> sb_id s" by auto
    with t show ?thesis by (simp add: store_simps)
  qed (simp add: store_simps)
qed

lemma put_submission_ok:
  assumes "tables_ok m" "write_ok m (WSubmission s)"
  shows "tables_ok (put_submission s m)"
proof -
  from assms have types: "types_ok m" and sub: "submissions_ok m" by (auto simp: tables_ok_def)
  have "submissions_ok (put_submission s m)"
    using sub put_submission_requests[OF sub]
    by (simp add: submissions_ok_def store_simps lists_add_if_new indexes_status)
  moreover have "types_ok (put_submission s m)"
    by (rule types_okI[where i = "sb_id s" and t = SubmissionTable, OF types])
      (use assms(2) in \<open>simp_all add: store_simps same_documentsD[OF put_documents(4)]\<close>)
  moreover have "conversations_ok (put_submission s m) = conversations_ok m" "entries_ok (put_submission s m) = entries_ok m" "tasks_ok (put_submission s m) = tasks_ok m"
    by (simp_all only: table_defs store_simps)
  ultimately show ?thesis using assms(1) by (simp add: tables_ok_def)
qed

lemma apply_write_ok: "tables_ok m \<Longrightarrow> write_ok m w \<Longrightarrow> tables_ok (apply_write seq w m)"
  by (cases w) (simp_all add: put_conversation_ok put_entry_ok put_task_ok put_submission_ok)

end
