(* ===== verification/Durable_Documents.thy ===== *)
theory Durable_Documents
  imports Durable_Tables
begin

text \<open>
  The document side of a commit: what the checks of the global IDs and of the document actions give to
  their application, the state of one document, and the index of addresses: at every address at
  most one incarnation is live, and the index points at it.
\<close>

subsection \<open>The checked writes\<close>

lemma check_step:
  assumes "checkGlobalIds m claimed (w # ws) = None" "claim w = Some (i, t)"
  shows "checkGlobalIds m (claimed(i \<mapsto> t)) ws = None"
    and "written_once t \<Longrightarrow> ms_types m i = None \<and> claimed i = None"
    and "ms_types m i \<in> {None, Some t} \<and> claimed i \<in> {None, Some t}"
  using assms by (auto split: option.splits if_splits)

lemma check_skip: "checkGlobalIds m claimed (w # ws) = None \<Longrightarrow> claim w = None \<Longrightarrow> checkGlobalIds m claimed ws = None"
  by simp

text \<open>The types on record after some writes, as the claims tell them.\<close>

definition claims_seen :: "store \<Rightarrow> (int \<rightharpoonup> table_name) \<Rightarrow> store \<Rightarrow> bool" where
  "claims_seen m0 claimed m \<longleftrightarrow>
     (\<forall>i. ms_types m i =
        (if claimed i \<in> {None, Some DocumentTable} then ms_types m0 i else claimed i))
     \<and> (\<forall>i. claimed i = Some DocumentTable \<longrightarrow> ms_types m0 i = None)"

lemma apply_write_types:
  "ms_types (apply_write seq w m) =
     (case claim w of
        None \<Rightarrow> ms_types m
      | Some (i, t) \<Rightarrow> if t = DocumentTable then ms_types m else (ms_types m)(i \<mapsto> t))"
  by (cases w) (simp_all add: store_simps)

lemma checked_write:
  assumes "checkGlobalIds m0 claimed (w # ws) = None" "claims_seen m0 claimed m"
  shows "write_ok m w"
proof (cases "claim w")
  case (Some it)
  obtain i t where it: "it = (i, t)" by (cases it)
  from check_step(2,3)[OF assms(1) Some[unfolded it]] assms(2)
  have "(written_once t \<longrightarrow> ms_types m i = None) \<and> ms_types m i \<in> {None, Some t}"
    unfolding claims_seen_def by auto
  with Some it show ?thesis by (cases w) (auto simp: written_once_def)
qed (cases w; simp)

lemma checked_claims:
  assumes "checkGlobalIds m0 claimed (w # ws) = None" "claims_seen m0 claimed m" "claim w = Some (i, t)"
  shows "claims_seen m0 (claimed(i \<mapsto> t)) (apply_write seq w m)"
proof -
  from check_step(2,3)[OF assms(1,3)] assms(2,3) show ?thesis
    unfolding claims_seen_def apply_write_types by (auto simp: written_once_def)
qed

lemma checked_writes:
  assumes "checkGlobalIds m0 claimed ws = None" "claims_seen m0 claimed m" "tables_ok m"
  shows "tables_ok (fold (apply_write seq) ws m)
    \<and> (\<forall>i. claimed i = Some DocumentTable \<or> (\<exists>w \<in> set ws. claim w = Some (i, DocumentTable)) \<longrightarrow>
         ms_types m0 i = None \<and> ms_types (fold (apply_write seq) ws m) i = None)"
  using assms
proof (induction ws arbitrary: claimed m)
  case Nil
  then show ?case by (auto simp: claims_seen_def)
next
  case (Cons w ws)
  let ?m = "apply_write seq w m"
  from Cons.prems have ok: "tables_ok ?m" by (blast intro: apply_write_ok checked_write)
  show ?case
  proof (cases "claim w")
    case None
    then have "ms_types ?m = ms_types m" by (simp add: apply_write_types)
    with Cons.prems(2) have "claims_seen m0 claimed ?m" by (simp add: claims_seen_def)
    from Cons.IH[OF check_skip[OF Cons.prems(1) None] this ok] None show ?thesis by auto
  next
    case (Some it)
    obtain i t where it: "claim w = Some (i, t)" using Some by (cases it) auto
    note step = check_step[OF Cons.prems(1) it]
    have "(claimed(i \<mapsto> t)) j = Some DocumentTable \<or> (\<exists>w \<in> set ws. claim w = Some (j, DocumentTable))"
      if "claimed j = Some DocumentTable \<or> (\<exists>w \<in> set (w # ws). claim w = Some (j, DocumentTable))" for j
      using that it step(3) by auto
    with Cons.IH[OF step(1) checked_claims[OF Cons.prems(1,2) it] ok] show ?thesis
      unfolding fold_simps by blast
  qed
qed

subsection \<open>The document actions\<close>

definition action_shape :: "storage_write list \<Rightarrow> int \<times> doc_action \<Rightarrow> bool" where
  "action_shape ws ia \<longleftrightarrow>
     (case da_create (snd ia) of
        None \<Rightarrow> True
      | Some r \<Rightarrow> dc_id r = fst ia
          \<and> (\<exists>v x. da_content (snd ia) = Some (Base v x) \<and> WCreate r v x \<in> set ws))"

definition actions_shape :: "storage_write list \<Rightarrow> doc_actions \<Rightarrow> bool" where
  "actions_shape ws acts \<longleftrightarrow> distinct (map fst acts) \<and> list_all (action_shape ws) acts"

lemma update_mem: "x \<in> set (AList.update k v al) \<Longrightarrow> x = (k, v) \<or> x \<in> set al"
  by (induction al) (auto split: if_splits)

lemma action_of_shape: "list_all (action_shape ws) acts \<Longrightarrow> action_shape ws (i, action_of acts i)"
  by (auto simp: action_of_def no_action_def action_shape_def list_all_iff split: option.split dest!: map_of_SomeD)

lemma add_action_shape:
  assumes "add_action w acts = Inr acts'" "actions_shape ws acts" "w \<in> set ws"
  shows "actions_shape ws acts'"
proof -
  from assms(2) have all: "list_all (action_shape ws) acts" and dist: "distinct (map fst acts)"
    by (auto simp: actions_shape_def)
  have upd: "actions_shape ws (AList.update i a acts)" if "action_shape ws (i, a)" for i a
    using all dist that by (auto simp: actions_shape_def list_all_iff distinct_update dest!: update_mem)
  show ?thesis
  proof (cases w)
    case (WCreate r v x)
    with assms(1,3) show ?thesis
      by (auto simp: Let_def action_shape_def intro!: upd split: if_splits)
  next
    case (WChange i c)
    with assms(1) action_of_shape[OF all, of i] show ?thesis
      by (auto simp: Let_def action_shape_def intro!: upd split: if_splits option.splits)
  next
    case (WRetire i)
    with assms(1) action_of_shape[OF all, of i] show ?thesis
      by (auto simp: Let_def action_shape_def intro!: upd split: if_splits option.splits)
  qed (use assms(1,2) in auto)
qed

lemma prepare_shape:
  "prepareDocumentActions ws' acts = Inr acts' \<Longrightarrow> set ws' \<subseteq> set ws \<Longrightarrow> actions_shape ws acts \<Longrightarrow> actions_shape ws acts'"
  by (induction ws' arbitrary: acts) (auto simp: and_then_Inr dest: add_action_shape)

subsection \<open>The state of one document\<close>

definition versions_ok :: "content list \<Rightarrow> bool" where
  "versions_ok cs \<longleftrightarrow>
     cs \<noteq> [] \<and> is_base (hd cs) \<and> successively (\<lambda>c c'. is_base c' \<or> content_version c' = content_version c) cs"

definition doc_ok :: "int \<Rightarrow> doc_state \<Rightarrow> bool" where
  "doc_ok n d \<longleftrightarrow>
     dr_created (ds_record d) < n
     \<and> (\<forall>t. dr_retired (ds_record d) = Some t \<longrightarrow> dr_created (ds_record d) \<le> t \<and> t < n)
     \<and> sorted_wrt (<) (map snd (ds_revisions d))
     \<and> (\<forall>s \<in> set (map snd (ds_revisions d)). dr_created (ds_record d) \<le> s \<and> s < n)
     \<and> (if isCurrentOnly (ds_record d) \<and> dr_retired (ds_record d) \<noteq> None then ds_revisions d = []
        else versions_ok (map fst (ds_revisions d)))
     \<and> (isCurrentOnly (ds_record d) \<or> snd (hd (ds_revisions d)) = dr_created (ds_record d))"

lemma doc_ok_mono: "doc_ok n d \<Longrightarrow> n \<le> n' \<Longrightarrow> doc_ok n' d"
  unfolding doc_ok_def by fastforce

text \<open>What an action makes of the document.\<close>

definition acted :: "int \<Rightarrow> doc_action \<Rightarrow> doc_state option \<Rightarrow> doc_state" where
  "acted seq a old =
     (let d = (case (da_create a, da_content a) of
           (Some r, Some c) \<Rightarrow>
             \<lparr>ds_record = doc_create.extend r \<lparr>dr_created = seq, dr_retired = (if da_retire a then Some seq else None)\<rparr>,
              ds_revisions = [(c, seq)]\<rparr>
         | (None, Some c) \<Rightarrow> change_document c seq (the old)
         | _ \<Rightarrow> the old)
      in if da_retire a then retire_document (da_create a \<noteq> None) seq d else d)"

lemma extend_fields [simp]:
  "dc_id (doc_create.extend r x) = dc_id r" "dc_kind (doc_create.extend r x) = dc_kind r"
  "dc_key (doc_create.extend r x) = dc_key r" "dc_scope (doc_create.extend r x) = dc_scope r"
  "dc_history (doc_create.extend r x) = dc_history r" "dc_fork (doc_create.extend r x) = dc_fork r"
  by (simp_all add: doc_create.defs)

lemma extend_stamps [simp]:
  "dr_created (doc_create.extend r \<lparr>dr_created = s, dr_retired = t\<rparr>) = s"
  "dr_retired (doc_create.extend r \<lparr>dr_created = s, dr_retired = t\<rparr>) = t"
  by (simp_all add: doc_create.defs doc_record.defs)

lemma check_action_None:
  assumes "check_action m i a = None"
  shows "da_create a = None \<Longrightarrow> \<exists>d. ms_documents m i = Some d \<and> dr_retired (ds_record d) = None"
    and "da_create a \<noteq> None \<Longrightarrow> ms_documents m i = None"
    and "ms_documents m i = Some d \<Longrightarrow> da_content a = Some (Delta v ops) \<Longrightarrow>
        ds_revisions d \<noteq> [] \<and> content_version (fst (last (ds_revisions d))) = v"
  using assms by (auto simp: check_action_def Let_def split: if_splits option.splits content.splits)

lemma change_ok:
  assumes "doc_ok n d" "n \<le> seq" "dr_retired (ds_record d) = None"
    and "\<And>v ops. c = Delta v ops \<Longrightarrow> content_version (fst (last (ds_revisions d))) = v"
  shows "doc_ok (seq + 1) (change_document c seq d)"
proof -
  have base: "versions_ok [c]" if "is_base c" using that by (simp add: versions_ok_def)
  from assms(1,3) have old: "versions_ok (map fst (ds_revisions d))" "dr_created (ds_record d) < n"
    "sorted_wrt (<) (map snd (ds_revisions d))" "\<forall>s \<in> set (map snd (ds_revisions d)). dr_created (ds_record d) \<le> s \<and> s < n"
    "isCurrentOnly (ds_record d) \<or> snd (hd (ds_revisions d)) = dr_created (ds_record d)"
    by (auto simp: doc_ok_def)
  then have ne: "ds_revisions d \<noteq> []" by (auto simp: versions_ok_def)
  have "is_base c \<or> content_version c = content_version (fst (last (ds_revisions d)))"
    using assms(4) by (cases c) auto
  then have "versions_ok (map fst (ds_revisions d) @ [c])"
    using old(1) ne by (auto simp: versions_ok_def successively_append_iff last_map)
  with old ne assms(2,3) base show ?thesis
    by (auto simp: doc_ok_def change_document_def sorted_wrt_append)
qed

lemma retire_ok:
  assumes "doc_ok n d" "seq < n" "dr_created (ds_record d) \<le> seq"
    and "created \<Longrightarrow> dr_retired (ds_record d) = Some seq"
    and "\<not> created \<Longrightarrow> dr_retired (ds_record d) = None"
  shows "doc_ok n (retire_document created seq d)"
  using assms by (cases created) (auto simp: doc_ok_def retire_document_def Let_def isCurrentOnly_def)

lemma acted_ok:
  assumes "check_action m i a = None" "action_shape ws (i, a)" "n \<le> seq"
    and "\<And>d. ms_documents m i = Some d \<Longrightarrow> doc_ok n d"
  shows "doc_ok (seq + 1) (acted seq a (ms_documents m i))"
proof (cases "da_create a")
  case (Some r)
  with assms(2) obtain v x where c: "da_content a = Some (Base v x)" by (auto simp: action_shape_def)
  with Some show ?thesis
    by (auto simp: acted_def retire_document_def Let_def doc_ok_def versions_ok_def isCurrentOnly_def)
next
  case None
  from check_action_None(1)[OF assms(1) None] obtain d where
    d: "ms_documents m i = Some d" "dr_retired (ds_record d) = None" by blast
  note ok = assms(4)[OF d(1)]
  then have created: "dr_created (ds_record d) \<le> seq" using assms(3) by (auto simp: doc_ok_def)
  let ?d = "case da_content a of None \<Rightarrow> d | Some c \<Rightarrow> change_document c seq d"
  have "doc_ok (seq + 1) ?d"
  proof (cases "da_content a")
    case (Some c)
    with change_ok[OF ok assms(3) d(2), of c] check_action_None(3)[OF assms(1) d(1)] show ?thesis by auto
  qed (use ok assms(3) in \<open>auto intro: doc_ok_mono\<close>)
  moreover have "ds_record ?d = ds_record d" by (cases "da_content a") (auto simp: change_document_def)
  moreover have "acted seq a (ms_documents m i) = (if da_retire a then retire_document False seq ?d else ?d)"
    using None d by (cases "da_content a") (auto simp: acted_def)
  ultimately show ?thesis using retire_ok[of "seq + 1" ?d seq False] d(2) created by simp
qed

end
