(* ===== verification/Durable_Addresses.thy ===== *)
theory Durable_Addresses
  imports Durable_Documents
begin

text \<open>
  The effect of one document action on every field, and the index of addresses through a commit: the
  count of live incarnations that the check bounds is what keeps an address with at most one.
\<close>

subsection \<open>The effect of one action\<close>

definition address_ids :: "store \<Rightarrow> doc_address \<Rightarrow> int list" where
  "address_ids m k = (case ms_addresses m k of None \<Rightarrow> [] | Some ai \<Rightarrow> ai_ids ai)"

definition new_address :: "int \<Rightarrow> doc_action \<Rightarrow> store \<Rightarrow> doc_address" where
  "new_address i a m = recordAddressKey (ds_record (acted 0 a (ms_documents m i)))"

lemma address_kept [simp]:
  "recordAddressKey (ds_record (retire_document c s d)) = recordAddressKey (ds_record d)"
  "recordAddressKey (ds_record (change_document c' s d)) = recordAddressKey (ds_record d)"
  "dc_scope (ds_record (retire_document c s d)) = dc_scope (ds_record d)"
  "dc_scope (ds_record (change_document c' s d)) = dc_scope (ds_record d)"
  "dc_id (ds_record (retire_document c s d)) = dc_id (ds_record d)"
  "dc_id (ds_record (change_document c' s d)) = dc_id (ds_record d)"
  "dr_retired (ds_record (change_document c' s d)) = dr_retired (ds_record d)"
  "dr_retired (ds_record (retire_document c s d)) = (if c then dr_retired (ds_record d) else Some s)"
  by (simp_all add: retire_document_def change_document_def recordAddressKey_def Let_def)

lemma extend_address [simp]: "recordAddressKey (doc_create.extend r x) = recordAddressKey r"
  by (simp add: recordAddressKey_def)

lemma acted_create:
  assumes "action_shape ws (i, a)" "da_create a = Some r"
  shows "recordAddressKey (ds_record (acted seq a old)) = recordAddressKey r"
    "dc_scope (ds_record (acted seq a old)) = dc_scope r" "dc_id (ds_record (acted seq a old)) = i"
    "dr_retired (ds_record (acted seq a old)) = (if da_retire a then Some seq else None)"
  using assms by (auto simp: action_shape_def acted_def)

lemma acted_existing:
  assumes "da_create a = None"
  shows "recordAddressKey (ds_record (acted seq a (Some d))) = recordAddressKey (ds_record d)"
    "dc_scope (ds_record (acted seq a (Some d))) = dc_scope (ds_record d)"
    "dc_id (ds_record (acted seq a (Some d))) = dc_id (ds_record d)"
    "dr_retired (ds_record (acted seq a (Some d))) = (if da_retire a then Some seq else dr_retired (ds_record d))"
  using assms by (auto simp: acted_def split: option.split)

definition point :: "int \<Rightarrow> doc_action \<Rightarrow> int option \<Rightarrow> int option" where
  "point i a current =
     (if da_create a \<noteq> None \<and> \<not> da_retire a then Some i
      else if da_retire a \<and> current = Some i then None else current)"

definition ready :: "storage_write list \<Rightarrow> store \<Rightarrow> int \<times> doc_action \<Rightarrow> bool" where
  "ready ws m ia \<longleftrightarrow> check_action m (fst ia) (snd ia) = None \<and> action_shape ws ia"

text \<open>The fields of a store that no document action changes.\<close>

definition same_tables :: "store \<Rightarrow> store \<Rightarrow> bool" where
  "same_tables m m' \<longleftrightarrow>
     ms_conversations m' = ms_conversations m \<and> ms_conversationIds m' = ms_conversationIds m
     \<and> ms_byOwnerConversation m' = ms_byOwnerConversation m \<and> ms_byOwnerTask m' = ms_byOwnerTask m
     \<and> ms_entries m' = ms_entries m \<and> ms_entryIds m' = ms_entryIds m
     \<and> ms_headEntryIds m' = ms_headEntryIds m \<and> ms_entrySeqs m' = ms_entrySeqs m
     \<and> ms_tasks m' = ms_tasks m \<and> ms_taskIds m' = ms_taskIds m
     \<and> ms_taskIdsByStatus m' = ms_taskIdsByStatus m \<and> ms_submissions m' = ms_submissions m
     \<and> ms_submissionIds m' = ms_submissionIds m
     \<and> ms_submissionIdsByStatus m' = ms_submissionIdsByStatus m \<and> ms_byRequest m' = ms_byRequest m
     \<and> ms_nextSeq m' = ms_nextSeq m \<and> ms_closed m' = ms_closed m"

lemma action_effect_create:
  assumes "ready ws m (i, a)" "da_create a = Some r"
  shows "ms_documents (apply_action seq (i, a) m) = (ms_documents m)(i \<mapsto> acted seq a (ms_documents m i))"
    "ms_types (apply_action seq (i, a) m) = (ms_types m)(i \<mapsto> DocumentTable)"
    "ms_nextId (apply_action seq (i, a) m) = max (ms_nextId m) (i + 1)"
    "address_ids (apply_action seq (i, a) m)
       = (address_ids m)(recordAddressKey r := insertSorted (address_ids m (recordAddressKey r)) i)"
    "ms_byScope (apply_action seq (i, a) m) = insertMapId (ms_byScope m) (dc_scope r) i"
    "current_of (apply_action seq (i, a) m)
       = (current_of m)(recordAddressKey r := point i a (current_of m (recordAddressKey r)))"
    "same_tables m (apply_action seq (i, a) m)"
proof -
  from assms obtain v x where c: "da_content a = Some (Base v x)" by (auto simp: ready_def action_shape_def)
  let ?rec = "doc_create.extend r \<lparr>dr_created = seq, dr_retired = (if da_retire a then Some seq else None)\<rparr>"
  let ?d0 = "\<lparr>ds_record = ?rec, ds_revisions = [(Base v x, seq)]\<rparr>"
  let ?d = "if da_retire a then retire_document True seq ?d0 else ?d0"
  let ?k = "recordAddressKey r"
  let ?ai = "case ms_addresses m ?k of None \<Rightarrow> \<lparr>ai_ids = [], ai_current = None\<rparr> | Some ai \<Rightarrow> ai"
  have eq: "apply_action seq (i, a) m = used_id i
      (m\<lparr>ms_types := (ms_types m)(i \<mapsto> DocumentTable),
         ms_documents := (ms_documents m)(i \<mapsto> ?d),
         ms_addresses := (ms_addresses m)(?k \<mapsto>
           (?ai\<lparr>ai_ids := insertSorted (ai_ids ?ai) i, ai_current := point i a (ai_current ?ai)\<rparr>)),
         ms_byScope := insertMapId (ms_byScope m) (dc_scope r) i\<rparr>)"
    using assms(2) c
    by (auto simp: apply_action_def create_document_def point_address_def update_document_def used_id_def
        point_def Let_def)
  have doc: "acted seq a (ms_documents m i) = ?d" using assms(2) c by (simp add: acted_def Let_def)
  show "ms_documents (apply_action seq (i, a) m) = (ms_documents m)(i \<mapsto> acted seq a (ms_documents m i))"
    unfolding eq doc by (simp add: used_id_def)
  show "ms_types (apply_action seq (i, a) m) = (ms_types m)(i \<mapsto> DocumentTable)"
    "ms_nextId (apply_action seq (i, a) m) = max (ms_nextId m) (i + 1)"
    "ms_byScope (apply_action seq (i, a) m) = insertMapId (ms_byScope m) (dc_scope r) i"
    unfolding eq by (simp_all add: used_id_def)
  show "address_ids (apply_action seq (i, a) m) = (address_ids m)(?k := insertSorted (address_ids m ?k) i)"
    unfolding eq by (rule ext) (auto simp: used_id_def address_ids_def split: option.split)
  show "current_of (apply_action seq (i, a) m) = (current_of m)(?k := point i a (current_of m ?k))"
    unfolding eq by (rule ext) (auto simp: used_id_def current_of_def split: option.split)
  show "same_tables m (apply_action seq (i, a) m)"
    unfolding eq by (simp add: used_id_def same_tables_def)
qed

lemma action_effect_existing:
  assumes "ready ws m (i, a)" "da_create a = None" "ms_documents m i = Some d"
  shows "ms_documents (apply_action seq (i, a) m) = (ms_documents m)(i \<mapsto> acted seq a (Some d))"
    "ms_types (apply_action seq (i, a) m) = ms_types m"
    "ms_nextId (apply_action seq (i, a) m) = ms_nextId m"
    "address_ids (apply_action seq (i, a) m) = address_ids m"
    "ms_byScope (apply_action seq (i, a) m) = ms_byScope m"
    "current_of (apply_action seq (i, a) m)
       = (current_of m)(recordAddressKey (ds_record d) := point i a (current_of m (recordAddressKey (ds_record d))))"
    "same_tables m (apply_action seq (i, a) m)"
proof -
  let ?k = "recordAddressKey (ds_record d)"
  have eq: "apply_action seq (i, a) m =
      m\<lparr>ms_documents := (ms_documents m)(i \<mapsto> acted seq a (Some d)),
        ms_addresses := (ms_addresses m)(?k := map_option
          (\<lambda>ai. if da_retire a \<and> ai_current ai = Some i then ai\<lparr>ai_current := None\<rparr> else ai) (ms_addresses m ?k))\<rparr>"
  proof (cases "da_retire a")
    case True
    with assms(2,3) show ?thesis
      by (cases "da_content a") (simp_all add: apply_action_def point_address_def update_document_def acted_def Let_def)
  next
    case False
    then have "apply_action seq (i, a) m = m\<lparr>ms_documents := (ms_documents m)(i \<mapsto> acted seq a (Some d))\<rparr>"
      using assms(2,3)
      by (cases "da_content a") (simp_all add: apply_action_def update_document_def acted_def Let_def fun_upd_idem)
    moreover have "(ms_addresses m)(?k := map_option (\<lambda>ai. ai) (ms_addresses m ?k)) = ms_addresses m"
      by (rule ext) (simp add: option.map_ident)
    ultimately show ?thesis using False by simp
  qed
  show "ms_documents (apply_action seq (i, a) m) = (ms_documents m)(i \<mapsto> acted seq a (Some d))"
    "ms_types (apply_action seq (i, a) m) = ms_types m"
    "ms_nextId (apply_action seq (i, a) m) = ms_nextId m"
    "ms_byScope (apply_action seq (i, a) m) = ms_byScope m"
    unfolding eq by simp_all
  show "address_ids (apply_action seq (i, a) m) = address_ids m"
    unfolding eq by (rule ext) (auto simp: address_ids_def split: option.split)
  show "current_of (apply_action seq (i, a) m) = (current_of m)(?k := point i a (current_of m ?k))"
    unfolding eq using assms(2) by (intro ext) (auto simp: current_of_def point_def split: option.split)
  show "same_tables m (apply_action seq (i, a) m)"
    unfolding eq by (simp add: same_tables_def)
qed

subsection \<open>Documents and their indexes through the actions\<close>

definition documents_ok :: "int \<Rightarrow> store \<Rightarrow> bool" where
  "documents_ok n m \<longleftrightarrow>
     (\<forall>i d. ms_documents m i = Some d \<longrightarrow> dc_id (ds_record d) = i \<and> doc_ok n d)
     \<and> ids.indexes (ids_at (ms_byScope m)) (keyed (\<lambda>d. Some (dc_scope (ds_record d))) (ms_documents m))
     \<and> ids.indexes (address_ids m) (keyed (\<lambda>d. Some (recordAddressKey (ds_record d))) (ms_documents m))"

definition applicable :: "storage_write list \<Rightarrow> int \<Rightarrow> store \<Rightarrow> doc_actions \<Rightarrow> bool" where
  "applicable ws n m acts \<longleftrightarrow>
     distinct (map fst acts)
     \<and> (\<forall>(i, a) \<in> set acts. ready ws m (i, a) \<and> (da_create a \<noteq> None \<longrightarrow> ms_types m i = None)
          \<and> (\<forall>d. ms_documents m i = Some d \<longrightarrow> doc_ok n d))"

lemma applicableD:
  assumes "applicable ws n m ((i, a) # acts)"
  shows "ready ws m (i, a)" "da_create a \<noteq> None \<Longrightarrow> ms_types m i = None"
    "ms_documents m i = Some d \<Longrightarrow> doc_ok n d" "i \<notin> fst ` set acts" "applicable ws n m acts"
  using assms by (auto simp: applicable_def)

text \<open>The document an action changes: none yet, or a live one.\<close>

lemma ready_cases [consumes 1, case_names creates exists]:
  assumes "ready ws m (i, a)"
  obtains (creates) r where "da_create a = Some r" "ms_documents m i = None" "dc_id r = i"
  | (exists) d where "da_create a = None" "ms_documents m i = Some d" "dr_retired (ds_record d) = None"
  using assms check_action_None(1,2)[of m i a]
  by (cases "da_create a") (auto simp: ready_def action_shape_def)

lemma ready_cong: "ms_documents m' (fst ia) = ms_documents m (fst ia) \<Longrightarrow> ready ws m' ia = ready ws m ia"
  by (simp add: ready_def check_action_def)

lemma apply_action_others:
  assumes "ready ws m (i, a)" "j \<noteq> i"
  shows "ms_documents (apply_action seq (i, a) m) j = ms_documents m j"
    "ms_types (apply_action seq (i, a) m) j = ms_types m j"
  using assms(2) action_effect_create[OF assms(1)] action_effect_existing[OF assms(1)]
  by (cases rule: ready_cases[OF assms(1)]; simp)+

lemma applicable_step:
  assumes "applicable ws n m ((i, a) # acts)"
  shows "applicable ws n (apply_action seq (i, a) m) acts"
proof -
  note d = applicableD[OF assms]
  let ?m = "apply_action seq (i, a) m"
  have "ready ws ?m (j, b) \<and> (da_create b \<noteq> None \<longrightarrow> ms_types ?m j = None)
      \<and> (\<forall>e. ms_documents ?m j = Some e \<longrightarrow> doc_ok n e)" if mem: "(j, b) \<in> set acts" for j b
  proof -
    have "j \<noteq> i" using d(4) mem by force
    note same = apply_action_others[OF d(1) this, of seq]
    have "ready ws ?m (j, b) = ready ws m (j, b)" by (rule ready_cong) (simp add: same)
    with d(5) mem show ?thesis unfolding applicable_def same by blast
  qed
  moreover have "distinct (map fst acts)" using d(5) by (simp add: applicable_def)
  ultimately show ?thesis unfolding applicable_def by blast
qed

lemma same_tables_ok:
  assumes "same_tables m m'"
  shows "conversations_ok m' = conversations_ok m" "entries_ok m' = entries_ok m" "tasks_ok m' = tasks_ok m"
    "submissions_ok m' = submissions_ok m"
  using assms by (simp_all only: table_defs same_tables_def)

lemma action_tables_ok:
  assumes "applicable ws n m ((i, a) # acts)" "tables_ok m"
  shows "tables_ok (apply_action seq (i, a) m)"
proof -
  let ?m = "apply_action seq (i, a) m"
  note d = applicableD[OF assms(1)]
  have old: "typed_in m j" "ms_types m j \<noteq> None \<Longrightarrow> j < ms_nextId m" for j
    using assms(2) by (auto simp: tables_ok_def types_ok_def)
  from d(1) show ?thesis
  proof (cases rule: ready_cases)
    case (creates r)
    note eff = action_effect_create[OF d(1) creates(1), of seq]
    have "typed_in ?m j" for j
      using old(1)[of j] d(2) creates(1) eff(1,2,7)
      by (cases "j = i") (auto simp: typed_in_def typed_def same_tables_def)
    moreover have "j < ms_nextId ?m" if "ms_types ?m j \<noteq> None" for j
      using that old(2)[of j] eff(2,3) by (cases "j = i") auto
    ultimately show ?thesis using assms(2) same_tables_ok[OF eff(7)] by (simp add: tables_ok_def types_ok_def)
  next
    case (exists e)
    note eff = action_effect_existing[OF d(1) exists(1,2), of seq]
    have "typed_in ?m j" for j
      using old(1)[of j] old(1)[of i] exists(2) eff(1,2,7)
      by (cases "j = i") (auto simp: typed_in_def typed_def same_tables_def)
    then show ?thesis using assms(2) same_tables_ok[OF eff(7)] eff(2,3) by (simp add: tables_ok_def types_ok_def)
  qed
qed

lemma action_documents_ok:
  assumes "applicable ws n m ((i, a) # acts)" "documents_ok (seq + 1) m" "n \<le> seq"
  shows "documents_ok (seq + 1) (apply_action seq (i, a) m)"
proof -
  note d = applicableD[OF assms(1)]
  from assms(2) have idx: "ids.indexes (ids_at (ms_byScope m)) (keyed (\<lambda>d. Some (dc_scope (ds_record d))) (ms_documents m))"
    "ids.indexes (address_ids m) (keyed (\<lambda>d. Some (recordAddressKey (ds_record d))) (ms_documents m))"
    by (auto simp: documents_ok_def)
  have ok: "doc_ok (seq + 1) (acted seq a (ms_documents m i))"
    using acted_ok[OF _ _ assms(3)] d(1,3) by (auto simp: ready_def)
  have shape: "action_shape ws (i, a)" using d(1) by (simp add: ready_def)
  from d(1) show ?thesis
  proof (cases rule: ready_cases)
    case (creates r)
    note eff = action_effect_create[OF d(1) creates(1), of seq] and new = acted_create[OF shape creates(1)]
    have none: "keyed f (ms_documents m) i = None" for f :: "doc_state \<Rightarrow> 'x option"
      using creates(2) by (rule keyed_none)
    show ?thesis
      unfolding documents_ok_def eff keyed_upd ids_at_insertMapId new
      using ids.indexes_new[OF idx(1) none] ids.indexes_new[OF idx(2) none] assms(2) ok new
      by (auto simp: documents_ok_def)
  next
    case (exists e)
    note eff = action_effect_existing[OF d(1) exists(1,2), of seq] and new = acted_existing[OF exists(1)]
    show ?thesis
      unfolding documents_ok_def eff keyed_upd new
      using ids.indexes_same[OF idx(1), of i] ids.indexes_same[OF idx(2), of i] assms(2) ok new exists(2)
      by (auto simp: documents_ok_def keyed_some)
  qed
qed

subsection \<open>At most one live incarnation\<close>

definition live_at :: "store \<Rightarrow> int \<Rightarrow> doc_address \<Rightarrow> bool" where
  "live_at m i k \<longleftrightarrow>
     (\<exists>d. ms_documents m i = Some d \<and> recordAddressKey (ds_record d) = k \<and> dr_retired (ds_record d) = None)"

definition addresses_ok :: "store \<Rightarrow> bool" where
  "addresses_ok m \<longleftrightarrow> (\<forall>k i. current_of m k = Some i \<longleftrightarrow> live_at m i k)"

definition retires :: "doc_actions \<Rightarrow> int \<Rightarrow> bool" where
  "retires acts i \<longleftrightarrow> (\<exists>a. (i, a) \<in> set acts \<and> da_create a = None \<and> da_retire a)"

definition born_at :: "doc_address \<Rightarrow> int \<times> doc_action \<Rightarrow> bool" where
  "born_at k ia \<longleftrightarrow>
     \<not> da_retire (snd ia) \<and> (case da_create (snd ia) of None \<Rightarrow> False | Some r \<Rightarrow> recordAddressKey r = k)"

definition births :: "doc_actions \<Rightarrow> doc_address \<Rightarrow> nat" where
  "births acts k = length (filter (born_at k) acts)"

text \<open>While actions are applied: the current incarnation is live, any other live one is still to be
  retired, and together with the births to come at most one stays.\<close>

definition pointed :: "store \<Rightarrow> bool" where
  "pointed m \<longleftrightarrow> (\<forall>k i. current_of m k = Some i \<longrightarrow> live_at m i k)"

definition covered :: "store \<Rightarrow> doc_actions \<Rightarrow> bool" where
  "covered m acts \<longleftrightarrow> (\<forall>k i. live_at m i k \<longrightarrow> current_of m k = Some i \<or> retires acts i)"

definition stays :: "store \<Rightarrow> doc_actions \<Rightarrow> doc_address \<Rightarrow> bool" where
  "stays m acts k \<longleftrightarrow> (\<exists>i. current_of m k = Some i \<and> \<not> retires acts i)"

definition room :: "store \<Rightarrow> doc_actions \<Rightarrow> bool" where
  "room m acts \<longleftrightarrow> (\<forall>k. births acts k + (if stays m acts k then 1 else 0) \<le> 1)"

definition settling :: "store \<Rightarrow> doc_actions \<Rightarrow> bool" where
  "settling m acts \<longleftrightarrow> pointed m \<and> covered m acts \<and> room m acts"

lemma retires_Nil: "\<not> retires [] i"
  by (simp add: retires_def)

lemma settled: "settling m [] \<Longrightarrow> addresses_ok m"
  unfolding settling_def pointed_def covered_def addresses_ok_def using retires_Nil by blast

lemma retires_Cons: "retires ((i, a) # acts) j \<longleftrightarrow> (j = i \<and> da_create a = None \<and> da_retire a) \<or> retires acts j"
  by (auto simp: retires_def)

lemma births_Cons: "births (ia # acts) k = births acts k + (if born_at k ia then 1 else 0)"
  by (simp add: births_def)

lemma not_retires: "i \<notin> fst ` set acts \<Longrightarrow> \<not> retires acts i"
  by (force simp: retires_def)

lemma live_create:
  assumes "ready ws m (i, a)" "da_create a = Some r"
  shows "live_at (apply_action seq (i, a) m) j k \<longleftrightarrow>
     (if j = i then k = recordAddressKey r \<and> \<not> da_retire a else live_at m j k)"
proof -
  have "action_shape ws (i, a)" using assms(1) by (simp add: ready_def)
  note new = acted_create[OF this assms(2)]
  show ?thesis
    unfolding live_at_def action_effect_create(1)[OF assms]
    by (cases "j = i"; cases "da_retire a") (auto simp: new)
qed

lemma live_existing:
  assumes "ready ws m (i, a)" "da_create a = None" "ms_documents m i = Some d" "dr_retired (ds_record d) = None"
  shows "live_at (apply_action seq (i, a) m) j k \<longleftrightarrow>
     (if j = i then k = recordAddressKey (ds_record d) \<and> \<not> da_retire a else live_at m j k)"
  unfolding live_at_def action_effect_existing(1)[OF assms(1-3)]
  using assms(4) by (cases "j = i"; cases "da_retire a") (auto simp: acted_existing[OF assms(2)])

lemma settling_cong:
  assumes "current_of m' = current_of m" "\<And>j k. live_at m' j k = live_at m j k"
    and "\<And>j. retires acts' j = retires acts j" "\<And>k. births acts' k = births acts k"
  shows "settling m' acts' = settling m acts"
  unfolding settling_def pointed_def covered_def room_def stays_def assms ..

lemma settling_create:
  assumes "ready ws m (i, a)" "da_create a = Some r" "settling m ((i, a) # acts)" "i \<notin> fst ` set acts"
  shows "settling (apply_action seq (i, a) m) acts"
proof -
  let ?m = "apply_action seq (i, a) m" and ?k = "recordAddressKey r"
  have none: "ms_documents m i = None" using assms(1,2) check_action_None(2) by (auto simp: ready_def)
  then have dead: "\<not> live_at m i k" for k by (simp add: live_at_def)
  with assms(3) have cur: "current_of m k \<noteq> Some i" for k unfolding settling_def pointed_def by blast
  note eff = action_effect_create(6)[OF assms(1,2), of seq] and live = live_create[OF assms(1,2), of seq]
  have ret: "retires ((i, a) # acts) j = retires acts j" for j using assms(2) by (simp add: retires_Cons)
  have born: "born_at k (i, a) \<longleftrightarrow> k = ?k \<and> \<not> da_retire a" for k using assms(2) by (auto simp: born_at_def)
  from assms(3) have p: "pointed m" and c: "covered m acts"
    and rm: "births acts k + (if born_at k (i, a) then 1 else 0) + (if stays m acts k then 1 else 0) \<le> 1" for k
    unfolding settling_def room_def covered_def stays_def ret births_Cons by auto
  show ?thesis
  proof (cases "da_retire a")
    case True
    then have "current_of ?m = current_of m" using eff cur by (auto simp: point_def)
    moreover have "live_at ?m j k = live_at m j k" for j k using live dead True by simp
    ultimately show ?thesis
      using p c rm born True by (simp add: settling_def pointed_def covered_def room_def stays_def)
  next
    case False
    then have now: "current_of ?m = (current_of m)(?k \<mapsto> i)" using eff assms(2) by (simp add: point_def)
    from rm[of ?k] born False have zero: "births acts ?k = 0" "\<not> stays m acts ?k" by (auto split: if_splits)
    have "pointed ?m"
      using p live cur False unfolding pointed_def now by auto
    moreover have "covered ?m acts"
      unfolding covered_def
    proof (intro allI impI)
      fix k j
      assume l: "live_at ?m j k"
      show "current_of ?m k = Some j \<or> retires acts j"
      proof (cases "j = i")
        case True
        with l live show ?thesis by (simp add: now)
      next
        case other: False
        with l live have "live_at m j k" by simp
        with c have "current_of m k = Some j \<or> retires acts j" unfolding covered_def by blast
        with zero(2) show ?thesis unfolding now stays_def by (cases "k = ?k") auto
      qed
    qed
    moreover have "room ?m acts"
      unfolding room_def
    proof
      fix k
      show "births acts k + (if stays ?m acts k then 1 else 0) \<le> 1"
        using rm[of k] zero born False by (cases "k = ?k") (auto simp: stays_def now)
    qed
    ultimately show ?thesis by (simp add: settling_def)
  qed
qed

lemma settling_existing:
  assumes "ready ws m (i, a)" "da_create a = None" "ms_documents m i = Some d" "dr_retired (ds_record d) = None"
    and "settling m ((i, a) # acts)" "i \<notin> fst ` set acts"
  shows "settling (apply_action seq (i, a) m) acts"
proof -
  let ?m = "apply_action seq (i, a) m" and ?k = "recordAddressKey (ds_record d)"
  note eff = action_effect_existing(6)[OF assms(1-3), of seq] and live = live_existing[OF assms(1-4), of seq]
  have home: "live_at m i k \<longleftrightarrow> k = ?k" for k using assms(3,4) by (auto simp: live_at_def)
  have ret: "retires ((i, a) # acts) j \<longleftrightarrow> (j = i \<and> da_retire a) \<or> retires acts j" for j
    using assms(2) by (auto simp: retires_Cons)
  have bir: "births ((i, a) # acts) k = births acts k" for k using assms(2) by (simp add: births_Cons born_at_def)
  from assms(5) have p: "pointed m" and c: "covered m ((i, a) # acts)" and rm: "room m ((i, a) # acts)"
    by (auto simp: settling_def)
  show ?thesis
  proof (cases "da_retire a")
    case False
    then have "current_of ?m = current_of m" using eff assms(2) by (simp add: point_def)
    moreover have "live_at ?m j k = live_at m j k" for j k using live home False by simp
    moreover have "retires acts j = retires ((i, a) # acts) j" for j using ret False by simp
    ultimately show ?thesis using settling_cong[of ?m m acts "(i, a) # acts"] bir assms(5) by simp
  next
    case True
    then have now: "current_of ?m k = (if k = ?k \<and> current_of m k = Some i then None else current_of m k)" for k
      using eff assms(2) by (simp add: point_def)
    have gone: "\<not> live_at ?m i k" for k using live True by simp
    have cur: "current_of m k = Some i \<Longrightarrow> k = ?k" for k using p home unfolding pointed_def by blast
    have kept: "current_of m k = Some j \<and> j \<noteq> i" if "current_of ?m k = Some j" for k j
    proof (cases "current_of m k = Some i")
      case True
      with cur[OF True] that show ?thesis by (simp add: now)
    next
      case False
      with that show ?thesis by (cases "j = i") (simp_all add: now)
    qed
    have "pointed ?m"
      unfolding pointed_def
    proof (intro allI impI)
      fix k j
      assume a: "current_of ?m k = Some j"
      note j = conjunct1[OF kept[OF a]] conjunct2[OF kept[OF a]]
      from p j(1) have "live_at m j k" unfolding pointed_def by blast
      with j(2) show "live_at ?m j k" using live by simp
    qed
    moreover have "covered ?m acts"
      unfolding covered_def
    proof (intro allI impI)
      fix k j
      assume l: "live_at ?m j k"
      then have j: "j \<noteq> i" using gone by blast
      with l live have "live_at m j k" by simp
      with c have "current_of m k = Some j \<or> retires ((i, a) # acts) j" unfolding covered_def by blast
      then show "current_of ?m k = Some j \<or> retires acts j" 
        unfolding now using ret[of j] j by auto
    qed
    moreover have "stays m ((i, a) # acts) k" if "stays ?m acts k" for k
    proof -
      from that obtain j where j: "current_of ?m k = Some j" "\<not> retires acts j" unfolding stays_def by blast
      from kept[OF j(1)] j(2) ret[of j] show ?thesis unfolding stays_def by blast
    qed
    then have "room ?m acts"
      unfolding room_def
    proof (intro allI)
      fix k
      from rm have "births acts k + (if stays m ((i, a) # acts) k then 1 else 0) \<le> 1"
        unfolding room_def bir by blast
      moreover have "stays ?m acts k \<Longrightarrow> stays m ((i, a) # acts) k" by fact
      ultimately show "births acts k + (if stays ?m acts k then 1 else 0) \<le> 1" by (auto split: if_splits)
    qed
    ultimately show ?thesis by (simp add: settling_def)
  qed
qed

lemma settling_step:
  assumes "applicable ws n m ((i, a) # acts)" "settling m ((i, a) # acts)"
  shows "settling (apply_action seq (i, a) m) acts"
proof -
  note d = applicableD[OF assms(1)]
  from d(1) show ?thesis
  proof (cases rule: ready_cases)
    case (creates r)
    then show ?thesis using settling_create[OF d(1) _ assms(2) d(4)] by blast
  next
    case (exists e)
    then show ?thesis using settling_existing[OF d(1) _ _ _ assms(2) d(4)] by blast
  qed
qed

text \<open>All actions of a commit.\<close>

lemma actions_ok:
  assumes "applicable ws n m acts" "tables_ok m" "documents_ok (seq + 1) m" "settling m acts" "n \<le> seq"
  shows "tables_ok (applyDocumentActions acts seq m) \<and> documents_ok (seq + 1) (applyDocumentActions acts seq m)
    \<and> addresses_ok (applyDocumentActions acts seq m)"
  using assms
proof (induction acts arbitrary: m)
  case Nil
  then show ?case by (simp add: applyDocumentActions_def settled)
next
  case (Cons ia acts)
  obtain i a where ia: "ia = (i, a)" by (cases ia)
  from Cons.prems Cons.IH[of "apply_action seq ia m"] show ?case
    unfolding ia applyDocumentActions_def
    by (simp add: applicable_step action_tables_ok action_documents_ok settling_step)
qed

subsection \<open>The check gives room\<close>

definition live_total :: "store \<Rightarrow> (doc_address \<times> int) list \<Rightarrow> doc_address \<Rightarrow> int" where
  "live_total m live k =
     (case map_of live k of Some n \<Rightarrow> n | None \<Rightarrow> if current_of m k = None then 0 else 1)"

definition live_change :: "store \<Rightarrow> doc_address \<Rightarrow> int \<times> doc_action \<Rightarrow> int" where
  "live_change m k ia =
     (if action_address m (fst ia) (snd ia) = k
      then (if da_create (snd ia) \<noteq> None \<and> \<not> da_retire (snd ia) then 1 else 0)
        - (if da_retire (snd ia) \<and> current_of m k = Some (fst ia) then 1 else 0)
      else 0)"

lemma count_live_total: "live_total m (count_live m i a live) k = live_total m live k + live_change m k (i, a)"
  by (auto simp: live_total_def live_change_def count_live_def Let_def update_conv split: option.split)

lemma check_actions_room:
  assumes "check_actions m acts live = None"
  shows "live_total m live k + sum_list (map (live_change m k) acts) \<le> 1"
    and "\<forall>(i, a) \<in> set acts. check_action m i a = None"
proof -
  show "live_total m live k + sum_list (map (live_change m k) acts) \<le> 1"
    using assms
  proof (induction acts arbitrary: live)
    case Nil
    then show ?case by (force simp: live_total_def split: if_splits option.split dest: map_of_SomeD)
  next
    case (Cons ia acts)
    obtain i a where ia: "ia = (i, a)" by (cases ia)
    with Cons.prems have "check_actions m acts (count_live m i a live) = None" by (simp split: option.splits)
    from Cons.IH[OF this] show ?case by (simp add: count_live_total ia)
  qed
  show "\<forall>(i, a) \<in> set acts. check_action m i a = None"
    using assms by (induction m acts live rule: check_actions.induct) (auto split: option.splits)
qed

end
