(* ===== verification/Durable_Invariant.thy ===== *)
theory Durable_Invariant
  imports Durable_Addresses
begin

text \<open>
  The invariant of the storage over every sequence of commits, ID mints and closes, as an inductive
  step relation, and how a store evolves: IDs, immutable records and the past of a document stay.
\<close>

inductive store_step :: "store \<Rightarrow> store \<Rightarrow> bool" where
  Commit: "prepareCommit owned m ws given = Inr p \<Longrightarrow> apply_prepared p m = Inr (p', m') \<Longrightarrow> store_step m m'"
| Mint: "mintId m = Inr (i, m') \<Longrightarrow> store_step m m'"
| Close: "store_step m (close_store m)"

definition entry_seqs_ok :: "int \<Rightarrow> store \<Rightarrow> bool" where
  "entry_seqs_ok n m \<longleftrightarrow> (\<forall>i s. ms_entrySeqs m i = Some s \<longrightarrow> 1 \<le> s \<and> s < n)"

definition store_ok :: "store \<Rightarrow> bool" where
  "store_ok m \<longleftrightarrow>
     tables_ok m \<and> documents_ok (ms_nextSeq m) m \<and> addresses_ok m \<and> entry_seqs_ok (ms_nextSeq m) m
     \<and> 1 \<le> ms_nextSeq m \<and> 2 \<le> ms_nextId m"

subsection \<open>What the checks of a commit establish\<close>

lemma changes_bound:
  assumes "addresses_ok m" "distinct (map fst acts)" "\<forall>(i, a) \<in> set acts. ready ws m (i, a)"
  shows "int (births acts k) - (if \<exists>i. current_of m k = Some i \<and> retires acts i then 1 else 0)
    \<le> sum_list (map (live_change m k) acts)"
  using assms(2,3)
proof (induction acts)
  case (Cons ia acts)
  obtain i a where ia: "ia = (i, a)" by (cases ia)
  from Cons.prems ia have rdy: "ready ws m (i, a)" and fresh: "i \<notin> fst ` set acts" by auto
  let ?ind = "\<lambda>acts. if \<exists>i. current_of m k = Some i \<and> retires acts i then 1 else 0 :: int"
  have IH: "int (births acts k) - ?ind acts \<le> sum_list (map (live_change m k) acts)"
    using Cons.IH Cons.prems by simp
  from rdy show ?case
  proof (cases rule: ready_cases)
    case (creates r)
    then have "current_of m k \<noteq> Some i" using assms(1) by (auto simp: addresses_ok_def live_at_def)
    then have "live_change m k (i, a) = (if born_at k (i, a) then 1 else 0)"
      using creates by (simp add: live_change_def action_address_def born_at_def)
    moreover have "retires ((i, a) # acts) j = retires acts j" for j using creates by (simp add: retires_Cons)
    ultimately show ?thesis using IH unfolding ia births_Cons by simp
  next
    case (exists d)
    then have ret: "retires ((i, a) # acts) j \<longleftrightarrow> (j = i \<and> da_retire a) \<or> retires acts j" for j
      by (auto simp: retires_Cons)
    have bir: "births ((i, a) # acts) k = births acts k" using exists by (simp add: births_Cons born_at_def)
    show ?thesis
    proof (cases "da_retire a \<and> current_of m k = Some i")
      case True
      then have "live_at m i k" using assms(1) by (simp add: addresses_ok_def)
      with exists have "recordAddressKey (ds_record d) = k" by (auto simp: live_at_def)
      with True exists have "live_change m k (i, a) = -1" by (simp add: live_change_def action_address_def)
      moreover have "?ind acts = 0" using True not_retires[OF fresh] by simp
      moreover have "?ind ((i, a) # acts) = 1" using True ret by auto
      ultimately show ?thesis using IH bir unfolding ia by simp
    next
      case False
      with exists have "live_change m k (i, a) = 0" by (auto simp: live_change_def)
      moreover have "?ind acts \<le> ?ind ((i, a) # acts)" using ret by auto
      ultimately show ?thesis using IH bir unfolding ia by simp
    qed
  qed
qed (simp add: births_def)

lemma check_settling:
  assumes "addresses_ok m" "checkDocumentActions m acts = None" "actions_shape ws acts"
  shows "settling m acts" and "\<forall>(i, a) \<in> set acts. ready ws m (i, a)"
proof -
  note chk = check_actions_room[OF assms(2)[unfolded checkDocumentActions_def]]
  show rdy: "\<forall>(i, a) \<in> set acts. ready ws m (i, a)"
    using chk(2) assms(3) by (auto simp: ready_def actions_shape_def list_all_iff)
  have "births acts k + (if stays m acts k then 1 else 0) \<le> 1" for k
    using chk(1)[of k] changes_bound[OF assms(1) _ rdy, of k] assms(3)
    by (cases "current_of m k") (auto simp: actions_shape_def live_total_def stays_def split: if_splits)
  moreover have "pointed m" "covered m acts"
    using assms(1) unfolding pointed_def covered_def addresses_ok_def by blast+
  ultimately show "settling m acts" unfolding settling_def room_def by blast
qed

lemma each_mem: "each f xs = Inr ys \<Longrightarrow> y \<in> set ys \<Longrightarrow> \<exists>x \<in> set xs. f x = Inr y"
  by (induction xs arbitrary: ys) (auto simp: and_then_Inr)

lemma resolved_no_copy: "resolveDocumentCopies owned m ws = Inr ws' \<Longrightarrow> \<not> list_ex is_copy ws'"
proof -
  assume a: "resolveDocumentCopies owned m ws = Inr ws'"
  have "\<not> is_copy w'" if "resolve_copy owned m cs w = Inr w'" for cs w w'
    using that by (cases w) (auto split: if_splits sum.splits option.splits)
  with each_mem[OF a[unfolded resolveDocumentCopies_def]] show ?thesis by (fastforce simp: list_ex_iff)
qed

lemma prepareD:
  assumes "prepareCommit owned m ws given = Inr p"
  shows "\<not> ms_closed m" "ms_nextSeq m \<le> pc_seq p" "\<bar>pc_seq p\<bar> \<le> max_safe"
    "resolveDocumentCopies owned m ws = Inr (pc_writes p)" "checkGlobalIds m Map.empty (pc_writes p) = None"
    "prepareDocumentActions (pc_writes p) [] = Inr (pc_actions p)" "checkDocumentActions m (pc_actions p) = None"
    "\<not> pc_applied p"
  using assms
  by (auto simp: prepareCommit_def assertOpen_def Let_def and_then_Inr fails_if_def split: if_splits option.splits)

lemma applyD:
  assumes "prepareCommit owned m ws given = Inr p"
  shows "apply_prepared p m = Inr (p\<lparr>pc_applied := True\<rparr>,
    (applyDocumentActions (pc_actions p) (pc_seq p) (fold (apply_write (pc_seq p)) (pc_writes p) m))
      \<lparr>ms_nextSeq := pc_seq p + 1\<rparr>)"
  using prepareD(4,8)[OF assms] resolved_no_copy by (auto simp: apply_prepared_def applyPreparedCommit_def)

subsection \<open>The invariant\<close>

lemma documents_ok_same:
  assumes "same_documents m m'"
  shows "documents_ok n m' = documents_ok n m" "addresses_ok m' = addresses_ok m"
    "settling m' acts = settling m acts" "ready ws m' ia = ready ws m ia"
proof -
  have f: "ms_documents m' = ms_documents m" "ms_addresses m' = ms_addresses m" "ms_byScope m' = ms_byScope m"
    using assms by (auto simp: same_documents_def)
  have ids: "address_ids m' = address_ids m" "current_of m' = current_of m"
    by (auto simp: address_ids_def current_of_def f)
  have live: "live_at m' i k = live_at m i k" for i k by (simp add: live_at_def f)
  show "documents_ok n m' = documents_ok n m" unfolding documents_ok_def f ids ..
  show "addresses_ok m' = addresses_ok m" unfolding addresses_ok_def ids live ..
  show "settling m' acts = settling m acts" by (rule settling_cong) (simp_all add: ids live)
  show "ready ws m' ia = ready ws m ia" by (rule ready_cong) (simp add: f)
qed

lemma documents_ok_mono: "documents_ok n m \<Longrightarrow> n \<le> n' \<Longrightarrow> documents_ok n' m"
  unfolding documents_ok_def using doc_ok_mono by blast

lemma writes_entry_seqs:
  "entry_seqs_ok (seq + 1) m \<Longrightarrow> 1 \<le> seq \<Longrightarrow> entry_seqs_ok (seq + 1) (fold (apply_write seq) ws m)"
proof (induction ws arbitrary: m)
  case (Cons w ws)
  have "entry_seqs_ok (seq + 1) (apply_write seq w m)"
    using Cons.prems by (cases w) (auto simp: entry_seqs_ok_def store_simps)
  with Cons show ?case by simp
qed simp

lemma writes_nextId: "ms_nextId m \<le> ms_nextId (fold (apply_write seq) ws m)"
proof (induction ws arbitrary: m)
  case (Cons w ws)
  have "ms_nextId m \<le> ms_nextId (apply_write seq w m)" by (cases w) (simp_all add: store_simps)
  with Cons[of "apply_write seq w m"] show ?case by simp
qed simp

lemma actions_fields:
  assumes "applicable ws n m acts"
  shows "same_tables m (applyDocumentActions acts seq m) \<and> ms_nextId m \<le> ms_nextId (applyDocumentActions acts seq m)"
  using assms
proof (induction acts arbitrary: m)
  case (Cons ia acts)
  obtain i a where ia: "ia = (i, a)" by (cases ia)
  note d = applicableD[OF Cons.prems[unfolded ia]]
  from d(1) have "same_tables m (apply_action seq (i, a) m) \<and> ms_nextId m \<le> ms_nextId (apply_action seq (i, a) m)"
    by (cases rule: ready_cases) (auto simp: action_effect_create[OF d(1)] action_effect_existing[OF d(1)])
  with Cons.IH[OF applicable_step[OF Cons.prems[unfolded ia], of seq]] show ?case
    unfolding ia applyDocumentActions_def by (auto simp: same_tables_def)
qed (simp add: applyDocumentActions_def same_tables_def)

text \<open>The state between the table writes and the document actions.\<close>

lemma commit_middle:
  assumes "store_ok m" "prepareCommit owned m ws given = Inr p"
  defines "m1 \<equiv> fold (apply_write (pc_seq p)) (pc_writes p) m"
  shows "tables_ok m1" "same_documents m m1" "applicable (pc_writes p) (ms_nextSeq m) m1 (pc_actions p)"
    "settling m1 (pc_actions p)" "documents_ok (pc_seq p + 1) m1" "entry_seqs_ok (pc_seq p + 1) m1"
    "1 \<le> ms_nextSeq m" "ms_nextSeq m \<le> pc_seq p"
proof -
  note ids = prepareD(5)[OF assms(2)] and acts = prepareD(6)[OF assms(2)] and chk = prepareD(7)[OF assms(2)]
    and le = prepareD(2)[OF assms(2)]
  from assms(1) have ok: "tables_ok m" "documents_ok (ms_nextSeq m) m" "addresses_ok m"
    "entry_seqs_ok (ms_nextSeq m) m" "1 \<le> ms_nextSeq m"
    by (auto simp: store_ok_def)
  show "1 \<le> ms_nextSeq m" "ms_nextSeq m \<le> pc_seq p" by fact+
  show same: "same_documents m m1" unfolding m1_def by (rule apply_writes_documents)
  have "claims_seen m Map.empty m" by (simp add: claims_seen_def)
  note written = checked_writes[OF ids this ok(1), of "pc_seq p", folded m1_def]
  then show "tables_ok m1" by blast
  have shape: "actions_shape (pc_writes p) (pc_actions p)"
    by (rule prepare_shape[OF acts]) (simp_all add: actions_shape_def)
  note settle = check_settling[OF ok(3) chk shape]
  then show "settling m1 (pc_actions p)" using documents_ok_same(3)[OF same] by simp
  have "ms_types m1 i = None" if mem: "(i, a) \<in> set (pc_actions p)" "da_create a \<noteq> None" for i a
  proof -
    from shape mem(1) have "action_shape (pc_writes p) (i, a)" by (auto simp: actions_shape_def list_all_iff)
    with mem(2) obtain r v x where r: "dc_id r = i" "WCreate r v x \<in> set (pc_writes p)"
      by (auto simp: action_shape_def)
    then have "claim (WCreate r v x) = Some (i, DocumentTable)" by simp
    with r(2) written show ?thesis by blast
  qed
  moreover have "ms_documents m1 = ms_documents m" using same by (simp add: same_documents_def)
  moreover have "ready (pc_writes p) m1 ia = ready (pc_writes p) m ia" for ia by (rule documents_ok_same(4)[OF same])
  ultimately show "applicable (pc_writes p) (ms_nextSeq m) m1 (pc_actions p)"
    using settle(2) shape ok(2) unfolding applicable_def actions_shape_def documents_ok_def by auto
  show "documents_ok (pc_seq p + 1) m1"
    using documents_ok_mono[OF ok(2)] le documents_ok_same(1)[OF same] by simp
  show "entry_seqs_ok (pc_seq p + 1) m1"
    unfolding m1_def
    by (rule writes_entry_seqs) (use ok(4,5) le in \<open>force simp: entry_seqs_ok_def\<close>)+
qed

lemma commit_store_ok:
  assumes "store_ok m" "prepareCommit owned m ws given = Inr p" "apply_prepared p m = Inr (p', m')"
  shows "store_ok m'"
proof -
  note mid = commit_middle[OF assms(1,2)]
  let ?m1 = "fold (apply_write (pc_seq p)) (pc_writes p) m"
  let ?m2 = "applyDocumentActions (pc_actions p) (pc_seq p) ?m1"
  have m': "m' = ?m2\<lparr>ms_nextSeq := pc_seq p + 1\<rparr>" using applyD[OF assms(2)] assms(3) by simp
  note applied = actions_ok[OF mid(3,1,5,4,8)] and fields = actions_fields[OF mid(3), of "pc_seq p"]
  have "2 \<le> ms_nextId m" using assms(1) by (simp add: store_ok_def)
  with fields writes_nextId[of m "pc_seq p" "pc_writes p"] have "2 \<le> ms_nextId m'" unfolding m' by simp
  moreover have "entry_seqs_ok (pc_seq p + 1) m'"
    using mid(6) fields unfolding m' by (simp add: entry_seqs_ok_def same_tables_def)
  moreover have "documents_ok (pc_seq p + 1) m' = documents_ok (pc_seq p + 1) ?m2" "addresses_ok m' = addresses_ok ?m2"
    "tables_ok m' = tables_ok ?m2"
    unfolding m' documents_ok_def addresses_ok_def tables_ok_def table_defs types_ok_def typed_in_def address_ids_def
      current_of_def live_at_def by simp_all
  ultimately show ?thesis using applied mid(7,8) by (simp add: store_ok_def m')
qed

lemma mint_step:
  assumes "mintId m = Inr (i, m')"
  shows "i = ms_nextId m" "m' = m\<lparr>ms_nextId := ms_nextId m + 1\<rparr>" "\<not> ms_closed m"
  using assms by (auto simp: mintId_def assertOpen_def split: if_splits)

lemma counters_store_ok:
  assumes "store_ok m"
  shows "n \<ge> ms_nextId m \<Longrightarrow> store_ok (m\<lparr>ms_nextId := n\<rparr>)" "store_ok (close_store m)"
proof -
  have same: "same_documents m (m\<lparr>ms_nextId := n\<rparr>)" if "n \<ge> ms_nextId m" for n
    by (simp add: same_documents_def)
  from assms have "types_ok m" by (simp add: store_ok_def tables_ok_def)
  then have "types_ok (m\<lparr>ms_nextId := n\<rparr>)" if "n \<ge> ms_nextId m" for n
    unfolding types_ok_def typed_in_def using that by (auto intro: less_le_trans)
  moreover have "same_tables m (m\<lparr>ms_nextId := n\<rparr>)" for n by (simp add: same_tables_def)
  note same_tables_ok[OF this]
  ultimately show "n \<ge> ms_nextId m \<Longrightarrow> store_ok (m\<lparr>ms_nextId := n\<rparr>)"
    using assms documents_ok_same(1,2)[OF same] unfolding store_ok_def tables_ok_def
    by (simp add: entry_seqs_ok_def)
  have f: "address_ids (m\<lparr>ms_closed := True\<rparr>) = address_ids m" "current_of (m\<lparr>ms_closed := True\<rparr>) = current_of m"
    "live_at (m\<lparr>ms_closed := True\<rparr>) = live_at m"
    by (simp_all add: fun_eq_iff address_ids_def current_of_def live_at_def)
  show "store_ok (close_store m)"
    using assms
    unfolding store_ok_def close_store_def tables_ok_def table_defs types_ok_def typed_in_def documents_ok_def
      addresses_ok_def entry_seqs_ok_def f
    by simp
qed

lemma step_store_ok: "store_step m m' \<Longrightarrow> store_ok m \<Longrightarrow> store_ok m'"
proof (induction rule: store_step.induct)
  case (Mint m i m')
  with mint_step[OF Mint(1)] counters_store_ok(1)[of m "ms_nextId m + 1"] show ?case by simp
qed (auto intro: commit_store_ok counters_store_ok(2))

lemma new_store_ok: "store_ok new_store"
proof -
  have k: "ids.indexes (\<lambda>_. []) (keyed f (\<lambda>_. None))" for f :: "'a \<Rightarrow> 'k option"
    using ids.indexes_none by (simp add: keyed_def)
  have i: "ids_at (\<lambda>_. None) = (\<lambda>_. [])" by (auto simp: ids_at_def)
  have a: "address_ids new_store = (\<lambda>_. [])" by (auto simp: address_ids_def new_store_def)
  show ?thesis
    using a
    by (simp add: store_ok_def new_store_def tables_ok_def table_defs types_ok_def typed_in_def typed_def
        documents_ok_def addresses_ok_def entry_seqs_ok_def current_of_def live_at_def
        k i lists_ids_def)
qed

lemma reachable_ok: "store_step\<^sup>*\<^sup>* new_store m \<Longrightarrow> store_ok m"
  by (induction rule: rtranclp_induct) (simp_all add: new_store_ok step_store_ok)

end
