(* ===== verification/Durable_History.thy ===== *)
theory Durable_History
  imports Durable_Invariant
begin

text \<open>
  How a store evolves over commits, ID mints and closes: the tables whose records are written once
  only grow, an ID keeps its table, sequences and IDs only go up, and the part of a rewindable document
  that older commits wrote never changes. The reads of documents at a sequence rest on it.
\<close>

subsection \<open>Folding over the checked writes and the document actions\<close>

lemma checked_fold:
  assumes "checkGlobalIds m0 claimed ws = None" "claims_seen m0 claimed m" "tables_ok m" "P m"
    and "\<And>m w. P m \<Longrightarrow> tables_ok m \<Longrightarrow> write_ok m w \<Longrightarrow> P (apply_write seq w m)"
  shows "P (fold (apply_write seq) ws m)"
  using assms(1-4)
proof (induction ws arbitrary: claimed m)
  case (Cons w ws)
  let ?m = "apply_write seq w m"
  have fits: "write_ok m w" using Cons.prems(1,2) by (rule checked_write)
  with Cons.prems have ok: "tables_ok ?m" "P ?m" by (auto intro: apply_write_ok assms(5))
  show ?case
  proof (cases "claim w")
    case None
    then have "ms_types ?m = ms_types m" by (simp add: apply_write_types)
    with Cons.prems(2) have "claims_seen m0 claimed ?m" by (simp add: claims_seen_def)
    from Cons.IH[OF check_skip[OF Cons.prems(1) None] this ok] show ?thesis by simp
  next
    case (Some it)
    obtain i t where it: "claim w = Some (i, t)" using Some by (cases it) auto
    from Cons.IH[OF check_step(1)[OF Cons.prems(1) it] checked_claims[OF Cons.prems(1,2) it] ok] show ?thesis
      by simp
  qed
qed simp

lemma actions_fold:
  assumes "applicable ws n m acts" "P m"
    and "\<And>m i a acts. applicable ws n m ((i, a) # acts) \<Longrightarrow> P m \<Longrightarrow> P (apply_action seq (i, a) m)"
  shows "P (applyDocumentActions acts seq m)"
  using assms(1,2)
proof (induction acts arbitrary: m)
  case (Cons ia acts)
  obtain i a where ia: "ia = (i, a)" by (cases ia)
  from Cons.IH[OF applicable_step[OF Cons.prems(1)[unfolded ia], of seq]] assms(3) Cons.prems
  show ?case unfolding ia applyDocumentActions_def by auto
qed (simp add: applyDocumentActions_def)

subsection \<open>Growth\<close>

text \<open>What becomes of one document while commits from sequence \<open>n\<close> on are applied.\<close>

definition grown :: "int \<Rightarrow> doc_state \<Rightarrow> doc_state \<Rightarrow> bool" where
  "grown n d d' \<longleftrightarrow>
     ds_record d' = (ds_record d)\<lparr>dr_retired := dr_retired (ds_record d')\<rparr>
     \<and> (dr_retired (ds_record d) \<noteq> None \<longrightarrow> dr_retired (ds_record d') = dr_retired (ds_record d))
     \<and> (\<forall>t. dr_retired (ds_record d) = None \<longrightarrow> dr_retired (ds_record d') = Some t \<longrightarrow> n \<le> t)
     \<and> (\<not> isCurrentOnly (ds_record d) \<longrightarrow> filter (\<lambda>(_, t). t < n) (ds_revisions d') = ds_revisions d)"

lemma grown_record:
  assumes "grown n d d'"
  shows "isCurrentOnly (ds_record d') = isCurrentOnly (ds_record d)"
    "recordAddressKey (ds_record d') = recordAddressKey (ds_record d)"
    "dr_created (ds_record d') = dr_created (ds_record d)" "dc_id (ds_record d') = dc_id (ds_record d)"
proof -
  from assms have eq: "ds_record d' = (ds_record d)\<lparr>dr_retired := dr_retired (ds_record d')\<rparr>"
    by (simp add: grown_def)
  show "isCurrentOnly (ds_record d') = isCurrentOnly (ds_record d)"
    "recordAddressKey (ds_record d') = recordAddressKey (ds_record d)"
    "dr_created (ds_record d') = dr_created (ds_record d)" "dc_id (ds_record d') = dc_id (ds_record d)"
    by (subst eq, simp add: isCurrentOnly_def recordAddressKey_def)+
qed

lemma grown_refl: "doc_ok n d \<Longrightarrow> grown n d d"
  by (auto simp: grown_def doc_ok_def filter_id_conv)

lemma grown_trans:
  assumes "grown n d d'" "grown n' d' d''" "n \<le> n'"
  shows "grown n d d''"
proof -
  note rec = grown_record(1)[OF assms(1)]
  have stamp: "ds_record d'' = (ds_record d)\<lparr>dr_retired := dr_retired (ds_record d'')\<rparr>"
  proof -
    from assms have "ds_record d' = (ds_record d)\<lparr>dr_retired := dr_retired (ds_record d')\<rparr>"
      "ds_record d'' = (ds_record d')\<lparr>dr_retired := dr_retired (ds_record d'')\<rparr>"
      by (simp_all add: grown_def)
    then show ?thesis by (metis doc_record.update_convs(2) doc_record.cases_scheme)
  qed
  have "filter (\<lambda>(_, t). t < n) (ds_revisions d'') = ds_revisions d" if "\<not> isCurrentOnly (ds_record d)"
  proof -
    have "filter (\<lambda>(_, t). t < n) (ds_revisions d'')
        = filter (\<lambda>(_, t). t < n) (filter (\<lambda>(_, t). t < n') (ds_revisions d''))"
      using assms(3) by (auto intro!: filter_cong)
    with assms(1,2) that rec show ?thesis by (simp add: grown_def)
  qed
  moreover have "dr_retired (ds_record d'') = dr_retired (ds_record d)" if "dr_retired (ds_record d) \<noteq> None"
    using assms that by (simp add: grown_def)
  moreover have "n \<le> t" if "dr_retired (ds_record d) = None" "dr_retired (ds_record d'') = Some t" for t
    using assms that by (cases "dr_retired (ds_record d')") (auto simp: grown_def)
  ultimately show ?thesis using stamp unfolding grown_def by blast
qed

definition documents_grown :: "int \<Rightarrow> store \<Rightarrow> store \<Rightarrow> bool" where
  "documents_grown n m m' \<longleftrightarrow>
     (\<forall>i d. ms_documents m i = Some d \<longrightarrow> (\<exists>d'. ms_documents m' i = Some d' \<and> grown n d d'))
     \<and> (\<forall>i d'. ms_documents m i = None \<longrightarrow> ms_documents m' i = Some d' \<longrightarrow> n \<le> dr_created (ds_record d'))"

definition tables_grown :: "store \<Rightarrow> store \<Rightarrow> bool" where
  "tables_grown m m' \<longleftrightarrow>
     ms_types m \<subseteq>\<^sub>m ms_types m' \<and> ms_conversations m \<subseteq>\<^sub>m ms_conversations m'
     \<and> ms_entries m \<subseteq>\<^sub>m ms_entries m' \<and> ms_entrySeqs m \<subseteq>\<^sub>m ms_entrySeqs m'
     \<and> ms_nextId m \<le> ms_nextId m'"

definition evolves :: "store \<Rightarrow> store \<Rightarrow> bool" where
  "evolves m m' \<longleftrightarrow>
     tables_grown m m' \<and> documents_grown (ms_nextSeq m) m m' \<and> ms_nextSeq m \<le> ms_nextSeq m'
     \<and> (ms_closed m \<longrightarrow> ms_closed m')"

lemma tables_grown_refl: "tables_grown m m"
  by (simp add: tables_grown_def)

lemma tables_grown_trans: "tables_grown m m' \<Longrightarrow> tables_grown m' m'' \<Longrightarrow> tables_grown m m''"
  unfolding tables_grown_def by (auto intro: map_le_trans)

lemma documents_grown_refl: "documents_ok n m \<Longrightarrow> documents_grown n m m"
  by (auto simp: documents_grown_def documents_ok_def intro: grown_refl)

lemma documents_grown_trans:
  assumes "documents_grown n m m'" "documents_grown n' m' m''" "n \<le> n'"
  shows "documents_grown n m m''"
  unfolding documents_grown_def
proof (intro conjI allI impI)
  fix i d
  assume "ms_documents m i = Some d"
  with assms(1) obtain d' where d': "ms_documents m' i = Some d'" "grown n d d'"
    unfolding documents_grown_def by blast
  with assms(2) obtain d'' where "ms_documents m'' i = Some d''" "grown n' d' d''"
    unfolding documents_grown_def by blast
  with d' assms(3) show "\<exists>d''. ms_documents m'' i = Some d'' \<and> grown n d d''" by (blast intro: grown_trans)
next
  fix i d''
  assume new: "ms_documents m i = None" "ms_documents m'' i = Some d''"
  show "n \<le> dr_created (ds_record d'')"
  proof (cases "ms_documents m' i")
    case None
    with assms(2) new(2) have "n' \<le> dr_created (ds_record d'')" unfolding documents_grown_def by blast
    with assms(3) show ?thesis by simp
  next
    case (Some d')
    with assms(1) new(1) have created: "n \<le> dr_created (ds_record d')" unfolding documents_grown_def by blast
    from Some assms(2) new(2) have "grown n' d' d''" unfolding documents_grown_def by fastforce
    from grown_record(3)[OF this] created show ?thesis by simp
  qed
qed

lemma evolves_refl: "store_ok m \<Longrightarrow> evolves m m"
  by (auto simp: evolves_def tables_grown_refl store_ok_def intro: documents_grown_refl)

lemma evolves_trans: "evolves m m' \<Longrightarrow> evolves m' m'' \<Longrightarrow> evolves m m''"
  unfolding evolves_def by (auto intro: tables_grown_trans documents_grown_trans)


subsection \<open>Every step is an evolution\<close>

lemma acted_grown:
  assumes "doc_ok n d" "n \<le> seq" "da_create a = None" "dr_retired (ds_record d) = None"
  shows "grown n d (acted seq a (Some d))"
proof -
  have old: "filter (\<lambda>(_, t). t < n) (ds_revisions d) = ds_revisions d"
    using assms(1) by (auto simp: doc_ok_def filter_id_conv)
  show ?thesis
    using assms(2-4) old
    by (cases "da_content a"; cases "da_retire a")
      (auto simp: acted_def grown_def retire_document_def change_document_def Let_def isCurrentOnly_def)
qed

lemma acted_created: "action_shape ws (i, a) \<Longrightarrow> da_create a = Some r \<Longrightarrow> dr_created (ds_record (acted seq a old)) = seq"
  by (auto simp: action_shape_def acted_def retire_document_def Let_def)

lemma acted_stamp: "da_create a = None \<Longrightarrow> dr_created (ds_record (acted seq a (Some d))) = dr_created (ds_record d)"
  by (auto simp: acted_def retire_document_def change_document_def Let_def split: option.split)

lemma actions_documents_grown:
  assumes "applicable ws n m acts" "documents_ok n m" "n \<le> seq"
  shows "documents_grown n m (applyDocumentActions acts seq m)"
proof (rule actions_fold[OF assms(1)])
  show "documents_grown n m m" using assms(2) by (rule documents_grown_refl)
next
  fix m' i a acts
  assume app: "applicable ws n m' ((i, a) # acts)" and grow: "documents_grown n m m'"
  note d = applicableD[OF app]
  show "documents_grown n m (apply_action seq (i, a) m')"
    unfolding documents_grown_def
  proof (intro conjI allI impI)
    fix j d0
    assume "ms_documents m j = Some d0"
    with grow obtain d1 where d1: "ms_documents m' j = Some d1" "grown n d0 d1"
      unfolding documents_grown_def by blast
    show "\<exists>d'. ms_documents (apply_action seq (i, a) m') j = Some d' \<and> grown n d0 d'"
    proof (cases "j = i")
      case True
      from d(1) show ?thesis
      proof (cases rule: ready_cases)
        case (exists e)
        with True d1 have e: "e = d1" by simp
        note eff = action_effect_existing(1)[OF d(1) exists(1,2), of seq]
        have "grown n d1 (acted seq a (Some d1))"
          by (rule acted_grown[OF _ assms(3) exists(1)]) (use d(3) exists e in auto)
        with grown_trans[OF d1(2)] True e eff show ?thesis by auto
      qed (use True d1 in simp)
    next
      case False
      with apply_action_others(1)[OF d(1)] d1 show ?thesis by auto
    qed
  next
    fix j d'
    assume new: "ms_documents m j = None" "ms_documents (apply_action seq (i, a) m') j = Some d'"
    from grow new(1) have old: "ms_documents m' j = Some d \<Longrightarrow> n \<le> dr_created (ds_record d)" for d
      unfolding documents_grown_def by blast
    from d(1) show "n \<le> dr_created (ds_record d')"
    proof (cases rule: ready_cases)
      case (creates r)
      have shape: "action_shape ws (i, a)" using d(1) by (simp add: ready_def)
      from new(2) action_effect_create(1)[OF d(1) creates(1), of seq] acted_created[OF shape creates(1)] old assms(3)
      show ?thesis by (cases "j = i") auto
    next
      case (exists e)
      from new(2) action_effect_existing(1)[OF d(1) exists(1,2), of seq] acted_stamp[OF exists(1)] old exists(2)
      show ?thesis by (cases "j = i") auto
    qed
  qed
qed

lemma action_tables_grown:
  assumes "applicable ws n m ((i, a) # acts)"
  shows "tables_grown m (apply_action seq (i, a) m)"
proof -
  note d = applicableD[OF assms]
  from d(1) show ?thesis
  proof (cases rule: ready_cases)
    case (creates r)
    with action_effect_create[OF d(1) creates(1), of seq] d(2) show ?thesis
      by (auto simp: tables_grown_def same_tables_def map_le_def)
  next
    case (exists e)
    with action_effect_existing[OF d(1) exists(1,2), of seq] show ?thesis
      by (simp add: tables_grown_def same_tables_def)
  qed
qed

lemma write_tables_grown:
  assumes "tables_ok m" "write_ok m w"
  shows "tables_grown m (apply_write seq w m)"
proof -
  from assms(1) have types: "types_ok m" and seqs: "dom (ms_entrySeqs m) = dom (ms_entries m)"
    by (auto simp: tables_ok_def entries_ok_def)
  note typed = types_ok_at(1,2)[OF types]
  have put: "f \<subseteq>\<^sub>m f(i \<mapsto> v)" if "f i = None \<or> f i = Some v" for f :: "int \<rightharpoonup> 'v" and i v
    using that by (auto simp: map_le_def)
  show ?thesis
  proof (cases w)
    case (WConversation c)
    with assms(2) typed(1)[of "cv_id c"] show ?thesis by (simp add: tables_grown_def store_simps put)
  next
    case (WEntry e)
    with assms(2) typed(2)[of "en_id e"] have none: "ms_types m (en_id e) = None" "ms_entries m (en_id e) = None"
      by simp_all
    with seqs have "ms_entrySeqs m (en_id e) = None" by blast
    with WEntry none show ?thesis by (simp add: tables_grown_def store_simps put)
  next
    case (WTask t)
    with assms(2) show ?thesis by (auto simp: tables_grown_def store_simps put)
  next
    case (WSubmission s)
    with assms(2) show ?thesis by (auto simp: tables_grown_def store_simps put)
  qed (simp_all add: tables_grown_def)
qed

lemma commit_evolves:
  assumes "store_ok m" "prepareCommit owned m ws given = Inr p" "apply_prepared p m = Inr (p', m')"
  shows "evolves m m'"
proof -
  note mid = commit_middle[OF assms(1,2)] and pre = prepareD[OF assms(2)]
  let ?m1 = "fold (apply_write (pc_seq p)) (pc_writes p) m"
  let ?m2 = "applyDocumentActions (pc_actions p) (pc_seq p) ?m1"
  have m': "m' = ?m2\<lparr>ms_nextSeq := pc_seq p + 1\<rparr>" using applyD[OF assms(2)] assms(3) by simp
  have ok: "tables_ok m" "documents_ok (ms_nextSeq m) m" using assms(1) by (simp_all add: store_ok_def)
  have "claims_seen m Map.empty m" by (simp add: claims_seen_def)
  from checked_fold[where P = "tables_grown m", OF pre(5) this ok(1) tables_grown_refl
      tables_grown_trans[OF _ write_tables_grown]]
  have "tables_grown m ?m1" by blast
  then have tables: "tables_grown m ?m2"
    by (rule actions_fold[OF mid(3)]) (blast intro: tables_grown_trans action_tables_grown)
  have docs: "ms_documents ?m1 = ms_documents m" using mid(2) by (simp add: same_documents_def)
  have "documents_ok (ms_nextSeq m) ?m1" using ok(2) documents_ok_same(1)[OF mid(2)] by simp
  from actions_documents_grown[OF mid(3) this mid(8)] docs
  have "documents_grown (ms_nextSeq m) m ?m2" by (simp add: documents_grown_def)
  with tables mid(8) pre(1) show ?thesis
    by (simp add: evolves_def m' tables_grown_def documents_grown_def)
qed

lemma step_evolves: "store_step m m' \<Longrightarrow> store_ok m \<Longrightarrow> evolves m m'"
proof (induction rule: store_step.induct)
  case (Mint m i m')
  have "evolves m (m\<lparr>ms_nextId := ms_nextId m + 1\<rparr>)"
    using evolves_refl[OF Mint(2)] by (simp add: evolves_def tables_grown_def documents_grown_def)
  with mint_step(2)[OF Mint(1)] show ?case by simp
next
  case (Close m)
  from evolves_refl[OF Close] show ?case
    by (simp add: evolves_def tables_grown_def documents_grown_def close_store_def)
qed (rule commit_evolves)

lemma steps_evolve:
  assumes "store_step\<^sup>*\<^sup>* m m'" "store_ok m"
  shows "evolves m m' \<and> store_ok m'"
  using assms
proof (induction rule: rtranclp_induct)
  case (step m1 m2)
  then show ?case using step_evolves step_store_ok evolves_trans by blast
qed (simp add: evolves_refl)

end
