(* ===== verification/Durable_Replay.thy ===== *)
theory Durable_Replay
  imports Durable_History
begin

text \<open>
  What reading a document gives. The reference plays the revisions one after another: a base sets
  the value, a delta batch is applied to it. The storage looks for the last base, collects the delta
  batches after it and replays them on copies. In a reachable store both agree at every point, and a
  read fails only on a batch that cannot be applied or on a document that keeps no history.
\<close>

subsection \<open>The reference\<close>

type_synonym played = "int \<times> (delta_error + json option)"

fun play :: "content \<times> int \<Rightarrow> played option \<Rightarrow> played option" where
  "play (Base v x, s) st = Some (v, Inr (Some x))"
| "play (Delta v ops, s) st = map_option (\<lambda>(w, r). (w, and_then r (\<lambda>t. applyOps t ops))) st"

definition play_all :: "(content \<times> int) list \<Rightarrow> played option" where
  "play_all revs = fold play revs None"

fun delta_ops :: "content \<times> int \<Rightarrow> json list" where
  "delta_ops (Base v x, s) = []"
| "delta_ops (Delta v ops, s) = ops"

subsection \<open>The last base and the batches after it\<close>

definition deltas_of :: "int \<Rightarrow> (content \<times> int) list \<Rightarrow> bool" where
  "deltas_of v revs \<longleftrightarrow> list_all (\<lambda>(c, _). \<not> is_base c \<and> content_version c = v) revs"

lemma deltas_batches: "deltas_of v revs \<Longrightarrow> documentDeltaBatches v revs = (map delta_ops revs, False)"
  by (induction v revs rule: documentDeltaBatches.induct) (auto simp: deltas_of_def)

lemma deltas_play:
  "deltas_of v revs \<Longrightarrow> fold play revs (Some (w, r)) = Some (w, and_then r (\<lambda>t. applyOps t (concat (map delta_ops revs))))"
proof (induction v revs arbitrary: r rule: documentDeltaBatches.induct)
  case (2 version v ops s revs)
  from 2(2) have "v = version" "deltas_of version revs" by (auto simp: deltas_of_def)
  with 2(1) show ?case by (cases r) (simp_all add: applyOps_append)
qed (auto simp: deltas_of_def and_then_def split: sum.split)

lemma deltas_no_base: "deltas_of v revs \<Longrightarrow> last_base revs = None"
  by (induction v revs rule: documentDeltaBatches.induct) (auto simp: deltas_of_def)

lemma last_base_append: "last_base (xs @ ys) = (case last_base ys of Some r \<Rightarrow> Some r
    | None \<Rightarrow> map_option (\<lambda>(b, revs). (b, revs @ ys)) (last_base xs))"
  by (induction xs rule: last_base.induct) (auto split: option.splits content.splits)

lemma versions_split:
  assumes "versions_ok (map fst revs)"
  obtains pre v x s post where "revs = pre @ (Base v x, s) # post" "deltas_of v post"
proof -
  have "\<exists>pre v x s post. revs = pre @ (Base v x, s) # post \<and> deltas_of v post" using assms
  proof (induction revs rule: rev_induct)
    case (snoc r revs)
    obtain c s where r: "r = (c, s)" by (cases r)
    show ?case
    proof (cases "is_base c")
      case True
      then obtain v x where "c = Base v x" by (cases c) auto
      then have "revs @ [r] = revs @ (Base v x, s) # [] \<and> deltas_of v []" using r by (simp add: deltas_of_def)
      then show ?thesis by blast
    next
      case False
      with snoc.prems r have ne: "revs \<noteq> []" by (auto simp: versions_ok_def)
      then have ver: "versions_ok (map fst revs)" "content_version c = content_version (fst (last revs))"
        using snoc.prems False r by (auto simp: versions_ok_def successively_append_iff last_map)
      from snoc.IH[OF ver(1)] obtain pre v x s' post where
        split: "revs = pre @ (Base v x, s') # post" "deltas_of v post" by blast
      then have "content_version (fst (last revs)) = v"
        by (cases post rule: rev_cases) (auto simp: deltas_of_def)
      with split ver(2) False r have "deltas_of v (post @ [r])" by (simp add: deltas_of_def)
      with split(1) show ?thesis by (metis append_Cons append_assoc)
    qed
  qed (simp add: versions_ok_def)
  with that show thesis by blast
qed

text \<open>The storage's replay, once the revisions are split.\<close>

lemma replay_split:
  assumes "revs = pre @ (Base v x, s) # post" "deltas_of v post"
  shows "replay_document owned i revs =
      (case applyImmutableBatches owned (Some x) (map delta_ops post) of
         Inl e \<Rightarrow> Inl (DeltaFailed e) | Inr t \<Rightarrow> Inr (v, as_root t, length post))"
    and "play_all revs = Some (v, applyOps (Some x) (concat (map delta_ops post)))"
proof -
  have "last_base ((Base v x, s) # post) = Some ((v, x), post)" using deltas_no_base[OF assms(2)] by simp
  then have base: "last_base revs = Some ((v, x), post)" unfolding assms(1) last_base_append by simp
  show "replay_document owned i revs =
      (case applyImmutableBatches owned (Some x) (map delta_ops post) of
         Inl e \<Rightarrow> Inl (DeltaFailed e) | Inr t \<Rightarrow> Inr (v, as_root t, length post))"
    by (simp add: replay_document_def base deltas_batches[OF assms(2)] cong: sum.case_cong)
  show "play_all revs = Some (v, applyOps (Some x) (concat (map delta_ops post)))"
    unfolding play_all_def assms(1) by (simp add: deltas_play[OF assms(2)])
qed

lemma replay_plays:
  assumes "versions_ok (map fst revs)"
  shows "replay_document owned i revs = Inr (v, y, n) \<longleftrightarrow>
    (\<exists>t. play_all revs = Some (v, Inr t) \<and> y = as_root t \<and> n = length (snd (the (last_base revs))))"
    and "replay_document owned i revs = Inl e \<Longrightarrow> \<exists>x. e = DeltaFailed x"
proof -
  from assms obtain pre v0 x s post where split: "revs = pre @ (Base v0 x, s) # post" "deltas_of v0 post"
    by (rule versions_split)
  have base: "last_base revs = Some ((v0, x), post)"
    unfolding split(1) last_base_append using deltas_no_base[OF split(2)] by simp
  show "replay_document owned i revs = Inr (v, y, n) \<longleftrightarrow>
    (\<exists>t. play_all revs = Some (v, Inr t) \<and> y = as_root t \<and> n = length (snd (the (last_base revs))))"
  proof (cases "applyOps (Some x) (concat (map delta_ops post))")
    case (Inl err)
    then have "applyImmutableBatches owned (Some x) (map delta_ops post) \<noteq> Inr t" for t
      unfolding immutable_replay by simp
    with Inl show ?thesis unfolding replay_split[OF split] base by (auto split: sum.split)
  next
    case (Inr t)
    with immutable_replay have "applyImmutableBatches owned (Some x) (map delta_ops post) = Inr t" by blast
    with Inr show ?thesis unfolding replay_split[OF split] base by auto
  qed
  show "replay_document owned i revs = Inl e \<Longrightarrow> \<exists>x. e = DeltaFailed x"
    unfolding replay_split[OF split] by (auto split: sum.splits)
qed

lemma replay_fails:
  assumes "versions_ok (map fst revs)" "replay_document owned i revs = Inl e"
  shows "\<exists>x v y. e = DeltaFailed x \<and> play_all revs = Some (v, Inl y)"
proof -
  from assms(1) obtain pre v0 x s post where split: "revs = pre @ (Base v0 x, s) # post" "deltas_of v0 post"
    by (rule versions_split)
  note replay = replay_split(1)[OF split, of owned i]
  show ?thesis
  proof (cases "applyOps (Some x) (concat (map delta_ops post))")
    case (Inl y)
    with assms(2) replay replay_split(2)[OF split] show ?thesis by (auto split: sum.splits)
  next
    case (Inr t)
    with immutable_replay have "applyImmutableBatches owned (Some x) (map delta_ops post) = Inr t" by blast
    with assms(2) replay show ?thesis by simp
  qed
qed

subsection \<open>The revisions a read sees\<close>

lemma versions_prefix:
  fixes revs :: "(content \<times> int) list"
  assumes "versions_ok (map fst revs)" "sorted_wrt (<) (map snd revs)" "snd (hd revs) \<le> s"
  shows "versions_ok (map fst (filter (\<lambda>(_, t). t \<le> s) revs))"
proof -
  let ?n = "length (takeWhile (\<lambda>(_, t). t \<le> s) revs)"
  have "filter (\<lambda>(_, t). t \<le> s) revs = takeWhile (\<lambda>(_, t). t \<le> s) revs"
    using assms(2)
  proof (induction revs)
    case (Cons r revs)
    have "filter (\<lambda>(_, t). t \<le> s) revs = []" if "\<not> snd r \<le> s"
      using Cons.prems that by (fastforce simp: filter_empty_conv)
    with Cons show ?case by (cases r) auto
  qed simp
  then have eq: "filter (\<lambda>(_, t). t \<le> s) revs = take ?n revs" by (metis takeWhile_eq_take)
  from assms(1) have ne: "revs \<noteq> []" by (auto simp: versions_ok_def)
  with assms(3) have "?n > 0" by (cases revs) auto
  then have "take ?n (map fst revs) \<noteq> []" "hd (take ?n (map fst revs)) = hd (map fst revs)"
    using ne by (auto simp: hd_take)
  moreover have "successively (\<lambda>c c'. is_base c' \<or> content_version c' = content_version c) (take ?n (map fst revs))"
    using assms(1) unfolding versions_ok_def
    by (metis append_take_drop_id successively_append_iff)
  ultimately show ?thesis using assms(1) by (simp add: versions_ok_def eq take_map)
qed

definition readable :: "doc_point \<Rightarrow> doc_state \<Rightarrow> bool" where
  "readable p d \<longleftrightarrow> (p = Current \<or> \<not> isCurrentOnly (ds_record d)) \<and> isAliveAt (ds_record d) p"

lemma readable_versions:
  assumes "doc_ok n d" "readable p d"
  shows "versions_ok (map fst (visible_revisions p (ds_revisions d)))"
proof (cases p)
  case Current
  with assms show ?thesis by (auto simp: doc_ok_def readable_def visible_revisions_def)
next
  case (AtSeq s)
  with assms(2) have "\<not> isCurrentOnly (ds_record d)" "dr_created (ds_record d) \<le> s"
    by (auto simp: readable_def)
  with assms(1) AtSeq versions_prefix[of "ds_revisions d" s] show ?thesis
    by (auto simp: doc_ok_def visible_revisions_def)
qed

lemma materialize_cases:
  assumes "store_ok m"
  shows "materializeDocument owned m i p = Inr (Some sd) \<longleftrightarrow>
      (\<exists>d t. ms_documents m i = Some d \<and> readable p d
        \<and> play_all (visible_revisions p (ds_revisions d)) = Some (sd_version sd, Inr t)
        \<and> sd = \<lparr>sd_record = ds_record d, sd_version = sd_version sd, sd_value = as_root t,
             sd_deltas = length (snd (the (last_base (visible_revisions p (ds_revisions d)))))\<rparr>)"
    and "materializeDocument owned m i p = Inl e \<Longrightarrow> e = NoHistory i \<or> (\<exists>x. e = DeltaFailed x)"
proof -
  have ok: "doc_ok (ms_nextSeq m) d" if "ms_documents m i = Some d" for d
    using assms that by (auto simp: store_ok_def documents_ok_def)
  show "materializeDocument owned m i p = Inr (Some sd) \<longleftrightarrow>
      (\<exists>d t. ms_documents m i = Some d \<and> readable p d
        \<and> play_all (visible_revisions p (ds_revisions d)) = Some (sd_version sd, Inr t)
        \<and> sd = \<lparr>sd_record = ds_record d, sd_version = sd_version sd, sd_value = as_root t,
             sd_deltas = length (snd (the (last_base (visible_revisions p (ds_revisions d)))))\<rparr>)"
  proof (cases "ms_documents m i")
    case (Some d)
    show ?thesis
    proof (cases "readable p d")
      case True
      then have "materializeDocument owned m i p =
          and_then (replay_document owned i (visible_revisions p (ds_revisions d)))
            (\<lambda>(version, v, n). Inr (Some \<lparr>sd_record = ds_record d, sd_version = version, sd_value = v, sd_deltas = n\<rparr>))"
        using Some by (auto simp: materializeDocument_def readable_def)
      with Some True replay_plays(1)[OF readable_versions[OF ok[OF Some] True]] show ?thesis
        by (cases sd) (auto simp: and_then_Inr)
    qed (use Some in \<open>auto simp: materializeDocument_def readable_def\<close>)
  qed (simp add: materializeDocument_def)
  show "materializeDocument owned m i p = Inl e \<Longrightarrow> e = NoHistory i \<or> (\<exists>x. e = DeltaFailed x)"
  proof (cases "ms_documents m i")
    case (Some d)
    assume err: "materializeDocument owned m i p = Inl e"
    show ?thesis
    proof (cases "readable p d")
      case True
      with Some err have "replay_document owned i (visible_revisions p (ds_revisions d)) = Inl e"
        by (auto simp: materializeDocument_def readable_def and_then_def split: sum.splits)
      with replay_plays(2)[OF readable_versions[OF ok[OF Some] True]] show ?thesis by blast
    qed (use Some err in \<open>auto simp: materializeDocument_def readable_def split: if_splits\<close>)
  qed (simp add: materializeDocument_def)
qed


subsection \<open>One more revision\<close>

lemma applyOps_root: "applyOps (Some x) ops = Inr t \<Longrightarrow> \<exists>y. t = Some y"
proof (induction ops arbitrary: x)
  case (Cons raw ops)
  from Cons.prems obtain y where "applyOps (Some y) ops = Inr t"
    by (auto simp: and_then_Inr)
  with Cons.IH show ?case by blast
qed auto

lemma replay_base: "replay_document owned i (pre @ [(Base v x, s)]) = Inr (v, x, 0)"
proof -
  have "applyImmutableBatches owned (Some x) [] = Inr (Some x)" by (simp add: immutable_replay)
  with replay_split(1)[of "pre @ [(Base v x, s)]" pre v x s "[]" owned i] show ?thesis
    by (simp add: deltas_of_def as_root_def)
qed

lemma replay_delta:
  assumes "versions_ok (map fst revs)" "replay_document owned i revs = Inr (v0, y, n)"
    and "content_version (fst (last revs)) = v"
  shows "v = v0" and "applyOps (Some y) ops = Inr t \<Longrightarrow>
      replay_document owned i (revs @ [(Delta v ops, s)]) = Inr (v0, as_root t, n + 1)"
    and "applyOps (Some y) ops = Inl e \<Longrightarrow>
      \<exists>x. replay_document owned i (revs @ [(Delta v ops, s)]) = Inl (DeltaFailed x)"
proof -
  from assms(1) obtain pre w x s0 post where split: "revs = pre @ (Base w x, s0) # post" "deltas_of w post"
    by (rule versions_split)
  note old = replay_split(1)[OF split, of owned i]
  then have v0: "v0 = w" "n = length post" using assms(2) by (auto split: sum.splits)
  from old assms(2) obtain t0 where t0: "applyImmutableBatches owned (Some x) (map delta_ops post) = Inr t0" "y = as_root t0"
    by (auto split: sum.splits)
  from t0(1) have plain: "applyOps (Some x) (concat (map delta_ops post)) = Inr t0" unfolding immutable_replay .
  from applyOps_root[OF plain] t0(2) have root: "t0 = Some y" by (auto simp: as_root_def)
  have v: "v = w" using assms(3) split by (cases post rule: rev_cases) (auto simp: deltas_of_def)
  then show "v = v0" using v0 by simp
  let ?post = "post @ [(Delta v ops, s)]"
  have "revs @ [(Delta v ops, s)] = pre @ (Base w x, s0) # ?post" "deltas_of w ?post"
    using split v by (simp_all add: deltas_of_def)
  note now = replay_split(1)[OF this, of owned i]
  have step: "applyImmutableBatches owned (Some x) (map delta_ops ?post) = Inr t \<longleftrightarrow> applyOps (Some y) ops = Inr t" for t
    unfolding immutable_replay by (simp add: applyOps_append plain root)
  show "replay_document owned i (revs @ [(Delta v ops, s)]) = Inr (v0, as_root t, n + 1)"
    if "applyOps (Some y) ops = Inr t"
    using now v0 unfolding step[THEN iffD2, OF that] by simp
  show "\<exists>x. replay_document owned i (revs @ [(Delta v ops, s)]) = Inl (DeltaFailed x)"
    if "applyOps (Some y) ops = Inl e"
  proof (cases "applyImmutableBatches owned (Some x) (map delta_ops ?post)")
    case (Inr t)
    with step that show ?thesis by simp
  qed (use now in auto)
qed

subsection \<open>The past of a document\<close>

lemma grown_alive:
  assumes "grown n d d'" "doc_ok n d"
  shows "s < n \<Longrightarrow> isAliveAt (ds_record d') (AtSeq s) = isAliveAt (ds_record d) (AtSeq s)"
    "isAliveAt (ds_record d') (AtSeq (n - 1)) = isAliveAt (ds_record d) Current"
proof -
  note created = grown_record(3)[OF assms(1)]
  from assms(1) have ret: "dr_retired (ds_record d) \<noteq> None \<Longrightarrow> dr_retired (ds_record d') = dr_retired (ds_record d)"
    "\<And>t. dr_retired (ds_record d) = None \<Longrightarrow> dr_retired (ds_record d') = Some t \<Longrightarrow> n \<le> t"
    by (auto simp: grown_def)
  from assms(2) have ok: "dr_created (ds_record d) < n" "\<And>t. dr_retired (ds_record d) = Some t \<Longrightarrow> t < n"
    by (auto simp: doc_ok_def)
  show "s < n \<Longrightarrow> isAliveAt (ds_record d') (AtSeq s) = isAliveAt (ds_record d) (AtSeq s)"
    using ret created by (cases "dr_retired (ds_record d)"; cases "dr_retired (ds_record d')") force+
  show "isAliveAt (ds_record d') (AtSeq (n - 1)) = isAliveAt (ds_record d) Current"
    using ret created ok by (cases "dr_retired (ds_record d)"; cases "dr_retired (ds_record d')") force+
qed

lemma grown_visible:
  assumes "grown n d d'" "\<not> isCurrentOnly (ds_record d)"
  shows "s < n \<Longrightarrow> visible_revisions (AtSeq s) (ds_revisions d') = visible_revisions (AtSeq s) (ds_revisions d)"
    "visible_revisions (AtSeq (n - 1)) (ds_revisions d') = visible_revisions Current (ds_revisions d)"
proof -
  from assms have old: "filter (\<lambda>(_, t). t < n) (ds_revisions d') = ds_revisions d" by (simp add: grown_def)
  show "visible_revisions (AtSeq s) (ds_revisions d') = visible_revisions (AtSeq s) (ds_revisions d)" if "s < n"
    unfolding visible_revisions_def old[symmetric] using that by (auto intro!: filter_cong)
  show "visible_revisions (AtSeq (n - 1)) (ds_revisions d') = visible_revisions Current (ds_revisions d)"
    unfolding visible_revisions_def old[symmetric] by (auto intro!: filter_cong)
qed

text \<open>Version, value and number of deltas of a read, without the record's retirement stamp.\<close>

definition content_at :: "(nat \<Rightarrow> bool) \<Rightarrow> store \<Rightarrow> int \<Rightarrow> doc_point \<Rightarrow> store_error + (int \<times> json \<times> nat) option" where
  "content_at owned m i p =
     map_sum id (map_option (\<lambda>sd. (sd_version sd, sd_value sd, sd_deltas sd))) (materializeDocument owned m i p)"

lemma content_at_some:
  assumes "ms_documents m i = Some d" "\<not> isCurrentOnly (ds_record d)"
  shows "content_at owned m i p =
    (if isAliveAt (ds_record d) p
     then map_sum id Some (replay_document owned i (visible_revisions p (ds_revisions d))) else Inr None)"
  using assms
  by (cases "replay_document owned i (visible_revisions p (ds_revisions d))")
    (auto simp: content_at_def materializeDocument_def)

lemma past_fixed:
  assumes "store_ok m" "evolves m m'" "s < ms_nextSeq m"
    and "\<And>d. ms_documents m' i = Some d \<Longrightarrow> \<not> isCurrentOnly (ds_record d)"
  shows "content_at owned m' i (AtSeq s) = content_at owned m i (AtSeq s)"
    "content_at owned m' i (AtSeq (ms_nextSeq m - 1)) = content_at owned m i Current"
proof -
  from assms(2) have grow: "documents_grown (ms_nextSeq m) m m'" by (simp add: evolves_def)
  have both: "content_at owned m' i (AtSeq s) = content_at owned m i (AtSeq s)
    \<and> content_at owned m' i (AtSeq (ms_nextSeq m - 1)) = content_at owned m i Current"
  proof (cases "ms_documents m i")
    case None
    then have now: "content_at owned m i p = Inr None" for p by (simp add: content_at_def materializeDocument_def)
    show ?thesis
    proof (cases "ms_documents m' i")
      case None
      then show ?thesis unfolding now by (simp add: content_at_def materializeDocument_def)
    next
      case (Some d')
      with grow \<open>ms_documents m i = None\<close> have "ms_nextSeq m \<le> dr_created (ds_record d')"
        unfolding documents_grown_def by blast
      with assms(3) show ?thesis unfolding now content_at_some[OF Some assms(4)[OF Some]] by simp
    qed
  next
    case (Some d)
    with grow obtain d' where d': "ms_documents m' i = Some d'" "grown (ms_nextSeq m) d d'"
      unfolding documents_grown_def by blast
    note keeps = assms(4)[OF d'(1)]
    then have keep: "\<not> isCurrentOnly (ds_record d)" using grown_record(1)[OF d'(2)] by simp
    have ok: "doc_ok (ms_nextSeq m) d" using assms(1) Some by (auto simp: store_ok_def documents_ok_def)
    show ?thesis
      unfolding content_at_some[OF d'(1) keeps] content_at_some[OF Some keep]
      by (simp only: grown_alive[OF d'(2) ok] grown_visible[OF d'(2) keep] assms(3) simp_thms)
  qed
  then show "content_at owned m' i (AtSeq s) = content_at owned m i (AtSeq s)"
    "content_at owned m' i (AtSeq (ms_nextSeq m - 1)) = content_at owned m i Current" by blast+
qed

end
