(* ===== verification/Durable_Laws.thy ===== *)
theory Durable_Laws
  imports Durable_Replay
begin

text \<open>
  The properties of the in-memory storage in every reachable state: its indexes list exactly the
  records they are for, an address has one live document, IDs are never given twice and keep their
  table, the past of a rewindable document is fixed, reads replay what was written, and the exact
  conditions under which a document is created.
\<close>

subsection \<open>Single writes\<close>

lemma prepare_seq: "prepareCommit owned m ws None = Inr p \<Longrightarrow> pc_seq p = ms_nextSeq m"
  by (auto simp: prepareCommit_def assertOpen_def Let_def and_then_Inr fails_if_def split: if_splits option.splits)

lemma play_root: "play_all revs = Some (v, Inr t) \<Longrightarrow> \<exists>y. t = Some y"
proof (induction revs arbitrary: v t rule: rev_induct)
  case (snoc r revs)
  obtain c s where r: "r = (c, s)" by (cases r)
  show ?case
  proof (cases c)
    case (Base v' x)
    with snoc.prems r show ?thesis by (auto simp: play_all_def)
  next
    case (Delta v' ops)
    with snoc.prems r obtain u where u: "play_all revs = Some (v, Inr u)" "applyOps u ops = Inr t"
      by (auto simp: play_all_def and_then_Inr)
    from snoc.IH[OF u(1)] obtain y where "u = Some y" by blast
    with u(2) applyOps_root show ?thesis by blast
  qed
qed (simp add: play_all_def)

lemma commit_change:
  assumes "commit owned [WChange i c] m = Inr (seq, m')"
  obtains d where "ms_documents m i = Some d" "dr_retired (ds_record d) = None" "seq = ms_nextSeq m"
    "ms_documents m' = (ms_documents m)(i \<mapsto> change_document c seq d)" "\<not> ms_closed m'"
    "\<And>v ops. c = Delta v ops \<Longrightarrow> ds_revisions d \<noteq> [] \<and> content_version (fst (last (ds_revisions d))) = v"
proof -
  let ?a = "no_action\<lparr>da_content := Some c\<rparr>"
  have acts: "prepareDocumentActions [WChange i c] [] = Inr [(i, ?a)]"
    by (simp add: action_of_def no_action_def)
  have resolved: "resolveDocumentCopies owned m [WChange i c] = Inr [WChange i c]"
    by (simp add: resolveDocumentCopies_def)
  from assms obtain p where p: "prepareCommit owned m [WChange i c] None = Inr p"
    and app: "apply_prepared p m = Inr (p\<lparr>pc_applied := True\<rparr>, m')" "seq = pc_seq p"
    by (auto simp: commit_def and_then_Inr applyD)
  note pre = prepareD[OF p]
  have pc: "pc_writes p = [WChange i c]" "pc_actions p = [(i, ?a)]" "seq = ms_nextSeq m"
    using pre(4,6) acts resolved app(2) prepare_seq[OF p] by auto
  have create: "da_create ?a = None" "\<not> da_retire ?a" "da_content ?a = Some c" by (simp_all add: no_action_def)
  from pre(7) pc(2) have chk: "check_action m i ?a = None"
    by (auto simp: checkDocumentActions_def split: option.splits)
  from check_action_None(1)[OF chk create(1)] obtain d where
    d: "ms_documents m i = Some d" "dr_retired (ds_record d) = None" by blast
  have m': "m' = (apply_action seq (i, ?a) m)\<lparr>ms_nextSeq := seq + 1\<rparr>"
    using app applyD[OF p] pc by (simp add: applyDocumentActions_def)
  have "ready [] m (i, ?a)" using chk create by (simp add: ready_def action_shape_def)
  note eff = action_effect_existing[OF this create(1) d(1), of seq]
  have "ms_documents m' = (ms_documents m)(i \<mapsto> change_document c seq d)"
    using eff(1) create by (simp add: m' acted_def)
  moreover have "\<not> ms_closed m'" using eff(7) pre(1) by (simp add: m' same_tables_def)
  ultimately show thesis
    using that[OF d pc(3)] check_action_None(3)[OF chk d(1)] create(3) by blast
qed

lemma play_change: "play_all (ds_revisions (change_document c seq d)) = play (c, seq) (play_all (ds_revisions d))"
  by (cases c) (auto simp: change_document_def play_all_def)


text \<open>The commit of one created document.\<close>

definition new_action :: "doc_create \<Rightarrow> int \<Rightarrow> json \<Rightarrow> doc_action" where
  "new_action r v x = no_action\<lparr>da_create := Some r, da_content := Some (Base v x)\<rparr>"

lemma new_action_simps [simp]:
  "da_create (new_action r v x) = Some r" "da_content (new_action r v x) = Some (Base v x)"
  "\<not> da_retire (new_action r v x)"
  by (simp_all add: new_action_def no_action_def)

lemma prepare_create:
  "prepareCommit owned m [WCreate r v x] None =
     (if ms_closed m then Inl Closed
      else if \<bar>ms_nextSeq m\<bar> > max_safe then Inl NotIncreasing
      else case ms_types m (dc_id r) of
        Some t \<Rightarrow> Inl (BelongsTo (dc_id r) t)
      | None \<Rightarrow>
          if ms_documents m (dc_id r) \<noteq> None then Inl (DocumentExists (dc_id r))
          else if current_of m (recordAddressKey r) \<noteq> None then Inl AddressTaken
          else Inr \<lparr>pc_seq = ms_nextSeq m, pc_writes = [WCreate r v x],
                 pc_actions = [(dc_id r, new_action r v x)], pc_applied = False\<rparr>)"
proof -
  have acts: "prepareDocumentActions [WCreate r v x] [] = Inr [(dc_id r, new_action r v x)]"
    by (simp add: action_of_def no_action_def new_action_def)
  have chk: "checkDocumentActions m [(dc_id r, new_action r v x)] =
      (if ms_documents m (dc_id r) \<noteq> None then Some (DocumentExists (dc_id r))
       else if current_of m (recordAddressKey r) \<noteq> None then Some AddressTaken else None)"
    by (auto simp: checkDocumentActions_def check_action_def count_live_def action_address_def Let_def
        split: option.splits)
  show ?thesis
    by (auto simp: prepareCommit_def assertOpen_def resolveDocumentCopies_def acts chk fails_if_def written_once_def
        simp del: prepareDocumentActions.simps split: option.splits)
qed

lemma commit_create:
  assumes "store_ok m" "commit owned [WCreate r v x] m = Inr (seq, m')"
  shows "seq = ms_nextSeq m" "\<not> ms_closed m'"
    "ms_documents m' (dc_id r) =
       Some \<lparr>ds_record = doc_create.extend r \<lparr>dr_created = seq, dr_retired = None\<rparr>, ds_revisions = [(Base v x, seq)]\<rparr>"
proof -
  from assms(2) obtain p where p: "prepareCommit owned m [WCreate r v x] None = Inr p"
    and app: "apply_prepared p m = Inr (p\<lparr>pc_applied := True\<rparr>, m')" "seq = pc_seq p"
    by (auto simp: commit_def and_then_Inr applyD)
  have pc: "pc_writes p = [WCreate r v x]" "pc_actions p = [(dc_id r, new_action r v x)]"
    "\<not> ms_closed m" "ms_documents m (dc_id r) = None"
    using p by (auto simp: prepare_create split: if_splits option.splits)
  show "seq = ms_nextSeq m" using prepare_seq[OF p] app(2) by simp
  have m': "m' = (apply_action seq (dc_id r, new_action r v x) m)\<lparr>ms_nextSeq := seq + 1\<rparr>"
    using app applyD[OF p] pc by (simp add: applyDocumentActions_def)
  have "ready [WCreate r v x] m (dc_id r, new_action r v x)"
    using pc(4) by (simp add: ready_def action_shape_def check_action_def)
  note eff = action_effect_create[OF this, of r seq]
  show "ms_documents m' (dc_id r) =
       Some \<lparr>ds_record = doc_create.extend r \<lparr>dr_created = seq, dr_retired = None\<rparr>, ds_revisions = [(Base v x, seq)]\<rparr>"
    using eff(1) by (simp add: m' acted_def)
  show "\<not> ms_closed m'" using eff(7) pc(3) by (simp add: m' same_tables_def)
qed

lemma commit_fails: "store_ok m \<Longrightarrow>
    (case commit owned ws m of Inl e \<Rightarrow> Some e | Inr _ \<Rightarrow> None)
      = (case prepareCommit owned m ws None of Inl e \<Rightarrow> Some e | Inr _ \<Rightarrow> None)"
  by (cases "prepareCommit owned m ws None") (auto simp: commit_def applyD)


subsection \<open>A small store\<close>

text \<open>A conversation, a note document rewindable with it, and a change of the note.\<close>

definition after_commit :: "storage_write list \<Rightarrow> store \<Rightarrow> store" where
  "after_commit ws m = (case commit (\<lambda>_. False) ws m of Inl _ \<Rightarrow> m | Inr (_, m') \<Rightarrow> m')"

lemma after_commit_step: "store_step\<^sup>*\<^sup>* m (after_commit ws m)"
proof (cases "commit (\<lambda>_. False) ws m")
  case (Inr r)
  then obtain p p' m' where "prepareCommit (\<lambda>_. False) m ws None = Inr p" "apply_prepared p m = Inr (p', m')" "snd r = m'"
    by (auto simp: commit_def and_then_Inr)
  with Inr store_step.Commit show ?thesis by (cases r) (auto simp: after_commit_def)
qed (simp add: after_commit_def)

definition note_record :: doc_create where
  "note_record = \<lparr>dc_id = 3, dc_kind = ''note'', dc_key = None, dc_scope = ConversationScope 2,
     dc_history = Some Rewindable, dc_fork = None\<rparr>"

definition note_store :: store where
  "note_store = after_commit
     [WConversation \<lparr>cv_id = 2, cv_parent = None, cv_owner = None\<rparr>, WCreate note_record 1 (JNum 1)] new_store"

definition changed_store :: store where
  "changed_store = after_commit [WChange 3 (Base 2 (JNum 7))] note_store"

lemma note_reachable: "store_step\<^sup>*\<^sup>* new_store note_store"
  unfolding note_store_def by (rule after_commit_step)

lemma note_changes: "store_step\<^sup>*\<^sup>* note_store changed_store"
  unfolding changed_store_def by (rule after_commit_step)

lemma changed_reachable: "store_step\<^sup>*\<^sup>* new_store changed_store"
  using note_reachable note_changes by (rule rtranclp_trans)


subsection \<open>Properties\<close>

lemma lists_sorted: "lists_ids ids S \<Longrightarrow> ids = sorted_list_of_set S"
  by (auto simp: lists_ids_def sorted_list_of_set.idem_if_sorted_distinct strict_sorted_iff)

lemma indexes_sorted: "ids.indexes index key \<Longrightarrow> index k = sorted_list_of_set {i. key i = Some k}"
  by (simp add: ids.indexes_def lists_sorted)

lemma head_of_Some: "head_of e = Some c \<longleftrightarrow> en_conversation e = c \<and> en_head e \<noteq> None"
  by (auto simp: head_of_def)

text \<open>C31: In every reachable state the ID lists of the storage are exactly the IDs of the records they
  are for, in ascending order: all conversations, the conversations of an owner, the entries and head
  markers of a conversation, the tasks and submissions of each status, the documents of a scope, and the
  incarnations of an address; and the current ID of an address is its live incarnation.\<close>

theorem indexes_agree:
  assumes "store_step\<^sup>*\<^sup>* new_store m"
  shows "ms_conversationIds m = sorted_list_of_set (dom (ms_conversations m))
    \<and> ids_at (ms_byOwnerConversation m) c
        = sorted_list_of_set {i. \<exists>v. ms_conversations m i = Some v \<and> map_option fst (cv_owner v) = Some c}
    \<and> ids_at (ms_byOwnerTask m) t
        = sorted_list_of_set {i. \<exists>v. ms_conversations m i = Some v \<and> map_option snd (cv_owner v) = Some t}
    \<and> ids_at (ms_entryIds m) c = sorted_list_of_set {i. \<exists>e. ms_entries m i = Some e \<and> en_conversation e = c}
    \<and> ids_at (ms_headEntryIds m) c
        = sorted_list_of_set {i. \<exists>e. ms_entries m i = Some e \<and> en_conversation e = c \<and> en_head e \<noteq> None}
    \<and> ms_taskIds m = sorted_list_of_set (dom (ms_tasks m))
    \<and> ms_taskIdsByStatus m s = sorted_list_of_set {i. \<exists>v. ms_tasks m i = Some v \<and> tk_status v = s}
    \<and> ms_submissionIds m = sorted_list_of_set (dom (ms_submissions m))
    \<and> ms_submissionIdsByStatus m u = sorted_list_of_set {i. \<exists>v. ms_submissions m i = Some v \<and> sb_status v = u}
    \<and> ids_at (ms_byScope m) p
        = sorted_list_of_set {i. \<exists>d. ms_documents m i = Some d \<and> dc_scope (ds_record d) = p}
    \<and> (case ms_addresses m k of None \<Rightarrow> [] | Some ai \<Rightarrow> ai_ids ai)
        = sorted_list_of_set {i. \<exists>d. ms_documents m i = Some d \<and> recordAddressKey (ds_record d) = k}
    \<and> (\<forall>i. Option.bind (ms_addresses m k) ai_current = Some i \<longleftrightarrow>
         (\<exists>d. ms_documents m i = Some d \<and> recordAddressKey (ds_record d) = k \<and> dr_retired (ds_record d) = None))"
proof -
  from reachable_ok[OF assms] have ok: "conversations_ok m" "entries_ok m" "tasks_ok m" "submissions_ok m"
    "documents_ok (ms_nextSeq m) m" and live: "addresses_ok m"
    by (auto simp: store_ok_def tables_ok_def)
  have current: "Option.bind (ms_addresses m k) ai_current = current_of m k"
    by (simp add: current_of_def split: option.split)
  have with_key: "{i. keyed f table i = Some k} = {i. \<exists>v. table i = Some v \<and> f v = Some k}"
    for f :: "'a \<Rightarrow> 'k option" and table k
    by (auto simp: keyed_def bind_eq_Some_conv)
  show ?thesis
    using ok
    unfolding conversations_ok_def entries_ok_def tasks_ok_def submissions_ok_def documents_ok_def
      address_ids_def[symmetric] current live[unfolded addresses_ok_def, rule_format] live_at_def
    by (auto simp: with_key owned_by_def head_of_Some dest!: indexes_sorted lists_sorted
        intro!: arg_cong[where f = sorted_list_of_set])
qed

text \<open>C10: At every address a reachable, open storage has at most one live document; \<open>findDocument\<close> at the
  current point returns it, and nothing when there is none.\<close>

theorem one_live_incarnation:
  assumes "store_step\<^sup>*\<^sup>* new_store m" "\<not> ms_closed m"
  shows "(findDocument m k Current = Inr (Some r) \<longleftrightarrow>
      (\<exists>i d. ms_documents m i = Some d \<and> ds_record d = r \<and> recordAddressKey r = k \<and> dr_retired r = None))
    \<and> (findDocument m k Current = Inr None \<longleftrightarrow>
      (\<nexists>i d. ms_documents m i = Some d \<and> recordAddressKey (ds_record d) = k \<and> dr_retired (ds_record d) = None))
    \<and> (live_at m i k \<and> live_at m j k \<longrightarrow> i = j)"
proof -
  from reachable_ok[OF assms(1)] have points: "current_of m k = Some i \<longleftrightarrow> live_at m i k" for i
    by (simp add: store_ok_def addresses_ok_def)
  have found: "findDocument m k Current = (case current_of m k of None \<Rightarrow> Inr None
      | Some i \<Rightarrow> (case ms_documents m i of None \<Rightarrow> Inl UndefinedRead | Some d \<Rightarrow> Inr (Some (ds_record d))))"
    using assms(2) by (simp add: findDocument_def assertOpen_def)
  show ?thesis
  proof (cases "current_of m k")
    case None
    with points have none: "\<not> live_at m i k" for i by (metis option.distinct(1))
    from none[of i] have "live_at m i k \<and> live_at m j k \<longrightarrow> i = j" by blast
    with None none show ?thesis by (auto simp: found live_at_def)
  next
    case (Some a)
    with points have only: "live_at m i k \<longleftrightarrow> i = a" for i by (metis option.inject)
    then obtain d where d: "ms_documents m a = Some d" "recordAddressKey (ds_record d) = k" "dr_retired (ds_record d) = None"
      unfolding live_at_def by blast
    have "e = d" if "ms_documents m i = Some e" "recordAddressKey (ds_record e) = k" "dr_retired (ds_record e) = None" for i e
      using only[of i] that d(1) unfolding live_at_def by auto
    with d have "(\<exists>i e. ms_documents m i = Some e \<and> ds_record e = r \<and> recordAddressKey r = k \<and> dr_retired r = None)
        \<longleftrightarrow> ds_record d = r"
      by metis
    moreover have "live_at m i k \<and> live_at m j k \<longrightarrow> i = j" using only[of i] only[of j] by simp
    moreover have "findDocument m k Current = Inr (Some (ds_record d))" by (simp add: found Some d)
    ultimately show ?thesis using d by auto
  qed
qed


theorem one_live_incarnation_witness:
  "findDocument note_store (recordAddressKey note_record) Current
     = Inr (Some (doc_create.extend note_record \<lparr>dr_created = 1, dr_retired = None\<rparr>))"
proof -
  have "\<not> ms_closed note_store" by code_simp
  moreover have "ds_record (the (ms_documents note_store 3))
      = doc_create.extend note_record \<lparr>dr_created = 1, dr_retired = None\<rparr>" "ms_documents note_store 3 \<noteq> None"
    by code_simp+
  moreover have "recordAddressKey note_record = recordAddressKey (ds_record (the (ms_documents note_store 3)))"
    by code_simp
  ultimately show ?thesis
    using one_live_incarnation[OF note_reachable, of "recordAddressKey note_record"
        "ds_record (the (ms_documents note_store 3))"]
    by (metis (no_types, lifting) extend_stamps(2) option.collapse)
qed

theorem indexes_agree_witness:
  "ids_at (ms_byScope note_store) (ConversationScope 2)
     = sorted_list_of_set {i. \<exists>d. ms_documents note_store i = Some d \<and> dc_scope (ds_record d) = ConversationScope 2}
   \<and> ids_at (ms_byScope note_store) (ConversationScope 2) = [3]"
proof
  show "ids_at (ms_byScope note_store) (ConversationScope 2)
      = sorted_list_of_set {i. \<exists>d. ms_documents note_store i = Some d \<and> dc_scope (ds_record d) = ConversationScope 2}"
    using indexes_agree[OF note_reachable, where p = "ConversationScope 2"] by blast
  show "ids_at (ms_byScope note_store) (ConversationScope 2) = [3]" by code_simp
qed

text \<open>C34: An ID the storage mints belongs to no record and is minted once: whatever commits, mints and
  closes follow, it is not minted again. A record keeps the table of its ID, and conversations, entries
  and the commit sequence of an entry never change.\<close>

theorem ids_are_permanent:
  assumes "store_step\<^sup>*\<^sup>* new_store m" "mintId m = Inr (i, m1)" "store_step\<^sup>*\<^sup>* m1 m2"
  shows "ms_types m i = None \<and> ms_nextId m2 > i \<and> mintId m2 \<noteq> Inr (i, m3)
    \<and> ms_types m1 \<subseteq>\<^sub>m ms_types m2 \<and> ms_conversations m1 \<subseteq>\<^sub>m ms_conversations m2
    \<and> ms_entries m1 \<subseteq>\<^sub>m ms_entries m2 \<and> ms_entrySeqs m1 \<subseteq>\<^sub>m ms_entrySeqs m2"
proof -
  note mint = mint_step[OF assms(2)]
  have ok: "store_ok m" "store_ok m1" using reachable_ok[OF assms(1)] step_store_ok store_step.Mint[OF assms(2)] by blast+
  from steps_evolve[OF assms(3) ok(2)] have ev: "tables_grown m1 m2" by (simp add: evolves_def)
  then have "ms_nextId m2 > i" using mint by (simp add: tables_grown_def)
  moreover from this have "mintId m2 \<noteq> Inr (i, m3)" using mint_step(1)[of m2 i m3] by auto
  moreover have "ms_types m i = None" using ok(1) mint(1) by (auto simp: store_ok_def tables_ok_def types_ok_def)
  ultimately show ?thesis using ev by (simp add: tables_grown_def)
qed

theorem ids_are_permanent_witness:
  "mintId (note_store\<lparr>ms_nextId := 5\<rparr>) \<noteq> Inr (4, note_store) \<and> ms_types note_store 4 = None"
proof -
  have mint: "mintId note_store = Inr (4, note_store\<lparr>ms_nextId := 5\<rparr>)"
  proof -
    have "ms_nextId note_store = 4" "\<not> ms_closed note_store" by code_simp+
    then show ?thesis by (simp add: mintId_def assertOpen_def max_safe_def)
  qed
  from ids_are_permanent[OF note_reachable mint rtranclp.rtrancl_refl, of note_store] show ?thesis by blast
qed


text \<open>C9: Reading a document is playing its revisions: in a reachable state the storage returns a value
  exactly for a live document whose history it keeps, and version and value are those of applying, in
  order and in place, every base and every delta batch committed up to the point read, although the
  storage replays only what follows the last base, on copies.\<close>

theorem document_reads_replay:
  assumes "store_step\<^sup>*\<^sup>* new_store m"
  shows "(\<exists>sd. materializeDocument owned m i p = Inr (Some sd) \<and> sd_version sd = v \<and> sd_value sd = x) \<longleftrightarrow>
    (\<exists>d. ms_documents m i = Some d \<and> readable p d
       \<and> play_all (visible_revisions p (ds_revisions d)) = Some (v, Inr (Some x)))"
proof -
  have ok: "store_ok m" using assms by (rule reachable_ok)
  show ?thesis (is "?reads \<longleftrightarrow> ?plays")
  proof
    assume ?reads
    then obtain sd where "materializeDocument owned m i p = Inr (Some sd)" "sd_version sd = v" "sd_value sd = x"
      by blast
    with materialize_cases(1)[OF ok] show ?plays
      by (metis as_root_def option.case(2) play_root stored_document.select_convs(3))
  next
    assume ?plays
    then obtain d where "ms_documents m i = Some d" "readable p d"
      "play_all (visible_revisions p (ds_revisions d)) = Some (v, Inr (Some x))" by blast
    then have "materializeDocument owned m i p = Inr (Some \<lparr>sd_record = ds_record d, sd_version = v, sd_value = x,
             sd_deltas = length (snd (the (last_base (visible_revisions p (ds_revisions d)))))\<rparr>)"
      by (subst materialize_cases(1)[OF ok]) (auto simp: as_root_def)
    then show ?reads by auto
  qed
qed

theorem document_reads_replay_witness:
  "\<exists>sd. materializeDocument (\<lambda>_. False) changed_store 3 (AtSeq 1) = Inr (Some sd)
     \<and> sd_version sd = 1 \<and> sd_value sd = JNum 1"
proof -
  have "map_option ds_revisions (ms_documents changed_store 3) = Some [(Base 1 (JNum 1), 1), (Base 2 (JNum 7), 2)]"
    "map_option (readable (AtSeq 1)) (ms_documents changed_store 3) = Some True"
    by code_simp+
  then show ?thesis
    by (subst document_reads_replay[OF changed_reachable]) (auto simp: visible_revisions_def play_all_def)
qed

text \<open>C33: A read of a document in a reachable state fails only because the document keeps no history at a
  sequence, or because a committed batch cannot be applied; the storage never lacks a base, never meets
  a version boundary, and never reads a record that is not there.\<close>

theorem document_errors:
  assumes "store_step\<^sup>*\<^sup>* new_store m" "materializeDocument owned m i p = Inl e"
  shows "(e = NoHistory i \<and> p \<noteq> Current \<and> (\<exists>d. ms_documents m i = Some d \<and> isCurrentOnly (ds_record d)))
    \<or> (\<exists>x d v. e = DeltaFailed x \<and> ms_documents m i = Some d \<and> readable p d
         \<and> (\<exists>y. play_all (visible_revisions p (ds_revisions d)) = Some (v, Inl y)))"
proof -
  have ok: "store_ok m" using assms(1) by (rule reachable_ok)
  from assms(2) obtain d where d: "ms_documents m i = Some d"
    by (auto simp: materializeDocument_def split: option.splits)
  show ?thesis
  proof (cases "readable p d")
    case True
    then have replay: "replay_document owned i (visible_revisions p (ds_revisions d)) = Inl e"
      using assms(2) d by (auto simp: materializeDocument_def readable_def and_then_def split: sum.splits)
    have "doc_ok (ms_nextSeq m) d" using ok d by (auto simp: store_ok_def documents_ok_def)
    then have "versions_ok (map fst (visible_revisions p (ds_revisions d)))" using True by (rule readable_versions)
    from replay_fails[OF this replay] show ?thesis using d True by blast
  next
    case False
    with assms(2) d show ?thesis by (auto simp: materializeDocument_def readable_def split: if_splits)
  qed
qed


definition session_store :: store where
  "session_store = after_commit
     [WCreate \<lparr>dc_id = 2, dc_kind = ''note'', dc_key = None, dc_scope = SessionScope, dc_history = None,
        dc_fork = None\<rparr> 1 JNull] new_store"

theorem document_errors_witness:
  "materializeDocument (\<lambda>_. False) session_store 2 (AtSeq 1) = Inl (NoHistory 2)
   \<and> (\<exists>d. ms_documents session_store 2 = Some d \<and> isCurrentOnly (ds_record d))"
proof -
  have err: "materializeDocument (\<lambda>_. False) session_store 2 (AtSeq 1) = Inl (NoHistory 2)" by code_simp
  have "store_step\<^sup>*\<^sup>* new_store session_store" unfolding session_store_def by (rule after_commit_step)
  from document_errors[OF this err] err show ?thesis by blast
qed

text \<open>C8: The past is fixed: whatever commits, mints and closes follow, reading a rewindable document at
  an old sequence gives what it gave then, and at the last sequence of a past state what that state
  had as current; a document created later is absent there.\<close>

theorem as_of_read:
  assumes "store_step\<^sup>*\<^sup>* new_store m" "store_step\<^sup>*\<^sup>* m m'" "s < ms_nextSeq m"
    and "\<And>d. ms_documents m' i = Some d \<Longrightarrow> \<not> isCurrentOnly (ds_record d)"
  shows "content_at owned m' i (AtSeq s) = content_at owned m i (AtSeq s)
    \<and> content_at owned m' i (AtSeq (ms_nextSeq m - 1)) = content_at owned m i Current"
proof -
  have ok: "store_ok m" using assms(1) by (rule reachable_ok)
  from steps_evolve[OF assms(2) ok] past_fixed[OF ok _ assms(3,4)] show ?thesis by blast
qed

theorem as_of_read_witness:
  "content_at (\<lambda>_. False) changed_store 3 (AtSeq 1) = content_at (\<lambda>_. False) note_store 3 Current
   \<and> content_at (\<lambda>_. False) changed_store 3 (AtSeq 1) = Inr (Some (1, JNum 1, 0))
   \<and> content_at (\<lambda>_. False) changed_store 3 Current = Inr (Some (2, JNum 7, 0))"
proof (intro conjI)
  have seq: "ms_nextSeq note_store = 2" by code_simp
  have keep: "map_option (\<lambda>d. isCurrentOnly (ds_record d)) (ms_documents changed_store 3) = Some False" by code_simp
  show "content_at (\<lambda>_. False) changed_store 3 (AtSeq 1) = content_at (\<lambda>_. False) note_store 3 Current"
    using as_of_read[OF note_reachable note_changes, of 1 3 "\<lambda>_. False"] seq keep by auto
qed (code_simp, code_simp)

text \<open>C35: After the commit of one change, the current read of the document gives the new base, or the
  result of applying the batch to what was read before, one delta longer.\<close>

theorem write_then_read:
  assumes "store_step\<^sup>*\<^sup>* new_store m" "commit owned [WChange i c] m = Inr (seq, m')"
    and "document owned m i Current = Inr (Some sd)"
  shows "case c of
      Base v x \<Rightarrow> document owned m' i Current = Inr (Some (sd\<lparr>sd_version := v, sd_value := x, sd_deltas := 0\<rparr>))
    | Delta v ops \<Rightarrow> v = sd_version sd
        \<and> (case applyOps (Some (sd_value sd)) ops of
             Inl e \<Rightarrow> (\<exists>x. document owned m' i Current = Inl (DeltaFailed x))
           | Inr t \<Rightarrow> document owned m' i Current
               = Inr (Some (sd\<lparr>sd_value := as_root t, sd_deltas := sd_deltas sd + 1\<rparr>)))"
proof -
  have ok: "store_ok m" using assms(1) by (rule reachable_ok)
  from assms(2) obtain d where d: "ms_documents m i = Some d" "dr_retired (ds_record d) = None"
    and docs: "ms_documents m' = (ms_documents m)(i \<mapsto> change_document c seq d)" and open_m': "\<not> ms_closed m'"
    and base: "\<And>v ops. c = Delta v ops \<Longrightarrow> ds_revisions d \<noteq> [] \<and> content_version (fst (last (ds_revisions d))) = v"
    by (rule commit_change) blast
  have reads: "document owned m'' i Current = and_then (replay_document owned i (ds_revisions e))
      (\<lambda>(version, v, n). Inr (Some \<lparr>sd_record = ds_record d, sd_version = version, sd_value = v, sd_deltas = n\<rparr>))"
    if "ms_documents m'' i = Some e" "ds_record e = ds_record d" "\<not> ms_closed m''" for m'' e
    using that d(2) by (simp add: document_def assertOpen_def materializeDocument_def visible_revisions_def)
  have "\<not> ms_closed m" using assms(3) by (auto simp: document_def assertOpen_def split: if_splits)
  note before = assms(3)[unfolded reads[OF d(1) refl this]]
  let ?d = "change_document c seq d"
  have "ms_documents m' i = Some ?d" "ds_record ?d = ds_record d" using docs by (simp_all add: change_document_def)
  note after = reads[OF this open_m']
  have vers: "versions_ok (map fst (ds_revisions d))"
    by (rule readable_versions[where p = Current, unfolded visible_revisions_def doc_point.case])
      (use ok d in \<open>auto simp: store_ok_def documents_ok_def readable_def\<close>)
  from before obtain v0 y n where old: "replay_document owned i (ds_revisions d) = Inr (v0, y, n)"
    and sd: "sd = \<lparr>sd_record = ds_record d, sd_version = v0, sd_value = y, sd_deltas = n\<rparr>"
    by (auto simp: and_then_Inr)
  show ?thesis
  proof (cases c)
    case (Base v x)
    have "\<exists>pre. ds_revisions ?d = pre @ [(Base v x, seq)]"
      using Base by (auto simp: change_document_def)
    then show ?thesis using Base after sd by (auto simp: replay_base)
  next
    case (Delta v ops)
    then have "ds_revisions ?d = ds_revisions d @ [(Delta v ops, seq)]" by (simp add: change_document_def)
    note now = after[unfolded this]
    note step = replay_delta[OF vers old conjunct2[OF base[OF Delta]]]
    show ?thesis
    proof (cases "applyOps (Some y) ops")
      case (Inl e)
      with step(3)[OF Inl, of seq] step(1) show ?thesis using Delta now sd by auto
    next
      case (Inr t)
      with step(2)[OF Inr, of seq] step(1) show ?thesis using Delta now sd by simp
    qed
  qed
qed


text \<open>C32: Creating one document fails in exactly these cases, checked in this order: the storage is closed,
  the sequences are exhausted, the ID belongs to a record, or a live document has the address.
  Otherwise it is committed at the next sequence and can be read.\<close>

theorem create_exact:
  assumes "store_step\<^sup>*\<^sup>* new_store m"
  shows "(case commit owned [WCreate r v x] m of
      Inl e \<Rightarrow> Some e =
        (if ms_closed m then Some Closed
         else if ms_nextSeq m > max_safe then Some NotIncreasing
         else case ms_types m (dc_id r) of
           Some t \<Rightarrow> Some (BelongsTo (dc_id r) t)
         | None \<Rightarrow> if \<exists>i. live_at m i (recordAddressKey r) then Some AddressTaken else None)
    | Inr (seq, m') \<Rightarrow>
        \<not> ms_closed m \<and> seq = ms_nextSeq m \<and> seq \<le> max_safe \<and> ms_types m (dc_id r) = None
        \<and> (\<nexists>i. live_at m i (recordAddressKey r))
        \<and> content_at owned m' (dc_id r) Current = Inr (Some (v, x, 0)))"
proof -
  have ok: "store_ok m" using assms by (rule reachable_ok)
  then have seq: "1 \<le> ms_nextSeq m" and types: "types_ok m" by (simp_all add: store_ok_def tables_ok_def)
  have none: "ms_types m (dc_id r) = None \<Longrightarrow> ms_documents m (dc_id r) = None"
    using types_ok_at(5)[OF types] by simp
  have live: "(\<exists>i. live_at m i (recordAddressKey r)) \<longleftrightarrow> current_of m (recordAddressKey r) \<noteq> None"
    using ok by (auto simp: store_ok_def addresses_ok_def)
  show ?thesis
  proof (cases "commit owned [WCreate r v x] m")
    case (Inl e)
    with commit_fails[OF ok, of owned "[WCreate r v x]"] seq none show ?thesis
      unfolding prepare_create live by (auto split: if_splits option.splits)
  next
    case (Inr res)
    obtain s m' where res: "res = (s, m')" by (cases res)
    note new = commit_create[OF ok Inr[unfolded res]]
    have "content_at owned m' (dc_id r) Current = Inr (Some (v, x, 0))"
      using new(3) replay_base[of owned "dc_id r" "[]" v x s]
      by (simp add: content_at_def materializeDocument_def visible_revisions_def)
    with Inr res new(1) commit_fails[OF ok, of owned "[WCreate r v x]"] seq none show ?thesis
      unfolding prepare_create live by (auto split: if_splits option.splits)
  qed
qed


lemma after_commit_eq: "\<not> isl (commit (\<lambda>_. False) ws m) \<Longrightarrow>
    commit (\<lambda>_. False) ws m = Inr (fst (projr (commit (\<lambda>_. False) ws m)), after_commit ws m)"
  by (cases "commit (\<lambda>_. False) ws m") (auto simp: after_commit_def)

theorem write_then_read_witness:
  "\<exists>sd. document (\<lambda>_. False) (after_commit [WChange 3 (Delta 1 [JArr [JStr ''r'', JBool True]])] note_store) 3 Current
     = Inr (Some sd) \<and> sd_value sd = JBool True \<and> sd_deltas sd = 1"
proof -
  let ?w = "[WChange 3 (Delta 1 [JArr [JStr ''r'', JBool True]])]"
  have "\<not> isl (commit (\<lambda>_. False) ?w note_store)" by code_simp
  note done_commit = after_commit_eq[OF this]
  have "content_at (\<lambda>_. False) note_store 3 Current = Inr (Some (1, JNum 1, 0))" "\<not> ms_closed note_store" by code_simp+
  then obtain sd where sd: "document (\<lambda>_. False) note_store 3 Current = Inr (Some sd)"
    "sd_version sd = 1" "sd_value sd = JNum 1" "sd_deltas sd = 0"
    by (cases "materializeDocument (\<lambda>_. False) note_store 3 Current") (auto simp: content_at_def document_def assertOpen_def)
  have "applyOps (Some (JNum 1)) [JArr [JStr ''r'', JBool True]] = Inr (Some (JBool True))" by code_simp
  with write_then_read[OF note_reachable done_commit sd(1)] sd show ?thesis
    by (auto simp: as_root_def simp del: applyOps.simps)
qed

theorem create_exact_witness:
  "commit (\<lambda>_. False) [WCreate (note_record\<lparr>dc_id := 9\<rparr>) 1 JNull] note_store = Inl AddressTaken"
proof -
  let ?r = "note_record\<lparr>dc_id := 9\<rparr>"
  have "\<exists>i. live_at note_store i (recordAddressKey ?r)"
  proof
    have "map_option (\<lambda>d. (recordAddressKey (ds_record d), dr_retired (ds_record d))) (ms_documents note_store 3)
        = Some (recordAddressKey ?r, None)" by code_simp
    then show "live_at note_store 3 (recordAddressKey ?r)" by (auto simp: live_at_def)
  qed
  moreover have "\<not> ms_closed note_store" "ms_nextSeq note_store = 2" "ms_types note_store 9 = None" by code_simp+
  ultimately show ?thesis
    using create_exact[OF note_reachable, where owned = "\<lambda>_. False" and r = ?r and v = 1 and x = JNull]
    by (cases "commit (\<lambda>_. False) [WCreate ?r 1 JNull] note_store") (auto simp: max_safe_def)
qed

end
