(* ===== verification/Durable_Scans.thy ===== *)
theory Durable_Scans
  imports Durable_Laws
begin

text \<open>
  Paged scans. A page holds the first records after its cursor, in order, and following the cursors of
  \<open>scanAll\<close> (\<open>packages/durable/src/harness/util.ts\<close>) reads every record once. A locale states what a
  page promises, and each scan of the storage interprets it.
\<close>

subsection \<open>Reading every page\<close>

text \<open>\<open>scanAll\<close>: the loop ends when a page has no cursor; a scan that always gives one never returns.\<close>

partial_function (option) scanAll :: "(cursor option \<Rightarrow> 'e + 'a page) \<Rightarrow> cursor option \<Rightarrow> ('e + 'a list) option" where
  "scanAll scan cursor =
     (case scan cursor of
        Inl e \<Rightarrow> Some (Inl e)
      | Inr p \<Rightarrow>
          (case pg_next p of
             None \<Rightarrow> Some (Inr (pg_items p))
           | Some c \<Rightarrow>
               Option.bind (scanAll scan (Some c)) (\<lambda>r. Some (and_then r (\<lambda>more. Inr (pg_items p @ more))))))"

locale paged_scan =
  fixes good :: "'s \<Rightarrow> bool"
    and valid :: "'s \<Rightarrow> cursor option \<Rightarrow> bool"
    and fetch :: "'s \<Rightarrow> cursor option \<Rightarrow> 'e + 'a page"
    and rest :: "'s \<Rightarrow> cursor option \<Rightarrow> 'a list"
  assumes valid_start: "good s \<Longrightarrow> valid s None"
    and fetch_page: "good s \<Longrightarrow> valid s c \<Longrightarrow>
        \<exists>p. fetch s c = Inr p
          \<and> rest s c = pg_items p @ (case pg_next p of None \<Rightarrow> [] | Some c' \<Rightarrow> rest s (Some c'))
          \<and> (\<forall>c'. pg_next p = Some c' \<longrightarrow> valid s (Some c') \<and> pg_items p \<noteq> [])"
begin

lemma reads_rest: "good s \<Longrightarrow> valid s c \<Longrightarrow> scanAll (fetch s) c = Some (Inr (rest s c))"
proof (induction "length (rest s c)" arbitrary: c rule: less_induct)
  case less
  from fetch_page[OF less.prems] obtain p where p: "fetch s c = Inr p"
    "rest s c = pg_items p @ (case pg_next p of None \<Rightarrow> [] | Some c' \<Rightarrow> rest s (Some c'))"
    "\<And>c'. pg_next p = Some c' \<Longrightarrow> valid s (Some c') \<and> pg_items p \<noteq> []"
    by blast
  show ?case
  proof (cases "pg_next p")
    case (Some c')
    with p have "length (rest s (Some c')) < length (rest s c)" by simp
    from less.hyps[OF this less.prems(1)] p Some show ?thesis by (subst scanAll.simps) simp
  qed (use p in \<open>subst scanAll.simps, simp\<close>)
qed

lemma reads_all: "good s \<Longrightarrow> scanAll (fetch s) None = Some (Inr (rest s None))"
  by (simp add: reads_rest valid_start)

end

subsection \<open>The records after a cursor\<close>

definition past :: "scan_order \<Rightarrow> int option \<Rightarrow> int \<Rightarrow> bool" where
  "past order after i \<longleftrightarrow>
     (case after of None \<Rightarrow> True | Some t \<Rightarrow> (case order of Ascending \<Rightarrow> t < i | Descending \<Rightarrow> i < t))"

definition in_order :: "scan_order \<Rightarrow> 'a list \<Rightarrow> 'a list" where
  "in_order order xs = (case order of Ascending \<Rightarrow> xs | Descending \<Rightarrow> List.rev xs)"

text \<open>The records of an ID list that match and come after the cursor, in the order of the scan.\<close>

definition scan_rest :: "int list \<Rightarrow> (int \<rightharpoonup> 'a) \<Rightarrow> ('a \<Rightarrow> bool) \<Rightarrow> scan_order \<Rightarrow> int option \<Rightarrow> 'a list" where
  "scan_rest ids get keep order after = filter keep (map (the \<circ> get) (filter (past order after) (in_order order ids)))"

definition first_page :: "('a \<Rightarrow> int) \<Rightarrow> nat \<Rightarrow> scan_order \<Rightarrow> 'a list \<Rightarrow> 'a page" where
  "first_page id_of limit order xs =
     \<lparr>pg_items = take limit xs,
      pg_next = (if length xs \<le> limit then None else Some (nextCursor (id_of (last (take limit xs))) order))\<rparr>"

definition listed :: "int list \<Rightarrow> (int \<rightharpoonup> 'a) \<Rightarrow> ('a \<Rightarrow> int) \<Rightarrow> bool" where
  "listed ids get id_of \<longleftrightarrow> ascending ids \<and> (\<forall>i \<in> set ids. \<exists>v. get i = Some v \<and> id_of v = i)"

lemma scan_loop_all:
  assumes "\<forall>i \<in> set is. get i \<noteq> None" "length acc \<le> Suc limit"
  shows "scan_loop limit get keep is acc
    = Inr (acc @ take (Suc limit - length acc) (filter keep (map (the \<circ> get) is)))"
  using assms
proof (induction "is" arbitrary: acc)
  case (Cons i "is")
  then obtain v where v: "get i = Some v" by auto
  show ?case
  proof (cases "length acc > limit")
    case True
    with Cons.prems(2) have "length acc = Suc limit" by simp
    then show ?thesis by simp
  next
    case False
    with Cons v have "scan_loop limit get keep is (if keep v then acc @ [v] else acc)
        = Inr ((if keep v then acc @ [v] else acc)
            @ take (Suc limit - length (if keep v then acc @ [v] else acc)) (filter keep (map (the \<circ> get) is)))"
      by (intro Cons.IH) auto
    with False v show ?thesis by (simp add: Suc_diff_le o_def)
  qed
qed simp

lemma map_nth_take: "n \<le> length xs \<Longrightarrow> map ((!) xs) [0..<n] = take n xs"
  by (rule nth_equalityI) auto

lemma map_nth_drop: "map ((!) xs) [n..<length xs] = drop n xs"
  by (rule nth_equalityI) auto

lemma scanIndexes_past:
  assumes "ascending ids"
  shows "map (\<lambda>k. ids ! k) (scanIndexes ids start) = filter (past (st_order start) (st_after start)) (in_order (st_order start) ids)"
proof -
  have up: "(\<lambda>i. t + 1 \<le> i) = (\<lambda>i. t < i)" for t :: int by auto
  show ?thesis
  proof (cases "st_order start")
    case Ascending
    then show ?thesis
      by (cases "st_after start")
        (auto simp: scanIndexes_def past_def[abs_def] in_order_def map_nth_drop map_nth_take idUpperBound_lower
          take_lower[OF assms] up map_nth)
  next
    case Descending
    then show ?thesis
      using idLowerBound_props(1)[OF assms]
      by (cases "st_after start")
        (auto simp: scanIndexes_def past_def[abs_def] in_order_def rev_map[symmetric] map_nth_take rev_filter[symmetric]
          take_lower[OF assms] map_nth)
  qed
qed

lemma scan_ids_page:
  assumes "listed ids get id_of"
  shows "scan_ids ids get keep id_of limit start =
    (let xs = scan_rest ids get keep (st_order start) (st_after start)
     in if limit < length xs \<and> limit = 0 then Inl UndefinedRead else Inr (first_page id_of limit (st_order start) xs))"
proof -
  let ?is = "filter (past (st_order start) (st_after start)) (in_order (st_order start) ids)"
  let ?xs = "scan_rest ids get keep (st_order start) (st_after start)"
  have "\<forall>i \<in> set ?is. get i \<noteq> None"
    using assms by (auto simp: listed_def in_order_def split: scan_order.splits)
  from scan_loop_all[OF this, of "[]" limit keep]
  have "scan_loop limit get keep (map (\<lambda>k. ids ! k) (scanIndexes ids start)) [] = Inr (take (Suc limit) ?xs)"
    using assms by (simp add: listed_def scanIndexes_past scan_rest_def)
  then show ?thesis
    by (auto simp: scan_ids_def page_def first_page_def Let_def min_def not_le)
qed

subsection \<open>What remains after a page\<close>

lemma filter_after:
  assumes "sorted_wrt R xs" "\<And>x y. R x y \<Longrightarrow> \<not> R y x" "0 < n" "n \<le> length xs"
  shows "filter (R (last (take n xs))) xs = drop n xs"
proof -
  let ?y = "last (take n xs)"
  have ne: "take n xs \<noteq> []" using assms(3,4) by auto
  have sorted: "sorted_wrt R (take n xs @ drop n xs)" using assms(1) by simp
  have split: "take n xs = butlast (take n xs) @ [?y]" using ne by simp
  have behind: "\<not> R ?y x" if "x \<in> set (take n xs)" for x
  proof (cases "x = ?y")
    case True
    with assms(2) show ?thesis by blast
  next
    case False
    with that split have "x \<in> set (butlast (take n xs))"
      by (metis Un_iff empty_iff insert_iff list.set set_append)
    moreover have "sorted_wrt R (butlast (take n xs) @ [?y])" using sorted split by (metis sorted_wrt_append)
    ultimately have "R x ?y" by (simp add: sorted_wrt_append)
    with assms(2) show ?thesis by blast
  qed
  have front: "R ?y x" if "x \<in> set (drop n xs)" for x
  proof -
    have "?y \<in> set (take n xs)" using ne by simp
    with sorted that show ?thesis unfolding sorted_wrt_append by blast
  qed
  have "filter (R ?y) (take n xs) = []" using behind by (simp add: filter_empty_conv)
  moreover have "filter (R ?y) (drop n xs) = drop n xs" using front by (simp add: filter_id_conv)
  ultimately show ?thesis using filter_append[of "R ?y" "take n xs" "drop n xs"] by simp
qed

lemma scan_rest_sorted:
  assumes "listed ids get id_of"
  shows "sorted_wrt (\<lambda>x y. past order (Some (id_of x)) (id_of y)) (scan_rest ids get keep order after)"
proof -
  have asc: "ascending ids" and eq: "\<And>i. i \<in> set ids \<Longrightarrow> id_of (the (get i)) = i"
    using assms by (auto simp: listed_def)
  have "sorted_wrt (\<lambda>i j. past order (Some i) j) (in_order order ids)"
    using asc by (cases order) (simp_all add: in_order_def past_def[abs_def] sorted_wrt_rev)
  then have "sorted_wrt (\<lambda>i j. past order (Some i) j) (filter (past order after) (in_order order ids))"
    by (rule sorted_wrt_filter)
  moreover have "set (in_order order ids) = set ids" by (cases order) (auto simp: in_order_def)
  ultimately show ?thesis
    unfolding scan_rest_def using eq
    by (intro sorted_wrt_filter, subst sorted_wrt_map)
      (auto elim!: sorted_wrt_mono_rel[rotated])
qed


subsection \<open>Cursors that a scan gives\<close>

definition wanted_order :: "json option \<Rightarrow> scan_order \<Rightarrow> scan_order" where
  "wanted_order requested fallback = (case Option.bind requested order_of of None \<Rightarrow> fallback | Some order \<Rightarrow> order)"

definition order_given :: "json option \<Rightarrow> bool" where
  "order_given requested \<longleftrightarrow> (case requested of None \<Rightarrow> True | Some v \<Rightarrow> order_of v \<noteq> None)"

definition cursor_after :: "cursor option \<Rightarrow> int option" where
  "cursor_after c = Option.bind c (\<lambda>c. Option.bind (map_of c ''after'') safe_number)"

lemma order_json_of [simp]: "order_of (order_json order) = Some order"
  by (cases order) (simp_all add: order_of_def order_json_def)

lemma safe_number_int: "\<bar>i\<bar> \<le> max_safe \<Longrightarrow> js_is_safe_integer (rat_of_int i)"
  by (simp add: js_is_safe_integer_def js_is_integer_def of_int_abs[symmetric] del: of_int_abs)

lemma next_cursor_fields [simp]:
  "map_of (nextCursor i order) ''after'' = Some (JNum (of_int i))"
  "map_of (nextCursor i order) ''order'' = Some (order_json order)"
  by (simp_all add: nextCursor_def)

lemma start_first: "order_given requested \<Longrightarrow>
    scanStart requested None fallback = Inr \<lparr>st_order = wanted_order requested fallback, st_after = None\<rparr>"
  by (auto simp: scanStart_def wanted_order_def order_given_def split: option.splits)

lemma start_next:
  assumes "order_given requested" "\<bar>i\<bar> \<le> max_safe"
  shows "scanStart requested (Some (nextCursor i (wanted_order requested fallback))) fallback
    = Inr \<lparr>st_order = wanted_order requested fallback, st_after = Some i\<rparr>"
  using assms
  by (cases requested) (auto simp: scanStart_def wanted_order_def order_given_def safe_number_int split: option.splits)

text \<open>A scan: the ID list, the table, the filter, the key, the limit, the order asked for and
  the default order.\<close>

record 'a scan_spec =
  sc_ids :: "int list"
  sc_get :: "int \<rightharpoonup> 'a"
  sc_keep :: "'a \<Rightarrow> bool"
  sc_key :: "'a \<Rightarrow> int"
  sc_limit :: nat
  sc_requested :: "json option"
  sc_fallback :: scan_order

definition scan_good :: "'a scan_spec \<Rightarrow> bool" where
  "scan_good s \<longleftrightarrow>
     listed (sc_ids s) (sc_get s) (sc_key s) \<and> order_given (sc_requested s) \<and> 0 < sc_limit s
     \<and> list_all (\<lambda>i. \<bar>i\<bar> \<le> max_safe) (sc_ids s)"

definition scan_valid :: "'a scan_spec \<Rightarrow> cursor option \<Rightarrow> bool" where
  "scan_valid s c \<longleftrightarrow>
     c = None \<or> (\<exists>i. \<bar>i\<bar> \<le> max_safe \<and> c = Some (nextCursor i (wanted_order (sc_requested s) (sc_fallback s))))"

definition scan_fetch :: "'a scan_spec \<Rightarrow> cursor option \<Rightarrow> store_error + 'a page" where
  "scan_fetch s c =
     and_then (scanStart (sc_requested s) c (sc_fallback s))
       (scan_ids (sc_ids s) (sc_get s) (sc_keep s) (sc_key s) (sc_limit s))"

definition scan_left :: "'a scan_spec \<Rightarrow> cursor option \<Rightarrow> 'a list" where
  "scan_left s c = scan_rest (sc_ids s) (sc_get s) (sc_keep s) (wanted_order (sc_requested s) (sc_fallback s)) (cursor_after c)"

lemma scan_fetch_first:
  assumes "scan_good s" "scan_valid s c"
  shows "scan_fetch s c = Inr (first_page (sc_key s) (sc_limit s) (wanted_order (sc_requested s) (sc_fallback s)) (scan_left s c))"
proof -
  have "scanStart (sc_requested s) c (sc_fallback s)
      = Inr \<lparr>st_order = wanted_order (sc_requested s) (sc_fallback s), st_after = cursor_after c\<rparr>"
    using assms start_first start_next
    by (auto simp: scan_good_def scan_valid_def cursor_after_def safe_number_int)
  with assms scan_ids_page[where ids = "sc_ids s" and get = "sc_get s" and id_of = "sc_key s"] show ?thesis
    by (simp add: scan_fetch_def scan_left_def scan_good_def Let_def)
qed

lemma scan_left_next:
  assumes "scan_good s" "scan_valid s c" "sc_limit s < length (scan_left s c)"
  shows "scan_left s (Some (nextCursor (sc_key s (last (take (sc_limit s) (scan_left s c)))) (wanted_order (sc_requested s) (sc_fallback s))))
      = drop (sc_limit s) (scan_left s c)"
    and "\<bar>sc_key s (last (take (sc_limit s) (scan_left s c)))\<bar> \<le> max_safe"
proof -
  let ?L = "scan_left s c" and ?O = "wanted_order (sc_requested s) (sc_fallback s)" and ?key = "sc_key s"
  let ?j = "?key (last (take (sc_limit s) ?L))"
  have listed: "listed (sc_ids s) (sc_get s) ?key" and pos: "0 < sc_limit s" using assms(1) by (auto simp: scan_good_def)
  then have "take (sc_limit s) ?L \<noteq> []" using assms(3) by auto
  then have "last (take (sc_limit s) ?L) \<in> set ?L" using in_set_takeD last_in_set by metis
  then obtain i where i: "i \<in> set (sc_ids s)" "past ?O (cursor_after c) i" "last (take (sc_limit s) ?L) = the (sc_get s i)"
    by (auto simp: scan_left_def scan_rest_def in_order_def split: scan_order.splits)
  with listed have j: "?j = i" by (auto simp: listed_def)
  with i(1) assms(1) show safe: "\<bar>?j\<bar> \<le> max_safe" by (auto simp: scan_good_def list_all_iff)
  have beyond: "past ?O (cursor_after c) k \<and> past ?O (Some i) k \<longleftrightarrow> past ?O (Some i) k" for k
    using i(2) by (auto simp: past_def split: option.splits scan_order.splits)
  have "scan_left s (Some (nextCursor ?j ?O)) = scan_rest (sc_ids s) (sc_get s) (sc_keep s) ?O (Some i)"
    using safe j by (simp add: scan_left_def cursor_after_def safe_number_int)
  also have "\<dots> = filter (\<lambda>v. past ?O (Some i) (?key v)) ?L"
  proof -
    have "filter (\<lambda>v. past ?O (Some i) (?key v)) (map (the \<circ> sc_get s) ks) = map (the \<circ> sc_get s) (filter (past ?O (Some i)) ks)"
      if "set ks \<subseteq> set (sc_ids s)" for ks
      using that listed by (induction ks) (auto simp: listed_def)
    moreover have "set (filter (past ?O (cursor_after c)) (in_order ?O (sc_ids s))) \<subseteq> set (sc_ids s)"
      by (auto simp: in_order_def split: scan_order.splits)
    moreover have "filter (past ?O (Some i)) (filter (past ?O (cursor_after c)) (in_order ?O (sc_ids s)))
        = filter (past ?O (Some i)) (in_order ?O (sc_ids s))"
      by (simp add: beyond)
    ultimately show ?thesis
      unfolding scan_left_def scan_rest_def by (subst filter_filter, subst conj_commute, subst filter_filter[symmetric]) simp
  qed
  also have "\<dots> = drop (sc_limit s) ?L"
  proof -
    have sorted: "sorted_wrt (\<lambda>x y. past ?O (Some (?key x)) (?key y)) ?L"
      unfolding scan_left_def by (rule scan_rest_sorted[OF listed])
    have asym: "past ?O (Some (?key x)) (?key y) \<Longrightarrow> \<not> past ?O (Some (?key y)) (?key x)" for x y
      by (auto simp: past_def split: scan_order.splits)
    from filter_after[OF sorted asym pos] assms(3)
    have "filter (\<lambda>v. past ?O (Some ?j) (?key v)) ?L = drop (sc_limit s) ?L" by simp
    then show ?thesis unfolding j .
  qed
  finally show "scan_left s (Some (nextCursor ?j ?O)) = drop (sc_limit s) ?L" .
qed

interpretation scans: paged_scan scan_good scan_valid scan_fetch scan_left
proof unfold_locales
  fix s :: "'a scan_spec" and c
  assume good: "scan_good s" and valid: "scan_valid s c"
  let ?p = "first_page (sc_key s) (sc_limit s) (wanted_order (sc_requested s) (sc_fallback s)) (scan_left s c)"
  have "scan_left s c = pg_items ?p @ (case pg_next ?p of None \<Rightarrow> [] | Some c' \<Rightarrow> scan_left s (Some c'))"
    using scan_left_next(1)[OF good valid] by (auto simp: first_page_def)
  moreover have "scan_valid s (Some c') \<and> pg_items ?p \<noteq> []" if "pg_next ?p = Some c'" for c'
    using that scan_left_next(2)[OF good valid] good
    by (auto simp: first_page_def scan_valid_def scan_good_def split: if_splits)
  ultimately show "\<exists>p. scan_fetch s c = Inr p
      \<and> scan_left s c = pg_items p @ (case pg_next p of None \<Rightarrow> [] | Some c' \<Rightarrow> scan_left s (Some c'))
      \<and> (\<forall>c'. pg_next p = Some c' \<longrightarrow> scan_valid s (Some c') \<and> pg_items p \<noteq> [])"
    using scan_fetch_first[OF good valid] by blast
qed (simp add: scan_valid_def)


subsection \<open>The scans of the storage\<close>

lemma scan_left_all:
  assumes "listed (sc_ids s) (sc_get s) (sc_key s)"
    and "set (sc_ids s) = {i. \<exists>v. sc_get s i = Some v \<and> sel v}"
  shows "scan_left s None = map (the \<circ> sc_get s)
    (in_order (wanted_order (sc_requested s) (sc_fallback s)) (sorted_list_of_set {i. \<exists>v. sc_get s i = Some v \<and> sel v \<and> sc_keep s v}))"
proof -
  let ?keep = "sc_keep s \<circ> (the \<circ> sc_get s)" and ?O = "wanted_order (sc_requested s) (sc_fallback s)"
  have "lists_ids (filter ?keep (sc_ids s)) {i. \<exists>v. sc_get s i = Some v \<and> sel v \<and> sc_keep s v}"
    using assms by (auto simp: lists_ids_def listed_def ascending_filter)
  note eq = lists_sorted[OF this]
  have "scan_left s None = map (the \<circ> sc_get s) (filter ?keep (in_order ?O (sc_ids s)))"
    by (simp add: scan_left_def scan_rest_def cursor_after_def past_def[abs_def] filter_map)
  also have "filter ?keep (in_order ?O (sc_ids s)) = in_order ?O (filter ?keep (sc_ids s))"
    by (cases ?O) (simp_all add: in_order_def rev_filter)
  finally show ?thesis unfolding eq .
qed

definition task_scan :: "store \<Rightarrow> task_query \<Rightarrow> nat \<Rightarrow> task scan_spec" where
  "task_scan m q limit = \<lparr>sc_ids = task_ids m q, sc_get = ms_tasks m, sc_keep = task_matches q, sc_key = tk_id,
     sc_limit = limit, sc_requested = tq_order q, sc_fallback = Ascending\<rparr>"

definition submission_scan :: "store \<Rightarrow> submission_query \<Rightarrow> nat \<Rightarrow> submission scan_spec" where
  "submission_scan m q limit = \<lparr>sc_ids = submission_ids m q, sc_get = ms_submissions m, sc_keep = submission_matches q,
     sc_key = sb_id, sc_limit = limit, sc_requested = sq_order q, sc_fallback = Ascending\<rparr>"

definition conversation_scan :: "store \<Rightarrow> conversation_query \<Rightarrow> nat \<Rightarrow> conversation scan_spec" where
  "conversation_scan m q limit = \<lparr>sc_ids = conversation_ids m q, sc_get = ms_conversations m, sc_keep = owner_matches q,
     sc_key = cv_id, sc_limit = limit, sc_requested = cq_order q, sc_fallback = Ascending\<rparr>"

lemma scans_are_fetches:
  assumes "\<not> ms_closed m"
  shows "scanTasks m q limit = scan_fetch (task_scan m q limit)"
    "scanSubmissions m q' limit = scan_fetch (submission_scan m q' limit)"
    "scanConversations m q'' limit = scan_fetch (conversation_scan m q'' limit)"
  using assms
  by (auto simp: fun_eq_iff scanTasks_def scanSubmissions_def scanConversations_def assertOpen_def scan_fetch_def
      task_scan_def submission_scan_def conversation_scan_def)

definition safe_ids :: "store \<Rightarrow> bool" where
  "safe_ids m \<longleftrightarrow> (\<forall>i. ms_types m i \<noteq> None \<longrightarrow> \<bar>i\<bar> \<le> max_safe)"

lemma keyed_set: "lists_ids ids {i. keyed f table i = Some k} \<Longrightarrow> ascending ids \<and> set ids = {i. \<exists>v. table i = Some v \<and> f v = Some k}"
  by (auto simp: lists_ids_def keyed_def bind_eq_Some_conv)

lemma task_ids_listed:
  assumes "store_ok m"
  shows "listed (task_ids m q) (ms_tasks m) tk_id
    \<and> set (task_ids m q) = {i. \<exists>v. ms_tasks m i = Some v \<and> wants (tq_status q) (tk_status v)}"
proof -
  from assms have ok: "tasks_ok m" by (simp add: store_ok_def tables_ok_def)
  show ?thesis
  proof (cases "tq_status q")
    case (Some s)
    from ok have "lists_ids (ms_taskIdsByStatus m s) {i. keyed (Some \<circ> tk_status) (ms_tasks m) i = Some s}"
      by (auto simp: tasks_ok_def ids.indexes_def)
    from keyed_set[OF this] ok Some show ?thesis by (auto simp: listed_def task_ids_def wants_def tasks_ok_def)
  qed (use ok in \<open>auto simp: listed_def task_ids_def wants_def tasks_ok_def lists_ids_def\<close>)
qed

lemma submission_ids_listed:
  assumes "store_ok m"
  shows "listed (submission_ids m q) (ms_submissions m) sb_id
    \<and> set (submission_ids m q) = {i. \<exists>v. ms_submissions m i = Some v \<and> wants (sq_status q) (sb_status v)}"
proof -
  from assms have ok: "submissions_ok m" by (simp add: store_ok_def tables_ok_def)
  show ?thesis
  proof (cases "sq_status q")
    case (Some s)
    from ok have "lists_ids (ms_submissionIdsByStatus m s) {i. keyed (Some \<circ> sb_status) (ms_submissions m) i = Some s}"
      by (auto simp: submissions_ok_def ids.indexes_def)
    from keyed_set[OF this] ok Some show ?thesis
      by (auto simp: listed_def submission_ids_def wants_def submissions_ok_def)
  qed (use ok in \<open>auto simp: listed_def submission_ids_def wants_def submissions_ok_def lists_ids_def\<close>)
qed

definition owner_selects :: "conversation_query \<Rightarrow> conversation \<Rightarrow> bool" where
  "owner_selects q v \<longleftrightarrow>
     (case cq_ownerTask q of Some t \<Rightarrow> map_option snd (cv_owner v) = Some t | None \<Rightarrow> owner_matches q v)"

lemma conversation_ids_listed:
  assumes "store_ok m"
  shows "listed (conversation_ids m q) (ms_conversations m) cv_id
    \<and> set (conversation_ids m q) = {i. \<exists>v. ms_conversations m i = Some v \<and> owner_selects q v}"
proof -
  from assms have ok: "conversations_ok m" by (simp add: store_ok_def tables_ok_def)
  then have by_task: "lists_ids (ids_at (ms_byOwnerTask m) t) {i. keyed (owned_by snd) (ms_conversations m) i = Some t}"
    and by_conv: "lists_ids (ids_at (ms_byOwnerConversation m) c) {i. keyed (owned_by fst) (ms_conversations m) i = Some c}" for t c
    by (auto simp: conversations_ok_def ids.indexes_def)
  show ?thesis
  proof (cases "cq_ownerTask q")
    case (Some t)
    with keyed_set[OF by_task[of t]] ok show ?thesis
      by (auto simp: listed_def conversation_ids_def owner_selects_def conversations_ok_def owned_by_def)
  next
    case None
    show ?thesis
    proof (cases "cq_ownerConversation q")
      case (Some c)
      with None keyed_set[OF by_conv[of c]] ok show ?thesis
        by (auto simp: listed_def conversation_ids_def owner_selects_def owner_matches_def conversations_ok_def owned_by_def)
    qed (use None ok in \<open>auto simp: listed_def conversation_ids_def owner_selects_def owner_matches_def
        conversations_ok_def lists_ids_def\<close>)
  qed
qed


lemma typed_record:
  assumes "store_ok m"
  shows "ms_tasks m i = Some t \<Longrightarrow> ms_types m i \<noteq> None" "ms_submissions m i = Some s \<Longrightarrow> ms_types m i \<noteq> None"
    "ms_conversations m i = Some c \<Longrightarrow> ms_types m i \<noteq> None"
proof -
  from assms have "types_ok m" by (simp add: store_ok_def tables_ok_def)
  from types_ok_at[OF this, of i]
  show "ms_tasks m i = Some t \<Longrightarrow> ms_types m i \<noteq> None" "ms_submissions m i = Some s \<Longrightarrow> ms_types m i \<noteq> None"
    "ms_conversations m i = Some c \<Longrightarrow> ms_types m i \<noteq> None"
    by auto
qed

lemma scans_good:
  assumes "store_ok m" "safe_ids m" "0 < limit"
  shows "order_given (tq_order q) \<Longrightarrow> scan_good (task_scan m q limit)"
    "order_given (sq_order q') \<Longrightarrow> scan_good (submission_scan m q' limit)"
    "order_given (cq_order q'') \<Longrightarrow> scan_good (conversation_scan m q'' limit)"
  using task_ids_listed[OF assms(1), of q] submission_ids_listed[OF assms(1), of q']
    conversation_ids_listed[OF assms(1), of q''] typed_record[OF assms(1)] assms(2,3)
  by (auto simp: scan_good_def task_scan_def submission_scan_def conversation_scan_def safe_ids_def list_all_iff)

text \<open>C30: Following the cursors of a paged scan with any positive limit ends, and returns each task,
  submission or conversation that the query selects exactly once, in the order asked for: the status and
  owner indexes, the binary search for the cursor, the filter and the cut of a page together lose and
  repeat nothing.\<close>

theorem scans_read_everything:
  assumes "store_step\<^sup>*\<^sup>* new_store m" "\<not> ms_closed m" "safe_ids m" "0 < limit"
    and "order_given (tq_order q)" "order_given (sq_order q')" "order_given (cq_order q'')"
  shows "scanAll (scanTasks m q limit) None =
      Some (Inr (map (the \<circ> ms_tasks m) (in_order (wanted_order (tq_order q) Ascending)
        (sorted_list_of_set {i. \<exists>v. ms_tasks m i = Some v \<and> wants (tq_status q) (tk_status v) \<and> task_matches q v}))))
    \<and> scanAll (scanSubmissions m q' limit) None =
      Some (Inr (map (the \<circ> ms_submissions m) (in_order (wanted_order (sq_order q') Ascending)
        (sorted_list_of_set {i. \<exists>v. ms_submissions m i = Some v \<and> wants (sq_status q') (sb_status v) \<and> submission_matches q' v}))))
    \<and> scanAll (scanConversations m q'' limit) None =
      Some (Inr (map (the \<circ> ms_conversations m) (in_order (wanted_order (cq_order q'') Ascending)
        (sorted_list_of_set {i. \<exists>v. ms_conversations m i = Some v \<and> owner_selects q'' v \<and> owner_matches q'' v}))))"
proof -
  have ok: "store_ok m" using assms(1) by (rule reachable_ok)
  note fetch = scans_are_fetches(1)[OF assms(2), where q = q] scans_are_fetches(2)[OF assms(2), where q' = q']
    scans_are_fetches(3)[OF assms(2), where q'' = q'']
  note good = scans_good(1)[OF ok assms(3,4,5)] scans_good(2)[OF ok assms(3,4,6)] scans_good(3)[OF ok assms(3,4,7)]
  note all = scan_left_all[of "task_scan m q limit" "\<lambda>v. wants (tq_status q) (tk_status v)"]
    scan_left_all[of "submission_scan m q' limit" "\<lambda>v. wants (sq_status q') (sb_status v)"]
    scan_left_all[of "conversation_scan m q'' limit" "owner_selects q''"]
  show ?thesis
    unfolding fetch scans.reads_all[OF good(1)] scans.reads_all[OF good(2)] scans.reads_all[OF good(3)]
    using all task_ids_listed[OF ok, of q] submission_ids_listed[OF ok, of q'] conversation_ids_listed[OF ok, of q'']
    by (simp add: task_scan_def submission_scan_def conversation_scan_def)
qed

text \<open>Three conversations, two of them owned by one task.\<close>

definition owned_conversation :: "int \<Rightarrow> int option \<Rightarrow> storage_write" where
  "owned_conversation i t = WConversation \<lparr>cv_id = i, cv_parent = None, cv_owner = map_option (Pair 2) t\<rparr>"

definition three_store :: store where
  "three_store = after_commit [owned_conversation 2 None, owned_conversation 5 (Some 3), owned_conversation 4 (Some 3)] new_store"

lemma three_store_fields:
  "ms_types three_store = [2 \<mapsto> ConversationTable, 5 \<mapsto> ConversationTable, 4 \<mapsto> ConversationTable]"
  "ms_conversations three_store =
     [2 \<mapsto> \<lparr>cv_id = 2, cv_parent = None, cv_owner = None\<rparr>, 5 \<mapsto> \<lparr>cv_id = 5, cv_parent = None, cv_owner = Some (2, 3)\<rparr>,
      4 \<mapsto> \<lparr>cv_id = 4, cv_parent = None, cv_owner = Some (2, 3)\<rparr>]"
  by (simp_all add: three_store_def after_commit_def commit_def prepareCommit_def assertOpen_def new_store_def
      resolveDocumentCopies_def owned_conversation_def max_safe_def fails_if_def checkDocumentActions_def
      apply_prepared_def applyPreparedCommit_def applyDocumentActions_def written_once_def store_simps)

lemma three_store_open: "\<not> ms_closed three_store"
  by code_simp

theorem scans_read_everything_witness:
  "\<exists>vs. scanAll (scanConversations three_store \<lparr>cq_ownerConversation = None, cq_ownerTask = Some 3, cq_order = None\<rparr> 1) None
     = Some (Inr vs) \<and> map cv_id vs = [4, 5]"
proof -
  let ?q = "\<lparr>cq_ownerConversation = None, cq_ownerTask = Some 3, cq_order = None\<rparr>"
  have reach: "store_step\<^sup>*\<^sup>* new_store three_store" unfolding three_store_def by (rule after_commit_step)
  have "safe_ids three_store" by (auto simp: safe_ids_def three_store_fields max_safe_def split: if_splits)
  note all = scans_read_everything[where limit = 1 and q'' = ?q, OF reach three_store_open this,
      where q = "\<lparr>tq_conversation = None, tq_kind = None, tq_status = None, tq_abort = None, tq_background = None, tq_order = None\<rparr>"
        and q' = "\<lparr>sq_conversation = None, sq_status = None, sq_order = None\<rparr>"]
  have "{i. \<exists>v. ms_conversations three_store i = Some v \<and> owner_selects ?q v \<and> owner_matches ?q v} = {4, 5}"
    by (auto simp: three_store_fields owner_selects_def owner_matches_def split: if_splits)
  with all show ?thesis
    by (simp add: order_given_def wanted_order_def in_order_def three_store_fields)
qed

end
