(* ===== verification/Durable_Entries.thy ===== *)
theory Durable_Entries
  imports Durable_Scans
begin

text \<open>
  The entries a conversation sees. The reference is an inductive predicate: a conversation sees its own
  entries up to a bound, and through its parent those up to the entry it was forked at. The walks of
  the storage go segment by segment through the chain of forks; when parents are older than their
  forks they end, and list exactly the visible entries in ID order, whichever way they go.
\<close>

subsection \<open>The reference\<close>

inductive visible :: "store \<Rightarrow> int \<Rightarrow> int option \<Rightarrow> int \<Rightarrow> bool" for m where
  own: "ms_entries m i = Some e \<Longrightarrow> en_conversation e = c \<Longrightarrow> \<not> above i hi \<Longrightarrow> visible m c hi i"
| inherited: "ms_conversations m c = Some v \<Longrightarrow> cv_parent v = Some (pc, pt)
    \<Longrightarrow> visible m pc (Some (min_bound hi pt)) i \<Longrightarrow> visible m c hi i"

inductive_simps visible_simps: "visible m c hi i"

text \<open>A fork has an older parent that exists, and its own entries come after the entry it was forked at.\<close>

definition fork_ok :: "store \<Rightarrow> int \<Rightarrow> int \<times> int \<Rightarrow> bool" where
  "fork_ok m c parent \<longleftrightarrow>
     fst parent < c \<and> ms_conversations m (fst parent) \<noteq> None
     \<and> list_all (\<lambda>i. snd parent < i) (ids_at (ms_entryIds m) c)"

definition forks_ok :: "store \<Rightarrow> bool" where
  "forks_ok m \<longleftrightarrow>
     list_all (\<lambda>c. case Option.bind (ms_conversations m c) cv_parent of None \<Rightarrow> True | Some p \<Rightarrow> fork_ok m c p)
       (ms_conversationIds m)"

lemma visible_entry: "visible m c hi i \<Longrightarrow> ms_entries m i \<noteq> None \<and> \<not> above i hi"
proof (induction rule: visible.induct)
  case (inherited c v pc pt hi i)
  then show ?case by (auto simp: above_def min_bound_def split: option.splits)
qed simp

lemma visible_narrow: "visible m c hi i \<Longrightarrow> \<not> above i hi' \<Longrightarrow> visible m c hi' i"
proof (induction arbitrary: hi' rule: visible.induct)
  case (inherited c v pc pt hi i)
  have "\<not> above i (Some (min_bound hi' pt))"
    using inherited.prems visible_entry[OF inherited.hyps(3)] by (auto simp: above_def min_bound_def split: option.splits)
  from visible.inherited[OF inherited.hyps(1,2) inherited.IH[OF this]] show ?case .
qed (rule visible.own)

lemma above_min: "above i (Some (min_bound hi pt)) \<longleftrightarrow> above i hi \<or> pt < i"
  by (auto simp: above_def min_bound_def split: option.splits)

subsection \<open>Segments\<close>

definition bounded :: "int option \<Rightarrow> int option \<Rightarrow> int \<Rightarrow> bool" where
  "bounded lo hi i \<longleftrightarrow> \<not> below i lo \<and> \<not> above i hi"

lemma filter_takeWhile:
  assumes "sorted_wrt (\<lambda>x y. P y \<longrightarrow> P x) xs"
  shows "takeWhile P xs = filter P xs"
  using assms
proof (induction xs)
  case (Cons x xs)
  then show ?case by (cases "P x") (auto simp: filter_empty_conv)
qed simp

lemma upper_index_take:
  "ascending ids \<Longrightarrow> take (upper_index ids hi) ids = filter (\<lambda>i. \<not> above i hi) ids"
  by (cases hi) (auto simp: upper_index_def above_def idUpperBound_lower take_lower not_less zle_add1_eq_le intro!: filter_cong)

lemma lower_index_drop:
  "ascending ids \<Longrightarrow> drop (lower_index ids lo) ids = filter (\<lambda>i. \<not> below i lo) ids"
  by (cases lo) (auto simp: lower_index_def below_def take_lower not_less intro!: filter_cong)

lemma segments_bounded:
  assumes "ascending (ids_at (ms_entryIds m) c)"
  shows "segment_asc m c lo hi = filter (bounded lo hi) (ids_at (ms_entryIds m) c)"
    "segment_desc m c lo hi = List.rev (filter (bounded lo hi) (ids_at (ms_entryIds m) c))"
proof -
  let ?ids = "ids_at (ms_entryIds m) c"
  have up: "sorted_wrt (\<lambda>x y. \<not> above y hi \<longrightarrow> \<not> above x hi) (filter (\<lambda>i. \<not> below i lo) ?ids)"
    using ascending_filter[OF assms] by (rule sorted_wrt_mono_rel[rotated]) (auto simp: above_def split: option.splits)
  have down: "sorted_wrt (\<lambda>x y. \<not> below y lo \<longrightarrow> \<not> below x lo) (List.rev (filter (\<lambda>i. \<not> above i hi) ?ids))"
    unfolding sorted_wrt_rev using ascending_filter[OF assms]
    by (rule sorted_wrt_mono_rel[rotated]) (auto simp: below_def split: option.splits)
  show "segment_asc m c lo hi = filter (bounded lo hi) ?ids"
    by (simp add: segment_asc_def Let_def lower_index_drop[OF assms] filter_takeWhile[OF up] bounded_def[abs_def] conj_commute)
  show "segment_desc m c lo hi = List.rev (filter (bounded lo hi) ?ids)"
    by (simp add: segment_desc_def Let_def upper_index_take[OF assms] filter_takeWhile[OF down] bounded_def[abs_def]
        rev_filter[symmetric] conj_commute)
qed

lemma lists_append:
  assumes "lists_ids xs A" "lists_ids ys B" "\<And>a b. a \<in> A \<Longrightarrow> b \<in> B \<Longrightarrow> a < b"
  shows "lists_ids (xs @ ys) (A \<union> B)"
  using assms by (auto simp: lists_ids_def sorted_wrt_append)

lemma entry_ids_of:
  assumes "store_ok m"
  shows "ascending (ids_at (ms_entryIds m) c)"
    "i \<in> set (ids_at (ms_entryIds m) c) \<longleftrightarrow> (\<exists>e. ms_entries m i = Some e \<and> en_conversation e = c)"
proof -
  from assms have "lists_ids (ids_at (ms_entryIds m) c) {i. keyed (Some \<circ> en_conversation) (ms_entries m) i = Some c}"
    by (auto simp: store_ok_def tables_ok_def entries_ok_def ids.indexes_def)
  from keyed_set[OF this] show "ascending (ids_at (ms_entryIds m) c)"
    "i \<in> set (ids_at (ms_entryIds m) c) \<longleftrightarrow> (\<exists>e. ms_entries m i = Some e \<and> en_conversation e = c)"
    by auto
qed

lemma each_read:
  assumes "\<forall>i \<in> set is. ms_entries m i \<noteq> None"
  shows "each (read_entry m) is = Inr (map (the \<circ> ms_entries m) is)"
  using assms by (induction "is") (auto simp: read_entry_def)

lemma forkD:
  assumes "store_ok m" "forks_ok m" "ms_conversations m c = Some v" "cv_parent v = Some (pc, pt)"
  shows "pc < c" "ms_conversations m pc \<noteq> None"
    "ms_entries m i = Some e \<Longrightarrow> en_conversation e = c \<Longrightarrow> pt < i"
proof -
  from assms(1) have "set (ms_conversationIds m) = dom (ms_conversations m)"
    by (auto simp: store_ok_def tables_ok_def conversations_ok_def lists_ids_def)
  with assms(3) have "c \<in> set (ms_conversationIds m)" by auto
  with assms(2-4) have ok: "fork_ok m c (pc, pt)" by (auto simp: forks_ok_def list_all_iff)
  then show "pc < c" "ms_conversations m pc \<noteq> None" by (auto simp: fork_ok_def)
  show "ms_entries m i = Some e \<Longrightarrow> en_conversation e = c \<Longrightarrow> pt < i"
    using ok entry_ids_of(2)[OF assms(1), of i c] by (auto simp: fork_ok_def list_all_iff)
qed

text \<open>Induction along the chain of forks: the number of older conversations goes down.\<close>

lemma fork_induct [consumes 3, case_names fork]:
  assumes "store_ok m" "forks_ok m" "ms_conversations m c = Some v"
    and "\<And>c v hi. ms_conversations m c = Some v
      \<Longrightarrow> (\<And>pc pt u. cv_parent v = Some (pc, pt) \<Longrightarrow> ms_conversations m pc = Some u \<Longrightarrow> P pc (Some (min_bound hi pt)))
      \<Longrightarrow> P c hi"
  shows "P c hi"
proof -
  have "set (ms_conversationIds m) = dom (ms_conversations m)"
    using assms(1) by (simp add: store_ok_def tables_ok_def conversations_ok_def lists_ids_def)
  then have "finite (dom (ms_conversations m))" by (metis List.finite_set)
  then have fin: "finite {j. j < c \<and> j \<in> dom (ms_conversations m)}" for c by auto
  define P' where "P' = (\<lambda>c. \<forall>hi. P c hi)"
  have "P' c"
    using assms(3)
  proof (induction "card {j. j < c \<and> j \<in> dom (ms_conversations m)}" arbitrary: c v rule: less_induct)
    case less
    have older: "P' pc" if p: "cv_parent v = Some (pc, pt)" "ms_conversations m pc = Some u" for pc pt u
    proof -
      from forkD(1)[OF assms(1,2) less.prems p(1)] have "pc < c" .
      then have "{j. j < pc \<and> j \<in> dom (ms_conversations m)} \<subset> {j. j < c \<and> j \<in> dom (ms_conversations m)}"
        using p(2) by auto
      from less.hyps[OF psubset_card_mono[OF fin this] p(2)] show ?thesis .
    qed
    show ?case
      unfolding P'_def
    proof
      fix hi
      show "P c hi" by (rule assms(4)[OF less.prems]) (use older in \<open>auto simp: P'_def\<close>)
    qed
  qed
  then show ?thesis by (simp add: P'_def)
qed

subsection \<open>The walks list the visible entries\<close>

definition walks :: "store \<Rightarrow> int option \<Rightarrow> int \<Rightarrow> int option \<Rightarrow> int list \<Rightarrow> bool" where
  "walks m lo c hi is \<longleftrightarrow>
     lists_ids is {i. visible m c hi i \<and> \<not> below i lo}
     \<and> (\<forall>need. entries_desc m lo c hi need = Some (Inr (map (the \<circ> ms_entries m) (take need (List.rev is)))))
     \<and> (\<exists>segs. fork_segments m lo c hi = Some (Inr segs)
          \<and> concat (map (\<lambda>(sc, sh). segment_asc m sc lo sh) (List.rev segs)) = is)"

lemma segment_lists:
  assumes "store_ok m"
  shows "lists_ids (segment_asc m c lo hi)
    {i. (\<exists>e. ms_entries m i = Some e \<and> en_conversation e = c) \<and> bounded lo hi i}"
  using entry_ids_of[OF assms, where c = c] by (auto simp: lists_ids_def segments_bounded ascending_filter)

text \<open>The walk ends in the segment of \<open>c\<close>: no parent, or nothing above the lower bound in it.\<close>

lemma walk_stops:
  assumes "store_ok m" "ms_conversations m c = Some v"
    and "\<And>pc pt. cv_parent v = Some (pc, pt) \<Longrightarrow> below (min_bound hi pt) lo"
  shows "walks m lo c hi (segment_asc m c lo hi)"
proof -
  let ?seg = "segment_asc m c lo hi"
  note lists = segment_lists[OF assms(1), of c lo hi]
  have desc: "segment_desc m c lo hi = List.rev ?seg"
    using entry_ids_of(1)[OF assms(1)] by (simp add: segments_bounded)
  have read: "each (read_entry m) (take n (List.rev ?seg)) = Inr (map (the \<circ> ms_entries m) (take n (List.rev ?seg)))" for n
    using lists by (intro each_read) (auto simp: lists_ids_def dest!: in_set_takeD)
  have "visible m c hi i \<and> \<not> below i lo \<longleftrightarrow> (\<exists>e. ms_entries m i = Some e \<and> en_conversation e = c) \<and> bounded lo hi i" for i
  proof -
    have "below i lo" if "cv_parent v = Some (pc, pt)" "visible m pc (Some (min_bound hi pt)) i" for pc pt
      using visible_entry[OF that(2)] assms(3)[OF that(1)] by (auto simp: above_def below_def split: option.splits)
    then show ?thesis using assms(2) by (subst visible_simps) (auto simp: bounded_def)
  qed
  with lists have "lists_ids ?seg {i. visible m c hi i \<and> \<not> below i lo}" by simp
  moreover have "entries_desc m lo c hi need = Some (Inr (map (the \<circ> ms_entries m) (take need (List.rev ?seg))))" for need
    using assms(2,3) read by (subst entries_desc.simps) (auto simp: desc Let_def split: option.split)
  moreover have "fork_segments m lo c hi = Some (Inr [(c, hi)])"
    using assms(2,3) by (subst fork_segments.simps) (auto split: option.split)
  ultimately show ?thesis by (simp add: walks_def)
qed

lemma walk_goes_on:
  assumes "store_ok m" "forks_ok m" "ms_conversations m c = Some v" "cv_parent v = Some (pc, pt)"
    and "\<not> below (min_bound hi pt) lo" "walks m lo pc (Some (min_bound hi pt)) is"
  shows "walks m lo c hi (is @ segment_asc m c lo hi)"
proof -
  let ?seg = "segment_asc m c lo hi" and ?hi = "Some (min_bound hi pt)"
  note lists = segment_lists[OF assms(1), of c lo hi]
  note fork = forkD[OF assms(1-4)]
  have desc: "segment_desc m c lo hi = List.rev ?seg"
    using entry_ids_of(1)[OF assms(1)] by (simp add: segments_bounded)
  have read: "each (read_entry m) (take n (List.rev ?seg)) = Inr (map (the \<circ> ms_entries m) (take n (List.rev ?seg)))" for n
    using lists by (intro each_read) (auto simp: lists_ids_def dest!: in_set_takeD)
  from assms(6) obtain segs where old: "lists_ids is {i. visible m pc ?hi i \<and> \<not> below i lo}"
    "\<And>need. entries_desc m lo pc ?hi need = Some (Inr (map (the \<circ> ms_entries m) (take need (List.rev is))))"
    "fork_segments m lo pc ?hi = Some (Inr segs)" "concat (map (\<lambda>(sc, sh). segment_asc m sc lo sh) (List.rev segs)) = is"
    by (auto simp: walks_def)
  have "{i. visible m c hi i \<and> \<not> below i lo} = {i. visible m pc ?hi i \<and> \<not> below i lo}
      \<union> {i. (\<exists>e. ms_entries m i = Some e \<and> en_conversation e = c) \<and> bounded lo hi i}"
    using assms(3,4) by (subst visible_simps) (auto simp: bounded_def)
  moreover have "a < b" if "visible m pc ?hi a" "ms_entries m b = Some e" "en_conversation e = c" for a b e
    using visible_entry[OF that(1), unfolded above_min] fork(3)[OF that(2,3)] by simp
  then have "lists_ids (is @ ?seg) ({i. visible m pc ?hi i \<and> \<not> below i lo}
      \<union> {i. (\<exists>e. ms_entries m i = Some e \<and> en_conversation e = c) \<and> bounded lo hi i})"
    by (intro lists_append old(1) lists) auto
  ultimately have "lists_ids (is @ ?seg) {i. visible m c hi i \<and> \<not> below i lo}" by simp
  moreover have "entries_desc m lo c hi need = Some (Inr (map (the \<circ> ms_entries m) (take need (List.rev (is @ ?seg)))))" for need
    using assms(3-5) read by (subst entries_desc.simps) (auto simp: desc Let_def old(2))
  moreover have "fork_segments m lo c hi = Some (Inr ((c, hi) # segs))"
    using assms(3-5) by (subst fork_segments.simps) (auto simp: old(3))
  ultimately show ?thesis using old(4) by (simp add: walks_def)
qed

lemma walks_exist:
  assumes "store_ok m" "forks_ok m" "ms_conversations m c = Some v"
  shows "\<exists>is. walks m lo c hi is"
  using assms
proof (induction rule: fork_induct)
  case (fork c v hi)
  show ?case
  proof (cases "\<exists>pc pt. cv_parent v = Some (pc, pt) \<and> \<not> below (min_bound hi pt) lo")
    case True
    then obtain pc pt where p: "cv_parent v = Some (pc, pt)" "\<not> below (min_bound hi pt) lo" by blast
    with forkD(2)[OF assms(1,2) fork(1) p(1)] fork(2) obtain "is" where "walks m lo pc (Some (min_bound hi pt)) is"
      by blast
    from walk_goes_on[OF assms(1,2) fork(1) p this] show ?thesis by blast
  next
    case False
    then show ?thesis using walk_stops[OF assms(1) fork(1)] by blast
  qed
qed

text \<open>The visible entries in a range, oldest first.\<close>

definition visible_list :: "store \<Rightarrow> int \<Rightarrow> int option \<Rightarrow> int option \<Rightarrow> entry list" where
  "visible_list m c lo hi = map (the \<circ> ms_entries m) (sorted_list_of_set {i. visible m c hi i \<and> \<not> below i lo})"

lemma visible_in_order_list:
  assumes "store_ok m" "forks_ok m" "ms_conversations m c = Some v"
  shows "visible_in_order m order c lo hi need = Some (Inr (take need (in_order order (visible_list m c lo hi))))"
proof -
  from walks_exist[OF assms] obtain "is" where walk: "walks m lo c hi is" by blast
  then have lists: "lists_ids is {i. visible m c hi i \<and> \<not> below i lo}" by (simp add: walks_def)
  note eq = lists_sorted[OF lists]
  show ?thesis
  proof (cases order)
    case Descending
    with walk assms(3) show ?thesis
      by (auto simp: visible_in_order_def visibleEntries_def in_order_def visible_list_def eq[symmetric] walks_def
          take_map rev_map)
  next
    case Ascending
    from walk obtain segs where segs: "fork_segments m lo c hi = Some (Inr segs)"
      "concat (map (\<lambda>(sc, sh). segment_asc m sc lo sh) (List.rev segs)) = is" by (auto simp: walks_def)
    have "each (read_entry m) (take need is) = Inr (map (the \<circ> ms_entries m) (take need is))"
    proof (rule each_read)
      show "\<forall>i \<in> set (take need is). ms_entries m i \<noteq> None"
        using lists visible_entry by (auto simp: lists_ids_def dest!: in_set_takeD)
    qed
    with Ascending segs assms(3) show ?thesis
      by (simp add: visible_in_order_def visibleEntriesAscending_def in_order_def visible_list_def eq[symmetric] take_map)
  qed
qed

subsection \<open>The paged scan of the entries\<close>

lemma visible_bounded: "visible m c hi i \<longleftrightarrow> visible m c None i \<and> \<not> above i hi"
  using visible_narrow[of m c hi i None] visible_narrow[of m c None i hi] visible_entry[of m c hi i]
  by (auto simp: above_def)

text \<open>The scan of the entries, as a scan over the IDs it can see.\<close>

definition visible_ids :: "store \<Rightarrow> entry_query \<Rightarrow> int list" where
  "visible_ids m q = filter (bounded (eq_min q) (eq_max q)) (sorted_list_of_set {i. visible m (eq_conversation q) None i})"

definition entry_scan :: "store \<Rightarrow> entry_query \<Rightarrow> nat \<Rightarrow> entry scan_spec" where
  "entry_scan m q limit = \<lparr>sc_ids = visible_ids m q, sc_get = ms_entries m, sc_keep = (\<lambda>_. True), sc_key = en_id,
     sc_limit = limit, sc_requested = eq_order q, sc_fallback = Descending\<rparr>"

lemma visible_lists:
  assumes "store_ok m" "forks_ok m" "ms_conversations m c = Some v"
  shows "lists_ids (sorted_list_of_set {i. visible m c None i}) {i. visible m c None i}"
proof -
  from walks_exist[OF assms, of None None] obtain "is" where "walks m None c None is" by blast
  then have "lists_ids is {i. visible m c None i}" by (simp add: walks_def below_def)
  with lists_sorted[OF this] show ?thesis by simp
qed

lemma visible_ids_listed:
  assumes "store_ok m" "forks_ok m" "ms_conversations m (eq_conversation q) = Some v"
  shows "listed (visible_ids m q) (ms_entries m) en_id"
    "set (visible_ids m q) = {i. visible m (eq_conversation q) None i \<and> bounded (eq_min q) (eq_max q) i}"
proof -
  note lists = visible_lists[OF assms]
  have "\<exists>e. ms_entries m i = Some e \<and> en_id e = i" if "visible m c hi i" for c hi i
    using visible_entry[OF that] assms(1) by (auto simp: store_ok_def tables_ok_def entries_ok_def)
  then show "listed (visible_ids m q) (ms_entries m) en_id"
    using lists by (auto simp: listed_def visible_ids_def lists_ids_def ascending_filter)
  show "set (visible_ids m q) = {i. visible m (eq_conversation q) None i \<and> bounded (eq_min q) (eq_max q) i}"
    using lists by (auto simp: visible_ids_def lists_ids_def)
qed

lemma narrowed:
  "bounded (entry_min start lo) (entry_max start hi) i \<longleftrightarrow> bounded lo hi i \<and> past (st_order start) (st_after start) i"
  by (auto simp: bounded_def entry_min_def entry_max_def past_def below_def above_def
      split: option.splits scan_order.splits)

lemma narrowed_list:
  assumes "store_ok m" "forks_ok m" "ms_conversations m (eq_conversation q) = Some v"
  shows "in_order (st_order start) (visible_list m (eq_conversation q) (entry_min start (eq_min q)) (entry_max start (eq_max q)))
    = scan_rest (visible_ids m q) (ms_entries m) (\<lambda>_. True) (st_order start) (st_after start)"
proof -
  let ?c = "eq_conversation q" and ?past = "past (st_order start) (st_after start)"
  note listed = visible_ids_listed[OF assms]
  have "{i. visible m ?c (entry_max start (eq_max q)) i \<and> \<not> below i (entry_min start (eq_min q))}
      = {i. i \<in> set (visible_ids m q) \<and> ?past i}"
    unfolding listed(2) using narrowed[of start "eq_min q" "eq_max q"]
    by (subst visible_bounded) (auto simp: bounded_def)
  moreover have "lists_ids (filter ?past (visible_ids m q)) {i. i \<in> set (visible_ids m q) \<and> ?past i}"
    using listed(1) by (auto simp: lists_ids_def listed_def ascending_filter)
  ultimately have "visible_list m ?c (entry_min start (eq_min q)) (entry_max start (eq_max q))
      = map (the \<circ> ms_entries m) (filter ?past (visible_ids m q))"
    using lists_sorted by (metis visible_list_def)
  then show ?thesis
    by (cases "st_order start") (simp_all add: scan_rest_def in_order_def rev_map rev_filter)
qed

lemma scan_entries_fetch:
  assumes "store_ok m" "forks_ok m" "\<not> ms_closed m" "ms_conversations m (eq_conversation q) = Some v"
  shows "scanEntries m q limit cursor = Some (scan_fetch (entry_scan m q limit) cursor)"
proof (cases "scanStart (eq_order q) cursor Descending")
  case (Inr start)
  let ?xs = "scan_rest (visible_ids m q) (ms_entries m) (\<lambda>_. True) (st_order start) (st_after start)"
  have "page en_id (take (Suc limit) ?xs) limit (st_order start)
      = (if limit < length ?xs \<and> limit = 0 then Inl UndefinedRead else Inr (first_page en_id limit (st_order start) ?xs))"
    by (auto simp: page_def first_page_def min_def not_le)
  moreover have "scanEntries m q limit cursor = Some (page en_id (take (Suc limit) ?xs) limit (st_order start))"
    using Inr assms(3) narrowed_list[OF assms(1,2,4), of start]
    by (simp add: scanEntries_def visible_in_order_list[OF assms(1,2,4)])
  ultimately show ?thesis
    using Inr scan_ids_page[OF visible_ids_listed(1)[OF assms(1,2,4)], of "\<lambda>_. True" limit start]
    by (simp add: scan_fetch_def entry_scan_def Let_def)
qed (use assms(3) in \<open>simp add: scanEntries_def scan_fetch_def entry_scan_def\<close>)


subsection \<open>The latest head marker\<close>

definition marks :: "store \<Rightarrow> int \<Rightarrow> bool" where
  "marks m i \<longleftrightarrow> (case ms_entries m i of None \<Rightarrow> False | Some e \<Rightarrow> en_head e \<noteq> None)"

definition visible_marks :: "store \<Rightarrow> int \<Rightarrow> int option \<Rightarrow> int set" where
  "visible_marks m c hi = {i. visible m c hi i \<and> marks m i}"

lemma own_marks:
  assumes "store_ok m"
  shows "ascending (ids_at (ms_headEntryIds m) c)"
    "i \<in> set (take (upper_index (ids_at (ms_headEntryIds m) c) hi) (ids_at (ms_headEntryIds m) c)) \<longleftrightarrow>
       (\<exists>e. ms_entries m i = Some e \<and> en_conversation e = c) \<and> marks m i \<and> \<not> above i hi"
proof -
  from assms have "lists_ids (ids_at (ms_headEntryIds m) c) {i. keyed head_of (ms_entries m) i = Some c}"
    by (auto simp: store_ok_def tables_ok_def entries_ok_def ids.indexes_def)
  note lists = keyed_set[OF this]
  then show asc: "ascending (ids_at (ms_headEntryIds m) c)" by blast
  show "i \<in> set (take (upper_index (ids_at (ms_headEntryIds m) c) hi) (ids_at (ms_headEntryIds m) c)) \<longleftrightarrow>
       (\<exists>e. ms_entries m i = Some e \<and> en_conversation e = c) \<and> marks m i \<and> \<not> above i hi"
    unfolding upper_index_take[OF asc] using lists by (auto simp: head_of_Some marks_def)
qed

lemma ascending_Max: "ascending ids \<Longrightarrow> ids \<noteq> [] \<Longrightarrow> last ids = Max (set ids)"
  by (rule Max_eqI[symmetric]) (auto intro: ascending_last)

lemma head_marker_latest:
  assumes "store_ok m" "forks_ok m" "ms_conversations m c = Some v"
  shows "finite (visible_marks m c hi) \<and> head_marker m c hi =
    Some (Inr (if visible_marks m c hi = {} then None else ms_entries m (Max (visible_marks m c hi))))"
  using assms
proof (induction rule: fork_induct)
  case (fork c v hi)
  let ?ids = "ids_at (ms_headEntryIds m) c" and ?n = "upper_index (ids_at (ms_headEntryIds m) c) hi"
  let ?own = "set (take ?n ?ids)"
  note own = own_marks[OF assms(1), where c = c]
  have upto: "?n \<le> length ?ids"
    using own(1) idLowerBound_props(1) by (cases hi) (auto simp: upper_index_def idUpperBound_lower)
  have step: "visible_marks m c hi = ?own \<union>
      (case cv_parent v of None \<Rightarrow> {} | Some (pc, pt) \<Rightarrow> visible_marks m pc (Some (min_bound hi pt)))"
    using fork(1) own(2) by (auto simp: visible_marks_def visible_simps[of m c] split: option.split)
  show ?case
  proof (cases "?n > 0")
    case True
    then have ne: "take ?n ?ids \<noteq> []" using upto by auto
    have last: "?ids ! (?n - 1) = last (take ?n ?ids)" using True upto ne by (simp add: last_conv_nth min_def)
    have asc: "ascending (take ?n ?ids)" using own(1) by (simp add: sorted_wrt_take)
    have inherited: "finite (visible_marks m pc (Some (min_bound hi pt))) \<and> (\<forall>a \<in> visible_marks m pc (Some (min_bound hi pt)). a < b)"
      if "cv_parent v = Some (pc, pt)" "b \<in> ?own" for pc pt b
    proof -
      from that(2) own(2) obtain e where e: "ms_entries m b = Some e" "en_conversation e = c" by blast
      from forkD(2)[OF assms(1,2) fork(1) that(1)] fork(2)[OF that(1)]
      have "finite (visible_marks m pc (Some (min_bound hi pt)))" by blast
      moreover have "a < b" if "a \<in> visible_marks m pc (Some (min_bound hi pt))" for a
        using that visible_entry[of m pc "Some (min_bound hi pt)" a, unfolded above_min]
          forkD(3)[OF assms(1,2) fork(1) \<open>cv_parent v = Some (pc, pt)\<close> e]
        by (auto simp: visible_marks_def)
      ultimately show ?thesis by blast
    qed
    have last_own: "last (take ?n ?ids) \<in> ?own" using ne by (rule last_in_set)
    then have mark: "last (take ?n ?ids) \<in> visible_marks m c hi" by (subst step) (rule UnI1)
    note older = inherited[OF _ last_own]
    have fin: "finite (visible_marks m c hi)"
      unfolding step using older by (auto split: option.split)
    moreover have "Max (visible_marks m c hi) = last (take ?n ?ids)"
    proof (rule Max_eqI[OF fin])
      show "last (take ?n ?ids) \<in> visible_marks m c hi" by (rule mark)
      show "a \<le> last (take ?n ?ids)" if "a \<in> visible_marks m c hi" for a
      proof (cases "a \<in> ?own")
        case True
        then show ?thesis by (rule ascending_last[OF asc])
      next
        case False
        with that step obtain pc pt where p: "cv_parent v = Some (pc, pt)" "a \<in> visible_marks m pc (Some (min_bound hi pt))"
          by (cases "cv_parent v") auto
        with older[OF p(1)] show ?thesis by (auto intro: less_imp_le)
      qed
    qed
    moreover have "visible_marks m c hi \<noteq> {}" using mark by (metis empty_iff)
    moreover obtain e where "ms_entries m (last (take ?n ?ids)) = Some e"
      using iffD1[OF own(2) last_own] by (elim conjE exE)
    ultimately show ?thesis
      using True last by (subst head_marker.simps) (simp add: Let_def read_entry_def)
  next
    case False
    then have none: "?own = {}" by simp
    show ?thesis
    proof (cases "cv_parent v")
      case None
      with False fork(1) none step show ?thesis by (subst head_marker.simps) (simp add: Let_def)
    next
      case (Some p)
      obtain pc pt where p: "cv_parent v = Some (pc, pt)" using Some by (cases p) auto
      from forkD(2)[OF assms(1,2) fork(1) p] fork(2)[OF p] False fork(1) none step p show ?thesis
        by (subst head_marker.simps) (auto simp: Let_def)
    qed
  qed
qed


subsection \<open>Properties\<close>

text \<open>C11: When every fork has an older parent and starts after its fork point, paging through the entries of
  a conversation never hangs in the chain of forks, ends, and returns exactly the entries the
  conversation sees in the range asked for, inherited ones included, each once and in ID order,
  newest first unless asked otherwise; both walks of the chain give the same list.\<close>

theorem entries_read_in_order:
  assumes "store_step\<^sup>*\<^sup>* new_store m" "forks_ok m" "safe_ids m" "\<not> ms_closed m"
    and "ms_conversations m (eq_conversation q) = Some v" "order_given (eq_order q)" "0 < limit"
  shows "scanEntries m q limit cursor \<noteq> None
    \<and> scanAll (\<lambda>c. the (scanEntries m q limit c)) None =
        Some (Inr (map (the \<circ> ms_entries m) (in_order (wanted_order (eq_order q) Descending) (visible_ids m q))))"
proof -
  have ok: "store_ok m" using assms(1) by (rule reachable_ok)
  note fetch = scan_entries_fetch[OF ok assms(2,4,5)] and listed = visible_ids_listed[OF ok assms(2,5)]
  have "types_ok m" using ok by (simp add: store_ok_def tables_ok_def)
  note typed = types_ok_at(2)[OF this]
  have "\<bar>i\<bar> \<le> max_safe" if "i \<in> set (visible_ids m q)" for i
  proof -
    from that listed(2) visible_entry have "ms_entries m i \<noteq> None" by blast
    with typed[of i] assms(3) show ?thesis by (simp add: safe_ids_def)
  qed
  then have "scan_good (entry_scan m q limit)"
    using listed(1) assms(6,7) by (simp add: scan_good_def entry_scan_def list_all_iff)
  note all = scans.reads_all[OF this]
  have "scan_left (entry_scan m q limit) None
      = map (the \<circ> ms_entries m) (in_order (wanted_order (eq_order q) Descending) (visible_ids m q))"
    by (simp add: scan_left_def entry_scan_def scan_rest_def cursor_after_def past_def[abs_def])
  with all fetch show ?thesis by simp
qed

text \<open>C36: In such a storage the search for the latest head marker ends, and returns the newest entry with a
  head among all the entries the conversation sees up to the bound, or nothing when there is none.\<close>

theorem latest_head_marker:
  assumes "store_step\<^sup>*\<^sup>* new_store m" "forks_ok m" "\<not> ms_closed m" "ms_conversations m c = Some v"
  shows "findLatestHeadMarker m c hi =
    Some (Inr (if visible_marks m c hi = {} then None else ms_entries m (Max (visible_marks m c hi))))"
  using head_marker_latest[OF reachable_ok[OF assms(1)] assms(2,4), of hi] assms(3,4)
  by (simp add: findLatestHeadMarker_def)

text \<open>A conversation with two entries, the second a head marker, and a fork at the first.\<close>

definition plain_entry :: "int \<Rightarrow> int \<Rightarrow> int option \<Rightarrow> storage_write" where
  "plain_entry i c head = WEntry \<lparr>en_id = i, en_conversation = c, en_kind = ''note'', en_model = None, en_data = None,
     en_head = head, en_edits = None, en_task = None\<rparr>"

definition fork_store :: store where
  "fork_store = after_commit
     [WConversation \<lparr>cv_id = 2, cv_parent = None, cv_owner = None\<rparr>, plain_entry 3 2 (Some 3), plain_entry 4 2 None,
      WConversation \<lparr>cv_id = 5, cv_parent = Some (2, 3), cv_owner = None\<rparr>, plain_entry 6 5 None] new_store"

lemma fork_reachable: "store_step\<^sup>*\<^sup>* new_store fork_store"
  unfolding fork_store_def by (rule after_commit_step)

lemma fork_store_facts:
  "forks_ok fork_store" "\<not> ms_closed fork_store" "ms_conversations fork_store 5 = Some \<lparr>cv_id = 5, cv_parent = Some (2, 3), cv_owner = None\<rparr>"
  by code_simp+

lemma fork_store_types: "ms_types fork_store =
    [2 \<mapsto> ConversationTable, 3 \<mapsto> EntryTable, 4 \<mapsto> EntryTable, 5 \<mapsto> ConversationTable, 6 \<mapsto> EntryTable]"
  by (simp add: fork_store_def after_commit_def commit_def prepareCommit_def assertOpen_def new_store_def
      resolveDocumentCopies_def plain_entry_def max_safe_def fails_if_def checkDocumentActions_def
      apply_prepared_def applyPreparedCommit_def applyDocumentActions_def written_once_def store_simps)

lemma fork_store_entries:
  "ms_entries fork_store i \<noteq> None \<longleftrightarrow> i \<in> {3, 4, 6}"
  "map_option en_conversation (ms_entries fork_store 3) = Some 2" "map_option en_conversation (ms_entries fork_store 4) = Some 2"
  "map_option en_conversation (ms_entries fork_store 6) = Some 5" "map_option en_head (ms_entries fork_store 3) = Some (Some 3)"
  "map_option en_head (ms_entries fork_store 6) = Some None"
proof -
  have "types_ok fork_store" using reachable_ok[OF fork_reachable] by (simp add: store_ok_def tables_ok_def)
  from types_ok_at(2)[OF this, of i] show "ms_entries fork_store i \<noteq> None \<longleftrightarrow> i \<in> {3, 4, 6}"
    unfolding fork_store_types by (auto split: if_splits)
qed (code_simp+)


lemma fork_store_visible: "visible fork_store 5 None i \<longleftrightarrow> i \<in> {3, 6}"
proof -
  have root: "ms_conversations fork_store 2 = Some \<lparr>cv_id = 2, cv_parent = None, cv_owner = None\<rparr>" by code_simp
  have entry: "(\<exists>e. ms_entries fork_store i = Some e \<and> en_conversation e = c) \<longleftrightarrow> (c = 2 \<and> i \<in> {3, 4}) \<or> (c = 5 \<and> i = 6)" for i c
    using fork_store_entries(1)[of i] fork_store_entries(2-4) by auto
  have "visible fork_store 2 (Some 3) i \<longleftrightarrow> i = 3" for i
    using entry[of i 2] root by (subst visible_simps) (auto simp: above_def)
  then show ?thesis
    using entry[of i 5] fork_store_facts(3) by (subst visible_simps) (auto simp: above_def min_bound_def)
qed

theorem entries_read_in_order_witness:
  "\<exists>es. scanAll (\<lambda>c. the (scanEntries fork_store \<lparr>eq_conversation = 5, eq_min = None, eq_max = None, eq_order = None\<rparr> 1 c)) None
     = Some (Inr es) \<and> length es = 2 \<and> map_option en_conversation (ms_entries fork_store 3) = Some (en_conversation (es ! 1))"
proof -
  let ?q = "\<lparr>eq_conversation = 5, eq_min = None, eq_max = None, eq_order = None\<rparr>"
  have safe: "safe_ids fork_store" by (auto simp: safe_ids_def fork_store_types max_safe_def split: if_splits)
  have "{i. visible fork_store 5 None i} = {3, 6}" by (auto simp: fork_store_visible)
  then have "visible_ids fork_store ?q = [3, 6]" by (simp add: visible_ids_def bounded_def[abs_def] below_def above_def)
  moreover have "ms_entries fork_store 3 \<noteq> None" using fork_store_entries(1)[of 3] by simp
  ultimately show ?thesis
    using entries_read_in_order[OF fork_reachable fork_store_facts(1) safe fork_store_facts(2), of ?q _ 1] fork_store_facts(3)
    by (auto simp: order_given_def wanted_order_def in_order_def)
qed

theorem latest_head_marker_witness:
  "findLatestHeadMarker fork_store 5 None = Some (Inr (ms_entries fork_store 3)) \<and> ms_entries fork_store 3 \<noteq> None"
proof -
  have "visible_marks fork_store 5 None = {3}"
    using fork_store_entries by (auto simp: visible_marks_def fork_store_visible marks_def split: option.splits)
  with latest_head_marker[OF fork_reachable fork_store_facts, of None] fork_store_entries(1)[of 3] show ?thesis by simp
qed

end
