(* ===== verification/Jsonl_Storage.thy ===== *)
theory Jsonl_Storage
  imports Durable_Laws
begin

text \<open>
  The JSONL storage of \<open>packages/durable/src/storage/jsonl/storage.ts\<close>: the encoding of a commit as
  one marker in the main file and records in sidecar files, the publication of a commit, the
  reclamation of sidecars, and recovery. A file is the list of its complete lines, each the value it
  parses to (none when it is malformed), and whether a torn line follows. Every file operation takes
  its outcome from an oracle: it works, or it fails after some complete lines and maybe a torn one.
  A process that dies leaves the disk of a run whose remaining operations fail.
\<close>

subsection \<open>The format\<close>

datatype sidecar_name = DocFile int | TaskFile int

datatype main_operation =
    MConversation conversation
  | MEntry entry
  | MSubmission submission
  | MRetire int
  | MTask task
  | MTaskSidecar int nat
  | MCreate doc_create nat
  | MChange int nat

record main_marker =
  mk_seq :: int
  mk_writes :: "main_operation list"

datatype sidecar_payload = PTask task | PDocument int content

record sidecar_record =
  sr_seq :: int
  sr_ordinal :: nat
  sr_payload :: sidecar_payload

record 'r jfile =
  jf_lines :: "'r option list"
  jf_torn :: bool

record disk =
  dk_main :: "main_marker jfile option"
  dk_sidecars :: "(sidecar_name \<times> sidecar_record jfile) list"
  dk_temps :: "sidecar_name list"            \<comment> \<open>left-over reclaim files\<close>

datatype fs_op =
    ReadMain | TruncateMain | ListDir
  | ReadSidecar sidecar_name | TruncateTorn sidecar_name | TruncateTail sidecar_name
  | AppendSidecar sidecar_name | FlushSidecar sidecar_name | AppendMain | FlushMain
  | RemoveSidecar sidecar_name | WriteTemp sidecar_name | FlushTemp sidecar_name
  | RenameTemp sidecar_name | RemoveTemp sidecar_name

datatype fs_outcome = Works | Fails nat bool  \<comment> \<open>complete lines written, and a torn one\<close>

datatype corruption =
    MalformedLine
  | SequenceOrder
  | RecordOrder sidecar_name
  | ConfirmedTwice
  | MissingRecord sidecar_name int
  | MismatchedRecord int
  | NotABase int
  | InvalidState int store_error
  | ConfirmedAfterTail sidecar_name

datatype jsonl_error =
    Corrupt corruption
  | FileFailed fs_op
  | Poisoned
  | JsonlClosed
  | Rejected store_error

subsection \<open>Validation of a line\<close>

definition safe_id :: "int \<Rightarrow> bool" where
  "safe_id i \<longleftrightarrow> \<bar>i\<bar> \<le> max_safe"

definition is_terminal :: "task \<Rightarrow> bool" where
  "is_terminal t \<longleftrightarrow> tk_status t = TTerminal"

fun validateMainOperation :: "main_operation \<Rightarrow> bool" where
  "validateMainOperation (MConversation c) = safe_id (cv_id c)"
| "validateMainOperation (MEntry e) = safe_id (en_id e)"
| "validateMainOperation (MSubmission s) = safe_id (sb_id s)"
| "validateMainOperation (MTask t) = (safe_id (tk_id t) \<and> is_terminal t)"
| "validateMainOperation (MRetire i) = safe_id i"
| "validateMainOperation (MTaskSidecar i n) = (safe_id i \<and> safe_id (int n))"
| "validateMainOperation (MCreate r n) = (safe_id (dc_id r) \<and> safe_id (int n))"
| "validateMainOperation (MChange i n) = (safe_id i \<and> safe_id (int n))"

definition parseMainMarker :: "main_marker \<Rightarrow> bool" where
  "parseMainMarker m \<longleftrightarrow> safe_id (mk_seq m) \<and> 1 \<le> mk_seq m \<and> list_all validateMainOperation (mk_writes m)"

fun validateDocumentContent :: "content \<Rightarrow> bool" where
  "validateDocumentContent (Base v x) = (safe_id v \<and> 1 \<le> v \<and> is_JObj x)"
| "validateDocumentContent (Delta v ops) = (safe_id v \<and> 1 \<le> v)"

definition parseSidecarRecord :: "sidecar_record \<Rightarrow> bool" where
  "parseSidecarRecord r \<longleftrightarrow>
     safe_id (sr_seq r) \<and> 1 \<le> sr_seq r \<and> safe_id (int (sr_ordinal r))
     \<and> (case sr_payload r of
          PTask t \<Rightarrow> safe_id (tk_id t) \<and> \<not> is_terminal t
        | PDocument i c \<Rightarrow> safe_id i \<and> validateDocumentContent c)"

subsection \<open>Encoding a commit\<close>

text \<open>The main operations and the sidecar records of the writes, the records numbered from \<open>n\<close>.\<close>

fun encode_writes :: "int \<Rightarrow> nat \<Rightarrow> storage_write list \<Rightarrow> main_operation list \<times> (sidecar_name \<times> sidecar_record) list" where
  "encode_writes seq n [] = ([], [])"
| "encode_writes seq n (w # ws) =
     (let plain = (\<lambda>oper. let (ops, recs) = encode_writes seq n ws in (oper # ops, recs));
          sidecar = (\<lambda>oper file payload.
            let (ops, recs) = encode_writes seq (n + 1) ws
            in (oper # ops, (file, \<lparr>sr_seq = seq, sr_ordinal = n, sr_payload = payload\<rparr>) # recs))
      in case w of
        WConversation c \<Rightarrow> plain (MConversation c)
      | WEntry e \<Rightarrow> plain (MEntry e)
      | WSubmission s \<Rightarrow> plain (MSubmission s)
      | WRetire i \<Rightarrow> plain (MRetire i)
      | WTask t \<Rightarrow>
          if is_terminal t then plain (MTask t)
          else sidecar (MTaskSidecar (tk_id t) n) (TaskFile (tk_id t)) (PTask t)
      | WCreate r v x \<Rightarrow> sidecar (MCreate r n) (DocFile (dc_id r)) (PDocument (dc_id r) (Base v x))
      | WChange i c \<Rightarrow> sidecar (MChange i n) (DocFile i) (PDocument i c)
      | WCopy _ _ _ \<Rightarrow> encode_writes seq n ws)"

record encoded_commit =
  ec_marker :: main_marker
  ec_sidecars :: "(sidecar_name \<times> sidecar_record list) list"

definition records_of :: "sidecar_name \<Rightarrow> (sidecar_name \<times> 'r) list \<Rightarrow> 'r list" where
  "records_of f recs = map snd (filter (\<lambda>(g, _). g = f) recs)"

definition encodeCommit :: "int \<Rightarrow> storage_write list \<Rightarrow> encoded_commit" where
  "encodeCommit seq ws =
     (let (ops, recs) = encode_writes seq 0 ws
      in \<lparr>ec_marker = \<lparr>mk_seq = seq, mk_writes = ops\<rparr>,
          ec_sidecars = map (\<lambda>f. (f, records_of f recs)) (List.rev (remdups (List.rev (map fst recs))))\<rparr>)"

subsection \<open>Files\<close>

definition fs_works :: "(fs_op \<Rightarrow> fs_outcome) \<Rightarrow> fs_op \<Rightarrow> bool" where
  "fs_works fs oper \<longleftrightarrow> fs oper = Works"

text \<open>Lines appended after a torn line join it, and the joined line is malformed.\<close>

definition add_lines :: "'r list \<Rightarrow> bool \<Rightarrow> 'r jfile \<Rightarrow> 'r jfile" where
  "add_lines rs torn f =
     \<lparr>jf_lines = jf_lines f @ (if jf_torn f \<and> rs \<noteq> [] then None # map Some (tl rs) else map Some rs),
      jf_torn = torn \<or> (jf_torn f \<and> rs = [])\<rparr>"

definition no_lines :: "'r jfile" where
  "no_lines = \<lparr>jf_lines = [], jf_torn = False\<rparr>"

definition file_or_empty :: "'r jfile option \<Rightarrow> 'r jfile" where
  "file_or_empty f = (case f of None \<Rightarrow> no_lines | Some g \<Rightarrow> g)"

definition append_lines :: "fs_outcome \<Rightarrow> 'r list \<Rightarrow> 'r jfile option \<Rightarrow> 'r jfile option" where
  "append_lines out rs f =
     (case out of
        Works \<Rightarrow> Some (add_lines rs False (file_or_empty f))
      | Fails k torn \<Rightarrow> if k = 0 \<and> \<not> torn then f else Some (add_lines (take k rs) torn (file_or_empty f)))"

definition put_sidecar :: "sidecar_name \<Rightarrow> sidecar_record jfile option \<Rightarrow> disk \<Rightarrow> disk" where
  "put_sidecar f g d =
     d\<lparr>dk_sidecars := (case g of None \<Rightarrow> AList.delete f (dk_sidecars d) | Some h \<Rightarrow> AList.update f h (dk_sidecars d))\<rparr>"

definition append_sidecar :: "(fs_op \<Rightarrow> fs_outcome) \<Rightarrow> sidecar_name \<Rightarrow> sidecar_record list \<Rightarrow> disk \<Rightarrow> disk" where
  "append_sidecar fs f rs d = put_sidecar f (append_lines (fs (AppendSidecar f)) rs (map_of (dk_sidecars d) f)) d"

text \<open>The sidecars in turn; the first failure stops.\<close>

fun append_sidecars :: "(fs_op \<Rightarrow> fs_outcome) \<Rightarrow> (sidecar_name \<times> sidecar_record list) list \<Rightarrow> disk \<Rightarrow> disk \<times> fs_op option" where
  "append_sidecars fs [] d = (d, None)"
| "append_sidecars fs ((f, rs) # files) d =
     (if fs_works fs (AppendSidecar f) then append_sidecars fs files (append_sidecar fs f rs d)
      else (append_sidecar fs f rs d, Some (AppendSidecar f)))"

definition first_failure :: "(fs_op \<Rightarrow> fs_outcome) \<Rightarrow> fs_op list \<Rightarrow> fs_op option" where
  "first_failure fs ops = List.find (\<lambda>oper. \<not> fs_works fs oper) ops"

definition append_main :: "(fs_op \<Rightarrow> fs_outcome) \<Rightarrow> main_marker \<Rightarrow> disk \<Rightarrow> disk" where
  "append_main fs m d = d\<lparr>dk_main := append_lines (fs AppendMain) [m] (dk_main d)\<rparr>"

subsection \<open>Reclamation\<close>

definition replaceSidecar :: "(fs_op \<Rightarrow> fs_outcome) \<Rightarrow> bool \<Rightarrow> sidecar_name \<times> sidecar_record list \<Rightarrow> disk \<Rightarrow> disk" where
  "replaceSidecar fs fsync fc d =
     (let (f, rs) = fc in
      if rs = [] then (if fs_works fs (RemoveSidecar f) then put_sidecar f None d else d)
      else let d1 = d\<lparr>dk_temps := List.insert f (dk_temps d)\<rparr>
        in if \<not> fs_works fs (WriteTemp f) then d1
           else if fsync \<and> \<not> fs_works fs (FlushTemp f) then d1
           else if \<not> fs_works fs (RenameTemp f) then d1
           else put_sidecar f (Some \<lparr>jf_lines = map Some rs, jf_torn = False\<rparr>) (d1\<lparr>dk_temps := removeAll f (dk_temps d1)\<rparr>))"

definition reclaimSidecars :: "(fs_op \<Rightarrow> fs_outcome) \<Rightarrow> bool \<Rightarrow> (sidecar_name \<times> sidecar_record list) list \<Rightarrow> disk \<Rightarrow> disk" where
  "reclaimSidecars fs fsync reps d =
     (if reps = [] then d
      else if fsync \<and> \<not> fs_works fs FlushMain then d
      else fold (replaceSidecar fs fsync) reps d)"

record jsonl =
  js_memory :: store
  js_currentOnly :: "int set"
  js_live :: "int set"
  js_closed :: bool
  js_poisoned :: bool
  js_fsync :: bool

fun created_current :: "storage_write \<Rightarrow> int option" where
  "created_current (WCreate r v x) = (if isCurrentOnly r then Some (dc_id r) else None)"
| "created_current _ = None"

fun based :: "storage_write \<Rightarrow> int option" where
  "based (WChange i c) = (if is_base c then Some i else None)"
| "based _ = None"

fun retired_by :: "storage_write \<Rightarrow> int option" where
  "retired_by (WRetire i) = Some i"
| "retired_by _ = None"

fun task_written :: "storage_write \<Rightarrow> task option" where
  "task_written (WTask t) = Some t"
| "task_written _ = None"

definition ids_by :: "('w \<Rightarrow> int option) \<Rightarrow> 'w list \<Rightarrow> int list" where
  "ids_by f ws = remdups (List.map_filter f ws)"

definition final_tasks :: "storage_write list \<Rightarrow> int \<rightharpoonup> task" where
  "final_tasks ws = map_of (List.rev (map (\<lambda>t. (tk_id t, t)) (List.map_filter task_written ws)))"

definition planReclamations :: "jsonl \<Rightarrow> storage_write list \<Rightarrow> encoded_commit \<Rightarrow> (sidecar_name \<times> sidecar_record list) list" where
  "planReclamations s ws e =
     (let current = js_currentOnly s \<union> set (ids_by created_current ws);
          retired = ids_by retired_by ws;
          bases = filter (\<lambda>i. i \<in> current \<and> i \<notin> set retired) (ids_by based ws);
          ended = filter (\<lambda>i. (case final_tasks ws i of Some t \<Rightarrow> is_terminal t | None \<Rightarrow> False)
                    \<and> (i \<in> js_live s \<or> map_of (ec_sidecars e) (TaskFile i) \<noteq> None))
                  (ids_by (map_option tk_id \<circ> task_written) ws)
      in map (\<lambda>i. (DocFile i, [])) (filter (\<lambda>i. i \<in> current) retired)
         @ List.map_filter (\<lambda>i. map_option (Pair (DocFile i)) (map_of (ec_sidecars e) (DocFile i))) bases
         @ map (\<lambda>i. (TaskFile i, [])) ended)"

definition adopt_write :: "storage_write \<Rightarrow> jsonl \<Rightarrow> jsonl" where
  "adopt_write w s =
     (case w of
        WCreate r v x \<Rightarrow> if isCurrentOnly r then s\<lparr>js_currentOnly := insert (dc_id r) (js_currentOnly s)\<rparr> else s
      | WTask t \<Rightarrow>
          if is_terminal t then s\<lparr>js_live := js_live s - {tk_id t}\<rparr>
          else s\<lparr>js_live := insert (tk_id t) (js_live s)\<rparr>
      | _ \<Rightarrow> s)"

definition adoptSidecarState :: "storage_write list \<Rightarrow> jsonl \<Rightarrow> jsonl" where
  "adoptSidecarState ws s = fold adopt_write ws s"

subsection \<open>Publishing a commit\<close>

definition assertUsable :: "jsonl \<Rightarrow> (jsonl_error + 'a) \<Rightarrow> jsonl_error + 'a" where
  "assertUsable s r = (if js_closed s then Inl JsonlClosed else if js_poisoned s then Inl Poisoned else r)"

text \<open>An operation of the storage gives its result, the storage and the disk after it.\<close>

type_synonym 'a published = "(jsonl_error + 'a) \<times> jsonl \<times> disk"

definition poisoned_by :: "fs_op \<Rightarrow> jsonl \<Rightarrow> disk \<Rightarrow> 'a published" where
  "poisoned_by oper s d = (Inl (FileFailed oper), s\<lparr>js_poisoned := True\<rparr>, d)"

definition jsonl_commit :: "(nat \<Rightarrow> bool) \<Rightarrow> (fs_op \<Rightarrow> fs_outcome) \<Rightarrow> storage_write list \<Rightarrow> jsonl \<Rightarrow> disk \<Rightarrow> int published" where
  "jsonl_commit owned fs ws s d =
     (case assertUsable s (Inr ()) of
        Inl e \<Rightarrow> (Inl e, s, d)
      | Inr _ \<Rightarrow>
          (case prepareCommit owned (js_memory s) ws None of
             Inl e \<Rightarrow> (Inl (Rejected e), s, d)
           | Inr p \<Rightarrow>
               let e = encodeCommit (pc_seq p) (pc_writes p);
                   reps = planReclamations s (pc_writes p) e;
                   (d1, failed) = append_sidecars fs (ec_sidecars e) d
               in case failed of
                 Some oper \<Rightarrow> poisoned_by oper s d1
               | None \<Rightarrow>
                   (case (if js_fsync s then first_failure fs (map (\<lambda>(f, _). FlushSidecar f) (ec_sidecars e)) else None) of
                      Some oper \<Rightarrow> poisoned_by oper s d1
                    | None \<Rightarrow>
                        let d2 = append_main fs (ec_marker e) d1 in
                        if \<not> fs_works fs AppendMain then poisoned_by AppendMain s d2
                        else case apply_prepared p (js_memory s) of
                          Inl err \<Rightarrow> (Inl (Rejected err), s, d2)
                        | Inr (_, m') \<Rightarrow>
                            (Inr (pc_seq p), adoptSidecarState (pc_writes p) (s\<lparr>js_memory := m'\<rparr>),
                             reclaimSidecars fs (js_fsync s) reps d2))))"

text \<open>Reads and \<open>mintId\<close> go to the memory when the storage is usable.\<close>

definition jsonl_read :: "(store \<Rightarrow> store_error + 'a) \<Rightarrow> jsonl \<Rightarrow> jsonl_error + 'a" where
  "jsonl_read get s = assertUsable s (case get (js_memory s) of Inl e \<Rightarrow> Inl (Rejected e) | Inr v \<Rightarrow> Inr v)"

definition jsonl_mintId :: "jsonl \<Rightarrow> (jsonl_error + int) \<times> jsonl" where
  "jsonl_mintId s =
     (case assertUsable s (Inr ()) of
        Inl e \<Rightarrow> (Inl e, s)
      | Inr _ \<Rightarrow>
          (case mintId (js_memory s) of
             Inl e \<Rightarrow> (Inl (Rejected e), s)
           | Inr (i, m') \<Rightarrow> (Inr i, s\<lparr>js_memory := m'\<rparr>)))"

definition jsonl_close :: "jsonl \<Rightarrow> jsonl" where
  "jsonl_close s = (if js_closed s then s else s\<lparr>js_closed := True, js_memory := close_store (js_memory s)\<rparr>)"

end
