(* ===== verification/Jsonl_Recovery.thy ===== *)
theory Jsonl_Recovery
  imports Jsonl_Storage
begin

text \<open>
  Recovery of a JSONL storage (\<open>recover()\<close> and its helpers in
  \<open>packages/durable/src/storage/jsonl/storage.ts\<close>): torn lines are cut, the markers are replayed
  into a new in-memory storage with the records they confirm, records that a later base, retirement
  or terminal task made unnecessary may be missing, unconfirmed tails are cut, and unnecessary
  records are reclaimed.
\<close>

subsection \<open>Reading the files\<close>

text \<open>A step on the disk: its result and the disk after it.\<close>

type_synonym 'a on_disk = "disk \<Rightarrow> (jsonl_error + 'a) \<times> disk"

definition disk_then :: "'a on_disk \<Rightarrow> ('a \<Rightarrow> 'b on_disk) \<Rightarrow> 'b on_disk" where
  "disk_then x f d = (case x d of (Inl e, d') \<Rightarrow> (Inl e, d') | (Inr v, d') \<Rightarrow> f v d')"

definition disk_value :: "jsonl_error + 'a \<Rightarrow> 'a on_disk" where
  "disk_value r d = (r, d)"

definition parse_line :: "('r \<Rightarrow> bool) \<Rightarrow> 'r option \<Rightarrow> jsonl_error + 'r" where
  "parse_line valid l = (case l of Some r \<Rightarrow> if valid r then Inr r else Inl (Corrupt MalformedLine) | None \<Rightarrow> Inl (Corrupt MalformedLine))"

definition untorn :: "'r jfile \<Rightarrow> 'r jfile" where
  "untorn f = f\<lparr>jf_torn := False\<rparr>"

definition read_main :: "(fs_op \<Rightarrow> fs_outcome) \<Rightarrow> main_marker list on_disk" where
  "read_main fs d =
     (case dk_main d of
        None \<Rightarrow> (Inr [], d)
      | Some f \<Rightarrow>
          if \<not> fs_works fs ReadMain then (Inl (FileFailed ReadMain), d)
          else if jf_torn f \<and> \<not> fs_works fs TruncateMain then (Inl (FileFailed TruncateMain), d)
          else (each (parse_line parseMainMarker) (jf_lines f), d\<lparr>dk_main := Some (untorn f)\<rparr>))"

definition read_sidecar :: "(fs_op \<Rightarrow> fs_outcome) \<Rightarrow> sidecar_name \<Rightarrow> sidecar_record list on_disk" where
  "read_sidecar fs name d =
     (case map_of (dk_sidecars d) name of
        None \<Rightarrow> (Inr [], d)
      | Some f \<Rightarrow>
          if \<not> fs_works fs (ReadSidecar name) then (Inl (FileFailed (ReadSidecar name)), d)
          else if jf_torn f \<and> \<not> fs_works fs (TruncateTorn name) then (Inl (FileFailed (TruncateTorn name)), d)
          else (each (parse_line parseSidecarRecord) (jf_lines f), put_sidecar name (Some (untorn f)) d))"

definition record_before :: "sidecar_record \<Rightarrow> sidecar_record \<Rightarrow> bool" where
  "record_before r r' \<longleftrightarrow> sr_seq r < sr_seq r' \<or> (sr_seq r = sr_seq r' \<and> sr_ordinal r < sr_ordinal r')"

fun read_sidecars :: "(fs_op \<Rightarrow> fs_outcome) \<Rightarrow> sidecar_name list \<Rightarrow> (sidecar_name \<times> sidecar_record list) list on_disk" where
  "read_sidecars fs [] = disk_value (Inr [])"
| "read_sidecars fs (f # files) =
     disk_then (read_sidecar fs f) (\<lambda>rs.
       if \<not> successively record_before rs then disk_value (Inl (Corrupt (RecordOrder f)))
       else disk_then (read_sidecars fs files) (\<lambda>parsed. disk_value (Inr ((f, rs) # parsed))))"

text \<open>The names that recovery takes for sidecars, and with the suffix for left-over reclaim files: IDs are
  written without a sign.\<close>

definition isSidecarFileName :: "sidecar_name \<Rightarrow> bool" where
  "isSidecarFileName f \<longleftrightarrow> 0 \<le> (case f of DocFile i \<Rightarrow> i | TaskFile i \<Rightarrow> i)"

definition remove_temps :: "(fs_op \<Rightarrow> fs_outcome) \<Rightarrow> disk \<Rightarrow> disk" where
  "remove_temps fs d = d\<lparr>dk_temps := filter (\<lambda>f. \<not> (isSidecarFileName f \<and> fs_works fs (RemoveTemp f))) (dk_temps d)\<rparr>"

subsection \<open>What the markers say\<close>

type_synonym record_key = "sidecar_name \<times> int \<times> nat"

definition by_key :: "(sidecar_name \<times> sidecar_record list) list \<Rightarrow> record_key \<rightharpoonup> sidecar_record" where
  "by_key files = map_of (List.rev (concat (map (\<lambda>(f, rs). map (\<lambda>r. ((f, sr_seq r, sr_ordinal r), r)) rs) files)))"

definition marked :: "main_marker list \<Rightarrow> (int \<times> main_operation) list" where
  "marked ms = concat (map (\<lambda>m. map (Pair (mk_seq m)) (mk_writes m)) ms)"

fun current_created :: "int \<times> main_operation \<Rightarrow> int option" where
  "current_created (s, MCreate r n) = (if isCurrentOnly r then Some (dc_id r) else None)"
| "current_created _ = None"

fun retired_in :: "int \<times> main_operation \<Rightarrow> int option" where
  "retired_in (s, MRetire i) = Some i"
| "retired_in _ = None"

definition some_of :: "('w \<Rightarrow> int option) \<Rightarrow> 'w list \<Rightarrow> int set" where
  "some_of f ws = set (List.map_filter f ws)"

fun note_task :: "int \<times> main_operation \<Rightarrow> (int \<rightharpoonup> bool) \<Rightarrow> (int \<rightharpoonup> bool)" where
  "note_task (s, MTask t) live = live(tk_id t \<mapsto> False)"
| "note_task (s, MTaskSidecar i n) live = live(i \<mapsto> True)"
| "note_task _ live = live"

fun live_marked :: "int \<times> main_operation \<Rightarrow> int option" where
  "live_marked (s, MTaskSidecar i n) = Some i"
| "live_marked _ = None"

fun doc_target :: "main_operation \<Rightarrow> (int \<times> nat) option" where
  "doc_target (MCreate r n) = Some (dc_id r, n)"
| "doc_target (MChange i n) = Some (i, n)"
| "doc_target _ = None"

definition base_record :: "(record_key \<rightharpoonup> sidecar_record) \<Rightarrow> int \<Rightarrow> int \<Rightarrow> nat \<Rightarrow> sidecar_record option" where
  "base_record keys i s n =
     (case keys (DocFile i, s, n) of
        Some r \<Rightarrow>
          (case sr_payload r of
             PDocument j c \<Rightarrow> if j = i \<and> is_base c then Some r else None
           | PTask _ \<Rightarrow> None)
      | None \<Rightarrow> None)"

definition note_base :: "(record_key \<rightharpoonup> sidecar_record) \<Rightarrow> int set \<Rightarrow> int \<times> main_operation
    \<Rightarrow> (int \<rightharpoonup> sidecar_record) \<Rightarrow> (int \<rightharpoonup> sidecar_record)" where
  "note_base keys current op bases =
     (case doc_target (snd op) of
        None \<Rightarrow> bases
      | Some (i, n) \<Rightarrow>
          if i \<notin> current then bases
          else case base_record keys i (fst op) n of
            None \<Rightarrow> bases
          | Some r \<Rightarrow>
              (case bases i of
                 None \<Rightarrow> bases(i \<mapsto> r)
               | Some p \<Rightarrow> if record_before p r then bases(i \<mapsto> r) else bases))"

record recovery =
  rv_keys :: "record_key \<rightharpoonup> sidecar_record"
  rv_current :: "int set"
  rv_retired :: "int set"                     \<comment> \<open>retired current-only documents\<close>
  rv_bases :: "int \<rightharpoonup> sidecar_record"
  rv_live :: "int \<rightharpoonup> bool"

definition survey :: "main_marker list \<Rightarrow> (sidecar_name \<times> sidecar_record list) list \<Rightarrow> recovery" where
  "survey ms files =
     (let ops = marked ms; current = some_of current_created ops
      in \<lparr>rv_keys = by_key files, rv_current = current,
          rv_retired = some_of retired_in ops \<inter> current,
          rv_bases = fold (note_base (by_key files) current) ops Map.empty,
          rv_live = fold note_task ops Map.empty\<rparr>)"

definition isBeforeLatestBase :: "recovery \<Rightarrow> int \<Rightarrow> int \<Rightarrow> nat \<Rightarrow> bool" where
  "isBeforeLatestBase rv i s n =
     (case rv_bases rv i of
        None \<Rightarrow> False
      | Some b \<Rightarrow> s < sr_seq b \<or> (s = sr_seq b \<and> n < sr_ordinal b))"

definition task_ended :: "recovery \<Rightarrow> int \<Rightarrow> bool" where
  "task_ended rv i \<longleftrightarrow> rv_live rv i = Some False"

definition reclaimed :: "recovery \<Rightarrow> int \<Rightarrow> int \<Rightarrow> nat \<Rightarrow> bool" where
  "reclaimed rv i s n \<longleftrightarrow> i \<in> rv_retired rv \<or> isBeforeLatestBase rv i s n"

subsection \<open>Replaying the markers\<close>

definition confirmRecord :: "recovery \<Rightarrow> int \<Rightarrow> nat \<Rightarrow> sidecar_name \<Rightarrow> bool \<Rightarrow> record_key set
    \<Rightarrow> corruption + (sidecar_record option \<times> record_key set)" where
  "confirmRecord rv s n f optional confirmed =
     (if (f, s, n) \<in> confirmed then Inl ConfirmedTwice
      else case rv_keys rv (f, s, n) of
        None \<Rightarrow> if optional then Inr (None, confirmed) else Inl (MissingRecord f s)
      | Some r \<Rightarrow> Inr (Some r, insert (f, s, n) confirmed))"

definition document_content :: "int \<Rightarrow> int \<Rightarrow> sidecar_record option \<Rightarrow> corruption + content option" where
  "document_content i s r =
     (case r of
        None \<Rightarrow> Inr None
      | Some r \<Rightarrow>
          (case sr_payload r of
             PDocument j c \<Rightarrow> if j = i then Inr (Some c) else Inl (MismatchedRecord s)
           | PTask _ \<Rightarrow> Inl (MismatchedRecord s)))"

fun recover_op :: "recovery \<Rightarrow> int \<Rightarrow> main_operation \<Rightarrow> record_key set \<Rightarrow> corruption + (storage_write list \<times> record_key set)" where
  "recover_op rv s (MConversation c) confirmed = Inr ([WConversation c], confirmed)"
| "recover_op rv s (MEntry e) confirmed = Inr ([WEntry e], confirmed)"
| "recover_op rv s (MSubmission b) confirmed = Inr ([WSubmission b], confirmed)"
| "recover_op rv s (MTask t) confirmed = Inr ([WTask t], confirmed)"
| "recover_op rv s (MRetire i) confirmed = Inr ([WRetire i], confirmed)"
| "recover_op rv s (MTaskSidecar i n) confirmed =
     and_then (confirmRecord rv s n (TaskFile i) (task_ended rv i) confirmed) (\<lambda>(r, confirmed').
       case r of
         None \<Rightarrow> Inr ([], confirmed')
       | Some r \<Rightarrow>
           (case sr_payload r of
              PTask t \<Rightarrow>
                if tk_id t = i then Inr (if task_ended rv i then [] else [WTask t], confirmed')
                else Inl (MismatchedRecord s)
            | PDocument _ _ \<Rightarrow> Inl (MismatchedRecord s)))"
| "recover_op rv s (MCreate r n) confirmed =
     (let i = dc_id r in
      and_then (confirmRecord rv s n (DocFile i) (reclaimed rv i s n) confirmed) (\<lambda>(rc, confirmed').
      and_then (document_content i s rc) (\<lambda>c.
        case c of
          Some (Delta _ _) \<Rightarrow> Inl (NotABase s)
        | Some (Base v x) \<Rightarrow>
            Inr ([if reclaimed rv i s n then WCreate r 1 (JObj []) else WCreate r v x], confirmed')
        | None \<Rightarrow> Inr ([WCreate r 1 (JObj [])], confirmed'))))"
| "recover_op rv s (MChange i n) confirmed =
     and_then (confirmRecord rv s n (DocFile i) (reclaimed rv i s n) confirmed) (\<lambda>(rc, confirmed').
     and_then (document_content i s rc) (\<lambda>c.
       Inr (case c of None \<Rightarrow> [] | Some c \<Rightarrow> if reclaimed rv i s n then [] else [WChange i c], confirmed')))"

fun recover_ops :: "recovery \<Rightarrow> int \<Rightarrow> main_operation list \<Rightarrow> record_key set \<Rightarrow> corruption + (storage_write list \<times> record_key set)" where
  "recover_ops rv s [] confirmed = Inr ([], confirmed)"
| "recover_ops rv s (oper # ops) confirmed =
     and_then (recover_op rv s oper confirmed) (\<lambda>(ws, confirmed').
     and_then (recover_ops rv s ops confirmed') (\<lambda>(ws', confirmed'').
       Inr (ws @ ws', confirmed'')))"

definition replay_commit :: "(nat \<Rightarrow> bool) \<Rightarrow> int \<Rightarrow> storage_write list \<Rightarrow> store \<Rightarrow> corruption + store" where
  "replay_commit owned s ws m =
     (case and_then (prepareCommit owned m ws (Some s)) (\<lambda>p. apply_prepared p m) of
        Inl e \<Rightarrow> Inl (InvalidState s e)
      | Inr (_, m') \<Rightarrow> Inr m')"

fun recover_markers :: "(nat \<Rightarrow> bool) \<Rightarrow> recovery \<Rightarrow> main_marker list \<Rightarrow> record_key set \<Rightarrow> store \<Rightarrow> corruption + (record_key set \<times> store)" where
  "recover_markers owned rv [] confirmed m = Inr (confirmed, m)"
| "recover_markers owned rv (mk # mks) confirmed m =
     and_then (recover_ops rv (mk_seq mk) (mk_writes mk) confirmed) (\<lambda>(ws, confirmed').
     and_then (replay_commit owned (mk_seq mk) ws m) (\<lambda>m'.
       recover_markers owned rv mks confirmed' m'))"

subsection \<open>Tails and reclamation\<close>

definition is_confirmed :: "record_key set \<Rightarrow> sidecar_name \<Rightarrow> sidecar_record \<Rightarrow> bool" where
  "is_confirmed confirmed f r \<longleftrightarrow> (f, sr_seq r, sr_ordinal r) \<in> confirmed"

definition cut_tail :: "(fs_op \<Rightarrow> fs_outcome) \<Rightarrow> record_key set \<Rightarrow> sidecar_name \<Rightarrow> sidecar_record list \<Rightarrow> unit on_disk" where
  "cut_tail fs confirmed f rs d =
     (let kept = takeWhile (is_confirmed confirmed f) rs;
          tail = dropWhile (is_confirmed confirmed f) rs
      in if list_ex (is_confirmed confirmed f) tail then (Inl (Corrupt (ConfirmedAfterTail f)), d)
         else if tail = [] then (Inr (), d)
         else if fs_works fs (TruncateTail f)
         then (Inr (), put_sidecar f (Some \<lparr>jf_lines = map Some kept, jf_torn = False\<rparr>) d)
         else (Inl (FileFailed (TruncateTail f)), d))"

definition retained :: "recovery \<Rightarrow> sidecar_name \<Rightarrow> sidecar_record list \<Rightarrow> sidecar_record list option" where
  "retained rv f rs =
     (case f of
        TaskFile i \<Rightarrow> if task_ended rv i then Some [] else None
      | DocFile i \<Rightarrow>
          if i \<in> rv_retired rv then Some []
          else if rv_bases rv i \<noteq> None
          then Some (filter (\<lambda>r. \<not> isBeforeLatestBase rv i (sr_seq r) (sr_ordinal r)) rs) else None)"

definition reclamation :: "recovery \<Rightarrow> record_key set \<Rightarrow> sidecar_name \<times> sidecar_record list \<Rightarrow> (sidecar_name \<times> sidecar_record list) option" where
  "reclamation rv confirmed file =
     (let (f, rs) = file; lines = filter (is_confirmed confirmed f) rs
      in case retained rv f lines of
        None \<Rightarrow> None
      | Some kept \<Rightarrow> if length kept < length lines \<or> kept = [] then Some (f, kept) else None)"

fun cut_tails :: "(fs_op \<Rightarrow> fs_outcome) \<Rightarrow> record_key set \<Rightarrow> (sidecar_name \<times> sidecar_record list) list \<Rightarrow> unit on_disk" where
  "cut_tails fs confirmed [] = disk_value (Inr ())"
| "cut_tails fs confirmed ((f, rs) # files) = disk_then (cut_tail fs confirmed f rs) (\<lambda>_. cut_tails fs confirmed files)"

definition increasing_markers :: "main_marker list \<Rightarrow> bool" where
  "increasing_markers ms \<longleftrightarrow> successively (<) (0 # map mk_seq ms)"

definition corrupt :: "corruption + 'a \<Rightarrow> jsonl_error + 'a" where
  "corrupt r = (case r of Inl e \<Rightarrow> Inl (Corrupt e) | Inr v \<Rightarrow> Inr v)"

definition recover :: "(nat \<Rightarrow> bool) \<Rightarrow> (fs_op \<Rightarrow> fs_outcome) \<Rightarrow> bool \<Rightarrow> jsonl on_disk" where
  "recover owned fs fsync =
     disk_then (read_main fs) (\<lambda>ms.
       if \<not> increasing_markers ms then disk_value (Inl (Corrupt SequenceOrder))
       else if \<not> fs_works fs ListDir then disk_value (Inl (FileFailed ListDir))
       else (\<lambda>d. disk_then (read_sidecars fs (filter isSidecarFileName (map fst (dk_sidecars d)))) (\<lambda>files.
         let rv = survey ms files in
         disk_then (disk_value (corrupt (recover_markers owned rv ms {} new_store))) (\<lambda>(confirmed, m).
         disk_then (cut_tails fs confirmed files) (\<lambda>_ d'.
           (Inr \<lparr>js_memory = m, js_currentOnly = rv_current rv, js_live = Set.filter (\<lambda>i. rv_live rv i = Some True) (some_of live_marked (marked ms)),
                 js_closed = False, js_poisoned = False, js_fsync = fsync\<rparr>,
            reclaimSidecars fs fsync (List.map_filter (reclamation rv confirmed) files) d'))))
        (remove_temps fs d)))"

end
