(* ===== verification/Jsonl_Replay.thy ===== *)
theory Jsonl_Replay
  imports Jsonl_Recovery
begin

text \<open>
  Replaying a thinned history. Recovery leaves out the live records of tasks that ended and the contents
  of documents that a later base or a retirement made unnecessary. A simulation shows that the
  thinned history is accepted whenever the full one was, and ends in the same records.
\<close>

subsection \<open>Thinned writes\<close>

text \<open>\<open>ended\<close>: the tasks whose live records are left out. \<open>gone i s\<close>: the content of document \<open>i\<close> at
  sequence \<open>s\<close> is left out.\<close>

fun thin_write :: "int set \<Rightarrow> (int \<Rightarrow> int \<Rightarrow> bool) \<Rightarrow> int \<Rightarrow> storage_write \<Rightarrow> storage_write list" where
  "thin_write ended gone s (WTask t) = (if tk_id t \<in> ended \<and> \<not> is_terminal t then [] else [WTask t])"
| "thin_write ended gone s (WCreate r v x) = [if gone (dc_id r) s then WCreate r 1 (JObj []) else WCreate r v x]"
| "thin_write ended gone s (WChange i c) = (if gone i s then [] else [WChange i c])"
| "thin_write ended gone s w = [w]"

definition thin :: "int set \<Rightarrow> (int \<Rightarrow> int \<Rightarrow> bool) \<Rightarrow> int \<Rightarrow> storage_write list \<Rightarrow> storage_write list" where
  "thin ended gone s ws = concat (map (thin_write ended gone s) ws)"

lemma thin_simps [simp]:
  "thin ended gone s [] = []" "thin ended gone s (w # ws) = thin_write ended gone s w @ thin ended gone s ws"
  by (simp_all add: thin_def)

text \<open>No task write revives a terminal task.\<close>

fun revives :: "(int \<rightharpoonup> task) \<Rightarrow> storage_write \<Rightarrow> bool" where
  "revives tasks (WTask t) = (\<not> is_terminal t \<and> (case tasks (tk_id t) of None \<Rightarrow> False | Some u \<Rightarrow> is_terminal u))"
| "revives tasks _ = False"

fun task_put :: "storage_write \<Rightarrow> (int \<rightharpoonup> task) \<Rightarrow> (int \<rightharpoonup> task)" where
  "task_put (WTask t) tasks = tasks(tk_id t \<mapsto> t)"
| "task_put _ tasks = tasks"

fun lasting :: "(int \<rightharpoonup> task) \<Rightarrow> storage_write list \<Rightarrow> bool" where
  "lasting tasks [] = True"
| "lasting tasks (w # ws) = (\<not> revives tasks w \<and> lasting (task_put w tasks) ws)"

subsection \<open>The tables\<close>

definition thin_tasks :: "int set \<Rightarrow> (int \<rightharpoonup> task) \<Rightarrow> (int \<rightharpoonup> task)" where
  "thin_tasks ended tasks =
     (\<lambda>i. case tasks i of None \<Rightarrow> None | Some t \<Rightarrow> if i \<in> ended \<and> \<not> is_terminal t then None else Some t)"

definition tables_sim :: "int set \<Rightarrow> store \<Rightarrow> store \<Rightarrow> bool" where
  "tables_sim ended m m' \<longleftrightarrow>
     ms_conversations m' = ms_conversations m \<and> ms_entries m' = ms_entries m
     \<and> ms_entrySeqs m' = ms_entrySeqs m \<and> ms_submissions m' = ms_submissions m
     \<and> ms_byRequest m' = ms_byRequest m \<and> ms_tasks m' = thin_tasks ended (ms_tasks m)"

lemma tasks_put: "ms_tasks (apply_write s w m) = task_put w (ms_tasks m)"
  by (cases w) (simp_all add: store_simps)

lemma thin_tables_step:
  assumes "tables_sim ended m m'" "\<not> revives (ms_tasks m) w"
  shows "tables_sim ended (apply_write s w m) (fold (apply_write s) (thin_write ended gone s w) m')"
proof (cases w)
  case (WTask t)
  have tasks: "ms_tasks m' = thin_tasks ended (ms_tasks m)" using assms(1) by (simp add: tables_sim_def)
  show ?thesis
  proof (cases "tk_id t \<in> ended \<and> \<not> is_terminal t")
    case True
    then have "thin_tasks ended (ms_tasks m) = thin_tasks ended ((ms_tasks m)(tk_id t \<mapsto> t))"
      using WTask assms(2) by (auto simp: thin_tasks_def fun_eq_iff split: option.splits)
    with True WTask assms(1) tasks show ?thesis by (simp add: tables_sim_def store_simps)
  next
    case False
    then have "(thin_tasks ended (ms_tasks m))(tk_id t \<mapsto> t) = thin_tasks ended ((ms_tasks m)(tk_id t \<mapsto> t))"
      by (auto simp: thin_tasks_def fun_eq_iff)
    with False WTask assms(1) tasks show ?thesis by (auto simp add: tables_sim_def store_simps)
  qed
qed (use assms in \<open>simp_all add: tables_sim_def store_simps\<close>)

lemma thin_tables:
  assumes "tables_sim ended m m'" "lasting (ms_tasks m) ws"
  shows "tables_sim ended (fold (apply_write s) ws m) (fold (apply_write s) (thin ended gone s ws) m')"
  using assms
proof (induction ws arbitrary: m m')
  case (Cons w ws)
  from Cons.IH[OF thin_tables_step[OF Cons.prems(1)]] Cons.prems(2) show ?case
    by (simp add: tasks_put)
qed simp


subsection \<open>The checks of the thinned writes\<close>

lemma thin_claims: "w' \<in> set (thin_write ended gone s w) \<Longrightarrow> claim w' = claim w"
  by (cases w) (auto split: if_splits)

lemma thin_check:
  assumes "checkGlobalIds m claimed ws = None" "ms_types m' \<subseteq>\<^sub>m ms_types m" "claimed' \<subseteq>\<^sub>m claimed"
  shows "checkGlobalIds m' claimed' (thin ended gone s ws) = None"
  using assms(1,3)
proof (induction ws arbitrary: claimed claimed')
  case (Cons w ws)
  have upd: "claimed' \<subseteq>\<^sub>m claimed(i \<mapsto> t)" "claimed'(i \<mapsto> t) \<subseteq>\<^sub>m claimed(i \<mapsto> t)"
    if "claim w = Some (i, t)" for i t
    using check_step(3)[OF Cons.prems(1) that] Cons.prems(2) by (auto simp: map_le_def dom_def)
  have short: "thin_write ended gone s w = [] \<or> (\<exists>w'. thin_write ended gone s w = [w'] \<and> claim w' = claim w)"
    by (cases w) auto
  show ?case
  proof (cases "claim w")
    case None
    with Cons.prems have "checkGlobalIds m claimed ws = None" by simp
    from Cons.IH[OF this Cons.prems(2)] None short show ?thesis by auto
  next
    case (Some it)
    obtain i t where it: "claim w = Some (i, t)" using Some by (cases it) auto
    note step = check_step[OF Cons.prems(1) it]
    have fresh: "ms_types m' i \<in> {None, Some t}" "claimed' i \<in> {None, Some t}"
      "written_once t \<Longrightarrow> ms_types m' i = None \<and> claimed' i = None"
      using step(2,3) assms(2) Cons.prems(2) by (auto simp: map_le_def dom_def)
    have rest: "checkGlobalIds m' (claimed'(i \<mapsto> t)) (thin ended gone s ws) = None"
      by (rule Cons.IH[OF step(1) upd(2)[OF it]])
    have "checkGlobalIds m' claimed' (w' # thin ended gone s ws) = None" if "claim w' = claim w" for w'
      using fresh rest that it
      by (cases "ms_types m' i"; cases "claimed' i"; cases "written_once t") (simp_all del: fun_upd_apply)
    with short Cons.IH[OF step(1) upd(1)[OF it]] show ?thesis by auto
  qed
qed simp

text \<open>The action of a document after thinning.\<close>

definition thin_action :: "(int \<Rightarrow> int \<Rightarrow> bool) \<Rightarrow> int \<Rightarrow> int \<Rightarrow> doc_action \<Rightarrow> doc_action" where
  "thin_action gone s i a =
     (if gone i s \<and> da_content a \<noteq> None
      then a\<lparr>da_content := (if da_create a = None then None else Some (Base 1 (JObj [])))\<rparr> else a)"

lemma action_of_update [simp]: "action_of (AList.update i a acts) j = (if j = i then a else action_of acts j)"
  by (simp add: action_of_def update_conv)

lemma no_action_fields [simp]:
  "da_create no_action = None" "da_content no_action = None" "da_retire no_action = False"
  by (simp_all add: no_action_def)

lemma keys_update [simp]: "fst ` set (AList.update i a acts) = insert i (fst ` set acts)"
  by (simp add: dom_update)

lemma action_of_Nil [simp]: "action_of [] i = no_action"
  by (simp add: action_of_def)

lemma thin_no_action [simp]: "thin_action gone s i no_action = no_action"
  by (simp add: thin_action_def no_action_def)

lemma thin_prepare:
  assumes "prepareDocumentActions ws acts = Inr acts1"
    and "\<And>i. action_of acts' i = thin_action gone s i (action_of acts i)"
    and "\<And>i. da_create (action_of acts i) \<noteq> None \<Longrightarrow> da_content (action_of acts i) \<noteq> None"
    and "fst ` set acts' \<subseteq> fst ` set acts"
  shows "\<exists>acts1'. prepareDocumentActions (thin ended gone s ws) acts' = Inr acts1'
    \<and> (\<forall>i. action_of acts1' i = thin_action gone s i (action_of acts1 i)) \<and> fst ` set acts1' \<subseteq> fst ` set acts1"
  using assms
proof (induction ws arbitrary: acts acts')
  case (Cons w ws)
  from Cons.prems(1) obtain acts2 where first: "add_action w acts = Inr acts2"
    and rest: "prepareDocumentActions ws acts2 = Inr acts1"
    by (auto simp: and_then_Inr)
  note same = Cons.prems(2) and shape = Cons.prems(3) and keys = Cons.prems(4)
  have "\<exists>acts2'. prepareDocumentActions (thin_write ended gone s w) acts' = Inr acts2'
      \<and> (\<forall>i. action_of acts2' i = thin_action gone s i (action_of acts2 i))
      \<and> (\<forall>i. da_create (action_of acts2 i) \<noteq> None \<longrightarrow> da_content (action_of acts2 i) \<noteq> None)
      \<and> fst ` set acts2' \<subseteq> fst ` set acts2"
  proof (cases w)
    case (WCreate r v x)
    let ?i = "dc_id r"
    from first WCreate have none: "da_create (action_of acts ?i) = None" "da_content (action_of acts ?i) = None"
      and acts2: "acts2 = AList.update ?i ((action_of acts ?i)\<lparr>da_create := Some r, da_content := Some (Base v x)\<rparr>) acts"
      by (auto simp: Let_def split: if_splits)
    have eq: "action_of acts' ?i = action_of acts ?i" using same[of ?i] none by (simp add: thin_action_def)
    show ?thesis
      using shape unfolding WCreate acts2
      by (simp add: Let_def eq none same thin_action_def[of gone s ?i] subset_insertI2[OF keys])
  next
    case (WChange i c)
    from first have none: "da_content (action_of acts i) = None"
      and acts2: "acts2 = AList.update i ((action_of acts i)\<lparr>da_content := Some c\<rparr>) acts"
      unfolding WChange by (auto simp: Let_def split: if_splits)
    then have create: "da_create (action_of acts i) = None" using shape[of i] by blast
    have eq: "action_of acts' i = action_of acts i" using same[of i] none by (simp add: thin_action_def)
    have "action_of acts i\<lparr>da_content := None\<rparr> = action_of acts i" using none by simp
    then show ?thesis
      using shape unfolding WChange acts2
      by (simp add: Let_def eq none create same thin_action_def[of gone s i] subset_insertI2[OF keys])
  next
    case (WRetire i)
    from first have none: "\<not> da_retire (action_of acts i)"
      and acts2: "acts2 = AList.update i ((action_of acts i)\<lparr>da_retire := True\<rparr>) acts"
      unfolding WRetire by (auto simp: Let_def split: if_splits)
    have eq: "(thin_action gone s i (action_of acts i))\<lparr>da_retire := True\<rparr> = thin_action gone s i ((action_of acts i)\<lparr>da_retire := True\<rparr>)"
      "da_retire (thin_action gone s i (action_of acts i)) = da_retire (action_of acts i)"
      by (simp_all add: thin_action_def)
    show ?thesis
      using shape unfolding WRetire acts2
      by (simp add: Let_def none same eq subset_insertI2[OF keys])
  qed (use first same shape keys in auto)
  then obtain acts2' where second: "prepareDocumentActions (thin_write ended gone s w) acts' = Inr acts2'"
    "\<And>i. action_of acts2' i = thin_action gone s i (action_of acts2 i)"
    "\<And>i. da_create (action_of acts2 i) \<noteq> None \<Longrightarrow> da_content (action_of acts2 i) \<noteq> None"
    "fst ` set acts2' \<subseteq> fst ` set acts2" by blast
  have append: "prepareDocumentActions (us @ vs) a = and_then (prepareDocumentActions us a) (prepareDocumentActions vs)" for us vs a
    by (induction us arbitrary: a) (auto simp: and_then_def split: sum.split)
  from Cons.IH[OF rest second(2,3,4)] second(1) show ?case by (simp add: append)
qed auto

end
