(* ===== verification/Jsonl_Thinning.thy ===== *)
theory Jsonl_Thinning
  imports Jsonl_Replay
begin

text \<open>
  One commit of a thinned history against the same commit of the full one: it is accepted whenever
  the full one was, and keeps the two stores related.
\<close>

subsection \<open>The check of the document actions, whatever their order\<close>

lemma sum_over_keys:
  fixes f :: "int \<times> doc_action \<Rightarrow> int"
  assumes "distinct (map fst acts)" "\<And>i. f (i, no_action) = 0" "finite S" "fst ` set acts \<subseteq> S"
  shows "sum_list (map f acts) = (\<Sum>i\<in>S. f (i, action_of acts i))"
  using assms(1,3,4)
proof (induction acts arbitrary: S)
  case Nil
  then show ?case by (simp add: assms(2))
next
  case (Cons ia acts)
  obtain i a where ia: "ia = (i, a)" by (cases ia)
  have "sum_list (map f acts) = (\<Sum>j\<in>S - {i}. f (j, action_of acts j))"
    using Cons.prems ia by (intro Cons.IH) auto
  also have "\<dots> = (\<Sum>j\<in>S - {i}. f (j, action_of (ia # acts) j))"
    by (rule sum.cong) (auto simp: ia action_of_def)
  finally show ?case
    using Cons.prems ia sum.remove[of S i "\<lambda>j. f (j, action_of (ia # acts) j)"] by (simp add: action_of_def)
qed

lemma room_check:
  assumes "\<forall>(i, a) \<in> set acts. check_action m i a = None" "distinct (map fst live)"
    and "\<And>k. live_total m live k + sum_list (map (live_change m k) acts) \<le> 1"
  shows "check_actions m acts live = None"
  using assms
proof (induction acts arbitrary: live)
  case Nil
  have "n \<le> 1" if "(k, n) \<in> set live" for k n
    using Nil(3)[of k] map_of_is_SomeI[OF Nil(2) that] by (simp add: live_total_def)
  then show ?case by fastforce
next
  case (Cons ia acts)
  obtain i a where ia: "ia = (i, a)" by (cases ia)
  have "distinct (map fst (count_live m i a live))"
    using Cons.prems(2) by (simp add: count_live_def Let_def distinct_update)
  with Cons.prems ia have "check_actions m acts (count_live m i a live) = None"
    by (intro Cons.IH) (auto simp: count_live_total add.assoc)
  with Cons.prems ia show ?case by simp
qed

lemma actions_documents:
  assumes "applicable ws n m acts"
  shows "ms_documents (applyDocumentActions acts seq m) i =
    (case map_of acts i of None \<Rightarrow> ms_documents m i | Some a \<Rightarrow> Some (acted seq a (ms_documents m i)))"
  using assms
proof (induction acts arbitrary: m)
  case (Cons ia acts)
  obtain j a where ia: "ia = (j, a)" by (cases ia)
  note d = applicableD[OF Cons.prems[unfolded ia]]
  have first: "ms_documents (apply_action seq (j, a) m) = (ms_documents m)(j \<mapsto> acted seq a (ms_documents m j))"
    using d(1) by (cases rule: ready_cases) (auto simp: action_effect_create[OF d(1)] action_effect_existing[OF d(1)])
  have "map_of acts j = None" using d(4) by (simp add: map_of_eq_None_iff)
  with Cons.IH[OF applicable_step[OF Cons.prems[unfolded ia], of seq]] show ?case
    unfolding ia applyDocumentActions_def by (auto simp: first split: option.split)
qed (simp add: applyDocumentActions_def)

subsection \<open>One document\<close>

definition doc_sim :: "(int \<Rightarrow> int \<Rightarrow> bool) \<Rightarrow> int \<Rightarrow> doc_state \<Rightarrow> doc_state \<Rightarrow> bool" where
  "doc_sim gone i d d' \<longleftrightarrow>
     d' = d
     \<or> (ds_record d' = ds_record d \<and> isCurrentOnly (ds_record d) \<and> dr_retired (ds_record d) = None
        \<and> gone i (snd (last (ds_revisions d))))"

definition docs_sim :: "(int \<Rightarrow> int \<Rightarrow> bool) \<Rightarrow> store \<Rightarrow> store \<Rightarrow> bool" where
  "docs_sim gone m m' \<longleftrightarrow> (\<forall>i. rel_option (doc_sim gone i) (ms_documents m i) (ms_documents m' i))"

lemma doc_sim_record: "doc_sim gone i d d' \<Longrightarrow> ds_record d' = ds_record d"
  by (auto simp: doc_sim_def)

text \<open>What thinning may leave out of a commit at sequence \<open>s\<close>: contents of current-only documents, and the
  first content after the last one left out is a base.\<close>

definition may_thin :: "(int \<Rightarrow> int \<Rightarrow> bool) \<Rightarrow> int \<Rightarrow> store \<Rightarrow> int \<Rightarrow> doc_action \<Rightarrow> bool" where
  "may_thin gone s m i a \<longleftrightarrow>
     (\<forall>c. da_content a = Some c \<longrightarrow>
        (gone i s \<longrightarrow>
           (case da_create a of Some r \<Rightarrow> isCurrentOnly r
            | None \<Rightarrow> \<forall>d. ms_documents m i = Some d \<longrightarrow> isCurrentOnly (ds_record d)))
        \<and> (\<forall>d. ms_documents m i = Some d \<longrightarrow> \<not> gone i s \<longrightarrow> gone i (snd (last (ds_revisions d))) \<longrightarrow> is_base c))"

lemma change_sim:
  assumes "doc_sim gone i d d'" "dr_retired (ds_record d) = None" "gone i s \<longrightarrow> isCurrentOnly (ds_record d)"
    and "\<not> gone i s \<Longrightarrow> gone i (snd (last (ds_revisions d))) \<Longrightarrow> is_base c"
  shows "doc_sim gone i (change_document c s d) (if gone i s then d' else change_document c s d')"
  using assms by (cases d; cases d') (auto simp: doc_sim_def change_document_def)

lemma retire_sim:
  "doc_sim gone i d d' \<Longrightarrow> retire_document False s d' = retire_document False s d"
  by (cases d; cases d') (auto simp: doc_sim_def retire_document_def Let_def isCurrentOnly_def)

lemma acted_sim:
  assumes "ready ws m (i, a)" "may_thin gone s m i a" "rel_option (doc_sim gone i) (ms_documents m i) (ms_documents m' i)"
  shows "doc_sim gone i (acted s a (ms_documents m i)) (acted s (thin_action gone s i a) (ms_documents m' i))"
  using assms(1)
proof (cases rule: ready_cases)
  case (creates r)
  with assms(1) obtain v x where c: "da_content a = Some (Base v x)" by (auto simp: ready_def action_shape_def)
  show ?thesis
    using assms(2) creates c
    by (auto simp: acted_def thin_action_def doc_sim_def may_thin_def retire_document_def Let_def isCurrentOnly_def)
next
  case (exists d)
  with assms(3) obtain d' where d': "ms_documents m' i = Some d'" "doc_sim gone i d d'"
    by (auto simp: option_rel_Some1)
  let ?e = "case da_content a of None \<Rightarrow> d | Some c \<Rightarrow> change_document c s d"
  let ?e' = "case da_content (thin_action gone s i a) of None \<Rightarrow> d' | Some c \<Rightarrow> change_document c s d'"
  have "doc_sim gone i ?e ?e'"
  proof (cases "da_content a")
    case None
    with d'(2) show ?thesis by (simp add: thin_action_def)
  next
    case (Some c)
    with change_sim[OF d'(2) exists(3), of s c] assms(2) exists show ?thesis
      by (auto simp: may_thin_def thin_action_def)
  qed
  moreover have "acted s a (Some d) = (if da_retire a then retire_document False s ?e else ?e)"
    using exists(1) by (simp add: acted_def split: option.split)
  moreover have "acted s (thin_action gone s i a) (Some d') = (if da_retire a then retire_document False s ?e' else ?e')"
    using exists(1) by (simp add: acted_def thin_action_def split: option.split)
  ultimately show ?thesis using d'(1) exists(2) retire_sim by (auto simp: doc_sim_def)
qed

subsection \<open>One commit\<close>

definition thinned :: "int set \<Rightarrow> (int \<Rightarrow> int \<Rightarrow> bool) \<Rightarrow> store \<Rightarrow> store \<Rightarrow> bool" where
  "thinned ended gone m m' \<longleftrightarrow>
     tables_sim ended m m' \<and> docs_sim gone m m' \<and> ms_nextSeq m' = ms_nextSeq m \<and> ms_closed m' = ms_closed m"

lemma thinned_at:
  assumes "thinned ended gone m m'"
  shows "rel_option (doc_sim gone i) (ms_documents m i) (ms_documents m' i)"
    "ms_documents m' i = None \<longleftrightarrow> ms_documents m i = None"
    "map_option ds_record (ms_documents m' i) = map_option ds_record (ms_documents m i)"
proof -
  show r: "rel_option (doc_sim gone i) (ms_documents m i) (ms_documents m' i)"
    using assms by (simp add: thinned_def docs_sim_def)
  then show "ms_documents m' i = None \<longleftrightarrow> ms_documents m i = None"
    "map_option ds_record (ms_documents m' i) = map_option ds_record (ms_documents m i)"
    by (cases rule: option.rel_cases; simp add: doc_sim_record)+
qed

lemma thinned_types:
  assumes "thinned ended gone m m'" "store_ok m" "store_ok m'"
  shows "ms_types m' \<subseteq>\<^sub>m ms_types m"
proof (unfold map_le_def, intro ballI)
  fix i
  assume "i \<in> dom (ms_types m')"
  then obtain t where t: "ms_types m' i = Some t" by blast
  from assms(2,3) have "types_ok m" "types_ok m'" by (auto simp: store_ok_def tables_ok_def)
  note at = types_ok_at[OF this(1), of i] types_ok_at[OF this(2), of i]
  show "ms_types m' i = ms_types m i"
    using t at assms(1) thinned_at(2)[OF assms(1), of i]
    by (cases t) (auto simp: thinned_def tables_sim_def thin_tasks_def split: option.splits)
qed

lemma thinned_current:
  assumes "thinned ended gone m m'" "store_ok m" "store_ok m'"
  shows "current_of m' = current_of m"
proof
  fix k
  have "live_at m' i k = live_at m i k" for i
    using thinned_at(3)[OF assms(1), of i]
    by (cases "ms_documents m i"; cases "ms_documents m' i") (auto simp: live_at_def)
  then have "current_of m' k = Some i \<longleftrightarrow> current_of m k = Some i" for i
    using assms(2,3) by (simp add: store_ok_def addresses_ok_def)
  then show "current_of m' k = current_of m k" by (metis not_Some_eq)
qed

lemma thin_create [simp]:
  "da_create (thin_action gone s i a) = da_create a" "da_retire (thin_action gone s i a) = da_retire a"
  by (simp_all add: thin_action_def)

lemma thinned_address:
  assumes "thinned ended gone m m'"
  shows "action_address m' i (thin_action gone s i a) = action_address m i a"
  using thinned_at(3)[OF assms, of i]
  by (cases "ms_documents m i"; cases "ms_documents m' i") (auto simp: action_address_def split: option.split)

lemma thinned_check:
  assumes "thinned ended gone m m'" "check_action m i a = None" "may_thin gone s m i a"
  shows "check_action m' i (thin_action gone s i a) = None"
proof -
  from thinned_at(1)[OF assms(1), of i] show ?thesis
  proof (cases rule: option.rel_cases)
    case None
    with assms(2) show ?thesis
      by (auto simp: check_action_def thin_action_def split: if_splits option.splits content.splits)
  next
    case (Some d d')
    note rec = doc_sim_record[OF Some(3)]
    show ?thesis
    proof (cases "d' = d \<or> gone i s")
      case True
      with assms(2) Some rec show ?thesis
        by (auto simp: check_action_def thin_action_def Let_def split: if_splits option.splits content.splits)
    next
      case False
      with Some(3) have "gone i (snd (last (ds_revisions d)))" by (auto simp: doc_sim_def)
      with assms(3) Some(1) False have "is_base c" if "da_content a = Some c" for c
        using that by (auto simp: may_thin_def)
      with assms(2) Some False rec show ?thesis
        by (auto simp: check_action_def thin_action_def Let_def split: if_splits option.splits content.splits)
    qed
  qed
qed

lemma each_same: "(\<And>x. x \<in> set xs \<Longrightarrow> f x = Inr x) \<Longrightarrow> each f xs = Inr xs"
  by (induction xs) simp_all

lemma resolve_none: "\<not> list_ex is_copy ws \<Longrightarrow> resolveDocumentCopies owned m ws = Inr ws"
proof -
  assume a: "\<not> list_ex is_copy ws"
  have "resolve_copy owned m cs w = Inr w" if "\<not> is_copy w" for cs w using that by (cases w) simp_all
  with a show ?thesis by (auto simp: resolveDocumentCopies_def list_ex_iff intro!: each_same)
qed

lemma thin_no_copy: "\<not> list_ex is_copy ws \<Longrightarrow> \<not> list_ex is_copy (thin ended gone s ws)"
proof (induction ws)
  case (Cons w ws)
  then show ?case by (cases w) auto
qed simp

lemma replayD:
  assumes "replay_commit owned s ws m = Inr m1" "\<not> list_ex is_copy ws"
  obtains p where "prepareCommit owned m ws (Some s) = Inr p" "pc_seq p = s" "pc_writes p = ws"
    "apply_prepared p m = Inr (p\<lparr>pc_applied := True\<rparr>, m1)"
    "m1 = (applyDocumentActions (pc_actions p) s (fold (apply_write s) ws m))\<lparr>ms_nextSeq := s + 1\<rparr>"
proof -
  from assms(1) obtain p p1 where p: "prepareCommit owned m ws (Some s) = Inr p" and a: "apply_prepared p m = Inr (p1, m1)"
    by (auto simp: replay_commit_def and_then_Inr split: sum.splits)
  have w: "pc_writes p = ws" using prepareD(4)[OF p] resolve_none[OF assms(2)] by simp
  have s: "pc_seq p = s" using p
    by (auto simp: prepareCommit_def assertOpen_def Let_def and_then_Inr fails_if_def split: if_splits option.splits)
  show ?thesis using that[OF p s w] applyD[OF p] a w s by simp
qed

text \<open>\<open>acts'\<close> are the actions of the thinned commit, \<open>acts\<close> those of the full one.\<close>

definition thin_actions :: "(int \<Rightarrow> int \<Rightarrow> bool) \<Rightarrow> int \<Rightarrow> doc_actions \<Rightarrow> doc_actions \<Rightarrow> bool" where
  "thin_actions gone s acts acts' \<longleftrightarrow>
     distinct (map fst acts) \<and> distinct (map fst acts') \<and> fst ` set acts' \<subseteq> fst ` set acts
     \<and> (\<forall>i. action_of acts' i = thin_action gone s i (action_of acts i))"

lemma thinned_total:
  assumes "thinned ended gone m m'" "store_ok m" "store_ok m'" "thin_actions gone s acts acts'"
  shows "live_total m' [] k + sum_list (map (live_change m' k) acts')
    = live_total m [] k + sum_list (map (live_change m k) acts)"
proof -
  note cur = thinned_current[OF assms(1-3)]
  have none: "live_change M k (i, no_action) = 0" for M i by (simp add: live_change_def)
  have same: "live_change m' k (i, thin_action gone s i a) = live_change m k (i, a)" for i a
    using thinned_address[OF assms(1)] cur by (simp add: live_change_def)
  let ?S = "fst ` set acts"
  have "sum_list (map (live_change m' k) acts') = (\<Sum>i\<in>?S. live_change m' k (i, action_of acts' i))"
    using assms(4) none by (intro sum_over_keys) (auto simp: thin_actions_def)
  also have "\<dots> = (\<Sum>i\<in>?S. live_change m k (i, action_of acts i))"
    using assms(4) same by (simp add: thin_actions_def)
  also have "\<dots> = sum_list (map (live_change m k) acts)"
    using assms(4) none by (intro sum_over_keys[symmetric]) (auto simp: thin_actions_def)
  finally show ?thesis using cur by (simp add: live_total_def)
qed

lemma action_of_member: "(i, a) \<in> set acts \<Longrightarrow> distinct (map fst acts) \<Longrightarrow> action_of acts i = a"
  by (simp add: action_of_def)

lemma thinned_checks:
  assumes "thinned ended gone m m'" "thin_actions gone s acts acts'" "\<forall>(i, a) \<in> set acts. check_action m i a = None"
    and "\<And>i. may_thin gone s m i (action_of acts i)"
  shows "\<forall>(i, a) \<in> set acts'. check_action m' i a = None"
proof clarify
  fix i a
  assume mem: "(i, a) \<in> set acts'"
  with assms(2) have a: "a = thin_action gone s i (action_of acts i)"
    using action_of_member[OF mem] by (auto simp: thin_actions_def)
  from mem have "i \<in> fst ` set acts'" by force
  with assms(2) have "i \<in> fst ` set acts" by (auto simp: thin_actions_def)
  then obtain b where b: "(i, b) \<in> set acts" by auto
  with assms(2) have "action_of acts i = b" by (auto simp: thin_actions_def intro: action_of_member)
  with assms(3) b have "check_action m i (action_of acts i) = None" by auto
  from thinned_check[OF assms(1) this assms(4)] show "check_action m' i a = None" by (simp add: a)
qed

text \<open>A document after the actions, by its action.\<close>

lemma documents_acted:
  assumes "applicable ws n m acts"
  shows "ms_documents (applyDocumentActions acts seq m) i =
    (if action_of acts i = no_action then ms_documents m i else Some (acted seq (action_of acts i) (ms_documents m i)))"
proof (cases "map_of acts i")
  case None
  then show ?thesis by (simp add: actions_documents[OF assms] action_of_def)
next
  case (Some a)
  then have mem: "(i, a) \<in> set acts" by (rule map_of_SomeD)
  have "a = no_action \<Longrightarrow> Some (acted seq a (ms_documents m i)) = ms_documents m i"
  proof -
    assume "a = no_action"
    moreover from mem assms have "ready ws m (i, a)" by (auto simp: applicable_def)
    ultimately have "\<exists>d. ms_documents m i = Some d" using ready_cases[of ws m i a] by fastforce
    then obtain d where "ms_documents m i = Some d" ..
    with \<open>a = no_action\<close> show ?thesis by (simp add: acted_def)
  qed
  with Some show ?thesis by (simp add: actions_documents[OF assms] action_of_def)
qed

lemma thinned_docs:
  assumes "docs_sim gone m m'" "applicable ws n m acts" "applicable ws' n' m' acts'" "thin_actions gone s acts acts'"
    and "\<And>i. may_thin gone s m i (action_of acts i)"
  shows "docs_sim gone (applyDocumentActions acts s m) (applyDocumentActions acts' s m')"
  unfolding docs_sim_def documents_acted[OF assms(2)] documents_acted[OF assms(3)]
proof
  fix i
  have at: "rel_option (doc_sim gone i) (ms_documents m i) (ms_documents m' i)" using assms(1) by (simp add: docs_sim_def)
  have a': "action_of acts' i = thin_action gone s i (action_of acts i)" using assms(4) by (simp add: thin_actions_def)
  show "rel_option (doc_sim gone i)
     (if action_of acts i = no_action then ms_documents m i else Some (acted s (action_of acts i) (ms_documents m i)))
     (if action_of acts' i = no_action then ms_documents m' i else Some (acted s (action_of acts' i) (ms_documents m' i)))"
  proof (cases "action_of acts i = no_action")
    case True
    with at a' show ?thesis by simp
  next
    case False
    then have "(i, action_of acts i) \<in> set acts"
      by (auto simp: action_of_def dest: map_of_SomeD split: option.splits)
    with assms(2) have rdy: "ready ws m (i, action_of acts i)" by (auto simp: applicable_def)
    note both = acted_sim[OF rdy assms(5) at]
    show ?thesis
    proof (cases "action_of acts' i = no_action")
      case none: True
      then have "da_create (action_of acts i) = None" using a' by (metis thin_create(1) no_action_fields(1))
      with rdy obtain e where "ms_documents m i = Some e" by (cases rule: ready_cases) auto
      with at obtain e' where e': "ms_documents m' i = Some e'" by (auto simp: option_rel_Some1)
      have "acted s no_action (Some e') = e'" by (simp add: acted_def)
      with both False none a' e' show ?thesis by simp
    next
      case some: False
      with both False a' show ?thesis by simp
    qed
  qed
qed

lemma docs_sim_cong:
  "ms_documents m1 = ms_documents m \<Longrightarrow> ms_documents m1' = ms_documents m' \<Longrightarrow> docs_sim gone m1 m1' = docs_sim gone m m'"
  by (simp add: docs_sim_def)

lemma may_thin_cong: "ms_documents m1 = ms_documents m \<Longrightarrow> may_thin gone s m1 i a = may_thin gone s m i a"
  by (simp add: may_thin_def cong: option.case_cong)

text \<open>The thinned commit is accepted, and the stores stay related.\<close>

lemma thin_commit:
  assumes ok: "store_ok m" "store_ok m'" and sim: "thinned ended gone m m'"
    and full: "replay_commit owned s ws m = Inr m1" "\<not> list_ex is_copy ws"
    and lasts: "lasting (ms_tasks m) ws"
    and may: "\<And>acts i. prepareDocumentActions ws [] = Inr acts \<Longrightarrow> may_thin gone s m i (action_of acts i)"
  shows "\<exists>m1'. replay_commit owned s (thin ended gone s ws) m' = Inr m1' \<and> thinned ended gone m1 m1' \<and> store_ok m1'"
proof -
  let ?ws = "thin ended gone s ws"
  from replayD[OF full] obtain p where p: "prepareCommit owned m ws (Some s) = Inr p" "pc_seq p = s" "pc_writes p = ws"
    and m1: "m1 = (applyDocumentActions (pc_actions p) s (fold (apply_write s) ws m))\<lparr>ms_nextSeq := s + 1\<rparr>" by metis
  let ?acts = "pc_actions p"
  note pd = prepareD[OF p(1), unfolded p(2,3)]
  obtain acts' where acts': "prepareDocumentActions ?ws [] = Inr acts'"
    "\<And>i. action_of acts' i = thin_action gone s i (action_of ?acts i)" "fst ` set acts' \<subseteq> fst ` set ?acts"
    using thin_prepare[OF pd(6), of "[]" gone s ended] by auto
  have "actions_shape ws ?acts" by (rule prepare_shape[OF pd(6) subset_refl]) (simp add: actions_shape_def)
  moreover have "actions_shape ?ws acts'" by (rule prepare_shape[OF acts'(1) subset_refl]) (simp add: actions_shape_def)
  ultimately have thins: "thin_actions gone s ?acts acts'" using acts'(2,3) by (simp add: thin_actions_def actions_shape_def)
  note room = check_actions_room[OF pd(7)[unfolded checkDocumentActions_def]]
  have check': "checkDocumentActions m' acts' = None"
    unfolding checkDocumentActions_def
  proof (rule room_check)
    show "\<forall>(i, a) \<in> set acts'. check_action m' i a = None"
      by (rule thinned_checks[OF sim thins room(2)]) (rule may[OF pd(6)])
    show "live_total m' [] k + sum_list (map (live_change m' k) acts') \<le> 1" for k
      using room(1)[of k] thinned_total[OF sim ok thins, of k] by simp
  qed simp
  have seqs: "ms_nextSeq m' = ms_nextSeq m" "ms_closed m' = ms_closed m" "tables_sim ended m m'" "docs_sim gone m m'"
    using sim by (auto simp: thinned_def)
  let ?p = "\<lparr>pc_seq = s, pc_writes = ?ws, pc_actions = acts', pc_applied = False\<rparr>"
  have prep': "prepareCommit owned m' ?ws (Some s) = Inr ?p"
    using thin_check[OF pd(5) thinned_types[OF sim ok], of Map.empty] acts'(1) check' pd(1-3) seqs
    by (simp add: prepareCommit_def assertOpen_def resolve_none[OF thin_no_copy[OF full(2)]] fails_if_def)
  let ?t = "fold (apply_write s) ws m" and ?t' = "fold (apply_write s) ?ws m'"
  define m1' where "m1' = (applyDocumentActions acts' s ?t')\<lparr>ms_nextSeq := s + 1\<rparr>"
  have app': "apply_prepared ?p m' = Inr (?p\<lparr>pc_applied := True\<rparr>, m1')"
    using applyD[OF prep'] by (simp add: m1'_def)
  have acc: "replay_commit owned s ?ws m' = Inr m1'" by (simp add: replay_commit_def prep' app')
  note mid = commit_middle[OF ok(1) p(1), unfolded p(2,3)] and mid' = commit_middle[OF ok(2) prep', simplified]
  note f = actions_fields[OF mid(3), of s] and f' = actions_fields[OF mid'(3), of s]
  note docs = same_documentsD[OF mid(2)] same_documentsD[OF mid'(2)]
  have "tables_sim ended m1 m1'"
    using thin_tables[OF seqs(3) lasts, of s gone] f f' by (simp add: tables_sim_def same_tables_def m1 m1'_def)
  moreover have "docs_sim gone (applyDocumentActions ?acts s ?t) (applyDocumentActions acts' s ?t')"
  proof (rule thinned_docs[OF _ mid(3) mid'(3) thins])
    show "docs_sim gone ?t ?t'" using docs_sim_cong[OF docs] seqs(4) by simp
    show "may_thin gone s ?t i (action_of ?acts i)" for i using may_thin_cong[OF docs(1)] may[OF pd(6)] by simp
  qed
  moreover have "ms_closed m1' = ms_closed m1"
    using mid(2) mid'(2) f f' seqs(2) by (simp add: m1 m1'_def same_documents_def same_tables_def)
  ultimately have "thinned ended gone m1 m1'" by (simp add: thinned_def m1 m1'_def docs_sim_def)
  with acc commit_store_ok[OF ok(2) prep' app'] show ?thesis by blast
qed

end
