(* ===== verification/Jsonl_History.thy ===== *)
theory Jsonl_History
  imports Jsonl_Thinning
begin

text \<open>
  The history of a storage: its commits in order. Thinning a history by what its own later commits
  make unnecessary changes neither a record nor a document of the store it ends in.
\<close>

subsection \<open>Histories\<close>

type_synonym history = "(int \<times> storage_write list) list"

fun play_history :: "(nat \<Rightarrow> bool) \<Rightarrow> history \<Rightarrow> store \<Rightarrow> corruption + store" where
  "play_history owned [] m = Inr m"
| "play_history owned ((s, ws) # H) m = and_then (replay_commit owned s ws m) (play_history owned H)"

lemma play_append: "play_history owned (H @ H') m = and_then (play_history owned H m) (play_history owned H')"
  by (induction owned H m rule: play_history.induct) (auto simp: and_then_def split: sum.split)

text \<open>The history of accepted commits that revive no terminal task, with the store they end in.\<close>

inductive recorded :: "(nat \<Rightarrow> bool) \<Rightarrow> history \<Rightarrow> store \<Rightarrow> bool" for owned where
  Empty: "recorded owned [] new_store"
| Commit: "recorded owned H m \<Longrightarrow> \<not> list_ex is_copy ws \<Longrightarrow> lasting (ms_tasks m) ws
    \<Longrightarrow> replay_commit owned s ws m = Inr m' \<Longrightarrow> recorded owned (H @ [(s, ws)]) m'"

inductive_cases recorded_snoc: "recorded owned (H @ [(s, ws)]) m"

lemma recorded_ok: "recorded owned H m \<Longrightarrow> store_ok m"
proof (induction rule: recorded.induct)
  case (Commit H m ws s m')
  from replayD[OF Commit(4,2)] commit_store_ok[OF Commit(5)] show ?case by metis
qed (rule new_store_ok)

lemma recorded_plays: "recorded owned H m \<Longrightarrow> play_history owned H new_store = Inr m"
  by (induction rule: recorded.induct) (simp_all add: play_append)

lemma recorded_prefix: "recorded owned (H1 @ H2) m \<Longrightarrow> \<exists>m1. recorded owned H1 m1"
proof (induction H2 arbitrary: m rule: rev_induct)
  case (snoc x H2)
  obtain s ws where "x = (s, ws)" by (cases x)
  with snoc.prems have "recorded owned ((H1 @ H2) @ [(s, ws)]) m" by simp
  then obtain m0 where "recorded owned (H1 @ H2) m0" by (cases rule: recorded_snoc)
  then show ?case by (rule snoc.IH)
qed auto

subsection \<open>The actions of the writes\<close>

fun content_write :: "storage_write \<Rightarrow> (int \<times> content) option" where
  "content_write (WCreate r v x) = Some (dc_id r, Base v x)"
| "content_write (WChange i c) = Some (i, c)"
| "content_write _ = None"

lemma prepare_actions_from:
  assumes "prepareDocumentActions ws acts = Inr acts1"
  shows "da_content (action_of acts1 i) = Some c \<longleftrightarrow>
      da_content (action_of acts i) = Some c \<or> (\<exists>w \<in> set ws. content_write w = Some (i, c))"
    "da_retire (action_of acts1 i) \<longleftrightarrow> da_retire (action_of acts i) \<or> WRetire i \<in> set ws"
    "da_create (action_of acts1 i) = Some r \<longleftrightarrow>
      da_create (action_of acts i) = Some r \<or> (\<exists>v x. WCreate r v x \<in> set ws \<and> dc_id r = i)"
  using assms
proof (induction ws arbitrary: acts)
  case (Cons w ws)
  {
    case 1
    then obtain acts2 where a: "add_action w acts = Inr acts2" "prepareDocumentActions ws acts2 = Inr acts1"
      by (auto simp: and_then_Inr)
    from a(1) Cons.IH(1)[OF a(2)] show ?case by (cases w) (auto simp: Let_def split: if_splits)
  next
    case 2
    then obtain acts2 where a: "add_action w acts = Inr acts2" "prepareDocumentActions ws acts2 = Inr acts1"
      by (auto simp: and_then_Inr)
    from a(1) Cons.IH(2)[OF a(2)] show ?case by (cases w) (auto simp: Let_def split: if_splits)
  next
    case 3
    then obtain acts2 where a: "add_action w acts = Inr acts2" "prepareDocumentActions ws acts2 = Inr acts1"
      by (auto simp: and_then_Inr)
    from a(1) Cons.IH(3)[OF a(2)] show ?case by (cases w) (auto simp: Let_def split: if_splits, blast+)
  }
qed auto

lemma prepare_actions:
  assumes "prepareDocumentActions ws [] = Inr acts"
  shows "da_content (action_of acts i) = Some c \<longleftrightarrow> (\<exists>w \<in> set ws. content_write w = Some (i, c))"
    "da_retire (action_of acts i) \<longleftrightarrow> WRetire i \<in> set ws"
    "da_create (action_of acts i) = Some r \<longleftrightarrow> (\<exists>v x. WCreate r v x \<in> set ws \<and> dc_id r = i)"
  using prepare_actions_from[OF assms, of i] by simp_all

subsection \<open>What a history says of the documents\<close>

definition creates :: "history \<Rightarrow> int \<Rightarrow> bool \<Rightarrow> bool" where
  "creates H i c \<longleftrightarrow> (\<exists>(s, ws) \<in> set H. \<exists>r v x. WCreate r v x \<in> set ws \<and> dc_id r = i \<and> isCurrentOnly r = c)"

definition retired_at :: "history \<Rightarrow> int \<Rightarrow> bool" where
  "retired_at H i \<longleftrightarrow> (\<exists>(s, ws) \<in> set H. WRetire i \<in> set ws)"

definition based_at :: "history \<Rightarrow> int \<Rightarrow> int \<Rightarrow> bool" where
  "based_at H i b \<longleftrightarrow> (\<exists>(s, ws) \<in> set H. s = b \<and> (\<exists>w \<in> set ws. \<exists>v x. content_write w = Some (i, Base v x)))"

lemma history_simps [simp]:
  "creates [] i c = False" "retired_at [] i = False" "based_at [] i b = False"
  "creates (H @ H') i c \<longleftrightarrow> creates H i c \<or> creates H' i c"
  "retired_at (H @ H') i \<longleftrightarrow> retired_at H i \<or> retired_at H' i"
  "based_at (H @ H') i b \<longleftrightarrow> based_at H i b \<or> based_at H' i b"
  "creates ((s, ws) # H) i c \<longleftrightarrow> (\<exists>r v x. WCreate r v x \<in> set ws \<and> dc_id r = i \<and> isCurrentOnly r = c) \<or> creates H i c"
  "retired_at ((s, ws) # H) i \<longleftrightarrow> WRetire i \<in> set ws \<or> retired_at H i"
  "based_at ((s, ws) # H) i b \<longleftrightarrow>
     s = b \<and> (\<exists>w \<in> set ws. \<exists>v x. content_write w = Some (i, Base v x)) \<or> based_at H i b"
  by (simp_all add: creates_def retired_at_def based_at_def bex_Un)

lemma commit_documents:
  assumes "store_ok m" "replay_commit owned s ws m = Inr m1" "\<not> list_ex is_copy ws"
  obtains acts where "prepareDocumentActions ws [] = Inr acts"
    "\<And>i. ms_documents m1 i = (if action_of acts i = no_action then ms_documents m i
        else Some (acted s (action_of acts i) (ms_documents m i)))"
    "\<And>i. action_of acts i \<noteq> no_action \<Longrightarrow> ready ws m (i, action_of acts i)"
    "ms_nextSeq m \<le> s" "ms_nextSeq m1 = s + 1" "\<bar>s\<bar> \<le> max_safe"
proof -
  from replayD[OF assms(2,3)] obtain p where p: "prepareCommit owned m ws (Some s) = Inr p" "pc_seq p = s" "pc_writes p = ws"
    and m1: "m1 = (applyDocumentActions (pc_actions p) s (fold (apply_write s) ws m))\<lparr>ms_nextSeq := s + 1\<rparr>" by metis
  note mid = commit_middle[OF assms(1) p(1), unfolded p(2,3)] and pd = prepareD[OF p(1), unfolded p(2,3)]
  show thesis
  proof (rule that[OF pd(6)])
    show "ms_documents m1 i = (if action_of (pc_actions p) i = no_action then ms_documents m i
        else Some (acted s (action_of (pc_actions p) i) (ms_documents m i)))" for i
      using documents_acted[OF mid(3), of s i] same_documentsD[OF mid(2)] by (simp add: m1)
    show "ready ws m (i, action_of (pc_actions p) i)" if "action_of (pc_actions p) i \<noteq> no_action" for i
    proof -
      have "(i, action_of (pc_actions p) i) \<in> set (pc_actions p)"
        using that by (auto simp: action_of_def dest: map_of_SomeD split: option.splits)
      with mid(3) documents_ok_same(4)[OF mid(2)] show ?thesis by (auto simp: applicable_def)
    qed
  qed (use pd(2,3) m1 in simp_all)
qed

text \<open>The document that an action leaves.\<close>

lemma acted_new:
  assumes "action_shape ws (i, a)" "da_create a = Some r"
  shows "isCurrentOnly (ds_record (acted s a old)) = isCurrentOnly r"
    "\<not> da_retire a \<Longrightarrow> snd (last (ds_revisions (acted s a old))) = s"
  using assms by (auto simp: action_shape_def acted_def retire_document_def isCurrentOnly_def Let_def)

lemma acted_old:
  assumes "da_create a = None"
  shows "isCurrentOnly (ds_record (acted s a (Some d))) = isCurrentOnly (ds_record d)"
    "\<not> da_retire a \<Longrightarrow> da_content a = None \<Longrightarrow> acted s a (Some d) = d"
    "\<not> da_retire a \<Longrightarrow> da_content a \<noteq> None \<Longrightarrow> snd (last (ds_revisions (acted s a (Some d)))) = s"
  using assms
  by (auto simp: acted_def retire_document_def change_document_def isCurrentOnly_def Let_def split: option.split)

definition history_says :: "history \<Rightarrow> store \<Rightarrow> bool" where
  "history_says H m \<longleftrightarrow>
     (\<forall>i c. creates H i c \<longleftrightarrow> (\<exists>d. ms_documents m i = Some d \<and> isCurrentOnly (ds_record d) = c))
     \<and> (\<forall>i. retired_at H i \<longleftrightarrow> (\<exists>d. ms_documents m i = Some d \<and> dr_retired (ds_record d) \<noteq> None))
     \<and> (\<forall>i b. based_at H i b \<longrightarrow>
          (\<exists>d. ms_documents m i = Some d \<and> (dr_retired (ds_record d) = None \<longrightarrow> b \<le> snd (last (ds_revisions d)))))"

definition sequenced :: "history \<Rightarrow> store \<Rightarrow> bool" where
  "sequenced H m \<longleftrightarrow>
     sorted_wrt (<) (map fst H) \<and> (\<forall>s \<in> fst ` set H. 1 \<le> s \<and> s < ms_nextSeq m \<and> \<bar>s\<bar> \<le> max_safe)"

lemma recorded_sequenced: "recorded owned H m \<Longrightarrow> sequenced H m"
proof (induction rule: recorded.induct)
  case (Commit H m ws s m')
  note ok = recorded_ok[OF Commit.hyps(1)]
  from commit_documents[OF ok Commit.hyps(4,2)] have "ms_nextSeq m \<le> s" "ms_nextSeq m' = s + 1" "\<bar>s\<bar> \<le> max_safe" by metis+
  moreover have "1 \<le> ms_nextSeq m" using ok by (simp add: store_ok_def)
  ultimately show ?case using Commit.IH by (fastforce simp: sequenced_def sorted_wrt_append)
qed (simp add: sequenced_def)

lemma says_step:
  assumes "history_says H m" "store_ok m" "store_ok m1" "replay_commit owned s ws m = Inr m1" "\<not> list_ex is_copy ws"
  shows "history_says (H @ [(s, ws)]) m1"
proof -
  from commit_documents[OF assms(2,4,5)] obtain acts where p: "prepareDocumentActions ws [] = Inr acts"
    and docs: "\<And>i. ms_documents m1 i = (if action_of acts i = no_action then ms_documents m i
        else Some (acted s (action_of acts i) (ms_documents m i)))"
    and rdy: "\<And>i. action_of acts i \<noteq> no_action \<Longrightarrow> ready ws m (i, action_of acts i)"
    and seq: "ms_nextSeq m \<le> s" by metis
  note acts = prepare_actions[OF p]
  from assms(1) have old: "creates H i c \<longleftrightarrow> (\<exists>d. ms_documents m i = Some d \<and> isCurrentOnly (ds_record d) = c)"
    "retired_at H i \<longleftrightarrow> (\<exists>d. ms_documents m i = Some d \<and> dr_retired (ds_record d) \<noteq> None)"
    "based_at H i b \<Longrightarrow> \<exists>d. ms_documents m i = Some d \<and> (dr_retired (ds_record d) = None \<longrightarrow> b \<le> snd (last (ds_revisions d)))"
    for i b c by (auto simp: history_says_def)
  have "(creates (H @ [(s, ws)]) i c \<longleftrightarrow> (\<exists>d. ms_documents m1 i = Some d \<and> isCurrentOnly (ds_record d) = c))
      \<and> (retired_at (H @ [(s, ws)]) i \<longleftrightarrow> (\<exists>d. ms_documents m1 i = Some d \<and> dr_retired (ds_record d) \<noteq> None))
      \<and> (based_at (H @ [(s, ws)]) i b \<longrightarrow>
          (\<exists>d. ms_documents m1 i = Some d \<and> (dr_retired (ds_record d) = None \<longrightarrow> b \<le> snd (last (ds_revisions d)))))" for i b c
  proof -
    let ?a = "action_of acts i"
    have new: "creates (H @ [(s, ws)]) i c \<longleftrightarrow> creates H i c \<or> (\<exists>r. da_create ?a = Some r \<and> isCurrentOnly r = c)"
      "retired_at (H @ [(s, ws)]) i \<longleftrightarrow> retired_at H i \<or> da_retire ?a"
      "based_at (H @ [(s, ws)]) i b \<longleftrightarrow> based_at H i b \<or> s = b \<and> (\<exists>v x. da_content ?a = Some (Base v x))"
      by (auto simp: acts)
    show ?thesis
    proof (cases "?a = no_action")
      case True
      then show ?thesis unfolding new docs using old by simp
    next
      case False
      note r = rdy[OF False]
      then have shape: "action_shape ws (i, ?a)" by (simp add: ready_def)
      from r show ?thesis
      proof (cases rule: ready_cases)
        case (creates r)
        then have "\<not> based_at H i b" using old(3)[of i b] by auto
        with False creates show ?thesis
          unfolding new docs
          using old(1)[of i c] old(2)[of i] acted_new[OF shape creates(1)] acted_create(4)[OF shape creates(1)] by auto
      next
        case (exists d)
        from assms(2) exists(2) have "doc_ok (ms_nextSeq m) d" by (auto simp: store_ok_def documents_ok_def)
        then have "ds_revisions d \<noteq> []" "\<forall>t \<in> set (map snd (ds_revisions d)). t < ms_nextSeq m"
          using exists(3) by (auto simp: doc_ok_def versions_ok_def)
        moreover from this(1) have "snd (last (ds_revisions d)) \<in> set (map snd (ds_revisions d))" by simp
        ultimately have "snd (last (ds_revisions d)) < s" using seq by fastforce
        with False exists show ?thesis
          unfolding new docs
          using old(1)[of i c] old(2)[of i] old(3)[of i b] acted_old[OF exists(1)] acted_existing(4)[OF exists(1)]
          by (cases "da_content (action_of acts i)"; cases "da_retire (action_of acts i)") auto
      qed
    qed
  qed
  then show ?thesis unfolding history_says_def by blast
qed

lemma recorded_says: "recorded owned H m \<Longrightarrow> history_says H m"
proof (induction rule: recorded.induct)
  case (Commit H m ws s m')
  note ok = recorded_ok[OF Commit.hyps(1)] recorded_ok[OF recorded.Commit[OF Commit.hyps]]
  show ?case by (rule says_step[OF Commit.IH ok Commit.hyps(4,2)])
qed (simp add: history_says_def new_store_def)

subsection \<open>Thinning a history\<close>

text \<open>The contents that later commits made unnecessary: those of a retired current-only document, and those
  before a later base of one.\<close>

definition left_out :: "history \<Rightarrow> int \<Rightarrow> int \<Rightarrow> bool" where
  "left_out H i s \<longleftrightarrow> creates H i True \<and> (retired_at H i \<or> (\<exists>b > s. based_at H i b))"

definition thin_history :: "int set \<Rightarrow> (int \<Rightarrow> int \<Rightarrow> bool) \<Rightarrow> history \<Rightarrow> history" where
  "thin_history ended gone H = map (\<lambda>(s, ws). (s, thin ended gone s ws)) H"

lemma sequenced_split:
  assumes "sequenced (H1 @ (s, ws) # H2) m"
  shows "t \<in> fst ` set H1 \<Longrightarrow> t < s" "t \<in> fst ` set H2 \<Longrightarrow> s < t"
  using assms by (auto simp: sequenced_def sorted_wrt_append)

lemma based_at_seq: "based_at H i b \<Longrightarrow> b \<in> fst ` set H"
  by (force simp: based_at_def)

lemma may_thin_history:
  assumes "recorded owned (H1 @ (s, ws) # H2) m" "recorded owned H1 m1" "replay_commit owned s ws m1 = Inr m2"
    and "\<not> list_ex is_copy ws" "prepareDocumentActions ws [] = Inr acts"
  shows "may_thin (left_out (H1 @ (s, ws) # H2)) s m1 i (action_of acts i)"
proof -
  let ?H = "H1 @ (s, ws) # H2"
  have H: "?H = (H1 @ [(s, ws)]) @ H2" by simp
  note acts = prepare_actions[OF assms(5)] and ok = recorded_ok[OF assms(2)]
  have says: "history_says ?H m" "history_says H1 m1" using assms(1,2) by (auto intro: recorded_says)
  note seqs = sequenced_split[OF recorded_sequenced[OF assms(1)]]
  have uni: "creates ?H i c \<Longrightarrow> creates ?H i c' \<Longrightarrow> c = c'" for c c'
    using says(1) by (auto simp: history_says_def)
  from commit_documents[OF ok assms(3,4)] assms(5)
  have rdy: "action_of acts i \<noteq> no_action \<Longrightarrow> ready ws m1 (i, action_of acts i)" by (metis sum.inject(2))
  have current: "case da_create (action_of acts i) of Some r \<Rightarrow> isCurrentOnly r
      | None \<Rightarrow> \<forall>d. ms_documents m1 i = Some d \<longrightarrow> isCurrentOnly (ds_record d)" if left: "left_out ?H i s"
  proof -
    have created: "creates ?H i True" using left unfolding left_out_def by blast
    show ?thesis
  proof (cases "da_create (action_of acts i)")
    case (Some r)
    then have "creates ?H i (isCurrentOnly r)" unfolding H by (auto simp: acts)
    from uni[OF created this] Some show ?thesis by simp
  next
    case None
    have "creates ?H i (isCurrentOnly (ds_record d))" if "ms_documents m1 i = Some d" for d
      using says(2) that by (auto simp: history_says_def)
    from uni[OF created this] None show ?thesis by simp
  qed
  qed
  have base: "is_base c" if c: "da_content (action_of acts i) = Some c" and d: "ms_documents m1 i = Some d"
    and kept: "\<not> left_out ?H i s" and last: "left_out ?H i (snd (last (ds_revisions d)))" for c d
  proof -
    have "action_of acts i \<noteq> no_action" using c by auto
    from rdy[OF this] d have live: "dr_retired (ds_record d) = None"
      by (cases rule: ready_cases) auto
    from kept last obtain b where b: "snd (last (ds_revisions d)) < b" "based_at ?H i b" "b \<le> s"
      by (force simp: left_out_def)
    have "\<not> based_at H1 i b" using says(2) d live b(1) by (force simp: history_says_def)
    moreover have "\<not> based_at H2 i b" using b(3) seqs(2) based_at_seq by fastforce
    ultimately have "based_at [(s, ws)] i b" using b(2) unfolding H by simp
    then obtain v x where "da_content (action_of acts i) = Some (Base v x)" by (auto simp: acts)
    with c show ?thesis by auto
  qed
  show ?thesis unfolding may_thin_def using current base by blast
qed

lemma thin_plays:
  assumes "recorded owned (H1 @ H2) m"
  shows "\<exists>m1 m1'. recorded owned H1 m1 \<and> play_history owned (thin_history ended (left_out (H1 @ H2)) H1) new_store = Inr m1'
    \<and> thinned ended (left_out (H1 @ H2)) m1 m1' \<and> store_ok m1'"
  using assms
proof (induction H1 arbitrary: H2 rule: rev_induct)
  case Nil
  have "thinned ended gone new_store new_store" for gone
    by (simp add: thinned_def tables_sim_def docs_sim_def thin_tasks_def new_store_def)
  with new_store_ok show ?case by (auto simp: thin_history_def intro: recorded.Empty)
next
  case (snoc x H1)
  obtain s ws where x: "x = (s, ws)" by (cases x)
  let ?H = "H1 @ (s, ws) # H2" and ?gone = "left_out (H1 @ (s, ws) # H2)"
  from snoc.prems x have rec: "recorded owned ?H m" by simp
  from snoc.IH[OF rec] obtain m1 m1' where
    m1: "recorded owned H1 m1" "play_history owned (thin_history ended ?gone H1) new_store = Inr m1'"
      "thinned ended ?gone m1 m1'" "store_ok m1'" by blast
  have "\<exists>m2. recorded owned (H1 @ [(s, ws)]) m2" by (rule recorded_prefix[of owned _ H2 m]) (use rec in simp)
  then obtain m2 where m2: "recorded owned (H1 @ [(s, ws)]) m2" by blast
  then obtain m0 where m0: "recorded owned H1 m0" "\<not> list_ex is_copy ws" "lasting (ms_tasks m0) ws" "replay_commit owned s ws m0 = Inr m2"
    by (cases rule: recorded_snoc) auto
  have "m0 = m1" using recorded_plays[OF m0(1)] recorded_plays[OF m1(1)] by simp
  note m0 = m0[unfolded this]
  from thin_commit[OF recorded_ok[OF m1(1)] m1(4,3) m0(4,2,3), of, OF may_thin_history[OF rec m1(1) m0(4,2)]]
  obtain m2' where "replay_commit owned s (thin ended ?gone s ws) m1' = Inr m2'" "thinned ended ?gone m2 m2'" "store_ok m2'" by blast
  with m1(2) m2 x show ?case by (auto simp: thin_history_def play_append)
qed

text \<open>Two stores with the same tables and documents; the indexes of well-formed ones follow.\<close>

definition alike :: "store \<Rightarrow> store \<Rightarrow> bool" where
  "alike m m' \<longleftrightarrow> thinned {} (\<lambda>_ _. False) m m'"

definition ended_tasks :: "store \<Rightarrow> int set" where
  "ended_tasks m = {i. \<exists>t. ms_tasks m i = Some t \<and> is_terminal t}"

lemma alike_iff:
  "alike m m' \<longleftrightarrow>
     ms_conversations m' = ms_conversations m \<and> ms_entries m' = ms_entries m
     \<and> ms_entrySeqs m' = ms_entrySeqs m \<and> ms_submissions m' = ms_submissions m
     \<and> ms_byRequest m' = ms_byRequest m \<and> ms_tasks m' = ms_tasks m \<and> ms_documents m' = ms_documents m
     \<and> ms_nextSeq m' = ms_nextSeq m \<and> ms_closed m' = ms_closed m"
proof -
  have "thin_tasks {} tasks = tasks" for tasks by (auto simp: thin_tasks_def fun_eq_iff split: option.split)
  moreover have "docs_sim (\<lambda>_ _. False) m m' \<longleftrightarrow> ms_documents m' = ms_documents m"
  proof -
    have "rel_option (doc_sim (\<lambda>_ _. False) i) x y \<longleftrightarrow> y = x" for i x y by (cases x; cases y) (auto simp: doc_sim_def)
    then show ?thesis by (simp add: docs_sim_def fun_eq_iff)
  qed
  ultimately show ?thesis by (auto simp: alike_def thinned_def tables_sim_def)
qed

lemma thinned_alike:
  assumes "recorded owned H m" "thinned (ended_tasks m) (left_out H) m m'"
  shows "alike m m'"
proof -
  have says: "history_says H m" using assms(1) by (rule recorded_says)
  have "thin_tasks (ended_tasks m) (ms_tasks m) = ms_tasks m"
    by (auto simp: thin_tasks_def ended_tasks_def fun_eq_iff split: option.split)
  moreover have "ms_documents m' i = ms_documents m i" for i
  proof -
    have "\<not> left_out H i (snd (last (ds_revisions d)))" if "ms_documents m i = Some d" "dr_retired (ds_record d) = None" for d
      using says that by (force simp: history_says_def left_out_def)
    with thinned_at(1)[OF assms(2), of i] show ?thesis
      by (cases rule: option.rel_cases) (auto simp: doc_sim_def)
  qed
  ultimately show ?thesis using assms(2) by (auto simp: alike_iff thinned_def tables_sim_def)
qed

lemma thin_history_alike:
  assumes "recorded owned H m"
  shows "\<exists>m'. play_history owned (thin_history (ended_tasks m) (left_out H) H) new_store = Inr m' \<and> alike m m' \<and> store_ok m'"
proof -
  from thin_plays[of owned H "[]" m "ended_tasks m"] assms obtain m1 m1' where
    m1: "recorded owned H m1" "play_history owned (thin_history (ended_tasks m) (left_out H) H) new_store = Inr m1'"
      "thinned (ended_tasks m) (left_out H) m1 m1'" "store_ok m1'" by auto
  have "m1 = m" using recorded_plays[OF m1(1)] recorded_plays[OF assms] by simp
  with m1 thinned_alike[OF assms] show ?thesis by blast
qed

end
