(* ===== verification/Jsonl_Encoding.thy ===== *)
theory Jsonl_Encoding
  imports Jsonl_History
begin

text \<open>
  What the encoding of a history puts into the main file and the sidecar files, and which records a
  disk may lack without losing anything of the history.
\<close>

subsection \<open>The records of one commit\<close>

definition recs_of :: "int \<times> storage_write list \<Rightarrow> (sidecar_name \<times> sidecar_record) list" where
  "recs_of c = snd (encode_writes (fst c) 0 (snd c))"

definition marker_of :: "int \<times> storage_write list \<Rightarrow> main_marker" where
  "marker_of c = \<lparr>mk_seq = fst c, mk_writes = fst (encode_writes (fst c) 0 (snd c))\<rparr>"

lemma encode_marker: "ec_marker (encodeCommit s ws) = marker_of (s, ws)"
  by (simp add: encodeCommit_def marker_of_def split: prod.split)

text \<open>The record a write puts into a sidecar.\<close>

fun sidecar_of :: "storage_write \<Rightarrow> (sidecar_name \<times> sidecar_payload) option" where
  "sidecar_of (WTask t) = (if is_terminal t then None else Some (TaskFile (tk_id t), PTask t))"
| "sidecar_of (WCreate r v x) = Some (DocFile (dc_id r), PDocument (dc_id r) (Base v x))"
| "sidecar_of (WChange i c) = Some (DocFile i, PDocument i c)"
| "sidecar_of _ = None"

lemma encode_records:
  "snd (encode_writes s n (w # ws)) =
     (case sidecar_of w of
        None \<Rightarrow> snd (encode_writes s n ws)
      | Some (f, p) \<Rightarrow> (f, \<lparr>sr_seq = s, sr_ordinal = n, sr_payload = p\<rparr>) # snd (encode_writes s (n + 1) ws))"
  by (cases w) (simp_all add: Let_def split: prod.split)

lemma encoded_from:
  "(f, r) \<in> set (snd (encode_writes s n ws)) \<Longrightarrow>
     sr_seq r = s \<and> n \<le> sr_ordinal r \<and> sr_ordinal r < n + length ws
     \<and> (\<exists>w \<in> set ws. sidecar_of w = Some (f, sr_payload r))"
proof (induction ws arbitrary: n)
  case (Cons w ws)
  show ?case
  proof (cases "sidecar_of w")
    case None
    with Cons.prems Cons.IH[of n] show ?thesis unfolding encode_records by auto
  next
    case (Some fp)
    with Cons.prems Cons.IH[of "n + 1"] show ?thesis unfolding encode_records by (cases fp) auto
  qed
qed simp

lemma encoded_sidecar:
  "w \<in> set ws \<Longrightarrow> sidecar_of w = Some (f, p) \<Longrightarrow> \<exists>r. (f, r) \<in> set (snd (encode_writes s n ws)) \<and> sr_payload r = p"
proof (induction ws arbitrary: n)
  case (Cons v ws)
  show ?case
  proof (cases "v = w")
    case True
    with Cons.prems show ?thesis unfolding encode_records by auto
  next
    case False
    with Cons.prems Cons.IH[of n] Cons.IH[of "n + 1"] show ?thesis
      unfolding encode_records by (auto split: option.split prod.split)
  qed
qed simp

lemma encoded_ordered: "sorted_wrt record_before (map snd (snd (encode_writes s n ws)))"
proof (induction ws arbitrary: n)
  case (Cons w ws)
  have "record_before \<lparr>sr_seq = s, sr_ordinal = n, sr_payload = p\<rparr> r" if "(f, r) \<in> set (snd (encode_writes s (n + 1) ws))" for p f r
    using encoded_from[OF that] by (simp add: record_before_def)
  with Cons show ?case unfolding encode_records by (auto split: option.split prod.split)
qed simp

subsection \<open>The records of a history\<close>

definition records_in :: "history \<Rightarrow> sidecar_name \<Rightarrow> sidecar_record list" where
  "records_in H f = concat (map (\<lambda>c. records_of f (recs_of c)) H)"

lemma records_in_simps [simp]:
  "records_in [] f = []" "records_in (c # H) f = records_of f (recs_of c) @ records_in H f"
  "records_in (H @ H') f = records_in H f @ records_in H' f"
  by (simp_all add: records_in_def)

lemma in_records_of [simp]: "r \<in> set (records_of f rs) \<longleftrightarrow> (f, r) \<in> set rs"
  by (auto simp: records_of_def image_iff)

lemma in_records:
  "r \<in> set (records_in H f) \<longleftrightarrow> (\<exists>c \<in> set H. (f, r) \<in> set (recs_of c))"
  by (auto simp: records_in_def)

lemma recs_of_from:
  "(f, r) \<in> set (recs_of c) \<Longrightarrow> sr_seq r = fst c \<and> (\<exists>w \<in> set (snd c). sidecar_of w = Some (f, sr_payload r))"
  using encoded_from[of f r "fst c" 0 "snd c"] by (simp add: recs_of_def)

lemma sorted_filter: "sorted_wrt P xs \<Longrightarrow> sorted_wrt P (filter Q xs)"
  by (induction xs) auto

lemma records_of_ordered: "sorted_wrt record_before (records_of f (recs_of c))"
proof -
  have "records_of f rs = map snd (filter (\<lambda>x. fst x = f) rs)" for rs :: "(sidecar_name \<times> sidecar_record) list"
    by (simp add: records_of_def case_prod_unfold)
  with encoded_ordered[of "fst c" 0 "snd c"] show ?thesis
    by (simp add: recs_of_def sorted_wrt_map sorted_filter)
qed

lemma records_ordered: "sequenced H m \<Longrightarrow> sorted_wrt record_before (records_in H f)"
proof (induction H)
  case (Cons c H)
  have "sequenced H m" using Cons.prems by (simp add: sequenced_def)
  moreover have "record_before r r'" if r: "(f, r) \<in> set (recs_of c)" "r' \<in> set (records_in H f)" for r r'
  proof -
    from r(2) obtain c' where c': "c' \<in> set H" "(f, r') \<in> set (recs_of c')" by (auto simp: in_records)
    with Cons.prems have "fst c < fst c'" by (auto simp: sequenced_def)
    with recs_of_from[OF r(1)] recs_of_from[OF c'(2)] show ?thesis by (simp add: record_before_def)
  qed
  ultimately show ?case
    using Cons.IH records_of_ordered[of f c] by (simp add: sorted_wrt_append)
qed simp

lemma ordered_unique:
  assumes "sorted_wrt record_before rs" "r \<in> set rs" "r' \<in> set rs" "sr_seq r = sr_seq r'" "sr_ordinal r = sr_ordinal r'"
  shows "r = r'"
proof -
  have "\<not> record_before r r'" "\<not> record_before r' r" using assms(4,5) by (simp_all add: record_before_def)
  with assms(1-3) show ?thesis by (induction rs) auto
qed

subsection \<open>What a disk may lack\<close>

text \<open>A task has ended once a terminal record of it was written.\<close>

definition ended_in :: "history \<Rightarrow> int \<Rightarrow> bool" where
  "ended_in H i \<longleftrightarrow> (\<exists>(s, ws) \<in> set H. \<exists>t. WTask t \<in> set ws \<and> tk_id t = i \<and> is_terminal t)"

lemma ended_in_simps [simp]:
  "ended_in [] i = False" "ended_in (H @ H') i \<longleftrightarrow> ended_in H i \<or> ended_in H' i"
  "ended_in ((s, ws) # H) i \<longleftrightarrow> (\<exists>t. WTask t \<in> set ws \<and> tk_id t = i \<and> is_terminal t) \<or> ended_in H i"
  by (simp_all add: ended_in_def bex_Un)

lemma lasting_ended:
  "lasting tasks ws \<Longrightarrow>
     (\<exists>t. fold task_put ws tasks i = Some t \<and> is_terminal t) \<longleftrightarrow>
       (\<exists>t. tasks i = Some t \<and> is_terminal t) \<or> (\<exists>t. WTask t \<in> set ws \<and> tk_id t = i \<and> is_terminal t)"
proof (induction ws arbitrary: tasks)
  case (Cons w ws)
  then have rest: "lasting (task_put w tasks) ws" and keeps: "\<not> revives tasks w" by simp_all
  have "(\<exists>t. task_put w tasks i = Some t \<and> is_terminal t) \<longleftrightarrow>
      (\<exists>t. tasks i = Some t \<and> is_terminal t) \<or> (\<exists>t. w = WTask t \<and> tk_id t = i \<and> is_terminal t)"
    using keeps by (cases w) (auto split: option.splits)
  with Cons.IH[OF rest] show ?case by auto
qed simp

lemma commit_tasks: "ms_tasks (fold (apply_write s) ws m) = fold task_put ws (ms_tasks m)"
  by (induction ws arbitrary: m) (simp_all add: tasks_put)

lemma replay_tasks:
  assumes "store_ok m" "replay_commit owned s ws m = Inr m1" "\<not> list_ex is_copy ws"
  shows "ms_tasks m1 = fold task_put ws (ms_tasks m)"
proof -
  from replayD[OF assms(2,3)] obtain p where p: "prepareCommit owned m ws (Some s) = Inr p" "pc_seq p = s" "pc_writes p = ws"
    and m1: "m1 = (applyDocumentActions (pc_actions p) s (fold (apply_write s) ws m))\<lparr>ms_nextSeq := s + 1\<rparr>" by metis
  note mid = commit_middle[OF assms(1) p(1), unfolded p(2,3)]
  from actions_fields[OF mid(3), of s] show ?thesis by (simp add: m1 same_tables_def commit_tasks)
qed

lemma recorded_ended: "recorded owned H m \<Longrightarrow> i \<in> ended_tasks m \<longleftrightarrow> ended_in H i"
proof (induction rule: recorded.induct)
  case (Commit H m ws s m')
  from lasting_ended[OF Commit.hyps(3), of i] Commit.IH show ?case
    by (simp add: ended_tasks_def replay_tasks[OF recorded_ok[OF Commit.hyps(1)] Commit.hyps(4,2)])
qed (simp add: ended_tasks_def new_store_def)

fun droppable :: "history \<Rightarrow> sidecar_name \<Rightarrow> int \<Rightarrow> bool" where
  "droppable H (DocFile i) s = left_out H i s"
| "droppable H (TaskFile i) s = ended_in H i"

lemma droppable_mono: "droppable H f s \<Longrightarrow> droppable (H @ H') f s"
  by (cases f) (auto simp: left_out_def)

text \<open>The records of a history, less some that it made unnecessary.\<close>

definition enough :: "history \<Rightarrow> sidecar_name \<Rightarrow> sidecar_record list \<Rightarrow> bool" where
  "enough H f rs \<longleftrightarrow>
     (\<exists>K. rs = filter K (records_in H f) \<and> (\<forall>r \<in> set (records_in H f). \<not> K r \<longrightarrow> droppable H f (sr_seq r)))"

lemma enough_nil: "enough [] f []"
  by (simp add: enough_def)

lemma enough_filter:
  assumes "enough H f rs" "\<And>r. r \<in> set rs \<Longrightarrow> \<not> Q r \<Longrightarrow> droppable H f (sr_seq r)"
  shows "enough H f (filter Q rs)"
proof -
  from assms(1) obtain K where K: "rs = filter K (records_in H f)"
    "\<forall>r \<in> set (records_in H f). \<not> K r \<longrightarrow> droppable H f (sr_seq r)" by (auto simp: enough_def)
  have "filter Q rs = filter (\<lambda>r. K r \<and> Q r) (records_in H f)" using K(1) by (simp add: conj_commute)
  moreover have "\<forall>r \<in> set (records_in H f). \<not> (K r \<and> Q r) \<longrightarrow> droppable H f (sr_seq r)"
    using K assms(2) by auto
  ultimately show ?thesis unfolding enough_def by blast
qed

lemma enough_append:
  assumes "enough H f rs" "fst c \<notin> fst ` set H"
  shows "enough (H @ [c]) f (rs @ records_of f (recs_of c))"
proof -
  from assms(1) obtain K where K: "rs = filter K (records_in H f)"
    "\<forall>r \<in> set (records_in H f). \<not> K r \<longrightarrow> droppable H f (sr_seq r)" by (auto simp: enough_def)
  let ?K = "\<lambda>r. r \<notin> set (records_in H f) \<or> K r"
  have "filter ?K (records_in H f) = filter K (records_in H f)" by (rule filter_cong) auto
  moreover have "filter ?K (records_of f (recs_of c)) = records_of f (recs_of c)"
  proof (rule filter_True, intro ballI disjI1 notI)
    fix r
    assume r: "r \<in> set (records_of f (recs_of c))" "r \<in> set (records_in H f)"
    from r(2) obtain c' where c': "c' \<in> set H" "(f, r) \<in> set (recs_of c')" by (auto simp: in_records)
    from r(1) have "(f, r) \<in> set (recs_of c)" by simp
    from recs_of_from[OF this] recs_of_from[OF c'(2)] c'(1) assms(2) show False by (auto simp: image_iff)
  qed
  moreover have "\<forall>r \<in> set (records_in H f). \<not> ?K r \<longrightarrow> droppable (H @ [c]) f (sr_seq r)"
    using K(2) droppable_mono by blast
  ultimately show ?thesis unfolding enough_def by (intro exI[of _ ?K]) (auto simp: K(1))
qed

end
