(* ===== verification/Jsonl_Survey.thy ===== *)
theory Jsonl_Survey
  imports Jsonl_Encoding
begin

text \<open>
  What recovery learns from the markers of a history and the records that are left of it: which
  documents are current-only, which contents and tasks may be missing.
\<close>

subsection \<open>The records a disk holds\<close>

definition unconfirmed :: "history \<Rightarrow> sidecar_record list \<Rightarrow> bool" where
  "unconfirmed H tail \<longleftrightarrow> sorted_wrt record_before tail \<and> (\<forall>r \<in> set tail. \<forall>s \<in> fst ` set H. s < sr_seq r)"

definition held_ok :: "history \<Rightarrow> sidecar_name list \<Rightarrow> (sidecar_name \<Rightarrow> sidecar_record list) \<Rightarrow> bool" where
  "held_ok H names held \<longleftrightarrow>
     distinct names \<and> (\<forall>f. f \<notin> set names \<longrightarrow> held f = [])
     \<and> (\<forall>f. \<exists>kept tail. held f = kept @ tail \<and> enough H f kept \<and> unconfirmed H tail)"

definition files_of :: "sidecar_name list \<Rightarrow> (sidecar_name \<Rightarrow> sidecar_record list) \<Rightarrow> (sidecar_name \<times> sidecar_record list) list" where
  "files_of names held = map (\<lambda>f. (f, held f)) names"

lemma unconfirmedD: "unconfirmed H tail \<Longrightarrow> r \<in> set tail \<Longrightarrow> s \<in> fst ` set H \<Longrightarrow> s < sr_seq r"
  unfolding unconfirmed_def by blast

lemma enough_subset: "enough H f rs \<Longrightarrow> set rs \<subseteq> set (records_in H f)"
  by (auto simp: enough_def)

lemma records_seq: "r \<in> set (records_in H f) \<Longrightarrow> sr_seq r \<in> fst ` set H"
  by (auto simp: in_records dest!: recs_of_from)

lemma held_ordered:
  assumes "held_ok H names held" "sequenced H m"
  shows "sorted_wrt record_before (held f)"
proof -
  from assms(1) obtain kept tail where h: "held f = kept @ tail" "enough H f kept" "unconfirmed H tail"
    unfolding held_ok_def by blast
  have "sorted_wrt record_before kept"
    using h(2) records_ordered[OF assms(2), of f] by (auto simp: enough_def intro: sorted_filter)
  moreover have "record_before r r'" if "r \<in> set kept" "r' \<in> set tail" for r r'
  proof -
    have "sr_seq r \<in> fst ` set H" using that(1) enough_subset[OF h(2)] records_seq by blast
    from unconfirmedD[OF h(3) that(2) this] show ?thesis by (simp add: record_before_def)
  qed
  ultimately show ?thesis using h by (simp add: sorted_wrt_append unconfirmed_def)
qed

lemma by_key_iff:
  assumes "held_ok H names held" "sequenced H m"
  shows "by_key (files_of names held) (f, s, n) = Some r \<longleftrightarrow> r \<in> set (held f) \<and> sr_seq r = s \<and> sr_ordinal r = n"
proof -
  let ?L = "concat (map (\<lambda>(f, rs). map (\<lambda>r. ((f, sr_seq r, sr_ordinal r), r)) rs) (files_of names held))"
  have mem: "((f, s, n), r) \<in> set ?L \<longleftrightarrow> f \<in> set names \<and> r \<in> set (held f) \<and> sr_seq r = s \<and> sr_ordinal r = n" for r
    by (auto simp: files_of_def)
  have names: "r \<in> set (held f) \<Longrightarrow> f \<in> set names" for r using assms(1) by (force simp: held_ok_def)
  have uni: "r = r'" if "((f, s, n), r) \<in> set ?L" "((f, s, n), r') \<in> set ?L" for r r'
    using that[unfolded mem] ordered_unique[OF held_ordered[OF assms, of f]] by auto
  show ?thesis
  proof
    assume "by_key (files_of names held) (f, s, n) = Some r"
    from map_of_SomeD[OF this[unfolded by_key_def]] have "((f, s, n), r) \<in> set ?L" by (simp only: set_rev)
    then show "r \<in> set (held f) \<and> sr_seq r = s \<and> sr_ordinal r = n" unfolding mem by blast
  next
    assume r: "r \<in> set (held f) \<and> sr_seq r = s \<and> sr_ordinal r = n"
    with names have "f \<in> set names" by blast
    with r have "((f, s, n), r) \<in> set (List.rev ?L)" unfolding set_rev mem by blast
    then obtain r' where r': "map_of (List.rev ?L) (f, s, n) = Some r'" using weak_map_of_SomeI by fastforce
    from map_of_SomeD[OF this] have "((f, s, n), r') \<in> set ?L" by (simp only: set_rev)
    with uni r mem names have "r' = r" by blast
    with r' show "by_key (files_of names held) (f, s, n) = Some r" by (simp add: by_key_def)
  qed
qed

lemma lookup_in:
  assumes "held_ok H names held" "sequenced H m" "by_key (files_of names held) (f, s, n) = Some r" "s \<in> fst ` set H"
  shows "r \<in> set (records_in H f)" "sr_seq r = s" "sr_ordinal r = n"
proof -
  from by_key_iff[OF assms(1,2)] assms(3) have r: "r \<in> set (held f)" "sr_seq r = s" "sr_ordinal r = n" by blast+
  from assms(1) obtain kept tail where h: "held f = kept @ tail" "enough H f kept" "unconfirmed H tail"
    unfolding held_ok_def by blast
  have "r \<notin> set tail" using unconfirmedD[OF h(3) _ assms(4), of r] r(2) by auto
  with h(1) r(1) enough_subset[OF h(2)] show "r \<in> set (records_in H f)" by auto
  show "sr_seq r = s" "sr_ordinal r = n" by fact+
qed

lemma lookup_record:
  assumes "held_ok H names held" "sequenced H m" "r \<in> set (records_in H f)"
  shows "by_key (files_of names held) (f, sr_seq r, sr_ordinal r) = Some r
    \<or> by_key (files_of names held) (f, sr_seq r, sr_ordinal r) = None \<and> droppable H f (sr_seq r)"
proof (cases "by_key (files_of names held) (f, sr_seq r, sr_ordinal r)")
  case None
  from assms(1) obtain kept tail where h: "held f = kept @ tail" "enough H f kept"
    unfolding held_ok_def by blast
  have "r \<notin> set kept" using None by_key_iff[OF assms(1,2), of f "sr_seq r" "sr_ordinal r" r] h(1) by auto
  with h(2) assms(3) have "droppable H f (sr_seq r)" by (auto simp: enough_def)
  with None show ?thesis by simp
next
  case (Some r')
  note in' = lookup_in[OF assms(1,2) Some records_seq[OF assms(3)]]
  from ordered_unique[OF records_ordered[OF assms(2)] in'(1) assms(3) in'(2,3)] Some show ?thesis by simp
qed

subsection \<open>The markers\<close>

lemma marked_append [simp]: "marked (ms @ ms') = marked ms @ marked ms'"
  by (simp add: marked_def)

lemma marked_markers: "marked (map marker_of ((s, ws) # H)) = map (Pair s) (fst (encode_writes s 0 ws)) @ marked (map marker_of H)"
  by (simp add: marked_def marker_of_def)

text \<open>The main operation of a write.\<close>

fun main_of :: "nat \<Rightarrow> storage_write \<Rightarrow> main_operation list" where
  "main_of n (WConversation c) = [MConversation c]"
| "main_of n (WEntry e) = [MEntry e]"
| "main_of n (WSubmission s) = [MSubmission s]"
| "main_of n (WRetire i) = [MRetire i]"
| "main_of n (WTask t) = [if is_terminal t then MTask t else MTaskSidecar (tk_id t) n]"
| "main_of n (WCreate r v x) = [MCreate r n]"
| "main_of n (WChange i c) = [MChange i n]"
| "main_of n (WCopy _ _ _) = []"

lemma encode_main:
  "fst (encode_writes s n (w # ws)) =
     main_of n w @ fst (encode_writes s (case sidecar_of w of None \<Rightarrow> n | Some _ \<Rightarrow> n + 1) ws)"
  by (cases w) (simp_all add: Let_def split: prod.split)

lemma some_of_simps [simp]:
  "some_of f [] = {}" "some_of f (x # xs) = (case f x of None \<Rightarrow> some_of f xs | Some i \<Rightarrow> insert i (some_of f xs))"
  "some_of f (xs @ ys) = some_of f xs \<union> some_of f ys"
  by (auto simp: some_of_def List.map_filter_def split: option.split)

lemma created_encoded:
  "i \<in> some_of current_created (map (Pair s) (fst (encode_writes s n ws))) \<longleftrightarrow>
     (\<exists>r v x. WCreate r v x \<in> set ws \<and> dc_id r = i \<and> isCurrentOnly r)"
proof (induction ws arbitrary: n)
  case (Cons w ws)
  then show ?case unfolding encode_main by (cases w) auto
qed simp

lemma retired_encoded:
  "i \<in> some_of retired_in (map (Pair s) (fst (encode_writes s n ws))) \<longleftrightarrow> WRetire i \<in> set ws"
proof (induction ws arbitrary: n)
  case (Cons w ws)
  then show ?case unfolding encode_main by (cases w) auto
qed simp

lemma survey_created: "some_of current_created (marked (map marker_of H)) = {i. creates H i True}"
proof (induction H)
  case (Cons c H)
  obtain s ws where c: "c = (s, ws)" by (cases c)
  from Cons show ?case unfolding c marked_markers by (simp add: set_eq_iff created_encoded)
qed (simp add: marked_def)

lemma survey_retired: "some_of retired_in (marked (map marker_of H)) = {i. retired_at H i}"
proof (induction H)
  case (Cons c H)
  obtain s ws where c: "c = (s, ws)" by (cases c)
  from Cons show ?case unfolding c marked_markers by (simp add: set_eq_iff retired_encoded)
qed (simp add: marked_def)

text \<open>The status of a task by its last marker.\<close>

definition alive :: "(int \<rightharpoonup> task) \<Rightarrow> (int \<rightharpoonup> bool)" where
  "alive tasks = (\<lambda>i. map_option (\<lambda>t. \<not> is_terminal t) (tasks i))"

lemma alive_put: "alive (tasks(i \<mapsto> t)) = (alive tasks)(i \<mapsto> \<not> is_terminal t)"
  by (auto simp: alive_def)

lemma note_encoded:
  "fold note_task (map (Pair s) (fst (encode_writes s n ws))) (alive tasks) = alive (fold task_put ws tasks)"
proof (induction ws arbitrary: n tasks)
  case (Cons w ws)
  from Cons[where tasks = "task_put w tasks"] show ?case
    unfolding encode_main by (cases w) (auto simp: alive_put simp del: fun_upd_apply)
qed simp

lemma survey_live: "recorded owned H m \<Longrightarrow> fold note_task (marked (map marker_of H)) Map.empty = alive (ms_tasks m)"
proof (induction rule: recorded.induct)
  case Empty
  show ?case by (simp add: marked_def new_store_def alive_def)
next
  case (Commit H m ws s m')
  have "marked (map marker_of (H @ [(s, ws)])) = marked (map marker_of H) @ map (Pair s) (fst (encode_writes s 0 ws))"
    by (simp add: marked_def marker_of_def)
  with Commit.IH show ?case
    by (simp add: note_encoded replay_tasks[OF recorded_ok[OF Commit.hyps(1)] Commit.hyps(4,2)])
qed

subsection \<open>The latest bases\<close>

lemma note_base_cases:
  assumes "note_base keys current op bases i = Some r"
  obtains (old) "bases i = Some r"
  | (new) n where "doc_target (snd op) = Some (i, n)" "i \<in> current" "base_record keys i (fst op) n = Some r"
  using assms by (auto simp: note_base_def split: option.splits if_splits prod.splits)

lemma not_before:
  "\<not> record_before r r' \<longleftrightarrow> sr_seq r' < sr_seq r \<or> (sr_seq r' = sr_seq r \<and> sr_ordinal r' \<le> sr_ordinal r)"
  by (auto simp: record_before_def)

lemma note_base_grows:
  assumes "bases i = Some r"
  shows "\<exists>r'. note_base keys current op bases i = Some r' \<and> \<not> record_before r' r"
  using assms by (auto simp: note_base_def not_before record_before_def split: option.splits if_splits prod.splits)

lemma note_base_takes:
  assumes "doc_target (snd op) = Some (i, n)" "i \<in> current" "base_record keys i (fst op) n = Some r"
  shows "\<exists>r'. note_base keys current op bases i = Some r' \<and> \<not> record_before r' r"
  using assms by (auto simp: note_base_def not_before record_before_def split: option.splits)

lemma bases_sound:
  assumes "fold (note_base keys current) ops bases i = Some r"
  shows "bases i = Some r \<or> (\<exists>(s, oper) \<in> set ops. \<exists>n. doc_target oper = Some (i, n) \<and> i \<in> current \<and> base_record keys i s n = Some r)"
  using assms
proof (induction ops arbitrary: bases)
  case (Cons op ops)
  from Cons.prems Cons.IH[of "note_base keys current op bases"] show ?case
    by (auto elim!: note_base_cases)
qed simp

lemma bases_grow:
  "bases i = Some r \<Longrightarrow> \<exists>r'. fold (note_base keys current) ops bases i = Some r' \<and> \<not> record_before r' r"
proof (induction ops arbitrary: bases r)
  case Nil
  then show ?case by (simp add: record_before_def)
next
  case (Cons op ops)
  from note_base_grows[where bases = bases and i = i, OF Cons.prems, of keys current op] obtain r1 where
    r1: "note_base keys current op bases i = Some r1" "\<not> record_before r1 r" by blast
  from Cons.IH[where bases = "note_base keys current op bases", OF r1(1)] obtain r2 where "fold (note_base keys current) ops (note_base keys current op bases) i = Some r2"
    "\<not> record_before r2 r1" by blast
  with r1(2) show ?case by (auto simp: not_before)
qed

lemma bases_complete:
  assumes "(s, oper) \<in> set ops" "doc_target oper = Some (i, n)" "i \<in> current" "base_record keys i s n = Some r"
  shows "\<exists>r'. fold (note_base keys current) ops bases i = Some r' \<and> \<not> record_before r' r"
proof -
  obtain xs ys where ops: "ops = xs @ (s, oper) # ys" using split_list[OF assms(1)] by blast
  let ?b = "fold (note_base keys current) xs bases"
  from note_base_takes[of "(s, oper)" i n current keys r ?b] assms(2-4) obtain r1 where
    r1: "note_base keys current (s, oper) ?b i = Some r1" "\<not> record_before r1 r" by auto
  from bases_grow[where bases = "note_base keys current (s, oper) ?b", OF r1(1), of keys current ys] obtain r2 where
    "fold (note_base keys current) ys (note_base keys current (s, oper) ?b) i = Some r2" "\<not> record_before r2 r1" by blast
  with r1(2) show ?thesis unfolding ops by (auto simp: not_before)
qed

subsection \<open>At most one content of a document in a commit\<close>

definition contents_in :: "int \<Rightarrow> storage_write list \<Rightarrow> nat" where
  "contents_in i ws = length (filter (\<lambda>w. \<exists>c. content_write w = Some (i, c)) ws)"

lemma prepare_once:
  "prepareDocumentActions ws acts = Inr acts1 \<Longrightarrow>
     contents_in i ws + (if da_content (action_of acts i) = None then 0 else 1) \<le> 1"
proof (induction ws arbitrary: acts)
  case (Cons w ws)
  from Cons.prems obtain acts2 where a: "add_action w acts = Inr acts2" "prepareDocumentActions ws acts2 = Inr acts1"
    by (auto simp: and_then_Inr)
  from a(1) Cons.IH[OF a(2)] show ?case
    by (cases w) (auto simp: contents_in_def Let_def split: if_splits)
qed (simp add: contents_in_def)

lemma sidecar_doc: "sidecar_of w = Some (DocFile i, p) \<longleftrightarrow> (\<exists>c. content_write w = Some (i, c) \<and> p = PDocument i c)"
  by (cases w) auto

lemma records_count: "length (records_of (DocFile i) (snd (encode_writes s n ws))) = contents_in i ws"
proof (induction ws arbitrary: n)
  case (Cons w ws)
  show ?case
  proof (cases "sidecar_of w")
    case None
    then have "\<nexists>c. content_write w = Some (i, c)" by (metis option.distinct(1) sidecar_doc)
    with None Cons[of n] show ?thesis unfolding encode_records by (simp add: contents_in_def)
  next
    case (Some fp)
    obtain f p where fp: "fp = (f, p)" by (cases fp)
    have "f = DocFile i \<longleftrightarrow> (\<exists>c. content_write w = Some (i, c))"
      using sidecar_doc[of w i] Some fp by auto
    with Some fp Cons[of "n + 1"] show ?thesis
      unfolding encode_records by (simp add: contents_in_def records_of_def)
  qed
qed (simp add: contents_in_def records_of_def)

lemma recorded_once: "recorded owned H m \<Longrightarrow> c \<in> set H \<Longrightarrow> length (records_of (DocFile i) (recs_of c)) \<le> 1"
proof (induction rule: recorded.induct)
  case (Commit H m ws s m')
  from commit_documents[OF recorded_ok[OF Commit.hyps(1)] Commit.hyps(4,2)] obtain acts where
    "prepareDocumentActions ws [] = Inr acts" by metis
  from prepare_once[OF this, of i] have "length (records_of (DocFile i) (recs_of (s, ws))) \<le> 1"
    by (simp add: recs_of_def records_count)
  with Commit show ?case by auto
qed simp

lemma same_seq:
  assumes "sequenced H m" "c \<in> set H" "c' \<in> set H" "fst c = fst c'"
  shows "c = c'"
proof -
  have "distinct (map fst H)" using assms(1) by (auto simp: sequenced_def strict_sorted_iff)
  then have "inj_on fst (set H)" by (simp add: distinct_map)
  with assms(2-4) show ?thesis by (simp add: inj_on_def)
qed

lemma doc_record_unique:
  assumes "recorded owned H m" "r \<in> set (records_in H (DocFile i))" "r' \<in> set (records_in H (DocFile i))" "sr_seq r = sr_seq r'"
  shows "r = r'"
proof -
  from assms(2,3) obtain c c' where c: "c \<in> set H" "(DocFile i, r) \<in> set (recs_of c)" "c' \<in> set H" "(DocFile i, r') \<in> set (recs_of c')"
    by (auto simp: in_records)
  with assms(4) recs_of_from have "fst c = fst c'" by metis
  with same_seq[OF recorded_sequenced[OF assms(1)]] c have "c = c'" by blast
  moreover have "length (records_of (DocFile i) (recs_of c)) \<le> 1" using recorded_once[OF assms(1) c(1)] .
  moreover have "r \<in> set (records_of (DocFile i) (recs_of c))" "r' \<in> set (records_of (DocFile i) (recs_of c'))" using c by simp_all
  ultimately show ?thesis by (cases "records_of (DocFile i) (recs_of c)") (auto simp del: in_records_of)
qed

lemma based_records:
  "based_at H i b \<longleftrightarrow> (\<exists>r \<in> set (records_in H (DocFile i)). sr_seq r = b \<and> (\<exists>v x. sr_payload r = PDocument i (Base v x)))"
proof
  assume "based_at H i b"
  then obtain ws w v x where w: "(b, ws) \<in> set H" "w \<in> set ws" "content_write w = Some (i, Base v x)"
    by (auto simp: based_at_def)
  then have "sidecar_of w = Some (DocFile i, PDocument i (Base v x))" by (simp add: sidecar_doc)
  from encoded_sidecar[OF w(2) this, of b 0] obtain r where
    r: "(DocFile i, r) \<in> set (recs_of (b, ws))" "sr_payload r = PDocument i (Base v x)" by (auto simp: recs_of_def)
  with recs_of_from[OF r(1)] w(1) show "\<exists>r \<in> set (records_in H (DocFile i)). sr_seq r = b \<and> (\<exists>v x. sr_payload r = PDocument i (Base v x))"
    unfolding Bex_def in_records by auto
next
  assume "\<exists>r \<in> set (records_in H (DocFile i)). sr_seq r = b \<and> (\<exists>v x. sr_payload r = PDocument i (Base v x))"
  then obtain r v x where r: "r \<in> set (records_in H (DocFile i))" "sr_seq r = b" "sr_payload r = PDocument i (Base v x)" by blast
  then obtain c where c: "c \<in> set H" "(DocFile i, r) \<in> set (recs_of c)" by (auto simp: in_records)
  from recs_of_from[OF c(2)] r(2,3) c(1) show "based_at H i b"
    by (cases c) (auto simp: based_at_def sidecar_doc)
qed

lemma doc_target_encoded:
  "(\<exists>oper \<in> set (fst (encode_writes s n ws)). doc_target oper = Some (i, k)) \<longleftrightarrow>
     (\<exists>r. (DocFile i, r) \<in> set (snd (encode_writes s n ws)) \<and> sr_ordinal r = k)"
proof (induction ws arbitrary: n)
  case (Cons w ws)
  then show ?case unfolding encode_main encode_records by (cases w) auto
qed simp

lemma marked_target:
  "(\<exists>oper. (s, oper) \<in> set (marked (map marker_of H)) \<and> doc_target oper = Some (i, k)) \<longleftrightarrow>
     (\<exists>r \<in> set (records_in H (DocFile i)). sr_seq r = s \<and> sr_ordinal r = k)"
proof -
  have "(s, oper) \<in> set (marked (map marker_of H)) \<longleftrightarrow> (\<exists>ws. (s, ws) \<in> set H \<and> oper \<in> set (fst (encode_writes s 0 ws)))" for oper
    by (force simp: marked_def marker_of_def)
  then have "(\<exists>oper. (s, oper) \<in> set (marked (map marker_of H)) \<and> doc_target oper = Some (i, k)) \<longleftrightarrow>
      (\<exists>ws. (s, ws) \<in> set H \<and> (\<exists>oper \<in> set (fst (encode_writes s 0 ws)). doc_target oper = Some (i, k)))" by blast
  also have "\<dots> \<longleftrightarrow> (\<exists>ws r. (s, ws) \<in> set H \<and> (DocFile i, r) \<in> set (recs_of (s, ws)) \<and> sr_ordinal r = k)"
    unfolding doc_target_encoded by (auto simp: recs_of_def)
  also have "\<dots> \<longleftrightarrow> (\<exists>r \<in> set (records_in H (DocFile i)). sr_seq r = s \<and> sr_ordinal r = k)"
    unfolding Bex_def in_records using recs_of_from by fastforce
  finally show ?thesis .
qed

subsection \<open>The records that may be missing\<close>

lemma current_surveyed: "rv_current (survey (map marker_of H) files) = {i. creates H i True}"
  by (simp add: survey_def Let_def survey_created)

lemma retired_surveyed: "rv_retired (survey (map marker_of H) files) = {i. retired_at H i \<and> creates H i True}"
  by (auto simp: survey_def Let_def survey_created survey_retired)

lemma ended_surveyed:
  assumes "recorded owned H m"
  shows "task_ended (survey (map marker_of H) files) i \<longleftrightarrow> i \<in> ended_tasks m"
  using survey_live[OF assms] by (auto simp: task_ended_def survey_def Let_def alive_def ended_tasks_def)

lemma keys_surveyed [simp]: "rv_keys (survey ms files) = by_key files"
  by (simp add: survey_def Let_def)

lemma base_record_iff:
  "base_record keys i s n = Some r \<longleftrightarrow> keys (DocFile i, s, n) = Some r \<and> (\<exists>v x. sr_payload r = PDocument i (Base v x))"
proof (cases "keys (DocFile i, s, n)")
  case (Some r')
  then show ?thesis
  proof (cases "sr_payload r'")
    case (PDocument j c)
    with Some show ?thesis by (cases c) (auto simp: base_record_def)
  qed (auto simp: base_record_def)
qed (simp add: base_record_def)

abbreviation surveyed :: "history \<Rightarrow> sidecar_name list \<Rightarrow> (sidecar_name \<Rightarrow> sidecar_record list) \<Rightarrow> recovery" where
  "surveyed H names held \<equiv> survey (map marker_of H) (files_of names held)"

lemma bases_surveyed:
  "rv_bases (surveyed H names held) =
     fold (note_base (by_key (files_of names held)) {i. creates H i True}) (marked (map marker_of H)) Map.empty"
  by (simp add: survey_def Let_def survey_created)

lemma base_found:
  assumes rec: "recorded owned H m" and held: "held_ok H names held" and rv: "rv_bases (surveyed H names held) i = Some r"
  shows "r \<in> set (records_in H (DocFile i))" "based_at H i (sr_seq r)" "creates H i True"
proof -
  from bases_sound[OF rv[unfolded bases_surveyed]] obtain s oper n where
    b: "(s, oper) \<in> set (marked (map marker_of H))" "doc_target oper = Some (i, n)" "creates H i True"
      "base_record (by_key (files_of names held)) i s n = Some r" by auto
  then have "s \<in> fst ` set H" by (force simp: marked_def marker_of_def)
  from b(4) lookup_in[OF held recorded_sequenced[OF rec] _ this] have r: "r \<in> set (records_in H (DocFile i))" "sr_seq r = s"
    "\<exists>v x. sr_payload r = PDocument i (Base v x)" by (auto simp: base_record_iff)
  then show "r \<in> set (records_in H (DocFile i))" "based_at H i (sr_seq r)" "creates H i True"
    using b(3) by (auto simp: based_records)
qed

lemma base_kept:
  assumes rec: "recorded owned H m" and held: "held_ok H names held"
    and "based_at H i b" "creates H i True" "\<not> retired_at H i"
  shows "\<exists>r. rv_bases (surveyed H names held) i = Some r \<and> b \<le> sr_seq r"
proof -
  let ?B = "{b. based_at H i b}"
  have fin: "finite ?B" by (rule finite_subset[of _ "fst ` set H"]) (auto dest: based_at_seq)
  let ?b = "Max ?B"
  have "?b \<in> ?B" using fin assms(3) by (intro Max_in) auto
  then obtain rb where rb: "rb \<in> set (records_in H (DocFile i))" "sr_seq rb = ?b" "\<exists>v x. sr_payload rb = PDocument i (Base v x)"
    by (auto simp: based_records)
  have "\<not> droppable H (DocFile i) (sr_seq rb)"
    using assms(5) Max_ge[OF fin] rb(2) by (force simp: left_out_def)
  with lookup_record[OF held recorded_sequenced[OF rec] rb(1)] rb(3) have found: "base_record (by_key (files_of names held)) i (sr_seq rb) (sr_ordinal rb) = Some rb"
    by (auto simp: base_record_iff)
  obtain oper where oper: "(sr_seq rb, oper) \<in> set (marked (map marker_of H))" "doc_target oper = Some (i, sr_ordinal rb)"
    using marked_target[of "sr_seq rb" H i "sr_ordinal rb"] rb(1) by blast
  have "i \<in> {i. creates H i True}" using assms(4) by simp
  from bases_complete[OF oper this found, of Map.empty, folded bases_surveyed] obtain r where
    r: "rv_bases (surveyed H names held) i = Some r" "\<not> record_before r rb" by blast
  have "b \<le> ?b" using Max_ge[OF fin] assms(3) by simp
  with r rb(2) show ?thesis by (auto simp: not_before)
qed

lemma reclaimed_iff:
  assumes rec: "recorded owned H m" and held: "held_ok H names held" and r: "r \<in> set (records_in H (DocFile i))"
  shows "isBeforeLatestBase (surveyed H names held) i (sr_seq r) (sr_ordinal r) \<longrightarrow> left_out H i (sr_seq r)"
    "reclaimed (surveyed H names held) i (sr_seq r) (sr_ordinal r) \<longleftrightarrow> left_out H i (sr_seq r)"
proof -
  show before: "isBeforeLatestBase (surveyed H names held) i (sr_seq r) (sr_ordinal r) \<longrightarrow> left_out H i (sr_seq r)"
  proof
    assume "isBeforeLatestBase (surveyed H names held) i (sr_seq r) (sr_ordinal r)"
    then obtain b where b: "rv_bases (surveyed H names held) i = Some b" "sr_seq r < sr_seq b \<or> sr_seq r = sr_seq b \<and> sr_ordinal r < sr_ordinal b"
      by (auto simp: isBeforeLatestBase_def split: option.splits)
    note found = base_found[OF rec held b(1)]
    have "sr_seq r \<noteq> sr_seq b \<or> r = b" using doc_record_unique[OF rec r found(1)] by blast
    with b(2) have "sr_seq r < sr_seq b" by auto
    with found show "left_out H i (sr_seq r)" by (auto simp: left_out_def)
  qed
  have "reclaimed (surveyed H names held) i (sr_seq r) (sr_ordinal r)" if "left_out H i (sr_seq r)"
  proof (cases "retired_at H i")
    case True
    with that show ?thesis by (auto simp: reclaimed_def retired_surveyed left_out_def)
  next
    case False
    with that obtain b where b: "sr_seq r < b" "based_at H i b" "creates H i True" by (auto simp: left_out_def)
    from base_kept[OF rec held b(2,3) False] b(1) show ?thesis by (auto simp: reclaimed_def isBeforeLatestBase_def)
  qed
  with before show "reclaimed (surveyed H names held) i (sr_seq r) (sr_ordinal r) \<longleftrightarrow> left_out H i (sr_seq r)"
    by (auto simp: reclaimed_def retired_surveyed left_out_def)
qed

end
