(* ===== verification/Jsonl_Recovered.thy ===== *)
theory Jsonl_Recovered
  imports Jsonl_Survey
begin

text \<open>
  Recovery from the files of a history: replaying the markers with what is left of the records gives
  the store that the history ends in, and confirms exactly the records of the history.
\<close>

subsection \<open>The writes of one marker\<close>

definition add_found :: "(record_key \<rightharpoonup> sidecar_record) \<Rightarrow> record_key \<Rightarrow> record_key set \<Rightarrow> record_key set" where
  "add_found keys k confirmed = (if keys k = None then confirmed else insert k confirmed)"

lemma confirm_present:
  "(f, s, n) \<notin> confirmed \<Longrightarrow> rv_keys rv (f, s, n) = Some r \<Longrightarrow>
     confirmRecord rv s n f optional confirmed = Inr (Some r, insert (f, s, n) confirmed)"
  by (simp add: confirmRecord_def)

lemma confirm_absent:
  "(f, s, n) \<notin> confirmed \<Longrightarrow> rv_keys rv (f, s, n) = None \<Longrightarrow> optional \<Longrightarrow>
     confirmRecord rv s n f optional confirmed = Inr (None, confirmed)"
  by (simp add: confirmRecord_def)

lemma recover_write:
  assumes rec: "recorded owned H m" and held: "held_ok H names held" and w: "\<not> is_copy w"
    and side: "\<And>f p. sidecar_of w = Some (f, p) \<Longrightarrow>
      \<lparr>sr_seq = s, sr_ordinal = n, sr_payload = p\<rparr> \<in> set (records_in H f) \<and> (f, s, n) \<notin> confirmed"
  shows "recover_ops (surveyed H names held) s (main_of n w) confirmed =
    Inr (thin_write (ended_tasks m) (left_out H) s w,
         case sidecar_of w of None \<Rightarrow> confirmed | Some (f, _) \<Rightarrow> add_found (by_key (files_of names held)) (f, s, n) confirmed)"
proof (cases "sidecar_of w")
  case None
  with w show ?thesis by (cases w) (auto split: if_splits)
next
  case (Some fp)
  obtain f p where fp: "fp = (f, p)" by (cases fp)
  let ?r = "\<lparr>sr_seq = s, sr_ordinal = n, sr_payload = p\<rparr>" and ?rv = "surveyed H names held"
  from side Some fp have r: "?r \<in> set (records_in H f)" and new: "(f, s, n) \<notin> confirmed" by auto
  from lookup_record[OF held recorded_sequenced[OF rec] r]
  have found: "rv_keys ?rv (f, s, n) = Some ?r \<or> rv_keys ?rv (f, s, n) = None \<and> droppable H f s" by simp
  have ended: "task_ended ?rv i \<longleftrightarrow> i \<in> ended_tasks m" for i using ended_surveyed[OF rec] .
  have gone: "f = DocFile i \<Longrightarrow> reclaimed ?rv i s n \<longleftrightarrow> left_out H i s" for i
    using reclaimed_iff(2)[OF rec held, of ?r i] r by simp
  show ?thesis
  proof (cases w)
    case (WTask t)
    with Some fp have t: "\<not> is_terminal t" "f = TaskFile (tk_id t)" "p = PTask t" by (auto split: if_splits)
    from found show ?thesis
    proof (elim disjE conjE)
      assume "rv_keys ?rv (f, s, n) = Some ?r"
      with confirm_present[OF new this] t Some fp show ?thesis by (simp add: WTask add_found_def ended)
    next
      assume none: "rv_keys ?rv (f, s, n) = None" "droppable H f s"
      with t have "tk_id t \<in> ended_tasks m" using recorded_ended[OF rec] by simp
      with confirm_absent[OF new none(1)] none t Some fp show ?thesis by (simp add: WTask add_found_def ended)
    qed
  next
    case (WCreate rc v x)
    with Some fp have t: "f = DocFile (dc_id rc)" "p = PDocument (dc_id rc) (Base v x)" by auto
    from found show ?thesis
    proof (elim disjE conjE)
      assume "rv_keys ?rv (f, s, n) = Some ?r"
      with confirm_present[OF new this] t Some fp show ?thesis by (simp add: WCreate add_found_def gone document_content_def)
    next
      assume none: "rv_keys ?rv (f, s, n) = None" "droppable H f s"
      with confirm_absent[OF new none(1)] t Some fp show ?thesis by (simp add: WCreate add_found_def gone document_content_def)
    qed
  next
    case (WChange i c)
    with Some fp have t: "f = DocFile i" "p = PDocument i c" by auto
    from found show ?thesis
    proof (elim disjE conjE)
      assume "rv_keys ?rv (f, s, n) = Some ?r"
      with confirm_present[OF new this] t Some fp show ?thesis by (simp add: WChange add_found_def gone document_content_def)
    next
      assume none: "rv_keys ?rv (f, s, n) = None" "droppable H f s"
      with confirm_absent[OF new none(1)] t Some fp show ?thesis by (simp add: WChange add_found_def gone document_content_def)
    qed
  qed (use Some in auto)
qed

lemma recover_append:
  "recover_ops rv s (ops @ ops') confirmed =
     and_then (recover_ops rv s ops confirmed) (\<lambda>(ws, confirmed').
     and_then (recover_ops rv s ops' confirmed') (\<lambda>(ws', confirmed''). Inr (ws @ ws', confirmed'')))"
  by (induction ops arbitrary: confirmed) (auto simp: and_then_def split: sum.split)

definition found_in :: "(record_key \<rightharpoonup> sidecar_record) \<Rightarrow> (sidecar_name \<times> sidecar_record) list \<Rightarrow> record_key set" where
  "found_in keys recs = {k. \<exists>(f, r) \<in> set recs. k = (f, sr_seq r, sr_ordinal r) \<and> keys k \<noteq> None}"

lemma found_in_simps [simp]:
  "found_in keys [] = {}"
  "found_in keys ((f, r) # recs) \<union> C = found_in keys recs \<union> add_found keys (f, sr_seq r, sr_ordinal r) C"
  by (auto simp: found_in_def add_found_def)

declare encode_writes.simps(2) [simp del]

lemma recover_writes:
  assumes rec: "recorded owned H m" and held: "held_ok H names held"
    and "\<not> list_ex is_copy ws" "\<And>f r. (f, r) \<in> set (snd (encode_writes s n ws)) \<Longrightarrow> r \<in> set (records_in H f)"
    and "\<And>f k. (f, s, k) \<in> confirmed \<Longrightarrow> k < n"
  shows "recover_ops (surveyed H names held) s (fst (encode_writes s n ws)) confirmed =
    Inr (thin (ended_tasks m) (left_out H) s ws,
         found_in (by_key (files_of names held)) (snd (encode_writes s n ws)) \<union> confirmed)"
  using assms(3-)
proof (induction ws arbitrary: n confirmed)
  case (Cons w ws)
  let ?keys = "by_key (files_of names held)"
  have side: "\<lparr>sr_seq = s, sr_ordinal = n, sr_payload = p\<rparr> \<in> set (records_in H f) \<and> (f, s, n) \<notin> confirmed"
    if "sidecar_of w = Some (f, p)" for f p
  proof -
    have "(f, \<lparr>sr_seq = s, sr_ordinal = n, sr_payload = p\<rparr>) \<in> set (snd (encode_writes s n (w # ws)))"
      unfolding encode_records using that by simp
    from Cons.prems(2)[OF this] Cons.prems(3)[of f n] show ?thesis by auto
  qed
  have first: "recover_ops (surveyed H names held) s (main_of n w) confirmed =
    Inr (thin_write (ended_tasks m) (left_out H) s w,
         case sidecar_of w of None \<Rightarrow> confirmed | Some (f, _) \<Rightarrow> add_found ?keys (f, s, n) confirmed)"
    using Cons.prems(1) side by (intro recover_write[OF rec held]) auto
  show ?case
  proof (cases "sidecar_of w")
    case None
    have "recover_ops (surveyed H names held) s (fst (encode_writes s n ws)) confirmed =
      Inr (thin (ended_tasks m) (left_out H) s ws, found_in ?keys (snd (encode_writes s n ws)) \<union> confirmed)"
      using Cons.prems None by (intro Cons.IH) (auto simp: encode_records)
    with first None show ?thesis unfolding encode_main encode_records recover_append by simp
  next
    case (Some fp)
    obtain f p where fp: "fp = (f, p)" by (cases fp)
    let ?c = "add_found ?keys (f, s, n) confirmed"
    have "recover_ops (surveyed H names held) s (fst (encode_writes s (n + 1) ws)) ?c =
      Inr (thin (ended_tasks m) (left_out H) s ws, found_in ?keys (snd (encode_writes s (n + 1) ws)) \<union> ?c)"
    proof (rule Cons.IH)
      show "k < n + 1" if "(g, s, k) \<in> ?c" for g k
        using that Cons.prems(3)[of g k] by (auto simp: add_found_def split: if_splits)
    qed (use Cons.prems Some fp in \<open>auto simp: encode_records\<close>)
    with first Some fp show ?thesis unfolding encode_main encode_records recover_append by simp
  qed
qed simp

subsection \<open>All markers\<close>

lemma recover_history:
  assumes rec: "recorded owned (H1 @ H2) m" and held: "held_ok (H1 @ H2) names held"
    and "\<forall>c \<in> set H2. \<not> list_ex is_copy (snd c)" "\<And>f s k. (f, s, k) \<in> confirmed \<Longrightarrow> s \<in> fst ` set H1"
  shows "recover_markers owned (surveyed (H1 @ H2) names held) (map marker_of H2) confirmed m1 =
    and_then (play_history owned (thin_history (ended_tasks m) (left_out (H1 @ H2)) H2) m1)
      (\<lambda>m'. Inr (found_in (by_key (files_of names held)) (concat (map recs_of H2)) \<union> confirmed, m'))"
  using assms
proof (induction H2 arbitrary: H1 confirmed m1)
  case (Cons c H2)
  obtain s ws where c: "c = (s, ws)" by (cases c)
  let ?H = "H1 @ c # H2" and ?keys = "by_key (files_of names held)"
  let ?c = "found_in ?keys (recs_of c) \<union> confirmed"
  have seq: "s \<notin> fst ` set H1"
    using sequenced_split(1)[of H1 s ws H2 m s] recorded_sequenced[OF Cons.prems(1)] c by auto
  have ops: "recover_ops (surveyed ?H names held) s (fst (encode_writes s 0 ws)) confirmed =
      Inr (thin (ended_tasks m) (left_out ?H) s ws, found_in ?keys (snd (encode_writes s 0 ws)) \<union> confirmed)"
  proof (rule recover_writes[OF Cons.prems(1,2)])
    show "r \<in> set (records_in ?H f)" if "(f, r) \<in> set (snd (encode_writes s 0 ws))" for f r
      using that c by (auto simp: recs_of_def)
    show "k < 0" if "(f, s, k) \<in> confirmed" for f k using Cons.prems(4)[OF that] seq by simp
  qed (use Cons.prems(3) c in simp)
  have H: "(H1 @ [c]) @ H2 = ?H" by simp
  have rest: "recover_markers owned (surveyed ?H names held) (map marker_of H2) ?c m2 =
      and_then (play_history owned (thin_history (ended_tasks m) (left_out ?H) H2) m2)
        (\<lambda>m'. Inr (found_in ?keys (concat (map recs_of H2)) \<union> ?c, m'))" for m2
  proof (rule Cons.IH[of "H1 @ [c]" ?c m2, unfolded H])
    show "t \<in> fst ` set (H1 @ [c])" if "(f, t, k) \<in> ?c" for f t k
      using that
    proof
      assume "(f, t, k) \<in> found_in ?keys (recs_of c)"
      then obtain r where "(f, r) \<in> set (recs_of c)" "t = sr_seq r" by (auto simp: found_in_def)
      with recs_of_from[OF this(1)] show ?thesis by simp
    next
      assume "(f, t, k) \<in> confirmed"
      from Cons.prems(4)[OF this] show ?thesis by auto
    qed
  qed (use Cons.prems in simp_all)
  have mk: "mk_seq (marker_of c) = s" "mk_writes (marker_of c) = fst (encode_writes s 0 ws)"
    "recs_of c = snd (encode_writes s 0 ws)" by (simp_all add: marker_of_def recs_of_def c)
  have un: "found_in ?keys (recs_of c @ xs) \<union> C = found_in ?keys xs \<union> (found_in ?keys (recs_of c) \<union> C)" for xs C
    by (auto simp: found_in_def)
  show ?case
    using ops rest
    by (simp add: mk(1,2) un thin_history_def)
      (auto simp: mk(3)[symmetric] c and_then_def thin_history_def split: sum.split)
qed (simp add: thin_history_def)

lemma recorded_no_copy: "recorded owned H m \<Longrightarrow> c \<in> set H \<Longrightarrow> \<not> list_ex is_copy (snd c)"
  by (induction rule: recorded.induct) auto

lemma recover_all:
  assumes "recorded owned H m" "held_ok H names held"
  shows "\<exists>m'. recover_markers owned (surveyed H names held) (map marker_of H) {} new_store
      = Inr (found_in (by_key (files_of names held)) (concat (map recs_of H)), m') \<and> alike m m' \<and> store_ok m'"
  using recover_history[of owned "[]" H m names held "{}" new_store] assms thin_history_alike[OF assms(1)]
    recorded_no_copy[OF assms(1)]
  by auto

end
