(* ===== verification/Jsonl_Disk.thy ===== *)
theory Jsonl_Disk
  imports Jsonl_Recovered
begin

text \<open>
  Disks that hold a history, and what recovery makes of them whatever file operations fail: it
  either stops at a failed operation and the disk still holds the history, or it opens a storage
  with the history's records on a clean disk.
\<close>

subsection \<open>The files of a disk\<close>

definition main_lines :: "disk \<Rightarrow> main_marker option list" where
  "main_lines d = (case dk_main d of None \<Rightarrow> [] | Some f \<Rightarrow> jf_lines f)"

definition main_torn :: "disk \<Rightarrow> bool" where
  "main_torn d \<longleftrightarrow> (case dk_main d of None \<Rightarrow> False | Some f \<Rightarrow> jf_torn f)"

definition sidecar_lines :: "disk \<Rightarrow> sidecar_name \<Rightarrow> sidecar_record option list" where
  "sidecar_lines d f = (case map_of (dk_sidecars d) f of None \<Rightarrow> [] | Some g \<Rightarrow> jf_lines g)"

definition sidecar_torn :: "disk \<Rightarrow> sidecar_name \<Rightarrow> bool" where
  "sidecar_torn d f \<longleftrightarrow> (case map_of (dk_sidecars d) f of None \<Rightarrow> False | Some g \<Rightarrow> jf_torn g)"

definition disk_names :: "disk \<Rightarrow> sidecar_name list" where
  "disk_names d = map fst (dk_sidecars d)"

definition held_by :: "disk \<Rightarrow> sidecar_name \<Rightarrow> sidecar_record list" where
  "held_by d f = map the (sidecar_lines d f)"

definition put_lines :: "sidecar_record jfile option \<Rightarrow> sidecar_record option list" where
  "put_lines g = (case g of None \<Rightarrow> [] | Some h \<Rightarrow> jf_lines h)"

definition put_torn :: "sidecar_record jfile option \<Rightarrow> bool" where
  "put_torn g \<longleftrightarrow> (case g of None \<Rightarrow> False | Some h \<Rightarrow> jf_torn h)"

lemma put_sidecar_effect [simp]:
  "sidecar_lines (put_sidecar f g d) = (sidecar_lines d)(f := put_lines g)"
  "sidecar_torn (put_sidecar f g d) = (sidecar_torn d)(f := put_torn g)"
  "dk_main (put_sidecar f g d) = dk_main d"
  "dk_temps (put_sidecar f g d) = dk_temps d"
  by (auto simp: sidecar_lines_def sidecar_torn_def put_sidecar_def put_lines_def put_torn_def fun_eq_iff
      update_conv delete_conv split: option.split)

lemma put_names:
  "distinct (disk_names d) \<Longrightarrow> distinct (disk_names (put_sidecar f g d))"
  by (cases g) (simp_all add: disk_names_def put_sidecar_def distinct_update distinct_delete)

lemma put_named:
  "list_all isSidecarFileName (disk_names d) \<Longrightarrow> g = None \<or> isSidecarFileName f \<Longrightarrow>
     list_all isSidecarFileName (disk_names (put_sidecar f g d))"
  by (cases g) (auto simp: disk_names_def put_sidecar_def update_keys delete_keys list_all_iff)

lemma put_name: "f \<in> set (disk_names d) \<Longrightarrow> disk_names (put_sidecar f (Some h) d) = disk_names d"
  by (simp add: disk_names_def put_sidecar_def update_keys)

lemma temps_effect [simp]:
  "sidecar_lines (d\<lparr>dk_temps := x\<rparr>) = sidecar_lines d" "sidecar_torn (d\<lparr>dk_temps := x\<rparr>) = sidecar_torn d"
  "main_lines (d\<lparr>dk_temps := x\<rparr>) = main_lines d" "main_torn (d\<lparr>dk_temps := x\<rparr>) = main_torn d"
  "disk_names (d\<lparr>dk_temps := x\<rparr>) = disk_names d"
  by (auto simp: sidecar_lines_def sidecar_torn_def main_lines_def main_torn_def disk_names_def fun_eq_iff)

lemma main_effect [simp]:
  "sidecar_lines (d\<lparr>dk_main := x\<rparr>) = sidecar_lines d" "sidecar_torn (d\<lparr>dk_main := x\<rparr>) = sidecar_torn d"
  "disk_names (d\<lparr>dk_main := x\<rparr>) = disk_names d"
  by (auto simp: sidecar_lines_def sidecar_torn_def disk_names_def fun_eq_iff)

lemma put_main [simp]:
  "main_lines (put_sidecar f g d) = main_lines d" "main_torn (put_sidecar f g d) = main_torn d"
  by (simp_all add: main_lines_def main_torn_def)

subsection \<open>Holding a history\<close>

definition sidecar_holds :: "history \<Rightarrow> sidecar_name \<Rightarrow> sidecar_record option list \<Rightarrow> bool" where
  "sidecar_holds H f ls \<longleftrightarrow>
     (\<exists>kept tail. ls = map Some (kept @ tail) \<and> enough H f kept \<and> unconfirmed H tail
        \<and> (\<forall>r \<in> set (kept @ tail). parseSidecarRecord r))"

definition holds :: "history \<Rightarrow> disk \<Rightarrow> bool" where
  "holds H d \<longleftrightarrow>
     main_lines d = map (Some \<circ> marker_of) H \<and> (\<forall>c \<in> set H. parseMainMarker (marker_of c))
     \<and> distinct (disk_names d) \<and> list_all isSidecarFileName (disk_names d)
     \<and> (\<forall>f. sidecar_holds H f (sidecar_lines d f))"

definition sidecar_clean :: "history \<Rightarrow> sidecar_name \<Rightarrow> sidecar_record option list \<Rightarrow> bool" where
  "sidecar_clean H f ls \<longleftrightarrow>
     (\<exists>kept. ls = map Some kept \<and> enough H f kept \<and> (\<forall>r \<in> set kept. parseSidecarRecord r))"

definition clean :: "history \<Rightarrow> disk \<Rightarrow> bool" where
  "clean H d \<longleftrightarrow>
     holds H d \<and> \<not> main_torn d \<and> (\<forall>f. \<not> sidecar_torn d f \<and> sidecar_clean H f (sidecar_lines d f))"

lemma sidecar_clean_holds: "sidecar_clean H f ls \<Longrightarrow> sidecar_holds H f ls"
  unfolding sidecar_clean_def sidecar_holds_def by (metis append_Nil2 empty_iff empty_set sorted_wrt.simps(1) unconfirmed_def)

lemma holds_put:
  "holds H d \<Longrightarrow> sidecar_holds H f (put_lines g) \<Longrightarrow> g = None \<or> isSidecarFileName f \<Longrightarrow> holds H (put_sidecar f g d)"
  unfolding holds_def by (simp add: put_names put_named)

lemma clean_put:
  "clean H d \<Longrightarrow> sidecar_clean H f (put_lines g) \<Longrightarrow> \<not> put_torn g \<Longrightarrow> g = None \<or> isSidecarFileName f \<Longrightarrow>
     clean H (put_sidecar f g d)"
  by (simp add: clean_def holds_put sidecar_clean_holds)

lemma holds_temps [simp]: "holds H (d\<lparr>dk_temps := x\<rparr>) = holds H d" "clean H (d\<lparr>dk_temps := x\<rparr>) = clean H d"
  by (simp_all add: holds_def clean_def)

lemma holds_held_ok: "holds H d \<Longrightarrow> held_ok H (disk_names d) (held_by d)"
proof -
  assume h: "holds H d"
  have "\<exists>kept tail. held_by d f = kept @ tail \<and> enough H f kept \<and> unconfirmed H tail" for f
  proof -
    from h have "sidecar_holds H f (sidecar_lines d f)" by (simp add: holds_def)
    then obtain kept tail where k: "sidecar_lines d f = map Some (kept @ tail)" "enough H f kept" "unconfirmed H tail"
      unfolding sidecar_holds_def by blast
    have "held_by d f = kept @ tail" unfolding held_by_def k(1) by (simp add: comp_def)
    with k show ?thesis by blast
  qed
  moreover have "held_by d f = []" if "f \<notin> set (disk_names d)" for f
    using that by (simp add: held_by_def sidecar_lines_def disk_names_def map_of_eq_None_iff[symmetric])
  moreover have "distinct (disk_names d)" using h by (simp add: holds_def)
  ultimately show ?thesis unfolding held_ok_def by blast
qed

lemma holds_lines: "holds H d \<Longrightarrow> sidecar_lines d f = map Some (held_by d f) \<and> (\<forall>r \<in> set (held_by d f). parseSidecarRecord r)"
  by (auto simp: holds_def sidecar_holds_def held_by_def comp_def dest!: spec[where x = f])

subsection \<open>Replacing a sidecar\<close>

lemma replace_clean:
  assumes "clean H d" "enough H f rs" "\<forall>r \<in> set rs. parseSidecarRecord r" "rs = [] \<or> isSidecarFileName f"
  shows "clean H (replaceSidecar fs fsync (f, rs) d)"
proof -
  have new: "sidecar_clean H f (map Some rs)" using assms(2,3) unfolding sidecar_clean_def by blast
  have "clean H (put_sidecar f (if rs = [] then None else Some \<lparr>jf_lines = map Some rs, jf_torn = False\<rparr>) d')"
    if "clean H d'" for d'
    using clean_put[OF that, of f "if rs = [] then None else Some \<lparr>jf_lines = map Some rs, jf_torn = False\<rparr>"] new assms(4)
    by (cases "rs = []") (simp_all add: put_lines_def put_torn_def)
  from this[of d] this[of "d\<lparr>dk_temps := removeAll f (dk_temps (d\<lparr>dk_temps := List.insert f (dk_temps d)\<rparr>))\<rparr>"] assms(1)
  show ?thesis by (auto simp: replaceSidecar_def Let_def)
qed

lemma reclaim_clean:
  assumes "clean H d" "list_all (\<lambda>(f, rs). enough H f rs \<and> (\<forall>r \<in> set rs. parseSidecarRecord r) \<and> (rs = [] \<or> isSidecarFileName f)) reps"
  shows "clean H (reclaimSidecars fs fsync reps d)"
proof -
  have "clean H (fold (replaceSidecar fs fsync) reps d)"
    using assms by (induction reps arbitrary: d) (auto intro: replace_clean)
  with assms(1) show ?thesis by (simp add: reclaimSidecars_def)
qed

subsection \<open>Reading\<close>

text \<open>A result is a failed operation, or a value with a property.\<close>

definition outcome :: "(fs_op \<Rightarrow> fs_outcome) \<Rightarrow> ('v \<Rightarrow> bool) \<Rightarrow> jsonl_error + 'v \<Rightarrow> bool" where
  "outcome fs P r \<longleftrightarrow> (case r of Inl e \<Rightarrow> \<exists>oper. e = FileFailed oper \<and> \<not> fs_works fs oper | Inr v \<Rightarrow> P v)"

lemma outcome_simps [simp]:
  "outcome fs P (Inr v) = P v" "outcome fs P (Inl e) = (\<exists>oper. e = FileFailed oper \<and> \<not> fs_works fs oper)"
  by (simp_all add: outcome_def)

lemma each_parses: "(\<forall>r \<in> set rs. valid r) \<Longrightarrow> each (parse_line valid) (map Some rs) = Inr rs"
  by (induction rs) (simp_all add: parse_line_def)

definition same_content :: "disk \<Rightarrow> disk \<Rightarrow> bool" where
  "same_content d d' \<longleftrightarrow>
     main_lines d' = main_lines d \<and> sidecar_lines d' = sidecar_lines d \<and> disk_names d' = disk_names d"

lemma same_holds: "same_content d d' \<Longrightarrow> holds H d' = holds H d"
  by (simp add: holds_def same_content_def)

lemma read_main_result:
  assumes "holds H d" "read_main fs d = (r, d')"
  shows "same_content d d'" "outcome fs (\<lambda>ms. ms = map marker_of H \<and> \<not> main_torn d') r" "sidecar_torn d' = sidecar_torn d"
proof -
  have lines: "main_lines d = map Some (map marker_of H)" "\<forall>mk \<in> set (map marker_of H). parseMainMarker mk"
    using assms(1) by (auto simp: holds_def)
  have "same_content d d' \<and> outcome fs (\<lambda>ms. ms = map marker_of H \<and> \<not> main_torn d') r \<and> sidecar_torn d' = sidecar_torn d"
  proof (cases "dk_main d")
    case None
    with assms(2) lines(1) show ?thesis by (auto simp: read_main_def same_content_def main_lines_def main_torn_def)
  next
    case (Some f)
    with lines have parsed: "each (parse_line parseMainMarker) (jf_lines f) = Inr (map marker_of H)"
      using each_parses[OF lines(2)] by (simp add: main_lines_def)
    from Some assms(2) show ?thesis
      by (auto simp: parsed read_main_def same_content_def main_lines_def main_torn_def untorn_def split: if_splits)
  qed
  then show "same_content d d'" "outcome fs (\<lambda>ms. ms = map marker_of H \<and> \<not> main_torn d') r" "sidecar_torn d' = sidecar_torn d"
    by blast+
qed

lemma read_sidecar_result:
  assumes "holds H d" "read_sidecar fs f d = (r, d')"
  shows "same_content d d'" "dk_main d' = dk_main d"
    "outcome fs (\<lambda>rs. rs = held_by d f \<and> sidecar_torn d' = (sidecar_torn d)(f := False)) r"
proof -
  have "same_content d d' \<and> dk_main d' = dk_main d
    \<and> outcome fs (\<lambda>rs. rs = held_by d f \<and> sidecar_torn d' = (sidecar_torn d)(f := False)) r"
  proof (cases "map_of (dk_sidecars d) f")
    case None
    with assms(2) show ?thesis
      by (auto simp: read_sidecar_def same_content_def held_by_def sidecar_lines_def sidecar_torn_def fun_eq_iff)
  next
    case (Some g)
    have g: "jf_lines g = map Some (held_by d f)" using holds_lines[OF assms(1), of f] Some by (simp add: sidecar_lines_def)
    have parsed: "each (parse_line parseSidecarRecord) (jf_lines g) = Inr (held_by d f)"
      unfolding g using holds_lines[OF assms(1), of f] by (intro each_parses) simp
    have "same_content d (put_sidecar f (Some (untorn g)) d)"
    proof -
      have "f \<in> set (disk_names d)" using Some by (metis disk_names_def list.set_map map_of_eq_None_iff option.distinct(1))
      from put_name[OF this] Some show ?thesis
        by (auto simp: same_content_def put_lines_def untorn_def sidecar_lines_def fun_eq_iff)
    qed
    with Some assms(2) show ?thesis
      by (auto simp: parsed read_sidecar_def put_torn_def untorn_def same_content_def split: if_splits)
  qed
  then show "same_content d d'" "dk_main d' = dk_main d"
    "outcome fs (\<lambda>rs. rs = held_by d f \<and> sidecar_torn d' = (sidecar_torn d)(f := False)) r" by blast+
qed

lemma same_content_trans:
  "same_content d d1 \<Longrightarrow> same_content d1 d2 \<Longrightarrow> same_content d d2" "same_content d d"
  by (simp_all add: same_content_def)

lemma same_held: "same_content d d' \<Longrightarrow> held_by d' = held_by d"
  by (simp add: same_content_def held_by_def fun_eq_iff)

lemma disk_then_cases:
  assumes "disk_then x f d = (r, d')"
  obtains (fails) e where "x d = (Inl e, d')" "r = Inl e"
  | (works) v d1 where "x d = (Inr v, d1)" "f v d1 = (r, d')"
  using assms by (cases "x d"; cases "fst (x d)") (auto simp: disk_then_def)

lemma read_sidecars_result:
  assumes "holds H d" "sequenced H m" "read_sidecars fs names d = (r, d')"
  shows "same_content d d' \<and> dk_main d' = dk_main d
    \<and> outcome fs (\<lambda>files. files = files_of names (held_by d)
        \<and> (\<forall>f. sidecar_torn d' f = (sidecar_torn d f \<and> f \<notin> set names))) r"
  using assms(1,3)
proof (induction names arbitrary: d d' r)
  case Nil
  then show ?case by (auto simp: disk_value_def same_content_trans files_of_def)
next
  case (Cons f names)
  from Cons.prems(2)[unfolded read_sidecars.simps] show ?case
  proof (cases rule: disk_then_cases)
    case (fails e)
    with read_sidecar_result[OF Cons.prems(1) fails(1)] show ?thesis by simp
  next
    case (works rs d1)
    note first = read_sidecar_result[OF Cons.prems(1) works(1), simplified]
    have "sorted_wrt record_before (held_by d f)"
      using held_ordered[OF holds_held_ok[OF Cons.prems(1)] assms(2)] .
    then have "successively record_before rs"
      using first(3) successively_if_sorted_wrt by blast
    with works(2) have "disk_then (read_sidecars fs names) (\<lambda>parsed. disk_value (Inr ((f, rs) # parsed))) d1 = (r, d')"
      by simp
    then show ?thesis
    proof (cases rule: disk_then_cases)
      case (fails e)
      with Cons.IH[OF _ fails(1)] same_holds[OF first(1)] Cons.prems(1) first show ?thesis
        by (auto intro: same_content_trans)
    next
      case rest: (works parsed d2)
      with Cons.IH[OF _ rest(1)] same_holds[OF first(1)] Cons.prems(1) first same_held[OF first(1)] show ?thesis
        by (auto simp: disk_value_def files_of_def intro: same_content_trans)
    qed
  qed
qed

lemma remove_temps_result [simp]:
  "sidecar_lines (remove_temps fs d) = sidecar_lines d" "sidecar_torn (remove_temps fs d) = sidecar_torn d"
  "main_lines (remove_temps fs d) = main_lines d" "main_torn (remove_temps fs d) = main_torn d"
  "disk_names (remove_temps fs d) = disk_names d" "holds H (remove_temps fs d) = holds H d"
  by (simp_all add: remove_temps_def)

subsection \<open>Cutting the tails\<close>

definition in_history :: "history \<Rightarrow> sidecar_record \<Rightarrow> bool" where
  "in_history H r \<longleftrightarrow> sr_seq r \<in> fst ` set H"

lemma held_split:
  assumes "sidecar_holds H f ls"
  shows "enough H f (takeWhile (in_history H) (map the ls))" "unconfirmed H (dropWhile (in_history H) (map the ls))"
    "list_ex (in_history H) (dropWhile (in_history H) (map the ls)) = False"
proof -
  from assms obtain kept tail where k: "ls = map Some (kept @ tail)" "enough H f kept" "unconfirmed H tail"
    unfolding sidecar_holds_def by blast
  have ls: "map the ls = kept @ tail" unfolding k(1) by (simp add: comp_def)
  have yes: "\<forall>r \<in> set kept. in_history H r" using enough_subset[OF k(2)] records_seq unfolding in_history_def by blast
  have no: "\<forall>r \<in> set tail. \<not> in_history H r" using unconfirmedD[OF k(3)] by (auto simp: in_history_def)
  have "takeWhile (in_history H) (map the ls) = kept" "dropWhile (in_history H) (map the ls) = tail"
    unfolding ls using yes no by (cases tail; simp)+
  with k no show "enough H f (takeWhile (in_history H) (map the ls))" "unconfirmed H (dropWhile (in_history H) (map the ls))"
    "list_ex (in_history H) (dropWhile (in_history H) (map the ls)) = False"
    by (auto simp: list_ex_iff)
qed

lemma confirmed_found:
  assumes "recorded owned H m" "held_ok H names held" "r \<in> set (held f)"
  shows "is_confirmed (found_in (by_key (files_of names held)) (concat (map recs_of H))) f r = in_history H r"
proof -
  note seqd = recorded_sequenced[OF assms(1)]
  have key: "by_key (files_of names held) (f, sr_seq r, sr_ordinal r) = Some r"
    using by_key_iff[OF assms(2) seqd] assms(3) by blast
  show ?thesis
  proof
    assume "in_history H r"
    then have "r \<in> set (records_in H f)" using lookup_in(1)[OF assms(2) seqd key] by (simp add: in_history_def)
    with key show "is_confirmed (found_in (by_key (files_of names held)) (concat (map recs_of H))) f r"
      by (force simp: is_confirmed_def found_in_def in_records)
  next
    assume "is_confirmed (found_in (by_key (files_of names held)) (concat (map recs_of H))) f r"
    then obtain c r' where "c \<in> set H" "(f, r') \<in> set (recs_of c)" "sr_seq r = sr_seq r'"
      by (auto simp: is_confirmed_def found_in_def)
    with recs_of_from[of f r' c] show "in_history H r" by (simp add: in_history_def)
  qed
qed

lemma kept_clean:
  assumes "holds H d"
  shows "sidecar_clean H f (map Some (takeWhile (in_history H) (held_by d f)))"
proof -
  have "sidecar_holds H f (sidecar_lines d f)" using assms by (simp add: holds_def)
  from held_split(1)[OF this] have "enough H f (takeWhile (in_history H) (held_by d f))" by (simp only: held_by_def)
  moreover have "\<forall>r \<in> set (takeWhile (in_history H) (held_by d f)). parseSidecarRecord r"
    using holds_lines[OF assms, of f] set_takeWhileD by fast
  ultimately show ?thesis unfolding sidecar_clean_def by blast
qed

lemma cut_tail_result:
  assumes "holds H d" "cut_tail fs confirmed f (held_by d f) d = (r, d')"
    and "\<forall>r \<in> set (held_by d f). is_confirmed confirmed f r = in_history H r" "isSidecarFileName f"
  shows "holds H d'" "dk_main d' = dk_main d" "\<forall>g. g \<noteq> f \<longrightarrow> sidecar_lines d' g = sidecar_lines d g"
    "outcome fs (\<lambda>_. sidecar_lines d' f = map Some (takeWhile (in_history H) (held_by d f))) r"
    "\<forall>g. sidecar_torn d' g \<longrightarrow> sidecar_torn d g"
proof -
  let ?rs = "held_by d f"
  have same: "takeWhile (is_confirmed confirmed f) ?rs = takeWhile (in_history H) ?rs"
    "dropWhile (is_confirmed confirmed f) ?rs = dropWhile (in_history H) ?rs"
    by (intro takeWhile_cong dropWhile_cong refl; use assms(3) in simp)+
  have sh: "sidecar_holds H f (sidecar_lines d f)" using assms(1) by (simp add: holds_def)
  have rs: "?rs = map the (sidecar_lines d f)" by (simp add: held_by_def)
  note parts = held_split[OF sh, folded rs]
  have "\<forall>r \<in> set (dropWhile (in_history H) ?rs). is_confirmed confirmed f r = in_history H r"
    using assms(3) set_dropWhileD by fast
  then have noconf: "\<not> list_ex (is_confirmed confirmed f) (dropWhile (in_history H) ?rs)"
    using parts(3) by (auto simp: list_ex_iff)
  from kept_clean[OF assms(1)]
  have "holds H (put_sidecar f (Some \<lparr>jf_lines = map Some (takeWhile (in_history H) ?rs), jf_torn = False\<rparr>) d)"
    by (intro holds_put[OF assms(1)]) (simp_all add: put_lines_def sidecar_clean_holds assms(4))
  moreover have "dropWhile (in_history H) ?rs = [] \<Longrightarrow> takeWhile (in_history H) ?rs = ?rs"
    by (simp add: dropWhile_eq_Nil_conv takeWhile_eq_all_conv)
  moreover note holds_lines[OF assms(1), of f]
  ultimately show "holds H d'" "dk_main d' = dk_main d" "\<forall>g. g \<noteq> f \<longrightarrow> sidecar_lines d' g = sidecar_lines d g"
    "outcome fs (\<lambda>_. sidecar_lines d' f = map Some (takeWhile (in_history H) (held_by d f))) r"
    "\<forall>g. sidecar_torn d' g \<longrightarrow> sidecar_torn d g"
    using assms(1,2) noconf
    by (auto simp: cut_tail_def Let_def same put_lines_def put_torn_def takeWhile_eq_all_conv[THEN iffD2] split: if_splits)
qed

lemma cut_tails_result:
  assumes "holds H d" "cut_tails fs confirmed (files_of names held) d = (r, d')" "distinct names" "list_all isSidecarFileName names"
    and "\<forall>f \<in> set names. held f = held_by d f \<and> (\<forall>r \<in> set (held_by d f). is_confirmed confirmed f r = in_history H r)"
  shows "holds H d' \<and> dk_main d' = dk_main d \<and> (\<forall>g. g \<notin> set names \<longrightarrow> sidecar_lines d' g = sidecar_lines d g)
    \<and> (\<forall>g. sidecar_torn d' g \<longrightarrow> sidecar_torn d g)
    \<and> outcome fs (\<lambda>_. \<forall>f \<in> set names. sidecar_lines d' f = map Some (takeWhile (in_history H) (held f))) r"
  using assms
proof (induction names arbitrary: d r d')
  case Nil
  then show ?case by (auto simp: files_of_def disk_value_def)
next
  case (Cons f names)
  have f: "held f = held_by d f" "\<forall>r \<in> set (held_by d f). is_confirmed confirmed f r = in_history H r" "isSidecarFileName f"
    using Cons.prems(4,5) by auto
  have "disk_then (cut_tail fs confirmed f (held_by d f)) (\<lambda>_. cut_tails fs confirmed (files_of names held)) d = (r, d')"
    using Cons.prems(2) f(1) by (simp add: files_of_def)
  then show ?case
  proof (cases rule: disk_then_cases)
    case (fails e)
    from cut_tail_result[OF Cons.prems(1) fails(1) f(2,3)] fails(2) show ?thesis by auto
  next
    case (works u d1)
    note first = cut_tail_result[OF Cons.prems(1) works(1) f(2,3)]
    have "held_by d1 g = held_by d g" if "g \<in> set names" for g
    proof -
      have "g \<noteq> f" using that Cons.prems(3) by auto
      with first(3) show ?thesis by (simp add: held_by_def)
    qed
    then have later: "\<forall>g \<in> set names. held g = held_by d1 g \<and> (\<forall>r \<in> set (held_by d1 g). is_confirmed confirmed g r = in_history H r)"
      using Cons.prems(5) by simp
    have "distinct names" "list_all isSidecarFileName names" "f \<notin> set names" using Cons.prems(3,4) by simp_all
    from Cons.IH[OF first(1) works(2) this(1,2) later] this(3) first f(1) show ?thesis
      by (cases r) (auto simp: outcome_def)
  qed
qed

end
