(* ===== verification/Jsonl_Crash.thy ===== *)
theory Jsonl_Crash
  imports Jsonl_Disk
begin

text \<open>
  Crash safety of the JSONL storage: whatever operations fail and whenever the process dies, the
  disk holds the history of the commits whose marker is complete, every acknowledged commit is one
  of them, and a later recovery gives the store of that history.
\<close>

subsection \<open>Recovery\<close>

lemma retained_enough:
  assumes rec: "recorded owned H m" and held: "held_ok H names held" and rs: "enough H f rs"
    and kept: "retained (surveyed H names held) f rs = Some kept"
  shows "enough H f kept" "set kept \<subseteq> set rs"
proof -
  have all: "enough H f []" if "\<And>s. droppable H f s"
    using enough_filter[OF rs, of "\<lambda>_. False"] that by simp
  have "enough H f kept \<and> set kept \<subseteq> set rs"
  proof (cases f)
    case (TaskFile i)
    with kept have "kept = []" "i \<in> ended_tasks m"
      using ended_surveyed[OF rec] by (auto simp: retained_def split: if_splits)
    with all TaskFile recorded_ended[OF rec] show ?thesis by simp
  next
    case (DocFile i)
    show ?thesis
    proof (cases "i \<in> rv_retired (surveyed H names held)")
      case True
      with kept DocFile have "kept = []" by (simp add: retained_def)
      with all True DocFile show ?thesis by (simp add: retired_surveyed left_out_def)
    next
      case False
      with kept DocFile have k: "kept = filter (\<lambda>r. \<not> isBeforeLatestBase (surveyed H names held) i (sr_seq r) (sr_ordinal r)) rs"
        by (auto simp: retained_def split: if_splits)
      have "droppable H f (sr_seq r)" if "r \<in> set rs" "isBeforeLatestBase (surveyed H names held) i (sr_seq r) (sr_ordinal r)" for r
        using reclaimed_iff(1)[OF rec held, of r i] that enough_subset[OF rs] DocFile by auto
      then show ?thesis unfolding k by (auto intro: enough_filter[OF rs])
    qed
  qed
  then show "enough H f kept" "set kept \<subseteq> set rs" by blast+
qed

lemma filter_history:
  assumes "sidecar_holds H f ls"
  shows "filter (in_history H) (map the ls) = takeWhile (in_history H) (map the ls)"
proof -
  let ?t = "takeWhile (in_history H) (map the ls)" and ?d = "dropWhile (in_history H) (map the ls)"
  have "filter (in_history H) ?d = []" using held_split(3)[OF assms] by (auto simp: list_ex_iff filter_empty_conv)
  moreover have "filter (in_history H) ?t = ?t" by (auto simp: filter_id_conv dest: set_takeWhileD)
  moreover have "filter (in_history H) (?t @ ?d) = filter (in_history H) ?t @ filter (in_history H) ?d"
    by (rule filter_append)
  ultimately show ?thesis by simp
qed

lemma mk_seq_marker [simp]: "mk_seq (marker_of c) = fst c"
  by (simp add: marker_of_def)

lemma increasing_history:
  assumes "sequenced H m"
  shows "increasing_markers (map marker_of H)"
proof -
  have "sorted_wrt (<) (0 # map fst H)" using assms by (auto simp: sequenced_def)
  then have "successively (<) (0 # map fst H)" by (rule successively_if_sorted_wrt)
  then show ?thesis by (simp add: increasing_markers_def comp_def)
qed

lemma list_all_map_filter:
  "(\<And>x y. x \<in> set xs \<Longrightarrow> F x = Some y \<Longrightarrow> P y) \<Longrightarrow> list_all P (List.map_filter F xs)"
  by (induction xs) (auto simp: map_filter_simps split: option.split)

lemma reclamations_enough:
  assumes rec: "recorded owned H m" and held: "holds H d"
  defines "files \<equiv> files_of (disk_names d) (held_by d)"
  shows "list_all (\<lambda>(f, rs). enough H f rs \<and> (\<forall>r \<in> set rs. parseSidecarRecord r) \<and> (rs = [] \<or> isSidecarFileName f))
    (List.map_filter (reclamation (surveyed H (disk_names d) (held_by d)) (found_in (by_key files) (concat (map recs_of H)))) files)"
proof -
  note ok = holds_held_ok[OF held]
  have "enough H g kept \<and> (\<forall>r \<in> set kept. parseSidecarRecord r) \<and> g = f"
    if "reclamation (surveyed H (disk_names d) (held_by d)) (found_in (by_key files) (concat (map recs_of H))) (f, held_by d f) = Some (g, kept)" for f g kept
  proof -
    have sh: "sidecar_holds H f (sidecar_lines d f)" using held by (simp add: holds_def)
    have "filter (is_confirmed (found_in (by_key files) (concat (map recs_of H))) f) (held_by d f) = filter (in_history H) (held_by d f)"
      by (rule filter_cong[OF refl]) (simp add: files_def confirmed_found[OF rec ok])
    also have "\<dots> = takeWhile (in_history H) (held_by d f)" using filter_history[OF sh] by (simp add: held_by_def)
    finally have ret: "retained (surveyed H (disk_names d) (held_by d)) f (takeWhile (in_history H) (held_by d f)) = Some kept" and g: "g = f"
      using that by (auto simp: reclamation_def Let_def split: option.splits if_splits)
    moreover have "enough H f (takeWhile (in_history H) (held_by d f))"
      using held_split(1)[OF sh] by (simp only: held_by_def)
    ultimately have "enough H g kept" "set kept \<subseteq> set (takeWhile (in_history H) (held_by d f))"
      using retained_enough[OF rec ok] by blast+
    moreover have "set (takeWhile (in_history H) (held_by d f)) \<subseteq> set (held_by d f)" by (auto dest: set_takeWhileD)
    ultimately show ?thesis using holds_lines[OF held, of f] g by blast
  qed
  then show ?thesis
    using held unfolding files_def files_of_def holds_def list_all_iff[of isSidecarFileName]
    by (intro list_all_map_filter) fastforce
qed

lemma cut_clean:
  assumes held: "holds H d" and "\<not> main_torn d" "\<And>f. \<not> sidecar_torn d f"
    and "holds H d'" "dk_main d' = dk_main d" "\<forall>g. g \<notin> set (disk_names d) \<longrightarrow> sidecar_lines d' g = sidecar_lines d g"
    and "\<forall>g. sidecar_torn d' g \<longrightarrow> sidecar_torn d g"
    and "\<forall>f \<in> set (disk_names d). sidecar_lines d' f = map Some (takeWhile (in_history H) (held_by d f))"
  shows "clean H d'"
proof -
  have "sidecar_clean H f (sidecar_lines d' f)" for f
  proof (cases "f \<in> set (disk_names d)")
    case True
    with assms(8) kept_clean[OF held, of f] show ?thesis by simp
  next
    case False
    then have "sidecar_lines d f = []" by (simp add: sidecar_lines_def disk_names_def map_of_eq_None_iff[symmetric])
    with assms(6) False kept_clean[OF held, of f] show ?thesis by (simp add: held_by_def)
  qed
  with assms show ?thesis by (auto simp: clean_def main_torn_def)
qed

text \<open>The rest of \<open>recover\<close> once the files are read.\<close>

definition recover_read :: "(nat \<Rightarrow> bool) \<Rightarrow> (fs_op \<Rightarrow> fs_outcome) \<Rightarrow> bool \<Rightarrow> main_marker list
    \<Rightarrow> (sidecar_name \<times> sidecar_record list) list \<Rightarrow> jsonl on_disk" where
  "recover_read owned fs fsync ms files =
     (let rv = survey ms files in
         disk_then (disk_value (corrupt (recover_markers owned rv ms {} new_store))) (\<lambda>(confirmed, m).
         disk_then (cut_tails fs confirmed files) (\<lambda>_ d'.
           (Inr \<lparr>js_memory = m, js_currentOnly = rv_current rv, js_live = Set.filter (\<lambda>i. rv_live rv i = Some True) (some_of live_marked (marked ms)),
                 js_closed = False, js_poisoned = False, js_fsync = fsync\<rparr>,
            reclaimSidecars fs fsync (List.map_filter (reclamation rv confirmed) files) d'))))"

lemma recover_split:
  "recover owned fs fsync = disk_then (read_main fs) (\<lambda>ms.
     if \<not> increasing_markers ms then disk_value (Inl (Corrupt SequenceOrder))
     else if \<not> fs_works fs ListDir then disk_value (Inl (FileFailed ListDir))
     else (\<lambda>d. disk_then (read_sidecars fs (filter isSidecarFileName (disk_names d))) (recover_read owned fs fsync ms) (remove_temps fs d)))"
  unfolding recover_def recover_read_def disk_names_def by (rule refl)

text \<open>An open storage that agrees with the history on the disk.\<close>

definition opened :: "history \<Rightarrow> store \<Rightarrow> disk \<Rightarrow> jsonl \<Rightarrow> bool" where
  "opened H m d s \<longleftrightarrow>
     clean H d \<and> alike m (js_memory s) \<and> store_ok (js_memory s) \<and> js_currentOnly s \<subseteq> {i. creates H i True}
     \<and> \<not> js_closed s \<and> \<not> js_poisoned s"

lemma recover_read_result:
  assumes rec: "recorded owned H m" and held: "holds H d" "\<not> main_torn d" "\<And>f. \<not> sidecar_torn d f"
    and run: "recover_read owned fs fsync (map marker_of H) (files_of (disk_names d) (held_by d)) d = (r, d')"
  shows "holds H d' \<and> outcome fs (opened H m d') r"
proof -
  let ?names = "disk_names d" and ?held = "held_by d"
  let ?files = "files_of ?names ?held"
  let ?rv = "surveyed H ?names ?held" and ?found = "found_in (by_key ?files) (concat (map recs_of H))"
  note ok = holds_held_ok[OF held(1)]
  from recover_all[OF rec ok] obtain m' where
    m': "recover_markers owned ?rv (map marker_of H) {} new_store = Inr (?found, m')" "alike m m'" "store_ok m'" by blast
  define s where "s = \<lparr>js_memory = m', js_currentOnly = {i. creates H i True},
    js_live = Set.filter (\<lambda>i. rv_live ?rv i = Some True) (some_of live_marked (marked (map marker_of H))),
    js_closed = False, js_poisoned = False, js_fsync = fsync\<rparr>"
  have conf: "\<forall>f \<in> set ?names. ?held f = held_by d f \<and> (\<forall>r \<in> set (held_by d f). is_confirmed ?found f r = in_history H r)"
    using confirmed_found[OF rec ok] by simp
  have dist: "distinct ?names" "list_all isSidecarFileName ?names" using held(1) by (simp_all add: holds_def)
  have "disk_then (cut_tails fs ?found ?files) (\<lambda>_ d'.
      (Inr s, reclaimSidecars fs fsync (List.map_filter (reclamation ?rv ?found) ?files) d')) d = (r, d')"
    using run m'(1) by (simp add: recover_read_def Let_def disk_then_def disk_value_def corrupt_def current_surveyed s_def)
  then show ?thesis
  proof (cases rule: disk_then_cases)
    case (fails e)
    from cut_tails_result[OF held(1) fails(1) dist conf] fails(2) show ?thesis by simp
  next
    case cut: (works u d1)
    note c = cut_tails_result[OF held(1) cut(1) dist conf, simplified]
    have clean1: "clean H d1" by (rule cut_clean[OF held]) (use c in simp_all)
    from cut(2) have r: "r = Inr s"
      and d': "d' = reclaimSidecars fs fsync (List.map_filter (reclamation ?rv ?found) ?files) d1" by simp_all
    have "clean H d'" unfolding d' by (rule reclaim_clean[OF clean1 reclamations_enough[OF rec held(1)]])
    moreover from this have "holds H d'" by (simp add: clean_def)
    ultimately show ?thesis using m'(2,3) unfolding r by (simp add: opened_def s_def)
  qed
qed

lemma recover_result:
  assumes rec: "recorded owned H m" and held: "holds H d" and run: "recover owned fs fsync d = (r, d')"
  shows "holds H d' \<and> outcome fs (opened H m d') r"
  using run[unfolded recover_split]
proof (cases rule: disk_then_cases)
  case (fails e)
  with read_main_result[OF held fails(1)] same_holds[of d d' H] held show ?thesis by simp
next
  case (works ms d1)
  note main = read_main_result[OF held works(1), simplified]
  have held1: "holds H d1" using same_holds[OF main(1)] held by simp
  note seqd = recorded_sequenced[OF rec] and inc = increasing_history[OF recorded_sequenced[OF rec]]
  let ?d2 = "remove_temps fs d1"
  have held2: "holds H ?d2" using held1 by simp
  show ?thesis
  proof (cases "fs_works fs ListDir")
    case False
    with works(2) main(2) inc held1 show ?thesis by (auto simp: disk_value_def)
  next
    case True
    have "filter isSidecarFileName (disk_names d1) = disk_names d1" using held1 by (simp add: holds_def list_all_iff filter_id_conv)
    with True works(2) main(2) inc have
      "disk_then (read_sidecars fs (disk_names d1)) (recover_read owned fs fsync (map marker_of H)) ?d2 = (r, d')" by simp
    then show ?thesis
    proof (cases rule: disk_then_cases)
      case (fails e)
      from read_sidecars_result[OF held2 seqd fails(1)] same_holds[of ?d2 d' H] held2 fails(2) show ?thesis by simp
    next
      case read: (works files d3)
      have r3: "same_content ?d2 d3" "dk_main d3 = dk_main ?d2" "files = files_of (disk_names d1) (held_by ?d2)"
        "\<forall>f. sidecar_torn d3 f = (sidecar_torn ?d2 f \<and> f \<notin> set (disk_names d1))"
        using read_sidecars_result[OF held2 seqd read(1)] by auto
      have files: "files = files_of (disk_names d3) (held_by d3)"
        using r3(1,3) same_held[OF r3(1)] by (simp add: same_content_def)
      have torn: "\<not> sidecar_torn d3 f" for f
      proof (cases "f \<in> set (disk_names d1)")
        case False
        then have "map_of (dk_sidecars d1) f = None" by (simp add: disk_names_def map_of_eq_None_iff)
        then have "\<not> sidecar_torn d1 f" by (simp add: sidecar_torn_def)
        with r3(4) show ?thesis by simp
      qed (use r3(4) in simp)
      show ?thesis
      proof (rule recover_read_result[OF rec _ _ torn])
        show "holds H d3" using same_holds[OF r3(1)] held2 by simp
        show "\<not> main_torn d3" using r3(2) main(2) by (simp add: main_torn_def remove_temps_def)
      qed (use read(2) files in simp)
    qed
  qed
qed

end
