(* ===== verification/Jsonl_Commit.thy ===== *)
theory Jsonl_Commit
  imports Jsonl_Crash
begin

text \<open>
  Publishing a commit: whatever operations fail, the disk holds the history before the commit or the
  one after it, and an acknowledged commit is on the disk.
\<close>

subsection \<open>Valid commits\<close>

text \<open>What the lines of the format can say; the storage trusts its caller with it.\<close>

fun valid_write :: "storage_write \<Rightarrow> bool" where
  "valid_write (WConversation c) = safe_id (cv_id c)"
| "valid_write (WEntry e) = safe_id (en_id e)"
| "valid_write (WSubmission s) = safe_id (sb_id s)"
| "valid_write (WTask t) = (safe_id (tk_id t) \<and> 0 \<le> tk_id t)"
| "valid_write (WRetire i) = safe_id i"
| "valid_write (WCreate r v x) = (safe_id (dc_id r) \<and> 0 \<le> dc_id r \<and> validateDocumentContent (Base v x))"
| "valid_write (WChange i c) = (safe_id i \<and> 0 \<le> i \<and> validateDocumentContent c)"
| "valid_write (WCopy _ _ _) = True"

text \<open>A commit the session may make: what it would write is valid, and no terminal task is revived.\<close>

definition proper_commit :: "(nat \<Rightarrow> bool) \<Rightarrow> jsonl \<Rightarrow> storage_write list \<Rightarrow> bool" where
  "proper_commit owned s ws \<longleftrightarrow>
     (case prepareCommit owned (js_memory s) ws None of
        Inl _ \<Rightarrow> True
      | Inr p \<Rightarrow> list_all valid_write (pc_writes p) \<and> int (length (pc_writes p)) \<le> max_safe
          \<and> lasting (ms_tasks (js_memory s)) (pc_writes p))"

lemma valid_main:
  "list_all valid_write ws \<Longrightarrow> int (n + length ws) \<le> max_safe \<Longrightarrow>
     list_all validateMainOperation (fst (encode_writes s n ws))"
proof (induction ws arbitrary: n)
  case (Cons w ws)
  have "list_all validateMainOperation (main_of n w)"
    using Cons.prems by (cases w) (auto simp: safe_id_def)
  moreover have "list_all validateMainOperation (fst (encode_writes s (case sidecar_of w of None \<Rightarrow> n | Some _ \<Rightarrow> n + 1) ws))"
    using Cons by (auto split: option.split)
  ultimately show ?case unfolding encode_main by simp
qed simp

lemma valid_payload:
  "sidecar_of w = Some (f, p) \<Longrightarrow> valid_write w \<Longrightarrow>
     (case p of PTask t \<Rightarrow> safe_id (tk_id t) \<and> \<not> is_terminal t
      | PDocument i c \<Rightarrow> safe_id i \<and> validateDocumentContent c) \<and> isSidecarFileName f"
  by (cases w) (auto simp: isSidecarFileName_def split: if_splits)

lemma valid_commit:
  assumes "list_all valid_write ws" "int (length ws) \<le> max_safe" "1 \<le> s" "\<bar>s\<bar> \<le> max_safe"
  shows "parseMainMarker (marker_of (s, ws))" "(f, r) \<in> set (recs_of (s, ws)) \<Longrightarrow> parseSidecarRecord r \<and> isSidecarFileName f"
proof -
  show "parseMainMarker (marker_of (s, ws))"
    using valid_main[of ws 0 s] assms by (simp add: parseMainMarker_def marker_of_def safe_id_def)
  assume "(f, r) \<in> set (recs_of (s, ws))"
  then have r: "sr_seq r = s" "int (sr_ordinal r) < int (length ws)" "\<exists>w \<in> set ws. sidecar_of w = Some (f, sr_payload r)"
    using encoded_from[of f r s 0 ws] by (auto simp: recs_of_def)
  then obtain w where w: "w \<in> set ws" "sidecar_of w = Some (f, sr_payload r)" by blast
  have "valid_write w" using w(1) assms(1) by (simp add: list_all_iff)
  from valid_payload[OF w(2) this] r(1,2) assms show "parseSidecarRecord r \<and> isSidecarFileName f"
    by (simp add: parseSidecarRecord_def safe_id_def)
qed

subsection \<open>The memory of an open storage\<close>

lemma thin_nothing: "thin {} (\<lambda>_ _. False) s ws = ws"
proof (induction ws)
  case (Cons w ws)
  then show ?case by (cases w) auto
qed simp

lemma alike_sym: "alike m m' \<Longrightarrow> alike m' m"
  by (simp add: alike_iff)

lemma alike_commit:
  assumes "store_ok m" "store_ok m'" "alike m m'" "replay_commit owned s ws m = Inr m1" "\<not> list_ex is_copy ws"
    and "lasting (ms_tasks m) ws"
  shows "\<exists>m1'. replay_commit owned s ws m' = Inr m1' \<and> alike m1 m1' \<and> store_ok m1'"
  using thin_commit[OF assms(1,2) assms(3)[unfolded alike_def] assms(4,5,6)]
  by (simp add: thin_nothing alike_def may_thin_def)

lemma prepared_replays:
  assumes "prepareCommit owned m ws None = Inr p"
  shows "\<exists>m1. apply_prepared p m = Inr (p\<lparr>pc_applied := True\<rparr>, m1) \<and> replay_commit owned (pc_seq p) (pc_writes p) m = Inr m1"
    "\<not> list_ex is_copy (pc_writes p)"
proof -
  note pd = prepareD[OF assms]
  show nc: "\<not> list_ex is_copy (pc_writes p)" using resolved_no_copy[OF pd(4)] .
  have "prepareCommit owned m (pc_writes p) (Some (pc_seq p)) = Inr p"
    using pd resolve_none[OF nc, of owned m] by (cases p) (simp add: prepareCommit_def assertOpen_def fails_if_def)
  then show "\<exists>m1. apply_prepared p m = Inr (p\<lparr>pc_applied := True\<rparr>, m1) \<and> replay_commit owned (pc_seq p) (pc_writes p) m = Inr m1"
    using applyD[OF assms] by (simp add: replay_commit_def)
qed

subsection \<open>Appending\<close>

definition lines_for :: "(sidecar_name \<times> sidecar_record list) list \<Rightarrow> sidecar_name \<Rightarrow> sidecar_record list" where
  "lines_for files f = (case map_of files f of None \<Rightarrow> [] | Some rs \<Rightarrow> rs)"

lemma append_sidecar_effect:
  assumes "\<not> sidecar_torn d f"
  shows "\<exists>k. sidecar_lines (append_sidecar fs f rs d) f = sidecar_lines d f @ map Some (take k rs)"
    "fs_works fs (AppendSidecar f) \<Longrightarrow>
       sidecar_lines (append_sidecar fs f rs d) = (sidecar_lines d)(f := sidecar_lines d f @ map Some rs)
       \<and> sidecar_torn (append_sidecar fs f rs d) = (sidecar_torn d)(f := False)"
    "g \<noteq> f \<Longrightarrow> sidecar_lines (append_sidecar fs f rs d) g = sidecar_lines d g"
    "dk_main (append_sidecar fs f rs d) = dk_main d"
    "distinct (disk_names d) \<Longrightarrow> distinct (disk_names (append_sidecar fs f rs d))"
    "list_all isSidecarFileName (disk_names d) \<Longrightarrow> isSidecarFileName f \<Longrightarrow> list_all isSidecarFileName (disk_names (append_sidecar fs f rs d))"
proof -
  have now: "sidecar_lines d f = jf_lines (file_or_empty (map_of (dk_sidecars d) f))"
    "\<not> jf_torn (file_or_empty (map_of (dk_sidecars d) f))"
    using assms by (auto simp: sidecar_lines_def sidecar_torn_def file_or_empty_def no_lines_def split: option.splits)
  show "\<exists>k. sidecar_lines (append_sidecar fs f rs d) f = sidecar_lines d f @ map Some (take k rs)"
  proof (cases "fs (AppendSidecar f)")
    case Works
    with now show ?thesis by (intro exI[of _ "length rs"]) (simp add: append_sidecar_def append_lines_def put_lines_def add_lines_def)
  next
    case (Fails k torn)
    with now show ?thesis
      by (intro exI[of _ k]) (simp add: append_sidecar_def append_lines_def put_lines_def add_lines_def sidecar_lines_def)
  qed
  show "sidecar_lines (append_sidecar fs f rs d) = (sidecar_lines d)(f := sidecar_lines d f @ map Some rs)
       \<and> sidecar_torn (append_sidecar fs f rs d) = (sidecar_torn d)(f := False)" if "fs_works fs (AppendSidecar f)"
    using that now by (simp add: append_sidecar_def append_lines_def put_lines_def put_torn_def add_lines_def fs_works_def)
qed (simp_all add: append_sidecar_def put_names put_named)

lemma append_sidecars_result:
  assumes "append_sidecars fs files d = (d', failed)" "distinct (map fst files)" "\<And>f. \<not> sidecar_torn d f"
    "distinct (disk_names d)" "list_all isSidecarFileName (disk_names d)" "list_all isSidecarFileName (map fst files)"
  shows "dk_main d' = dk_main d \<and> distinct (disk_names d') \<and> list_all isSidecarFileName (disk_names d')
    \<and> (\<forall>f. \<exists>k. sidecar_lines d' f = sidecar_lines d f @ map Some (take k (lines_for files f)))
    \<and> (case failed of
         Some oper \<Rightarrow> \<not> fs_works fs oper
       | None \<Rightarrow> \<forall>f. \<not> sidecar_torn d' f \<and> sidecar_lines d' f = sidecar_lines d f @ map Some (lines_for files f))"
  using assms
proof (induction files arbitrary: d)
  case Nil
  then show ?case by (auto simp: lines_for_def)
next
  case (Cons fr files)
  obtain f rs where fr: "fr = (f, rs)" by (cases fr)
  note eff = append_sidecar_effect[where fs = fs and rs = rs, OF Cons.prems(3)[of f]]
  have new: "f \<notin> fst ` set files" using Cons.prems(2) fr by simp
  then have none: "lines_for files f = []" by (simp add: lines_for_def map_of_eq_None_iff[symmetric])
  have here: "lines_for (fr # files) g = (if g = f then rs else lines_for files g)" for g by (simp add: lines_for_def fr)
  show ?case
  proof (cases "fs_works fs (AppendSidecar f)")
    case False
    have "\<exists>k. sidecar_lines (append_sidecar fs f rs d) g = sidecar_lines d g @ map Some (take k (lines_for (fr # files) g))" for g
      using eff(1) eff(3)[of g] by (cases "g = f") (auto simp: here intro: exI[of _ 0])
    with False Cons.prems eff(4-6) fr show ?thesis by auto
  next
    case True
    note e = eff(2)[OF True]
    let ?d1 = "append_sidecar fs f rs d"
    have run: "append_sidecars fs files ?d1 = (d', failed)" using Cons.prems(1) True fr by simp
    have "distinct (map fst files)" "list_all isSidecarFileName (map fst files)" "isSidecarFileName f"
      using Cons.prems(2,6) fr by simp_all
    moreover have "\<not> sidecar_torn ?d1 g" for g using e Cons.prems(3) by simp
    ultimately have IH: "dk_main d' = dk_main d" "distinct (disk_names d')" "list_all isSidecarFileName (disk_names d')"
      "\<And>g. \<exists>k. sidecar_lines d' g = sidecar_lines ?d1 g @ map Some (take k (lines_for files g))"
      "case failed of Some oper \<Rightarrow> \<not> fs_works fs oper
       | None \<Rightarrow> \<forall>g. \<not> sidecar_torn d' g \<and> sidecar_lines d' g = sidecar_lines ?d1 g @ map Some (lines_for files g)"
      using Cons.IH[OF run] eff(4) eff(5)[OF Cons.prems(4)] eff(6)[OF Cons.prems(5)] by auto
    have lines: "sidecar_lines ?d1 g @ map Some (take k (lines_for files g))
        = sidecar_lines d g @ map Some (take (if g = f then length rs else k) (lines_for (fr # files) g))" for g k
      using e none by (simp add: here)
    have "\<exists>k. sidecar_lines d' g = sidecar_lines d g @ map Some (take k (lines_for (fr # files) g))" for g
      using IH(4)[of g] unfolding lines by blast
    moreover have "sidecar_lines ?d1 g @ map Some (lines_for files g) = sidecar_lines d g @ map Some (lines_for (fr # files) g)" for g
      using e none by (simp add: here)
    ultimately show ?thesis using IH(1-3,5) by (simp cong: option.case_cong)
  qed
qed

subsection \<open>A commit\<close>

lemma sidecar_map:
  "lines_for (ec_sidecars (encodeCommit s ws)) f = records_of f (recs_of (s, ws))"
  "distinct (map fst (ec_sidecars (encodeCommit s ws)))"
proof -
  let ?recs = "recs_of (s, ws)"
  have e: "ec_sidecars (encodeCommit s ws) = map (\<lambda>f. (f, records_of f ?recs)) (List.rev (remdups (List.rev (map fst ?recs))))"
    by (simp add: encodeCommit_def recs_of_def split: prod.split)
  show "distinct (map fst (ec_sidecars (encodeCommit s ws)))" unfolding e by (simp add: comp_def)
  have "map_of (map (\<lambda>f. (f, records_of f ?recs)) xs) f = (if f \<in> set xs then Some (records_of f ?recs) else None)" for xs
    by (induction xs) auto
  moreover have "f \<notin> fst ` set ?recs \<Longrightarrow> records_of f ?recs = []"
    by (force simp: records_of_def filter_empty_conv)
  ultimately show "lines_for (ec_sidecars (encodeCommit s ws)) f = records_of f ?recs"
    unfolding e by (simp add: lines_for_def)
qed

text \<open>The next commit of a recorded history.\<close>

definition next_commit :: "(nat \<Rightarrow> bool) \<Rightarrow> history \<Rightarrow> store \<Rightarrow> int \<times> storage_write list \<Rightarrow> store \<Rightarrow> bool" where
  "next_commit owned H m c m1 \<longleftrightarrow>
     recorded owned H m \<and> recorded owned (H @ [c]) m1
     \<and> parseMainMarker (marker_of c) \<and> (\<forall>f r. (f, r) \<in> set (recs_of c) \<longrightarrow> parseSidecarRecord r \<and> isSidecarFileName f)"

lemma sidecar_named:
  assumes "next_commit owned H m (q, ws) m1"
  shows "list_all isSidecarFileName (map fst (ec_sidecars (encodeCommit q ws)))"
proof -
  have "set (map fst (ec_sidecars (encodeCommit q ws))) = fst ` set (recs_of (q, ws))"
    by (force simp: encodeCommit_def recs_of_def split: prod.split)
  with assms show ?thesis by (fastforce simp: list_all_iff next_commit_def)
qed

lemma next_seq: "next_commit owned H m c m1 \<Longrightarrow> t \<in> fst ` set H \<Longrightarrow> t < fst c"
  using sequenced_split(1)[of H "fst c" "snd c" "[]" m1 t] recorded_sequenced[of owned "H @ [c]" m1]
  by (simp add: next_commit_def)

lemma tail_holds:
  assumes "next_commit owned H m c m1" "sidecar_clean H f ls"
  shows "sidecar_holds H f (ls @ map Some (take k (records_of f (recs_of c))))"
    "sidecar_clean (H @ [c]) f (ls @ map Some (records_of f (recs_of c)))"
proof -
  let ?rs = "records_of f (recs_of c)"
  from assms(2) obtain kept where k: "ls = map Some kept" "enough H f kept" "\<forall>r \<in> set kept. parseSidecarRecord r"
    unfolding sidecar_clean_def by blast
  have valid: "\<forall>r \<in> set ?rs. parseSidecarRecord r" using assms(1) by (simp add: next_commit_def)
  have sub: "set (take k ?rs) \<subseteq> set ?rs" by (rule set_take_subset)
  have "unconfirmed H (take k ?rs)"
    unfolding unconfirmed_def
  proof (intro conjI ballI)
    show "sorted_wrt record_before (take k ?rs)" using records_of_ordered sorted_wrt_take by blast
    fix r t
    assume "r \<in> set (take k ?rs)" "t \<in> fst ` set H"
    then have "sr_seq r = fst c" "t < fst c"
      using sub recs_of_from[of f r c] next_seq[OF assms(1)] by auto
    then show "t < sr_seq r" by simp
  qed
  moreover have "ls @ map Some (take k ?rs) = map Some (kept @ take k ?rs)" using k(1) by simp
  moreover have "\<forall>r \<in> set (kept @ take k ?rs). parseSidecarRecord r" using k(3) valid sub by auto
  ultimately show "sidecar_holds H f (ls @ map Some (take k ?rs))" using k(2) unfolding sidecar_holds_def by blast
  have "enough (H @ [c]) f (kept @ ?rs)" using next_seq[OF assms(1)] by (intro enough_append[OF k(2)]) blast
  moreover have "ls @ map Some ?rs = map Some (kept @ ?rs)" using k(1) by simp
  moreover have "\<forall>r \<in> set (kept @ ?rs). parseSidecarRecord r" using k(3) valid by auto
  ultimately show "sidecar_clean (H @ [c]) f (ls @ map Some ?rs)" unfolding sidecar_clean_def by blast
qed

lemma main_appended:
  assumes "\<not> main_torn d"
  shows "fs_works fs AppendMain \<Longrightarrow>
      main_lines (append_main fs mk d) = main_lines d @ [Some mk] \<and> \<not> main_torn (append_main fs mk d)"
    "main_lines (append_main fs mk d) \<in> {main_lines d, main_lines d @ [Some mk]}"
    "dk_sidecars (append_main fs mk d) = dk_sidecars d"
proof -
  have now: "main_lines d = jf_lines (file_or_empty (dk_main d))" "\<not> jf_torn (file_or_empty (dk_main d))"
    using assms by (auto simp: main_lines_def main_torn_def file_or_empty_def no_lines_def split: option.splits)
  show "main_lines (append_main fs mk d) = main_lines d @ [Some mk] \<and> \<not> main_torn (append_main fs mk d)" if "fs_works fs AppendMain"
    using that now by (simp add: append_main_def append_lines_def add_lines_def fs_works_def main_lines_def main_torn_def)
  show "main_lines (append_main fs mk d) \<in> {main_lines d, main_lines d @ [Some mk]}"
  proof (cases "fs AppendMain")
    case Works
    with now show ?thesis by (simp add: append_main_def append_lines_def add_lines_def main_lines_def)
  next
    case (Fails k torn)
    with now show ?thesis
      by (cases k) (auto simp: append_main_def append_lines_def add_lines_def main_lines_def)
  qed
qed (simp add: append_main_def)

subsection \<open>The reclamations of a commit\<close>

lemma enough_nothing: "(\<And>t. droppable H f t) \<Longrightarrow> enough H f []"
  unfolding enough_def by (intro exI[of _ "\<lambda>_. False"]) simp

lemma enough_last:
  assumes "\<And>t. t \<in> fst ` set H \<Longrightarrow> droppable (H @ [c]) f t" "fst c \<notin> fst ` set H"
  shows "enough (H @ [c]) f (records_of f (recs_of c))"
proof -
  let ?K = "\<lambda>r. sr_seq r = fst c"
  have "filter ?K (records_in H f) = []"
  proof -
    have "sr_seq r \<noteq> fst c" if "r \<in> set (records_in H f)" for r using records_seq[OF that] assms(2) by metis
    then show ?thesis by (auto simp: filter_empty_conv)
  qed
  moreover have "filter ?K (records_of f (recs_of c)) = records_of f (recs_of c)"
    by (auto simp: filter_id_conv dest: recs_of_from)
  ultimately have "records_of f (recs_of c) = filter ?K (records_in (H @ [c]) f)" by simp
  moreover have "droppable (H @ [c]) f (sr_seq r)" if "r \<in> set (records_in (H @ [c]) f)" "\<not> ?K r" for r
  proof -
    have "r \<in> set (records_in H f)" using that recs_of_from[of f r c] by auto
    from assms(1)[OF records_seq[OF this]] show ?thesis .
  qed
  ultimately show ?thesis unfolding enough_def by blast
qed

lemma in_ids_by: "i \<in> set (ids_by f ws) \<longleftrightarrow> (\<exists>w \<in> set ws. f w = Some i)"
  by (force simp: ids_by_def List.map_filter_def)

lemma created_currentD: "created_current w = Some i \<Longrightarrow> \<exists>r v x. w = WCreate r v x \<and> dc_id r = i \<and> isCurrentOnly r"
  by (cases w) (auto split: if_splits)

lemma basedD: "based w = Some i \<Longrightarrow> \<exists>v x. content_write w = Some (i, Base v x)"
  by (cases w) (auto split: if_splits elim: is_base.elims)

lemma retired_byD: "retired_by w = Some i \<Longrightarrow> w = WRetire i"
  by (cases w) auto

lemma final_taskD: "final_tasks ws i = Some t \<Longrightarrow> WTask t \<in> set ws \<and> tk_id t = i"
proof -
  assume "final_tasks ws i = Some t"
  then have "(i, t) \<in> set (map (\<lambda>t. (tk_id t, t)) (List.map_filter task_written ws))"
    by (auto simp: final_tasks_def dest!: map_of_SomeD)
  moreover have "task_written w = Some t \<Longrightarrow> w = WTask t" for w by (cases w) auto
  ultimately show ?thesis by (auto simp: List.map_filter_def)
qed

lemma plan_enough:
  assumes nxt: "next_commit owned H m (q, ws) m1" and cur: "js_currentOnly s \<subseteq> {i. creates H i True}"
  shows "list_all (\<lambda>(f, rs). enough (H @ [(q, ws)]) f rs \<and> (\<forall>r \<in> set rs. parseSidecarRecord r)
      \<and> (rs = [] \<or> isSidecarFileName f))
    (planReclamations s ws (encodeCommit q ws))"
proof -
  let ?H = "H @ [(q, ws)]" and ?side = "ec_sidecars (encodeCommit q ws)"
  let ?current = "js_currentOnly s \<union> set (ids_by created_current ws)"
  have created: "creates ?H i True" if "i \<in> ?current" for i
    using that cur by (auto simp: in_ids_by dest!: created_currentD)
  have retired: "enough ?H (DocFile i) []" if "i \<in> ?current" "i \<in> set (ids_by retired_by ws)" for i
  proof (rule enough_nothing)
    have "retired_at ?H i" using that(2) by (auto simp: in_ids_by dest!: retired_byD)
    with created[OF that(1)] show "droppable ?H (DocFile i) t" for t by (simp add: left_out_def)
  qed
  have valid: "parseSidecarRecord r \<and> isSidecarFileName f" if "map_of ?side f = Some rs" "r \<in> set rs" for f rs r
    using sidecar_map(1)[of q ws f] that nxt by (auto simp: lines_for_def next_commit_def)
  have named: "rs = []" if "map_of ?side f = Some rs" "\<not> isSidecarFileName f" for f rs
    using valid[OF that(1), of "hd rs"] that(2) by (cases rs) auto
  have base: "enough ?H (DocFile i) rs"
    if "i \<in> ?current" "i \<in> set (ids_by based ws)" "map_of ?side (DocFile i) = Some rs" for i rs
  proof -
    have rs: "rs = records_of (DocFile i) (recs_of (q, ws))"
      using sidecar_map(1)[of q ws "DocFile i"] that(3) by (simp add: lines_for_def)
    have "based_at ?H i q" using that(2) by (auto simp: in_ids_by dest!: basedD)
    with created[OF that(1)] have "droppable ?H (DocFile i) t" if "t \<in> fst ` set H" for t
      using next_seq[OF nxt that] unfolding droppable.simps left_out_def fst_conv by blast
    moreover have "fst (q, ws) \<notin> fst ` set H" using next_seq[OF nxt] by blast
    ultimately show ?thesis unfolding rs by (rule enough_last)
  qed
  have ended: "enough ?H (TaskFile i) []" if "final_tasks ws i = Some t" "is_terminal t" for i t
  proof (rule enough_nothing)
    show "droppable ?H (TaskFile i) u" for u using final_taskD[OF that(1)] that(2) by auto
  qed
  show ?thesis
    unfolding planReclamations_def Let_def list_all_append
    using retired base ended valid named
    by (auto simp: list_all_iff List.map_filter_def split: option.splits)
qed

subsection \<open>What a commit does\<close>

lemma commit_next:
  assumes rec: "recorded owned H m" and op: "opened H m d s" and proper: "proper_commit owned s ws"
    and p: "prepareCommit owned (js_memory s) ws None = Inr p"
  shows "\<exists>m1 M1. next_commit owned H m (pc_seq p, pc_writes p) m1
    \<and> apply_prepared p (js_memory s) = Inr (p\<lparr>pc_applied := True\<rparr>, M1) \<and> alike m1 M1 \<and> store_ok M1"
proof -
  let ?q = "pc_seq p" and ?ws = "pc_writes p"
  from op have mem: "alike m (js_memory s)" "store_ok (js_memory s)" by (simp_all add: opened_def)
  from proper p have w: "list_all valid_write ?ws" "int (length ?ws) \<le> max_safe" "lasting (ms_tasks (js_memory s)) ?ws"
    by (simp_all add: proper_commit_def)
  note pd = prepareD[OF p] and nc = prepared_replays(2)[OF p]
  from prepared_replays(1)[OF p] obtain M1 where
    M1: "apply_prepared p (js_memory s) = Inr (p\<lparr>pc_applied := True\<rparr>, M1)" "replay_commit owned ?q ?ws (js_memory s) = Inr M1"
    by blast
  from alike_commit[OF mem(2) recorded_ok[OF rec] alike_sym[OF mem(1)] M1(2) nc w(3)] obtain m1 where
    m1: "replay_commit owned ?q ?ws m = Inr m1" "alike M1 m1" by blast
  have "lasting (ms_tasks m) ?ws" using w(3) mem(1) by (simp add: alike_iff)
  from recorded.Commit[OF rec nc this m1(1)] have "recorded owned (H @ [(?q, ?ws)]) m1" .
  moreover have "1 \<le> ?q" using pd(2) mem(2) by (simp add: store_ok_def)
  note valid_commit[OF w(1,2) this pd(3)]
  ultimately have "next_commit owned H m (?q, ?ws) m1" using rec unfolding next_commit_def by blast
  with M1(1) alike_sym[OF m1(2)] commit_store_ok[OF mem(2) p M1(1)] show ?thesis by blast
qed

lemma appended_holds:
  assumes nxt: "next_commit owned H m c m1" and d: "clean H d"
    and d1: "dk_main d1 = dk_main d" "distinct (disk_names d1)" "list_all isSidecarFileName (disk_names d1)"
      "\<And>f. \<exists>k. sidecar_lines d1 f = sidecar_lines d f @ map Some (take k (records_of f (recs_of c)))"
  shows "holds H d1"
proof -
  have "sidecar_holds H f (sidecar_lines d1 f)" for f
  proof -
    have "sidecar_clean H f (sidecar_lines d f)" using d by (simp add: clean_def)
    with d1(4)[of f] tail_holds(1)[OF nxt] show ?thesis by auto
  qed
  with d d1(1-3) show ?thesis by (simp add: clean_def holds_def main_lines_def)
qed

lemma published_holds:
  assumes nxt: "next_commit owned H m c m1" and d: "clean H d"
    and d2: "main_lines d2 = main_lines d @ [Some (marker_of c)]" "distinct (disk_names d2)"
      "list_all isSidecarFileName (disk_names d2)"
      "\<And>f. sidecar_lines d2 f = sidecar_lines d f @ map Some (records_of f (recs_of c))"
  shows "holds (H @ [c]) d2" "\<not> main_torn d2 \<Longrightarrow> (\<And>f. \<not> sidecar_torn d2 f) \<Longrightarrow> clean (H @ [c]) d2"
proof -
  have lines: "sidecar_clean (H @ [c]) f (sidecar_lines d2 f)" for f
    using tail_holds(2)[OF nxt, of f] d unfolding d2(4) by (simp add: clean_def)
  then show "holds (H @ [c]) d2"
    using d d2(1-3) nxt by (simp add: holds_def clean_def next_commit_def sidecar_clean_holds)
  with lines show "\<not> main_torn d2 \<Longrightarrow> (\<And>f. \<not> sidecar_torn d2 f) \<Longrightarrow> clean (H @ [c]) d2" by (simp add: clean_def)
qed

lemma first_failure_fails: "first_failure fs ops = Some oper \<Longrightarrow> \<not> fs_works fs oper"
  by (simp add: first_failure_def find_Some_iff) blast

lemma adopt_keeps [simp]:
  "js_memory (adoptSidecarState ws s) = js_memory s" "js_closed (adoptSidecarState ws s) = js_closed s"
  "js_poisoned (adoptSidecarState ws s) = js_poisoned s"
  "js_currentOnly (adoptSidecarState ws s) = js_currentOnly s \<union> {i. \<exists>r v x. WCreate r v x \<in> set ws \<and> dc_id r = i \<and> isCurrentOnly r}"
proof -
  have "js_memory (fold adopt_write ws s) = js_memory s \<and> js_closed (fold adopt_write ws s) = js_closed s
    \<and> js_poisoned (fold adopt_write ws s) = js_poisoned s
    \<and> js_currentOnly (fold adopt_write ws s) = js_currentOnly s \<union> {i. \<exists>r v x. WCreate r v x \<in> set ws \<and> dc_id r = i \<and> isCurrentOnly r}"
  proof (induction ws arbitrary: s)
    case (Cons w ws)
    show ?case using Cons[of "adopt_write w s"] by (cases w) (auto simp: adopt_write_def)
  qed simp
  then show "js_memory (adoptSidecarState ws s) = js_memory s" "js_closed (adoptSidecarState ws s) = js_closed s"
    "js_poisoned (adoptSidecarState ws s) = js_poisoned s"
    "js_currentOnly (adoptSidecarState ws s) = js_currentOnly s \<union> {i. \<exists>r v x. WCreate r v x \<in> set ws \<and> dc_id r = i \<and> isCurrentOnly r}"
    by (simp_all add: adoptSidecarState_def)
qed

lemma commit_cases [consumes 4, case_names refused acknowledged failed]:
  assumes rec: "recorded owned H m" and op: "opened H m d s" and proper: "proper_commit owned s ws"
    and run: "jsonl_commit owned fs ws s d = (r, s', d')"
  obtains (refused) e where "r = Inl (Rejected e)" "s' = s" "d' = d" "prepareCommit owned (js_memory s) ws None = Inl e"
  | (acknowledged) p m1 where "prepareCommit owned (js_memory s) ws None = Inr p"
      "next_commit owned H m (pc_seq p, pc_writes p) m1" "r = Inr (pc_seq p)"
      "opened (H @ [(pc_seq p, pc_writes p)]) m1 d' s'"
  | (failed) p m1 oper where "prepareCommit owned (js_memory s) ws None = Inr p"
      "next_commit owned H m (pc_seq p, pc_writes p) m1" "r = Inl (FileFailed oper)" "\<not> fs_works fs oper"
      "s' = s\<lparr>js_poisoned := True\<rparr>" "holds H d' \<or> holds (H @ [(pc_seq p, pc_writes p)]) d'"
proof -
  have usable: "assertUsable s (Inr ()) = Inr ()" using op by (simp add: assertUsable_def opened_def)
  have d: "clean H d" and dist: "distinct (disk_names d)" "list_all isSidecarFileName (disk_names d)" and mt: "\<not> main_torn d" and st: "\<And>f. \<not> sidecar_torn d f"
    using op by (simp_all add: opened_def clean_def holds_def)
  show thesis
  proof (cases "prepareCommit owned (js_memory s) ws None")
    case (Inl e)
    with run usable have "r = Inl (Rejected e)" "s' = s" "d' = d" by (simp_all add: jsonl_commit_def)
    from this Inl show thesis by (rule refused)
  next
    case (Inr p)
    let ?c = "(pc_seq p, pc_writes p)" and ?e = "encodeCommit (pc_seq p) (pc_writes p)"
    from commit_next[OF rec op proper Inr] obtain m1 M1 where nxt: "next_commit owned H m ?c m1"
      and M1: "apply_prepared p (js_memory s) = Inr (p\<lparr>pc_applied := True\<rparr>, M1)" "alike m1 M1" "store_ok M1" by blast
    obtain d1 bad where side: "append_sidecars fs (ec_sidecars ?e) d = (d1, bad)" by fastforce
    have named: "list_all isSidecarFileName (map fst (ec_sidecars ?e))" using nxt by (rule sidecar_named)
    note app = append_sidecars_result[OF side sidecar_map(2) st dist named, unfolded sidecar_map(1)]
    have held1: "holds H d1" by (rule appended_holds[OF nxt d]) (use app in auto)
    note run' = run[unfolded jsonl_commit_def usable Inr sum.case Let_def side prod.case]
    show thesis
    proof (cases bad)
      case (Some oper)
      with run' have "r = Inl (FileFailed oper)" "s' = s\<lparr>js_poisoned := True\<rparr>" "d' = d1" by (simp_all add: poisoned_by_def)
      with app Some held1 show thesis by (intro failed[OF Inr nxt, of oper]) auto
    next
      case None
      with app have lines: "\<And>f. \<not> sidecar_torn d1 f \<and> sidecar_lines d1 f = sidecar_lines d f @ map Some (records_of f (recs_of ?c))"
        and main1: "dk_main d1 = dk_main d" "distinct (disk_names d1)" "list_all isSidecarFileName (disk_names d1)" by auto
      let ?flush = "if js_fsync s then first_failure fs (map (\<lambda>(f, _). FlushSidecar f) (ec_sidecars ?e)) else None"
      show thesis
      proof (cases ?flush)
        case (Some oper)
        with run' None have "r = Inl (FileFailed oper)" "s' = s\<lparr>js_poisoned := True\<rparr>" "d' = d1" by (simp_all add: poisoned_by_def)
        moreover have "\<not> fs_works fs oper" using Some first_failure_fails by (auto split: if_splits)
        ultimately show thesis using held1 by (intro failed[OF Inr nxt, of oper]) auto
      next
        case noflush: None
        let ?d2 = "append_main fs (marker_of ?c) d1"
        have "\<not> main_torn d1" using mt main1 by (simp add: main_torn_def)
        note main = main_appended[OF this, of fs "marker_of ?c"]
        have ml: "main_lines d1 = main_lines d" using main1 by (simp add: main_lines_def)
        have side2: "sidecar_lines ?d2 = sidecar_lines d1" "sidecar_torn ?d2 = sidecar_torn d1" "disk_names ?d2 = disk_names d1"
          by (simp_all add: append_main_def)
        have pub: "holds (H @ [?c]) ?d2" "\<not> main_torn ?d2 \<Longrightarrow> clean (H @ [?c]) ?d2"
          if "main_lines ?d2 = main_lines d1 @ [Some (marker_of ?c)]"
          using published_holds[OF nxt d, of ?d2] that lines main1(2,3) by (simp_all add: side2 ml)
        note run2 = run'[unfolded None noflush option.case encode_marker]
        show thesis
        proof (cases "fs_works fs AppendMain")
          case False
          with run2 have r: "r = Inl (FileFailed AppendMain)" "s' = s\<lparr>js_poisoned := True\<rparr>" "d' = ?d2" by (simp_all add: poisoned_by_def)
          have "holds H ?d2" if "main_lines ?d2 = main_lines d1" using held1 that by (simp add: holds_def side2)
          with main(2) pub(1) have "holds H ?d2 \<or> holds (H @ [?c]) ?d2" by blast
          with r False show thesis by (intro failed[OF Inr nxt, of AppendMain]) auto
        next
          case True
          let ?s = "adoptSidecarState (pc_writes p) (s\<lparr>js_memory := M1\<rparr>)"
          from run2 True M1(1) have r: "r = Inr (pc_seq p)" "s' = ?s"
            "d' = reclaimSidecars fs (js_fsync s) (planReclamations s (pc_writes p) ?e) ?d2" by simp_all
          have cur: "js_currentOnly s \<subseteq> {i. creates H i True}" using op by (simp add: opened_def)
          have "clean (H @ [?c]) d'"
            unfolding r(3) using main(1)[OF True] pub(2) by (intro reclaim_clean[OF _ plan_enough[OF nxt cur]]) blast
          then have "opened (H @ [?c]) m1 d' s'"
            using op M1 cur unfolding opened_def r(2) by auto
          with r(1) show thesis by (intro acknowledged[OF Inr nxt])
        qed
      qed
    qed
  qed
qed

end
