(* ===== verification/Jsonl_Life.thy ===== *)
theory Jsonl_Life
  imports Jsonl_Commit
begin

text \<open>
  The life of a storage directory: opens, commits, ID mints, closes and process deaths in any order,
  with any file operation failing at any point, and what recovery finds afterwards.
\<close>

subsection \<open>The life of a directory\<close>

text \<open>The commits whose marker line is complete, the storage that the process holds, and the disk.\<close>

type_synonym directory = "history \<times> jsonl option \<times> disk"

definition no_disk :: disk where
  "no_disk = \<lparr>dk_main = None, dk_sidecars = [], dk_temps = []\<rparr>"

definition new_directory :: directory where
  "new_directory = ([], None, no_disk)"

inductive lives :: "(nat \<Rightarrow> bool) \<Rightarrow> directory \<Rightarrow> directory \<Rightarrow> bool" for owned where
  Open: "recover owned fs fsync d = (r, d') \<Longrightarrow>
    lives owned (H, x, d) (H, case r of Inr s \<Rightarrow> Some s | Inl _ \<Rightarrow> None, d')"
| Die: "lives owned (H, x, d) (H, None, d)"
| Mint: "jsonl_mintId s = (r, s') \<Longrightarrow> lives owned (H, Some s, d) (H, Some s', d)"
| Close: "lives owned (H, Some s, d) (H, Some (jsonl_close s), d)"
| Acknowledge: "proper_commit owned s ws \<Longrightarrow> jsonl_commit owned fs ws s d = (Inr q, s', d') \<Longrightarrow>
    prepareCommit owned (js_memory s) ws None = Inr p \<Longrightarrow>
    lives owned (H, Some s, d) (H @ [(pc_seq p, pc_writes p)], Some s', d')"
| Fail: "proper_commit owned s ws \<Longrightarrow> jsonl_commit owned fs ws s d = (Inl e, s', d') \<Longrightarrow>
    main_lines d' = main_lines d \<Longrightarrow> lives owned (H, Some s, d) (H, Some s', d')"
| Late: "proper_commit owned s ws \<Longrightarrow> jsonl_commit owned fs ws s d = (Inl e, s', d') \<Longrightarrow>
    main_lines d' \<noteq> main_lines d \<Longrightarrow> prepareCommit owned (js_memory s) ws None = Inr p \<Longrightarrow>
    lives owned (H, Some s, d) (H @ [(pc_seq p, pc_writes p)], Some s', d')"

definition usable :: "jsonl \<Rightarrow> bool" where
  "usable s \<longleftrightarrow> \<not> js_closed s \<and> \<not> js_poisoned s"

definition sound :: "(nat \<Rightarrow> bool) \<Rightarrow> directory \<Rightarrow> bool" where
  "sound owned st \<longleftrightarrow>
     (\<exists>m. recorded owned (fst st) m \<and> holds (fst st) (snd (snd st))
        \<and> (\<forall>s. fst (snd st) = Some s \<longrightarrow> usable s \<longrightarrow> opened (fst st) m (snd (snd st)) s))"

lemma soundI:
  "recorded owned H m \<Longrightarrow> holds H d \<Longrightarrow> (\<And>s. x = Some s \<Longrightarrow> usable s \<Longrightarrow> opened H m d s) \<Longrightarrow> sound owned (H, x, d)"
  unfolding sound_def by auto

lemma soundE:
  assumes "sound owned (H, x, d)"
  obtains m where "recorded owned H m" "holds H d" "\<And>s. x = Some s \<Longrightarrow> usable s \<Longrightarrow> opened H m d s"
  using assms unfolding sound_def by auto

lemma new_sound: "sound owned new_directory"
proof -
  have "sidecar_holds [] f []" for f
    unfolding sidecar_holds_def by (intro exI[of _ "[]"]) (simp add: enough_nil unconfirmed_def)
  then have "holds [] no_disk"
    by (simp add: holds_def no_disk_def main_lines_def disk_names_def sidecar_lines_def)
  then show ?thesis unfolding new_directory_def by (intro soundI[OF recorded.Empty]) simp_all
qed

lemma refused_unusable: "\<not> usable s \<Longrightarrow> \<exists>e. jsonl_commit owned fs ws s d = (Inl e, s, d)"
  by (auto simp: jsonl_commit_def assertUsable_def usable_def)

lemma commit_sound:
  assumes "sound owned (H, Some s, d)" "proper_commit owned s ws" "jsonl_commit owned fs ws s d = (r, s', d')"
  shows "main_lines d' = main_lines d \<Longrightarrow> sound owned (H, Some s', d')"
    "prepareCommit owned (js_memory s) ws None = Inr p \<Longrightarrow> main_lines d' \<noteq> main_lines d \<Longrightarrow>
      sound owned (H @ [(pc_seq p, pc_writes p)], Some s', d')"
    "r = Inr q \<Longrightarrow> main_lines d' \<noteq> main_lines d"
proof -
  from assms(1) obtain m where m: "recorded owned H m" "holds H d" "usable s \<Longrightarrow> opened H m d s" by (elim soundE) simp
  let ?G = "\<lambda>p. H @ [(pc_seq p, pc_writes p)]"
  have all: "(main_lines d' = main_lines d \<longrightarrow> sound owned (H, Some s', d'))
    \<and> (\<forall>p. prepareCommit owned (js_memory s) ws None = Inr p \<longrightarrow> main_lines d' \<noteq> main_lines d \<longrightarrow> sound owned (?G p, Some s', d'))
    \<and> (\<forall>q. r = Inr q \<longrightarrow> main_lines d' \<noteq> main_lines d)"
  proof (cases "usable s")
    case False
    with refused_unusable[of s owned fs ws d] assms show ?thesis by auto
  next
    case True
    note op = m(3)[OF True]
    have before: "main_lines d = map (Some \<circ> marker_of) H" using m(2) by (simp add: holds_def)
    from m(1) op assms(2,3) show ?thesis
    proof (cases rule: commit_cases)
      case (refused e)
      with assms(1) show ?thesis by simp
    next
      case (acknowledged p m1)
      then have "holds (?G p) d'" by (simp add: opened_def clean_def)
      with acknowledged before show ?thesis
        by (auto simp: holds_def next_commit_def intro!: soundI[of _ "?G p" m1])
    next
      case (failed p m1 oper)
      have no: "\<not> usable s'" using failed(5) by (simp add: usable_def)
      from failed(6) show ?thesis
      proof
        assume h: "holds H d'"
        then have "main_lines d' = main_lines d" using before by (simp add: holds_def)
        with h no failed(3) m(1) show ?thesis by (auto intro!: soundI)
      next
        assume h: "holds (?G p) d'"
        then have "main_lines d' \<noteq> main_lines d" using before by (simp add: holds_def)
        with h no failed(1-3) show ?thesis by (auto simp: next_commit_def intro!: soundI)
      qed
    qed
  qed
  then show "main_lines d' = main_lines d \<Longrightarrow> sound owned (H, Some s', d')"
    "prepareCommit owned (js_memory s) ws None = Inr p \<Longrightarrow> main_lines d' \<noteq> main_lines d \<Longrightarrow> sound owned (?G p, Some s', d')"
    "r = Inr q \<Longrightarrow> main_lines d' \<noteq> main_lines d" by blast+
qed

lemma mint_opened: "opened H m d s \<Longrightarrow> jsonl_mintId s = (r, s') \<Longrightarrow> opened H m d s'"
  by (auto simp: opened_def jsonl_mintId_def alike_iff dest: mint_step intro: step_store_ok[OF store_step.Mint]
      split: sum.splits prod.splits)

lemma mint_usable: "jsonl_mintId s = (r, s') \<Longrightarrow> usable s' = usable s"
  by (auto simp: jsonl_mintId_def usable_def split: sum.splits prod.splits)

lemma lives_sound: "lives owned st st' \<Longrightarrow> sound owned st \<Longrightarrow> sound owned st'"
proof (induction rule: lives.induct)
  case (Open fs fsync d r d' H x)
  from Open(2) obtain m where m: "recorded owned H m" "holds H d" by (elim soundE)
  from recover_result[OF m Open(1)] show ?case
    by (intro soundI[OF m(1)]) (auto split: sum.splits)
next
  case (Die H x d)
  then show ?case by (elim soundE) (auto intro: soundI)
next
  case (Mint s r s' H d)
  then show ?case using mint_usable[OF Mint(1)] mint_opened[OF _ Mint(1)] by (elim soundE) (auto intro!: soundI)
next
  case (Close H s d)
  have "\<not> usable (jsonl_close s)" by (simp add: usable_def jsonl_close_def)
  with Close show ?case by (elim soundE) (auto intro!: soundI)
next
  case (Acknowledge s ws fs d q s' d' p H)
  from commit_sound(2,3)[OF Acknowledge(4,1,2)] Acknowledge(3) show ?case by blast
next
  case (Fail s ws fs d e s' d' H)
  from commit_sound(1)[OF Fail(4,1,2,3)] show ?case .
next
  case (Late s ws fs d e s' d' p H)
  from commit_sound(2)[OF Late(5,1,2)] Late(3,4) show ?case by blast
qed

lemma directory_sound: "(lives owned)\<^sup>*\<^sup>* new_directory st \<Longrightarrow> sound owned st"
  by (induction rule: rtranclp_induct) (auto intro: new_sound lives_sound)

subsection \<open>Records stay\<close>

lemma entry_written:
  assumes "checkGlobalIds m0 claimed ws = None" "claims_seen m0 claimed m" "tables_ok m" "WEntry e \<in> set ws"
  shows "ms_entries (fold (apply_write seq) ws m) (en_id e) = Some e
    \<and> ms_entrySeqs (fold (apply_write seq) ws m) (en_id e) = Some seq"
  using assms
proof (induction ws arbitrary: claimed m)
  case (Cons w ws)
  let ?m = "apply_write seq w m"
  have fits: "write_ok m w" using Cons.prems(1,2) by (rule checked_write)
  have ok: "tables_ok ?m" using Cons.prems(3) fits by (rule apply_write_ok)
  obtain claimed' where rest: "checkGlobalIds m0 claimed' ws = None" "claims_seen m0 claimed' ?m"
  proof (cases "claim w")
    case None
    then have "ms_types ?m = ms_types m" by (simp add: apply_write_types)
    with Cons.prems(2) have "claims_seen m0 claimed ?m" by (simp add: claims_seen_def)
    with check_skip[OF Cons.prems(1) None] show thesis by (rule that)
  next
    case (Some it)
    obtain i t where it: "claim w = Some (i, t)" using Some by (cases it) auto
    from check_step(1)[OF Cons.prems(1) it] checked_claims[OF Cons.prems(1,2) it] show thesis by (rule that)
  qed
  let ?P = "\<lambda>m. ms_entries m (en_id e) = Some e \<and> ms_entrySeqs m (en_id e) = Some seq"
  show ?case
  proof (cases "w = WEntry e")
    case True
    have keeps: "?P (apply_write seq v M)" if "?P M" "tables_ok M" "write_ok M v" for M v
      using write_tables_grown[OF that(2,3), of seq] that(1) by (auto simp: tables_grown_def map_le_def dom_def)
    have "?P ?m" using True by (simp add: store_simps)
    from checked_fold[where P = ?P, OF rest ok this keeps] show ?thesis by simp
  next
    case False
    with Cons.prems(4) have "WEntry e \<in> set ws" by auto
    from Cons.IH[OF rest ok this] show ?thesis by simp
  qed
qed simp

lemma each_hits: "each f xs = Inr ys \<Longrightarrow> x \<in> set xs \<Longrightarrow> \<exists>y \<in> set ys. f x = Inr y"
  by (induction xs arbitrary: ys) (auto simp: and_then_Inr)

lemma replay_entry:
  assumes "store_ok m" "replay_commit owned s ws m = Inr m1" "\<not> list_ex is_copy ws" "WEntry e \<in> set ws"
  shows "ms_entries m1 (en_id e) = Some e \<and> ms_entrySeqs m1 (en_id e) = Some s"
proof -
  from replayD[OF assms(2,3)] obtain p where p: "prepareCommit owned m ws (Some s) = Inr p" "pc_seq p = s" "pc_writes p = ws"
    and m1: "m1 = (applyDocumentActions (pc_actions p) s (fold (apply_write s) ws m))\<lparr>ms_nextSeq := s + 1\<rparr>" by metis
  note mid = commit_middle[OF assms(1) p(1), unfolded p(2,3)]
  have "claims_seen m Map.empty m" "tables_ok m" using assms(1) by (simp_all add: claims_seen_def store_ok_def)
  from entry_written[OF prepareD(5)[OF p(1), unfolded p(3)] this assms(4), of s] actions_fields[OF mid(3), of s]
  show ?thesis by (simp add: m1 same_tables_def)
qed

lemma recorded_grows:
  "recorded owned (H1 @ H2) m \<Longrightarrow> recorded owned H1 m1 \<Longrightarrow> tables_grown m1 m"
proof (induction H2 arbitrary: m rule: rev_induct)
  case Nil
  from recorded_plays[of owned H1 m] recorded_plays[of owned H1 m1] Nil show ?case by (simp add: tables_grown_refl)
next
  case (snoc x H2)
  obtain s ws where "x = (s, ws)" by (cases x)
  with snoc.prems(1) have "recorded owned ((H1 @ H2) @ [(s, ws)]) m" by simp
  then obtain m0 where m0: "recorded owned (H1 @ H2) m0" "\<not> list_ex is_copy ws" "replay_commit owned s ws m0 = Inr m"
    by (cases rule: recorded_snoc) auto
  from replayD[OF m0(3,2)] commit_evolves[OF recorded_ok[OF m0(1)]] have "tables_grown m0 m"
    unfolding evolves_def by metis
  with snoc.IH[OF m0(1) snoc.prems(2)] show ?case by (rule tables_grown_trans)
qed

lemma lives_extends: "(lives owned)\<^sup>*\<^sup>* st st' \<Longrightarrow> \<exists>G. fst st' = fst st @ G"
proof (induction rule: rtranclp_induct)
  case (step st1 st2)
  from step(2) have "\<exists>G. fst st2 = fst st1 @ G" by (cases rule: lives.cases) auto
  with step(3) show ?case by auto
qed simp

end
