(* ===== verification/Jsonl_Laws.thy ===== *)
theory Jsonl_Laws
  imports Jsonl_Life
begin

text \<open>
  What the JSONL storage promises over any life of its directory: recovery, atomic and durable
  commits, errors and IDs. A sample directory with a torn commit shows each promise at work.
\<close>

subsection \<open>A sample directory\<close>

text \<open>A directory with one commit, and a second commit that fails with a torn line in the main file.\<close>

definition sample_entry :: entry where
  "sample_entry = \<lparr>en_id = 2, en_conversation = 1, en_kind = ''note'', en_model = None, en_data = None, en_head = None,
     en_edits = None, en_task = None\<rparr>"

definition sample_writes :: "storage_write list" where
  "sample_writes = [WEntry sample_entry, WCreate (note_record\<lparr>dc_history := Some Latest\<rparr>) 1 (JObj [])]"

abbreviation all_work :: "fs_op \<Rightarrow> fs_outcome" where
  "all_work \<equiv> \<lambda>_. Works"

definition main_tears :: "fs_op \<Rightarrow> fs_outcome" where
  "main_tears oper = (if oper = AppendMain then Fails 0 True else Works)"

definition opened_on :: "disk \<Rightarrow> jsonl \<times> disk" where
  "opened_on d = (let (r, d') = recover (\<lambda>_. False) all_work False d in (projr r, d'))"

definition committed_on :: "(fs_op \<Rightarrow> fs_outcome) \<Rightarrow> storage_write list \<Rightarrow> jsonl \<times> disk \<Rightarrow> jsonl \<times> disk" where
  "committed_on fs ws sd = snd (jsonl_commit (\<lambda>_. False) fs ws (fst sd) (snd sd))"

definition first_open :: "jsonl \<times> disk" where
  "first_open = opened_on no_disk"

definition first_plan :: prepared where
  "first_plan = projr (prepareCommit (\<lambda>_. False) (js_memory (fst first_open)) sample_writes None)"

definition first_commit :: "jsonl \<times> disk" where
  "first_commit = committed_on all_work sample_writes first_open"

definition second_writes :: "storage_write list" where
  "second_writes = [WChange 3 (Base 2 (JObj [(''a'', JNull)]))]"

definition torn_commit :: "jsonl \<times> disk" where
  "torn_commit = committed_on main_tears second_writes first_commit"

lemma inr_projr: "\<not> isl x \<Longrightarrow> x = Inr (projr x)" "isl x \<Longrightarrow> x = Inl (projl x)"
  by (cases x; simp)+

lemma commit_pair: "jsonl_commit (\<lambda>_. False) fs ws (fst sd) (snd sd) =
    (fst (jsonl_commit (\<lambda>_. False) fs ws (fst sd) (snd sd)), fst (committed_on fs ws sd), snd (committed_on fs ws sd))"
  by (simp add: committed_on_def)

lemma sample_open: "(lives (\<lambda>_. False))\<^sup>*\<^sup>* new_directory ([], Some (fst first_open), snd first_open)"
proof -
  let ?r = "recover (\<lambda>_. False) all_work False no_disk"
  have "\<not> isl (fst ?r)" by code_simp
  then have "?r = (Inr (fst first_open), snd first_open)"
    unfolding first_open_def opened_on_def by (cases ?r) (auto dest: inr_projr)
  from lives.Open[OF this, where H = "[]" and x = None] show ?thesis
    unfolding new_directory_def by (intro r_into_rtranclp) simp
qed

lemma sample_ack:
  "jsonl_commit (\<lambda>_. False) all_work sample_writes (fst first_open) (snd first_open) = (Inr 1, fst first_commit, snd first_commit)"
proof -
  have "fst (jsonl_commit (\<lambda>_. False) all_work sample_writes (fst first_open) (snd first_open)) = Inr 1" by code_simp
  with commit_pair[of all_work sample_writes first_open] show ?thesis by (simp add: first_commit_def)
qed

lemma sample_proper: "proper_commit (\<lambda>_. False) (fst first_open) sample_writes"
  by code_simp

lemma sample_plan: "prepareCommit (\<lambda>_. False) (js_memory (fst first_open)) sample_writes None = Inr first_plan"
proof -
  have "\<not> isl (prepareCommit (\<lambda>_. False) (js_memory (fst first_open)) sample_writes None)" by code_simp
  then show ?thesis unfolding first_plan_def by (rule inr_projr)
qed

lemma plan_fields: "(pc_seq first_plan, pc_writes first_plan) = (1, sample_writes)"
  by code_simp

lemma sample_committed: "(lives (\<lambda>_. False))\<^sup>*\<^sup>* new_directory ([(1, sample_writes)], Some (fst first_commit), snd first_commit)"
  using sample_open lives.Acknowledge[OF sample_proper sample_ack sample_plan, where H = "[]"]
  by (simp add: plan_fields)

lemma sample_fails:
  "jsonl_commit (\<lambda>_. False) main_tears second_writes (fst first_commit) (snd first_commit)
     = (Inl (FileFailed AppendMain), fst torn_commit, snd torn_commit)"
proof -
  have "fst (jsonl_commit (\<lambda>_. False) main_tears second_writes (fst first_commit) (snd first_commit)) = Inl (FileFailed AppendMain)"
    by code_simp
  with commit_pair[of main_tears second_writes first_commit] show ?thesis by (simp add: torn_commit_def)
qed

lemma second_proper: "proper_commit (\<lambda>_. False) (fst first_commit) second_writes"
  by code_simp

lemma sample_torn: "(lives (\<lambda>_. False))\<^sup>*\<^sup>* new_directory ([(1, sample_writes)], Some (fst torn_commit), snd torn_commit)"
proof -
  have "main_lines (snd torn_commit) = main_lines (snd first_commit)" by code_simp
  from lives.Fail[OF second_proper sample_fails this, where H = "[(1, sample_writes)]"] sample_committed
  show ?thesis by simp
qed

definition reopened :: "jsonl \<times> disk" where
  "reopened = opened_on (snd torn_commit)"

lemma sample_reopen: "recover (\<lambda>_. False) all_work False (snd torn_commit) = (Inr (fst reopened), snd reopened)"
proof -
  let ?r = "recover (\<lambda>_. False) all_work False (snd torn_commit)"
  have "\<not> isl (fst ?r)" by code_simp
  then show ?thesis
    unfolding reopened_def opened_on_def by (cases ?r) (auto dest: inr_projr)
qed

subsection \<open>The promises of the storage\<close>

text \<open>C12: After any life of a directory, whatever operations failed and whenever the process died, recovery
  with working operations opens a storage whose records, documents and next sequence are those of the
  replay of every commit whose marker line is complete.\<close>

theorem crash_recovery:
  assumes "(lives owned)\<^sup>*\<^sup>* new_directory (H, x, d)" "\<And>oper. fs oper = Works"
  shows "\<exists>m s d'. play_history owned H new_store = Inr m \<and> recover owned fs fsync d = (Inr s, d') \<and> alike m (js_memory s)"
proof -
  obtain m where m: "recorded owned H m" "holds H d" by (rule soundE[OF directory_sound[OF assms(1)]]) blast
  obtain r d' where run: "recover owned fs fsync d = (r, d')" by fastforce
  from recover_result[OF m run] assms(2) recorded_plays[OF m(1)] run show ?thesis
    by (cases r) (auto simp: fs_works_def opened_def)
qed

theorem crash_recovery_witness:
  "main_torn (snd torn_commit)
   \<and> (\<exists>m s d'. play_history (\<lambda>_. False) [(1, sample_writes)] new_store = Inr m
      \<and> recover (\<lambda>_. False) all_work False (snd torn_commit) = (Inr s, d') \<and> alike m (js_memory s))"
proof
  show "main_torn (snd torn_commit)" by code_simp
qed (rule crash_recovery[OF sample_torn], simp)

text \<open>C22: Recovery never takes the files of a directory for corrupt: it fails only with a file operation
  that failed, and it can then be tried again.\<close>

theorem never_corrupt:
  assumes "(lives owned)\<^sup>*\<^sup>* new_directory (H, x, d)" "recover owned fs fsync d = (Inl e, d')"
  shows "(\<exists>oper. e = FileFailed oper \<and> \<not> fs_works fs oper) \<and> (lives owned)\<^sup>*\<^sup>* new_directory (H, None, d')"
proof -
  obtain m where m: "recorded owned H m" "holds H d" by (rule soundE[OF directory_sound[OF assms(1)]]) blast
  from recover_result[OF m assms(2)] lives.Open[OF assms(2), where H = H and x = x] assms(1) show ?thesis by simp
qed

definition unreadable :: "fs_op \<Rightarrow> fs_outcome" where
  "unreadable oper = (if oper = ReadSidecar (DocFile 3) then Fails 0 False else Works)"

theorem never_corrupt_witness:
  "\<exists>e d'. recover (\<lambda>_. False) unreadable False (snd torn_commit) = (Inl e, d')
     \<and> (\<exists>oper. e = FileFailed oper \<and> \<not> fs_works unreadable oper)"
proof -
  let ?r = "recover (\<lambda>_. False) unreadable False (snd torn_commit)"
  have "isl (fst ?r)" by code_simp
  then have "?r = (Inl (projl (fst ?r)), snd ?r)" by (metis inr_projr(2) prod.collapse)
  with never_corrupt[OF sample_torn this] show ?thesis by metis
qed

text \<open>C13: A commit is atomic: recovery after it gives the state before it or the state after it, and the state
  after it when the commit was acknowledged.\<close>

theorem commit_atomic:
  assumes "(lives owned)\<^sup>*\<^sup>* new_directory (H, Some s, d)" "usable s" "proper_commit owned s ws"
    and "jsonl_commit owned fs ws s d = (r, s', d')" "recover owned fs' fsync d' = (Inr s2, d2)"
  shows "(\<exists>p p' m'. prepareCommit owned (js_memory s) ws None = Inr p \<and> apply_prepared p (js_memory s) = Inr (p', m')
        \<and> alike m' (js_memory s2))
    \<or> isl r \<and> alike (js_memory s) (js_memory s2)"
proof -
  from directory_sound[OF assms(1)] assms(2) obtain m where m: "recorded owned H m" "opened H m d s"
    by (elim soundE) blast
  have mem: "alike m (js_memory s)" using m(2) by (simp add: opened_def)
  have old: "alike (js_memory s) (js_memory s2)" if "holds H d'"
    using recover_result[OF m(1) that assms(5)] mem by (simp add: opened_def alike_iff)
  have new: "\<exists>p' m'. apply_prepared p (js_memory s) = Inr (p', m') \<and> alike m' (js_memory s2)"
    if p: "prepareCommit owned (js_memory s) ws None = Inr p" and h: "holds (H @ [(pc_seq p, pc_writes p)]) d'" for p
  proof -
    from commit_next[OF m assms(3) p] obtain m1 M1 where n: "next_commit owned H m (pc_seq p, pc_writes p) m1"
      "apply_prepared p (js_memory s) = Inr (p\<lparr>pc_applied := True\<rparr>, M1)" "alike m1 M1" by blast
    then have "recorded owned (H @ [(pc_seq p, pc_writes p)]) m1" by (simp add: next_commit_def)
    from recover_result[OF this h assms(5)] n show ?thesis by (auto simp: opened_def alike_iff)
  qed
  from m assms(3,4) show ?thesis
  proof (cases rule: commit_cases)
    case (refused e)
    with m(2) old show ?thesis by (simp add: opened_def clean_def)
  next
    case (acknowledged p m1)
    from new[OF acknowledged(1)] acknowledged(1,4) show ?thesis by (auto simp: opened_def clean_def)
  next
    case (failed p m1 oper)
    from new[OF failed(1)] old failed(1,3,6) show ?thesis by auto
  qed
qed

theorem commit_atomic_witness: "alike (js_memory (fst first_commit)) (js_memory (fst reopened))"
proof -
  have "usable (fst first_commit)" by code_simp
  note atomic = commit_atomic[OF sample_committed this second_proper sample_fails sample_reopen]
  have "alike (js_memory (fst first_commit)) (js_memory (fst reopened))"
    if p: "prepareCommit (\<lambda>_. False) (js_memory (fst first_commit)) second_writes None = Inr p"
      "apply_prepared p (js_memory (fst first_commit)) = Inr (p', m')" "alike m' (js_memory (fst reopened))" for p p' m'
  proof -
    have "ms_nextSeq (js_memory (fst reopened)) = 2 \<and> ms_nextSeq (js_memory (fst first_commit)) = 2" by code_simp
    moreover from prepareD(2)[OF p(1)] applyD[OF p(1)] p(2) have "ms_nextSeq (js_memory (fst first_commit)) < ms_nextSeq m'" by auto
    ultimately show ?thesis using p(3) by (simp add: alike_iff)
  qed
  with atomic show ?thesis by blast
qed

text \<open>C21: An acknowledged entry stays: whatever happens to the directory afterwards, recovery finds the entry with the
  sequence that the commit returned.\<close>

theorem acknowledged_stays:
  assumes "(lives owned)\<^sup>*\<^sup>* new_directory (H, Some s, d)" "proper_commit owned s ws"
    and "jsonl_commit owned fs ws s d = (Inr q, s', d')" "prepareCommit owned (js_memory s) ws None = Inr p"
    and "(lives owned)\<^sup>*\<^sup>* (H @ [(pc_seq p, pc_writes p)], Some s', d') (H2, x2, d2)"
    and "recover owned fs' fsync d2 = (Inr s2, d3)" "WEntry e \<in> set ws"
  shows "ms_entries (js_memory s2) (en_id e) = Some e \<and> ms_entrySeqs (js_memory s2) (en_id e) = Some q"
proof -
  let ?c = "(pc_seq p, pc_writes p)"
  have "usable s" using refused_unusable[of s owned fs ws d] assms(3) by auto
  with directory_sound[OF assms(1)] obtain m where m: "recorded owned H m" "opened H m d s" by (elim soundE) blast
  from commit_next[OF m assms(2,4)] obtain m1 where n: "next_commit owned H m ?c m1" by blast
  then have rec1: "recorded owned (H @ [?c]) m1" by (simp add: next_commit_def)
  then obtain m0 where m0: "recorded owned H m0" "\<not> list_ex is_copy (pc_writes p)" "replay_commit owned (pc_seq p) (pc_writes p) m0 = Inr m1"
    by (cases rule: recorded_snoc) auto
  have "WEntry e \<in> set (pc_writes p)"
    using each_hits[OF prepareD(4)[OF assms(4), unfolded resolveDocumentCopies_def] assms(7)] by simp
  from replay_entry[OF recorded_ok[OF m0(1)] m0(3,2) this]
  have e1: "ms_entries m1 (en_id e) = Some e \<and> ms_entrySeqs m1 (en_id e) = Some (pc_seq p)" .
  have q: "pc_seq p = q"
  proof -
    from m assms(2,3) show ?thesis by (cases rule: commit_cases) (use assms(4) in auto)
  qed
  have reach2: "(lives owned)\<^sup>*\<^sup>* new_directory (H2, x2, d2)"
    using assms(1) lives.Acknowledge[OF assms(2-4), of H] assms(5) by (meson rtranclp.rtrancl_into_rtrancl rtranclp_trans)
  then obtain m2 where m2: "recorded owned H2 m2" "holds H2 d2" by (auto elim: soundE[OF directory_sound])
  from lives_extends[OF assms(5)] obtain G where "H2 = (H @ [?c]) @ G" by auto
  with m2(1) recorded_grows[OF _ rec1] have "tables_grown m1 m2" by blast
  with e1 q have "ms_entries m2 (en_id e) = Some e \<and> ms_entrySeqs m2 (en_id e) = Some q"
    by (auto simp: tables_grown_def map_le_def dom_def)
  with recover_result[OF m2 assms(6)] show ?thesis by (simp add: opened_def alike_iff)
qed

theorem acknowledged_stays_witness:
  "ms_entries (js_memory (fst reopened)) 2 = Some sample_entry \<and> ms_entrySeqs (js_memory (fst reopened)) 2 = Some 1"
proof -
  have "main_lines (snd torn_commit) = main_lines (snd first_commit)" by code_simp
  from lives.Fail[OF second_proper sample_fails this, where H = "[] @ [(pc_seq first_plan, pc_writes first_plan)]"]
  have "(lives (\<lambda>_. False))\<^sup>*\<^sup>* ([] @ [(pc_seq first_plan, pc_writes first_plan)], Some (fst first_commit), snd first_commit)
      ([] @ [(pc_seq first_plan, pc_writes first_plan)], Some (fst torn_commit), snd torn_commit)" by blast
  from acknowledged_stays[OF sample_open sample_proper sample_ack sample_plan this sample_reopen, of sample_entry]
  show ?thesis by (simp add: sample_writes_def sample_entry_def)
qed

text \<open>The file operations that publish a commit: the sidecar appends, their flushes with \<open>fsync\<close>, the marker.
  Reclamation, which comes after the marker, is not one of them.\<close>

definition publishing :: "bool \<Rightarrow> encoded_commit \<Rightarrow> fs_op list" where
  "publishing fsync e =
     map (AppendSidecar \<circ> fst) (ec_sidecars e) @ (if fsync then map (FlushSidecar \<circ> fst) (ec_sidecars e) else []) @ [AppendMain]"

lemma append_sidecars_fails:
  "snd (append_sidecars fs files d) = None \<longleftrightarrow> (\<forall>f \<in> set files. fs_works fs (AppendSidecar (fst f)))"
  by (induction fs files d rule: append_sidecars.induct) auto

lemma first_failure_None: "first_failure fs ops = None \<longleftrightarrow> (\<forall>oper \<in> set ops. fs_works fs oper)"
  by (auto simp: first_failure_def find_None_iff)

lemma adopted_flags: "js_poisoned (adoptSidecarState ws s) = js_poisoned s" "js_closed (adoptSidecarState ws s) = js_closed s"
proof -
  have "js_poisoned (adopt_write w s) = js_poisoned s \<and> js_closed (adopt_write w s) = js_closed s" for w s
    by (simp add: adopt_write_def split: storage_write.split)
  then have "js_poisoned (fold adopt_write ws s) = js_poisoned s \<and> js_closed (fold adopt_write ws s) = js_closed s"
    by (induction ws arbitrary: s) simp_all
  then show "js_poisoned (adoptSidecarState ws s) = js_poisoned s" "js_closed (adoptSidecarState ws s) = js_closed s"
    by (simp_all add: adoptSidecarState_def)
qed

lemma poisoned_refuses:
  assumes "js_poisoned s" "\<not> js_closed s"
  shows "jsonl_commit owned fs ws s d = (Inl Poisoned, s, d)" "jsonl_mintId s = (Inl Poisoned, s)" "jsonl_read get s = Inl Poisoned"
  using assms by (simp_all add: jsonl_commit_def jsonl_mintId_def jsonl_read_def assertUsable_def)

text \<open>C37: An admitted commit of a usable JSONL storage fails with a file operation, and poisons the storage,
  exactly when one of the operations that publish it fails; a failure of the reclamation after the marker
  never does. A poisoned storage refuses every commit, mint and read until it is reopened, and leaves the
  disk as it is.\<close>

theorem failed_commit_poisons:
  assumes "prepareCommit owned (js_memory s) ws None = Inr p" "\<not> js_closed s" "\<not> js_poisoned s"
    and "jsonl_commit owned fs ws s d = (r, s', d')"
  shows "(js_poisoned s' \<longleftrightarrow>
        (\<exists>oper \<in> set (publishing (js_fsync s) (encodeCommit (pc_seq p) (pc_writes p))). \<not> fs_works fs oper))
    \<and> (js_poisoned s' \<longleftrightarrow> (\<exists>oper. r = Inl (FileFailed oper)))
    \<and> (js_poisoned s' \<longrightarrow>
        jsonl_commit owned' fs' ws' s' d'' = (Inl Poisoned, s', d'') \<and> jsonl_mintId s' = (Inl Poisoned, s')
        \<and> jsonl_read get s' = Inl Poisoned)"
proof -
  let ?e = "encodeCommit (pc_seq p) (pc_writes p)"
  obtain d1 failed where a: "append_sidecars fs (ec_sidecars ?e) d = (d1, failed)" by (cases "append_sidecars fs (ec_sidecars ?e) d")
  then have sidecars: "failed = None \<longleftrightarrow> (\<forall>f \<in> set (ec_sidecars ?e). fs_works fs (AppendSidecar (fst f)))"
    using append_sidecars_fails[of fs "ec_sidecars ?e" d] by simp
  define flush where "flush = (if js_fsync s then first_failure fs (map (\<lambda>(f, _). FlushSidecar f) (ec_sidecars ?e)) else None)"
  have flushes: "flush = None \<longleftrightarrow> (js_fsync s \<longrightarrow> (\<forall>f \<in> set (ec_sidecars ?e). fs_works fs (FlushSidecar (fst f))))"
    by (auto simp: flush_def first_failure_None)
  have all: "(\<exists>oper \<in> set (publishing (js_fsync s) ?e). \<not> fs_works fs oper)
      \<longleftrightarrow> \<not> (failed = None \<and> flush = None \<and> fs_works fs AppendMain)"
    unfolding sidecars flushes by (auto simp: publishing_def)
  have "js_closed s' = js_closed s \<and> (js_poisoned s' \<longleftrightarrow> \<not> (failed = None \<and> flush = None \<and> fs_works fs AppendMain))
      \<and> (js_poisoned s' \<longleftrightarrow> (\<exists>oper. r = Inl (FileFailed oper)))"
    using assms a
    by (auto simp: jsonl_commit_def assertUsable_def poisoned_by_def adopted_flags Let_def flush_def[symmetric]
        split: option.splits sum.splits if_splits prod.splits)
  then show ?thesis unfolding all using poisoned_refuses[of s'] assms(2) by blast
qed

theorem failed_commit_poisons_witness:
  "js_poisoned (fst torn_commit)
   \<and> fst (jsonl_commit (\<lambda>_. False) all_work sample_writes (fst torn_commit) (snd torn_commit)) = Inl Poisoned"
proof -
  have "\<not> isl (prepareCommit (\<lambda>_. False) (js_memory (fst first_commit)) second_writes None)" by code_simp
  then obtain p where p: "prepareCommit (\<lambda>_. False) (js_memory (fst first_commit)) second_writes None = Inr p"
    by (meson inr_projr(1))
  have "\<not> js_closed (fst first_commit)" "\<not> js_poisoned (fst first_commit)" by code_simp+
  from failed_commit_poisons[where owned' = "\<lambda>_. False" and fs' = all_work and ws' = sample_writes
      and d'' = "snd torn_commit" and get = "\<lambda>_. Inr ()", OF p this sample_fails]
  show ?thesis by auto
qed

text \<open>C38: An ID that a recovered storage mints is above every ID of a record that a complete commit wrote.\<close>

theorem stored_ids_not_reused:
  assumes "(lives owned)\<^sup>*\<^sup>* new_directory (H, x, d)" "recover owned fs fsync d = (Inr s, d')"
    and "jsonl_mintId s = (Inr i, s')" "play_history owned H new_store = Inr m" "ms_types m j = Some t"
  shows "j < i"
proof -
  obtain m0 where m0: "recorded owned H m0" "holds H d" by (rule soundE[OF directory_sound[OF assms(1)]]) blast
  have "m0 = m" using recorded_plays[OF m0(1)] assms(4) by simp
  from recover_result[OF m0 assms(2)] have mem: "alike m (js_memory s)" "store_ok (js_memory s)"
    by (simp_all add: opened_def \<open>m0 = m\<close>)
  have "alike (js_memory s) m" using mem(1) by (rule alike_sym)
  from thinned_types[OF this[unfolded alike_def] mem(2)] recorded_ok[OF m0(1)] \<open>m0 = m\<close> assms(5)
  have "ms_types (js_memory s) j = Some t" by (auto simp: map_le_def dom_def)
  with mem(2) have "j < ms_nextId (js_memory s)" by (auto simp: store_ok_def tables_ok_def types_ok_def)
  with assms(3) show ?thesis by (auto simp: jsonl_mintId_def dest: mint_step split: sum.splits prod.splits)
qed

theorem stored_ids_not_reused_witness:
  "fst (jsonl_mintId (fst reopened)) = Inr 4 \<and> (3::int) < 4"
proof
  show minted: "fst (jsonl_mintId (fst reopened)) = Inr 4" by code_simp
  have "jsonl_mintId (fst reopened) = (Inr 4, snd (jsonl_mintId (fst reopened)))" using minted by (simp add: prod_eq_iff)
  moreover define m where "m = projr (play_history (\<lambda>_. False) [(1, sample_writes)] new_store)"
  have "\<not> isl (play_history (\<lambda>_. False) [(1, sample_writes)] new_store)" by code_simp
  then have "play_history (\<lambda>_. False) [(1, sample_writes)] new_store = Inr m" unfolding m_def by (rule inr_projr)
  moreover have "ms_types m 3 = Some DocumentTable" unfolding m_def by code_simp
  ultimately show "(3::int) < 4" by (rule stored_ids_not_reused[OF sample_torn sample_reopen])
qed

text \<open>An ID that was minted but never stored comes back after a reopen: the interface promises IDs above every
  ID minted before, also across reopen, and the recovered counter only knows the stored ones.\<close>

theorem minted_id_comes_back:
  "fst (jsonl_mintId (fst first_open)) = Inr 2
   \<and> fst (jsonl_mintId (fst (opened_on (snd first_open)))) = Inr 2"
  by (intro conjI; code_simp)

end
