(* ===== verification/Session_Documents.thy ===== *)
theory Session_Documents
  imports Durable_Entries
begin

text \<open>
  Typed documents of \<open>packages/durable/src/documents.ts\<close>: definitions, the resolution of an address, and
  the checks between a definition and a stored record. The callbacks of a definition are functions of
  the host; one that throws gives \<open>None\<close>. Values are JSON values, so \<open>copyJson\<close> keeps them. IDs and versions
  are integers. The string identity of an address is the address itself. The errors of the whole
  Session kernel are declared here.
\<close>

datatype session_error =
    InvalidVersion string
  | NeedsOwnerId string
  | OtherSemantics int
  | NewerVersion int int int
  | NeedsMigration int int
  | CallbackThrew
  | StorageThrew store_error          \<comment> \<open>the error of a Storage method, as it was thrown\<close>
  | FailedBefore session_error        \<comment> \<open>\<open>SessionFailed\<close> with its cause\<close>
  | SessionClosed
  | HasSettled
  | StillPending
  | ReadsAfterWrite string
  | NoOwnerTask int
  | OwnerIs int task_status
  | OwnerAborting int
  | NoConversation int
  | NeedsConversation
  | ChildInBackground
  | ChildElsewhere int
  | TerminalCandidate int
  | MovesConversation int
  | NoTask int
  | TaskTerminal int
  | NoSubmission int
  | NotQueued int
  | NotPlaced int
  | EntryNotVisible int int
  | ManySources string "string option"
  | SourceGone int
  | SourceDiffers int
  | SourceChanges int
  | ForksWhileChanging int
  | DocumentUnreadable int
  | HistoryUnreadable int
  | NeedsConversationDocument
  | EditFailed delta_error
  | NoDraft doc_address
  | Endless                           \<comment> \<open>no error of the code: the call never returns\<close>

datatype scope_kind = OfSession | OfConversation | OfTask

fun scope_kind_of :: "doc_scope \<Rightarrow> scope_kind" where
  "scope_kind_of SessionScope = OfSession"
| "scope_kind_of (ConversationScope _) = OfConversation"
| "scope_kind_of (TaskScope _) = OfTask"

text \<open>\<open>AnyDocDefinition\<close>; a singleton gets no seed, and a checkpoint predicate sees the value, the
  operations and the deltas stored since the last base.\<close>

record doc_definition =
  df_kind :: string
  df_version :: int
  df_family :: bool
  df_scope :: scope_kind
  df_history :: "doc_history option"
  df_fork :: "doc_fork option"
  df_initial :: "json option \<Rightarrow> json option"
  df_migrate :: "(json \<Rightarrow> int \<Rightarrow> json option) option"
  df_checkpoint :: "(json \<Rightarrow> json list \<Rightarrow> nat \<Rightarrow> bool option) option"

text \<open>The arguments after a token: the owner where the scope has one, and a family's key and seed.\<close>

record doc_args =
  ar_owner :: "json option"
  ar_key :: "string option"
  ar_seed :: "json option"

definition validateDefinition :: "doc_definition \<Rightarrow> session_error option" where
  "validateDefinition d =
     (if \<bar>df_version d\<bar> > max_safe \<or> df_version d < 1 then Some (InvalidVersion (df_kind d)) else None)"

text \<open>\<open>defineDoc\<close> and \<open>defineDocFamily\<close>; the token is its definition.\<close>

definition defineDoc :: "doc_definition \<Rightarrow> session_error + doc_definition" where
  "defineDoc d = (case validateDefinition d of Some e \<Rightarrow> Inl e | None \<Rightarrow> Inr d)"

definition ownerId :: "json option \<Rightarrow> doc_definition \<Rightarrow> session_error + int" where
  "ownerId value d =
     (case Option.bind value safe_number of Some i \<Rightarrow> Inr i | None \<Rightarrow> Inl (NeedsOwnerId (df_kind d)))"

definition resolve_scope :: "doc_definition \<Rightarrow> json option \<Rightarrow> session_error + doc_scope" where
  "resolve_scope d owner =
     (case df_scope d of
        OfSession \<Rightarrow> Inr SessionScope
      | OfConversation \<Rightarrow> and_then (ownerId owner d) (\<lambda>i. Inr (ConversationScope i))
      | OfTask \<Rightarrow> and_then (ownerId owner d) (\<lambda>i. Inr (TaskScope i)))"

definition resolveAddress :: "doc_definition \<Rightarrow> doc_args \<Rightarrow> session_error + doc_address" where
  "resolveAddress d args =
     and_then (resolve_scope d (ar_owner args)) (\<lambda>scope.
       Inr \<lparr>ad_kind = df_kind d, ad_scope = scope, ad_key = (if df_family d then ar_key args else None)\<rparr>)"

text \<open>\<open>addressId\<close> of a record.\<close>

abbreviation addressId :: "'a doc_create_scheme \<Rightarrow> doc_address" where
  "addressId \<equiv> recordAddressKey"

definition documentCreate :: "doc_definition \<Rightarrow> doc_address \<Rightarrow> int \<Rightarrow> doc_create" where
  "documentCreate d k i =
     \<lparr>dc_id = i, dc_kind = ad_kind k, dc_key = ad_key k, dc_scope = ad_scope k,
      dc_history = (if in_conversation (ad_scope k) then df_history d else None),
      dc_fork = (if in_conversation (ad_scope k) then df_fork d else None)\<rparr>"

definition checkRecordScope :: "doc_definition \<Rightarrow> 'a doc_create_scheme \<Rightarrow> session_error option" where
  "checkRecordScope d r =
     (if scope_kind_of (dc_scope r) \<noteq> df_scope d
         \<or> in_conversation (dc_scope r) \<and> (dc_history r \<noteq> df_history d \<or> dc_fork r \<noteq> df_fork d)
      then Some (OtherSemantics (dc_id r)) else None)"

definition checkRecordVersion :: "doc_definition \<Rightarrow> 'a doc_create_scheme \<Rightarrow> int \<Rightarrow> session_error option" where
  "checkRecordVersion d r version =
     (if version > df_version d then Some (NewerVersion (dc_id r) version (df_version d))
      else if version < df_version d \<and> df_migrate d = None then Some (NeedsMigration (dc_id r) version)
      else None)"

definition throws_if :: "session_error option \<Rightarrow> (session_error + 'a) \<Rightarrow> session_error + 'a" where
  "throws_if e r = (case e of Some err \<Rightarrow> Inl err | None \<Rightarrow> r)"

definition called_back :: "'a option \<Rightarrow> session_error + 'a" where
  "called_back r = (case r of None \<Rightarrow> Inl CallbackThrew | Some v \<Rightarrow> Inr v)"

definition materializeDocumentValue ::
    "doc_definition \<Rightarrow> 'a doc_create_scheme \<Rightarrow> int \<Rightarrow> json \<Rightarrow> session_error + json" where
  "materializeDocumentValue d r version v =
     throws_if (checkRecordScope d r)
       (throws_if (checkRecordVersion d r version)
         (if version = df_version d then Inr v
          else (case df_migrate d of
              None \<Rightarrow> Inl CallbackThrew
            | Some migrate \<Rightarrow> called_back (migrate v version))))"

definition materialize_stored :: "doc_definition \<Rightarrow> stored_document \<Rightarrow> session_error + json" where
  "materialize_stored d sd = materializeDocumentValue d (sd_record sd) (sd_version sd) (sd_value sd)"

subsection \<open>A checked record and its definition\<close>

lemma throws_if_Inr [simp]: "throws_if e r = Inr v \<longleftrightarrow> e = None \<and> r = Inr v"
  by (simp add: throws_if_def split: option.split)

lemma called_back_Inr [simp]: "called_back r = Inr v \<longleftrightarrow> r = Some v"
  by (simp add: called_back_def split: option.split)

lemma create_matches_definition:
  "scope_kind_of (ad_scope k) = df_scope d \<Longrightarrow> checkRecordScope d (documentCreate d k i) = None"
  by (simp add: checkRecordScope_def documentCreate_def)

lemma create_at_address [simp]:
  "recordAddressKey (documentCreate d k i) = k" "dc_id (documentCreate d k i) = i"
  by (simp_all add: recordAddressKey_def documentCreate_def)

lemma resolved_address:
  assumes "resolveAddress d args = Inr k"
  shows "ad_kind k = df_kind d" "scope_kind_of (ad_scope k) = df_scope d"
  using assms
  by (auto simp: resolveAddress_def resolve_scope_def and_then_def split: sum.splits scope_kind.splits)

lemma materialize_current:
  "materialize_stored d sd = Inr v \<Longrightarrow> sd_version sd = df_version d \<Longrightarrow> v = sd_value sd"
  by (simp add: materialize_stored_def materializeDocumentValue_def)

end
