(* ===== verification/Session_Cache.thy ===== *)
theory Session_Cache
  imports Session_Documents
begin

text \<open>
  The state of the Session kernel of \<open>packages/durable/src/session/session.ts\<close>: the storage behind its
  failure guard, the cache of loaded documents with its idle and attached ones, and the reads through
  it. A job of the mutation line is an action: it maps the state to a result or an error, and a new
  state in both cases. A tracker is its committed value. Timers are not kept: a sweep may run at any
  time. The clock and the retention are fields that the environment changes.
\<close>

subsection \<open>Actions\<close>

type_synonym ('s, 'a) act = "'s \<Rightarrow> (session_error + 'a) \<times> 's"

definition ret :: "'a \<Rightarrow> ('s, 'a) act" where
  "ret x = (\<lambda>s. (Inr x, s))"

definition throw :: "session_error \<Rightarrow> ('s, 'a) act" where
  "throw e = (\<lambda>s. (Inl e, s))"

definition bnd :: "('s, 'a) act \<Rightarrow> ('a \<Rightarrow> ('s, 'b) act) \<Rightarrow> ('s, 'b) act" where
  "bnd f g = (\<lambda>s. case f s of (Inl e, s') \<Rightarrow> (Inl e, s') | (Inr x, s') \<Rightarrow> g x s')"

definition check :: "session_error option \<Rightarrow> ('s, unit) act" where
  "check e = (case e of None \<Rightarrow> ret () | Some err \<Rightarrow> throw err)"

definition given :: "session_error + 'a \<Rightarrow> ('s, 'a) act" where
  "given r = (\<lambda>s. (r, s))"

definition changed :: "('s \<Rightarrow> 's) \<Rightarrow> ('s, unit) act" where
  "changed f = (\<lambda>s. (Inr (), f s))"

fun act_each :: "('x \<Rightarrow> ('s, unit) act) \<Rightarrow> 'x list \<Rightarrow> ('s, unit) act" where
  "act_each f [] = ret ()"
| "act_each f (x # xs) = bnd (f x) (\<lambda>_. act_each f xs)"

subsection \<open>State\<close>

text \<open>\<open>LoadedDocument\<close>; \<open>lo_value\<close> is the value of its tracker.\<close>

record loaded =
  lo_address :: doc_address
  lo_record :: doc_record
  lo_stored :: int
  lo_version :: int
  lo_deltas :: nat
  lo_value :: json

record session =
  se_store :: store
  se_documents :: "doc_address \<rightharpoonup> loaded"
  se_idle :: "(doc_address \<times> rat) list"     \<comment> \<open>oldest use first\<close>
  se_attached :: "int \<rightharpoonup> nat"
  se_failure :: "session_error option"
  se_closing :: bool
  se_now :: rat
  se_retention :: "rat option"               \<comment> \<open>none is \<open>Infinity\<close>\<close>

definition new_session :: "store \<Rightarrow> rat option \<Rightarrow> session" where
  "new_session m retention =
     \<lparr>se_store = m, se_documents = Map.empty, se_idle = [], se_attached = Map.empty, se_failure = None,
      se_closing = False, se_now = 0, se_retention = retention\<rparr>"

text \<open>\<open>documentRetention\<close> of an option that is a number.\<close>

definition default_retention :: rat where
  "default_retention = 600000"

definition documentRetention :: "rat option option \<Rightarrow> rat option" where
  "documentRetention given_ms =
     (case given_ms of
        None \<Rightarrow> Some default_retention
      | Some None \<Rightarrow> None
      | Some (Some ms) \<Rightarrow> if ms \<ge> 0 then Some ms else Some default_retention)"

subsection \<open>Failure and the storage guard\<close>

definition fail_session :: "session_error \<Rightarrow> 's session_scheme \<Rightarrow> 's session_scheme" where
  "fail_session e s = (if se_failure s \<noteq> None then s else s\<lparr>se_failure := Some e, se_closing := True\<rparr>)"

definition assertHealthy :: "('s session_scheme, unit) act" where
  "assertHealthy = (\<lambda>s. (case se_failure s of None \<Rightarrow> Inr () | Some e \<Rightarrow> Inl (FailedBefore e), s))"

definition session_usable :: "('s session_scheme, unit) act" where
  "session_usable = bnd assertHealthy (\<lambda>_ s. (if se_closing s then Inl SessionClosed else Inr (), s))"

text \<open>The errors of \<open>StorageRequestError\<close>.\<close>

fun is_request_error :: "store_error \<Rightarrow> bool" where
  "is_request_error InvalidOrder = True"
| "is_request_error InvalidCursor = True"
| "is_request_error OtherOrder = True"
| "is_request_error (NoHistory _) = True"
| "is_request_error (UnknownConversation _) = True"
| "is_request_error _ = False"

text \<open>\<open>GuardedStorage\<close>: a read, and a call whose errors are never exempt. A call that would never return
  is \<open>Endless\<close>.\<close>

definition guard_read :: "(store \<Rightarrow> (store_error + 'a) option) \<Rightarrow> ('s session_scheme, 'a) act" where
  "guard_read run =
     bnd assertHealthy (\<lambda>_ s.
       if ms_closed (se_store s) then (Inl SessionClosed, s)
       else case run (se_store s) of
          None \<Rightarrow> (Inl Endless, s)
        | Some (Inl e) \<Rightarrow> (Inl (StorageThrew e), if is_request_error e then s else fail_session (StorageThrew e) s)
        | Some (Inr x) \<Rightarrow> (Inr x, s))"

definition guard_write :: "(store \<Rightarrow> store_error + ('a \<times> store)) \<Rightarrow> ('s session_scheme, 'a) act" where
  "guard_write run =
     bnd assertHealthy (\<lambda>_ s.
       if ms_closed (se_store s) then (Inl SessionClosed, s)
       else case run (se_store s) of
          Inl e \<Rightarrow> (Inl (StorageThrew e), fail_session (StorageThrew e) s)
        | Inr (x, m) \<Rightarrow> (Inr x, s\<lparr>se_store := m\<rparr>))"

definition reads :: "(store \<Rightarrow> store_error + 'a) \<Rightarrow> ('s session_scheme, 'a) act" where
  "reads run = guard_read (\<lambda>m. Some (run m))"

definition mint :: "('s session_scheme, int) act" where
  "mint = guard_write mintId"

subsection \<open>The document cache\<close>

definition touchDocument :: "doc_address \<Rightarrow> 's session_scheme \<Rightarrow> 's session_scheme" where
  "touchDocument k s =
     (case se_documents s k of
        None \<Rightarrow> s
      | Some l \<Rightarrow>
          if se_attached s (dc_id (lo_record l)) \<noteq> None then s
          else if (case map_of (se_idle s) k of
                None \<Rightarrow> False
              | Some since \<Rightarrow>
                  se_now s - since < (case se_retention s of None \<Rightarrow> 1000 | Some ms \<Rightarrow> min 1000 (ms / 10)))
          then s
          else s\<lparr>se_idle := filter (\<lambda>(k', _). k' \<noteq> k) (se_idle s) @ [(k, se_now s)]\<rparr>)"

definition dropDocument :: "doc_address \<Rightarrow> 's session_scheme \<Rightarrow> 's session_scheme" where
  "dropDocument k s =
     s\<lparr>se_documents := (se_documents s)(k := None), se_idle := filter (\<lambda>(k', _). k' \<noteq> k) (se_idle s)\<rparr>"

text \<open>\<open>#sweepDocuments\<close>: the idle documents whose retention passed, oldest first.\<close>

definition expired :: "'s session_scheme \<Rightarrow> doc_address \<times> rat \<Rightarrow> bool" where
  "expired s use = (case se_retention s of None \<Rightarrow> False | Some ms \<Rightarrow> snd use \<le> se_now s - ms)"

definition sweepDocuments :: "'s session_scheme \<Rightarrow> 's session_scheme" where
  "sweepDocuments s = fold (\<lambda>(k, _). dropDocument k) (takeWhile (expired s) (se_idle s)) s"

definition pinDocument :: "doc_address \<Rightarrow> int \<Rightarrow> 's session_scheme \<Rightarrow> 's session_scheme" where
  "pinDocument k i s =
     s\<lparr>se_attached := (se_attached s)(i \<mapsto> (case se_attached s i of None \<Rightarrow> 0 | Some n \<Rightarrow> n) + 1),
       se_idle := filter (\<lambda>(k', _). k' \<noteq> k) (se_idle s)\<rparr>"

text \<open>The release of one pin; the source calls it once per pin.\<close>

definition unpinDocument :: "doc_address \<Rightarrow> int \<Rightarrow> 's session_scheme \<Rightarrow> 's session_scheme" where
  "unpinDocument k i s =
     (let count = (case se_attached s i of None \<Rightarrow> 1 | Some n \<Rightarrow> n) - 1 in
      if count > 0 then s\<lparr>se_attached := (se_attached s)(i \<mapsto> count)\<rparr>
      else let s1 = s\<lparr>se_attached := (se_attached s)(i := None)\<rparr> in
           if map_option (dc_id \<circ> lo_record) (se_documents s1 k) = Some i then touchDocument k s1 else s1)"

text \<open>\<open>host.cached\<close>, \<open>host.install\<close> and \<open>host.evict\<close>.\<close>

definition cached_document :: "doc_address \<Rightarrow> ('s session_scheme, loaded option) act" where
  "cached_document k = (\<lambda>s. (Inr (se_documents s k), if se_documents s k = None then s else touchDocument k s))"

definition installDocument :: "loaded \<Rightarrow> 's session_scheme \<Rightarrow> 's session_scheme" where
  "installDocument l s =
     touchDocument (lo_address l) (s\<lparr>se_documents := (se_documents s)(lo_address l \<mapsto> l)\<rparr>)"

definition evictDocument :: "doc_address \<Rightarrow> int \<Rightarrow> 's session_scheme \<Rightarrow> 's session_scheme" where
  "evictDocument k i s =
     (if map_option (dc_id \<circ> lo_record) (se_documents s k) = Some i then dropDocument k s else s)"

subsection \<open>Reads\<close>

text \<open>The cold part of \<open>#loadDocument\<close>.\<close>

definition cold_load :: "(nat \<Rightarrow> bool) \<Rightarrow> doc_definition \<Rightarrow> doc_address \<Rightarrow> ('s session_scheme, loaded option) act" where
  "cold_load owned d k =
     bnd (reads (\<lambda>m. findDocument m k Current)) (\<lambda>found.
       case found of
          None \<Rightarrow> ret None
        | Some r \<Rightarrow>
            bnd (reads (\<lambda>m. document owned m (dc_id r) Current)) (\<lambda>stored.
              case stored of
                 None \<Rightarrow> throw (DocumentUnreadable (dc_id r))
               | Some sd \<Rightarrow>
                   bnd (given (materialize_stored d sd)) (\<lambda>v.
                     let l = \<lparr>lo_address = k, lo_record = sd_record sd, lo_stored = sd_version sd,
                              lo_version = df_version d, lo_deltas = sd_deltas sd, lo_value = v\<rparr>
                     in bnd (changed (installDocument l)) (\<lambda>_. ret (Some l)))))"

definition loadDocument :: "(nat \<Rightarrow> bool) \<Rightarrow> doc_definition \<Rightarrow> doc_address \<Rightarrow> ('s session_scheme, loaded option) act" where
  "loadDocument owned d k =
     (\<lambda>s. case se_documents s k of
          Some l \<Rightarrow>
            if lo_version l = df_version d then (Inr (Some l), touchDocument k s)
            else cold_load owned d k (dropDocument k s)
        | None \<Rightarrow> cold_load owned d k s)"

text \<open>A loaded document checked against the definition that asks for it.\<close>

definition checked_loaded :: "doc_definition \<Rightarrow> loaded \<Rightarrow> ('s session_scheme, unit) act" where
  "checked_loaded d l =
     bnd (check (checkRecordScope d (lo_record l))) (\<lambda>_. check (checkRecordVersion d (lo_record l) (lo_stored l)))"

text \<open>A cached value of the definition's version is read off the line; anything else is loaded on it.\<close>

definition snapshot :: "(nat \<Rightarrow> bool) \<Rightarrow> doc_definition \<Rightarrow> doc_args \<Rightarrow> ('s session_scheme, json option) act" where
  "snapshot owned d args =
     bnd session_usable (\<lambda>_.
     bnd (given (resolveAddress d args)) (\<lambda>k.
     bnd (\<lambda>s. case se_documents s k of
            Some l \<Rightarrow>
              if lo_version l = df_version d then (Inr (Some l), touchDocument k s)
              else bnd assertHealthy (\<lambda>_. loadDocument owned d k) s
          | None \<Rightarrow> bnd assertHealthy (\<lambda>_. loadDocument owned d k) s) (\<lambda>found.
       case found of
          None \<Rightarrow> ret None
        | Some l \<Rightarrow> bnd (checked_loaded d l) (\<lambda>_. ret (Some (lo_value l))))))"

text \<open>\<open>conversationDocumentOnLine\<close>: record, version and value.\<close>

definition conversationDocumentOnLine ::
    "(nat \<Rightarrow> bool) \<Rightarrow> doc_definition \<Rightarrow> int \<Rightarrow> ('s session_scheme, (doc_record \<times> int \<times> json) option) act" where
  "conversationDocumentOnLine owned d c =
     bnd (given (resolveAddress d \<lparr>ar_owner = Some (JNum (rat_of_int c)), ar_key = None, ar_seed = None\<rparr>)) (\<lambda>k.
     bnd (loadDocument owned d k) (\<lambda>found.
       case found of
          None \<Rightarrow> ret None
        | Some l \<Rightarrow> bnd (checked_loaded d l) (\<lambda>_. ret (Some (lo_record l, lo_version l, lo_value l)))))"

text \<open>The stored document of a record, which must be readable.\<close>

definition read_past :: "(nat \<Rightarrow> bool) \<Rightarrow> doc_definition \<Rightarrow> doc_point \<Rightarrow> doc_record option \<Rightarrow> ('s session_scheme, json option) act" where
  "read_past owned d p found =
     (case found of
        None \<Rightarrow> ret None
      | Some r \<Rightarrow>
          bnd (reads (\<lambda>m. document owned m (dc_id r) p)) (\<lambda>stored.
            case stored of
               None \<Rightarrow> throw (HistoryUnreadable (dc_id r))
             | Some sd \<Rightarrow> bnd (given (materialize_stored d sd)) (\<lambda>v. ret (Some v))))"

definition snapshot_at :: "(nat \<Rightarrow> bool) \<Rightarrow> doc_definition \<Rightarrow> doc_address \<Rightarrow> int \<Rightarrow> int \<Rightarrow> ('s session_scheme, json option) act" where
  "snapshot_at owned d k c at_id =
     bnd assertHealthy (\<lambda>_.
     bnd (guard_read (\<lambda>m. entry_in m c at_id)) (\<lambda>found.
       case found of
          None \<Rightarrow> throw (EntryNotVisible at_id c)
        | Some (e, seq) \<Rightarrow>
            let p = AtSeq (case seq of None \<Rightarrow> 0 | Some t \<Rightarrow> t) in
            bnd (reads (\<lambda>m. findDocument m (k\<lparr>ad_scope := ConversationScope (en_conversation e)\<rparr>) p))
              (read_past owned d p)))"

definition snapshotAsOf ::
    "(nat \<Rightarrow> bool) \<Rightarrow> doc_definition \<Rightarrow> doc_args \<Rightarrow> int \<Rightarrow> ('s session_scheme, json option) act" where
  "snapshotAsOf owned d args at_id =
     bnd session_usable (\<lambda>_.
     bnd (given (resolveAddress d args)) (\<lambda>k.
       case ad_scope k of
          ConversationScope c \<Rightarrow> snapshot_at owned d k c at_id
        | _ \<Rightarrow> throw NeedsConversationDocument))"

text \<open>The pinning part of \<open>#attachDocument\<close>, which \<open>documentState\<close> and \<open>watchDoc\<close> share: the result is
  what the observer pins.\<close>

definition attachDocument :: "(nat \<Rightarrow> bool) \<Rightarrow> doc_definition \<Rightarrow> doc_args \<Rightarrow> ('s session_scheme, loaded option) act" where
  "attachDocument owned d args =
     bnd session_usable (\<lambda>_.
     bnd (given (resolveAddress d args)) (\<lambda>k.
     bnd assertHealthy (\<lambda>_.
     bnd (loadDocument owned d k) (\<lambda>found.
       case found of
          None \<Rightarrow> ret None
        | Some l \<Rightarrow>
            bnd (checked_loaded d l) (\<lambda>_.
            bnd (changed (pinDocument (lo_address l) (dc_id (lo_record l)))) (\<lambda>_. ret (Some l)))))))"

definition unloadDocuments :: "'s session_scheme \<Rightarrow> 's session_scheme" where
  "unloadDocuments s = s\<lparr>se_documents := Map.empty, se_idle := []\<rparr>"

text \<open>The sealing of \<open>close\<close>, and its job at the end of the line.\<close>

definition seal_session :: "'s session_scheme \<Rightarrow> 's session_scheme" where
  "seal_session s = s\<lparr>se_closing := True\<rparr>"

definition close_job :: "'s session_scheme \<Rightarrow> 's session_scheme" where
  "close_job s =
     s\<lparr>se_documents := Map.empty, se_idle := [], se_attached := Map.empty, se_store := close_store (se_store s)\<rparr>"

end
