(* ===== verification/Session_Transaction.thy ===== *)
theory Session_Transaction
  imports Session_Cache
begin

text \<open>
  The operations of one transaction, \<open>packages/durable/src/session/transaction.ts\<close>, and the document copies
  of a fork, \<open>packages/durable/src/session/forks.ts\<close>. A transaction extends the state of the Session, whose
  line it holds: its actions mint IDs, fill the cache and may fail the Session. The calls of a commit
  callback run one after another. The store does not change while the line is held but for minted
  IDs, so the memo of a committed task read is the read itself. An open change of a document is the
  list of operations that its tracker will emit.
\<close>

subsection \<open>What a callback passes\<close>

datatype conversation_ownership = Ownerless | OwnedByTask int
datatype task_ownership = ByConversation | ByTask int
datatype head_draft = HeadSelf | HeadAt int

record entry_draft =
  ed_kind :: string
  ed_model :: "json list option"
  ed_data :: "json option"
  ed_head :: "head_draft option"
  ed_edits :: "context_edit list option"

record task_definition =
  td_name :: string
  td_version :: int
  td_initial :: "json \<Rightarrow> json option"

record task_options =
  to_ownership :: task_ownership
  to_conversation :: "int option"
  to_background :: "bool option"
  to_abandon :: "bool option"

record submission_create =
  sc_conversation :: int
  sc_request :: "string option"
  sc_type :: submission_type
  sc_state :: submission_state

datatype submission_change = AnsweredBy int | GivenUp string "json option" | PlacedAt int

text \<open>A settled record stays; a queued input is placed and a queued write done; only a placed input is
  answered, and an unanswered one keeps its entry.\<close>

definition applySubmissionChange :: "submission \<Rightarrow> submission_change \<Rightarrow> session_error + submission" where
  "applySubmissionChange s change =
     (case sb_state s of
        Done _ _ \<Rightarrow> Inr s
      | Unanswered _ _ _ \<Rightarrow> Inr s
      | Queued \<Rightarrow>
          (case change of
             PlacedAt e \<Rightarrow> Inr (s\<lparr>sb_state := (if sb_type s = SubInput then Placed e else Done e None)\<rparr>)
           | AnsweredBy _ \<Rightarrow> Inl (NotPlaced (sb_id s))
           | GivenUp reason detail \<Rightarrow> Inr (s\<lparr>sb_state := Unanswered None reason detail\<rparr>))
      | Placed e \<Rightarrow>
          (case change of
             PlacedAt _ \<Rightarrow> Inl (NotQueued (sb_id s))
           | AnsweredBy answer \<Rightarrow> Inr (s\<lparr>sb_state := Done e (Some answer)\<rparr>)
           | GivenUp reason detail \<Rightarrow> Inr (s\<lparr>sb_state := Unanswered (Some e) reason detail\<rparr>)))"

subsection \<open>State\<close>

datatype tx_target =
    TLoaded loaded
  | TCreated doc_create int json        \<comment> \<open>record, version and the value of its tracker\<close>
  | TForkCopy doc_create int doc_point  \<comment> \<open>record, source and point\<close>
  | TRetireOnly doc_record

text \<open>\<open>DocumentEntry\<close>; \<open>de_draft\<close> is the memoized acquisition: its error, or none when it gave a draft.\<close>

record doc_entry =
  de_address :: doc_address
  de_definition :: "doc_definition option"
  de_draft :: "session_error option option"
  de_target :: "tx_target option"
  de_change :: "json list option"
  de_retire :: bool

datatype task_write = TaskCreate task | TaskReplace task

fun written_task :: "task_write \<Rightarrow> task" where
  "written_task (TaskCreate t) = t"
| "written_task (TaskReplace t) = t"

record tx = session +
  tx_conversation :: "int option"      \<comment> \<open>the scope of the commit\<close>
  tx_task :: "int option"
  tx_sealed :: bool
  tx_wrote :: bool
  tx_writes :: "storage_write list"
  tx_created :: "int list"
  tx_forked :: "int list"
  tx_sources :: "int list"
  tx_tasks :: "(int \<times> task_write option) list"
  tx_submissions :: "(int \<times> submission) list"
  tx_changes :: "(int \<times> submission_change) list"
  tx_documents :: "doc_entry list"
  tx_latest :: "doc_address \<rightharpoonup> nat"

definition new_tx :: "int option \<Rightarrow> int option \<Rightarrow> session \<Rightarrow> tx" where
  "new_tx conversation task s =
     session.extend s
       \<lparr>tx_conversation = conversation, tx_task = task, tx_sealed = False, tx_wrote = False, tx_writes = [],
        tx_created = [], tx_forked = [], tx_sources = [], tx_tasks = [], tx_submissions = [], tx_changes = [],
        tx_documents = [], tx_latest = Map.empty\<rparr>"

subsection \<open>Helpers\<close>

definition still_open :: "(tx, unit) act" where
  "still_open = (\<lambda>t. (if tx_sealed t then Inl HasSettled else Inr (), t))"

text \<open>\<open>#read\<close> and \<open>#write\<close>.\<close>

definition tx_read :: "string \<Rightarrow> (tx, 'a) act \<Rightarrow> (tx, 'a) act" where
  "tx_read method f =
     bnd still_open (\<lambda>_ t. if tx_wrote t then (Inl (ReadsAfterWrite method), t) else f t)"

definition tx_write :: "(tx, 'a) act \<Rightarrow> (tx, 'a) act" where
  "tx_write f = bnd still_open (\<lambda>_. bnd (changed (\<lambda>t. t\<lparr>tx_wrote := True\<rparr>)) (\<lambda>_. f))"

text \<open>\<open>#taskEntry\<close>: the first touch of a task gives it its place among the writes.\<close>

definition touch_task :: "int \<Rightarrow> tx \<Rightarrow> tx" where
  "touch_task i t = (if map_of (tx_tasks t) i = None then t\<lparr>tx_tasks := tx_tasks t @ [(i, None)]\<rparr> else t)"

definition candidate :: "tx \<Rightarrow> int \<Rightarrow> task_write option" where
  "candidate t i = Option.bind (map_of (tx_tasks t) i) (\<lambda>w. w)"

definition write_task :: "int \<Rightarrow> task_write \<Rightarrow> tx \<Rightarrow> tx" where
  "write_task i w t = t\<lparr>tx_tasks := AList.update i (Some w) (tx_tasks t)\<rparr>"

definition committedTask :: "int \<Rightarrow> (tx, task option) act" where
  "committedTask i = bnd (changed (touch_task i)) (\<lambda>_. reads (\<lambda>m. task_of m i))"

definition currentTask :: "int \<Rightarrow> (tx, task option) act" where
  "currentTask i = (\<lambda>t. case candidate t i of Some w \<Rightarrow> (Inr (Some (written_task w)), t) | None \<Rightarrow> committedTask i t)"

definition requireConversation :: "int \<Rightarrow> (tx, unit) act" where
  "requireConversation i =
     (\<lambda>t. if i \<in> set (tx_created t) then (Inr (), t)
          else bnd (reads (\<lambda>m. conversation_of m i))
                 (\<lambda>c. check (if c = None then Some (NoConversation i) else None)) t)"

definition push_write :: "storage_write \<Rightarrow> tx \<Rightarrow> tx" where
  "push_write w t = t\<lparr>tx_writes := tx_writes t @ [w]\<rparr>"

text \<open>A new entry is the latest one of its address.\<close>

definition push_document :: "doc_entry \<Rightarrow> tx \<Rightarrow> tx" where
  "push_document e t =
     t\<lparr>tx_documents := tx_documents t @ [e], tx_latest := (tx_latest t)(de_address e \<mapsto> length (tx_documents t))\<rparr>"

definition set_document :: "nat \<Rightarrow> (doc_entry \<Rightarrow> doc_entry) \<Rightarrow> tx \<Rightarrow> tx" where
  "set_document n f t = t\<lparr>tx_documents := (tx_documents t)[n := f (tx_documents t ! n)]\<rparr>"

definition latest_document :: "tx \<Rightarrow> doc_address \<Rightarrow> (nat \<times> doc_entry) option" where
  "latest_document t k = map_option (\<lambda>n. (n, tx_documents t ! n)) (tx_latest t k)"

subsection \<open>The document copies of a fork\<close>

type_synonym fork_copy = "doc_create \<times> int \<times> doc_point"

definition fork_record :: "int \<Rightarrow> int \<Rightarrow> doc_record \<Rightarrow> doc_create" where
  "fork_record child i source =
     \<lparr>dc_id = i, dc_kind = dc_kind source, dc_key = dc_key source, dc_scope = ConversationScope child,
      dc_history = Some (if dc_history source = Some Latest then Latest else Rewindable), dc_fork = dc_fork source\<rparr>"

definition copy_source :: "int \<Rightarrow> doc_fork \<Rightarrow> doc_point \<Rightarrow> doc_record \<Rightarrow> fork_copy list
    \<Rightarrow> ('s session_scheme, fork_copy list) act" where
  "copy_source child policy p source copies =
     (if \<not> in_conversation (dc_scope source) \<or> dc_fork source \<noteq> Some policy then ret copies
      else bnd mint (\<lambda>i.
        let r = fork_record child i source in
        if addressId r \<in> set (map (\<lambda>(r', _). addressId r') copies)
        then throw (ManySources (dc_kind r) (dc_key r))
        else ret (copies @ [(r, dc_id source, p)])))"

fun copy_sources :: "int \<Rightarrow> doc_fork \<Rightarrow> doc_point \<Rightarrow> doc_record list \<Rightarrow> fork_copy list
    \<Rightarrow> ('s session_scheme, fork_copy list) act" where
  "copy_sources child policy p [] copies = ret copies"
| "copy_sources child policy p (r # rs) copies =
     bnd (copy_source child policy p r copies) (copy_sources child policy p rs)"

definition page_size :: nat where
  "page_size = 256"

text \<open>The pages of one scope; the copies of a page are made before the next page is read.\<close>

partial_function (option) collect_pages ::
    "doc_scope \<Rightarrow> doc_point \<Rightarrow> doc_fork \<Rightarrow> int \<Rightarrow> cursor option \<Rightarrow> fork_copy list \<Rightarrow> 's session_scheme
      \<Rightarrow> ((session_error + fork_copy list) \<times> 's session_scheme) option" where
  "collect_pages scope p policy child cursor copies s =
     (case reads (\<lambda>m. scanDocuments m \<lparr>dq_scope = scope, dq_at = p, dq_kind = None\<rparr> page_size cursor) s of
        (Inl e, s1) \<Rightarrow> Some (Inl e, s1)
      | (Inr pg, s1) \<Rightarrow>
          (case copy_sources child policy p (pg_items pg) copies s1 of
             (Inl e, s2) \<Rightarrow> Some (Inl e, s2)
           | (Inr copies', s2) \<Rightarrow>
               (case pg_next pg of
                  None \<Rightarrow> Some (Inr copies', s2)
                | Some c \<Rightarrow> collect_pages scope p policy child (Some c) copies' s2)))"

definition collectCopies :: "doc_scope \<Rightarrow> doc_point \<Rightarrow> doc_fork \<Rightarrow> int \<Rightarrow> fork_copy list
    \<Rightarrow> ('s session_scheme, fork_copy list) act" where
  "collectCopies scope p policy child copies s =
     (case collect_pages scope p policy child None copies s of None \<Rightarrow> (Inl Endless, s) | Some r \<Rightarrow> r)"

definition prepareForkDocumentCopies :: "int \<Rightarrow> int \<Rightarrow> int \<Rightarrow> ('s session_scheme, fork_copy list) act" where
  "prepareForkDocumentCopies parent at_id child =
     bnd (guard_read (\<lambda>m. entry_in m parent at_id)) (\<lambda>found.
       case found of
          None \<Rightarrow> throw (EntryNotVisible at_id parent)
        | Some (e, seq) \<Rightarrow>
            let p = AtSeq (case seq of None \<Rightarrow> 0 | Some t \<Rightarrow> t) in
            bnd (collectCopies (ConversationScope (en_conversation e)) p ForkAsOf child [])
              (collectCopies (ConversationScope parent) Current ForkCurrent child))"

subsection \<open>Conversations and entries\<close>

definition push_copy :: "fork_copy \<Rightarrow> tx \<Rightarrow> tx" where
  "push_copy copy t =
     (let (r, source, p) = copy in
      push_document
        \<lparr>de_address = addressId r, de_definition = None, de_draft = None, de_target = Some (TForkCopy r source p),
         de_change = None, de_retire = False\<rparr>
        (t\<lparr>tx_sources := tx_sources t @ [source]\<rparr>))"

definition owner_of :: "conversation_ownership \<Rightarrow> (tx, (int \<times> int) option) act" where
  "owner_of ownership =
     (case ownership of
        Ownerless \<Rightarrow> ret None
      | OwnedByTask i \<Rightarrow>
          bnd (currentTask i) (\<lambda>found.
            case found of None \<Rightarrow> throw (NoOwnerTask i) | Some k \<Rightarrow> ret (Some (tk_conversation k, i))))"

text \<open>\<open>#stageConversation\<close> of a plain Session, whose \<open>conversationCreated\<close> stages nothing.\<close>

definition stageConversation :: "(int \<times> int) option \<Rightarrow> conversation_ownership \<Rightarrow> int option \<Rightarrow> (tx, conversation) act" where
  "stageConversation parent ownership reserved =
     bnd (case reserved of Some i \<Rightarrow> ret i | None \<Rightarrow> mint) (\<lambda>i.
     bnd (owner_of ownership) (\<lambda>owner.
     bnd (case parent of None \<Rightarrow> ret [] | Some (p, at_id) \<Rightarrow> prepareForkDocumentCopies p at_id i) (\<lambda>copies.
       let c = \<lparr>cv_id = i, cv_parent = parent, cv_owner = owner\<rparr> in
       bnd (changed (\<lambda>t. push_write (WConversation c)
              ((fold push_copy copies t)
                 \<lparr>tx_forked := tx_forked t @ (case parent of None \<Rightarrow> [] | Some (p, _) \<Rightarrow> [p]),
                  tx_created := tx_created t @ [i]\<rparr>)))
         (\<lambda>_. ret c))))"

definition createConversation :: "conversation_ownership \<Rightarrow> (tx, conversation) act" where
  "createConversation ownership = tx_write (stageConversation None ownership None)"

definition root_conversation :: int where
  "root_conversation = 1"

definition createRootConversation :: "(tx, conversation) act" where
  "createRootConversation = tx_write (stageConversation None Ownerless (Some root_conversation))"

definition forkConversation :: "int \<Rightarrow> int \<Rightarrow> conversation_ownership \<Rightarrow> (tx, conversation) act" where
  "forkConversation parent at_id ownership = tx_write (stageConversation (Some (parent, at_id)) ownership None)"

fun resolve_head :: "int \<Rightarrow> head_draft option \<Rightarrow> int option" where
  "resolve_head i None = None"
| "resolve_head i (Some HeadSelf) = Some i"
| "resolve_head i (Some (HeadAt h)) = Some h"

definition appendEntry :: "int \<Rightarrow> entry_draft \<Rightarrow> (tx, entry) act" where
  "appendEntry c draft =
     tx_write
       (bnd (requireConversation c) (\<lambda>_.
        bnd mint (\<lambda>i t.
          let e = \<lparr>en_id = i, en_conversation = c, en_kind = ed_kind draft, en_model = ed_model draft,
                   en_data = ed_data draft, en_head = resolve_head i (ed_head draft), en_edits = ed_edits draft,
                   en_task = tx_task t\<rparr>
          in (Inr e, push_write (WEntry e) t))))"

subsection \<open>Tasks and submissions\<close>

text \<open>The owner of a new child task, checked against its options.\<close>

definition task_owner :: "task_options \<Rightarrow> (tx, task option) act" where
  "task_owner options =
     (case to_ownership options of
        ByConversation \<Rightarrow> ret None
      | ByTask i \<Rightarrow>
          bnd (currentTask i) (\<lambda>found.
            case found of
               None \<Rightarrow> throw (NoOwnerTask i)
             | Some k \<Rightarrow>
                 if to_background options = Some True then throw ChildInBackground
                 else if to_conversation options \<noteq> None \<and> to_conversation options \<noteq> Some (tk_conversation k)
                 then throw (ChildElsewhere (tk_conversation k))
                 else ret (Some k)))"

definition task_conversation :: "task option \<Rightarrow> task_options \<Rightarrow> tx \<Rightarrow> int option" where
  "task_conversation owner options t =
     (case owner of
        Some k \<Rightarrow> Some (tk_conversation k)
      | None \<Rightarrow> (case to_conversation options of Some c \<Rightarrow> Some c | None \<Rightarrow> tx_conversation t))"

definition new_task :: "int \<Rightarrow> int \<Rightarrow> task_definition \<Rightarrow> json \<Rightarrow> int option \<Rightarrow> task_options \<Rightarrow> json \<Rightarrow> task" where
  "new_task i c d input owner options checkpoint =
     \<lparr>tk_id = i, tk_conversation = c, tk_kind = td_name d, tk_version = td_version d, tk_input = input,
      tk_owner = owner, tk_background = (to_background options = Some True), tk_abort = False, tk_restart = False,
      tk_abandon = (to_abandon options = Some True), tk_started = None, tk_ended = None,
      tk_state = Pending checkpoint, tk_memos = None\<rparr>"

definition createTask :: "task_definition \<Rightarrow> json \<Rightarrow> task_options \<Rightarrow> (tx, int) act" where
  "createTask d input options =
     tx_write
       (bnd (task_owner options) (\<lambda>owner t.
          case task_conversation owner options t of
             None \<Rightarrow> (Inl NeedsConversation, t)
           | Some c \<Rightarrow>
               bnd (requireConversation c) (\<lambda>_.
               bnd (given (called_back (td_initial d input))) (\<lambda>checkpoint.
               bnd mint (\<lambda>i.
               bnd (changed (write_task i
                      (TaskCreate (new_task i c d input (map_option tk_id owner) options checkpoint))))
                 (\<lambda>_. ret i)))) t))"

definition createSubmission :: "submission_create \<Rightarrow> (tx, submission) act" where
  "createSubmission create =
     tx_write
       (bnd (requireConversation (sc_conversation create)) (\<lambda>_.
        bnd mint (\<lambda>i.
          let s = \<lparr>sb_id = i, sb_conversation = sc_conversation create, sb_request = sc_request create,
                   sb_type = sc_type create, sb_state = sc_state create\<rparr>
          in bnd (changed (\<lambda>t. t\<lparr>tx_submissions := AList.update i s (tx_submissions t)\<rparr>)) (\<lambda>_. ret s))))"

definition change_submission :: "int \<Rightarrow> submission_change \<Rightarrow> (tx, unit) act" where
  "change_submission i change = tx_write (changed (\<lambda>t. t\<lparr>tx_changes := tx_changes t @ [(i, change)]\<rparr>))"

text \<open>\<open>settleSubmission\<close>, which takes no placement, and \<open>placeSubmission\<close>.\<close>

definition settleSubmission :: "int \<Rightarrow> int + string \<times> json option \<Rightarrow> (tx, unit) act" where
  "settleSubmission i settlement =
     change_submission i (case settlement of Inl answer \<Rightarrow> AnsweredBy answer | Inr (reason, detail) \<Rightarrow> GivenUp reason detail)"

definition placeSubmission :: "int \<Rightarrow> int \<Rightarrow> (tx, unit) act" where
  "placeSubmission i e = change_submission i (PlacedAt e)"

text \<open>Lifecycle times: what a replaced candidate had stays, then what the record has, then the clock.\<close>

definition first_time :: "rat option \<Rightarrow> rat option \<Rightarrow> rat option \<Rightarrow> rat option" where
  "first_time a b c = (if a \<noteq> None then a else if b \<noteq> None then b else c)"

definition stampTimes :: "rat \<Rightarrow> task \<Rightarrow> task option \<Rightarrow> task" where
  "stampTimes now v previous =
     v\<lparr>tk_started := first_time (Option.bind previous tk_started) (tk_started v)
          (if tk_status v = TRunning then Some now else None),
       tk_ended := first_time (Option.bind previous tk_ended) (tk_ended v)
          (if tk_status v = TTerminal then Some now else None)\<rparr>"

definition setTask :: "task \<Rightarrow> (tx, unit) act" where
  "setTask v =
     tx_write (bnd (changed (touch_task (tk_id v))) (\<lambda>_ t.
       let previous = candidate t (tk_id v);
           stamped = stampTimes (se_now t) v (map_option written_task previous)
       in case previous of
            None \<Rightarrow> (Inr (), write_task (tk_id v) (TaskReplace stamped) t)
          | Some w \<Rightarrow>
              if tk_status (written_task w) = TTerminal then (Inl (TerminalCandidate (tk_id v)), t)
              else if tk_conversation (written_task w) \<noteq> tk_conversation v then (Inl (MovesConversation (tk_id v)), t)
              else (Inr (), write_task (tk_id v)
                     (case w of TaskCreate _ \<Rightarrow> TaskCreate stamped | TaskReplace _ \<Rightarrow> TaskReplace stamped) t)))"

definition stagedTasks :: "tx \<Rightarrow> task list" where
  "stagedTasks t = map written_task (List.map_filter snd (tx_tasks t))"

definition stagedConversations :: "tx \<Rightarrow> conversation list" where
  "stagedConversations t =
     List.map_filter (\<lambda>w. case w of WConversation c \<Rightarrow> Some c | _ \<Rightarrow> None) (tx_writes t)"

subsection \<open>Documents\<close>

definition assertTaskDocumentsOpen :: "doc_address \<Rightarrow> (tx, unit) act" where
  "assertTaskDocumentsOpen k =
     (\<lambda>t. (case ad_scope k of
             TaskScope i \<Rightarrow>
               (case candidate t i of
                  Some w \<Rightarrow> if tk_status (written_task w) = TTerminal then Inl (TaskTerminal i) else Inr ()
                | None \<Rightarrow> Inr ())
           | _ \<Rightarrow> Inr (), t))"

text \<open>What owns a document that is to be created.\<close>

definition owner_exists :: "doc_scope \<Rightarrow> (tx, unit) act" where
  "owner_exists scope =
     (case scope of
        SessionScope \<Rightarrow> ret ()
      | ConversationScope c \<Rightarrow> requireConversation c
      | TaskScope i \<Rightarrow>
          bnd (currentTask i) (\<lambda>found.
            case found of
               None \<Rightarrow> throw (NoTask i)
             | Some k \<Rightarrow> if tk_status k = TTerminal then throw (TaskTerminal i) else ret ()))"

definition open_change :: "tx_target \<Rightarrow> doc_entry \<Rightarrow> doc_entry" where
  "open_change target e = e\<lparr>de_target := Some target, de_change := Some []\<rparr>"

definition acquire :: "(nat \<Rightarrow> bool) \<Rightarrow> nat \<Rightarrow> doc_definition \<Rightarrow> doc_address \<Rightarrow> json option \<Rightarrow> bool \<Rightarrow> (tx, unit) act" where
  "acquire owned n d k seed skip =
     bnd (if skip then ret None else loadDocument owned d k) (\<lambda>found.
       case found of
          Some l \<Rightarrow>
            bnd (checked_loaded d l) (\<lambda>_. changed (set_document n (open_change (TLoaded l))))
        | None \<Rightarrow>
            bnd (owner_exists (ad_scope k)) (\<lambda>_.
            bnd (given (called_back (df_initial d seed))) (\<lambda>v.
            bnd mint (\<lambda>i.
              changed (set_document n (open_change (TCreated (documentCreate d k i) (df_version d) v)))))))"

definition copy_differs :: "doc_record \<Rightarrow> doc_create \<Rightarrow> bool" where
  "copy_differs source r \<longleftrightarrow>
     \<not> in_conversation (dc_scope source) \<or> dc_kind source \<noteq> dc_kind r \<or> dc_key source \<noteq> dc_key r
     \<or> dc_history source \<noteq> dc_history r \<or> dc_fork source \<noteq> dc_fork r"

definition acquireForkCopy :: "(nat \<Rightarrow> bool) \<Rightarrow> nat \<Rightarrow> doc_definition \<Rightarrow> doc_create \<Rightarrow> int \<Rightarrow> doc_point \<Rightarrow> (tx, unit) act" where
  "acquireForkCopy owned n d r source p =
     bnd (reads (\<lambda>m. document owned m source p)) (\<lambda>stored.
       case stored of
          None \<Rightarrow> throw (SourceGone source)
        | Some sd \<Rightarrow>
            if copy_differs (sd_record sd) r then throw (SourceDiffers source)
            else bnd (given (materializeDocumentValue d r (sd_version sd) (sd_value sd))) (\<lambda>v.
              changed (set_document n (\<lambda>e. open_change (TCreated r (df_version d) v) (e\<lparr>de_definition := Some d\<rparr>)))))"

text \<open>An acquisition: its promise is memoized before it runs, and keeps its error.\<close>

definition draft_is :: "session_error option \<Rightarrow> doc_entry \<Rightarrow> doc_entry" where
  "draft_is outcome e = e\<lparr>de_draft := Some outcome\<rparr>"

definition keep_draft :: "nat \<Rightarrow> (tx, unit) act \<Rightarrow> (tx, nat) act" where
  "keep_draft n f =
     (\<lambda>t. case f (set_document n (draft_is None) t) of
          (Inl e, t') \<Rightarrow> (Inl e, set_document n (draft_is (Some e)) t')
        | (Inr _, t') \<Rightarrow> (Inr n, t'))"

definition new_entry :: "doc_address \<Rightarrow> doc_definition \<Rightarrow> bool \<Rightarrow> doc_entry" where
  "new_entry k d retire =
     \<lparr>de_address = k, de_definition = Some d, de_draft = None, de_target = None, de_change = None, de_retire = retire\<rparr>"

definition acquire_new :: "(nat \<Rightarrow> bool) \<Rightarrow> doc_definition \<Rightarrow> doc_address \<Rightarrow> doc_args \<Rightarrow> bool \<Rightarrow> (tx, nat) act" where
  "acquire_new owned d k args skip =
     (\<lambda>t. let n = length (tx_documents t) in
          keep_draft n (acquire owned n d k (if df_family d then ar_seed args else None) skip)
            (push_document (new_entry k d False) t))"

text \<open>The draft of a document, as the number of its entry.\<close>

definition doc :: "(nat \<Rightarrow> bool) \<Rightarrow> doc_definition \<Rightarrow> doc_args \<Rightarrow> (tx, nat) act" where
  "doc owned d args =
     bnd still_open (\<lambda>_.
     bnd (given (resolveAddress d args)) (\<lambda>k.
     bnd (assertTaskDocumentsOpen k) (\<lambda>_ t.
       case latest_document t k of
          None \<Rightarrow> acquire_new owned d k args False t
        | Some (n, e) \<Rightarrow>
            if de_retire e then acquire_new owned d k args True t
            else (case de_draft e of
                Some (Some err) \<Rightarrow> (Inl err, t)
              | Some None \<Rightarrow> (Inr n, t)
              | None \<Rightarrow>
                  (case de_target e of
                     Some (TForkCopy r source p) \<Rightarrow> keep_draft n (acquireForkCopy owned n d r source p) t
                   | _ \<Rightarrow> acquire_new owned d k args False t)))))"

text \<open>The callback edits a draft it got: these are the operations that the change will emit.\<close>

definition edit_draft :: "nat \<Rightarrow> json list \<Rightarrow> (tx, unit) act" where
  "edit_draft n ops =
     (\<lambda>t. if n < length (tx_documents t) \<and> de_change (tx_documents t ! n) \<noteq> None
          then (Inr (), set_document n (\<lambda>e. e\<lparr>de_change := Some ops\<rparr>) t)
          else (Inl HasSettled, t))"

definition findRetirement :: "nat \<Rightarrow> doc_definition \<Rightarrow> doc_address \<Rightarrow> (tx, unit) act" where
  "findRetirement n d k =
     bnd (cached_document k) (\<lambda>cached.
     bnd (case cached of Some l \<Rightarrow> ret (Some (lo_record l)) | None \<Rightarrow> reads (\<lambda>m. findDocument m k Current)) (\<lambda>found.
       case found of
          None \<Rightarrow> ret ()
        | Some r \<Rightarrow>
            bnd (check (checkRecordScope d r)) (\<lambda>_.
              changed (set_document n (\<lambda>e. e\<lparr>de_target := Some (TRetireOnly r)\<rparr>)))))"

definition retireDoc :: "doc_definition \<Rightarrow> doc_args \<Rightarrow> (tx, unit) act" where
  "retireDoc d args =
     bnd still_open (\<lambda>_.
     bnd (given (resolveAddress d args)) (\<lambda>k t.
       let start = (\<lambda>t. findRetirement (length (tx_documents t)) d k (push_document (new_entry k d True) t)) in
       case latest_document t k of
          None \<Rightarrow> start t
        | Some (n, e) \<Rightarrow>
            if de_retire e then (Inr (), t)
            else (case (de_target e, de_draft e) of
                (Some (TForkCopy r _ _), _) \<Rightarrow>
                  (case checkRecordScope d r of
                     Some err \<Rightarrow> (Inl err, t)
                   | None \<Rightarrow> (Inr (), set_document n (\<lambda>e. e\<lparr>de_retire := True\<rparr>) t))
              | (_, Some outcome) \<Rightarrow>
                  (case outcome of None \<Rightarrow> Inr () | Some err \<Rightarrow> Inl err,
                   set_document n (\<lambda>e. e\<lparr>de_retire := True\<rparr>) t)
              | _ \<Rightarrow> start t)))"

end
