(* ===== verification/Session_Assembly.thy ===== *)
theory Session_Assembly
  imports Session_Transaction
begin

text \<open>
  The settlement of a transaction, \<open>packages/durable/src/session/transaction.ts\<close>: its open changes are
  prepared, the batch of writes is assembled with its validations in the order of the source, and after
  the storage committed it the changes are adopted into the cache and published. The loop over the
  pages of a terminal task's documents is \<open>scanAll\<close> under one guard.
\<close>

subsection \<open>Preparation\<close>

text \<open>\<open>Change.prepare\<close>: without operations the value is the base, otherwise the operations applied to it.\<close>

definition prepare_change :: "(nat \<Rightarrow> bool) \<Rightarrow> json \<Rightarrow> json list \<Rightarrow> session_error + json" where
  "prepare_change owned base ops =
     (if ops = [] then Inr base
      else case applyImmutable owned (Some base) ops of
          Inl e \<Rightarrow> Inl (EditFailed e)
        | Inr v \<Rightarrow> Inr (as_root v))"

fun tracked_value :: "tx_target option \<Rightarrow> json option" where
  "tracked_value (Some (TLoaded l)) = Some (lo_value l)"
| "tracked_value (Some (TCreated _ _ v)) = Some v"
| "tracked_value _ = None"

text \<open>An entry with the operations and the value of its prepared change.\<close>

definition prepare_document :: "(nat \<Rightarrow> bool) \<Rightarrow> doc_entry \<Rightarrow> session_error + (doc_entry \<times> (json list \<times> json) option)" where
  "prepare_document owned e =
     (case (de_change e, tracked_value (de_target e)) of
        (Some ops, Some base) \<Rightarrow> and_then (prepare_change owned base ops) (\<lambda>v. Inr (e, Some (ops, v)))
      | _ \<Rightarrow> Inr (e, None))"

subsection \<open>Plans\<close>

datatype planned_record = NewRecord doc_create | OldRecord doc_record

fun planned_create :: "planned_record \<Rightarrow> doc_create" where
  "planned_create (NewRecord r) = r"
| "planned_create (OldRecord r) = doc_create.truncate r"

record doc_change =
  ch_ops :: "json list"
  ch_value :: json
  ch_version :: int
  ch_loaded :: "loaded option"
  ch_definition :: "doc_definition option"

record doc_plan =
  pl_address :: doc_address
  pl_record :: planned_record
  pl_retire :: bool
  pl_content :: "storage_write option"
  pl_change :: "doc_change option"
  pl_conversation :: "int option"

definition pl_id :: "doc_plan \<Rightarrow> int" where
  "pl_id p = dc_id (planned_create (pl_record p))"

definition pl_scope :: "doc_plan \<Rightarrow> doc_scope" where
  "pl_scope p = dc_scope (planned_create (pl_record p))"

definition plan_of :: "doc_entry \<Rightarrow> planned_record \<Rightarrow> storage_write option \<Rightarrow> doc_change option \<Rightarrow> doc_plan" where
  "plan_of e r content change =
     \<lparr>pl_address = de_address e, pl_record = r, pl_retire = de_retire e, pl_content = content, pl_change = change,
      pl_conversation = None\<rparr>"

text \<open>A change of version stores a base even without operations; otherwise only a change stores a delta.\<close>

definition loaded_content :: "loaded \<Rightarrow> int \<Rightarrow> json list \<Rightarrow> json \<Rightarrow> storage_write option" where
  "loaded_content l version ops v =
     (if lo_stored l < version then Some (WChange (dc_id (lo_record l)) (Base version v))
      else if ops \<noteq> [] then Some (WChange (dc_id (lo_record l)) (Delta version ops))
      else None)"

fun planDocument :: "doc_entry \<times> (json list \<times> json) option \<Rightarrow> doc_plan option" where
  "planDocument (e, prepared) =
     (case (de_target e, prepared) of
        (Some (TCreated r version _), Some (ops, v)) \<Rightarrow>
          Some (plan_of e (NewRecord r) (Some (WCreate r version v))
                  (Some \<lparr>ch_ops = ops, ch_value = v, ch_version = version, ch_loaded = None, ch_definition = None\<rparr>))
      | (Some (TForkCopy r source p), _) \<Rightarrow> Some (plan_of e (NewRecord r) (Some (WCopy r source p)) None)
      | (Some (TRetireOnly r), _) \<Rightarrow> Some (plan_of e (OldRecord r) None None)
      | (Some (TLoaded l), Some (ops, v)) \<Rightarrow>
          (case de_definition e of
             None \<Rightarrow> None
           | Some d \<Rightarrow>
               Some (plan_of e (OldRecord (lo_record l)) (loaded_content l (df_version d) ops v)
                      (Some \<lparr>ch_ops = ops, ch_value = v, ch_version = df_version d, ch_loaded = Some l,
                             ch_definition = Some d\<rparr>)))
      | _ \<Rightarrow> None)"

definition publishes :: "doc_plan \<Rightarrow> bool" where
  "publishes p \<longleftrightarrow> pl_retire p \<or> Option.bind (pl_change p) ch_loaded = None \<or> pl_content p \<noteq> None"

subsection \<open>Validation\<close>

definition fork_conflict :: "tx \<Rightarrow> doc_plan \<Rightarrow> session_error option" where
  "fork_conflict t p =
     (if pl_content p = None \<and> \<not> pl_retire p then None
      else if pl_id p \<in> set (tx_sources t) then Some (SourceChanges (pl_id p))
      else (case pl_scope p of
          ConversationScope c \<Rightarrow>
            if c \<in> set (tx_forked t) \<and> dc_fork (planned_create (pl_record p)) = Some ForkCurrent
            then Some (ForksWhileChanging c) else None
        | _ \<Rightarrow> None))"

definition rejectForkSourceWrites :: "doc_plan list \<Rightarrow> (tx, unit) act" where
  "rejectForkSourceWrites plans = act_each (\<lambda>p t. check (fork_conflict t p) t) plans"

text \<open>The owners that new owned work needs: of new conversations, then of new tasks.\<close>

definition new_owners :: "tx \<Rightarrow> int list" where
  "new_owners t =
     List.map_filter (\<lambda>w. case w of WConversation c \<Rightarrow> map_option snd (cv_owner c) | _ \<Rightarrow> None) (tx_writes t)
     @ List.map_filter (\<lambda>(_, w). case w of Some (TaskCreate k) \<Rightarrow> tk_owner k | _ \<Rightarrow> None) (tx_tasks t)"

definition owner_problem :: "int \<Rightarrow> task option \<Rightarrow> session_error option" where
  "owner_problem i found =
     (case found of
        None \<Rightarrow> Some (NoOwnerTask i)
      | Some k \<Rightarrow>
          if tk_status k = TTerminal \<or> tk_status k = TCompleting then Some (OwnerIs i (tk_status k))
          else if tk_abort k then Some (OwnerAborting i)
          else None)"

definition validateOwners :: "(tx, unit) act" where
  "validateOwners =
     (\<lambda>t. act_each (\<lambda>i. bnd (currentTask i) (\<lambda>found. check (owner_problem i found))) (new_owners t) t)"

definition replace_problem :: "int \<Rightarrow> task \<Rightarrow> task option \<Rightarrow> session_error option" where
  "replace_problem i v committed =
     (case committed of
        None \<Rightarrow> Some (NoTask i)
      | Some k \<Rightarrow>
          if tk_status k = TTerminal then Some (TaskTerminal i)
          else if tk_conversation k \<noteq> tk_conversation v then Some (MovesConversation i)
          else None)"

definition validate_replaced :: "(tx, unit) act" where
  "validate_replaced =
     (\<lambda>t. act_each (\<lambda>(i, w). case w of
            Some (TaskReplace v) \<Rightarrow> bnd (committedTask i) (\<lambda>found. check (replace_problem i v found))
          | _ \<Rightarrow> ret ()) (tx_tasks t) t)"

subsection \<open>Terminal tasks\<close>

definition terminal_tasks :: "tx \<Rightarrow> (int \<times> bool) list" where
  "terminal_tasks t =
     List.map_filter (\<lambda>(i, w). case w of
         Some (TaskCreate k) \<Rightarrow> if tk_status k = TTerminal then Some (tk_id k, True) else None
       | Some (TaskReplace k) \<Rightarrow> if tk_status k = TTerminal then Some (tk_id k, False) else None
       | None \<Rightarrow> None) (tx_tasks t)"

definition of_terminal :: "int list \<Rightarrow> doc_scope \<Rightarrow> bool" where
  "of_terminal ended scope = (case scope of TaskScope i \<Rightarrow> i \<in> set ended | _ \<Rightarrow> False)"

definition retire_plan :: "int list \<Rightarrow> doc_plan \<Rightarrow> doc_plan" where
  "retire_plan ended p = (if of_terminal ended (pl_scope p) then p\<lparr>pl_retire := True\<rparr> else p)"

text \<open>A stored document of a terminal task that no plan retires yet.\<close>

definition add_retiring :: "doc_record \<Rightarrow> doc_plan list \<times> int list \<Rightarrow> doc_plan list \<times> int list" where
  "add_retiring r acc =
     (if dc_id r \<in> set (snd acc) then acc
      else (fst acc @ [\<lparr>pl_address = addressId r, pl_record = OldRecord r, pl_retire = True, pl_content = None,
                        pl_change = None, pl_conversation = None\<rparr>],
            dc_id r # snd acc))"

definition task_documents :: "int \<Rightarrow> ('s session_scheme, doc_record list) act" where
  "task_documents i =
     guard_read (\<lambda>m. scanAll (scanDocuments m \<lparr>dq_scope = TaskScope i, dq_at = Current, dq_kind = None\<rparr> page_size) None)"

fun retire_stored :: "(int \<times> bool) list \<Rightarrow> doc_plan list \<times> int list \<Rightarrow> (tx, doc_plan list \<times> int list) act" where
  "retire_stored [] acc = ret acc"
| "retire_stored ((i, created) # rest) acc =
     (if created then retire_stored rest acc
      else bnd (task_documents i) (\<lambda>rs. retire_stored rest (fold add_retiring rs acc)))"

definition retire_terminal :: "doc_plan list \<Rightarrow> (tx, doc_plan list) act" where
  "retire_terminal plans =
     (\<lambda>t. let ended = terminal_tasks t;
              ids = map fst ended;
              marked = map (retire_plan ids) plans;
              retiring = map pl_id (filter (\<lambda>p. of_terminal ids (pl_scope p)) marked)
          in bnd (retire_stored ended (marked, retiring)) (\<lambda>acc. ret (fst acc)) t)"

subsection \<open>Ownership of publications, submissions and writes\<close>

definition own_plan :: "doc_plan \<Rightarrow> (tx, doc_plan) act" where
  "own_plan p =
     (if \<not> publishes p then ret p
      else case pl_scope p of
          SessionScope \<Rightarrow> ret p
        | ConversationScope c \<Rightarrow> ret (p\<lparr>pl_conversation := Some c\<rparr>)
        | TaskScope i \<Rightarrow>
            bnd (currentTask i) (\<lambda>found. ret (p\<lparr>pl_conversation := map_option tk_conversation found\<rparr>)))"

fun act_map :: "('x \<Rightarrow> ('s, 'y) act) \<Rightarrow> 'x list \<Rightarrow> ('s, 'y list) act" where
  "act_map f [] = ret []"
| "act_map f (x # xs) = bnd (f x) (\<lambda>y. bnd (act_map f xs) (\<lambda>ys. ret (y # ys)))"

definition latest_submission :: "int \<Rightarrow> (tx, submission option) act" where
  "latest_submission i =
     (\<lambda>t. case map_of (tx_submissions t) i of
          Some s \<Rightarrow> (Inr (Some s), t)
        | None \<Rightarrow> reads (\<lambda>m. submission_of m i) t)"

definition resolve_submission :: "int \<times> submission_change \<Rightarrow> (tx, unit) act" where
  "resolve_submission = (\<lambda>(i, change).
     bnd (latest_submission i) (\<lambda>found.
       case found of
          None \<Rightarrow> throw (NoSubmission i)
        | Some s \<Rightarrow>
            bnd (given (applySubmissionChange s change)) (\<lambda>s'.
              if s' = s then ret ()
              else changed (\<lambda>t. t\<lparr>tx_submissions := AList.update i s' (tx_submissions t)\<rparr>))))"

text \<open>The checkpoint predicate may turn a delta into a base.\<close>

definition checkpoint_plan :: "doc_plan \<Rightarrow> session_error + doc_plan" where
  "checkpoint_plan p =
     (case (pl_content p, pl_change p) of
        (Some (WChange i (Delta version ops)), Some c) \<Rightarrow>
          (case (ch_loaded c, Option.bind (ch_definition c) df_checkpoint) of
             (Some l, Some predicate) \<Rightarrow>
               and_then (called_back (predicate (ch_value c) (ch_ops c) (lo_deltas l))) (\<lambda>yes.
                 Inr (if yes then p\<lparr>pl_content := Some (WChange i (Base (ch_version c) (ch_value c)))\<rparr> else p))
           | _ \<Rightarrow> Inr p)
      | _ \<Rightarrow> Inr p)"

definition plan_writes :: "doc_plan \<Rightarrow> storage_write list" where
  "plan_writes p =
     (case pl_content p of None \<Rightarrow> [] | Some w \<Rightarrow> [w]) @ (if pl_retire p then [WRetire (pl_id p)] else [])"

definition all_writes :: "tx \<Rightarrow> doc_plan list \<Rightarrow> storage_write list" where
  "all_writes t plans =
     tx_writes t @ map (WSubmission \<circ> snd) (tx_submissions t) @ map WTask (stagedTasks t) @ concat (map plan_writes plans)"

definition assemble :: "(doc_entry \<times> (json list \<times> json) option) list \<Rightarrow> (tx, storage_write list \<times> doc_plan list) act" where
  "assemble docs =
     (let plans = List.map_filter planDocument docs in
      bnd (rejectForkSourceWrites plans) (\<lambda>_.
      bnd validateOwners (\<lambda>_.
      bnd validate_replaced (\<lambda>_.
      bnd (retire_terminal plans) (\<lambda>plans1.
      bnd (act_map own_plan plans1) (\<lambda>plans2.
      bnd (\<lambda>t. act_each resolve_submission (tx_changes t) t) (\<lambda>_.
      bnd (given (each checkpoint_plan plans2)) (\<lambda>plans3 t.
        (Inr (all_writes t plans3, plans3), t)))))))))"

text \<open>\<open>settleSuccess\<close>; \<open>pending\<close> says that an operation was not awaited.\<close>

definition settleSuccess :: "(nat \<Rightarrow> bool) \<Rightarrow> bool \<Rightarrow> (tx, storage_write list \<times> doc_plan list) act" where
  "settleSuccess owned pending =
     bnd (changed (\<lambda>t. t\<lparr>tx_sealed := True\<rparr>)) (\<lambda>_.
       if pending then throw StillPending
       else bnd (\<lambda>t. given (each (prepare_document owned) (tx_documents t)) t) assemble)"

subsection \<open>Adoption\<close>

datatype doc_publication =
    PublishedDocument doc_record "int option" "int option" "json option" "json list"
  | PublishedCopy doc_record "int option" int doc_point

definition adopted_record :: "int \<Rightarrow> doc_plan \<Rightarrow> doc_record" where
  "adopted_record seq p =
     (let r = (case pl_record p of
            OldRecord r \<Rightarrow> r
          | NewRecord r \<Rightarrow> doc_create.extend r \<lparr>dr_created = seq, dr_retired = None\<rparr>)
      in if pl_retire p then r\<lparr>dr_retired := Some seq\<rparr> else r)"

text \<open>What adoption makes of a cached document.\<close>

definition adopted_loaded :: "doc_change \<Rightarrow> storage_write option \<Rightarrow> loaded \<Rightarrow> loaded" where
  "adopted_loaded c content l =
     l\<lparr>lo_value := (if ch_ops c \<noteq> [] then ch_value c else lo_value l),
       lo_stored := (if lo_stored l < ch_version c then ch_version c else lo_stored l),
       lo_deltas := (case content of
            Some (WChange _ (Base _ _)) \<Rightarrow> 0
          | Some (WChange _ (Delta _ _)) \<Rightarrow> lo_deltas l + 1
          | _ \<Rightarrow> lo_deltas l)\<rparr>"

definition update_cached :: "doc_address \<Rightarrow> int \<Rightarrow> (loaded \<Rightarrow> loaded) \<Rightarrow> 's session_scheme \<Rightarrow> 's session_scheme" where
  "update_cached k i f s =
     (case se_documents s k of
        Some l \<Rightarrow> if dc_id (lo_record l) = i then s\<lparr>se_documents := (se_documents s)(k \<mapsto> f l)\<rparr> else s
      | None \<Rightarrow> s)"

definition adopt_change :: "int \<Rightarrow> doc_plan \<Rightarrow> 's session_scheme \<Rightarrow> 's session_scheme" where
  "adopt_change seq p s =
     (case pl_change p of
        None \<Rightarrow> s
      | Some c \<Rightarrow>
          (case ch_loaded c of
             Some l \<Rightarrow> update_cached (lo_address l) (dc_id (lo_record l)) (adopted_loaded c (pl_content p)) s
           | None \<Rightarrow>
               if pl_retire p then s
               else installDocument
                 \<lparr>lo_address = pl_address p, lo_record = adopted_record seq p, lo_stored = ch_version c,
                  lo_version = ch_version c, lo_deltas = 0, lo_value = ch_value c\<rparr> s))"

definition adopt_plan :: "int \<Rightarrow> doc_plan \<Rightarrow> 's session_scheme \<Rightarrow> 's session_scheme" where
  "adopt_plan seq p s =
     (let s1 = adopt_change seq p s in
      if pl_retire p
      then (case pl_record p of OldRecord r \<Rightarrow> evictDocument (pl_address p) (dc_id r) s1 | NewRecord _ \<Rightarrow> s1)
      else s1)"

definition publication_of :: "int \<Rightarrow> doc_plan \<Rightarrow> doc_publication option" where
  "publication_of seq p =
     (if pl_retire p then Some (PublishedDocument (adopted_record seq p) (pl_conversation p) None None [])
      else case (pl_content p, pl_change p) of
          (Some (WCopy _ source pt), _) \<Rightarrow> Some (PublishedCopy (adopted_record seq p) (pl_conversation p) source pt)
        | (_, Some c) \<Rightarrow>
            if publishes p
            then Some (PublishedDocument (adopted_record seq p) (pl_conversation p) (Some (ch_version c))
                   (Some (ch_value c)) (if ch_loaded c = None then [] else ch_ops c))
            else None
        | _ \<Rightarrow> None)"

definition adopt :: "int \<Rightarrow> doc_plan list \<Rightarrow> 's session_scheme \<Rightarrow> doc_publication list \<times> 's session_scheme" where
  "adopt seq plans s = (List.map_filter (publication_of seq) plans, fold (adopt_plan seq) plans s)"

end
