(* ===== verification/Session_Commits.thy ===== *)
theory Session_Commits
  imports Session_Assembly
begin

text \<open>
  Commits of the Session, \<open>#runCommit\<close> of \<open>packages/durable/src/session/session.ts\<close>, and its life: the jobs
  that run on the mutation line one after another. A commit callback is the list of its calls, whose
  errors it may catch, and how it ends. What may go wrong at the commit is the oracle \<open>fault\<close>: a backend that
  throws before or after it committed, another call that fails the Session meanwhile, an adoption that throws.
\<close>

subsection \<open>Reads of a transaction\<close>

definition tx_conversation_read :: "int \<Rightarrow> (tx, conversation option) act" where
  "tx_conversation_read i = tx_read ''conversation'' (reads (\<lambda>m. conversation_of m i))"

definition tx_entry :: "string option \<Rightarrow> int \<Rightarrow> (tx, entry option) act" where
  "tx_entry kind i =
     tx_read ''entry'' (bnd (reads (\<lambda>m. entry_by_id m i)) (\<lambda>found.
       ret (case found of
              None \<Rightarrow> None
            | Some (e, _) \<Rightarrow> if kind = None \<or> kind = Some (en_kind e) then Some e else None)))"

definition tx_task_read :: "int \<Rightarrow> (tx, task option) act" where
  "tx_task_read i = tx_read ''task'' (committedTask i)"

definition tx_scanConversations :: "conversation_query \<Rightarrow> nat \<Rightarrow> cursor option \<Rightarrow> (tx, conversation page) act" where
  "tx_scanConversations q limit cursor = tx_read ''scanConversations'' (reads (\<lambda>m. scanConversations m q limit cursor))"

definition tx_scanEntries :: "entry_query \<Rightarrow> nat \<Rightarrow> cursor option \<Rightarrow> (tx, entry page) act" where
  "tx_scanEntries q limit cursor = tx_read ''scanEntries'' (guard_read (\<lambda>m. scanEntries m q limit cursor))"

definition tx_latestHeadMarker :: "int \<Rightarrow> (tx, entry option) act" where
  "tx_latestHeadMarker c = tx_read ''latestHeadMarker'' (guard_read (\<lambda>m. findLatestHeadMarker m c None))"

definition tx_scanTasks :: "task_query \<Rightarrow> nat \<Rightarrow> cursor option \<Rightarrow> (tx, task page) act" where
  "tx_scanTasks q limit cursor = tx_read ''scanTasks'' (reads (\<lambda>m. scanTasks m q limit cursor))"

definition tx_submission :: "int \<Rightarrow> (tx, submission option) act" where
  "tx_submission i = tx_read ''submission'' (reads (\<lambda>m. submission_of m i))"

definition tx_submissionByRequest :: "int \<Rightarrow> string \<Rightarrow> (tx, submission option) act" where
  "tx_submissionByRequest c r = tx_read ''submissionByRequest'' (reads (\<lambda>m. submissionByRequest m c r))"

subsection \<open>Calls\<close>

datatype tx_call =
    ReadConversation int
  | ReadEntry "string option" int
  | ReadTask int
  | ScanConversations conversation_query nat "cursor option"
  | ScanEntries entry_query nat "cursor option"
  | LatestHeadMarker int
  | ScanTasks task_query nat "cursor option"
  | ReadSubmission int
  | ReadRequest int string
  | CreateConversation conversation_ownership
  | CreateRootConversation
  | ForkConversation int int conversation_ownership
  | AppendEntry int entry_draft
  | CreateTask task_definition json task_options
  | CreateSubmission submission_create
  | SettleSubmission int "int + string \<times> json option"
  | PlaceSubmission int int
  | SetTask task
  | Doc doc_definition doc_args
  | EditDoc nat "json list"
  | RewriteDoc nat "json list"
  | RetireDoc doc_definition doc_args

text \<open>A draft whose edits the tracker emits as one replacement of the root by the edited value: it does so
  beyond 4096 operations, and for edits at a reserved key of the root.\<close>

definition rewrite_draft :: "(nat \<Rightarrow> bool) \<Rightarrow> nat \<Rightarrow> json list \<Rightarrow> (tx, unit) act" where
  "rewrite_draft owned n edits =
     (\<lambda>t. case (if n < length (tx_documents t) then tracked_value (de_target (tx_documents t ! n)) else None) of
          None \<Rightarrow> (Inl HasSettled, t)
        | Some base \<Rightarrow>
            (case prepare_change owned base edits of
               Inl e \<Rightarrow> (Inl e, t)
             | Inr v \<Rightarrow> edit_draft n [JArr [JStr ''r'', v]] t))"

definition ignore :: "('s, 'a) act \<Rightarrow> ('s, unit) act" where
  "ignore f = bnd f (\<lambda>_. ret ())"

fun perform :: "(nat \<Rightarrow> bool) \<Rightarrow> tx_call \<Rightarrow> (tx, unit) act" where
  "perform owned (ReadConversation i) = ignore (tx_conversation_read i)"
| "perform owned (ReadEntry kind i) = ignore (tx_entry kind i)"
| "perform owned (ReadTask i) = ignore (tx_task_read i)"
| "perform owned (ScanConversations q limit cursor) = ignore (tx_scanConversations q limit cursor)"
| "perform owned (ScanEntries q limit cursor) = ignore (tx_scanEntries q limit cursor)"
| "perform owned (LatestHeadMarker c) = ignore (tx_latestHeadMarker c)"
| "perform owned (ScanTasks q limit cursor) = ignore (tx_scanTasks q limit cursor)"
| "perform owned (ReadSubmission i) = ignore (tx_submission i)"
| "perform owned (ReadRequest c r) = ignore (tx_submissionByRequest c r)"
| "perform owned (CreateConversation ownership) = ignore (createConversation ownership)"
| "perform owned CreateRootConversation = ignore createRootConversation"
| "perform owned (ForkConversation parent at_id ownership) = ignore (forkConversation parent at_id ownership)"
| "perform owned (AppendEntry c draft) = ignore (appendEntry c draft)"
| "perform owned (CreateTask d input options) = ignore (createTask d input options)"
| "perform owned (CreateSubmission create) = ignore (createSubmission create)"
| "perform owned (SettleSubmission i settlement) = settleSubmission i settlement"
| "perform owned (PlaceSubmission i e) = placeSubmission i e"
| "perform owned (SetTask v) = setTask v"
| "perform owned (Doc d args) = ignore (doc owned d args)"
| "perform owned (EditDoc n ops) = edit_draft n ops"
| "perform owned (RewriteDoc n edits) = rewrite_draft owned n edits"
| "perform owned (RetireDoc d args) = retireDoc d args"

text \<open>The calls of a callback; the error of one is the callback's to handle, but a call that never
  returns ends it.\<close>

fun run_calls :: "(nat \<Rightarrow> bool) \<Rightarrow> tx_call list \<Rightarrow> (tx, unit) act" where
  "run_calls owned [] = ret ()"
| "run_calls owned (c # cs) =
     (\<lambda>t. case perform owned c t of
          (Inl Endless, t') \<Rightarrow> (Inl Endless, t')
        | (_, t') \<Rightarrow> run_calls owned cs t')"

subsection \<open>The commit\<close>

datatype table_change = ChangedConversation conversation | ChangedEntry entry | ChangedTask task | ChangedSubmission submission

fun table_change_of :: "storage_write \<Rightarrow> table_change option" where
  "table_change_of (WConversation c) = Some (ChangedConversation c)"
| "table_change_of (WEntry e) = Some (ChangedEntry e)"
| "table_change_of (WTask t) = Some (ChangedTask t)"
| "table_change_of (WSubmission s) = Some (ChangedSubmission s)"
| "table_change_of _ = None"

record publication =
  pb_seq :: int
  pb_tables :: "table_change list"
  pb_documents :: "doc_publication list"

fun published_record :: "doc_publication \<Rightarrow> doc_record" where
  "published_record (PublishedDocument r _ _ _ _) = r"
| "published_record (PublishedCopy r _ _ _) = r"

definition publish :: "int \<Rightarrow> storage_write list \<Rightarrow> doc_publication list \<Rightarrow> publication" where
  "publish seq ws docs = \<lparr>pb_seq = seq, pb_tables = List.map_filter table_change_of ws, pb_documents = docs\<rparr>"

text \<open>How a callback ends: the error it throws, if any, and whether it left an operation unawaited.\<close>

record commit_callback =
  cb_conversation :: "int option"
  cb_task :: "int option"
  cb_calls :: "tx_call list"
  cb_throws :: "session_error option"
  cb_pending :: bool

text \<open>The callback and the assembly of its batch, up to the admission by the storage.\<close>

definition run_callback :: "(nat \<Rightarrow> bool) \<Rightarrow> commit_callback \<Rightarrow> (tx, storage_write list \<times> doc_plan list) act" where
  "run_callback owned cb =
     bnd (run_calls owned (cb_calls cb)) (\<lambda>_.
     bnd (check (cb_throws cb)) (\<lambda>_.
     bnd assertHealthy (\<lambda>_. settleSuccess owned (cb_pending cb))))"

text \<open>How the backend takes a batch: it answers, or it throws, perhaps after it committed (the flag), or
  another call fails the Session while this one is underway, whatever this one does.\<close>

datatype backend = Answers | Throws bool store_error | Overtaken bool session_error

record commit_faults =
  fl_backend :: backend
  fl_adopt :: "(nat \<times> session_error) option"     \<comment> \<open>the plan whose adoption throws\<close>

definition no_faults :: commit_faults where
  "no_faults = \<lparr>fl_backend = Answers, fl_adopt = None\<rparr>"

definition backend_commit :: "(nat \<Rightarrow> bool) \<Rightarrow> backend \<Rightarrow> storage_write list \<Rightarrow> store \<Rightarrow> (store_error + int) \<times> store" where
  "backend_commit owned b ws m =
     (case commit owned ws m of
        Inl e \<Rightarrow> (Inl (case b of Throws _ e' \<Rightarrow> e' | _ \<Rightarrow> e), m)
      | Inr (seq, m') \<Rightarrow>
          (case b of
             Answers \<Rightarrow> (Inr seq, m')
           | Throws committed e \<Rightarrow> (Inl e, if committed then m' else m)
           | Overtaken committed _ \<Rightarrow> (Inr seq, if committed then m' else m)))"

text \<open>\<open>GuardedStorage.commit\<close>: no error is exempt, and a Session that failed meanwhile gets nothing of the result.\<close>

definition storage_commit :: "(nat \<Rightarrow> bool) \<Rightarrow> backend \<Rightarrow> storage_write list \<Rightarrow> ('s session_scheme, int) act" where
  "storage_commit owned b ws =
     bnd assertHealthy (\<lambda>_ s.
       if ms_closed (se_store s) then (Inl SessionClosed, s)
       else let (result, m) = backend_commit owned b ws (se_store s);
                s1 = s\<lparr>se_store := m\<rparr>
            in case b of
                 Overtaken _ f \<Rightarrow> (Inl (FailedBefore f), fail_session f s1)
               | _ \<Rightarrow> (case result of
                   Inl e \<Rightarrow> (Inl (StorageThrew e), fail_session (StorageThrew e) s1)
                 | Inr seq \<Rightarrow> (Inr seq, s1)))"

text \<open>The adoption of a committed batch; one that throws leaves the plans after it and fails the Session.\<close>

definition adopt_or_fail ::
    "(nat \<times> session_error) option \<Rightarrow> int \<Rightarrow> doc_plan list \<Rightarrow> ('s session_scheme, doc_publication list) act" where
  "adopt_or_fail fault seq plans =
     (\<lambda>s. case fault of
          None \<Rightarrow> (let (docs, s') = adopt seq plans s in (Inr docs, s'))
        | Some (n, e) \<Rightarrow> (Inl e, fail_session e (snd (adopt seq (take n plans) s))))"

definition runCommit :: "(nat \<Rightarrow> bool) \<Rightarrow> commit_faults \<Rightarrow> commit_callback \<Rightarrow> (session, publication option) act" where
  "runCommit owned fault cb =
     bnd assertHealthy (\<lambda>_ s.
       case run_callback owned cb (new_tx (cb_conversation cb) (cb_task cb) s) of
          (Inl Endless, t) \<Rightarrow> (Inl Endless, session.truncate t)
        | (Inl e, t) \<Rightarrow> (Inl e, sweepDocuments (session.truncate t))
        | (Inr (ws, plans), t) \<Rightarrow>
            if ws = [] then (Inr None, sweepDocuments (session.truncate t))
            else bnd (storage_commit owned (fl_backend fault) ws) (\<lambda>seq.
              bnd (adopt_or_fail (fl_adopt fault) seq plans) (\<lambda>docs s1.
                (Inr (Some (publish seq ws docs)),
                 sweepDocuments (fold (\<lambda>d. touchDocument (addressId (published_record d))) docs s1))))
              (session.truncate t))"

definition commitWith :: "(nat \<Rightarrow> bool) \<Rightarrow> commit_faults \<Rightarrow> commit_callback \<Rightarrow> (session, publication option) act" where
  "commitWith owned fault cb = bnd session_usable (\<lambda>_. runCommit owned fault cb)"

subsection \<open>The life of a Session\<close>

text \<open>What the host may do: every definition comes from \<open>defineDoc\<close> and its callbacks give the objects that
  their types promise. \<open>D\<close> holds the definitions in use.\<close>

definition definition_ok :: "doc_definition \<Rightarrow> bool" where
  "definition_ok d \<longleftrightarrow>
     validateDefinition d = None
     \<and> (\<forall>seed v. df_initial d seed = Some v \<longrightarrow> is_JObj v)
     \<and> (\<forall>migrate v n w. df_migrate d = Some migrate \<longrightarrow> migrate v n = Some w \<longrightarrow> is_JObj w)"

text \<open>Two definitions of one kind and version read a stored value alike.\<close>

definition definitions_ok :: "doc_definition set \<Rightarrow> bool" where
  "definitions_ok D \<longleftrightarrow>
     (\<forall>d \<in> D. definition_ok d)
     \<and> (\<forall>d \<in> D. \<forall>d' \<in> D. df_kind d = df_kind d' \<longrightarrow> df_version d = df_version d' \<longrightarrow> df_migrate d = df_migrate d')"

text \<open>The edits of a draft happen inside its root: they have a path. What the tracker emits for them is the
  list itself (\<open>EditDoc\<close>) or one replacement of the root by the value they lead to (\<open>RewriteDoc\<close>).\<close>

definition pathed :: "json \<Rightarrow> bool" where
  "pathed raw \<longleftrightarrow> (\<forall>oper. assertValidOp raw = Inr oper \<longrightarrow> \<not> isReplace oper)"

fun call_ok :: "doc_definition set \<Rightarrow> tx_call \<Rightarrow> bool" where
  "call_ok D (Doc d args) = (d \<in> D)"
| "call_ok D (RetireDoc d args) = (d \<in> D)"
| "call_ok D (EditDoc n ops) = list_all pathed ops"
| "call_ok D (RewriteDoc n edits) = list_all pathed edits"
| "call_ok D _ = True"

inductive session_step :: "(nat \<Rightarrow> bool) \<Rightarrow> doc_definition set \<Rightarrow> session \<Rightarrow> session \<Rightarrow> bool" for owned D where
  Commit: "list_all (call_ok D) (cb_calls cb) \<Longrightarrow> commitWith owned fault cb s = (r, s') \<Longrightarrow> session_step owned D s s'"
| Snapshot: "d \<in> D \<Longrightarrow> snapshot owned d args s = (r, s') \<Longrightarrow> session_step owned D s s'"
| SnapshotAsOf: "snapshotAsOf owned d args i s = (r', s') \<Longrightarrow> session_step owned D s s'"
| Attach: "d \<in> D \<Longrightarrow> attachDocument owned d args s = (r'', s') \<Longrightarrow> session_step owned D s s'"
| Detach: "ms_documents (se_store s) i = Some x \<Longrightarrow> session_step owned D s (unpinDocument (recordAddressKey (ds_record x)) i s)"
| Sweep: "session_step owned D s (sweepDocuments s)"
| Unload: "session_step owned D s (unloadDocuments s)"
| Environment: "session_step owned D s (s\<lparr>se_now := now, se_retention := retention\<rparr>)"
| Seal: "session_step owned D s (seal_session s)"
| Fail: "session_step owned D s (fail_session e s)"
| Close: "se_closing s \<Longrightarrow> session_step owned D s (close_job s)"

text \<open>The loops of the storage and of a fork evaluate by their equations.\<close>

declare collect_pages.simps [code]
declare scanAll.simps [code]
declare fork_segments.simps [code]
declare entries_desc.simps [code]
declare head_marker.simps [code]

end
