(* ===== verification/Session_Actions.thy ===== *)
theory Session_Actions
  imports Session_Commits Jsonl_Commit
begin

text \<open>
  Reasoning about the actions of the Session: triples with a postcondition for a result and an invariant
  for an error, and the store an action may leave: the one it found, but for minted IDs.
\<close>

named_theorems act_rules \<open>triples of the actions\<close>

subsection \<open>Triples\<close>

definition triple :: "('s \<Rightarrow> bool) \<Rightarrow> ('s, 'a) act \<Rightarrow> ('a \<Rightarrow> 's \<Rightarrow> bool) \<Rightarrow> ('s \<Rightarrow> bool) \<Rightarrow> bool" where
  "triple P f Q I \<longleftrightarrow> (\<forall>s. P s \<longrightarrow> (case f s of (Inr x, s') \<Rightarrow> Q x s' | (Inl e, s') \<Rightarrow> I s'))"

lemma tripleI:
  assumes "\<And>s x s'. P s \<Longrightarrow> f s = (Inr x, s') \<Longrightarrow> Q x s'" "\<And>s e s'. P s \<Longrightarrow> f s = (Inl e, s') \<Longrightarrow> I s'"
  shows "triple P f Q I"
  using assms by (auto simp: triple_def split: prod.split sum.split)

lemma tripleD:
  "triple P f Q I \<Longrightarrow> P s \<Longrightarrow> f s = (Inr x, s') \<Longrightarrow> Q x s'"
  "triple P f Q I \<Longrightarrow> P s \<Longrightarrow> f s = (Inl e, s') \<Longrightarrow> I s'"
  by (auto simp: triple_def)

lemma triple_after: "triple P f (\<lambda>_. I) I \<Longrightarrow> P s \<Longrightarrow> I (snd (f s))"
  by (cases "f s"; cases "fst (f s)") (auto dest: tripleD)

lemma triple_conseq:
  "triple P' f Q' I' \<Longrightarrow> (\<And>s. P s \<Longrightarrow> P' s) \<Longrightarrow> (\<And>x s. Q' x s \<Longrightarrow> Q x s) \<Longrightarrow> (\<And>s. I' s \<Longrightarrow> I s) \<Longrightarrow> triple P f Q I"
  unfolding triple_def by (fastforce split: prod.splits sum.splits)

lemma triple_pre: "(\<And>s. P s \<Longrightarrow> P' s) \<Longrightarrow> triple P' f Q I \<Longrightarrow> triple P f Q I"
  by (rule triple_conseq)

lemma triple_bnd [act_rules]:
  "triple P f Q I \<Longrightarrow> (\<And>x. triple (Q x) (g x) R I) \<Longrightarrow> triple P (bnd f g) R I"
  unfolding triple_def bnd_def by (fastforce split: prod.splits sum.splits)

lemma triple_ret: "(\<And>s. P s \<Longrightarrow> Q x s) \<Longrightarrow> triple P (ret x) Q I"
  by (simp add: triple_def ret_def)

lemma triple_throw: "(\<And>s. P s \<Longrightarrow> I s) \<Longrightarrow> triple P (throw e) Q I"
  by (simp add: triple_def throw_def)

lemma triple_check:
  "(\<And>s. P s \<Longrightarrow> e = None \<Longrightarrow> Q () s) \<Longrightarrow> (\<And>s. P s \<Longrightarrow> I s) \<Longrightarrow> triple P (check e) Q I"
  by (auto simp: triple_def check_def ret_def throw_def split: option.split)

lemma triple_given:
  "(\<And>s x. P s \<Longrightarrow> r = Inr x \<Longrightarrow> Q x s) \<Longrightarrow> (\<And>s. P s \<Longrightarrow> I s) \<Longrightarrow> triple P (given r) Q I"
  by (auto simp: triple_def given_def split: sum.split)

lemma triple_changed: "(\<And>s. P s \<Longrightarrow> Q () (f s)) \<Longrightarrow> triple P (changed f) Q I"
  by (simp add: triple_def changed_def)

lemma triple_at: "(\<And>s. P s \<Longrightarrow> triple ((=) s) (f s) Q I) \<Longrightarrow> triple P (\<lambda>s. f s s) Q I"
  by (fastforce simp: triple_def)

lemma triple_each:
  assumes "\<And>x. x \<in> set xs \<Longrightarrow> triple P (f x) (\<lambda>_. P) I" "\<And>s. P s \<Longrightarrow> I s"
  shows "triple P (act_each f xs) (\<lambda>_. P) I"
  using assms(1)
proof (induction xs)
  case (Cons x xs)
  have "triple P (f x) (\<lambda>_. P) I" "triple P (act_each f xs) (\<lambda>_. P) I" using Cons by auto
  then show ?case unfolding act_each.simps by (rule triple_bnd)
qed (simp add: triple_ret)

subsection \<open>Health and storage calls\<close>

lemma triple_healthy: "(\<And>s. P s \<Longrightarrow> se_failure s = None \<Longrightarrow> Q () s) \<Longrightarrow> (\<And>s. P s \<Longrightarrow> I s) \<Longrightarrow> triple P assertHealthy Q I"
  by (auto simp: triple_def assertHealthy_def split: option.split)

lemma triple_usable:
  assumes "\<And>s. P s \<Longrightarrow> se_failure s = None \<Longrightarrow> \<not> se_closing s \<Longrightarrow> Q () s" "\<And>s. P s \<Longrightarrow> I s"
  shows "triple P session_usable Q I"
  unfolding session_usable_def
  by (rule triple_bnd[OF triple_healthy[where Q = "\<lambda>_ s. P s \<and> se_failure s = None"]])
    (use assms in \<open>auto simp: triple_def\<close>)

lemma guard_healthy:
  "se_failure s = None \<Longrightarrow> \<not> ms_closed (se_store s) \<Longrightarrow>
     reads run s = (case run (se_store s) of
        Inl e \<Rightarrow> (Inl (StorageThrew e), if is_request_error e then s else fail_session (StorageThrew e) s)
      | Inr x \<Rightarrow> (Inr x, s))"
  "\<not> (se_failure s = None \<and> \<not> ms_closed (se_store s)) \<Longrightarrow> \<exists>e. reads run s = (Inl e, s)"
  by (auto simp: reads_def guard_read_def bnd_def assertHealthy_def split: option.split sum.split)

lemma triple_guard_read:
  assumes "\<And>s x. P s \<Longrightarrow> run (se_store s) = Some (Inr x) \<Longrightarrow> Q x s"
    and "\<And>s. P s \<Longrightarrow> I s" "\<And>s e. P s \<Longrightarrow> I (fail_session e s)"
  shows "triple P (guard_read run) Q I"
  unfolding guard_read_def
  by (rule triple_bnd[OF triple_healthy[where Q = "\<lambda>_. P"]])
    (use assms in \<open>auto simp: triple_def split: option.split sum.split\<close>)

lemma triple_reads:
  assumes "\<And>s x. P s \<Longrightarrow> run (se_store s) = Inr x \<Longrightarrow> Q x s"
    and "\<And>s. P s \<Longrightarrow> I s" "\<And>s e. P s \<Longrightarrow> I (fail_session e s)"
  shows "triple P (reads run) Q I"
  unfolding reads_def by (rule triple_guard_read) (use assms in auto)

lemma triple_mint:
  assumes "\<And>s. P s \<Longrightarrow> \<not> ms_closed (se_store s) \<Longrightarrow> \<bar>ms_nextId (se_store s)\<bar> \<le> max_safe \<Longrightarrow>
      Q (ms_nextId (se_store s)) (s\<lparr>se_store := (se_store s)\<lparr>ms_nextId := ms_nextId (se_store s) + 1\<rparr>\<rparr>)"
    and "\<And>s. P s \<Longrightarrow> I s" "\<And>s e. P s \<Longrightarrow> I (fail_session e s)"
  shows "triple P mint Q I"
  unfolding mint_def guard_write_def
  by (rule triple_bnd[OF triple_healthy[where Q = "\<lambda>_. P"]])
    (use assms in \<open>auto simp: triple_def mintId_def assertOpen_def split: sum.split prod.split if_splits\<close>)

subsection \<open>Minted IDs\<close>

definition minted :: "store \<Rightarrow> store \<Rightarrow> bool" where
  "minted m m' \<longleftrightarrow> (\<exists>n \<ge> ms_nextId m. m' = m\<lparr>ms_nextId := n\<rparr>)"

lemma minted_refl [simp]: "minted m m"
  by (auto simp: minted_def intro: exI[of _ "ms_nextId m"])

lemma minted_trans: "minted m m' \<Longrightarrow> minted m' m'' \<Longrightarrow> minted m m''"
  unfolding minted_def
proof (elim exE conjE)
  fix n n' assume "ms_nextId m \<le> n" "m' = m\<lparr>ms_nextId := n\<rparr>" "ms_nextId m' \<le> n'" "m'' = m'\<lparr>ms_nextId := n'\<rparr>"
  then have "ms_nextId m \<le> n' \<and> m'' = m\<lparr>ms_nextId := n'\<rparr>" by simp
  then show "\<exists>n \<ge> ms_nextId m. m'' = m\<lparr>ms_nextId := n\<rparr>" by blast
qed

lemma minted_next: "minted m (m\<lparr>ms_nextId := ms_nextId m + 1\<rparr>)"
  unfolding minted_def by (rule exI[of _ "ms_nextId m + 1"]) simp

lemma minted_fields:
  assumes "minted m m'"
  shows "ms_types m' = ms_types m" "ms_conversations m' = ms_conversations m" "ms_entries m' = ms_entries m"
    "ms_tasks m' = ms_tasks m" "ms_submissions m' = ms_submissions m" "ms_documents m' = ms_documents m"
    "ms_closed m' = ms_closed m" "ms_nextSeq m' = ms_nextSeq m" "current_of m' = current_of m"
    "ms_conversationIds m' = ms_conversationIds m" "ms_entryIds m' = ms_entryIds m" "ms_nextId m \<le> ms_nextId m'"
proof -
  from assms obtain n where n: "m' = m\<lparr>ms_nextId := n\<rparr>" "ms_nextId m \<le> n" unfolding minted_def by blast
  show "ms_types m' = ms_types m" "ms_conversations m' = ms_conversations m" "ms_entries m' = ms_entries m"
    "ms_tasks m' = ms_tasks m" "ms_submissions m' = ms_submissions m" "ms_documents m' = ms_documents m"
    "ms_closed m' = ms_closed m" "ms_nextSeq m' = ms_nextSeq m" "current_of m' = current_of m"
    "ms_conversationIds m' = ms_conversationIds m" "ms_entryIds m' = ms_entryIds m"
    by (simp_all add: n current_of_def fun_eq_iff)
  show "ms_nextId m \<le> ms_nextId m'" using n by simp
qed

lemma minted_ok: "minted m m' \<Longrightarrow> store_ok m \<Longrightarrow> store_ok m'"
  by (auto simp: minted_def intro: counters_store_ok(1))

lemma failed_fields [simp]:
  "se_store (fail_session e s) = se_store s" "se_documents (fail_session e s) = se_documents s"
  "se_idle (fail_session e s) = se_idle s" "se_attached (fail_session e s) = se_attached s"
  "se_now (fail_session e s) = se_now s" "se_retention (fail_session e s) = se_retention s"
  by (simp_all add: fail_session_def)

end
