(* ===== verification/Session_Invariant.thy ===== *)
theory Session_Invariant
  imports Session_Actions
begin

text \<open>
  The invariant of the Session: a well-formed store whose IDs are safe integers, whose documents replay
  to objects, whose live task documents have a live task, whose owners exist and whose forks end; a cache
  that agrees with the store; and idle documents that are exactly the cached ones nobody observes.
\<close>

subsection \<open>The store\<close>

definition ids_safe :: "store \<Rightarrow> bool" where
  "ids_safe m \<longleftrightarrow> (\<forall>i. ms_types m i \<noteq> None \<longrightarrow> 1 \<le> i \<and> i \<le> max_safe)"

definition version_safe :: "int \<Rightarrow> bool" where
  "version_safe v \<longleftrightarrow> 1 \<le> v \<and> v \<le> max_safe"

definition plays_object :: "(content \<times> int) list \<Rightarrow> bool" where
  "plays_object revs \<longleftrightarrow> (\<exists>v x. play_all revs = Some (v, Inr (Some x)) \<and> is_JObj x \<and> version_safe v)"

definition plays_objects :: "(content \<times> int) list \<Rightarrow> bool" where
  "plays_objects revs \<longleftrightarrow> (\<forall>pre. prefix pre revs \<longrightarrow> pre \<noteq> [] \<longrightarrow> plays_object pre)"

definition contents_ok :: "store \<Rightarrow> bool" where
  "contents_ok m \<longleftrightarrow> (\<forall>i d. ms_documents m i = Some d \<longrightarrow> plays_objects (ds_revisions d))"

definition live_task :: "store \<Rightarrow> int \<Rightarrow> bool" where
  "live_task m i \<longleftrightarrow> (\<exists>k. ms_tasks m i = Some k \<and> tk_status k \<noteq> TTerminal)"

definition task_documents_ok :: "store \<Rightarrow> bool" where
  "task_documents_ok m \<longleftrightarrow>
     (\<forall>i d t. ms_documents m i = Some d \<longrightarrow> dr_retired (ds_record d) = None \<longrightarrow> dc_scope (ds_record d) = TaskScope t
        \<longrightarrow> live_task m t)"

definition owners_known :: "store \<Rightarrow> bool" where
  "owners_known m \<longleftrightarrow>
     (\<forall>c v oc ot. ms_conversations m c = Some v \<longrightarrow> cv_owner v = Some (oc, ot) \<longrightarrow> ms_tasks m ot \<noteq> None)"

definition forks_known :: "store \<Rightarrow> bool" where
  "forks_known m \<longleftrightarrow>
     (\<forall>c v p a. ms_conversations m c = Some v \<longrightarrow> cv_parent v = Some (p, a) \<longrightarrow>
        p < c \<and> ms_conversations m p \<noteq> None \<and> ms_entries m a \<noteq> None
        \<and> (\<forall>i e. ms_entries m i = Some e \<longrightarrow> en_conversation e = c \<longrightarrow> a < i))"

definition entries_known :: "store \<Rightarrow> bool" where
  "entries_known m \<longleftrightarrow> (\<forall>i e. ms_entries m i = Some e \<longrightarrow> ms_conversations m (en_conversation e) \<noteq> None)"

definition documents_known :: "store \<Rightarrow> bool" where
  "documents_known m \<longleftrightarrow>
     (\<forall>i d c. ms_documents m i = Some d \<longrightarrow> dc_scope (ds_record d) = ConversationScope c \<longrightarrow> ms_conversations m c \<noteq> None)"

definition kernel_ok :: "store \<Rightarrow> bool" where
  "kernel_ok m \<longleftrightarrow>
     store_ok m \<and> ids_safe m \<and> contents_ok m \<and> task_documents_ok m \<and> owners_known m \<and> forks_known m
     \<and> entries_known m \<and> documents_known m"

lemmas kernel_defs = kernel_ok_def ids_safe_def contents_ok_def task_documents_ok_def owners_known_def forks_known_def
  live_task_def entries_known_def documents_known_def

lemma kernel_minted: "minted m m' \<Longrightarrow> kernel_ok m \<Longrightarrow> kernel_ok m'"
  using minted_ok[of m m'] minted_fields[of m m']
  unfolding kernel_defs
  by simp

lemma kernel_closed: "kernel_ok m \<Longrightarrow> kernel_ok (close_store m)"
  using counters_store_ok(2)[of m]
  unfolding kernel_defs
  by (simp add: close_store_def)

lemma kernel_new: "kernel_ok new_store"
  using new_store_ok
  by (simp add: kernel_defs new_store_def)

lemma forks_known_ok: "store_ok m \<Longrightarrow> forks_known m \<Longrightarrow> forks_ok m"
  unfolding forks_ok_def list_all_iff
proof
  fix c assume ok: "store_ok m" and forks: "forks_known m"
  show "case Option.bind (ms_conversations m c) cv_parent of None \<Rightarrow> True | Some p \<Rightarrow> fork_ok m c p"
  proof (cases "Option.bind (ms_conversations m c) cv_parent")
    case (Some pa)
    obtain p a where pa: "pa = (p, a)" by (cases pa)
    from Some obtain v where v: "ms_conversations m c = Some v" "cv_parent v = Some (p, a)"
      by (auto simp: pa bind_eq_Some_conv)
    from ok have ind: "ids.indexes (ids_at (ms_entryIds m)) (keyed (Some \<circ> en_conversation) (ms_entries m))"
      by (simp add: store_ok_def tables_ok_def entries_ok_def)
    have "a < i" if "i \<in> set (ids_at (ms_entryIds m) c)" for i
    proof -
      from ind that have "keyed (Some \<circ> en_conversation) (ms_entries m) i = Some c"
        by (simp add: ids.indexes_def lists_ids_def)
      then obtain e where "ms_entries m i = Some e" "en_conversation e = c"
        by (auto simp: keyed_def bind_eq_Some_conv)
      with forks v show "a < i" unfolding forks_known_def by blast
    qed
    with forks v show ?thesis unfolding forks_known_def pa by (auto simp: fork_ok_def list_all_iff pa bind_eq_Some_conv)
  qed simp
qed

subsection \<open>Reading a document\<close>

lemma plays_last: "plays_objects revs \<Longrightarrow> revs \<noteq> [] \<Longrightarrow> plays_object revs"
  by (simp add: plays_objects_def)

lemma plays_objects_Nil [simp]: "plays_objects []"
  by (simp add: plays_objects_def)

lemma plays_objects_snoc: "plays_objects (revs @ [r]) \<longleftrightarrow> plays_objects revs \<and> plays_object (revs @ [r])"
  unfolding plays_objects_def prefix_snoc by blast

text \<open>A read of a live document gives its record and what its revisions play to.\<close>

lemma live_revisions:
  assumes "store_ok m" "ms_documents m i = Some d" "dr_retired (ds_record d) = None"
  shows "ds_revisions d \<noteq> []" "versions_ok (map fst (ds_revisions d))" "dc_id (ds_record d) = i"
proof -
  from assms have "doc_ok (ms_nextSeq m) d" "dc_id (ds_record d) = i"
    unfolding store_ok_def documents_ok_def by blast+
  with assms(3) show "versions_ok (map fst (ds_revisions d))" "dc_id (ds_record d) = i" by (auto simp: doc_ok_def)
  then show "ds_revisions d \<noteq> []" by (auto simp: versions_ok_def)
qed

lemma read_live:
  assumes "kernel_ok m" "\<not> ms_closed m" "ms_documents m i = Some d" "dr_retired (ds_record d) = None"
  obtains v x where "play_all (ds_revisions d) = Some (v, Inr (Some x))" "is_JObj x" "version_safe v"
    "document owned m i Current = Inr (Some \<lparr>sd_record = ds_record d, sd_version = v, sd_value = x,
        sd_deltas = length (snd (the (last_base (ds_revisions d))))\<rparr>)"
proof -
  from assms(1) have ok: "store_ok m" and con: "contents_ok m" by (simp_all add: kernel_ok_def)
  note live = live_revisions[OF ok assms(3,4)]
  from con assms(3) have "plays_objects (ds_revisions d)" by (simp add: contents_ok_def)
  from plays_last[OF this live(1)] obtain v x where
    v: "play_all (ds_revisions d) = Some (v, Inr (Some x))" "is_JObj x" "version_safe v"
    by (auto simp: plays_object_def)
  from v(1) materialize_cases(1)[OF ok, of owned i Current "\<lparr>sd_record = ds_record d, sd_version = v, sd_value = x,
        sd_deltas = length (snd (the (last_base (ds_revisions d))))\<rparr>"] assms(3,4)
  have "materializeDocument owned m i Current = Inr (Some \<lparr>sd_record = ds_record d, sd_version = v, sd_value = x,
        sd_deltas = length (snd (the (last_base (ds_revisions d))))\<rparr>)"
    by (auto simp: readable_def visible_revisions_def as_root_def)
  with v that assms(2) show thesis by (simp add: document_def assertOpen_def)
qed

text \<open>What a read returns, read backwards.\<close>

lemma document_read:
  assumes "kernel_ok m" "document owned m i p = Inr (Some sd)"
  obtains d where "ms_documents m i = Some d" "ds_record d = sd_record sd" "is_JObj (sd_value sd)"
    "version_safe (sd_version sd)" "p = Current \<Longrightarrow> dr_retired (ds_record d) = None"
    "p = Current \<Longrightarrow> play_all (ds_revisions d) = Some (sd_version sd, Inr (Some (sd_value sd)))"
    "p = Current \<Longrightarrow> sd_deltas sd = length (snd (the (last_base (ds_revisions d))))"
proof -
  from assms(1) have ok: "store_ok m" and con: "contents_ok m" by (simp_all add: kernel_ok_def)
  from assms(2) have "materializeDocument owned m i p = Inr (Some sd)"
    by (auto simp: document_def assertOpen_def split: if_splits)
  with materialize_cases(1)[OF ok] obtain d t where d: "ms_documents m i = Some d" "readable p d"
    "play_all (visible_revisions p (ds_revisions d)) = Some (sd_version sd, Inr t)"
    "sd = \<lparr>sd_record = ds_record d, sd_version = sd_version sd, sd_value = as_root t,
             sd_deltas = length (snd (the (last_base (visible_revisions p (ds_revisions d)))))\<rparr>"
    by blast
  from ok d(1) have dok: "doc_ok (ms_nextSeq m) d" by (simp add: store_ok_def documents_ok_def)
  have "\<exists>suf. ds_revisions d = visible_revisions p (ds_revisions d) @ suf"
  proof (cases p)
    case (AtSeq s)
    from dok have "sorted_wrt (<) (map snd (ds_revisions d))" by (simp add: doc_ok_def)
    then have "filter (\<lambda>(_, t). t \<le> s) revs @ filter (\<lambda>(_, t). \<not> t \<le> s) revs = revs" if "revs = ds_revisions d" for revs
      unfolding that
    proof (induction "ds_revisions d" arbitrary: d)
      case (Cons r revs)
      have "filter (\<lambda>(_, t). t \<le> s) revs = []" if "\<not> snd r \<le> s"
        using Cons.prems that unfolding Cons.hyps(2)[symmetric] by (fastforce simp: filter_empty_conv)
      moreover have "filter (\<lambda>(_, t). t \<le> s) revs @ filter (\<lambda>(_, t). \<not> t \<le> s) revs = revs"
        using Cons.hyps(1)[of "\<lparr>ds_record = ds_record d, ds_revisions = revs\<rparr>"] Cons.prems
        unfolding Cons.hyps(2)[symmetric] by simp
      ultimately show ?case unfolding Cons.hyps(2)[symmetric] by (cases r) auto
    qed simp
    from this[OF refl, symmetric] show ?thesis unfolding AtSeq visible_revisions_def by auto
  qed (simp add: visible_revisions_def)
  moreover have "visible_revisions p (ds_revisions d) \<noteq> []" using d(3) by (auto simp: play_all_def)
  ultimately have "plays_object (visible_revisions p (ds_revisions d))"
    using con d(1) unfolding contents_ok_def plays_objects_def prefix_def by blast
  with d(3) have t: "t = Some (as_root t)" "is_JObj (as_root t)" "version_safe (sd_version sd)"
    by (auto simp: plays_object_def as_root_def)
  have fields: "ds_record d = sd_record sd" "sd_value sd = as_root t"
    "sd_deltas sd = length (snd (the (last_base (visible_revisions p (ds_revisions d)))))"
    by (subst d(4), simp)+
  show thesis
    by (rule that[OF d(1)]) (use d(2,3) fields t in \<open>auto simp: readable_def visible_revisions_def\<close>)
qed

lemma find_live:
  assumes "store_ok m" "findDocument m k Current = Inr (Some r)"
  obtains d where "ms_documents m (dc_id r) = Some d" "ds_record d = r" "recordAddressKey r = k" "dr_retired r = None"
    "current_of m k = Some (dc_id r)"
proof -
  from assms(2) obtain i d where d: "current_of m k = Some i" "ms_documents m i = Some d" "r = ds_record d"
    by (auto simp: findDocument_def assertOpen_def split: if_splits option.splits)
  from assms(1) d(1) have "live_at m i k" unfolding store_ok_def addresses_ok_def by blast
  then obtain d' where "ms_documents m i = Some d'" "recordAddressKey (ds_record d') = k" "dr_retired (ds_record d') = None"
    unfolding live_at_def by blast
  with d have live: "recordAddressKey r = k" "dr_retired r = None" by simp_all
  from assms(1) d have "dc_id r = i" unfolding store_ok_def documents_ok_def by blast
  with d live that show thesis by blast
qed

subsection \<open>The cache\<close>

text \<open>The tracked value: the stored one, or what a definition in use migrates it to.\<close>

definition shaped :: "doc_definition set \<Rightarrow> loaded \<Rightarrow> json \<Rightarrow> bool" where
  "shaped D l x \<longleftrightarrow>
     (if lo_version l = lo_stored l then lo_value l = x
      else lo_stored l < lo_version l
        \<and> (\<exists>d \<in> D. \<exists>g. df_kind d = dc_kind (lo_record l) \<and> df_version d = lo_version l \<and> df_migrate d = Some g
             \<and> g x (lo_stored l) = Some (lo_value l)))"

definition cached_ok :: "doc_definition set \<Rightarrow> store \<Rightarrow> doc_address \<Rightarrow> loaded \<Rightarrow> bool" where
  "cached_ok D m k l \<longleftrightarrow>
     lo_address l = k \<and> recordAddressKey (lo_record l) = k \<and> dr_retired (lo_record l) = None
     \<and> is_JObj (lo_value l) \<and> version_safe (lo_version l)
     \<and> (\<exists>d x. ms_documents m (dc_id (lo_record l)) = Some d \<and> ds_record d = lo_record l
          \<and> play_all (ds_revisions d) = Some (lo_stored l, Inr (Some x))
          \<and> lo_deltas l = length (snd (the (last_base (ds_revisions d)))) \<and> shaped D l x)"

definition cache_ok :: "doc_definition set \<Rightarrow> 's session_scheme \<Rightarrow> bool" where
  "cache_ok D s \<longleftrightarrow> (\<forall>k l. se_documents s k = Some l \<longrightarrow> cached_ok D (se_store s) k l)"

definition observed :: "'s session_scheme \<Rightarrow> loaded \<Rightarrow> bool" where
  "observed s l \<longleftrightarrow> se_attached s (dc_id (lo_record l)) \<noteq> None"

definition idle_ok :: "'s session_scheme \<Rightarrow> bool" where
  "idle_ok s \<longleftrightarrow>
     distinct (map fst (se_idle s))
     \<and> (\<forall>k. k \<in> fst ` set (se_idle s) \<longleftrightarrow> (\<exists>l. se_documents s k = Some l \<and> \<not> observed s l))
     \<and> (\<forall>i. se_attached s i \<noteq> None \<longrightarrow> ms_types (se_store s) i \<noteq> None)"

definition session_ok :: "doc_definition set \<Rightarrow> 's session_scheme \<Rightarrow> bool" where
  "session_ok D s \<longleftrightarrow> kernel_ok (se_store s) \<and> cache_ok D s \<and> idle_ok s"

lemma session_okD:
  assumes "session_ok D s"
  shows "kernel_ok (se_store s)" "store_ok (se_store s)"
    "se_documents s k = Some l \<Longrightarrow> cached_ok D (se_store s) k l" "idle_ok s"
  using assms by (auto simp: session_ok_def kernel_ok_def cache_ok_def)

text \<open>The invariant looks at four fields.\<close>

definition same_cache :: "'s session_scheme \<Rightarrow> 't session_scheme \<Rightarrow> bool" where
  "same_cache s t \<longleftrightarrow> se_store t = se_store s \<and> se_documents t = se_documents s \<and> se_idle t = se_idle s
     \<and> se_attached t = se_attached s"

lemma session_ok_cong: "same_cache s t \<Longrightarrow> session_ok D t = session_ok D s"
  by (simp add: same_cache_def session_ok_def cache_ok_def idle_ok_def observed_def)

lemma session_ok_fail [simp]: "session_ok D (fail_session e s) = session_ok D s"
  by (rule session_ok_cong) (simp add: same_cache_def)

lemma session_ok_minted:
  assumes "session_ok D s" "minted (se_store s) m"
  shows "session_ok D (s\<lparr>se_store := m\<rparr>)"
  using assms minted_fields[OF assms(2)] kernel_minted[OF assms(2)]
  by (simp add: session_ok_def cache_ok_def cached_ok_def idle_ok_def observed_def)

subsection \<open>The operations of the cache\<close>

lemma map_fst_filter: "map fst (filter (\<lambda>(k', _). k' \<noteq> k) xs) = filter (\<lambda>k'. k' \<noteq> k) (map fst xs)"
  by (induction xs) auto

lemma fst_filter: "fst ` set (filter (\<lambda>(k', _). k' \<noteq> k) xs) = fst ` set xs - {k}"
  by force

lemma touch_fields [simp]:
  "se_store (touchDocument k s) = se_store s" "se_documents (touchDocument k s) = se_documents s"
  "se_attached (touchDocument k s) = se_attached s" "se_failure (touchDocument k s) = se_failure s"
  "se_now (touchDocument k s) = se_now s"
  by (auto simp: touchDocument_def split: option.split)

lemma touch_idle:
  assumes "distinct (map fst (se_idle s))"
  shows "distinct (map fst (se_idle (touchDocument k s)))"
    "fst ` set (se_idle (touchDocument k s)) =
       fst ` set (se_idle s) \<union> (case se_documents s k of None \<Rightarrow> {} | Some l \<Rightarrow> if observed s l then {} else {k})"
proof -
  have mem: "k \<in> fst ` set (se_idle s)" if "map_of (se_idle s) k = Some since" for since
    using that by (force dest: map_of_SomeD)
  show "distinct (map fst (se_idle (touchDocument k s)))"
    using assms by (auto simp: touchDocument_def map_fst_filter distinct_filter fst_filter simp del: map_map split: option.split)
  show "fst ` set (se_idle (touchDocument k s)) =
       fst ` set (se_idle s) \<union> (case se_documents s k of None \<Rightarrow> {} | Some l \<Rightarrow> if observed s l then {} else {k})"
    using mem by (auto simp: touchDocument_def observed_def fst_filter image_Un split: option.split)
qed

lemma touch_ok: "session_ok D s \<Longrightarrow> session_ok D (touchDocument k s)"
  unfolding session_ok_def cache_ok_def idle_ok_def observed_def
  using touch_idle[of s k] by (auto simp: observed_def split: option.splits)

lemma drop_fields [simp]:
  "se_store (dropDocument k s) = se_store s" "se_documents (dropDocument k s) = (se_documents s)(k := None)"
  "se_attached (dropDocument k s) = se_attached s" "se_idle (dropDocument k s) = filter (\<lambda>(k', _). k' \<noteq> k) (se_idle s)"
  "se_failure (dropDocument k s) = se_failure s" "se_now (dropDocument k s) = se_now s"
  by (simp_all add: dropDocument_def)

lemma drop_ok: "session_ok D s \<Longrightarrow> session_ok D (dropDocument k s)"
  unfolding session_ok_def cache_ok_def idle_ok_def observed_def drop_fields map_fst_filter fst_filter
  by (auto simp: distinct_filter)

lemma drops_ok: "session_ok D s \<Longrightarrow> session_ok D (fold (\<lambda>(k, _). dropDocument k) ks s)"
  by (induction ks arbitrary: s) (auto intro: drop_ok)

lemma sweep_ok: "session_ok D s \<Longrightarrow> session_ok D (sweepDocuments s)"
  unfolding sweepDocuments_def by (rule drops_ok)

lemma evict_ok: "session_ok D s \<Longrightarrow> session_ok D (evictDocument k i s)"
  by (simp add: evictDocument_def drop_ok)

lemma unload_ok: "session_ok D s \<Longrightarrow> session_ok D (unloadDocuments s)"
  by (simp add: session_ok_def cache_ok_def idle_ok_def unloadDocuments_def)

lemma close_ok: "session_ok D s \<Longrightarrow> session_ok D (close_job s)"
  by (simp add: session_ok_def cache_ok_def idle_ok_def close_job_def kernel_closed)

lemma install_fields [simp]:
  "se_store (installDocument l s) = se_store s"
  "se_documents (installDocument l s) = (se_documents s)(lo_address l \<mapsto> l)"
  "se_attached (installDocument l s) = se_attached s" "se_failure (installDocument l s) = se_failure s"
  "se_now (installDocument l s) = se_now s"
  by (simp_all add: installDocument_def)

lemma install_ok:
  assumes "session_ok D s" "cached_ok D (se_store s) (lo_address l) l" "se_documents s (lo_address l) = None"
  shows "session_ok D (installDocument l s)"
proof -
  let ?s = "s\<lparr>se_documents := (se_documents s)(lo_address l \<mapsto> l)\<rparr>"
  from assms have idle: "idle_ok s" "lo_address l \<notin> fst ` set (se_idle s)"
    by (auto simp: session_ok_def idle_ok_def)
  have t: "distinct (map fst (se_idle ?s))" using idle(1) by (simp add: idle_ok_def)
  have "idle_ok (installDocument l s)"
    unfolding idle_ok_def installDocument_def touch_idle(2)[OF t] touch_fields
    using touch_idle(1)[OF t] idle by (auto simp: idle_ok_def observed_def installDocument_def)
  with assms show ?thesis by (auto simp: session_ok_def cache_ok_def)
qed

lemma same_address: "cached_ok D m k l \<Longrightarrow> cached_ok D m k' l' \<Longrightarrow> dc_id (lo_record l) = dc_id (lo_record l') \<Longrightarrow> k = k'"
  by (auto simp: cached_ok_def)

lemma pin_fields:
  "se_idle (pinDocument k i s) = filter (\<lambda>(k', _). k' \<noteq> k) (se_idle s)"
  "se_documents (pinDocument k i s) = se_documents s" "se_store (pinDocument k i s) = se_store s"
  by (simp_all add: pinDocument_def)

lemma pin_ok:
  assumes "session_ok D s" "se_documents s k = Some l"
  shows "session_ok D (pinDocument k (dc_id (lo_record l)) s)"
proof -
  let ?i = "dc_id (lo_record l)"
  note cached = session_okD(3)[OF assms(1)]
  from session_okD(2)[OF assms(1)] cached[OF assms(2)] have "ms_types (se_store s) ?i \<noteq> None"
    using types_ok_at(5)[of "se_store s" ?i] by (auto simp: cached_ok_def store_ok_def tables_ok_def)
  have same_id: "dc_id (lo_record l') = ?i \<longleftrightarrow> k' = k" if "se_documents s k' = Some l'" for k' l'
    using same_address[OF cached[OF that] cached[OF assms(2)]] that assms(2) by auto
  let ?s = "pinDocument k ?i s"
  have idle: "fst ` set (se_idle ?s) = fst ` set (se_idle s) - {k}" "map fst (se_idle ?s) = filter (\<lambda>k'. k' \<noteq> k) (map fst (se_idle s))"
    unfolding pin_fields by (rule fst_filter, rule map_fst_filter)
  have other: "observed ?s l' \<longleftrightarrow> observed s l' \<or> dc_id (lo_record l') = ?i" for l'
    by (simp add: observed_def pinDocument_def)
  have att: "\<forall>j. se_attached ?s j \<noteq> None \<longrightarrow> ms_types (se_store s) j \<noteq> None"
    using assms(1) \<open>ms_types (se_store s) ?i \<noteq> None\<close>
    by (auto simp: pinDocument_def session_ok_def idle_ok_def)
  have set: "k' \<in> fst ` set (se_idle ?s) \<longleftrightarrow> (\<exists>l. se_documents s k' = Some l \<and> \<not> observed ?s l)" for k'
    using assms(1) same_id[of k'] unfolding idle other session_ok_def idle_ok_def by auto
  show ?thesis
    using assms(1) att set unfolding session_ok_def cache_ok_def idle_ok_def pin_fields(2,3)
    by (simp add: idle(2) distinct_filter del: fun_upd_apply map_map)
qed

text \<open>Releasing a pin: one of several, the last of a cached incarnation, the last of another.\<close>

definition released :: "int \<Rightarrow> 's session_scheme \<Rightarrow> 's session_scheme" where
  "released i s = s\<lparr>se_attached := (se_attached s)(i := None)\<rparr>"

lemma released_fields [simp]:
  "se_store (released i s) = se_store s" "se_documents (released i s) = se_documents s"
  "se_idle (released i s) = se_idle s" "se_attached (released i s) = (se_attached s)(i := None)"
  "observed (released i s) l \<longleftrightarrow> observed s l \<and> dc_id (lo_record l) \<noteq> i"
  by (auto simp: released_def observed_def)

lemma unpin_cases:
  obtains (more) n where "se_attached s i \<noteq> None" "unpinDocument k i s = s\<lparr>se_attached := (se_attached s)(i \<mapsto> n)\<rparr>"
  | (touched) l where "se_documents s k = Some l" "dc_id (lo_record l) = i" "unpinDocument k i s = touchDocument k (released i s)"
  | (gone) "\<And>l. se_documents s k = Some l \<Longrightarrow> dc_id (lo_record l) \<noteq> i" "unpinDocument k i s = released i s"
proof (cases "(case se_attached s i of None \<Rightarrow> 1 | Some n \<Rightarrow> n) - 1 > 0")
  case True
  then show thesis using more by (cases "se_attached s i") (auto simp: unpinDocument_def Let_def)
next
  case False
  then show thesis using touched gone
    by (cases "se_documents s k") (auto simp: unpinDocument_def Let_def released_def)
qed

lemma unpin_ok:
  assumes "session_ok D s" "ms_documents (se_store s) i = Some x"
  shows "session_ok D (unpinDocument (recordAddressKey (ds_record x)) i s)"
proof -
  let ?k = "recordAddressKey (ds_record x)"
  have at_key: "k = ?k" if "se_documents s k = Some l" "dc_id (lo_record l) = i" for k l
    using session_okD(3)[OF assms(1) that(1)] that(2) assms(2) by (auto simp: cached_ok_def)
  from assms(1) have base: "kernel_ok (se_store s)" "cache_ok D s" "idle_ok s" by (simp_all add: session_ok_def)
  then have idle: "distinct (map fst (se_idle (released i s)))"
    "\<And>k. k \<in> fst ` set (se_idle s) \<longleftrightarrow> (\<exists>l. se_documents s k = Some l \<and> \<not> observed s l)"
    "\<And>j. se_attached s j \<noteq> None \<Longrightarrow> ms_types (se_store s) j \<noteq> None"
    unfolding idle_ok_def by auto
  show ?thesis
  proof (cases rule: unpin_cases[of s i ?k])
    case (more n)
    have "observed (s\<lparr>se_attached := (se_attached s)(i \<mapsto> n)\<rparr>) l \<longleftrightarrow> observed s l" for l
      using more(1) by (auto simp: observed_def)
    then show ?thesis using base more idle(3) unfolding session_ok_def cache_ok_def idle_ok_def by auto
  next
    case (touched l)
    have "k \<in> fst ` set (se_idle (touchDocument ?k (released i s)))
        \<longleftrightarrow> (\<exists>l. se_documents s k = Some l \<and> \<not> (observed s l \<and> dc_id (lo_record l) \<noteq> i))" for k
      using idle(2)[of k] at_key[of k] touched(1,2) unfolding touch_idle(2)[OF idle(1)] released_fields by auto
    moreover have "observed (touchDocument ?k (released i s)) l \<longleftrightarrow> observed s l \<and> dc_id (lo_record l) \<noteq> i" for l
      by (simp add: observed_def)
    ultimately show ?thesis
      using base touch_idle(1)[OF idle(1)] idle(3)
      unfolding touched(3) session_ok_def cache_ok_def idle_ok_def by simp
  next
    case gone
    have "(\<exists>l. se_documents s k = Some l \<and> \<not> observed s l)
        \<longleftrightarrow> (\<exists>l. se_documents s k = Some l \<and> \<not> (observed s l \<and> dc_id (lo_record l) \<noteq> i))" for k
      using at_key[of k] gone(1) by auto
    then show ?thesis
      using base idle unfolding gone(2) session_ok_def cache_ok_def idle_ok_def by simp
  qed
qed

subsection \<open>Loading\<close>

text \<open>What a definition must be for an address that \<open>resolveAddress\<close> gave.\<close>

lemma cold_load_cases:
  assumes "cold_load owned d k s = (r, s')"
  obtains (fails) e where "r = Inl e" "se_store s' = se_store s" "s' = s \<or> (\<exists>e. s' = fail_session e s)"
  | (absent) "r = Inr None" "s' = s" "findDocument (se_store s) k Current = Inr None"
  | (loads) rc sd v l where "findDocument (se_store s) k Current = Inr (Some rc)"
      "document owned (se_store s) (dc_id rc) Current = Inr (Some sd)" "materialize_stored d sd = Inr v"
      "l = \<lparr>lo_address = k, lo_record = sd_record sd, lo_stored = sd_version sd, lo_version = df_version d,
             lo_deltas = sd_deltas sd, lo_value = v\<rparr>"
      "r = Inr (Some l)" "s' = installDocument l s"
proof (cases "se_failure s = None \<and> \<not> ms_closed (se_store s)")
  case False
  from guard_healthy(2)[OF this] obtain e where "reads (\<lambda>m. findDocument m k Current) s = (Inl e, s)" by blast
  with assms have "r = Inl e" "s' = s" by (simp_all add: cold_load_def bnd_def)
  then show thesis by (auto intro: fails)
next
  case True
  then have healthy: "se_failure s = None" "\<not> ms_closed (se_store s)" by simp_all
  note reads = guard_healthy(1)[OF healthy]
  show thesis
  proof (cases "findDocument (se_store s) k Current")
    case (Inl e)
    with assms have "r = Inl (StorageThrew e)" "se_store s' = se_store s" "s' = s \<or> s' = fail_session (StorageThrew e) s"
      by (auto simp: cold_load_def bnd_def reads)
    then show thesis by (auto intro: fails)
  next
    case (Inr found)
    note find = Inr
    show thesis
    proof (cases found)
      case None
      with assms find absent show thesis by (simp add: cold_load_def bnd_def reads ret_def)
    next
      case (Some rc)
      note rest = cold_load_def bnd_def reads find Some throw_def ret_def given_def changed_def Let_def
      show thesis
      proof (cases "document owned (se_store s) (dc_id rc) Current")
        case (Inl e)
        with assms have "r = Inl (StorageThrew e)" "se_store s' = se_store s" "s' = s \<or> s' = fail_session (StorageThrew e) s"
          by (auto simp: rest)
        then show thesis by (auto intro: fails)
      next
        case (Inr stored)
        show thesis
        proof (cases stored)
          case None
          with Inr assms show thesis by (auto simp: rest intro: fails)
        next
          case (Some sd)
          show thesis
          proof (cases "materialize_stored d sd")
            case (Inl e)
            with Inr Some assms show thesis by (auto simp: rest intro: fails)
          next
            case (Inr v)
            with \<open>document owned (se_store s) (dc_id rc) Current = Inr stored\<close> Some assms show thesis
              by (intro loads[OF find[unfolded \<open>found = Some rc\<close>], of sd v]) (auto simp: rest)
          qed
        qed
      qed
    qed
  qed
qed

lemma materialize_shaped:
  assumes "materialize_stored d sd = Inr v" "d \<in> D" "definitions_ok D" "is_JObj (sd_value sd)"
    and "df_kind d = dc_kind (sd_record sd)"
  shows "is_JObj v" "version_safe (df_version d)" "sd_version sd \<le> df_version d"
    "shaped D \<lparr>lo_address = k, lo_record = sd_record sd, lo_stored = sd_version sd, lo_version = df_version d,
        lo_deltas = n, lo_value = v\<rparr> (sd_value sd)"
proof -
  from assms(2,3) have def: "definition_ok d" by (simp add: definitions_ok_def)
  then show "version_safe (df_version d)"
    by (auto simp: definition_ok_def validateDefinition_def version_safe_def split: if_splits)
  from assms(1) show le: "sd_version sd \<le> df_version d"
    by (auto simp: materialize_stored_def materializeDocumentValue_def checkRecordVersion_def split: if_splits)
  show "is_JObj v"
    using assms(1,4) def
    by (auto simp: materialize_stored_def materializeDocumentValue_def definition_ok_def split: if_splits option.splits)
  show "shaped D \<lparr>lo_address = k, lo_record = sd_record sd, lo_stored = sd_version sd, lo_version = df_version d,
        lo_deltas = n, lo_value = v\<rparr> (sd_value sd)"
    using assms(1,2,5) le
    by (auto simp: shaped_def materialize_stored_def materializeDocumentValue_def split: if_splits option.splits)
qed

definition cache_step :: "doc_address \<Rightarrow> 's session_scheme \<Rightarrow> 's session_scheme \<Rightarrow> bool" where
  "cache_step k s s' \<longleftrightarrow>
     (\<exists>docs idle f c. s' = s\<lparr>se_documents := docs, se_idle := idle, se_failure := f, se_closing := c\<rparr>
        \<and> (\<forall>k'. k' \<noteq> k \<longrightarrow> docs k' = se_documents s k'))"

lemma cache_stepI:
  "s' = s\<lparr>se_documents := docs, se_idle := idle, se_failure := f, se_closing := c\<rparr> \<Longrightarrow>
     (\<And>k'. k' \<noteq> k \<Longrightarrow> docs k' = se_documents s k') \<Longrightarrow> cache_step k s s'"
  by (auto simp: cache_step_def)

lemma touch_idle_only: "\<exists>idle. touchDocument k s = s\<lparr>se_idle := idle\<rparr>"
proof -
  have same: "s = s\<lparr>se_idle := se_idle s\<rparr>" for s :: "'a session_scheme" by simp
  show ?thesis unfolding touchDocument_def by (auto split: option.split intro: same)
qed

lemma cache_step_refl: "cache_step k s s"
  by (rule cache_stepI[where docs = "se_documents s" and idle = "se_idle s" and f = "se_failure s" and c = "se_closing s"])
    simp_all

lemma cache_step_trans:
  assumes "cache_step k s s'" "cache_step k s' s''"
  shows "cache_step k s s''"
proof -
  from assms(1) obtain docs idle f c where
    1: "s' = s\<lparr>se_documents := docs, se_idle := idle, se_failure := f, se_closing := c\<rparr>"
      "\<And>k'. k' \<noteq> k \<Longrightarrow> docs k' = se_documents s k'"
    unfolding cache_step_def by blast
  from assms(2) obtain docs' idle' f' c' where
    2: "s'' = s'\<lparr>se_documents := docs', se_idle := idle', se_failure := f', se_closing := c'\<rparr>"
      "\<And>k'. k' \<noteq> k \<Longrightarrow> docs' k' = se_documents s' k'"
    unfolding cache_step_def by blast
  show ?thesis
    by (rule cache_stepI[where docs = docs' and idle = idle' and f = f' and c = c']) (use 1 2 in simp_all)
qed

lemma cache_step_touch: "cache_step k s (touchDocument k' s)"
proof -
  from touch_idle_only obtain idle where t: "touchDocument k' s = s\<lparr>se_idle := idle\<rparr>" by blast
  show ?thesis unfolding t
    by (rule cache_stepI[where docs = "se_documents s" and idle = idle and f = "se_failure s" and c = "se_closing s"])
      simp_all
qed

lemma cache_step_documents:
  "(\<And>k'. k' \<noteq> k \<Longrightarrow> docs k' = se_documents s k') \<Longrightarrow> cache_step k s (s\<lparr>se_documents := docs, se_idle := idle\<rparr>)"
  by (rule cache_stepI[where docs = docs and idle = idle and f = "se_failure s" and c = "se_closing s"]) simp_all

lemma cache_step_install:
  assumes "lo_address l = k"
  shows "cache_step k s (installDocument l s)"
proof -
  have "cache_step k s (s\<lparr>se_documents := (se_documents s)(k \<mapsto> l), se_idle := se_idle s\<rparr>)"
    by (rule cache_step_documents) simp
  moreover have "s\<lparr>se_documents := (se_documents s)(k \<mapsto> l), se_idle := se_idle s\<rparr> = s\<lparr>se_documents := (se_documents s)(k \<mapsto> l)\<rparr>"
    by simp
  ultimately show ?thesis
    unfolding installDocument_def assms using cache_step_trans[OF _ cache_step_touch] by metis
qed

lemma cache_step_drop: "cache_step k s (dropDocument k s)"
  unfolding dropDocument_def by (rule cache_step_documents) simp

lemma cache_step_fail: "cache_step k s (fail_session e s)"
proof (cases "se_failure s")
  case None
  then show ?thesis unfolding fail_session_def
    by (intro cache_stepI[where docs = "se_documents s" and idle = "se_idle s" and f = "Some e" and c = True]) simp_all
qed (simp add: fail_session_def cache_step_refl)

definition loads_ok :: "doc_definition set \<Rightarrow> doc_definition \<Rightarrow> doc_address \<Rightarrow> 's session_scheme
    \<Rightarrow> (session_error + loaded option) \<times> 's session_scheme \<Rightarrow> bool" where
  "loads_ok D d k s rs \<longleftrightarrow>
     session_ok D (snd rs) \<and> se_store (snd rs) = se_store s \<and> cache_step k s (snd rs)
     \<and> (case fst rs of
          Inl _ \<Rightarrow> True
        | Inr None \<Rightarrow> current_of (se_store s) k = None
        | Inr (Some l) \<Rightarrow> se_documents (snd rs) k = Some l \<and> lo_version l = df_version d)"

lemma cold_load_ok:
  assumes "session_ok D s" "se_documents s k = None" "d \<in> D" "definitions_ok D" "ad_kind k = df_kind d"
  shows "loads_ok D d k s (cold_load owned d k s)"
proof -
  obtain r s' where rs: "cold_load owned d k s = (r, s')" by (cases "cold_load owned d k s")
  note kernel = session_okD(1,2)[OF assms(1)]
  from rs show ?thesis
  proof (cases rule: cold_load_cases)
    case (fails e)
    then show ?thesis using assms(1) cache_step_refl cache_step_fail unfolding rs loads_ok_def by auto
  next
    case absent
    then have "current_of (se_store s) k = None"
      by (auto simp: findDocument_def assertOpen_def split: if_splits option.splits)
    with absent show ?thesis using assms(1) cache_step_refl unfolding rs loads_ok_def by auto
  next
    case (loads rc sd v l)
    obtain d0 where
      d0: "ms_documents (se_store s) (dc_id rc) = Some d0" "ds_record d0 = rc" "recordAddressKey rc = k" "dr_retired rc = None"
      using find_live[OF kernel(2) loads(1)] by blast
    obtain d1 where
      d1: "ms_documents (se_store s) (dc_id rc) = Some d1" "ds_record d1 = sd_record sd" "is_JObj (sd_value sd)"
      "play_all (ds_revisions d1) = Some (sd_version sd, Inr (Some (sd_value sd)))"
      "sd_deltas sd = length (snd (the (last_base (ds_revisions d1))))"
      using document_read[OF kernel(1) loads(2)] by blast
    with d0 have rec: "sd_record sd = rc" by simp
    with d0(3) assms(5) have kind: "df_kind d = dc_kind (sd_record sd)" by (auto simp: recordAddressKey_def)
    note vals = materialize_shaped(1-3)[OF loads(3) assms(3,4) d1(3) kind]
      and shape = materialize_shaped(4)[OF loads(3) assms(3,4) d1(3) kind, of k "sd_deltas sd"]
    have "cached_ok D (se_store s) k l"
      unfolding cached_ok_def loads(4) using d0 d1 rec vals shape by auto
    then have "session_ok D (installDocument l s)"
      using install_ok[of D s l] assms(1,2) loads(4) by simp
    with loads cache_step_install[of l k s] show ?thesis unfolding rs loads_ok_def by simp
  qed
qed

lemma load_ok:
  assumes "session_ok D s" "d \<in> D" "definitions_ok D" "ad_kind k = df_kind d"
  shows "loads_ok D d k s (loadDocument owned d k s)"
proof (cases "se_documents s k")
  case None
  with cold_load_ok[OF assms(1) None assms(2-4)] show ?thesis by (simp add: loadDocument_def)
next
  case (Some l)
  show ?thesis
  proof (cases "lo_version l = df_version d")
    case True
    with Some assms(1) show ?thesis
      by (simp add: loadDocument_def loads_ok_def touch_ok cache_step_touch)
  next
    case False
    have "loads_ok D d k (dropDocument k s) (cold_load owned d k (dropDocument k s))"
      by (rule cold_load_ok) (use assms drop_ok in auto)
    with Some False show ?thesis
      using cache_step_trans[OF cache_step_drop] unfolding loads_ok_def
      by (auto simp: loadDocument_def split: sum.splits option.splits)
  qed
qed

subsection \<open>The reads of the Session\<close>

lemma triple_load:
  assumes "d \<in> D" "definitions_ok D" "ad_kind k = df_kind d"
  shows "triple (session_ok D) (loadDocument owned d k)
    (\<lambda>found s. session_ok D s \<and> (\<forall>l. found = Some l \<longrightarrow> se_documents s k = Some l)) (session_ok D)"
  unfolding triple_def
proof (intro allI impI)
  fix s :: "'a session_scheme" assume "session_ok D s"
  from load_ok[OF this assms, of owned] show "case loadDocument owned d k s of
      (Inr found, s') \<Rightarrow> session_ok D s' \<and> (\<forall>l. found = Some l \<longrightarrow> se_documents s' k = Some l) | (Inl e, s') \<Rightarrow> session_ok D s'"
    by (auto simp: loads_ok_def split: prod.split sum.split option.splits)
qed

lemma snapshot_keeps:
  assumes "d \<in> D" "definitions_ok D"
  shows "triple (session_ok D) (snapshot owned d args) (\<lambda>_. session_ok D) (session_ok D)"
  unfolding snapshot_def
proof (rule triple_bnd[OF triple_usable[where Q = "\<lambda>_. session_ok D"]], goal_cases)
  case (3 _)
  show ?case
  proof (rule triple_bnd[OF triple_given[where Q = "\<lambda>k s. session_ok D s \<and> ad_kind k = df_kind d"]], goal_cases)
    case (1 s k)
    then show ?case using resolved_address(1) by blast
  next
    case (3 k)
    show ?case
    proof (cases "ad_kind k = df_kind d")
      case True
      have look: "triple (session_ok D)
          (\<lambda>s. case se_documents s k of
             Some l \<Rightarrow> if lo_version l = df_version d then (Inr (Some l), touchDocument k s)
                        else bnd assertHealthy (\<lambda>_. loadDocument owned d k) s
           | None \<Rightarrow> bnd assertHealthy (\<lambda>_. loadDocument owned d k) s) (\<lambda>_. session_ok D) (session_ok D)"
      proof -
        have load: "triple (session_ok D) (bnd assertHealthy (\<lambda>_. loadDocument owned d k)) (\<lambda>_. session_ok D) (session_ok D)"
          by (rule triple_bnd[OF triple_healthy[where Q = "\<lambda>_. session_ok D"] triple_conseq[OF triple_load[OF assms True]]]) auto
        show ?thesis
          using load by (auto simp: triple_def touch_ok split: option.split)
      qed
      show ?thesis
        by (rule triple_pre[where P' = "session_ok D", OF _ triple_bnd[OF look]])
          (auto split: option.split simp: checked_loaded_def
            intro!: triple_ret triple_bnd[where Q = "\<lambda>_. session_ok D"] triple_check)
    qed (simp add: triple_def)
  qed auto
qed auto

lemma checked_keeps:
  "(\<And>s. P s \<Longrightarrow> I s) \<Longrightarrow> triple P (checked_loaded d l) (\<lambda>_. P) I"
  unfolding checked_loaded_def by (rule triple_bnd[where Q = "\<lambda>_. P"]; rule triple_check) auto

lemma pinned_ok:
  "session_ok D s \<Longrightarrow> se_documents s k = Some l \<Longrightarrow> session_ok D (pinDocument (lo_address l) (dc_id (lo_record l)) s)"
  using pin_ok[of D s k l] session_okD(3)[of D s k l] by (simp add: cached_ok_def)

lemma attach_keeps:
  assumes "d \<in> D" "definitions_ok D"
  shows "triple (session_ok D) (attachDocument owned d args) (\<lambda>_. session_ok D) (session_ok D)"
  unfolding attachDocument_def
proof (rule triple_bnd[OF triple_usable[where Q = "\<lambda>_. session_ok D"]], goal_cases)
  case (3 _)
  show ?case
  proof (rule triple_bnd[OF triple_given[where Q = "\<lambda>k s. session_ok D s \<and> ad_kind k = df_kind d"]], goal_cases)
    case (1 s k)
    then show ?case using resolved_address(1) by blast
  next
    case (3 k)
    show ?case
    proof (cases "ad_kind k = df_kind d")
      case True
      have pin: "triple (\<lambda>s. session_ok D s \<and> se_documents s k = Some l)
          (bnd (checked_loaded d l) (\<lambda>_. bnd (changed (pinDocument (lo_address l) (dc_id (lo_record l)))) (\<lambda>_. ret (Some l))))
          (\<lambda>_. session_ok D) (session_ok D)" for l
      proof (rule triple_bnd[OF checked_keeps])
        show "triple (\<lambda>s. session_ok D s \<and> se_documents s k = Some l)
            (bnd (changed (pinDocument (lo_address l) (dc_id (lo_record l)))) (\<lambda>_. ret (Some l))) (\<lambda>_. session_ok D) (session_ok D)"
          by (rule triple_bnd[OF triple_changed[where Q = "\<lambda>_. session_ok D"] triple_ret])
            (use pinned_ok in auto)
      qed simp
      show ?thesis
        by (rule triple_bnd[OF triple_healthy[where Q = "\<lambda>_. session_ok D"]], simp, simp,
            rule triple_bnd[OF triple_load[OF assms True]])
          (auto split: option.split intro!: triple_ret triple_pre[OF _ pin])
    qed (simp add: triple_def)
  qed auto
qed auto

lemma snapshotAsOf_keeps: "triple (session_ok D) (snapshotAsOf owned d args i) (\<lambda>_. session_ok D) (session_ok D)"
  unfolding snapshotAsOf_def snapshot_at_def read_past_def
  by (auto split: doc_scope.split option.split prod.split simp: Let_def
      intro!: triple_bnd[where Q = "\<lambda>_. session_ok D"] triple_usable triple_healthy triple_given triple_ret triple_throw
        triple_reads triple_guard_read)

end
