(* ===== verification/Session_Calls.thy ===== *)
theory Session_Calls
  imports Session_Invariant
begin

text \<open>
  What holds in the middle of a transaction, between any two calls of its callback: the IDs it minted are
  new, its documents are layered by address, and what it loaded is still cached.
\<close>

subsection \<open>What a transaction holds\<close>

text \<open>An ID minted since the transaction began with the store \<open>m0\<close>.\<close>

definition fresh :: "store \<Rightarrow> store \<Rightarrow> int \<Rightarrow> bool" where
  "fresh m0 m i \<longleftrightarrow> ms_nextId m0 \<le> i \<and> i < ms_nextId m \<and> i \<le> max_safe"

definition conversation_known :: "store \<Rightarrow> tx \<Rightarrow> int \<Rightarrow> bool" where
  "conversation_known m0 t c \<longleftrightarrow> c \<in> set (tx_created t) \<or> ms_conversations m0 c \<noteq> None"

fun scope_known :: "store \<Rightarrow> tx \<Rightarrow> doc_scope \<Rightarrow> bool" where
  "scope_known m0 t SessionScope = True"
| "scope_known m0 t (ConversationScope c) = conversation_known m0 t c"
| "scope_known m0 t (TaskScope i) = (candidate t i \<noteq> None \<or> live_task m0 i)"

fun write_staged :: "store \<Rightarrow> tx \<Rightarrow> storage_write \<Rightarrow> bool" where
  "write_staged m0 t (WConversation c) =
     (cv_id c \<in> set (tx_created t)
      \<and> (case cv_parent c of
           None \<Rightarrow> True
         | Some (p, a) \<Rightarrow> ms_nextId m0 \<le> cv_id c \<and> ms_conversations m0 p \<noteq> None \<and> ms_entries m0 a \<noteq> None))"
| "write_staged m0 t (WEntry e) = (fresh m0 (se_store t) (en_id e) \<and> conversation_known m0 t (en_conversation e))"
| "write_staged m0 t _ = False"

definition writes_staged :: "store \<Rightarrow> tx \<Rightarrow> bool" where
  "writes_staged m0 t \<longleftrightarrow>
     (\<forall>w \<in> set (tx_writes t). write_staged m0 t w)
     \<and> (\<forall>c \<in> set (tx_created t). (c = root_conversation \<or> fresh m0 (se_store t) c)
          \<and> (\<exists>v. WConversation v \<in> set (tx_writes t) \<and> cv_id v = c))"

definition tasks_staged :: "store \<Rightarrow> tx \<Rightarrow> bool" where
  "tasks_staged m0 t \<longleftrightarrow>
     distinct (map fst (tx_tasks t))
     \<and> (\<forall>i w. candidate t i = Some w \<longrightarrow>
          tk_id (written_task w) = i \<and> ((\<exists>k. w = TaskCreate k) \<longrightarrow> fresh m0 (se_store t) i))"

definition submissions_staged :: "store \<Rightarrow> tx \<Rightarrow> bool" where
  "submissions_staged m0 t \<longleftrightarrow>
     (\<forall>(i, s) \<in> set (tx_submissions t). sb_id s = i \<and> (fresh m0 (se_store t) i \<or> ms_submissions m0 i \<noteq> None))"

definition create_staged :: "store \<Rightarrow> tx \<Rightarrow> doc_address \<Rightarrow> doc_create \<Rightarrow> bool" where
  "create_staged m0 t k r \<longleftrightarrow>
     recordAddressKey r = k \<and> fresh m0 (se_store t) (dc_id r) \<and> scope_known m0 t (dc_scope r)"

definition live_record :: "store \<Rightarrow> doc_address \<Rightarrow> doc_record \<Rightarrow> bool" where
  "live_record m0 k r \<longleftrightarrow>
     recordAddressKey r = k \<and> dr_retired r = None \<and> map_option ds_record (ms_documents m0 (dc_id r)) = Some r"

fun target_staged :: "doc_definition set \<Rightarrow> store \<Rightarrow> tx \<Rightarrow> doc_entry \<Rightarrow> tx_target \<Rightarrow> bool" where
  "target_staged D m0 t e (TLoaded l) =
     (se_documents t (de_address e) = Some l
      \<and> (\<exists>d \<in> D. de_definition e = Some d \<and> lo_version l = df_version d))"
| "target_staged D m0 t e (TCreated r v x) = (create_staged m0 t (de_address e) r \<and> version_safe v \<and> is_JObj x)"
| "target_staged D m0 t e (TForkCopy r source p) =
     (create_staged m0 t (de_address e) r \<and> in_conversation (dc_scope r))"
| "target_staged D m0 t e (TRetireOnly r) = (live_record m0 (de_address e) r \<and> de_retire e)"

text \<open>An operation that leaves an object at the root: it has a path, or puts an object there.\<close>

definition rooted :: "json \<Rightarrow> bool" where
  "rooted raw \<longleftrightarrow> (\<forall>v. assertValidOp raw = Inr (OReplace v) \<longrightarrow> is_JObj v)"

definition entry_staged :: "doc_definition set \<Rightarrow> store \<Rightarrow> tx \<Rightarrow> doc_entry \<Rightarrow> bool" where
  "entry_staged D m0 t e \<longleftrightarrow>
     (\<forall>target. de_target e = Some target \<longrightarrow> target_staged D m0 t e target)
     \<and> (\<forall>ops. de_change e = Some ops \<longrightarrow> list_all rooted ops)"

text \<open>Of two entries at one address the first has no target or is retired, and the second is no stored
  document.\<close>

fun stored_target :: "tx_target option \<Rightarrow> bool" where
  "stored_target (Some (TLoaded _)) = True"
| "stored_target (Some (TRetireOnly _)) = True"
| "stored_target _ = False"

fun copied_target :: "tx_target option \<Rightarrow> bool" where
  "copied_target (Some (TForkCopy _ _ _)) = True"
| "copied_target _ = False"

definition before :: "doc_entry \<Rightarrow> doc_entry \<Rightarrow> bool" where
  "before e e' \<longleftrightarrow>
     (de_address e = de_address e' \<longrightarrow> (de_target e = None \<or> de_retire e) \<and> \<not> stored_target (de_target e'))"

definition layered :: "doc_entry list \<Rightarrow> bool" where
  "layered docs \<longleftrightarrow> (\<forall>i j. i < j \<longrightarrow> j < length docs \<longrightarrow> before (docs ! i) (docs ! j))"

definition last_at :: "doc_entry list \<Rightarrow> doc_address \<Rightarrow> nat \<Rightarrow> bool" where
  "last_at docs k n \<longleftrightarrow>
     n < length docs \<and> de_address (docs ! n) = k \<and> (\<forall>j. n < j \<longrightarrow> j < length docs \<longrightarrow> de_address (docs ! j) \<noteq> k)"

definition acquired :: "doc_entry \<Rightarrow> bool" where
  "acquired e \<longleftrightarrow> de_retire e \<or> de_draft e \<noteq> None \<or> copied_target (de_target e)"

definition latest_staged :: "tx \<Rightarrow> bool" where
  "latest_staged t \<longleftrightarrow>
     (\<forall>k. case tx_latest t k of
         None \<Rightarrow> (\<forall>e \<in> set (tx_documents t). de_address e \<noteq> k)
       | Some n \<Rightarrow> last_at (tx_documents t) k n \<and> acquired (tx_documents t ! n))"

definition documents_staged :: "doc_definition set \<Rightarrow> store \<Rightarrow> tx \<Rightarrow> bool" where
  "documents_staged D m0 t \<longleftrightarrow>
     (\<forall>e \<in> set (tx_documents t). entry_staged D m0 t e) \<and> layered (tx_documents t) \<and> latest_staged t"

definition tx_ok :: "doc_definition set \<Rightarrow> store \<Rightarrow> tx \<Rightarrow> bool" where
  "tx_ok D m0 t \<longleftrightarrow>
     session_ok D t \<and> minted m0 (se_store t) \<and> writes_staged m0 t \<and> tasks_staged m0 t \<and> submissions_staged m0 t
     \<and> documents_staged D m0 t"

lemma tx_okD:
  assumes "tx_ok D m0 t"
  shows "session_ok D t" "minted m0 (se_store t)" "writes_staged m0 t" "tasks_staged m0 t" "submissions_staged m0 t"
    "documents_staged D m0 t"
  using assms by (simp_all add: tx_ok_def)

subsection \<open>Steps that stage nothing\<close>

text \<open>A step that only mints, fills the cache and touches tasks.\<close>

definition calm :: "tx \<Rightarrow> tx \<Rightarrow> bool" where
  "calm t t' \<longleftrightarrow>
     minted (se_store t) (se_store t') \<and> candidate t' = candidate t \<and> tx_writes t' = tx_writes t
     \<and> tx_created t' = tx_created t \<and> tx_submissions t' = tx_submissions t \<and> tx_documents t' = tx_documents t
     \<and> tx_latest t' = tx_latest t \<and> (distinct (map fst (tx_tasks t)) \<longrightarrow> distinct (map fst (tx_tasks t')))"

text \<open>A fact that such a step keeps.\<close>

definition steady :: "(tx \<Rightarrow> bool) \<Rightarrow> bool" where
  "steady F \<longleftrightarrow> (\<forall>t t'. calm t t' \<longrightarrow> F t \<longrightarrow> F t')"

lemma steadyD: "steady F \<Longrightarrow> calm t t' \<Longrightarrow> F t \<Longrightarrow> F t'"
  by (auto simp: steady_def)

lemma calm_refl [simp]: "calm t t"
  by (simp add: calm_def)

lemma calm_trans: "calm t t' \<Longrightarrow> calm t' t'' \<Longrightarrow> calm t t''"
  using minted_trans by (fastforce simp: calm_def)

lemma fresh_mono: "fresh m0 m i \<Longrightarrow> minted m m' \<Longrightarrow> fresh m0 m' i"
  using minted_fields(12)[of m m'] by (auto simp: fresh_def)

lemma calm_known:
  assumes "calm t t'"
  shows "conversation_known m0 t' c = conversation_known m0 t c" "scope_known m0 t' scope = scope_known m0 t scope"
proof -
  from assms show c: "conversation_known m0 t' c = conversation_known m0 t c" for c
    by (simp add: conversation_known_def calm_def)
  show "scope_known m0 t' scope = scope_known m0 t scope" using assms c by (cases scope) (simp_all add: calm_def)
qed

lemma calm_fresh: "calm t t' \<Longrightarrow> fresh m0 (se_store t) i \<Longrightarrow> fresh m0 (se_store t') i"
  using fresh_mono by (auto simp: calm_def)

lemma calm_create: "calm t t' \<Longrightarrow> create_staged m0 t k r \<Longrightarrow> create_staged m0 t' k r"
  by (simp add: create_staged_def calm_known calm_fresh)

lemma calm_write: "calm t t' \<Longrightarrow> write_staged m0 t w \<Longrightarrow> write_staged m0 t' w"
  by (cases w) (auto simp: calm_known calm_fresh, simp add: calm_def)

lemma calm_target:
  assumes "calm t t'" "\<forall>l. target = TLoaded l \<longrightarrow> se_documents t' (de_address e) = se_documents t (de_address e)"
  shows "target_staged D m0 t e target \<Longrightarrow> target_staged D m0 t' e target"
  using assms calm_create[OF assms(1)] by (cases target) auto

text \<open>The cached documents that entries have loaded stay.\<close>

definition loads_kept :: "tx \<Rightarrow> tx \<Rightarrow> bool" where
  "loads_kept t t' \<longleftrightarrow>
     (\<forall>e \<in> set (tx_documents t). \<forall>l. de_target e = Some (TLoaded l) \<longrightarrow>
        se_documents t' (de_address e) = se_documents t (de_address e))"

lemma tx_ok_calm:
  assumes "tx_ok D m0 t" "calm t t'" "session_ok D t'" "loads_kept t t'"
  shows "tx_ok D m0 t'"
proof -
  note ok = tx_okD[OF assms(1)]
  from assms(2) have same: "tx_writes t' = tx_writes t" "tx_created t' = tx_created t" "tx_submissions t' = tx_submissions t"
    "tx_documents t' = tx_documents t" "tx_latest t' = tx_latest t" "candidate t' = candidate t"
    "minted (se_store t) (se_store t')" "distinct (map fst (tx_tasks t)) \<Longrightarrow> distinct (map fst (tx_tasks t'))"
    by (simp_all add: calm_def)
  have "writes_staged m0 t'"
    using ok(3) calm_write[OF assms(2)] fresh_mono[OF _ same(7)] by (simp add: writes_staged_def same(1,2)) blast
  moreover have "tasks_staged m0 t'"
    using ok(4) same(8) fresh_mono[OF _ same(7)] unfolding tasks_staged_def same(6) by blast
  moreover have "submissions_staged m0 t'"
    using ok(5) fresh_mono[OF _ same(7)] by (auto simp: submissions_staged_def same(3))
  moreover have "entry_staged D m0 t' e" if "e \<in> set (tx_documents t)" "entry_staged D m0 t e" for e
    using that assms(4) calm_target[OF assms(2), of _ e D m0] unfolding entry_staged_def loads_kept_def by simp
  with ok(6) have "documents_staged D m0 t'"
    unfolding documents_staged_def latest_staged_def same(4,5) by blast
  ultimately show ?thesis using assms(3) minted_trans[OF ok(2) same(7)] by (simp add: tx_ok_def)
qed

subsection \<open>Steps on the line\<close>

text \<open>Invariant and facts, before and after a step.\<close>

definition inside :: "doc_definition set \<Rightarrow> store \<Rightarrow> (tx \<Rightarrow> bool) \<Rightarrow> tx \<Rightarrow> bool" where
  "inside D m0 F t \<longleftrightarrow> tx_ok D m0 t \<and> F t"

lemma insideD: "inside D m0 F t \<Longrightarrow> tx_ok D m0 t" "inside D m0 F t \<Longrightarrow> F t"
  by (simp_all add: inside_def)

lemma steady_conj [intro]: "steady F \<Longrightarrow> steady G \<Longrightarrow> steady (\<lambda>t. F t \<and> G t)"
  by (auto simp: steady_def)

lemma steady_const [simp]: "steady (\<lambda>_. b)"
  by (simp add: steady_def)

lemma steady_fresh [simp]: "steady (\<lambda>t. fresh m0 (se_store t) i)"
  by (auto simp: steady_def calm_fresh)

lemma steady_known [simp]:
  "steady (\<lambda>t. conversation_known m0 t c)" "steady (\<lambda>t. \<not> conversation_known m0 t c)" "steady (\<lambda>t. scope_known m0 t scope)"
  by (auto simp: steady_def calm_known)

lemma steady_documents [simp]: "steady (\<lambda>t. P (tx_documents t))"
  by (auto simp: steady_def calm_def)

lemma fail_tx:
  "minted (se_store t) (se_store (fail_session e t))" "candidate (fail_session e t) = candidate t"
  "tx_writes (fail_session e t) = tx_writes t" "tx_created (fail_session e t) = tx_created t"
  "tx_submissions (fail_session e t) = tx_submissions t" "tx_documents (fail_session e t) = tx_documents t"
  "tx_latest (fail_session e t) = tx_latest t" "tx_tasks (fail_session e t) = tx_tasks t"
  by (simp_all add: fail_session_def fun_eq_iff candidate_def)

lemma tx_ok_fail: "tx_ok D m0 t \<Longrightarrow> tx_ok D m0 (fail_session e t)"
  by (rule tx_ok_calm) (auto simp: calm_def fail_tx loads_kept_def dest: tx_okD(1))

lemma mint_calm: "calm t (t\<lparr>se_store := (se_store t)\<lparr>ms_nextId := ms_nextId (se_store t) + 1\<rparr>\<rparr>)"
  by (auto simp: calm_def fun_eq_iff candidate_def minted_next)

lemma known_below:
  assumes "tx_ok D m0 t" "conversation_known m0 t c"
  shows "c < ms_nextId (se_store t)"
proof -
  note ok = tx_okD[OF assms(1)]
  have store: "store_ok (se_store t)" using session_okD(2)[OF ok(1)] .
  then have "types_ok (se_store t)" "2 \<le> ms_nextId (se_store t)" by (simp_all add: store_ok_def tables_ok_def)
  moreover have "ms_conversations (se_store t) = ms_conversations m0" using minted_fields(2)[OF ok(2)] .
  ultimately show ?thesis
    using assms(2) ok(3) types_ok_at(1)[of "se_store t" c]
    unfolding conversation_known_def writes_staged_def types_ok_def typed_in_def
    by (auto simp: root_conversation_def fresh_def)
qed

text \<open>The rules of the storage calls.\<close>

lemma line_mint:
  assumes "steady F"
  shows "triple (inside D m0 F) mint
    (\<lambda>i. inside D m0 (\<lambda>t. F t \<and> fresh m0 (se_store t) i \<and> \<not> conversation_known m0 t i)) (tx_ok D m0)"
proof (rule triple_mint)
  fix t :: tx assume in_t: "inside D m0 F t" and safe: "\<bar>ms_nextId (se_store t)\<bar> \<le> max_safe"
  let ?i = "ms_nextId (se_store t)" let ?t = "t\<lparr>se_store := (se_store t)\<lparr>ms_nextId := ?i + 1\<rparr>\<rparr>"
  note ok = insideD(1)[OF in_t]
  have "session_ok D ?t" by (rule session_ok_minted[OF tx_okD(1)[OF ok] minted_next])
  then have "tx_ok D m0 ?t" using tx_ok_calm[OF ok mint_calm] by (simp add: loads_kept_def)
  moreover have "F ?t" using steadyD[OF assms mint_calm insideD(2)[OF in_t]] .
  moreover have "fresh m0 (se_store ?t) ?i"
    using minted_fields(12)[OF tx_okD(2)[OF ok]] safe by (simp add: fresh_def)
  moreover have "\<not> conversation_known m0 ?t ?i" using known_below[OF ok, of ?i] calm_known(1)[OF mint_calm] by auto
  ultimately show "inside D m0 (\<lambda>t. F t \<and> fresh m0 (se_store t) ?i \<and> \<not> conversation_known m0 t ?i) ?t"
    by (simp add: inside_def)
qed (auto dest: insideD tx_ok_fail)

lemma line_guard:
  "triple (inside D m0 F) (guard_read run) (\<lambda>x. inside D m0 (\<lambda>t. F t \<and> run (se_store t) = Some (Inr x))) (tx_ok D m0)"
  by (rule triple_guard_read) (auto simp: inside_def tx_ok_fail)

lemma line_reads:
  "triple (inside D m0 F) (reads run) (\<lambda>x. inside D m0 (\<lambda>t. F t \<and> run (se_store t) = Inr x)) (tx_ok D m0)"
  by (rule triple_reads) (auto simp: inside_def tx_ok_fail)

lemma line_check: "triple (inside D m0 F) (check e) (\<lambda>_. inside D m0 (\<lambda>t. F t \<and> e = None)) (tx_ok D m0)"
  by (rule triple_check) (auto simp: inside_def)

lemma line_given: "triple (inside D m0 F) (given r) (\<lambda>x. inside D m0 (\<lambda>t. F t \<and> r = Inr x)) (tx_ok D m0)"
  by (rule triple_given) (auto simp: inside_def)

lemma line_throw: "triple (inside D m0 F) (throw e) Q (tx_ok D m0)"
  by (rule triple_throw) (simp add: inside_def)

lemma line_weaken:
  "triple P f (\<lambda>x. inside D m0 (F x)) I \<Longrightarrow> (\<And>x t. tx_ok D m0 t \<Longrightarrow> F x t \<Longrightarrow> G x t) \<Longrightarrow> triple P f (\<lambda>x. inside D m0 (G x)) I"
  by (erule triple_conseq) (auto simp: inside_def)

lemma line_pre: "triple (inside D m0 G) f Q I \<Longrightarrow> (\<And>t. tx_ok D m0 t \<Longrightarrow> F t \<Longrightarrow> G t) \<Longrightarrow> triple (inside D m0 F) f Q I"
  by (erule triple_conseq) (auto simp: inside_def)

text \<open>A load may replace what is cached at its address, if no entry of the transaction loaded that.\<close>

definition unloaded :: "doc_address \<Rightarrow> doc_entry list \<Rightarrow> bool" where
  "unloaded k docs \<longleftrightarrow> (\<forall>e \<in> set docs. de_address e = k \<longrightarrow> (\<nexists>l. de_target e = Some (TLoaded l)))"

lemma cache_step_calm:
  assumes "cache_step k t t'" "unloaded k (tx_documents t)"
  shows "calm t t'" "loads_kept t t'"
proof -
  from assms(1) obtain docs idle f c where
    t': "t' = t\<lparr>se_documents := docs, se_idle := idle, se_failure := f, se_closing := c\<rparr>"
    "\<And>k'. k' \<noteq> k \<Longrightarrow> docs k' = se_documents t k'"
    unfolding cache_step_def by blast
  show "calm t t'" by (simp add: t'(1) calm_def fun_eq_iff candidate_def)
  show "loads_kept t t'" using t' assms(2) by (auto simp: loads_kept_def unloaded_def)
qed

lemma line_load:
  assumes "steady F" "\<And>t. F t \<Longrightarrow> unloaded k (tx_documents t)" "d \<in> D" "definitions_ok D" "ad_kind k = df_kind d"
  shows "triple (inside D m0 F) (loadDocument owned d k)
    (\<lambda>found. inside D m0 (\<lambda>t. F t \<and> (case found of
         None \<Rightarrow> True
       | Some l \<Rightarrow> se_documents t k = Some l \<and> lo_version l = df_version d))) (tx_ok D m0)"
  unfolding triple_def
proof (intro allI impI)
  fix t :: tx assume in_t: "inside D m0 F t"
  obtain r t' where load: "loadDocument owned d k t = (r, t')" by (cases "loadDocument owned d k t")
  from load_ok[OF tx_okD(1)[OF insideD(1)[OF in_t]] assms(3-5), of owned]
  have loads: "session_ok D t'" "cache_step k t t'"
    "case r of Inl _ \<Rightarrow> True | Inr None \<Rightarrow> True | Inr (Some l) \<Rightarrow> se_documents t' k = Some l \<and> lo_version l = df_version d"
    unfolding load loads_ok_def by (auto split: sum.splits option.splits)
  note calm = cache_step_calm[OF loads(2) assms(2)[OF insideD(2)[OF in_t]]]
  have "tx_ok D m0 t'" by (rule tx_ok_calm[OF insideD(1)[OF in_t] calm(1) loads(1) calm(2)])
  moreover have "F t'" by (rule steadyD[OF assms(1) calm(1) insideD(2)[OF in_t]])
  ultimately show "case loadDocument owned d k t of
      (Inr found, s') \<Rightarrow> inside D m0 (\<lambda>t. F t \<and> (case found of
         None \<Rightarrow> True | Some l \<Rightarrow> se_documents t k = Some l \<and> lo_version l = df_version d)) s'
    | (Inl e, s') \<Rightarrow> tx_ok D m0 s'"
    using loads(3) unfolding load by (simp add: inside_def split: sum.splits option.splits)
qed

subsection \<open>Reads\<close>

lemma keeps_inside: "triple (tx_ok D m0) f Q I = triple (inside D m0 (\<lambda>_. True)) f Q I"
  by (simp add: inside_def[abs_def])

definition keeps :: "doc_definition set \<Rightarrow> store \<Rightarrow> (tx, 'a) act \<Rightarrow> bool" where
  "keeps D m0 f \<longleftrightarrow> triple (tx_ok D m0) f (\<lambda>_. tx_ok D m0) (tx_ok D m0)"

lemma keepsI: "triple (inside D m0 (\<lambda>_. True)) f (\<lambda>x. inside D m0 (F x)) (tx_ok D m0) \<Longrightarrow> keeps D m0 f"
  unfolding keeps_def keeps_inside by (erule triple_conseq) (auto simp: inside_def)

lemma keeps_reads: "keeps D m0 (reads run)" "keeps D m0 (guard_read run')"
  by (rule keepsI[OF line_reads], rule keepsI[OF line_guard])

lemma keeps_ret: "keeps D m0 (ret x)"
  unfolding keeps_def by (rule triple_ret)

lemma keeps_bnd: "keeps D m0 f \<Longrightarrow> (\<And>x. keeps D m0 (g x)) \<Longrightarrow> keeps D m0 (bnd f g)"
  unfolding keeps_def by (rule triple_bnd)

lemma keeps_ignore: "keeps D m0 f \<Longrightarrow> keeps D m0 (ignore f)"
  unfolding ignore_def by (intro keeps_bnd keeps_ret)

lemma keeps_open: "keeps D m0 still_open"
  by (simp add: keeps_def triple_def still_open_def)

lemma keeps_read: "keeps D m0 f \<Longrightarrow> keeps D m0 (tx_read method f)"
  unfolding tx_read_def
  by (intro keeps_bnd keeps_open) (auto simp: keeps_def triple_def)

lemma keeps_write: "keeps D m0 f \<Longrightarrow> keeps D m0 (tx_write f)"
proof -
  have "tx_ok D m0 (t\<lparr>tx_wrote := True\<rparr>)" if "tx_ok D m0 t" for t
    by (rule tx_ok_calm[OF that])
      (use tx_okD(1)[OF that] session_ok_cong[of t "t\<lparr>tx_wrote := True\<rparr>" D]
        in \<open>auto simp: calm_def candidate_def fun_eq_iff loads_kept_def same_cache_def\<close>)
  then have "keeps D m0 (changed (\<lambda>t. t\<lparr>tx_wrote := True\<rparr>))" unfolding keeps_def by (intro triple_changed)
  then show "keeps D m0 f \<Longrightarrow> keeps D m0 (tx_write f)"
    unfolding tx_write_def by (intro keeps_bnd keeps_open)
qed

subsection \<open>Tasks and conversations the transaction asks for\<close>

lemma touch_fields_tx:
  "candidate (touch_task i t) = candidate t" "se_store (touch_task i t) = se_store t"
  "tx_writes (touch_task i t) = tx_writes t" "tx_created (touch_task i t) = tx_created t"
  "tx_submissions (touch_task i t) = tx_submissions t" "tx_documents (touch_task i t) = tx_documents t"
  "tx_latest (touch_task i t) = tx_latest t" "se_documents (touch_task i t) = se_documents t"
  "distinct (map fst (tx_tasks t)) \<Longrightarrow> distinct (map fst (tx_tasks (touch_task i t)))"
  "same_cache t (touch_task i t)"
  by (auto simp: touch_task_def same_cache_def map_of_eq_None_iff)
    (auto simp: touch_task_def candidate_def fun_eq_iff map_add_def split: option.split)

lemma touch_calm: "calm t (touch_task i t)"
  by (simp add: calm_def touch_fields_tx)

lemma touch_ok_tx: "tx_ok D m0 t \<Longrightarrow> tx_ok D m0 (touch_task i t)"
  by (rule tx_ok_calm[OF _ touch_calm])
    (simp_all add: session_ok_cong[OF touch_fields_tx(10)] tx_okD(1) loads_kept_def touch_fields_tx(8))

text \<open>A fact that touching a task keeps.\<close>

definition touchable :: "(tx \<Rightarrow> bool) \<Rightarrow> bool" where
  "touchable F \<longleftrightarrow> (\<forall>i t. F t \<longrightarrow> F (touch_task i t))"

lemma steady_touchable: "steady F \<Longrightarrow> touchable F"
  using steadyD[OF _ touch_calm] by (auto simp: touchable_def)

lemma line_touch: "touchable F \<Longrightarrow> triple (inside D m0 F) (changed (touch_task i)) (\<lambda>_. inside D m0 F) (tx_ok D m0)"
  by (rule triple_changed) (use touch_ok_tx in \<open>auto simp: inside_def touchable_def\<close>)

lemma line_committed:
  assumes "touchable F"
  shows "triple (inside D m0 F) (committedTask i) (\<lambda>found. inside D m0 (\<lambda>t. F t \<and> ms_tasks m0 i = found)) (tx_ok D m0)"
  unfolding committedTask_def
  by (rule triple_bnd[OF line_touch[OF assms] triple_conseq[OF line_reads]])
    (use minted_fields(4) in \<open>auto simp: inside_def task_of_def assertOpen_def dest!: tx_okD(2) split: if_splits\<close>)

definition task_known :: "store \<Rightarrow> tx \<Rightarrow> int \<Rightarrow> task option \<Rightarrow> bool" where
  "task_known m0 t i found \<longleftrightarrow>
     found = (case candidate t i of Some w \<Rightarrow> Some (written_task w) | None \<Rightarrow> ms_tasks m0 i)"

lemma steady_task [simp]: "steady (\<lambda>t. task_known m0 t i found)"
  by (simp add: steady_def calm_def task_known_def)

lemma line_current:
  assumes "touchable F"
  shows "triple (inside D m0 F) (currentTask i) (\<lambda>found. inside D m0 (\<lambda>t. F t \<and> task_known m0 t i found)) (tx_ok D m0)"
proof -
  have "triple ((=) t) (currentTask i) (\<lambda>found. inside D m0 (\<lambda>t. F t \<and> task_known m0 t i found)) (tx_ok D m0)"
    if in_t: "inside D m0 F t" for t
  proof (cases "candidate t i")
    case None
    have "touchable (\<lambda>t. F t \<and> candidate t i = None)" using assms by (simp add: touchable_def touch_fields_tx)
    from line_committed[OF this, of D m0 i] in_t None show ?thesis
      by (force simp: triple_def inside_def currentTask_def task_known_def split: prod.splits sum.splits)
  next
    case (Some w)
    with in_t show ?thesis by (simp add: triple_def currentTask_def inside_def task_known_def)
  qed
  then show ?thesis by (auto simp: triple_def)
qed

lemma line_require:
  assumes "steady F"
  shows "triple (inside D m0 F) (requireConversation c) (\<lambda>_. inside D m0 (\<lambda>t. F t \<and> conversation_known m0 t c)) (tx_ok D m0)"
proof -
  have conv: "triple (inside D m0 F) (bnd (reads (\<lambda>m. conversation_of m c))
      (\<lambda>v. check (if v = None then Some (NoConversation c) else None)))
    (\<lambda>_. inside D m0 (\<lambda>t. F t \<and> conversation_known m0 t c)) (tx_ok D m0)"
    by (rule triple_bnd[OF line_reads line_weaken[OF line_check]])
      (use minted_fields(2) in \<open>auto simp: inside_def conversation_of_def assertOpen_def conversation_known_def
        dest!: tx_okD(2) split: if_splits\<close>)
  have "triple ((=) t) (requireConversation c) (\<lambda>_. inside D m0 (\<lambda>t. F t \<and> conversation_known m0 t c)) (tx_ok D m0)"
    if in_t: "inside D m0 F t" for t
  proof (cases "c \<in> set (tx_created t)")
    case True
    with in_t show ?thesis by (simp add: triple_def requireConversation_def inside_def conversation_known_def)
  next
    case False
    with conv in_t show ?thesis by (auto simp: triple_def requireConversation_def)
  qed
  then show ?thesis by (auto simp: triple_def)
qed

subsection \<open>Staging writes, tasks and submissions\<close>

definition grows :: "tx \<Rightarrow> tx \<Rightarrow> bool" where
  "grows t t' \<longleftrightarrow>
     same_cache t t' \<and> set (tx_created t) \<subseteq> set (tx_created t') \<and> (\<forall>i. candidate t i \<noteq> None \<longrightarrow> candidate t' i \<noteq> None)"

lemma grows_known:
  assumes "grows t t'"
  shows "conversation_known m0 t c \<Longrightarrow> conversation_known m0 t' c" "scope_known m0 t scope \<Longrightarrow> scope_known m0 t' scope"
proof -
  show *: "conversation_known m0 t c \<Longrightarrow> conversation_known m0 t' c" for c
    using assms by (auto simp: conversation_known_def grows_def)
  show "scope_known m0 t scope \<Longrightarrow> scope_known m0 t' scope" using assms * by (cases scope) (auto simp: grows_def)
qed

lemma grows_create: "grows t t' \<Longrightarrow> create_staged m0 t k r \<Longrightarrow> create_staged m0 t' k r"
  using grows_known by (auto simp: create_staged_def grows_def same_cache_def)

lemma grows_write: "grows t t' \<Longrightarrow> write_staged m0 t w \<Longrightarrow> write_staged m0 t' w"
  using grows_known(1) by (cases w) (auto simp: grows_def same_cache_def split: option.splits)

lemma grows_entry: "grows t t' \<Longrightarrow> entry_staged D m0 t e \<Longrightarrow> entry_staged D m0 t' e"
proof -
  assume g: "grows t t'"
  have "target_staged D m0 t e target \<Longrightarrow> target_staged D m0 t' e target" for target
    using g grows_create by (cases target) (auto simp: grows_def same_cache_def)
  then show "entry_staged D m0 t e \<Longrightarrow> entry_staged D m0 t' e" by (auto simp: entry_staged_def)
qed

lemma grows_documents:
  assumes "grows t t'" "documents_staged D m0 t" "tx_documents t' = tx_documents t" "tx_latest t' = tx_latest t"
  shows "documents_staged D m0 t'"
  using assms(2) grows_entry[OF assms(1)] unfolding documents_staged_def latest_staged_def assms(3,4) by blast

lemma tx_ok_grows:
  assumes "tx_ok D m0 t" "grows t t'" "tx_documents t' = tx_documents t" "tx_latest t' = tx_latest t"
    and "writes_staged m0 t'" "tasks_staged m0 t'" "submissions_staged m0 t'"
  shows "tx_ok D m0 t'"
proof -
  note ok = tx_okD[OF assms(1)]
  have "same_cache t t'" using assms(2) by (simp add: grows_def)
  then have "session_ok D t'" "se_store t' = se_store t" using ok(1) session_ok_cong by (auto simp: same_cache_def)
  with ok(2) assms grows_documents[OF assms(2) ok(6) assms(3,4)] show ?thesis by (simp add: tx_ok_def)
qed

lemma push_write_ok:
  assumes "tx_ok D m0 t" "fresh m0 (se_store t) (en_id e)" "conversation_known m0 t (en_conversation e)"
  shows "tx_ok D m0 (push_write (WEntry e) t)"
proof (rule tx_ok_grows[OF assms(1)])
  let ?t = "push_write (WEntry e) t"
  show g: "grows t ?t" by (simp add: grows_def same_cache_def push_write_def candidate_def)
  show "writes_staged m0 ?t"
    using tx_okD(3)[OF assms(1)] assms(2,3) grows_write[OF g] grows_known(1)[OF g]
    by (auto simp: writes_staged_def push_write_def)
  show "tasks_staged m0 ?t" "submissions_staged m0 ?t"
    using tx_okD(4,5)[OF assms(1)] by (simp_all add: tasks_staged_def submissions_staged_def push_write_def candidate_def)
qed (simp_all add: push_write_def)

lemma candidate_write [simp]: "candidate (write_task i w t) = (candidate t)(i \<mapsto> w)"
  by (auto simp: candidate_def write_task_def update_conv fun_eq_iff)

lemma write_task_ok:
  assumes "tx_ok D m0 t" "tk_id (written_task w) = i" "\<And>k. w = TaskCreate k \<Longrightarrow> fresh m0 (se_store t) i"
  shows "tx_ok D m0 (write_task i w t)"
proof (rule tx_ok_grows[OF assms(1)])
  let ?t = "write_task i w t"
  show g: "grows t ?t" by (simp add: grows_def same_cache_def write_task_def[of i w t] candidate_write[unfolded write_task_def])
  have [simp]: "tx_writes ?t = tx_writes t" "tx_created ?t = tx_created t" "tx_submissions ?t = tx_submissions t"
    "se_store ?t = se_store t"
    by (simp_all add: write_task_def)
  show "writes_staged m0 ?t" using tx_okD(3)[OF assms(1)] grows_write[OF g] by (auto simp: writes_staged_def)
  show "tasks_staged m0 ?t"
    using tx_okD(4)[OF assms(1)] assms(2,3)
    by (auto simp: tasks_staged_def) (simp add: write_task_def distinct_update)
  show "submissions_staged m0 ?t" using tx_okD(5)[OF assms(1)] by (simp add: submissions_staged_def)
qed (simp_all add: write_task_def)

lemma put_submission_staged:
  assumes "tx_ok D m0 t" "sb_id s = i" "fresh m0 (se_store t) i \<or> ms_submissions m0 i \<noteq> None"
  shows "tx_ok D m0 (t\<lparr>tx_submissions := AList.update i s (tx_submissions t)\<rparr>)"
proof (rule tx_ok_grows[OF assms(1)])
  let ?t = "t\<lparr>tx_submissions := AList.update i s (tx_submissions t)\<rparr>"
  show g: "grows t ?t" by (simp add: grows_def same_cache_def candidate_def)
  show "writes_staged m0 ?t" using tx_okD(3)[OF assms(1)] grows_write[OF g] by (auto simp: writes_staged_def)
  show "tasks_staged m0 ?t" using tx_okD(4)[OF assms(1)] by (simp add: tasks_staged_def candidate_def)
  show "submissions_staged m0 ?t"
    using tx_okD(5)[OF assms(1)] assms(2,3) by (auto simp: submissions_staged_def dest!: update_mem)
qed simp_all

subsection \<open>Entries, tasks and submissions\<close>

lemma line_done:
  "(\<And>t. tx_ok D m0 t \<Longrightarrow> F t \<Longrightarrow> tx_ok D m0 (f t)) \<Longrightarrow>
     triple (inside D m0 F) (\<lambda>t. (Inr (x t), f t)) (\<lambda>_. tx_ok D m0) (tx_ok D m0)"
  by (auto simp: triple_def inside_def)

lemma line_ret: "triple (inside D m0 F) (ret x) (\<lambda>_. tx_ok D m0) (tx_ok D m0)"
  by (rule triple_ret) (simp add: inside_def)

lemma keeps_appendEntry: "keeps D m0 (appendEntry c draft)"
  unfolding appendEntry_def
proof (rule keeps_write, unfold keeps_def keeps_inside, rule triple_bnd[OF line_require[OF steady_const]], rule triple_bnd[OF line_mint])
  show "steady (\<lambda>t. True \<and> conversation_known m0 t c)" by simp
  show "triple (inside D m0 (\<lambda>t. (True \<and> conversation_known m0 t c) \<and> fresh m0 (se_store t) i \<and> \<not> conversation_known m0 t i))
      (\<lambda>t. let e = \<lparr>en_id = i, en_conversation = c, en_kind = ed_kind draft, en_model = ed_model draft,
                   en_data = ed_data draft, en_head = resolve_head i (ed_head draft), en_edits = ed_edits draft,
                   en_task = tx_task t\<rparr> in (Inr e, push_write (WEntry e) t)) (\<lambda>_. tx_ok D m0) (tx_ok D m0)" for i
    unfolding Let_def by (rule line_done) (auto intro: push_write_ok)
qed

lemma keeps_createSubmission: "keeps D m0 (createSubmission create)"
  unfolding createSubmission_def
  by (rule keeps_write, unfold keeps_def keeps_inside Let_def,
      rule triple_bnd[OF line_require[OF steady_const] triple_bnd[OF line_mint triple_bnd[OF triple_changed[where Q = "\<lambda>_. tx_ok D m0"] triple_ret]]])
    (auto simp: inside_def intro!: put_submission_staged)

lemma keeps_change: "keeps D m0 (change_submission i change)"
proof -
  have "tx_ok D m0 (t\<lparr>tx_changes := tx_changes t @ [(i, change)]\<rparr>)" if "tx_ok D m0 t" for t
    by (rule tx_ok_calm[OF that])
      (use tx_okD(1)[OF that] session_ok_cong[of t "t\<lparr>tx_changes := tx_changes t @ [(i, change)]\<rparr>" D]
        in \<open>auto simp: calm_def candidate_def fun_eq_iff loads_kept_def same_cache_def\<close>)
  then show ?thesis unfolding change_submission_def by (intro keeps_write) (simp add: keeps_def triple_changed)
qed

lemma line_owner:
  assumes "steady F"
  shows "triple (inside D m0 F) (owner_of ownership) (\<lambda>_. inside D m0 F) (tx_ok D m0)"
proof (cases ownership)
  case Ownerless
  then show ?thesis by (simp add: owner_of_def triple_ret)
next
  case (OwnedByTask i)
  then show ?thesis unfolding owner_of_def conversation_ownership.case
    by (auto intro!: triple_bnd[OF line_current[OF steady_touchable[OF assms]]] triple_ret line_throw simp: inside_def split: option.split)
qed

lemma line_task_owner: "triple (inside D m0 (\<lambda>_. True)) (task_owner options) (\<lambda>_. inside D m0 (\<lambda>_. True)) (tx_ok D m0)"
proof (cases "to_ownership options")
  case ByConversation
  then show ?thesis by (simp add: task_owner_def triple_ret)
next
  case (ByTask i)
  then show ?thesis unfolding task_owner_def ByTask task_ownership.case
    by (auto intro!: triple_bnd[OF line_current[OF steady_touchable[OF steady_const]]] triple_ret line_throw simp: inside_def split: option.split)
qed

lemma keeps_createTask: "keeps D m0 (createTask d input options)"
  unfolding createTask_def
proof (rule keeps_write, unfold keeps_def keeps_inside, rule triple_bnd[OF line_task_owner])
  fix owner :: "task option"
  have new: "triple (inside D m0 (\<lambda>_. True)) (bnd (requireConversation c) (\<lambda>_.
               bnd (given (called_back (td_initial d input))) (\<lambda>checkpoint.
               bnd mint (\<lambda>i.
               bnd (changed (write_task i
                      (TaskCreate (new_task i c d input (map_option tk_id owner) options checkpoint))))
                 (\<lambda>_. ret i))))) (\<lambda>_. tx_ok D m0) (tx_ok D m0)" for c
    by (rule triple_bnd[OF line_require[OF steady_const] triple_bnd[OF line_given triple_bnd[OF line_mint
              triple_bnd[OF triple_changed[where Q = "\<lambda>_. tx_ok D m0"] triple_ret]]]])
      (auto simp: inside_def new_task_def intro!: write_task_ok)
  show "triple (inside D m0 (\<lambda>_. True)) (\<lambda>t. case task_conversation owner options t of
             None \<Rightarrow> (Inl NeedsConversation, t)
           | Some c \<Rightarrow>
               bnd (requireConversation c) (\<lambda>_.
               bnd (given (called_back (td_initial d input))) (\<lambda>checkpoint.
               bnd mint (\<lambda>i.
               bnd (changed (write_task i
                      (TaskCreate (new_task i c d input (map_option tk_id owner) options checkpoint))))
                 (\<lambda>_. ret i)))) t) (\<lambda>_. tx_ok D m0) (tx_ok D m0)"
    using new by (auto simp: triple_def inside_def split: option.split)
qed

lemma stamp_fields [simp]: "tk_id (stampTimes now v previous) = tk_id v" "tk_conversation (stampTimes now v previous) = tk_conversation v"
  "tk_status (stampTimes now v previous) = tk_status v"
  by (simp_all add: stampTimes_def tk_status_def)

lemma keeps_setTask: "keeps D m0 (setTask v)"
  unfolding setTask_def
proof (rule keeps_write, unfold keeps_def keeps_inside, rule triple_bnd[OF line_touch[OF steady_touchable[OF steady_const]]])
  show "triple (inside D m0 (\<lambda>_. True)) (\<lambda>t.
       let previous = candidate t (tk_id v);
           stamped = stampTimes (se_now t) v (map_option written_task previous)
       in case previous of
            None \<Rightarrow> (Inr (), write_task (tk_id v) (TaskReplace stamped) t)
          | Some w \<Rightarrow>
              if tk_status (written_task w) = TTerminal then (Inl (TerminalCandidate (tk_id v)), t)
              else if tk_conversation (written_task w) \<noteq> tk_conversation v then (Inl (MovesConversation (tk_id v)), t)
              else (Inr (), write_task (tk_id v)
                     (case w of TaskCreate _ \<Rightarrow> TaskCreate stamped | TaskReplace _ \<Rightarrow> TaskReplace stamped) t))
     (\<lambda>_. tx_ok D m0) (tx_ok D m0)"
    using tx_okD(4)
    by (auto simp: triple_def inside_def Let_def tasks_staged_def intro!: write_task_ok split: option.split task_write.splits)
qed

subsection \<open>Entries of documents\<close>

definition vacant :: "doc_address \<Rightarrow> doc_entry list \<Rightarrow> bool" where
  "vacant k docs \<longleftrightarrow> (\<forall>e \<in> set docs. de_address e = k \<longrightarrow> de_target e = None \<or> de_retire e)"

lemma push_grows: "grows t (push_document e t)"
  by (simp add: grows_def same_cache_def push_document_def candidate_def)

lemma push_layered:
  assumes "layered docs" "vacant (de_address e) docs" "\<not> stored_target (de_target e)"
  shows "layered (docs @ [e])"
  unfolding layered_def
proof (intro allI impI)
  fix i j assume ij: "i < j" "j < length (docs @ [e])"
  show "before ((docs @ [e]) ! i) ((docs @ [e]) ! j)"
  proof (cases "j < length docs")
    case True
    with ij assms(1) show ?thesis by (simp add: layered_def nth_append)
  next
    case False
    with ij have "j = length docs" "docs ! i \<in> set docs" by auto
    with ij assms(2,3) show ?thesis by (simp add: before_def vacant_def nth_append)
  qed
qed

lemma last_push:
  "last_at docs k n \<Longrightarrow> de_address e \<noteq> k \<Longrightarrow> last_at (docs @ [e]) k n" "last_at (docs @ [e]) (de_address e) (length docs)"
  unfolding last_at_def by (auto simp: nth_append less_Suc_eq)

lemma push_documents:
  assumes "documents_staged D m0 t" "entry_staged D m0 t e" "acquired e" "vacant (de_address e) (tx_documents t)"
    "\<not> stored_target (de_target e)"
  shows "documents_staged D m0 (push_document e t)"
proof -
  let ?t = "push_document e t"
  have docs: "tx_documents ?t = tx_documents t @ [e]" "tx_latest ?t = (tx_latest t)(de_address e \<mapsto> length (tx_documents t))"
    by (simp_all add: push_document_def)
  have "latest_staged ?t"
    unfolding latest_staged_def docs
  proof
    fix k
    show "case ((tx_latest t)(de_address e \<mapsto> length (tx_documents t))) k of
        None \<Rightarrow> \<forall>e' \<in> set (tx_documents t @ [e]). de_address e' \<noteq> k
      | Some n \<Rightarrow> last_at (tx_documents t @ [e]) k n \<and> acquired ((tx_documents t @ [e]) ! n)"
    proof (cases "k = de_address e")
      case True
      then show ?thesis using last_push(2) assms(3) by simp
    next
      case False
      have "case tx_latest t k of None \<Rightarrow> (\<forall>e \<in> set (tx_documents t). de_address e \<noteq> k)
         | Some n \<Rightarrow> last_at (tx_documents t) k n \<and> acquired (tx_documents t ! n)"
        using assms(1) unfolding documents_staged_def latest_staged_def by blast
      with False show ?thesis using last_push(1)[of "tx_documents t" k _ e]
        by (auto split: option.splits simp: nth_append last_at_def)
    qed
  qed
  moreover have "layered (tx_documents ?t)"
    unfolding docs using push_layered assms(1,4,5) by (simp add: documents_staged_def)
  moreover have "\<forall>e' \<in> set (tx_documents ?t). entry_staged D m0 ?t e'"
    unfolding docs using assms(1,2) grows_entry[OF push_grows] by (auto simp: documents_staged_def)
  ultimately show ?thesis by (simp add: documents_staged_def)
qed

lemma tx_ok_documents:
  assumes "tx_ok D m0 t" "grows t t'" "documents_staged D m0 t'"
    and "tx_writes t' = tx_writes t" "tx_created t' = tx_created t" "tx_tasks t' = tx_tasks t" "tx_submissions t' = tx_submissions t"
  shows "tx_ok D m0 t'"
proof -
  note ok = tx_okD[OF assms(1)]
  have "same_cache t t'" using assms(2) by (simp add: grows_def)
  then have same: "session_ok D t'" "se_store t' = se_store t" using ok(1) session_ok_cong by (auto simp: same_cache_def)
  have "writes_staged m0 t'" using ok(3) grows_write[OF assms(2)] same(2) by (auto simp: writes_staged_def assms(4,5))
  moreover have "candidate t' = candidate t" by (simp add: candidate_def fun_eq_iff assms(6))
  then have "tasks_staged m0 t'" using ok(4) by (simp add: tasks_staged_def assms(6) same(2))
  moreover have "submissions_staged m0 t'" using ok(5) by (simp add: submissions_staged_def assms(7) same(2))
  ultimately show ?thesis using same ok(2) assms(3) by (simp add: tx_ok_def)
qed

lemma push_document_ok:
  assumes "tx_ok D m0 t" "entry_staged D m0 t e" "acquired e" "vacant (de_address e) (tx_documents t)"
    "\<not> stored_target (de_target e)"
  shows "tx_ok D m0 (push_document e t)"
  by (rule tx_ok_documents[OF assms(1) push_grows])
    (use push_documents[OF tx_okD(6)[OF assms(1)] assms(2-5)] in \<open>simp_all add: push_document_def\<close>)

text \<open>Changing one entry.\<close>

lemma set_fields:
  "tx_documents (set_document n f t) = (tx_documents t)[n := f (tx_documents t ! n)]" "grows t (set_document n f t)"
  "tx_latest (set_document n f t) = tx_latest t" "candidate (set_document n f t) = candidate t"
  "se_store (set_document n f t) = se_store t" "se_documents (set_document n f t) = se_documents t"
  "tx_created (set_document n f t) = tx_created t"
  by (simp_all add: set_document_def grows_def same_cache_def candidate_def fun_eq_iff)

definition replaces :: "doc_entry list \<Rightarrow> nat \<Rightarrow> doc_entry \<Rightarrow> bool" where
  "replaces docs n e \<longleftrightarrow>
     de_address e = de_address (docs ! n)
     \<and> (\<forall>j. n < j \<longrightarrow> j < length docs \<longrightarrow> before (docs ! n) (docs ! j) \<longrightarrow> before e (docs ! j))
     \<and> (\<forall>i. i < n \<longrightarrow> before (docs ! i) (docs ! n) \<longrightarrow> before (docs ! i) e)
     \<and> (acquired (docs ! n) \<longrightarrow> acquired e)"

lemma replace_layered:
  assumes "layered docs" "n < length docs" "replaces docs n e"
  shows "layered (docs[n := e])"
  unfolding layered_def
proof (intro allI impI)
  fix i j assume ij: "i < j" "j < length (docs[n := e])"
  then have "before (docs ! i) (docs ! j)" using assms(1) by (simp add: layered_def)
  with ij assms(2,3) show "before (docs[n := e] ! i) (docs[n := e] ! j)"
    by (cases "i = n"; cases "j = n") (auto simp: replaces_def)
qed

lemma set_address:
  assumes "n < length docs" "de_address e = de_address (docs ! n)"
  shows "map de_address (docs[n := e]) = map de_address docs"
  by (rule nth_equalityI) (use assms in \<open>auto simp: nth_list_update\<close>)

lemma last_addresses: "map de_address docs' = map de_address docs \<Longrightarrow> last_at docs' k n = last_at docs k n"
  unfolding last_at_def by (metis length_map nth_map)

lemma set_document_ok:
  assumes "tx_ok D m0 t" "n < length (tx_documents t)" "replaces (tx_documents t) n (f (tx_documents t ! n))"
    and "entry_staged D m0 t (f (tx_documents t ! n))"
  shows "tx_ok D m0 (set_document n f t)"
proof (rule tx_ok_documents[OF assms(1) set_fields(2)])
  let ?t = "set_document n f t" and ?docs = "tx_documents t" let ?e = "f (?docs ! n)"
  note staged = tx_okD(6)[OF assms(1), unfolded documents_staged_def]
  have addr: "map de_address (?docs[n := ?e]) = map de_address ?docs"
    using set_address[OF assms(2)] assms(3) by (simp add: replaces_def)
  have "latest_staged ?t"
    unfolding latest_staged_def set_fields last_addresses[OF addr]
  proof
    fix k
    have old: "case tx_latest t k of None \<Rightarrow> (\<forall>e \<in> set ?docs. de_address e \<noteq> k)
         | Some n \<Rightarrow> last_at ?docs k n \<and> acquired (?docs ! n)"
      using staged unfolding latest_staged_def by blast
    have mem: "(\<forall>e \<in> set ds. de_address e \<noteq> k) \<longleftrightarrow> k \<notin> set (map de_address ds)" for ds by auto
    have "(\<forall>e \<in> set (?docs[n := ?e]). de_address e \<noteq> k) \<longleftrightarrow> (\<forall>e \<in> set ?docs. de_address e \<noteq> k)"
      unfolding mem addr ..
    moreover have "acquired (?docs ! m) \<Longrightarrow> acquired (?docs[n := ?e] ! m)" for m
      using assms(2,3) by (cases "m = n") (simp_all add: replaces_def)
    ultimately show "case tx_latest t k of None \<Rightarrow> (\<forall>e \<in> set (?docs[n := ?e]). de_address e \<noteq> k)
         | Some m \<Rightarrow> last_at ?docs k m \<and> acquired (?docs[n := ?e] ! m)"
      using old by (cases "tx_latest t k") simp_all
  qed
  moreover have "layered (tx_documents ?t)" unfolding set_fields using replace_layered staged assms(2,3) by blast
  moreover have "\<forall>e \<in> set (tx_documents ?t). entry_staged D m0 ?t e"
    unfolding set_fields using staged assms(4) grows_entry[OF set_fields(2)]
    by (fastforce dest: set_update_subset_insert[THEN subsetD])
  ultimately show "documents_staged D m0 ?t" by (simp add: documents_staged_def)
qed (simp_all add: set_document_def)

end
