(* ===== verification/Session_Drafts.thy ===== *)
theory Session_Drafts
  imports Session_Calls
begin

text \<open>
  Forks, drafts and retirements inside a transaction, and with them every call of a commit callback: each
  keeps what holds between two calls, whether it succeeds or fails.
\<close>

subsection \<open>The document copies of a fork\<close>

lemma entry_in_found:
  assumes "store_ok m" "forks_ok m" "entry_in m c i = Some (Inr (Some (e, seq)))"
  shows "ms_conversations m c \<noteq> None \<and> ms_entries m i \<noteq> None"
proof -
  from assms(3) obtain r where r: "visibleEntries m c (Some i) (Some i) 1 = Some r"
    by (auto simp: entry_in_def bind_eq_Some_conv split: if_splits)
  with assms(3) have "\<exists>es. r = Inr es \<and> es \<noteq> []"
    by (cases r) (auto simp: entry_in_def split: if_splits list.splits)
  note r = r this
  show ?thesis
  proof (cases "ms_conversations m c")
    case None
    with r show ?thesis by (auto simp: visibleEntries_def)
  next
    case (Some v)
    have "visibleEntries m c (Some i) (Some i) 1 = Some (Inr (take 1 (in_order Descending (visible_list m c (Some i) (Some i)))))"
      using visible_in_order_list[OF assms(1,2) Some, of Descending "Some i" "Some i" 1] by (simp add: visible_in_order_def)
    with r have "visible_list m c (Some i) (Some i) \<noteq> []" by (auto simp: in_order_def)
    then have "sorted_list_of_set {j. visible m c (Some i) j \<and> \<not> below j (Some i)} \<noteq> []"
      by (simp add: visible_list_def)
    then have "{j. visible m c (Some i) j \<and> \<not> below j (Some i)} \<noteq> {}" by force
    then obtain j where j: "visible m c (Some i) j" "\<not> below j (Some i)" by blast
    with visible_entry[OF j(1)] have "j = i" "ms_entries m j \<noteq> None" by (auto simp: below_def above_def)
    with Some show ?thesis by simp
  qed
qed

definition copies_staged :: "store \<Rightarrow> store \<Rightarrow> int \<Rightarrow> fork_copy list \<Rightarrow> bool" where
  "copies_staged m0 m child copies \<longleftrightarrow>
     (\<forall>(r, _) \<in> set copies. dc_scope r = ConversationScope child \<and> fresh m0 m (dc_id r))
     \<and> distinct (map (\<lambda>(r, _). addressId r) copies)"

lemma steady_copies [simp]: "steady (\<lambda>t. copies_staged m0 (se_store t) child copies)"
  using calm_fresh by (fastforce simp: steady_def copies_staged_def)

lemma copies_Nil [simp]: "copies_staged m0 m child []"
  by (simp add: copies_staged_def)

lemma line_copy_source:
  assumes "steady F"
  shows "triple (inside D m0 (\<lambda>t. F t \<and> copies_staged m0 (se_store t) child copies)) (copy_source child policy p source copies)
    (\<lambda>copies'. inside D m0 (\<lambda>t. F t \<and> copies_staged m0 (se_store t) child copies')) (tx_ok D m0)"
proof (cases "\<not> in_conversation (dc_scope source) \<or> dc_fork source \<noteq> Some policy")
  case True
  then show ?thesis by (simp add: copy_source_def triple_ret)
next
  case False
  have st: "steady (\<lambda>t. F t \<and> copies_staged m0 (se_store t) child copies)" by (rule steady_conj[OF assms steady_copies])
  show ?thesis
    unfolding copy_source_def if_not_P[OF False] Let_def
    by (rule triple_bnd[OF line_mint[OF st]])
      (auto simp: triple_def inside_def throw_def ret_def copies_staged_def fork_record_def)
qed

lemma line_copy_sources:
  assumes "steady F"
  shows "triple (inside D m0 (\<lambda>t. F t \<and> copies_staged m0 (se_store t) child copies)) (copy_sources child policy p rs copies)
    (\<lambda>copies'. inside D m0 (\<lambda>t. F t \<and> copies_staged m0 (se_store t) child copies')) (tx_ok D m0)"
proof (induction rs arbitrary: copies)
  case (Cons r rs)
  show ?case unfolding copy_sources.simps by (rule triple_bnd[OF line_copy_source[OF assms] Cons.IH])
qed (simp add: triple_ret)

text \<open>A step in a given state, with facts for a result.\<close>

definition ends :: "doc_definition set \<Rightarrow> store \<Rightarrow> ('a \<Rightarrow> tx \<Rightarrow> bool) \<Rightarrow> (session_error + 'a) \<times> tx \<Rightarrow> bool" where
  "ends D m0 F r \<longleftrightarrow> (case r of (Inr x, t) \<Rightarrow> inside D m0 (F x) t | (Inl e, t) \<Rightarrow> tx_ok D m0 t)"

lemma triple_ends: "triple (inside D m0 F) f (\<lambda>x. inside D m0 (G x)) (tx_ok D m0) \<longleftrightarrow> (\<forall>t. inside D m0 F t \<longrightarrow> ends D m0 G (f t))"
  by (auto simp: triple_def ends_def split: prod.splits sum.splits)

lemma collect_ends:
  assumes "steady F" "collect_pages scope p policy child cursor copies t = Some r"
    and "inside D m0 (\<lambda>t. F t \<and> copies_staged m0 (se_store t) child copies) t"
  shows "ends D m0 (\<lambda>copies' t. F t \<and> copies_staged m0 (se_store t) child copies') r"
  using assms(2,3)
proof (induction rule: collect_pages.raw_induct[rotated, consumes 1, case_names step])
  case (step rec scope p policy child cursor copies t r)
  let ?G = "\<lambda>copies t. F t \<and> copies_staged m0 (se_store t) child copies"
  let ?scan = "reads (\<lambda>m. scanDocuments m \<lparr>dq_scope = scope, dq_at = p, dq_kind = None\<rparr> page_size cursor) :: (tx, doc_record page) act"
  obtain pg t1 where scan: "?scan t = (pg, t1)" by (cases "?scan t")
  from line_reads[of D m0 "?G copies" "\<lambda>m. scanDocuments m \<lparr>dq_scope = scope, dq_at = p, dq_kind = None\<rparr> page_size cursor"] step(3)
  have s1: "case pg of Inr x \<Rightarrow> inside D m0 (?G copies) t1 | Inl e \<Rightarrow> tx_ok D m0 t1"
    using scan by (fastforce simp: triple_def inside_def split: sum.splits)
  show ?case
  proof (cases pg)
    case (Inl e)
    with step(2) scan s1 show ?thesis by (auto simp: ends_def)
  next
    case (Inr found)
    obtain cs t2 where copied: "copy_sources child policy p (pg_items found) copies t1 = (cs, t2)"
      by (cases "copy_sources child policy p (pg_items found) copies t1")
    from line_copy_sources[OF assms(1), of D m0 child copies policy p "pg_items found"] s1 Inr
    have s2: "case cs of Inr x \<Rightarrow> inside D m0 (?G x) t2 | Inl e \<Rightarrow> tx_ok D m0 t2"
      using copied by (fastforce simp: triple_def split: sum.splits)
    show ?thesis
    proof (cases cs)
      case (Inl e)
      with step(2) scan Inr copied s2 show ?thesis by (auto simp: ends_def)
    next
      case (Inr copies')
      note cs = Inr
      show ?thesis
      proof (cases "pg_next found")
        case None
        with step(2) scan \<open>pg = Inr found\<close> copied cs s2 show ?thesis by (auto simp: ends_def)
      next
        case (Some c)
        with step(2) scan \<open>pg = Inr found\<close> copied cs have "rec scope p policy child (Some c) copies' t2 = Some r" by simp
        from step(1)[OF this] s2 cs show ?thesis by simp
      qed
    qed
  qed
qed

lemma line_collect:
  assumes "steady F"
  shows "triple (inside D m0 (\<lambda>t. F t \<and> copies_staged m0 (se_store t) child copies)) (collectCopies scope p policy child copies)
    (\<lambda>copies'. inside D m0 (\<lambda>t. F t \<and> copies_staged m0 (se_store t) child copies')) (tx_ok D m0)"
  unfolding triple_ends collectCopies_def
  using collect_ends[OF assms, of scope p policy child None copies _ _ D m0]
  by (auto simp: ends_def inside_def split: option.split)

lemma line_fork_copies:
  assumes "steady F"
  shows "triple (inside D m0 F) (prepareForkDocumentCopies parent at_id child)
    (\<lambda>copies. inside D m0 (\<lambda>t. (F t \<and> ms_conversations m0 parent \<noteq> None \<and> ms_entries m0 at_id \<noteq> None)
        \<and> copies_staged m0 (se_store t) child copies)) (tx_ok D m0)"
  unfolding prepareForkDocumentCopies_def
proof (rule triple_bnd[OF line_guard])
  fix found :: "(entry \<times> int option) option"
  let ?G = "\<lambda>t. F t \<and> ms_conversations m0 parent \<noteq> None \<and> ms_entries m0 at_id \<noteq> None"
  let ?pre = "inside D m0 (\<lambda>t. F t \<and> entry_in (se_store t) parent at_id = Some (Inr found))"
  show "triple ?pre
      (case found of
          None \<Rightarrow> throw (EntryNotVisible at_id parent)
        | Some (e, seq) \<Rightarrow>
            let p = AtSeq (case seq of None \<Rightarrow> 0 | Some t \<Rightarrow> t) in
            bnd (collectCopies (ConversationScope (en_conversation e)) p ForkAsOf child [])
              (collectCopies (ConversationScope parent) Current ForkCurrent child))
      (\<lambda>copies. inside D m0 (\<lambda>t. ?G t \<and> copies_staged m0 (se_store t) child copies)) (tx_ok D m0)"
  proof (cases found)
    case (Some es)
    obtain e seq where es: "es = (e, seq)" by (cases es)
    have st: "steady ?G" by (rule steady_conj[OF assms steady_const])
    have "inside D m0 (\<lambda>t. ?G t \<and> copies_staged m0 (se_store t) child []) t" if "?pre t" for t
    proof -
      from that have ok: "tx_ok D m0 t" and e: "F t" "entry_in (se_store t) parent at_id = Some (Inr (Some (e, seq)))"
        by (simp_all add: inside_def Some es)
      note kernel = session_okD(1)[OF tx_okD(1)[OF ok]] and same = minted_fields(2,3)[OF tx_okD(2)[OF ok]]
      then have "store_ok (se_store t)" "forks_ok (se_store t)" using forks_known_ok by (auto simp: kernel_ok_def)
      from entry_in_found[OF this e(2)] show ?thesis using ok e(1) by (simp add: inside_def same)
    qed
    then show ?thesis
      unfolding Some es option.case prod.case Let_def
      by (rule triple_pre[OF _ triple_bnd[OF line_collect[OF st] line_collect[OF st]]])
  qed (simp add: line_throw)
qed

subsection \<open>Conversations\<close>

lemma create_scope: "create_staged m0 t k r \<Longrightarrow> scope_known m0 t (ad_scope k)"
  by (auto simp: create_staged_def recordAddressKey_def)

text \<open>No entry has a target at an address of a conversation that is not known.\<close>

lemma unknown_vacant:
  assumes "tx_ok D m0 t" "\<not> conversation_known m0 t c" "ad_scope k = ConversationScope c"
  shows "vacant k (tx_documents t)"
  unfolding vacant_def
proof (intro ballI impI)
  fix e assume e: "e \<in> set (tx_documents t)" "de_address e = k"
  note ok = tx_okD[OF assms(1)]
  note same = minted_fields(6,2)[OF ok(2)]
  have no: False if "ms_documents m0 i = Some d" "recordAddressKey (ds_record d) = k" for i d
  proof -
    from that(2) assms(3) have "dc_scope (ds_record d) = ConversationScope c" by (auto simp: recordAddressKey_def)
    moreover have "documents_known (se_store t)" using session_okD(1)[OF ok(1)] by (simp add: kernel_ok_def)
    ultimately have "ms_conversations m0 c \<noteq> None" using that(1) same unfolding documents_known_def by metis
    with assms(2) show False by (simp add: conversation_known_def)
  qed
  from ok(6) e have st: "\<forall>target. de_target e = Some target \<longrightarrow> target_staged D m0 t e target"
    by (simp add: documents_staged_def entry_staged_def)
  have "False" if "de_target e = Some target" for target
  proof (cases target)
    case (TLoaded l)
    with that st e(2) have "cached_ok D (se_store t) k l" using session_okD(3)[OF ok(1)] by auto
    then obtain d where "ms_documents m0 (dc_id (lo_record l)) = Some d" "ds_record d = lo_record l" "recordAddressKey (lo_record l) = k"
      by (auto simp: cached_ok_def same)
    with no[of "dc_id (lo_record l)" d] show ?thesis by simp
  next
    case (TRetireOnly r)
    with that st e(2) have "live_record m0 k r" by auto
    with no show ?thesis by (auto simp: live_record_def)
  qed (use that st e(2) assms(2,3) create_scope[of m0 t k] in auto)
  then show "de_target e = None \<or> de_retire e" by (cases "de_target e") auto
qed

definition copy_entry :: "fork_copy \<Rightarrow> doc_entry" where
  "copy_entry copy =
     (let (r, source, p) = copy in
      \<lparr>de_address = addressId r, de_definition = None, de_draft = None, de_target = Some (TForkCopy r source p),
       de_change = None, de_retire = False\<rparr>)"

lemma push_copy_document:
  "push_copy copy t = push_document (copy_entry copy) (t\<lparr>tx_sources := tx_sources t @ [fst (snd copy)]\<rparr>)"
  by (cases copy) (simp add: push_copy_def copy_entry_def)

lemma sources_ok: "tx_ok D m0 t \<Longrightarrow> tx_ok D m0 (t\<lparr>tx_sources := xs\<rparr>)"
  by (rule tx_ok_calm)
    (use session_ok_cong[of t "t\<lparr>tx_sources := xs\<rparr>" D] in \<open>auto simp: calm_def candidate_def fun_eq_iff loads_kept_def
      same_cache_def dest: tx_okD(1)\<close>)

lemma vacant_push: "vacant k docs \<Longrightarrow> de_address e \<noteq> k \<Longrightarrow> vacant k (docs @ [e])"
  by (auto simp: vacant_def)

lemma push_copies_ok:
  assumes "tx_ok D m0 t" "copies_staged m0 (se_store t) c copies" "conversation_known m0 t c"
    and "\<forall>k \<in> (\<lambda>(r, _). addressId r) ` set copies. vacant k (tx_documents t)"
  shows "tx_ok D m0 (fold push_copy copies t)"
  using assms
proof (induction copies arbitrary: t)
  case (Cons copy copies)
  obtain r source p where copy: "copy = (r, source, p)" by (cases copy)
  let ?s = "t\<lparr>tx_sources := tx_sources t @ [source]\<rparr>" let ?t = "push_copy copy t"
  have entry: "copy_entry copy = \<lparr>de_address = addressId r, de_definition = None, de_draft = None,
      de_target = Some (TForkCopy r source p), de_change = None, de_retire = False\<rparr>"
    by (simp add: copy_entry_def copy)
  have docs: "tx_documents ?s = tx_documents t" by simp
  have "entry_staged D m0 ?s (copy_entry copy)"
    using Cons.prems(2,3) unfolding entry by (simp add: entry_staged_def create_staged_def copies_staged_def copy conversation_known_def)
  then have ok: "tx_ok D m0 ?t"
    unfolding push_copy_document copy fst_conv snd_conv
    by (intro push_document_ok[OF sources_ok[OF Cons.prems(1)]])
      (use Cons.prems(4) copy in \<open>simp_all add: entry[unfolded copy] acquired_def\<close>)
  have t: "tx_documents ?t = tx_documents t @ [copy_entry copy]" "se_store ?t = se_store t" "tx_created ?t = tx_created t"
    by (simp_all add: push_copy_document push_document_def)
  have "copies_staged m0 (se_store ?t) c copies" "conversation_known m0 ?t c"
    using Cons.prems(2,3) t by (simp_all add: copies_staged_def conversation_known_def)
  moreover have "\<forall>k \<in> (\<lambda>(r, _). addressId r) ` set copies. vacant k (tx_documents ?t)"
  proof
    fix k assume k: "k \<in> (\<lambda>(r, _). addressId r) ` set copies"
    with Cons.prems(2) have "addressId r \<noteq> k" by (auto simp: copies_staged_def copy)
    moreover have "vacant k (tx_documents t)" using Cons.prems(4) k unfolding list.set image_insert by (blast intro: insertI2)
    ultimately show "vacant k (tx_documents ?t)" unfolding t by (intro vacant_push) (simp_all add: entry)
  qed
  ultimately show ?case using Cons.IH[OF ok] by simp
qed simp

lemma push_copies_commute:
  "fold push_copy copies (t\<lparr>tx_writes := w, tx_forked := f, tx_created := c\<rparr>)
   = (fold push_copy copies t)\<lparr>tx_writes := w, tx_forked := f, tx_created := c\<rparr>"
proof (induction copies arbitrary: t)
  case (Cons copy copies)
  have "push_copy copy (t\<lparr>tx_writes := w, tx_forked := f, tx_created := c\<rparr>)
      = (push_copy copy t)\<lparr>tx_writes := w, tx_forked := f, tx_created := c\<rparr>"
    by (simp add: push_copy_document push_document_def)
  with Cons.IH show ?case by simp
qed simp

lemma push_copies_writes: "tx_writes (fold push_copy copies t) = tx_writes t"
  by (induction copies arbitrary: t) (simp_all add: push_copy_document push_document_def)

definition child_ok :: "store \<Rightarrow> (int \<times> int) option \<Rightarrow> int \<Rightarrow> tx \<Rightarrow> bool" where
  "child_ok m0 parent i t \<longleftrightarrow>
     (case parent of
        None \<Rightarrow> i = root_conversation \<or> fresh m0 (se_store t) i
      | Some (p, a) \<Rightarrow> fresh m0 (se_store t) i \<and> \<not> conversation_known m0 t i)"

lemma steady_child [simp]: "steady (child_ok m0 parent i)"
  by (auto simp: steady_def child_ok_def calm_fresh calm_known split: option.split)

lemma stage_conversation_ok:
  assumes "tx_ok D m0 t" "child_ok m0 (cv_parent c) (cv_id c) t" "copies_staged m0 (se_store t) (cv_id c) copies"
    and "\<And>p a. cv_parent c = Some (p, a) \<Longrightarrow> ms_conversations m0 p \<noteq> None \<and> ms_entries m0 a \<noteq> None"
    and "cv_parent c = None \<Longrightarrow> copies = []"
  shows "tx_ok D m0 (push_write (WConversation c)
     ((fold push_copy copies t)\<lparr>tx_forked := f, tx_created := tx_created t @ [cv_id c]\<rparr>))"
proof -
  let ?t = "t\<lparr>tx_writes := tx_writes t @ [WConversation c], tx_forked := f, tx_created := tx_created t @ [cv_id c]\<rparr>"
  have g: "grows t ?t" by (auto simp: grows_def same_cache_def candidate_def)
  have ok: "tx_ok D m0 ?t"
  proof (rule tx_ok_grows[OF assms(1) g])
    show "writes_staged m0 ?t"
      using tx_okD(3)[OF assms(1)] grows_write[OF g] assms(2,4)
      by (auto simp: writes_staged_def child_ok_def fresh_def split: option.splits)
    show "tasks_staged m0 ?t" "submissions_staged m0 ?t"
      using tx_okD(4,5)[OF assms(1)] by (simp_all add: tasks_staged_def submissions_staged_def candidate_def)
  qed simp_all
  have "\<forall>k \<in> (\<lambda>(r, _). addressId r) ` set copies. vacant k (tx_documents ?t)"
  proof (cases "cv_parent c")
    case (Some pa)
    with assms(2) have unknown: "\<not> conversation_known m0 t (cv_id c)" by (auto simp: child_ok_def split: option.splits)
    have "vacant (addressId r) (tx_documents t)" if "(r, s) \<in> set copies" for r s
      using unknown_vacant[OF assms(1) unknown, of "addressId r"] assms(3) that
      by (auto simp: copies_staged_def recordAddressKey_def)
    then show ?thesis by auto
  qed (use assms(5) in simp)
  then have "tx_ok D m0 (fold push_copy copies ?t)"
    using push_copies_ok[OF ok, of "cv_id c" copies] assms(3) by (simp add: conversation_known_def)
  moreover have "fold push_copy copies ?t = push_write (WConversation c)
     ((fold push_copy copies t)\<lparr>tx_forked := f, tx_created := tx_created t @ [cv_id c]\<rparr>)"
    by (simp add: push_copies_commute push_write_def push_copies_writes)
  ultimately show ?thesis by simp
qed

lemma line_given_id:
  "triple (inside D m0 (\<lambda>_. True)) (case reserved of Some i \<Rightarrow> ret i | None \<Rightarrow> mint)
     (\<lambda>i. inside D m0 (\<lambda>t. (\<forall>j. reserved = Some j \<longrightarrow> i = j) \<and> (reserved = None \<longrightarrow> fresh m0 (se_store t) i \<and> \<not> conversation_known m0 t i)))
     (tx_ok D m0)"
proof (cases reserved)
  case None
  have "triple (inside D m0 (\<lambda>_. True)) mint
     (\<lambda>i. inside D m0 (\<lambda>t. fresh m0 (se_store t) i \<and> \<not> conversation_known m0 t i)) (tx_ok D m0)"
    by (rule line_weaken[OF line_mint]) simp_all
  then show ?thesis unfolding None by simp
qed (auto simp: inside_def intro: triple_ret)

lemma keeps_stageConversation:
  assumes "reserved = None \<or> reserved = Some root_conversation \<and> parent = None"
  shows "keeps D m0 (stageConversation parent ownership reserved)"
  unfolding keeps_def keeps_inside stageConversation_def
proof (rule triple_bnd[OF line_given_id])
  fix i
  let ?F = "child_ok m0 parent i"
  have copies: "triple (inside D m0 ?F) (case parent of None \<Rightarrow> ret [] | Some (p, at_id) \<Rightarrow> prepareForkDocumentCopies p at_id i)
      (\<lambda>copies. inside D m0 (\<lambda>t. ?F t \<and> copies_staged m0 (se_store t) i copies
         \<and> (\<forall>p a. parent = Some (p, a) \<longrightarrow> ms_conversations m0 p \<noteq> None \<and> ms_entries m0 a \<noteq> None)
         \<and> (parent = None \<longrightarrow> copies = []))) (tx_ok D m0)"
  proof (cases parent)
    case (Some pa)
    obtain p a where pa: "pa = (p, a)" by (cases pa)
    have "steady ?F" by simp
    from line_fork_copies[OF this, of D m0 p a i] show ?thesis
      unfolding Some pa option.case prod.case by (rule line_weaken) simp
  qed (auto simp: inside_def intro: triple_ret)
  show "triple (inside D m0 (\<lambda>t. (\<forall>j. reserved = Some j \<longrightarrow> i = j) \<and>
          (reserved = None \<longrightarrow> fresh m0 (se_store t) i \<and> \<not> conversation_known m0 t i)))
     (bnd (owner_of ownership) (\<lambda>owner.
        bnd (case parent of None \<Rightarrow> ret [] | Some (p, at_id) \<Rightarrow> prepareForkDocumentCopies p at_id i) (\<lambda>copies.
          let c = \<lparr>cv_id = i, cv_parent = parent, cv_owner = owner\<rparr> in
          bnd (changed (\<lambda>t. push_write (WConversation c)
              ((fold push_copy copies t)
                 \<lparr>tx_forked := tx_forked t @ (case parent of None \<Rightarrow> [] | Some (p, _) \<Rightarrow> [p]),
                  tx_created := tx_created t @ [i]\<rparr>)))
         (\<lambda>_. ret c)))) (\<lambda>_. tx_ok D m0) (tx_ok D m0)"
  proof (rule line_pre[where G = ?F, OF triple_bnd[OF line_owner triple_bnd[OF copies]]], goal_cases)
    case (2 owner copies)
    show ?case unfolding Let_def
    proof (rule triple_bnd[OF triple_changed[where Q = "\<lambda>_. tx_ok D m0"] triple_ret])
      fix t assume t: "inside D m0 (\<lambda>t. ?F t \<and> copies_staged m0 (se_store t) i copies
         \<and> (\<forall>p a. parent = Some (p, a) \<longrightarrow> ms_conversations m0 p \<noteq> None \<and> ms_entries m0 a \<noteq> None)
         \<and> (parent = None \<longrightarrow> copies = [])) t"
      show "tx_ok D m0 (push_write (WConversation \<lparr>cv_id = i, cv_parent = parent, cv_owner = owner\<rparr>)
              ((fold push_copy copies t)
                 \<lparr>tx_forked := tx_forked t @ (case parent of None \<Rightarrow> [] | Some (p, _) \<Rightarrow> [p]),
                  tx_created := tx_created t @ [i]\<rparr>))"
        using stage_conversation_ok[of D m0 t "\<lparr>cv_id = i, cv_parent = parent, cv_owner = owner\<rparr>" copies] t
        by (simp add: inside_def)
    qed
  qed (use assms in \<open>auto simp: child_ok_def split: option.split\<close>)
qed

subsection \<open>Drafts\<close>

lemma triple_snd: "triple P f (\<lambda>_. I) I \<longleftrightarrow> (\<forall>s. P s \<longrightarrow> I (snd (f s)))"
proof -
  have "(case f s of (Inr x, s') \<Rightarrow> I s' | (Inl e, s') \<Rightarrow> I s') = I (snd (f s))" for s
    by (cases "f s"; cases "fst (f s)") auto
  then show ?thesis by (simp add: triple_def)
qed

lemma keeps_iff: "keeps D m0 f \<longleftrightarrow> (\<forall>t. tx_ok D m0 t \<longrightarrow> tx_ok D m0 (snd (f t)))"
  by (simp add: keeps_def triple_snd)

lemma after_inside:
  "triple (inside D m0 F) f (\<lambda>_. tx_ok D m0) (tx_ok D m0) \<Longrightarrow> tx_ok D m0 t \<Longrightarrow> F t \<Longrightarrow> tx_ok D m0 (snd (f t))"
  by (simp add: triple_snd inside_def)

text \<open>The entry of an acquisition that runs, the newest at its address; \<open>first\<close> if it is the only one.\<close>

definition slot :: "doc_definition option \<Rightarrow> doc_address \<Rightarrow> nat \<Rightarrow> doc_entry list \<Rightarrow> bool" where
  "slot d k n docs \<longleftrightarrow> last_at docs k n \<and> de_target (docs ! n) = None \<and> de_definition (docs ! n) = d"

definition first_at :: "doc_address \<Rightarrow> nat \<Rightarrow> doc_entry list \<Rightarrow> bool" where
  "first_at k n docs \<longleftrightarrow> (\<forall>i < n. de_address (docs ! i) \<noteq> k)"

lemma slot_unloaded: "slot d k n docs \<Longrightarrow> first_at k n docs \<Longrightarrow> unloaded k docs"
  unfolding slot_def first_at_def last_at_def unloaded_def
  by (auto simp: in_set_conv_nth) (metis linorder_neqE_nat option.distinct(1))

lemma slot_replaces:
  assumes "last_at docs k n" "first_at k n docs \<or> \<not> stored_target (de_target e)" "de_address e = k"
    "acquired (docs ! n) \<Longrightarrow> acquired e"
  shows "replaces docs n e"
  using assms unfolding replaces_def last_at_def first_at_def before_def by auto

lemma line_set:
  assumes "\<And>t. tx_ok D m0 t \<Longrightarrow> F t \<Longrightarrow> n < length (tx_documents t)"
    "\<And>t. tx_ok D m0 t \<Longrightarrow> F t \<Longrightarrow> replaces (tx_documents t) n (f (tx_documents t ! n))"
    "\<And>t. tx_ok D m0 t \<Longrightarrow> F t \<Longrightarrow> entry_staged D m0 t (f (tx_documents t ! n))"
  shows "triple (inside D m0 F) (changed (set_document n f)) (\<lambda>_. tx_ok D m0) (tx_ok D m0)"
  by (rule triple_changed) (auto simp: inside_def intro: set_document_ok assms)

lemma line_owner_exists:
  assumes "steady F"
  shows "triple (inside D m0 F) (owner_exists scope) (\<lambda>_. inside D m0 (\<lambda>t. F t \<and> scope_known m0 t scope)) (tx_ok D m0)"
proof (cases scope)
  case SessionScope
  then show ?thesis by (auto simp: owner_exists_def inside_def intro: triple_ret)
next
  case (ConversationScope c)
  then show ?thesis using line_require[OF assms, of D m0 c] by (simp add: owner_exists_def)
next
  case (TaskScope i)
  show ?thesis unfolding owner_exists_def TaskScope doc_scope.case
    by (rule triple_bnd[OF line_current[OF steady_touchable[OF assms]]])
      (auto simp: triple_def inside_def throw_def ret_def task_known_def live_task_def split: option.splits)
qed

lemma line_checked:
  "triple (inside D m0 F) (checked_loaded d l) (\<lambda>_. inside D m0 F) (tx_ok D m0)"
  by (rule checked_keeps) (simp add: inside_def)

lemma definition_safe:
  assumes "d \<in> D" "definitions_ok D"
  shows "version_safe (df_version d)" "df_initial d seed = Some v \<Longrightarrow> is_JObj v"
    "df_migrate d = Some g \<Longrightarrow> g v n = Some w \<Longrightarrow> is_JObj w"
proof -
  from assms have def: "definition_ok d" by (simp add: definitions_ok_def)
  then show "version_safe (df_version d)"
    by (auto simp: definition_ok_def validateDefinition_def version_safe_def split: if_splits)
  show "df_initial d seed = Some v \<Longrightarrow> is_JObj v" "df_migrate d = Some g \<Longrightarrow> g v n = Some w \<Longrightarrow> is_JObj w"
    using def unfolding definition_ok_def by blast+
qed

lemma acquire_ok:
  assumes "d \<in> D" "definitions_ok D" "ad_kind k = df_kind d"
  shows "triple (inside D m0 (\<lambda>t. slot (Some d) k n (tx_documents t) \<and> (skip \<or> first_at k n (tx_documents t))))
    (acquire owned n d k seed skip) (\<lambda>_. tx_ok D m0) (tx_ok D m0)"
proof -
  let ?F = "\<lambda>t. slot (Some d) k n (tx_documents t) \<and> (skip \<or> first_at k n (tx_documents t))"
  have st: "steady ?F" by (rule steady_documents)
  have find: "triple (inside D m0 ?F) (if skip then ret None else loadDocument owned d k)
      (\<lambda>found. inside D m0 (\<lambda>t. ?F t \<and> (case found of
         None \<Rightarrow> True
       | Some l \<Rightarrow> \<not> skip \<and> se_documents t k = Some l \<and> lo_version l = df_version d))) (tx_ok D m0)"
  proof (cases skip)
    case False
    have "unloaded k (tx_documents t)" if "?F t" for t using that False slot_unloaded by blast
    from line_load[OF st this assms, of m0 owned] False show ?thesis by (simp cong: option.case_cong)
  qed (auto simp: inside_def intro: triple_ret)
  have load: "triple (inside D m0 (\<lambda>t. ?F t \<and> (\<not> skip \<and> se_documents t k = Some l \<and> lo_version l = df_version d)))
      (bnd (checked_loaded d l) (\<lambda>_. changed (set_document n (open_change (TLoaded l))))) (\<lambda>_. tx_ok D m0) (tx_ok D m0)" for l
  proof (rule triple_bnd[OF line_checked line_set])
    fix t assume ok: "tx_ok D m0 t" and F: "?F t \<and> (\<not> skip \<and> se_documents t k = Some l \<and> lo_version l = df_version d)"
    let ?e = "tx_documents t ! n"
    from F have s: "slot (Some d) k n (tx_documents t)" "first_at k n (tx_documents t)" by auto
    then show "n < length (tx_documents t)" by (simp add: slot_def last_at_def)
    from s have e: "de_address ?e = k" "de_definition ?e = Some d" by (simp_all add: slot_def last_at_def)
    show "replaces (tx_documents t) n (open_change (TLoaded l) ?e)"
      by (rule slot_replaces[of _ k]) (use s e in \<open>auto simp: slot_def open_change_def acquired_def\<close>)
    show "entry_staged D m0 t (open_change (TLoaded l) ?e)"
      using F e assms(1) by (auto simp: entry_staged_def open_change_def)
  qed
  have create: "triple (inside D m0 (\<lambda>t. ?F t \<and> True))
      (bnd (owner_exists (ad_scope k)) (\<lambda>_.
            bnd (given (called_back (df_initial d seed))) (\<lambda>v.
            bnd mint (\<lambda>i.
              changed (set_document n (open_change (TCreated (documentCreate d k i) (df_version d) v)))))))
      (\<lambda>_. tx_ok D m0) (tx_ok D m0)"
  proof (rule triple_bnd[OF line_owner_exists triple_bnd[OF line_given triple_bnd[OF line_mint line_set]]], goal_cases)
    case 1
    show ?case using st by (rule steady_conj) simp
  next
    case (2 _ v)
    show ?case by (intro steady_conj st) simp_all
  next
    case (3 _ v i t)
    then show ?case by (simp add: slot_def last_at_def)
  next
    case (4 _ v i t)
    then show ?case
      by (intro slot_replaces[of _ k]) (auto simp: slot_def last_at_def open_change_def acquired_def)
  next
    case (5 _ v i t)
    then show ?case
      using definition_safe(1,2)[OF assms(1,2)]
      by (auto simp: slot_def last_at_def open_change_def entry_staged_def create_staged_def documentCreate_def
          recordAddressKey_def)
  qed
  show ?thesis unfolding acquire_def
  proof (rule triple_bnd[OF find])
    fix found
    show "triple (inside D m0 (\<lambda>t. ?F t \<and> (case found of
         None \<Rightarrow> True
       | Some l \<Rightarrow> \<not> skip \<and> se_documents t k = Some l \<and> lo_version l = df_version d)))
      (case found of
          Some l \<Rightarrow>
            bnd (checked_loaded d l) (\<lambda>_. changed (set_document n (open_change (TLoaded l))))
        | None \<Rightarrow>
            bnd (owner_exists (ad_scope k)) (\<lambda>_.
            bnd (given (called_back (df_initial d seed))) (\<lambda>v.
            bnd mint (\<lambda>i.
              changed (set_document n (open_change (TCreated (documentCreate d k i) (df_version d) v)))))))
      (\<lambda>_. tx_ok D m0) (tx_ok D m0)"
    proof (cases found)
      case None
      show ?thesis unfolding None option.case by (rule create)
    next
      case (Some l)
      show ?thesis unfolding Some option.case by (rule load)
    qed
  qed
qed

text \<open>The acquisition of a fork copy.\<close>

definition copy_slot :: "doc_address \<Rightarrow> nat \<Rightarrow> doc_create \<Rightarrow> int \<Rightarrow> doc_point \<Rightarrow> doc_entry list \<Rightarrow> bool" where
  "copy_slot k n r source p docs \<longleftrightarrow> last_at docs k n \<and> de_target (docs ! n) = Some (TForkCopy r source p) \<and> de_draft (docs ! n) \<noteq> None"

lemma materialized:
  assumes "materializeDocumentValue d r version x = Inr v" "d \<in> D" "definitions_ok D" "is_JObj x"
  shows "is_JObj v"
  using assms(1,4) definition_safe(3)[OF assms(2,3)]
  by (auto simp: materializeDocumentValue_def split: if_splits option.splits)

lemma acquireForkCopy_ok:
  assumes "d \<in> D" "definitions_ok D"
  shows "triple (inside D m0 (\<lambda>t. copy_slot k n r source p (tx_documents t)))
    (acquireForkCopy owned n d r source p) (\<lambda>_. tx_ok D m0) (tx_ok D m0)"
  unfolding acquireForkCopy_def
proof (rule triple_bnd[OF line_reads])
  fix stored
  let ?F = "\<lambda>t. copy_slot k n r source p (tx_documents t) \<and> document owned (se_store t) source p = Inr stored"
  let ?set = "\<lambda>v. changed (set_document n (\<lambda>e. open_change (TCreated r (df_version d) v) (e\<lparr>de_definition := Some d\<rparr>)))"
  have fill: "triple (inside D m0 (\<lambda>t. ?F t \<and> materializeDocumentValue d r (sd_version sd) (sd_value sd) = Inr v)) (?set v)
      (\<lambda>_. tx_ok D m0) (tx_ok D m0)" if sd: "stored = Some sd" for sd v
  proof (rule line_set)
    fix t assume ok: "tx_ok D m0 t" and F: "?F t \<and> materializeDocumentValue d r (sd_version sd) (sd_value sd) = Inr v"
    let ?e = "tx_documents t ! n"
    from F have s: "last_at (tx_documents t) k n" "de_target ?e = Some (TForkCopy r source p)" "de_draft ?e \<noteq> None"
      "de_address ?e = k" "n < length (tx_documents t)"
      by (auto simp: copy_slot_def last_at_def)
    show "n < length (tx_documents t)" by fact
    show "replaces (tx_documents t) n (open_change (TCreated r (df_version d) v) (?e\<lparr>de_definition := Some d\<rparr>))"
      by (rule slot_replaces[of _ k]) (use s in \<open>auto simp: open_change_def acquired_def\<close>)
    have "entry_staged D m0 t ?e"
      using tx_okD(6)[OF ok] s(5) by (simp add: documents_staged_def)
    then have "create_staged m0 t k r" using s(2,4) by (simp add: entry_staged_def)
    moreover have "is_JObj (sd_value sd)"
      using document_read[OF session_okD(1)[OF tx_okD(1)[OF ok]], of owned source p sd] F sd by blast
    ultimately show "entry_staged D m0 t (open_change (TCreated r (df_version d) v) (?e\<lparr>de_definition := Some d\<rparr>))"
      using F materialized[OF _ assms] definition_safe(1)[OF assms] s(4)
      by (auto simp: entry_staged_def open_change_def)
  qed
  show "triple (inside D m0 ?F)
      (case stored of
          None \<Rightarrow> throw (SourceGone source)
        | Some sd \<Rightarrow>
            if copy_differs (sd_record sd) r then throw (SourceDiffers source)
            else bnd (given (materializeDocumentValue d r (sd_version sd) (sd_value sd))) ?set)
      (\<lambda>_. tx_ok D m0) (tx_ok D m0)"
  proof (cases stored)
    case (Some sd)
    show ?thesis
    proof (cases "copy_differs (sd_record sd) r")
      case False
      show ?thesis unfolding Some option.case if_not_P[OF False]
        by (rule triple_bnd[OF line_given fill[OF Some, unfolded Some]])
    qed (simp add: Some line_throw)
  qed (simp add: line_throw)
qed

lemma draft_ok: "tx_ok D m0 t \<Longrightarrow> tx_ok D m0 (set_document n (draft_is res) t)"
proof (cases "n < length (tx_documents t)")
  case True
  let ?e = "tx_documents t ! n"
  assume ok: "tx_ok D m0 t"
  have "entry_staged D m0 t ?e" using tx_okD(6)[OF ok] True by (simp add: documents_staged_def)
  moreover have "target_staged D m0 t (draft_is res ?e) target = target_staged D m0 t ?e target" for target
    by (cases target) (simp_all add: draft_is_def)
  ultimately have "entry_staged D m0 t (draft_is res ?e)" by (simp add: entry_staged_def) (simp add: draft_is_def)
  then show ?thesis
    by (rule set_document_ok[OF ok True, rotated]) (simp add: replaces_def draft_is_def before_def acquired_def)
qed (simp add: set_document_def list_update_beyond)

lemma keep_draft_ok:
  assumes "triple (inside D m0 F) f (\<lambda>_. tx_ok D m0) (tx_ok D m0)" "tx_ok D m0 (set_document n (draft_is None) t)"
    "F (set_document n (draft_is None) t)"
  shows "tx_ok D m0 (snd (keep_draft n f t))"
  using after_inside[OF assms] draft_ok unfolding keep_draft_def by (auto split: prod.splits sum.splits)

lemma push_then_set:
  "set_document (length (tx_documents t)) f (push_document e t)
   = push_document (f e) t" if "de_address (f e) = de_address e"
  using that by (simp add: set_document_def push_document_def)

lemma new_slot:
  "slot (Some d) k (length docs) (docs @ [draft_is res (new_entry k d retire)])"
  by (simp add: slot_def last_at_def draft_is_def new_entry_def)

lemma draft_entry:
  "de_address (draft_is res e) = de_address e" "de_target (draft_is res e) = de_target e"
  "acquired (draft_is res e)" "entry_staged D m0 t (draft_is res (new_entry k d retire))"
  by (simp_all add: draft_is_def acquired_def entry_staged_def new_entry_def)

lemma acquire_new_ok:
  assumes "d \<in> D" "definitions_ok D" "ad_kind k = df_kind d" "tx_ok D m0 t" "vacant k (tx_documents t)"
    and "skip \<or> (\<forall>e \<in> set (tx_documents t). de_address e \<noteq> k)"
  shows "tx_ok D m0 (snd (acquire_new owned d k args skip t))"
proof -
  let ?n = "length (tx_documents t)" let ?e = "draft_is None (new_entry k d False)"
  have addr: "de_address ?e = k" "de_target ?e = None" by (simp_all add: draft_entry new_entry_def)
  have pushed: "set_document ?n (draft_is None) (push_document (new_entry k d False) t) = push_document ?e t"
    by (rule push_then_set) (simp add: draft_entry)
  have "tx_ok D m0 (push_document ?e t)"
    by (rule push_document_ok[OF assms(4)]) (use assms(5) addr in \<open>simp_all add: draft_entry\<close>)
  moreover have "slot (Some d) k ?n (tx_documents (push_document ?e t))"
    using new_slot[of d k "tx_documents t" None False] by (simp add: push_document_def)
  moreover have "skip \<or> first_at k ?n (tx_documents (push_document ?e t))"
    using assms(6) by (auto simp: first_at_def push_document_def nth_append)
  ultimately show ?thesis
    unfolding acquire_new_def Let_def
    by (intro keep_draft_ok[OF acquire_ok[OF assms(1-3), of m0 ?n skip owned]]) (simp_all add: pushed)
qed

lemma latest_facts:
  assumes "tx_ok D m0 t"
  shows "latest_document t k = None \<Longrightarrow> \<forall>e \<in> set (tx_documents t). de_address e \<noteq> k"
    and "latest_document t k = Some (n, e) \<Longrightarrow> last_at (tx_documents t) k n \<and> acquired e \<and> e = tx_documents t ! n"
proof -
  have "case tx_latest t k of None \<Rightarrow> (\<forall>e \<in> set (tx_documents t). de_address e \<noteq> k)
     | Some n \<Rightarrow> last_at (tx_documents t) k n \<and> acquired (tx_documents t ! n)"
    using tx_okD(6)[OF assms] unfolding documents_staged_def latest_staged_def by blast
  then show "latest_document t k = None \<Longrightarrow> \<forall>e \<in> set (tx_documents t). de_address e \<noteq> k"
    "latest_document t k = Some (n, e) \<Longrightarrow> last_at (tx_documents t) k n \<and> acquired e \<and> e = tx_documents t ! n"
    by (auto simp: latest_document_def split: option.splits)
qed

text \<open>When the newest entry of an address is retired, all are.\<close>

lemma retired_vacant:
  assumes "tx_ok D m0 t" "last_at (tx_documents t) k n" "de_retire (tx_documents t ! n)"
  shows "vacant k (tx_documents t)"
  unfolding vacant_def
proof (intro ballI impI)
  fix e assume "e \<in> set (tx_documents t)" "de_address e = k"
  then obtain i where i: "i < length (tx_documents t)" "e = tx_documents t ! i" by (auto simp: in_set_conv_nth)
  have lay: "layered (tx_documents t)" using tx_okD(6)[OF assms(1)] by (simp add: documents_staged_def)
  consider "i < n" | "i = n" | "n < i" by linarith
  then show "de_target e = None \<or> de_retire e"
  proof cases
    case 1
    with lay assms(2) have "before e (tx_documents t ! n)" "de_address (tx_documents t ! n) = k"
      unfolding layered_def last_at_def i(2) by auto
    with \<open>de_address e = k\<close> show ?thesis by (simp add: before_def)
  next
    case 3
    with assms(2) i \<open>de_address e = k\<close> show ?thesis by (auto simp: last_at_def)
  qed (use assms(3) i(2) in simp)
qed

lemma keeps_doc:
  assumes "d \<in> D" "definitions_ok D"
  shows "keeps D m0 (doc owned d args)"
proof -
  have step: "tx_ok D m0 (snd (case latest_document t k of
          None \<Rightarrow> acquire_new owned d k args False t
        | Some (n, e) \<Rightarrow>
            if de_retire e then acquire_new owned d k args True t
            else (case de_draft e of
                Some (Some err) \<Rightarrow> (Inl err, t)
              | Some None \<Rightarrow> (Inr n, t)
              | None \<Rightarrow>
                  (case de_target e of
                     Some (TForkCopy r source p) \<Rightarrow> keep_draft n (acquireForkCopy owned n d r source p) t
                   | _ \<Rightarrow> acquire_new owned d k args False t))))"
    if ok: "tx_ok D m0 t" and kind: "ad_kind k = df_kind d" for t k
  proof (cases "latest_document t k")
    case None
    with latest_facts(1)[OF ok None] show ?thesis
      by (auto intro!: acquire_new_ok[OF assms kind ok] simp: vacant_def)
  next
    case (Some ne)
    obtain n e where ne: "ne = (n, e)" by (cases ne)
    note latest = latest_facts(2)[OF ok Some[unfolded ne]]
    show ?thesis
    proof (cases "de_retire e")
      case True
      with retired_vacant[OF ok] latest Some ne show ?thesis by (auto intro!: acquire_new_ok[OF assms kind ok])
    next
      case False
      show ?thesis
      proof (cases "de_draft e")
        case None
        with False latest obtain r source p where copy: "de_target e = Some (TForkCopy r source p)"
          by (auto simp: acquired_def elim!: copied_target.elims)
        let ?t = "set_document n (draft_is None) t"
        have at: "last_at (tx_documents t) k n" "n < length (tx_documents t)" "e = tx_documents t ! n"
          using latest by (simp_all add: last_at_def)
        have "map de_address (tx_documents ?t) = map de_address (tx_documents t)"
          unfolding set_fields by (rule set_address[OF at(2)]) (simp add: draft_entry)
        from last_addresses[OF this] at have "copy_slot k n r source p (tx_documents ?t)"
          using copy by (simp add: copy_slot_def set_fields draft_is_def)
        from keep_draft_ok[OF acquireForkCopy_ok[OF assms] draft_ok[OF ok] this] show ?thesis
          using Some ne False None copy by simp
      next
        case (Some res)
        with \<open>latest_document t k = Some ne\<close> ne False ok show ?thesis by (cases res) simp_all
      qed
    qed
  qed
  have assert: "triple (\<lambda>t. tx_ok D m0 t \<and> b) (assertTaskDocumentsOpen k) (\<lambda>_ t. tx_ok D m0 t \<and> b) (tx_ok D m0)" for k b
    by (auto simp: triple_def assertTaskDocumentsOpen_def split: doc_scope.split option.split)
  show ?thesis unfolding keeps_def doc_def
  proof (rule triple_bnd[OF keeps_open[unfolded keeps_def] triple_bnd[OF triple_given triple_bnd[OF assert]]])
    fix t k assume "tx_ok D m0 t" "resolveAddress d args = Inr k"
    then show "tx_ok D m0 t \<and> ad_kind k = df_kind d" by (simp add: resolved_address(1))
  next
    fix k
    show "triple (\<lambda>t. tx_ok D m0 t \<and> ad_kind k = df_kind d) (\<lambda>t. case latest_document t k of
          None \<Rightarrow> acquire_new owned d k args False t
        | Some (n, e) \<Rightarrow>
            if de_retire e then acquire_new owned d k args True t
            else (case de_draft e of
                Some (Some err) \<Rightarrow> (Inl err, t)
              | Some None \<Rightarrow> (Inr n, t)
              | None \<Rightarrow>
                  (case de_target e of
                     Some (TForkCopy r source p) \<Rightarrow> keep_draft n (acquireForkCopy owned n d r source p) t
                   | _ \<Rightarrow> acquire_new owned d k args False t))) (\<lambda>_. tx_ok D m0) (tx_ok D m0)"
      unfolding triple_snd using step by blast
  qed
qed

subsection \<open>Retirements and edits\<close>

lemma touch_calm_document: "calm t (touchDocument k t)" "loads_kept t (touchDocument k t)"
proof -
  obtain idle where t: "touchDocument k t = t\<lparr>se_idle := idle\<rparr>" using touch_idle_only by blast
  show "calm t (touchDocument k t)" "loads_kept t (touchDocument k t)"
    by (simp_all add: t calm_def loads_kept_def fun_eq_iff candidate_def)
qed

lemma line_cached:
  assumes "steady F"
  shows "triple (inside D m0 F) (cached_document k)
    (\<lambda>found. inside D m0 (\<lambda>t. F t \<and> (\<forall>l. found = Some l \<longrightarrow> live_record m0 k (lo_record l)))) (tx_ok D m0)"
  unfolding triple_ends
proof (intro allI impI)
  fix t assume in_t: "inside D m0 F t"
  note ok = insideD(1)[OF in_t]
  have touched: "tx_ok D m0 (touchDocument k t)" "F (touchDocument k t)"
    using tx_ok_calm[OF ok touch_calm_document(1) touch_ok[OF tx_okD(1)[OF ok]] touch_calm_document(2)]
      steadyD[OF assms touch_calm_document(1) insideD(2)[OF in_t]] .
  have "live_record m0 k (lo_record l)" if "se_documents t k = Some l" for l
    using session_okD(3)[OF tx_okD(1)[OF ok] that] minted_fields(6)[OF tx_okD(2)[OF ok]]
    by (auto simp: cached_ok_def live_record_def)
  with touched in_t show "ends D m0 (\<lambda>found t. F t \<and> (\<forall>l. found = Some l \<longrightarrow> live_record m0 k (lo_record l))) (cached_document k t)"
    by (simp add: ends_def cached_document_def inside_def)
qed

lemma found_live:
  assumes "tx_ok D m0 t" "findDocument (se_store t) k Current = Inr (Some r)"
  shows "live_record m0 k r"
  using find_live[OF session_okD(2)[OF tx_okD(1)[OF assms(1)]] assms(2)] minted_fields(6)[OF tx_okD(2)[OF assms(1)]]
  by (auto simp: live_record_def)

lemma findRetirement_ok:
  "triple (inside D m0 (\<lambda>t. slot d' k n (tx_documents t) \<and> first_at k n (tx_documents t) \<and> de_retire (tx_documents t ! n)))
    (findRetirement n d k) (\<lambda>_. tx_ok D m0) (tx_ok D m0)"
proof -
  let ?F = "\<lambda>t. slot d' k n (tx_documents t) \<and> first_at k n (tx_documents t) \<and> de_retire (tx_documents t ! n)"
  have st: "steady ?F" by (rule steady_documents)
  have set: "triple (inside D m0 (\<lambda>t. ?F t \<and> live_record m0 k r))
      (bnd (check (checkRecordScope d r)) (\<lambda>_. changed (set_document n (\<lambda>e. e\<lparr>de_target := Some (TRetireOnly r)\<rparr>))))
      (\<lambda>_. tx_ok D m0) (tx_ok D m0)" for r
  proof (rule triple_bnd[OF line_check line_set])
    fix t assume ok: "tx_ok D m0 t" and F: "(?F t \<and> live_record m0 k r) \<and> checkRecordScope d r = None"
    let ?e = "tx_documents t ! n"
    from F have s: "last_at (tx_documents t) k n" "first_at k n (tx_documents t)" "de_retire ?e" "de_address ?e = k"
      by (simp_all add: slot_def last_at_def)
    then show n: "n < length (tx_documents t)" by (simp add: last_at_def)
    show "replaces (tx_documents t) n (?e\<lparr>de_target := Some (TRetireOnly r)\<rparr>)"
      by (rule slot_replaces[of _ k]) (use s in \<open>auto simp: acquired_def\<close>)
    have "entry_staged D m0 t ?e" using tx_okD(6)[OF ok] n by (simp add: documents_staged_def)
    then show "entry_staged D m0 t (?e\<lparr>de_target := Some (TRetireOnly r)\<rparr>)"
      using F s by (simp add: entry_staged_def)
  qed
  have found: "triple (inside D m0 (\<lambda>t. ?F t \<and> (\<forall>l. cached = Some l \<longrightarrow> live_record m0 k (lo_record l))))
      (case cached of Some l \<Rightarrow> ret (Some (lo_record l)) | None \<Rightarrow> reads (\<lambda>m. findDocument m k Current))
      (\<lambda>found. inside D m0 (\<lambda>t. ?F t \<and> (\<forall>r. found = Some r \<longrightarrow> live_record m0 k r))) (tx_ok D m0)" for cached :: "loaded option"
  proof (cases cached)
    case None
    show ?thesis unfolding None option.case
      by (rule line_weaken[OF line_pre[OF line_reads[where F = ?F]]]) (auto dest: found_live)
  next
    case (Some l)
    then show ?thesis by (auto simp: inside_def intro!: triple_ret)
  qed
  show ?thesis unfolding findRetirement_def
  proof (rule triple_bnd[OF line_cached[OF st] triple_bnd[OF found]])
    fix found :: "doc_record option"
    show "triple (inside D m0 (\<lambda>t. ?F t \<and> (\<forall>r. found = Some r \<longrightarrow> live_record m0 k r)))
      (case found of None \<Rightarrow> ret ()
       | Some r \<Rightarrow> bnd (check (checkRecordScope d r)) (\<lambda>_. changed (set_document n (\<lambda>e. e\<lparr>de_target := Some (TRetireOnly r)\<rparr>))))
      (\<lambda>_. tx_ok D m0) (tx_ok D m0)"
    proof (cases found)
      case (Some r)
      show ?thesis unfolding Some option.case by (rule line_pre[OF set]) simp
    qed (simp add: line_ret)
  qed
qed

lemma retire_entry_ok:
  assumes "tx_ok D m0 t" "n < length (tx_documents t)"
  shows "tx_ok D m0 (set_document n (\<lambda>e. e\<lparr>de_retire := True\<rparr>) t)"
proof (rule set_document_ok[OF assms])
  let ?e = "tx_documents t ! n"
  show "replaces (tx_documents t) n (?e\<lparr>de_retire := True\<rparr>)" by (simp add: replaces_def before_def acquired_def)
  have "entry_staged D m0 t ?e" using tx_okD(6)[OF assms(1)] assms(2) by (simp add: documents_staged_def)
  moreover have "target_staged D m0 t ?e target \<Longrightarrow> target_staged D m0 t (?e\<lparr>de_retire := True\<rparr>) target" for target
    by (cases target) simp_all
  ultimately show "entry_staged D m0 t (?e\<lparr>de_retire := True\<rparr>)" by (simp add: entry_staged_def)
qed

subsection \<open>Prepared changes\<close>

lemma at_path_object:
  assumes "at_path whole f p (JObj al) = Inr r" "p = [] \<Longrightarrow> f (JObj al) = Inr r \<Longrightarrow> is_JObj r"
  shows "is_JObj r"
  using assms by (cases p) (auto simp: and_then_Inr split: option.splits)

lemma write_object: "is_JObj (write_own seg v (JObj al))"
  by (cases seg) simp_all

lemma delete_object: "delete_own whole seg (JObj al) = Inr r \<Longrightarrow> is_JObj r"
  by (cases seg) auto

lemma rewrite_object: "rewrite_text whole g (JObj al) = Inr r \<Longrightarrow> is_JObj r"
  using write_object by (auto simp: rewrite_text_def split: option.splits json.splits)

lemma at_parent_object:
  assumes "at_parent p f (JObj al) = Inr r" "\<And>r. f (JObj al) = Inr r \<Longrightarrow> is_JObj r"
  shows "is_JObj r"
  using assms unfolding at_parent_def
  by (auto elim!: at_path_object split: option.splits if_splits)

lemma apply_op_object:
  assumes "apply_op x oper = Inr r" "is_JObj x" "\<And>v. oper = OReplace v \<Longrightarrow> is_JObj v"
  shows "is_JObj r"
proof -
  from assms(2) obtain al where x: "x = JObj al" by (cases x) auto
  show ?thesis
    using assms(1,3) write_object delete_object rewrite_object unfolding x
    by (cases oper) (auto elim!: at_path_object at_parent_object)
qed

lemma applyOps_object:
  assumes "applyOps (Some x) ops = Inr t" "is_JObj x" "list_all rooted ops"
  shows "\<exists>y. t = Some y \<and> is_JObj y"
  using assms
proof (induction ops arbitrary: x)
  case (Cons raw ops)
  from Cons.prems(1) obtain oper y where y: "assertValidOp raw = Inr oper" "apply_op x oper = Inr y" "applyOps (Some y) ops = Inr t"
    by (auto simp: and_then_Inr as_root_def)
  have "is_JObj y" using apply_op_object[OF y(2) Cons.prems(2)] y(1) Cons.prems(3) by (simp add: rooted_def)
  from Cons.IH[OF y(3) this] Cons.prems(3) show ?case by simp
qed auto

lemma prepared_value:
  assumes "prepare_change owned x ops = Inr v" "is_JObj x" "list_all rooted ops"
  shows "applyOps (Some x) ops = Inr (Some v)" "is_JObj v"
proof -
  have "applyOps (Some x) ops = Inr (Some v) \<and> is_JObj v"
  proof (cases "ops = []")
    case False
    with assms(1) obtain t where t: "applyImmutable owned (Some x) ops = Inr t" "v = as_root t"
      by (auto simp: prepare_change_def split: sum.splits)
    then have "applyOps (Some x) ops = Inr t" by (simp add: applyImmutable_def immutable_replay)
    with applyOps_object[OF this assms(2,3)] t(2) show ?thesis by (auto simp: as_root_def)
  qed (use assms in \<open>simp add: prepare_change_def\<close>)
  then show "applyOps (Some x) ops = Inr (Some v)" "is_JObj v" by simp_all
qed

lemma pathed_rooted: "pathed raw \<Longrightarrow> rooted raw"
  by (auto simp: pathed_def rooted_def)

lemma paths_rooted: "list_all pathed ops \<Longrightarrow> list_all rooted ops"
  by (auto simp: list_all_iff pathed_rooted)

subsection \<open>Edits\<close>

lemma keeps_edit: "list_all rooted ops \<Longrightarrow> keeps D m0 (edit_draft n ops)"
  unfolding keeps_iff
proof (intro allI impI)
  fix t assume ops: "list_all rooted ops" and ok: "tx_ok D m0 t"
  have "tx_ok D m0 (set_document n (\<lambda>e. e\<lparr>de_change := Some ops\<rparr>) t)" if n: "n < length (tx_documents t)"
  proof (rule set_document_ok[OF ok n])
    let ?e = "tx_documents t ! n"
    show "replaces (tx_documents t) n (?e\<lparr>de_change := Some ops\<rparr>)" by (simp add: replaces_def before_def acquired_def)
    have "entry_staged D m0 t ?e" using tx_okD(6)[OF ok] n by (simp add: documents_staged_def)
    moreover have "target_staged D m0 t (?e\<lparr>de_change := Some ops\<rparr>) target = target_staged D m0 t ?e target" for target
      by (cases target) simp_all
    ultimately show "entry_staged D m0 t (?e\<lparr>de_change := Some ops\<rparr>)" using ops by (simp add: entry_staged_def)
  qed
  then show "tx_ok D m0 (snd (edit_draft n ops t))" using ok by (simp add: edit_draft_def)
qed

lemma tracked_object:
  assumes "tx_ok D m0 t" "e \<in> set (tx_documents t)" "tracked_value (de_target e) = Some x"
  shows "is_JObj x"
proof -
  from assms(3) obtain target where target: "de_target e = Some target" by (cases "de_target e") auto
  with assms(1,2) have st: "target_staged D m0 t e target"
    using tx_okD(6)[OF assms(1)] by (auto simp: documents_staged_def entry_staged_def)
  show ?thesis
  proof (cases target)
    case (TLoaded l)
    with st have "se_documents t (de_address e) = Some l" by simp
    from session_okD(3)[OF tx_okD(1)[OF assms(1)] this] show ?thesis
      using assms(3) target TLoaded by (simp add: cached_ok_def)
  qed (use st assms(3) target in simp_all)
qed

lemma keeps_rewrite: "list_all pathed edits \<Longrightarrow> keeps D m0 (rewrite_draft owned n edits)"
  unfolding keeps_iff
proof (intro allI impI)
  fix t assume edits: "list_all pathed edits" and ok: "tx_ok D m0 t"
  have edit: "tx_ok D m0 (snd (edit_draft n [JArr [JStr ''r'', v]] t))" if "is_JObj v" for v
  proof -
    have "list_all rooted [JArr [JStr ''r'', v]]" using that by (simp add: rooted_def valid_args_def)
    from keeps_edit[OF this] ok show ?thesis by (simp add: keeps_iff)
  qed
  have "is_JObj v"
    if "n < length (tx_documents t)" "tracked_value (de_target (tx_documents t ! n)) = Some x" "prepare_change owned x edits = Inr v"
    for x v
    using prepared_value(2)[OF that(3) tracked_object[OF ok nth_mem[OF that(1)] that(2)]] edits pathed_rooted
    by (simp add: list_all_iff)
  with edit ok show "tx_ok D m0 (snd (rewrite_draft owned n edits t))"
    by (auto simp: rewrite_draft_def split: option.split sum.split)
qed

lemma keeps_retireDoc: "keeps D m0 (retireDoc d args)"
proof -
  let ?start = "\<lambda>k t. findRetirement (length (tx_documents t)) d k (push_document (new_entry k d True) t)"
  have start: "tx_ok D m0 (snd (?start k t))"
    if ok: "tx_ok D m0 t" and none: "\<forall>e \<in> set (tx_documents t). de_address e \<noteq> k" for t k
  proof -
    let ?n = "length (tx_documents t)" and ?e = "new_entry k d True" let ?t = "push_document ?e t"
    have "tx_ok D m0 ?t"
      by (rule push_document_ok[OF ok])
        (use none in \<open>simp_all add: new_entry_def entry_staged_def acquired_def vacant_def\<close>)
    moreover have "slot (Some d) k ?n (tx_documents ?t) \<and> first_at k ?n (tx_documents ?t) \<and> de_retire (tx_documents ?t ! ?n)"
      using none by (auto simp: push_document_def slot_def first_at_def last_at_def new_entry_def nth_append)
    ultimately show ?thesis using after_inside[OF findRetirement_ok] by blast
  qed
  have step: "tx_ok D m0 (snd (case latest_document t k of
          None \<Rightarrow> ?start k t
        | Some (n, e) \<Rightarrow>
            if de_retire e then (Inr (), t)
            else (case (de_target e, de_draft e) of
                (Some (TForkCopy r _ _), _) \<Rightarrow>
                  (case checkRecordScope d r of
                     Some err \<Rightarrow> (Inl err, t)
                   | None \<Rightarrow> (Inr (), set_document n (\<lambda>e. e\<lparr>de_retire := True\<rparr>) t))
              | (_, Some res) \<Rightarrow>
                  (case res of None \<Rightarrow> Inr () | Some err \<Rightarrow> Inl err,
                   set_document n (\<lambda>e. e\<lparr>de_retire := True\<rparr>) t)
              | _ \<Rightarrow> ?start k t)))"
    if ok: "tx_ok D m0 t" for t k
  proof (cases "latest_document t k")
    case None
    with start[OF ok latest_facts(1)[OF ok None]] show ?thesis by simp
  next
    case (Some ne)
    obtain n e where ne: "ne = (n, e)" by (cases ne)
    note latest = latest_facts(2)[OF ok Some[unfolded ne]]
    then have retire: "tx_ok D m0 (set_document n (\<lambda>e. e\<lparr>de_retire := True\<rparr>) t)"
      using retire_entry_ok[OF ok] by (simp add: last_at_def)
    from latest have "de_retire e \<or> de_draft e \<noteq> None \<or> copied_target (de_target e)" unfolding acquired_def by blast
    then show ?thesis
      using Some ne ok retire by (auto split: option.split tx_target.split elim!: copied_target.elims)
  qed
  show ?thesis unfolding keeps_def retireDoc_def
    by (rule triple_bnd[OF keeps_open[unfolded keeps_def] triple_bnd[OF triple_given[where Q = "\<lambda>_. tx_ok D m0"]]])
      (use step in \<open>auto simp: triple_snd Let_def\<close>)
qed

subsection \<open>Every call\<close>

lemma keeps_committed: "keeps D m0 (committedTask i)"
  by (rule keepsI[OF line_committed[OF steady_touchable[OF steady_const]]])

lemma keeps_perform:
  assumes "call_ok D c" "definitions_ok D"
  shows "keeps D m0 (perform owned c)"
proof (cases c)
  case (SettleSubmission i settlement)
  then show ?thesis by (simp add: settleSubmission_def keeps_change)
qed (use assms keeps_edit[OF paths_rooted] keeps_rewrite in \<open>auto simp: tx_conversation_read_def tx_entry_def tx_task_read_def tx_scanConversations_def
    tx_scanEntries_def tx_latestHeadMarker_def tx_scanTasks_def tx_submission_def tx_submissionByRequest_def
    createConversation_def createRootConversation_def forkConversation_def placeSubmission_def
    intro!: keeps_ignore keeps_read keeps_reads keeps_committed keeps_bnd keeps_ret keeps_write keeps_stageConversation
      keeps_appendEntry keeps_createTask keeps_createSubmission keeps_setTask keeps_doc keeps_retireDoc keeps_change\<close>)

lemma keeps_calls:
  assumes "definitions_ok D" "list_all (call_ok D) cs"
  shows "keeps D m0 (run_calls owned cs)"
  using assms(2)
proof (induction cs)
  case (Cons c cs)
  have step: "tx_ok D m0 t \<Longrightarrow> tx_ok D m0 (snd (perform owned c t))" for t
    using keeps_perform[OF _ assms(1), of c m0 owned] Cons.prems by (simp add: keeps_iff)
  have rest: "tx_ok D m0 t \<Longrightarrow> tx_ok D m0 (snd (run_calls owned cs t))" for t
    using Cons by (simp add: keeps_iff)
  show ?case unfolding keeps_iff
  proof (intro allI impI)
    fix t assume "tx_ok D m0 t"
    note step[OF this]
    then show "tx_ok D m0 (snd (run_calls owned (c # cs) t))"
      using rest by (auto split: prod.split sum.split session_error.split)
  qed
qed (simp add: keeps_ret)

lemma new_tx_ok:
  assumes "session_ok D s"
  shows "tx_ok D (se_store s) (new_tx c k s)"
proof -
  have "same_cache s (new_tx c k s)" by (simp add: same_cache_def new_tx_def session.extend_def)
  from session_ok_cong[OF this] assms show ?thesis
    by (simp add: tx_ok_def new_tx_def session.extend_def writes_staged_def tasks_staged_def candidate_def
        submissions_staged_def documents_staged_def layered_def latest_staged_def)
qed

end
