(* ===== verification/Session_Scans.thy ===== *)
theory Session_Scans
  imports Session_Actions
begin

text \<open>
  The scan of the documents of a scope: its cursors carry no order, but on the cursors it gives it behaves
  like the other scans of the storage, so reading all its pages gives every document of the scope once.
\<close>

definition document_scan :: "store \<Rightarrow> document_query \<Rightarrow> nat \<Rightarrow> doc_record scan_spec" where
  "document_scan m q limit =
     \<lparr>sc_ids = ids_at (ms_byScope m) (dq_scope q), sc_get = map_option ds_record \<circ> ms_documents m,
      sc_keep = (\<lambda>r. wants (dq_kind q) (dc_kind r) \<and> isAliveAt r (dq_at q)), sc_key = dc_id, sc_limit = limit,
      sc_requested = None, sc_fallback = Ascending\<rparr>"

lemma scan_loop_map:
  "scan_loop limit (map_option f \<circ> get) keep is (map f acc)
   = (case scan_loop limit get (keep \<circ> f) is acc of Inl e \<Rightarrow> Inl e | Inr vs \<Rightarrow> Inr (map f vs))"
proof (induction "is" arbitrary: acc)
  case (Cons i "is")
  have "(if keep (f v) then map f acc @ [f v] else map f acc) = map f (if keep (f v) then acc @ [v] else acc)" for v
    by simp
  with Cons show ?case by (cases "get i") simp_all
qed simp

lemma scan_documents_fetch:
  assumes "\<not> ms_closed m" "scan_valid (document_scan m q limit) c"
  shows "scanDocuments m q limit c = scan_fetch (document_scan m q limit) c"
proof -
  let ?ids = "ids_at (ms_byScope m) (dq_scope q)" and ?get = "map_option ds_record \<circ> ms_documents m"
  let ?keep = "\<lambda>r. wants (dq_kind q) (dc_kind r) \<and> isAliveAt r (dq_at q)"
  have match: "document_matches q = ?keep \<circ> ds_record" by (auto simp: document_matches_def fun_eq_iff)
  have loop: "and_then (scan_loop limit (ms_documents m) (document_matches q) is []) (\<lambda>found. page dc_id (map ds_record found) limit Ascending)
      = and_then (scan_loop limit ?get ?keep is []) (\<lambda>found. page dc_id found limit Ascending)" for "is"
    using scan_loop_map[of limit ds_record "ms_documents m" ?keep "is" "[]"]
    unfolding match by (auto simp: and_then_def split: sum.split)
  have start: "scanStart None c Ascending = Inr \<lparr>st_order = Ascending, st_after = cursor_after c\<rparr>"
    "cursorId c = Inr (cursor_after c)"
    using assms(2) start_first[of None Ascending] start_next[of None _ Ascending]
    by (auto simp: scan_valid_def document_scan_def order_given_def wanted_order_def cursor_after_def cursorId_def
        safe_number_int)
  have "map (\<lambda>k. ?ids ! k) (scanIndexes ?ids \<lparr>st_order = Ascending, st_after = after\<rparr>)
      = drop (case after of None \<Rightarrow> 0 | Some t \<Rightarrow> idUpperBound ?ids t) ?ids" for after
    by (simp add: scanIndexes_def map_nth_drop)
  with loop start assms(1) show ?thesis
    by (simp add: scanDocuments_def assertOpen_def scan_fetch_def document_scan_def scan_ids_def Let_def and_then_def)
qed

definition document_scan_good :: "store \<times> document_query \<times> nat \<Rightarrow> bool" where
  "document_scan_good s \<longleftrightarrow> (case s of (m, q, limit) \<Rightarrow> \<not> ms_closed m \<and> scan_good (document_scan m q limit))"

interpretation document_scans: paged_scan document_scan_good
  "\<lambda>(m, q, limit). scan_valid (document_scan m q limit)" "\<lambda>(m, q, limit). scanDocuments m q limit"
  "\<lambda>(m, q, limit). scan_left (document_scan m q limit)"
proof (unfold_locales, goal_cases)
  case (1 s)
  then show ?case by (simp add: scan_valid_def split: prod.split)
next
  case (2 s c)
  obtain m q limit where s: "s = (m, q, limit)" by (cases s)
  from 2 have "\<not> ms_closed m" "scan_good (document_scan m q limit)" "scan_valid (document_scan m q limit) c"
    by (simp_all add: s document_scan_good_def)
  with scans.fetch_page[of "document_scan m q limit" c] scan_documents_fetch[of m q limit c] show ?case
    unfolding s prod.case by simp
qed

lemma document_ids_listed:
  assumes "store_ok m"
  shows "listed (ids_at (ms_byScope m) scope) (map_option ds_record \<circ> ms_documents m) dc_id
    \<and> set (ids_at (ms_byScope m) scope) = {i. \<exists>r. (map_option ds_record \<circ> ms_documents m) i = Some r \<and> dc_scope r = scope}"
proof -
  from assms have "lists_ids (ids_at (ms_byScope m) scope) {i. keyed (\<lambda>d. Some (dc_scope (ds_record d))) (ms_documents m) i = Some scope}"
    by (auto simp: store_ok_def documents_ok_def ids.indexes_def)
  note k = keyed_set[OF this]
  have "dc_id (ds_record d) = i" if "ms_documents m i = Some d" for i d
    using assms that by (simp add: store_ok_def documents_ok_def)
  with k show ?thesis by (auto simp: listed_def)
qed

lemma scan_documents_all:
  assumes "store_ok m" "safe_ids m" "\<not> ms_closed m" "0 < limit"
  shows "scanAll (scanDocuments m q limit) None =
    Some (Inr (map (ds_record \<circ> the \<circ> ms_documents m)
      (sorted_list_of_set {i. \<exists>d. ms_documents m i = Some d \<and> dc_scope (ds_record d) = dq_scope q \<and> document_matches q d})))"
proof -
  note listed = document_ids_listed[OF assms(1), of "dq_scope q"]
  have "types_ok m" using assms(1) by (simp add: store_ok_def tables_ok_def)
  then have "\<bar>i\<bar> \<le> max_safe" if "ms_documents m i = Some d" for i d
    using types_ok_at(5)[of m i] that assms(2) by (auto simp: safe_ids_def)
  with listed assms(3,4) have good: "document_scan_good (m, q, limit)"
    by (auto simp: document_scan_good_def scan_good_def document_scan_def order_given_def list_all_iff)
  let ?S = "{i. \<exists>d. ms_documents m i = Some d \<and> dc_scope (ds_record d) = dq_scope q \<and> document_matches q d}"
  have "scanAll (scanDocuments m q limit) None = Some (Inr (scan_left (document_scan m q limit) None))"
    using document_scans.reads_all[OF good] by simp
  also have "scan_left (document_scan m q limit) None = map (the \<circ> sc_get (document_scan m q limit))
      (in_order (wanted_order None Ascending) (sorted_list_of_set
        {i. \<exists>r. sc_get (document_scan m q limit) i = Some r \<and> dc_scope r = dq_scope q \<and> sc_keep (document_scan m q limit) r}))"
    using scan_left_all[of "document_scan m q limit" "\<lambda>r. dc_scope r = dq_scope q"] listed by (simp add: document_scan_def)
  also have "{i. \<exists>r. sc_get (document_scan m q limit) i = Some r \<and> dc_scope r = dq_scope q \<and> sc_keep (document_scan m q limit) r} = ?S"
    by (auto simp: document_scan_def document_matches_def)
  also have "in_order (wanted_order None Ascending) (sorted_list_of_set ?S) = sorted_list_of_set ?S"
    by (simp add: in_order_def wanted_order_def)
  also have "map (the \<circ> sc_get (document_scan m q limit)) (sorted_list_of_set ?S) = map (ds_record \<circ> the \<circ> ms_documents m) (sorted_list_of_set ?S)"
  proof (rule map_cong[OF refl])
    fix i assume i: "i \<in> set (sorted_list_of_set ?S)"
    have "?S \<subseteq> set (ids_at (ms_byScope m) (dq_scope q))" using listed by auto
    then have "finite ?S" by (rule finite_subset) simp
    with i have "i \<in> ?S" by simp
    then show "(the \<circ> sc_get (document_scan m q limit)) i = (ds_record \<circ> the \<circ> ms_documents m) i"
      by (auto simp: document_scan_def)
  qed
  finally show ?thesis .
qed

end
