(* ===== verification/Session_Effects.thy ===== *)
theory Session_Effects
  imports Session_Actions
begin

text \<open>
  What an accepted commit does to the store, read off its writes: the tables, the actions on documents, and
  the documents.
\<close>

subsection \<open>The actions of the writes\<close>

text \<open>The action on a document, as the writes say it.\<close>

definition says :: "storage_write list \<Rightarrow> int \<Rightarrow> doc_action \<Rightarrow> bool" where
  "says ws i a \<longleftrightarrow>
     (\<forall>r. da_create a = Some r \<longleftrightarrow> (\<exists>v x. WCreate r v x \<in> set ws \<and> dc_id r = i))
     \<and> (\<forall>c. da_content a = Some c \<longleftrightarrow>
          (\<exists>r v x. WCreate r v x \<in> set ws \<and> dc_id r = i \<and> c = Base v x) \<or> WChange i c \<in> set ws)
     \<and> (da_retire a \<longleftrightarrow> WRetire i \<in> set ws)"

lemma saysD:
  assumes "says ws i a"
  shows "WCreate r v x \<in> set ws \<Longrightarrow> dc_id r = i \<Longrightarrow> da_create a = Some r \<and> da_content a = Some (Base v x)"
    "WChange i c \<in> set ws \<Longrightarrow> da_content a = Some c" "WRetire i \<in> set ws \<longleftrightarrow> da_retire a"
    "da_create a = Some r \<Longrightarrow> \<exists>v x. WCreate r v x \<in> set ws \<and> dc_id r = i"
    "da_content a = Some c \<Longrightarrow> (\<exists>r v x. WCreate r v x \<in> set ws \<and> dc_id r = i \<and> c = Base v x) \<or> WChange i c \<in> set ws"
  using assms unfolding says_def by blast+

lemma action_update: "action_of (AList.update j a acts) i = (if i = j then a else action_of acts i)"
  by (simp add: action_of_def update_conv)

lemma says_other:
  assumes "says ws i a" "changed_document w \<noteq> Some i"
  shows "says (ws @ [w]) i a"
  using assms by (cases w) (auto simp: says_def)

lemma add_says:
  assumes "add_action w acts = Inr acts'" "\<forall>i. says ws i (action_of acts i)" "\<not> is_copy w"
  shows "\<forall>i. says (ws @ [w]) i (action_of acts' i)"
proof
  fix i
  from assms(2) have old: "says ws i (action_of acts i)" ..
  show "says (ws @ [w]) i (action_of acts' i)"
  proof (cases "changed_document w = Some i")
    case False
    with assms(1,3) have "action_of acts' i = action_of acts i"
      by (cases w) (auto simp: Let_def action_update split: if_splits)
    with says_other[OF old False] show ?thesis by simp
  next
    case True
    show ?thesis
    proof (cases w)
      case (WCreate r v x)
      with True assms(1) have a: "action_of acts' i = (action_of acts i)\<lparr>da_create := Some r, da_content := Some (Base v x)\<rparr>"
        "da_create (action_of acts i) = None" "da_content (action_of acts i) = None" "dc_id r = i"
        by (auto simp: Let_def action_update split: if_splits)
      with old WCreate show ?thesis unfolding a(1) says_def by auto
    next
      case (WChange j c)
      with True assms(1) have a: "action_of acts' i = (action_of acts i)\<lparr>da_content := Some c\<rparr>"
        "da_content (action_of acts i) = None" "j = i"
        by (auto simp: Let_def action_update split: if_splits)
      from a(2) saysD(1,2)[OF old] have "\<forall>r v x. \<not> (WCreate r v x \<in> set ws \<and> dc_id r = i)" "\<forall>c. WChange i c \<notin> set ws"
        by (metis option.distinct(1))+
      with old WChange a(3) show ?thesis unfolding a(1) says_def by auto
    next
      case (WRetire j)
      with True assms(1) have a: "action_of acts' i = (action_of acts i)\<lparr>da_retire := True\<rparr>" "j = i"
        by (auto simp: Let_def action_update split: if_splits)
      with old WRetire show ?thesis unfolding a(1) says_def by auto
    qed (use True assms(3) in auto)
  qed
qed

lemma actions_say:
  assumes "prepareDocumentActions ws [] = Inr acts" "\<not> list_ex is_copy ws"
  shows "says ws i (action_of acts i)"
proof -
  have "prepareDocumentActions ws acts0 = Inr acts \<Longrightarrow> \<forall>i. says ws0 i (action_of acts0 i) \<Longrightarrow> \<not> list_ex is_copy ws
      \<Longrightarrow> \<forall>i. says (ws0 @ ws) i (action_of acts i)" for ws0 acts0
  proof (induction ws arbitrary: ws0 acts0)
    case (Cons w ws)
    then obtain acts1 where "add_action w acts0 = Inr acts1" "prepareDocumentActions ws acts1 = Inr acts"
      by (auto simp: and_then_Inr)
    with Cons.IH[of acts1 "ws0 @ [w]"] add_says Cons.prems show ?case by auto
  qed simp
  moreover have "\<forall>i. says [] i (action_of [] i)" by (simp add: says_def action_of_def no_action_def)
  ultimately show ?thesis using assms by (metis append_Nil)
qed

lemma no_action_iff: "says ws i a \<Longrightarrow> a = no_action \<longleftrightarrow> (\<forall>w \<in> set ws. changed_document w = Some i \<longrightarrow> is_copy w)"
proof -
  assume s: "says ws i a"
  have "a = no_action \<longleftrightarrow> da_create a = None \<and> da_content a = None \<and> \<not> da_retire a"
    by (cases a) (auto simp: no_action_def)
  also have "\<dots> \<longleftrightarrow> (\<forall>w \<in> set ws. changed_document w = Some i \<longrightarrow> is_copy w)"
  proof
    assume none: "da_create a = None \<and> da_content a = None \<and> \<not> da_retire a"
    show "\<forall>w \<in> set ws. changed_document w = Some i \<longrightarrow> is_copy w"
    proof (intro ballI impI)
      fix w assume "w \<in> set ws" "changed_document w = Some i"
      with s none show "is_copy w" by (cases w) (auto simp: says_def)
    qed
  next
    assume "\<forall>w \<in> set ws. changed_document w = Some i \<longrightarrow> is_copy w"
    then have "\<forall>r v x. \<not> (WCreate r v x \<in> set ws \<and> dc_id r = i)" "\<forall>c. WChange i c \<notin> set ws" "WRetire i \<notin> set ws" by force+
    with saysD(3-5)[OF s] show "da_create a = None \<and> da_content a = None \<and> \<not> da_retire a"
      by (metis not_None_eq)
  qed
  finally show ?thesis .
qed

subsection \<open>The store after a commit\<close>

lemma writes_conversations:
  assumes "ms_conversations (fold (apply_write seq) ws m) c = Some v"
  shows "ms_conversations m c = Some v \<or> WConversation v \<in> set ws \<and> cv_id v = c"
  using assms
proof (induction ws arbitrary: m)
  case (Cons w ws)
  then have "ms_conversations (apply_write seq w m) c = Some v \<or> WConversation v \<in> set ws \<and> cv_id v = c" by simp
  then show ?case by (cases w) (auto simp: store_simps split: if_splits)
qed simp

lemma writes_entries:
  assumes "ms_entries (fold (apply_write seq) ws m) i = Some e"
  shows "ms_entries m i = Some e \<or> WEntry e \<in> set ws \<and> en_id e = i"
  using assms
proof (induction ws arbitrary: m)
  case (Cons w ws)
  then have "ms_entries (apply_write seq w m) i = Some e \<or> WEntry e \<in> set ws \<and> en_id e = i" by simp
  then show ?case by (cases w) (auto simp: store_simps split: if_splits)
qed simp

lemma writes_tasks: "ms_tasks (fold (apply_write seq) ws m) = fold task_put ws (ms_tasks m)"
  by (induction ws arbitrary: m) (simp_all add: tasks_put)

lemma writes_known:
  "ms_conversations m c \<noteq> None \<or> (\<exists>v. WConversation v \<in> set ws \<and> cv_id v = c) \<Longrightarrow>
     ms_conversations (fold (apply_write seq) ws m) c \<noteq> None"
proof (induction ws arbitrary: m)
  case (Cons w ws)
  have "ms_conversations (apply_write seq w m) c \<noteq> None \<or> (\<exists>v. WConversation v \<in> set ws \<and> cv_id v = c)"
    using Cons.prems by (cases w) (auto simp: store_simps)
  from Cons.IH[OF this] show ?case by simp
qed simp

lemma entries_kept: "ms_entries m i \<noteq> None \<Longrightarrow> ms_entries (fold (apply_write seq) ws m) i \<noteq> None"
proof (induction ws arbitrary: m)
  case (Cons w ws)
  have "ms_entries (apply_write seq w m) i \<noteq> None" using Cons.prems by (cases w) (auto simp: store_simps)
  from Cons.IH[OF this] show ?case by simp
qed simp

lemma writes_types:
  assumes "ms_types (fold (apply_write seq) ws m) i \<noteq> None"
  shows "ms_types m i \<noteq> None \<or> (\<exists>w \<in> set ws. \<exists>t. claim w = Some (i, t))"
  using assms
proof (induction ws arbitrary: m)
  case (Cons w ws)
  from Cons.IH[of "apply_write seq w m"] Cons.prems
  have "ms_types (apply_write seq w m) i \<noteq> None \<or> (\<exists>w \<in> set ws. \<exists>t. claim w = Some (i, t))" by simp
  then show ?case by (auto simp: apply_write_types split: option.splits if_splits)
qed simp

lemma actions_types:
  assumes "applicable ws n m acts" "ms_types (applyDocumentActions acts seq m) i \<noteq> None"
  shows "ms_types m i \<noteq> None \<or> (\<exists>r v x. WCreate r v x \<in> set ws \<and> dc_id r = i)"
  using assms
proof (induction acts arbitrary: m)
  case (Cons ia acts)
  obtain j a where ia: "ia = (j, a)" by (cases ia)
  note d = applicableD[OF Cons.prems(1)[unfolded ia]]
  from Cons.IH[OF applicable_step[OF Cons.prems(1)[unfolded ia], of seq]] Cons.prems(2)
  have "ms_types (apply_action seq (j, a) m) i \<noteq> None \<or> (\<exists>r v x. WCreate r v x \<in> set ws \<and> dc_id r = i)"
    unfolding ia applyDocumentActions_def by simp
  moreover have "ms_types m i \<noteq> None \<or> (\<exists>r v x. WCreate r v x \<in> set ws \<and> dc_id r = i)"
    if "ms_types (apply_action seq (j, a) m) i \<noteq> None"
    using d(1)
  proof (cases rule: ready_cases)
    case (creates r)
    with d(1) have "\<exists>v x. WCreate r v x \<in> set ws \<and> dc_id r = j" by (auto simp: ready_def action_shape_def)
    with that action_effect_create(2)[OF d(1) creates(1), of seq] show ?thesis by (auto split: if_splits)
  next
    case (exists e)
    with that action_effect_existing(2)[OF d(1) exists(1,2), of seq] show ?thesis by simp
  qed
  ultimately show ?case by blast
qed (simp add: applyDocumentActions_def)

text \<open>A commit: the store before, the writes without copies, the actions, the store after.\<close>

definition commit_effect :: "store \<Rightarrow> int \<Rightarrow> storage_write list \<Rightarrow> doc_actions \<Rightarrow> store \<Rightarrow> bool" where
  "commit_effect m seq ws acts m' \<longleftrightarrow>
     store_ok m'
     \<and> ms_nextId m \<le> ms_nextId m'
     \<and> (\<forall>i. says ws i (action_of acts i))
     \<and> (\<forall>i. ms_documents m' i =
          (if action_of acts i = no_action then ms_documents m i else Some (acted seq (action_of acts i) (ms_documents m i))))
     \<and> (\<forall>i. action_of acts i \<noteq> no_action \<longrightarrow> check_action m i (action_of acts i) = None \<and> action_shape ws (i, action_of acts i))
     \<and> ms_tasks m' = fold task_put ws (ms_tasks m)
     \<and> (\<forall>c v. ms_conversations m' c = Some v \<longrightarrow> ms_conversations m c = Some v \<or> WConversation v \<in> set ws \<and> cv_id v = c)
     \<and> (\<forall>c. ms_conversations m c \<noteq> None \<or> (\<exists>v. WConversation v \<in> set ws \<and> cv_id v = c) \<longrightarrow> ms_conversations m' c \<noteq> None)
     \<and> (\<forall>i e. ms_entries m' i = Some e \<longrightarrow> ms_entries m i = Some e \<or> WEntry e \<in> set ws \<and> en_id e = i)
     \<and> (\<forall>i. ms_entries m i \<noteq> None \<longrightarrow> ms_entries m' i \<noteq> None)
     \<and> (\<forall>i. ms_types m' i \<noteq> None \<longrightarrow> ms_types m i \<noteq> None \<or> (\<exists>w \<in> set ws. \<exists>t. claim w = Some (i, t)))
     \<and> (\<forall>i. ms_types m i \<noteq> None \<longrightarrow> ms_types m' i \<noteq> None)"

lemma action_of_ready:
  assumes "applicable ws n m acts" "action_of acts i \<noteq> no_action"
  shows "ready ws m (i, action_of acts i)"
proof -
  from assms(2) obtain a where "map_of acts i = Some a" by (auto simp: action_of_def split: option.splits)
  then have "(i, a) \<in> set acts" "action_of acts i = a" by (auto simp: action_of_def dest: map_of_SomeD)
  with assms(1) show ?thesis by (auto simp: applicable_def)
qed

lemma commit_effects:
  assumes "store_ok m" "prepareCommit owned m ws None = Inr p" "apply_prepared p m = Inr (p', m')"
  shows "commit_effect m (pc_seq p) (pc_writes p) (pc_actions p) m'"
proof -
  note mid = commit_middle[OF assms(1,2)] and pre = prepareD[OF assms(2)]
  let ?ws = "pc_writes p" and ?acts = "pc_actions p" and ?seq = "pc_seq p"
  let ?m1 = "fold (apply_write ?seq) ?ws m"
  let ?m2 = "applyDocumentActions ?acts ?seq ?m1"
  have m': "m' = ?m2\<lparr>ms_nextSeq := ?seq + 1\<rparr>" using applyD[OF assms(2)] assms(3) by simp
  have ok: "store_ok m'" using commit_store_ok[OF assms] .
  have tables: "same_tables ?m1 ?m2" using actions_fields[OF mid(3)] by blast
  have docs: "ms_documents ?m1 = ms_documents m" using mid(2) by (simp add: same_documents_def)
  have evo: "evolves m m'" using commit_evolves[OF assms] .
  have "ms_nextId m \<le> ms_nextId m'" "\<And>i. ms_types m i \<noteq> None \<Longrightarrow> ms_types m' i \<noteq> None"
    using evo by (auto simp: evolves_def tables_grown_def map_le_def dom_def)
  moreover have "says ?ws i (action_of ?acts i)" for i
    using actions_say[OF pre(6) resolved_no_copy[OF pre(4)]] .
  moreover have "ms_documents m' i =
      (if action_of ?acts i = no_action then ms_documents m i else Some (acted ?seq (action_of ?acts i) (ms_documents m i)))" for i
    using documents_acted[OF mid(3), of ?seq i] by (simp add: m' docs)
  moreover have "check_action m i (action_of ?acts i) = None \<and> action_shape ?ws (i, action_of ?acts i)"
    if "action_of ?acts i \<noteq> no_action" for i
    using action_of_ready[OF mid(3) that] documents_ok_same(4)[OF mid(2), of ?ws "(i, action_of ?acts i)"] by (simp add: ready_def)
  moreover have "ms_tasks m' = fold task_put ?ws (ms_tasks m)"
    using tables by (simp add: m' same_tables_def writes_tasks)
  moreover have "ms_conversations m' = ms_conversations ?m1" "ms_entries m' = ms_entries ?m1"
    using tables by (simp_all add: m' same_tables_def)
  moreover have "ms_types m i \<noteq> None \<or> (\<exists>w \<in> set ?ws. \<exists>t. claim w = Some (i, t))" if "ms_types m' i \<noteq> None" for i
  proof -
    from that have "ms_types ?m2 i \<noteq> None" by (simp add: m')
    from actions_types[OF mid(3) this] show ?thesis using writes_types[of ?seq ?ws m i] by force
  qed
  ultimately show ?thesis
    unfolding commit_effect_def using ok writes_conversations writes_known writes_entries entries_kept by auto
qed

end
