(* ===== verification/Session_Plans.thy ===== *)
theory Session_Plans
  imports Session_Drafts Session_Scans Session_Effects
begin

text \<open>
  The plans and writes that the assembly of a commit gives, for a transaction in which
  \<open>tx_ok\<close> holds: what each plan says of its document, how the plans of one address follow each other, and
  what the validations leave.
\<close>

subsection \<open>Plans of entries\<close>

text \<open>A plan for a new document: created with its value, or copied by a fork.\<close>

definition created_plan :: "doc_plan \<Rightarrow> doc_create \<Rightarrow> int \<Rightarrow> json \<Rightarrow> bool" where
  "created_plan p r v x \<longleftrightarrow>
     pl_record p = NewRecord r \<and> pl_content p = Some (WCreate r v x) \<and> version_safe v \<and> is_JObj x
     \<and> (\<exists>c. pl_change p = Some c \<and> ch_loaded c = None \<and> ch_value c = x \<and> ch_version c = v)"

definition copied_plan :: "doc_plan \<Rightarrow> doc_create \<Rightarrow> bool" where
  "copied_plan p r \<longleftrightarrow>
     pl_record p = NewRecord r \<and> (\<exists>source pt. pl_content p = Some (WCopy r source pt)) \<and> pl_change p = None
     \<and> in_conversation (dc_scope r)"

text \<open>What a change of a loaded document stores: a base of the new value, its operations, or nothing.\<close>

definition content_fits :: "loaded \<Rightarrow> doc_change \<Rightarrow> storage_write option \<Rightarrow> bool" where
  "content_fits l c content \<longleftrightarrow>
     (case content of
        None \<Rightarrow> ch_ops c = [] \<and> lo_stored l = lo_version l
      | Some w \<Rightarrow>
          w = WChange (dc_id (lo_record l)) (Base (lo_version l) (ch_value c))
          \<or> w = WChange (dc_id (lo_record l)) (Delta (lo_version l) (ch_ops c)) \<and> lo_stored l = lo_version l)"

definition loaded_plan :: "tx \<Rightarrow> doc_plan \<Rightarrow> loaded \<Rightarrow> doc_change \<Rightarrow> bool" where
  "loaded_plan t p l c \<longleftrightarrow>
     pl_record p = OldRecord (lo_record l) \<and> se_documents t (pl_address p) = Some l \<and> pl_change p = Some c
     \<and> ch_loaded c = Some l \<and> ch_version c = lo_version l
     \<and> applyOps (Some (lo_value l)) (ch_ops c) = Inr (Some (ch_value c)) \<and> is_JObj (ch_value c)
     \<and> content_fits l c (pl_content p)"

definition retired_plan :: "store \<Rightarrow> doc_plan \<Rightarrow> doc_record \<Rightarrow> bool" where
  "retired_plan m0 p r \<longleftrightarrow>
     pl_record p = OldRecord r \<and> live_record m0 (pl_address p) r \<and> pl_retire p \<and> pl_content p = None \<and> pl_change p = None"

definition plan_ok :: "store \<Rightarrow> tx \<Rightarrow> doc_plan \<Rightarrow> bool" where
  "plan_ok m0 t p \<longleftrightarrow>
     (\<exists>r v x. created_plan p r v x \<and> create_staged m0 t (pl_address p) r)
     \<or> (\<exists>r. copied_plan p r \<and> create_staged m0 t (pl_address p) r)
     \<or> (\<exists>l c. loaded_plan t p l c)
     \<or> (\<exists>r. retired_plan m0 p r)"

lemma plan_okI:
  "created_plan p r v x \<Longrightarrow> create_staged m0 t (pl_address p) r \<Longrightarrow> plan_ok m0 t p"
  "copied_plan p r \<Longrightarrow> create_staged m0 t (pl_address p) r \<Longrightarrow> plan_ok m0 t p"
  "loaded_plan t p l c \<Longrightarrow> plan_ok m0 t p" "retired_plan m0 p r' \<Longrightarrow> plan_ok m0 t p"
  unfolding plan_ok_def by blast+

text \<open>Only the last plan of an address may leave its document live.\<close>

definition plans_layered :: "doc_plan list \<Rightarrow> bool" where
  "plans_layered ps \<longleftrightarrow> sorted_wrt (\<lambda>p p'. pl_address p = pl_address p' \<longrightarrow> pl_retire p) ps"

lemma plan_of_fields [simp]:
  "pl_address (plan_of e r content change) = de_address e" "pl_record (plan_of e r content change) = r"
  "pl_retire (plan_of e r content change) = de_retire e" "pl_content (plan_of e r content change) = content"
  "pl_change (plan_of e r content change) = change"
  by (simp_all add: plan_of_def)

lemma prepare_entry:
  assumes "prepare_document owned e = Inr (e', pr)"
  shows "e' = e"
    "pr = Some (ops, v) \<Longrightarrow> \<exists>x. de_change e = Some ops \<and> tracked_value (de_target e) = Some x \<and> prepare_change owned x ops = Inr v"
  using assms by (auto simp: prepare_document_def and_then_Inr split: option.splits)

lemma loaded_fits:
  assumes "shaped D l x" "lo_version l = version" "applyOps (Some (lo_value l)) ops = Inr (Some v)"
    "ch_ops c = ops" "ch_value c = v"
  shows "content_fits l c (loaded_content l version ops v)"
  using assms by (auto simp: content_fits_def loaded_content_def shaped_def split: if_splits)

lemma planned_entry:
  assumes "tx_ok D m0 t" "e \<in> set (tx_documents t)" "prepare_document owned e = Inr (e', pr)"
    and "planDocument (e', pr) = Some p"
  shows "plan_ok m0 t p \<and> pl_address p = de_address e \<and> pl_retire p = de_retire e \<and> de_target e \<noteq> None"
proof -
  note e' = prepare_entry(1)[OF assms(3)] and pr = prepare_entry(2)[OF assms(3)]
  have staged: "entry_staged D m0 t e" using tx_okD(6)[OF assms(1)] assms(2) by (simp add: documents_staged_def)
  then have change: "list_all rooted ops" if "de_change e = Some ops" for ops using that by (simp add: entry_staged_def)
  obtain target where target: "de_target e = Some target" using assms(4) e' by (cases "de_target e") simp_all
  with staged have st: "target_staged D m0 t e target" by (simp add: entry_staged_def)
  have "plan_ok m0 t p \<and> pl_address p = de_address e \<and> pl_retire p = de_retire e"
  proof (cases target)
    case (TLoaded l)
    with st obtain d where d: "se_documents t (de_address e) = Some l" "d \<in> D" "de_definition e = Some d" "lo_version l = df_version d"
      by auto
    from session_okD(3)[OF tx_okD(1)[OF assms(1)] d(1)] obtain x where cached: "is_JObj (lo_value l)" "shaped D l x"
      by (auto simp: cached_ok_def)
    from assms(4) TLoaded target e' d(3) obtain ops v where pr': "pr = Some (ops, v)"
      by (auto split: option.splits)
    from pr[OF this] have ops: "de_change e = Some ops" "prepare_change owned (lo_value l) ops = Inr v"
      by (auto simp: target TLoaded)
    note val = prepared_value[OF ops(2) cached(1) change[OF ops(1)]]
    let ?c = "\<lparr>ch_ops = ops, ch_value = v, ch_version = df_version d, ch_loaded = Some l, ch_definition = Some d\<rparr>"
    have p: "p = plan_of e (OldRecord (lo_record l)) (loaded_content l (df_version d) ops v) (Some ?c)"
      using assms(4) TLoaded target e' d(3) pr' by simp
    have "loaded_plan t p l ?c"
      unfolding loaded_plan_def p using d val loaded_fits[OF cached(2) d(4) val(1), of ?c] by simp
    from plan_okI(3)[OF this] show ?thesis by (simp add: p)
  next
    case (TCreated r version x)
    from assms(4) TCreated target e' obtain ops v where pr': "pr = Some (ops, v)"
      by (auto split: option.splits)
    from pr[OF this] have ops: "de_change e = Some ops" "prepare_change owned x ops = Inr v"
      by (auto simp: target TCreated)
    note val = prepared_value[OF ops(2) _ change[OF ops(1)]]
    let ?c = "\<lparr>ch_ops = ops, ch_value = v, ch_version = version, ch_loaded = None, ch_definition = None\<rparr>"
    have p: "p = plan_of e (NewRecord r) (Some (WCreate r version v)) (Some ?c)"
      using assms(4) TCreated target e' pr' by simp
    have "created_plan p r version v" using st TCreated val(2) by (simp add: created_plan_def p)
    from plan_okI(1)[OF this] show ?thesis using st TCreated by (simp add: p)
  next
    case (TForkCopy r source pt)
    have p: "p = plan_of e (NewRecord r) (Some (WCopy r source pt)) None"
      using assms(4) TForkCopy target e' by simp
    have "copied_plan p r" using st TForkCopy by (simp add: copied_plan_def p)
    from plan_okI(2)[OF this] show ?thesis using st TForkCopy by (simp add: p)
  next
    case (TRetireOnly r)
    have p: "p = plan_of e (OldRecord r) None None"
      using assms(4) TRetireOnly target e' by simp
    have "retired_plan m0 p r" using st TRetireOnly by (simp add: retired_plan_def p)
    from plan_okI(4)[OF this] show ?thesis by (simp add: p)
  qed
  with target show ?thesis by simp
qed

lemma each_pairs:
  assumes "each (prepare_document owned) docs = Inr prs"
  shows "map fst prs = docs" "(e', pr) \<in> set prs \<Longrightarrow> e' \<in> set docs \<and> prepare_document owned e' = Inr (e', pr)"
proof -
  have "map fst prs = docs \<and> (\<forall>(e', pr) \<in> set prs. e' \<in> set docs \<and> prepare_document owned e' = Inr (e', pr))"
    using assms
  proof (induction docs arbitrary: prs)
    case (Cons e docs)
    from Cons.prems obtain q qs where q: "prepare_document owned e = Inr q" "each (prepare_document owned) docs = Inr qs" "prs = q # qs"
      by (auto simp: and_then_Inr)
    obtain e' pr where q': "q = (e', pr)" by (cases q)
    with prepare_entry(1)[of owned e e' pr] q(1) have "e' = e" by simp
    with Cons.IH[OF q(2)] q q' show ?case by auto
  qed simp
  then show "map fst prs = docs" "(e', pr) \<in> set prs \<Longrightarrow> e' \<in> set docs \<and> prepare_document owned e' = Inr (e', pr)" by auto
qed

lemma planned_layered:
  assumes "sorted_wrt before (map fst prs)"
    "\<And>e pr p. (e, pr) \<in> set prs \<Longrightarrow> planDocument (e, pr) = Some p \<Longrightarrow>
        pl_address p = de_address e \<and> pl_retire p = de_retire e \<and> de_target e \<noteq> None"
  shows "plans_layered (List.map_filter planDocument prs)"
  using assms
proof (induction prs)
  case (Cons q prs)
  obtain e pr where q: "q = (e, pr)" by (cases q)
  have rest: "plans_layered (List.map_filter planDocument prs)" using Cons by auto
  show ?case
  proof (cases "planDocument (e, pr)")
    case None
    with rest show ?thesis unfolding q by (simp add: map_filter_simps)
  next
    case (Some p)
    have "(e, pr) \<in> set (q # prs)" by (simp add: q)
    note p = Cons.prems(2)[OF this Some]
    have "pl_address p = pl_address p' \<longrightarrow> pl_retire p" if p': "p' \<in> set (List.map_filter planDocument prs)" for p'
    proof -
      from p' obtain e' pr' where e': "(e', pr') \<in> set prs" "planDocument (e', pr') = Some p'"
        by (auto simp: map_filter_def)
      from e'(1) have "(e', pr') \<in> set (q # prs)" by simp
      note q' = Cons.prems(2)[OF this e'(2)]
      have "before e e'" using Cons.prems(1) e'(1) by (force simp: q)
      with p q' show ?thesis by (auto simp: before_def)
    qed
    with rest Some show ?thesis unfolding q by (simp add: map_filter_simps plans_layered_def)
  qed
qed (simp add: map_filter_simps plans_layered_def)

lemma entry_plans:
  assumes "tx_ok D m0 t" "each (prepare_document owned) (tx_documents t) = Inr prs"
  shows "list_all (plan_ok m0 t) (List.map_filter planDocument prs)" "plans_layered (List.map_filter planDocument prs)"
proof -
  note pairs = each_pairs[OF assms(2)]
  have planned: "plan_ok m0 t p \<and> pl_address p = de_address e \<and> pl_retire p = de_retire e \<and> de_target e \<noteq> None"
    if "(e, pr) \<in> set prs" "planDocument (e, pr) = Some p" for e pr p
    using planned_entry[OF assms(1) _ _ that(2)] pairs(2)[OF that(1)] by blast
  then show "list_all (plan_ok m0 t) (List.map_filter planDocument prs)"
    by (auto simp: list_all_iff map_filter_def)
  have "layered (tx_documents t)" using tx_okD(6)[OF assms(1)] by (simp add: documents_staged_def)
  then have "sorted_wrt before (map fst prs)" by (simp add: pairs(1) layered_def sorted_wrt_iff_nth_less)
  then show "plans_layered (List.map_filter planDocument prs)" using planned_layered planned by blast
qed

subsection \<open>Facts that the assembly keeps\<close>

text \<open>The assembly touches tasks and rewrites the staged submissions.\<close>

definition firm :: "(tx \<Rightarrow> bool) \<Rightarrow> bool" where
  "firm F \<longleftrightarrow> touchable F \<and> (\<forall>t subs. F t \<longrightarrow> F (t\<lparr>tx_submissions := subs\<rparr>))"

lemma firm_touchable: "firm F \<Longrightarrow> touchable F"
  by (simp add: firm_def)

lemma firm_conj: "firm F \<Longrightarrow> firm G \<Longrightarrow> firm (\<lambda>t. F t \<and> G t)"
  by (simp add: firm_def touchable_def)

lemma firm_const: "firm (\<lambda>_. b)"
  by (simp add: firm_def touchable_def)

lemma submissions_tx:
  "candidate (t\<lparr>tx_submissions := subs\<rparr>) = candidate t"
  by (simp add: candidate_def fun_eq_iff)

lemma scope_known_same:
  assumes "candidate t' = candidate t" "tx_created t' = tx_created t"
  shows "scope_known m0 t' scope = scope_known m0 t scope"
  using assms by (cases scope) (simp_all add: conversation_known_def)

lemma plan_ok_same:
  assumes "candidate t' = candidate t" "tx_created t' = tx_created t" "se_store t' = se_store t" "se_documents t' = se_documents t"
  shows "plan_ok m0 t' p = plan_ok m0 t p"
  using scope_known_same[OF assms(1,2)] assms(3,4)
  unfolding plan_ok_def create_staged_def loaded_plan_def by simp

lemma firm_plans: "firm (\<lambda>t. list_all (plan_ok m0 t) plans)"
  using plan_ok_same[of "touch_task _ _" _ m0] plan_ok_same[of "_\<lparr>tx_submissions := _\<rparr>" _ m0]
  by (simp add: firm_def touchable_def list_all_iff touch_fields_tx submissions_tx)

definition task_now :: "store \<Rightarrow> tx \<Rightarrow> int \<Rightarrow> task option" where
  "task_now m0 t i = (case candidate t i of Some w \<Rightarrow> Some (written_task w) | None \<Rightarrow> ms_tasks m0 i)"

lemma task_known_now: "task_known m0 t i found \<longleftrightarrow> found = task_now m0 t i"
  by (simp add: task_known_def task_now_def)

text \<open>The owners that new conversations and new tasks of the transaction name.\<close>

definition named_owners :: "tx \<Rightarrow> int set" where
  "named_owners t =
     {i. (\<exists>c. WConversation c \<in> set (tx_writes t) \<and> map_option snd (cv_owner c) = Some i)
       \<or> (\<exists>j k. candidate t j = Some (TaskCreate k) \<and> tk_owner k = Some i)}"

definition owners_valid :: "store \<Rightarrow> tx \<Rightarrow> bool" where
  "owners_valid m0 t \<longleftrightarrow> (\<forall>i \<in> named_owners t. owner_problem i (task_now m0 t i) = None)"

definition replaced_valid :: "store \<Rightarrow> tx \<Rightarrow> bool" where
  "replaced_valid m0 t \<longleftrightarrow>
     (\<forall>i v. candidate t i = Some (TaskReplace v) \<longrightarrow> replace_problem i v (ms_tasks m0 i) = None)"

definition ended :: "tx \<Rightarrow> int \<Rightarrow> bool" where
  "ended t i \<longleftrightarrow> (\<exists>w. candidate t i = Some w \<and> tk_status (written_task w) = TTerminal)"

fun scope_ended :: "tx \<Rightarrow> doc_scope \<Rightarrow> bool" where
  "scope_ended t (TaskScope i) = ended t i"
| "scope_ended t _ = False"

definition documents_end :: "store \<Rightarrow> tx \<Rightarrow> doc_plan list \<Rightarrow> bool" where
  "documents_end m0 t plans \<longleftrightarrow>
     (\<forall>p \<in> set plans. scope_ended t (pl_scope p) \<longrightarrow> pl_retire p)
     \<and> (\<forall>i j d. ended t i \<longrightarrow> ms_documents m0 j = Some d \<longrightarrow> dr_retired (ds_record d) = None
          \<longrightarrow> dc_scope (ds_record d) = TaskScope i \<longrightarrow> (\<exists>p \<in> set plans. pl_id p = j \<and> pl_retire p))"

lemma firm_valid: "firm (owners_valid m0)" "firm (replaced_valid m0)" "firm (\<lambda>t. documents_end m0 t plans)"
proof -
  have now: "task_now m0 t' = task_now m0 t" "ended t' = ended t" if "candidate t' = candidate t" for t t'
    using that by (simp_all add: task_now_def ended_def fun_eq_iff)
  have scope: "scope_ended t' = scope_ended t" if "candidate t' = candidate t" for t t'
  proof
    show "scope_ended t' x = scope_ended t x" for x using now(2)[OF that] by (cases x) simp_all
  qed
  have same: "owners_valid m0 t' = owners_valid m0 t \<and> replaced_valid m0 t' = replaced_valid m0 t
      \<and> documents_end m0 t' plans = documents_end m0 t plans"
    if "candidate t' = candidate t" "tx_writes t' = tx_writes t" for t t'
    using now[OF that(1)] scope[OF that(1)] that
    by (simp add: owners_valid_def named_owners_def replaced_valid_def documents_end_def)
  show "firm (owners_valid m0)" "firm (replaced_valid m0)" "firm (\<lambda>t. documents_end m0 t plans)"
    using same[of "touch_task _ _"] same[of "_\<lparr>tx_submissions := _\<rparr>"]
    by (simp_all add: firm_def touchable_def touch_fields_tx submissions_tx)
qed

subsection \<open>The validations\<close>

lemma line_each:
  assumes "\<And>x F. firm F \<Longrightarrow> x \<in> set xs \<Longrightarrow> triple (inside D m0 F) (f x) (\<lambda>_. inside D m0 (\<lambda>t. F t \<and> G x t)) (tx_ok D m0)"
    and "\<And>x. firm (G x)" "firm F"
  shows "triple (inside D m0 F) (act_each f xs) (\<lambda>_. inside D m0 (\<lambda>t. F t \<and> (\<forall>x \<in> set xs. G x t))) (tx_ok D m0)"
  using assms(1,3)
proof (induction xs arbitrary: F)
  case (Cons x xs)
  have F': "firm (\<lambda>t. F t \<and> G x t)" using firm_conj[OF Cons.prems(2) assms(2)] .
  have step: "triple (inside D m0 F) (f x) (\<lambda>_. inside D m0 (\<lambda>t. F t \<and> G x t)) (tx_ok D m0)"
    using Cons.prems by simp
  have rest: "triple (inside D m0 (\<lambda>t. F t \<and> G x t)) (act_each f xs)
      (\<lambda>_. inside D m0 (\<lambda>t. (F t \<and> G x t) \<and> (\<forall>x \<in> set xs. G x t))) (tx_ok D m0)"
    by (rule Cons.IH[OF _ F']) (use Cons.prems(1) in simp)
  show ?case unfolding act_each.simps
    by (rule line_weaken[OF triple_bnd[OF step rest]]) simp
qed (auto simp: inside_def intro: triple_ret)

lemma line_reject: "triple (inside D m0 F) (rejectForkSourceWrites plans) (\<lambda>_. inside D m0 F) (tx_ok D m0)"
  unfolding rejectForkSourceWrites_def
  by (rule triple_each) (auto simp: triple_def check_def inside_def ret_def throw_def split: option.split)

text \<open>A loop over a list that the state gives.\<close>

lemma line_at:
  "(\<And>t. inside D m0 F t \<Longrightarrow> \<exists>G. inside D m0 G t \<and> triple (inside D m0 G) (act_each g (xs t)) Q (tx_ok D m0)) \<Longrightarrow>
     triple (inside D m0 F) (\<lambda>t. act_each g (xs t) t) Q (tx_ok D m0)"
  by (fastforce simp: triple_def)

lemma tasks_listed:
  assumes "tasks_staged m0 t"
  shows "(i, Some w) \<in> set (tx_tasks t) \<longleftrightarrow> candidate t i = Some w"
  using assms by (auto simp: tasks_staged_def candidate_def bind_eq_Some_conv map_of_eq_Some_iff)

lemma new_owners_set:
  assumes "tasks_staged m0 t"
  shows "set (new_owners t) = named_owners t"
proof -
  have convs: "i \<in> set (List.map_filter (\<lambda>w. case w of WConversation c \<Rightarrow> map_option snd (cv_owner c) | _ \<Rightarrow> None) ws)
      \<longleftrightarrow> (\<exists>c. WConversation c \<in> set ws \<and> map_option snd (cv_owner c) = Some i)" for i ws
    by (induction ws) (auto simp: map_filter_simps split: storage_write.splits option.splits)
  have tasks: "i \<in> set (List.map_filter (\<lambda>(_, w). case w of Some (TaskCreate k) \<Rightarrow> tk_owner k | _ \<Rightarrow> None) ts)
      \<longleftrightarrow> (\<exists>j k. (j, Some (TaskCreate k)) \<in> set ts \<and> tk_owner k = Some i)" for i and ts :: "(int \<times> task_write option) list"
  proof (induction ts)
    case (Cons x ts)
    obtain j w where x: "x = (j, w)" by (cases x)
    show ?case unfolding x using Cons
      by (cases w; cases "the w") (fastforce simp: map_filter_simps split: option.splits)+
  qed (simp add: map_filter_simps)
  show ?thesis
    unfolding new_owners_def set_append named_owners_def
    using convs tasks tasks_listed[OF assms] by auto
qed

lemma line_validate_owners:
  assumes "firm F"
  shows "triple (inside D m0 F) validateOwners (\<lambda>_. inside D m0 (\<lambda>t. F t \<and> owners_valid m0 t)) (tx_ok D m0)"
  unfolding validateOwners_def
proof (rule line_at)
  fix t assume in_t: "inside D m0 F t"
  let ?G = "\<lambda>u. F u \<and> named_owners u = named_owners t"
  have G: "firm ?G"
    using assms
    by (intro firm_conj) (simp_all add: firm_def touchable_def named_owners_def touch_fields_tx submissions_tx)
  have P: "firm (\<lambda>t. owner_problem i (task_now m0 t i) = None)" for i
    by (simp add: firm_def touchable_def task_now_def touch_fields_tx submissions_tx)
  have one: "triple (inside D m0 F') (bnd (currentTask i) (\<lambda>found. check (owner_problem i found)))
      (\<lambda>_. inside D m0 (\<lambda>t. F' t \<and> owner_problem i (task_now m0 t i) = None)) (tx_ok D m0)" if "firm F'" for i F'
    by (rule triple_bnd[OF line_current[OF firm_touchable[OF that]] line_weaken[OF line_check]]) (auto simp: task_known_now)
  have "set (new_owners t) = named_owners t"
    using new_owners_set[OF tx_okD(4)[OF insideD(1)[OF in_t]]] .
  then have "triple (inside D m0 ?G) (act_each (\<lambda>i. bnd (currentTask i) (\<lambda>found. check (owner_problem i found))) (new_owners t))
      (\<lambda>_. inside D m0 (\<lambda>t. F t \<and> owners_valid m0 t)) (tx_ok D m0)"
    by (intro line_weaken[OF line_each[where G = "\<lambda>i t. owner_problem i (task_now m0 t i) = None", OF one P G]])
      (auto simp: owners_valid_def)
  moreover have "inside D m0 ?G t" using in_t by (simp add: inside_def)
  ultimately show "\<exists>G. inside D m0 G t \<and> triple (inside D m0 G)
      (act_each (\<lambda>i. bnd (currentTask i) (\<lambda>found. check (owner_problem i found))) (new_owners t))
      (\<lambda>_. inside D m0 (\<lambda>t. F t \<and> owners_valid m0 t)) (tx_ok D m0)" by blast
qed

lemma line_validate_replaced:
  assumes "firm F"
  shows "triple (inside D m0 F) validate_replaced (\<lambda>_. inside D m0 (\<lambda>t. F t \<and> replaced_valid m0 t)) (tx_ok D m0)"
  unfolding validate_replaced_def
proof (rule line_at)
  fix t assume in_t: "inside D m0 F t"
  let ?G = "\<lambda>u. F u \<and> candidate u = candidate t"
  let ?valid = "\<lambda>(i, w) (_ :: tx). \<forall>v. w = Some (TaskReplace v) \<longrightarrow> replace_problem i v (ms_tasks m0 i) = None"
  let ?f = "\<lambda>(i, w). case w of
            Some (TaskReplace v) \<Rightarrow> bnd (committedTask i) (\<lambda>found. check (replace_problem i v found))
          | _ \<Rightarrow> ret ()"
  have G: "firm ?G"
    using assms by (intro firm_conj) (simp_all add: firm_def touchable_def touch_fields_tx submissions_tx)
  have P: "firm (?valid x)" for x by (cases x) (simp add: firm_const)
  have one: "triple (inside D m0 F') (?f x) (\<lambda>_. inside D m0 (\<lambda>t. F' t \<and> ?valid x t)) (tx_ok D m0)" if "firm F'" for x F'
  proof -
    obtain i w where x: "x = (i, w)" by (cases x)
    have "triple (inside D m0 F') (bnd (committedTask i) (\<lambda>found. check (replace_problem i v found)))
        (\<lambda>_. inside D m0 (\<lambda>t. F' t \<and> replace_problem i v (ms_tasks m0 i) = None)) (tx_ok D m0)" for v
      by (rule triple_bnd[OF line_committed[OF firm_touchable[OF that]] line_weaken[OF line_check]]) auto
    then show ?thesis unfolding x by (auto simp: inside_def intro!: triple_ret split: option.split task_write.split)
  qed
  have "\<forall>x \<in> set (tx_tasks t). ?valid x u \<Longrightarrow> candidate u = candidate t \<Longrightarrow> replaced_valid m0 u" for u
    using tasks_listed[OF tx_okD(4)[OF insideD(1)[OF in_t]]] unfolding replaced_valid_def by fastforce
  then have "triple (inside D m0 ?G) (act_each ?f (tx_tasks t)) (\<lambda>_. inside D m0 (\<lambda>t. F t \<and> replaced_valid m0 t)) (tx_ok D m0)"
    by (intro line_weaken[OF line_each[where G = ?valid, OF one P G]]) auto
  moreover have "inside D m0 ?G t" using in_t by (simp add: inside_def)
  ultimately show "\<exists>G. inside D m0 G t \<and> triple (inside D m0 G) (act_each ?f (tx_tasks t))
      (\<lambda>_. inside D m0 (\<lambda>t. F t \<and> replaced_valid m0 t)) (tx_ok D m0)" by blast
qed

end
