(* ===== verification/Session_Settle.thy ===== *)
theory Session_Settle
  imports Session_Plans
begin

text \<open>
  The settlement of a transaction as a whole: the plans that end the documents of a terminal task, the
  submissions, and what the assembled batch is when every validation passed.
\<close>

subsection \<open>Scopes of plans\<close>

lemma address_scope: "recordAddressKey r = k \<Longrightarrow> dc_scope r = ad_scope k"
  by (auto simp: recordAddressKey_def)

lemma plan_address:
  assumes "tx_ok D m0 t" "plan_ok m0 t p"
  shows "recordAddressKey (planned_create (pl_record p)) = pl_address p"
  using assms(2) unfolding plan_ok_def
proof (elim disjE exE conjE)
  fix r v x assume "created_plan p r v x" "create_staged m0 t (pl_address p) r"
  then show ?thesis by (simp add: created_plan_def create_staged_def)
next
  fix r assume "copied_plan p r" "create_staged m0 t (pl_address p) r"
  then show ?thesis by (simp add: copied_plan_def create_staged_def)
next
  fix l c assume l: "loaded_plan t p l c"
  then have "cached_ok D (se_store t) (pl_address p) l"
    using session_okD(3)[OF tx_okD(1)[OF assms(1)]] by (simp add: loaded_plan_def)
  with l show ?thesis by (simp add: loaded_plan_def cached_ok_def recordAddressKey_def doc_create.defs)
next
  fix r assume "retired_plan m0 p r"
  then show ?thesis by (simp add: retired_plan_def live_record_def recordAddressKey_def doc_create.defs)
qed

lemma plan_scope: "tx_ok D m0 t \<Longrightarrow> plan_ok m0 t p \<Longrightarrow> pl_scope p = ad_scope (pl_address p)"
  unfolding pl_scope_def by (rule address_scope[OF plan_address])

lemma plan_ok_retire: "plan_ok m0 t p \<Longrightarrow> plan_ok m0 t (p\<lparr>pl_retire := True\<rparr>)"
  unfolding plan_ok_def created_plan_def copied_plan_def loaded_plan_def retired_plan_def by (elim disjE) (simp_all, blast)

subsection \<open>Documents of terminal tasks\<close>

definition stored_plan :: "doc_record \<Rightarrow> doc_plan" where
  "stored_plan r =
     \<lparr>pl_address = addressId r, pl_record = OldRecord r, pl_retire = True, pl_content = None, pl_change = None,
      pl_conversation = None\<rparr>"

lemma add_retiring_stored:
  "add_retiring r acc = (if dc_id r \<in> set (snd acc) then acc else (fst acc @ [stored_plan r], dc_id r # snd acc))"
  by (simp add: add_retiring_def stored_plan_def)

text \<open>What holds of the plans and of the IDs known to retire while documents are added.\<close>

definition retiring_ok :: "store \<Rightarrow> tx \<Rightarrow> doc_plan list \<times> int list \<Rightarrow> bool" where
  "retiring_ok m0 t acc \<longleftrightarrow>
     list_all (plan_ok m0 t) (fst acc) \<and> plans_layered (fst acc)
     \<and> (\<forall>p \<in> set (fst acc). scope_ended t (pl_scope p) \<longrightarrow> pl_retire p)
     \<and> (\<forall>i \<in> set (snd acc). \<exists>p \<in> set (fst acc). pl_id p = i \<and> pl_retire p)"

definition to_retire :: "store \<Rightarrow> tx \<Rightarrow> doc_record \<Rightarrow> bool" where
  "to_retire m0 t r \<longleftrightarrow> live_record m0 (addressId r) r \<and> scope_ended t (dc_scope r)"

lemma add_retiring_ok:
  assumes "tx_ok D m0 t" "retiring_ok m0 t acc" "to_retire m0 t r"
  shows "retiring_ok m0 t (add_retiring r acc)" "insert (dc_id r) (set (snd acc)) \<subseteq> set (snd (add_retiring r acc))"
proof -
  note acc = assms(2)[unfolded retiring_ok_def]
  have new: "plan_ok m0 t (stored_plan r)"
    using assms(3) by (intro plan_okI(4)[where r' = r]) (simp add: retired_plan_def stored_plan_def to_retire_def)
  have "pl_retire p" if "p \<in> set (fst acc)" "pl_address p = addressId r" for p
  proof -
    have "plan_ok m0 t p" using acc that(1) by (simp add: list_all_iff)
    from plan_scope[OF assms(1) this] that(2) have "pl_scope p = dc_scope r" by (simp add: recordAddressKey_def)
    with acc that(1) assms(3) show ?thesis by (simp add: to_retire_def)
  qed
  with acc have "plans_layered (fst acc @ [stored_plan r])"
    by (simp add: plans_layered_def sorted_wrt_append stored_plan_def)
  moreover have "pl_id (stored_plan r) = dc_id r" "pl_retire (stored_plan r)"
    by (simp_all add: stored_plan_def pl_id_def doc_create.defs)
  ultimately show "retiring_ok m0 t (add_retiring r acc)"
    using acc new unfolding retiring_ok_def add_retiring_stored by auto
  show "insert (dc_id r) (set (snd acc)) \<subseteq> set (snd (add_retiring r acc))" by (auto simp: add_retiring_stored)
qed

lemma fold_retiring_ok:
  assumes "tx_ok D m0 t" "retiring_ok m0 t acc" "\<forall>r \<in> set rs. to_retire m0 t r"
  shows "retiring_ok m0 t (fold add_retiring rs acc)
    \<and> dc_id ` set rs \<union> set (snd acc) \<subseteq> set (snd (fold add_retiring rs acc))"
  using assms(2,3)
proof (induction rs arbitrary: acc)
  case (Cons r rs)
  note step = add_retiring_ok[OF assms(1) Cons.prems(1), of r]
  with Cons.prems(2) have "retiring_ok m0 t (add_retiring r acc)" "insert (dc_id r) (set (snd acc)) \<subseteq> set (snd (add_retiring r acc))"
    by simp_all
  with Cons.IH[of "add_retiring r acc"] Cons.prems(2) show ?case by auto
qed simp

text \<open>The stored documents of a task.\<close>

definition documents_of :: "store \<Rightarrow> int \<Rightarrow> doc_record set" where
  "documents_of m i =
     {ds_record d | j d. ms_documents m j = Some d \<and> dr_retired (ds_record d) = None \<and> dc_scope (ds_record d) = TaskScope i}"

lemma task_documents_found:
  assumes "kernel_ok m" "\<not> ms_closed m"
    and "scanAll (scanDocuments m \<lparr>dq_scope = TaskScope i, dq_at = Current, dq_kind = None\<rparr> page_size) None = Some (Inr rs)"
  shows "set rs = documents_of m i"
proof -
  have ok: "store_ok m" "safe_ids m" using assms(1) by (auto simp: kernel_defs safe_ids_def)
  have "types_ok m" using ok(1) by (simp add: store_ok_def tables_ok_def)
  let ?q = "\<lparr>dq_scope = TaskScope i, dq_at = Current, dq_kind = None\<rparr>"
  let ?S = "{j. \<exists>d. ms_documents m j = Some d \<and> dc_scope (ds_record d) = dq_scope ?q \<and> document_matches ?q d}"
  have "?S \<subseteq> set (ids_at (ms_byScope m) (TaskScope i))" using document_ids_listed[OF ok(1), of "TaskScope i"] by auto
  then have "finite ?S" by (rule finite_subset) simp
  moreover have "rs = map (ds_record \<circ> the \<circ> ms_documents m) (sorted_list_of_set ?S)"
    using scan_documents_all[OF ok assms(2), of page_size ?q] assms(3) by (simp add: page_size_def)
  ultimately have "set rs = (ds_record \<circ> the \<circ> ms_documents m) ` ?S" by simp
  also have "\<dots> = documents_of m i"
    by (force simp: documents_of_def document_matches_def wants_def image_iff)
  finally show ?thesis .
qed

lemma line_task_documents:
  "triple (inside D m0 F) (task_documents i) (\<lambda>rs. inside D m0 (\<lambda>t. F t \<and> set rs = documents_of m0 i)) (tx_ok D m0)"
  unfolding task_documents_def
proof (rule triple_guard_read, goal_cases)
  case (1 s rs)
  note ok = tx_okD(1,2)[OF insideD(1)[OF 1(1)]]
  have "\<not> ms_closed (se_store s)"
    using 1(2) by (cases "ms_closed (se_store s)") (simp_all add: scanAll.simps scanDocuments_def assertOpen_def)
  from task_documents_found[OF session_okD(1)[OF ok(1)] this 1(2)] 1(1) minted_fields(6)[OF ok(2)] show ?case
    by (simp add: inside_def documents_of_def)
qed (auto dest: insideD tx_ok_fail)


lemma firm_retiring: "firm (\<lambda>t. retiring_ok m0 t acc)"
proof -
  have same: "retiring_ok m0 t' acc = retiring_ok m0 t acc"
    if "candidate t' = candidate t" "tx_created t' = tx_created t" "se_store t' = se_store t" "se_documents t' = se_documents t"
    for t t'
  proof -
    have "scope_ended t' sc = scope_ended t sc" for sc using that(1) by (cases sc) (simp_all add: ended_def)
    then show ?thesis using plan_ok_same[OF that, of m0] by (simp add: retiring_ok_def list_all_iff)
  qed
  show ?thesis
    using same[of "touch_task _ _"] same[of "_\<lparr>tx_submissions := _\<rparr>"]
    by (simp add: firm_def touchable_def touch_fields_tx submissions_tx)
qed

lemma line_retire_stored:
  assumes "firm F" "\<And>t. F t \<Longrightarrow> \<forall>i. (i, False) \<in> set xs \<longrightarrow> ended t i" "\<And>t. F t \<Longrightarrow> retiring_ok m0 t acc" "kernel_ok m0"
  shows "triple (inside D m0 F) (retire_stored xs acc)
    (\<lambda>acc'. inside D m0 (\<lambda>t. F t \<and> retiring_ok m0 t acc'
      \<and> (\<forall>i. (i, False) \<in> set xs \<longrightarrow> dc_id ` documents_of m0 i \<subseteq> set (snd acc')) \<and> set (snd acc) \<subseteq> set (snd acc')))
    (tx_ok D m0)"
  using assms(1-3)
proof (induction xs arbitrary: acc F)
  case (Cons x xs)
  obtain i created where x: "x = (i, created)" by (cases x)
  show ?case
  proof (cases created)
    case True
    with Cons.IH[of F acc] Cons.prems show ?thesis by (simp add: x)
  next
    case False
    let ?G = "\<lambda>acc' t. (F t \<and> retiring_ok m0 t acc' \<and> dc_id ` documents_of m0 i \<subseteq> set (snd acc')
        \<and> set (snd acc) \<subseteq> set (snd acc'))"
    have added: "?G (fold add_retiring rs acc) t" if t: "tx_ok D m0 t" "F t" and rs: "set rs = documents_of m0 i" for rs t
    proof -
      have "to_retire m0 t r" if r: "r \<in> documents_of m0 i" for r
      proof -
        from r obtain j d where d: "ms_documents m0 j = Some d" "ds_record d = r" "dr_retired r = None" "dc_scope r = TaskScope i"
          by (auto simp: documents_of_def)
        with assms(4) have "dc_id r = j" by (auto simp: kernel_defs store_ok_def documents_ok_def)
        moreover have "ended t i" using Cons.prems(2)[OF t(2)] by (simp add: x False)
        ultimately show ?thesis using d by (simp add: to_retire_def live_record_def)
      qed
      with fold_retiring_ok[OF t(1) Cons.prems(3)[OF t(2)], of rs] t rs show ?thesis by auto
    qed
    have firmG: "firm (?G acc')" for acc'
      using firm_conj[OF Cons.prems(1) firm_conj[OF firm_retiring firm_const]] by simp
    have rest: "triple (inside D m0 (?G acc')) (retire_stored xs acc')
        (\<lambda>acc''. inside D m0 (\<lambda>t. F t \<and> retiring_ok m0 t acc''
          \<and> (\<forall>i. (i, False) \<in> set (x # xs) \<longrightarrow> dc_id ` documents_of m0 i \<subseteq> set (snd acc'')) \<and> set (snd acc) \<subseteq> set (snd acc'')))
        (tx_ok D m0)" for acc'
    proof -
      have "triple (inside D m0 (?G acc')) (retire_stored xs acc')
        (\<lambda>acc''. inside D m0 (\<lambda>t. ?G acc' t \<and> retiring_ok m0 t acc''
          \<and> (\<forall>i. (i, False) \<in> set xs \<longrightarrow> dc_id ` documents_of m0 i \<subseteq> set (snd acc'')) \<and> set (snd acc') \<subseteq> set (snd acc'')))
        (tx_ok D m0)"
        by (rule Cons.IH[OF firmG]) (use Cons.prems(2) in auto)
      then show ?thesis by (rule line_weaken) (auto simp: x)
    qed
    have "triple (inside D m0 F) (bnd (task_documents i) (\<lambda>rs. retire_stored xs (fold add_retiring rs acc)))
        (\<lambda>acc''. inside D m0 (\<lambda>t. F t \<and> retiring_ok m0 t acc''
          \<and> (\<forall>i. (i, False) \<in> set (x # xs) \<longrightarrow> dc_id ` documents_of m0 i \<subseteq> set (snd acc'')) \<and> set (snd acc) \<subseteq> set (snd acc'')))
        (tx_ok D m0)"
      by (rule triple_bnd[OF line_task_documents], rule line_pre[OF rest]) (use added in blast)
    then show ?thesis by (simp add: x False)
  qed
qed (auto simp: inside_def intro!: triple_ret)


lemma map_filter_set: "x \<in> set (List.map_filter f xs) \<longleftrightarrow> (\<exists>y \<in> set xs. f y = Some x)"
  by (induction xs) (auto simp: map_filter_simps split: option.split)

lemma bex_pair: "(\<exists>y \<in> A. P y) \<longleftrightarrow> (\<exists>i w. (i, w) \<in> A \<and> P (i, w))"
  by force

lemma terminal_listed:
  assumes "tasks_staged m0 t"
  shows "(i, c) \<in> set (terminal_tasks t) \<longleftrightarrow>
    (\<exists>w. candidate t i = Some w \<and> tk_status (written_task w) = TTerminal \<and> (c \<longleftrightarrow> (\<exists>k. w = TaskCreate k)))"
proof -
  have ids: "tk_id (written_task w) = j" if "candidate t j = Some w" for j w using assms that by (simp add: tasks_staged_def)
  let ?f = "\<lambda>(i, w). case w of
         Some (TaskCreate k) \<Rightarrow> if tk_status k = TTerminal then Some (tk_id k, True) else None
       | Some (TaskReplace k) \<Rightarrow> if tk_status k = TTerminal then Some (tk_id k, False) else None
       | None \<Rightarrow> None"
  have f: "?f (j, w) = Some (i, c) \<longleftrightarrow>
      (\<exists>w'. w = Some w' \<and> tk_id (written_task w') = i \<and> tk_status (written_task w') = TTerminal \<and> (c \<longleftrightarrow> (\<exists>k. w' = TaskCreate k)))"
    for j :: int and w
    by (cases w; cases "the w") auto
  let ?R = "\<lambda>w. tk_status (written_task w) = TTerminal \<and> (c \<longleftrightarrow> (\<exists>k. w = TaskCreate k))"
  have "(i, c) \<in> set (terminal_tasks t) \<longleftrightarrow> (\<exists>j w. (j, w) \<in> set (tx_tasks t) \<and> ?f (j, w) = Some (i, c))"
    unfolding terminal_tasks_def map_filter_set by (rule bex_pair)
  also have "\<dots> \<longleftrightarrow> (\<exists>j w. (j, Some w) \<in> set (tx_tasks t) \<and> tk_id (written_task w) = i \<and> ?R w)"
    unfolding f by fast
  also have "\<dots> \<longleftrightarrow> (\<exists>j w. candidate t j = Some w \<and> tk_id (written_task w) = i \<and> ?R w)"
    unfolding tasks_listed[OF assms] ..
  also have "\<dots> \<longleftrightarrow> (\<exists>w. candidate t i = Some w \<and> ?R w)" using ids by fast
  finally show ?thesis .
qed

lemma of_terminal_ended:
  assumes "tasks_staged m0 t"
  shows "of_terminal (map fst (terminal_tasks t)) sc = scope_ended t sc"
proof (cases sc)
  case (TaskScope i)
  have "i \<in> fst ` set (terminal_tasks t) \<longleftrightarrow> (\<exists>c. (i, c) \<in> set (terminal_tasks t))" by force
  also have "\<dots> \<longleftrightarrow> ended t i" unfolding terminal_listed[OF assms] ended_def by blast
  finally have "i \<in> fst ` set (terminal_tasks t) \<longleftrightarrow> ended t i" .
  then show ?thesis by (simp add: TaskScope of_terminal_def)
qed (simp_all add: of_terminal_def)

lemma marked_ok:
  assumes "tx_ok D m0 t" "list_all (plan_ok m0 t) plans" "plans_layered plans"
  defines "ids \<equiv> map fst (terminal_tasks t)"
  shows "retiring_ok m0 t (map (retire_plan ids) plans, map pl_id (filter (\<lambda>p. of_terminal ids (pl_scope p)) (map (retire_plan ids) plans)))"
proof -
  have fields: "pl_address (retire_plan ids p) = pl_address p" "pl_scope (retire_plan ids p) = pl_scope p"
    "pl_retire p \<Longrightarrow> pl_retire (retire_plan ids p)" "of_terminal ids (pl_scope p) \<Longrightarrow> pl_retire (retire_plan ids p)" for p
    by (simp_all add: retire_plan_def pl_scope_def)
  have "plan_ok m0 t (retire_plan ids p)" if "plan_ok m0 t p" for p
    using that plan_ok_retire by (simp add: retire_plan_def)
  moreover have "plans_layered (map (retire_plan ids) plans)"
    using assms(3) unfolding plans_layered_def sorted_wrt_map by (rule sorted_wrt_mono_rel[rotated]) (simp add: fields)
  moreover have "of_terminal ids sc = scope_ended t sc" for sc
    unfolding ids_def using of_terminal_ended[OF tx_okD(4)[OF assms(1)]] .
  ultimately show ?thesis
    using assms(2) fields unfolding retiring_ok_def by (auto simp: list_all_iff)
qed


lemma line_retire_terminal:
  assumes "firm F" "kernel_ok m0"
  shows "triple (inside D m0 (\<lambda>t. F t \<and> list_all (plan_ok m0 t) plans \<and> plans_layered plans)) (retire_terminal plans)
    (\<lambda>ps. inside D m0 (\<lambda>t. F t \<and> list_all (plan_ok m0 t) ps \<and> plans_layered ps \<and> documents_end m0 t ps)) (tx_ok D m0)"
proof -
  let ?Q = "\<lambda>ps. inside D m0 (\<lambda>t. F t \<and> list_all (plan_ok m0 t) ps \<and> plans_layered ps \<and> documents_end m0 t ps)"
  have "ends D m0 (\<lambda>ps t. F t \<and> list_all (plan_ok m0 t) ps \<and> plans_layered ps \<and> documents_end m0 t ps) (retire_terminal plans t)"
    if in_t: "inside D m0 (\<lambda>t. F t \<and> list_all (plan_ok m0 t) plans \<and> plans_layered plans) t" for t
  proof -
    note ok = insideD(1)[OF in_t]
    let ?xs = "terminal_tasks t"
    let ?marked = "map (retire_plan (map fst ?xs)) plans"
    let ?acc = "(?marked, map pl_id (filter (\<lambda>p. of_terminal (map fst ?xs) (pl_scope p)) ?marked))"
    let ?G = "\<lambda>u. (F u \<and> candidate u = candidate t) \<and> retiring_ok m0 u ?acc"
    have acc: "retiring_ok m0 t ?acc" using marked_ok[OF ok] in_t by (simp add: inside_def)
    have "firm (\<lambda>u. candidate u = candidate t)" by (simp add: firm_def touchable_def touch_fields_tx submissions_tx)
    then have firmG: "firm ?G" using firm_conj[OF firm_conj[OF assms(1)] firm_retiring] by blast
    have listed: "ended u i" if "?G u" "(i, False) \<in> set ?xs" for u i
      using that terminal_listed[OF tx_okD(4)[OF ok]] by (auto simp: ended_def)
    have closes: "documents_end m0 u (fst acc)"
      if u: "?G u" and r: "retiring_ok m0 u acc" "\<forall>i. (i, False) \<in> set ?xs \<longrightarrow> dc_id ` documents_of m0 i \<subseteq> set (snd acc)" for u acc
      unfolding documents_end_def
    proof (intro conjI allI impI)
      show "\<forall>p \<in> set (fst acc). scope_ended u (pl_scope p) \<longrightarrow> pl_retire p" using r(1) by (simp add: retiring_ok_def)
      fix i j d
      assume d: "ended u i" "ms_documents m0 j = Some d" "dr_retired (ds_record d) = None" "dc_scope (ds_record d) = TaskScope i"
      from assms(2) have "task_documents_ok m0" by (simp add: kernel_ok_def)
      with d(2-4) have "live_task m0 i" unfolding task_documents_ok_def by blast
      then obtain k where "ms_tasks m0 i = Some k" by (auto simp: live_task_def)
      then have "i < ms_nextId m0"
        using assms(2) types_ok_at(3)[of m0 i] by (auto simp: kernel_ok_def store_ok_def tables_ok_def types_ok_def)
      moreover obtain w where w: "candidate t i = Some w" "tk_status (written_task w) = TTerminal"
        using d(1) u by (auto simp: ended_def)
      moreover have "fresh m0 (se_store t) i" if "\<exists>k. w = TaskCreate k"
        using tx_okD(4)[OF ok] w(1) that by (auto simp: tasks_staged_def)
      ultimately have "(i, False) \<in> set ?xs" using terminal_listed[OF tx_okD(4)[OF ok], of i False] by (auto simp: fresh_def)
      moreover have "dc_id (ds_record d) = j" using assms(2) d(2) by (auto simp: kernel_defs store_ok_def documents_ok_def)
      then have "j \<in> dc_id ` documents_of m0 i" using d by (force simp: documents_of_def)
      ultimately have "j \<in> set (snd acc)" using r(2) by blast
      then show "\<exists>p \<in> set (fst acc). pl_id p = j \<and> pl_retire p" using r(1) by (simp add: retiring_ok_def)
    qed
    have "triple (inside D m0 ?G) (bnd (retire_stored ?xs ?acc) (\<lambda>acc. ret (fst acc))) ?Q (tx_ok D m0)"
      by (rule triple_bnd[OF line_retire_stored[OF firmG _ _ assms(2)] triple_ret])
        (use listed closes in \<open>auto simp: inside_def retiring_ok_def\<close>)
    moreover have "inside D m0 ?G t" using in_t acc by (simp add: inside_def)
    ultimately show ?thesis unfolding triple_ends by (simp add: retire_terminal_def Let_def)
  qed
  then show ?thesis unfolding triple_ends by blast
qed

subsection \<open>Publication owners, submissions and checkpoints\<close>

text \<open>Plans that differ in the conversation they are published to.\<close>

definition replanned :: "doc_plan \<Rightarrow> doc_plan \<Rightarrow> bool" where
  "replanned p p' \<longleftrightarrow> (\<exists>c. p' = p\<lparr>pl_conversation := c\<rparr>)"

lemma line_own_plan:
  assumes "touchable F"
  shows "triple (inside D m0 F) (own_plan p) (\<lambda>p'. inside D m0 (\<lambda>t. F t \<and> replanned p p')) (tx_ok D m0)"
proof -
  have same: "replanned p p" using exI[of "\<lambda>c. p = p\<lparr>pl_conversation := c\<rparr>" "pl_conversation p"] by (simp add: replanned_def)
  show ?thesis
    unfolding own_plan_def
    by (auto simp: inside_def same intro!: triple_ret triple_bnd[OF line_current[OF assms]] split: doc_scope.split)
      (auto simp: replanned_def)
qed

lemma line_own_plans:
  assumes "touchable F"
  shows "triple (inside D m0 F) (act_map own_plan ps) (\<lambda>ps'. inside D m0 (\<lambda>t. F t \<and> list_all2 replanned ps ps')) (tx_ok D m0)"
proof (induction ps)
  case (Cons p ps)
  have touch: "touchable (\<lambda>t. F t \<and> b)" for b using assms by (simp add: touchable_def)
  show ?case unfolding act_map.simps
  proof (rule triple_bnd[OF line_own_plan[OF assms]])
    fix p'
    show "triple (inside D m0 (\<lambda>t. F t \<and> replanned p p')) (bnd (act_map own_plan ps) (\<lambda>ys. ret (p' # ys)))
        (\<lambda>ps'. inside D m0 (\<lambda>t. F t \<and> list_all2 replanned (p # ps) ps')) (tx_ok D m0)"
    proof (cases "replanned p p'")
      case True
      show ?thesis
        by (rule line_pre[OF triple_bnd[OF Cons.IH triple_ret]]) (auto simp: inside_def True)
    qed (simp add: triple_def inside_def)
  qed
qed (auto simp: inside_def intro: triple_ret)


lemma change_keeps_id: "applySubmissionChange s change = Inr s' \<Longrightarrow> sb_id s' = sb_id s"
  by (auto simp: applySubmissionChange_def split: submission_state.splits submission_change.splits)

definition submission_known :: "store \<Rightarrow> tx \<Rightarrow> int \<Rightarrow> submission \<Rightarrow> bool" where
  "submission_known m0 t i s \<longleftrightarrow> sb_id s = i \<and> (fresh m0 (se_store t) i \<or> ms_submissions m0 i \<noteq> None)"

lemma line_latest:
  "triple (inside D m0 F) (latest_submission i)
     (\<lambda>found. inside D m0 (\<lambda>t. F t \<and> (\<forall>s. found = Some s \<longrightarrow> submission_known m0 t i s))) (tx_ok D m0)"
proof -
  let ?Q = "\<lambda>found t. F t \<and> (\<forall>s. found = Some s \<longrightarrow> submission_known m0 t i s)"
  have read: "triple (inside D m0 F) (reads (\<lambda>m. submission_of m i)) (\<lambda>found. inside D m0 (?Q found)) (tx_ok D m0)"
  proof (rule line_weaken[OF line_reads])
    fix found t assume ok: "tx_ok D m0 t" and found: "F t \<and> submission_of (se_store t) i = Inr found"
    have "submissions_ok (se_store t)"
      using session_okD(2)[OF tx_okD(1)[OF ok]] by (simp add: store_ok_def tables_ok_def)
    then show "?Q found t"
      using found minted_fields(5)[OF tx_okD(2)[OF ok]]
      by (auto simp: submission_of_def assertOpen_def submission_known_def submissions_ok_def split: if_splits)
  qed
  have "ends D m0 ?Q (latest_submission i t)" if in_t: "inside D m0 F t" for t
  proof (cases "map_of (tx_submissions t) i")
    case None
    with read in_t show ?thesis unfolding triple_ends by (simp add: latest_submission_def)
  next
    case (Some s)
    then have "(i, s) \<in> set (tx_submissions t)" by (rule map_of_SomeD)
    with tx_okD(5)[OF insideD(1)[OF in_t]] have "submission_known m0 t i s"
      by (auto simp: submissions_staged_def submission_known_def)
    with Some in_t show ?thesis by (simp add: latest_submission_def ends_def inside_def)
  qed
  then show ?thesis unfolding triple_ends by blast
qed

lemma line_resolve:
  assumes "firm F"
  shows "triple (inside D m0 F) (resolve_submission x) (\<lambda>_. inside D m0 F) (tx_ok D m0)"
proof -
  obtain i change where x: "x = (i, change)" by (cases x)
  have put: "triple (inside D m0 (\<lambda>t. (F t \<and> (\<forall>s'. Some s = Some s' \<longrightarrow> submission_known m0 t i s')) \<and> applySubmissionChange s change = Inr s'))
      (if s' = s then ret () else changed (\<lambda>t. t\<lparr>tx_submissions := AList.update i s' (tx_submissions t)\<rparr>))
      (\<lambda>_. inside D m0 F) (tx_ok D m0)" for s s'
    using assms put_submission_staged change_keeps_id
    by (auto simp: inside_def submission_known_def firm_def intro!: triple_ret triple_changed)
  have cases: "triple (inside D m0 (\<lambda>t. F t \<and> (\<forall>s. found = Some s \<longrightarrow> submission_known m0 t i s)))
      (case found of None \<Rightarrow> throw (NoSubmission i)
       | Some s \<Rightarrow> bnd (given (applySubmissionChange s change)) (\<lambda>s'.
              if s' = s then ret () else changed (\<lambda>t. t\<lparr>tx_submissions := AList.update i s' (tx_submissions t)\<rparr>)))
      (\<lambda>_. inside D m0 F) (tx_ok D m0)" for found
  proof (cases found)
    case None
    then show ?thesis by (simp add: line_throw)
  next
    case (Some s)
    show ?thesis unfolding Some option.case by (rule triple_bnd[OF line_given put])
  qed
  show ?thesis unfolding x resolve_submission_def prod.case by (rule triple_bnd[OF line_latest cases])
qed

lemma line_resolves:
  assumes "firm F"
  shows "triple (inside D m0 F) (\<lambda>t. act_each resolve_submission (tx_changes t) t) (\<lambda>_. inside D m0 F) (tx_ok D m0)"
proof (rule line_at)
  fix t assume "inside D m0 F t"
  moreover have "triple (inside D m0 F) (act_each resolve_submission (tx_changes t)) (\<lambda>_. inside D m0 F) (tx_ok D m0)"
    by (rule triple_each[OF line_resolve[OF assms]]) (simp add: inside_def)
  ultimately show "\<exists>G. inside D m0 G t
      \<and> triple (inside D m0 G) (act_each resolve_submission (tx_changes t)) (\<lambda>_. inside D m0 F) (tx_ok D m0)" by blast
qed

text \<open>Plans that differ in what the settlement may still change.\<close>

definition settled :: "store \<Rightarrow> tx \<Rightarrow> doc_plan list \<Rightarrow> bool" where
  "settled m0 t ps \<longleftrightarrow> list_all (plan_ok m0 t) ps \<and> plans_layered ps \<and> documents_end m0 t ps"

definition alike :: "store \<Rightarrow> tx \<Rightarrow> doc_plan \<Rightarrow> doc_plan \<Rightarrow> bool" where
  "alike m0 t p p' \<longleftrightarrow>
     pl_address p' = pl_address p \<and> pl_record p' = pl_record p \<and> pl_retire p' = pl_retire p
     \<and> (plan_ok m0 t p \<longrightarrow> plan_ok m0 t p')"

lemma list_all2_pair:
  assumes "list_all2 R xs ys"
  shows "x \<in> set xs \<Longrightarrow> \<exists>y \<in> set ys. R x y" "y \<in> set ys \<Longrightarrow> \<exists>x \<in> set xs. R x y"
  using assms by (induction rule: list_all2_induct) auto

lemma settled_alike:
  assumes "settled m0 t ps" "list_all2 (alike m0 t) ps ps'"
  shows "settled m0 t ps'"
proof -
  have "list_all (plan_ok m0 t) ps'"
    using assms by (auto simp: settled_def list_all_length list_all2_conv_all_nth alike_def)
  moreover have "plans_layered ps'"
    using assms by (auto simp: settled_def plans_layered_def sorted_wrt_iff_nth_less list_all2_conv_all_nth alike_def)
  moreover have "documents_end m0 t ps'"
  proof -
    have there: "\<exists>p' \<in> set ps'. pl_id p' = pl_id p \<and> pl_retire p' = pl_retire p" if "p \<in> set ps" for p
      using list_all2_pair(1)[OF assms(2) that] unfolding alike_def pl_id_def by metis
    have origin: "\<exists>p \<in> set ps. pl_scope p' = pl_scope p \<and> pl_retire p' = pl_retire p" if "p' \<in> set ps'" for p'
      using list_all2_pair(2)[OF assms(2) that] unfolding alike_def pl_scope_def by metis
    from assms(1) have old: "documents_end m0 t ps" by (simp add: settled_def)
    show ?thesis
      unfolding documents_end_def
    proof (intro conjI ballI allI impI)
      fix p' assume "p' \<in> set ps'" "scope_ended t (pl_scope p')"
      with origin[of p'] old show "pl_retire p'" unfolding documents_end_def by auto
    next
      fix i j d assume "ended t i" "ms_documents m0 j = Some d" "dr_retired (ds_record d) = None" "dc_scope (ds_record d) = TaskScope i"
      with old obtain p where "p \<in> set ps" "pl_id p = j" "pl_retire p" unfolding documents_end_def by blast
      with there[of p] show "\<exists>p \<in> set ps'. pl_id p = j \<and> pl_retire p" by auto
    qed
  qed
  ultimately show ?thesis by (simp add: settled_def)
qed

lemma firm_settled: "firm (\<lambda>t. settled m0 t ps)"
  unfolding settled_def by (intro firm_conj firm_plans firm_const firm_valid)

lemma alike_replanned: "replanned p p' \<Longrightarrow> alike m0 t p p'"
  by (auto simp: replanned_def alike_def plan_ok_def created_plan_def copied_plan_def loaded_plan_def retired_plan_def)


lemma alike_checkpoint:
  assumes "checkpoint_plan p = Inr p'"
  shows "alike m0 t p p'"
proof (cases "p' = p")
  case False
  with assms obtain i v ops c l where c:
    "pl_content p = Some (WChange i (Delta v ops))" "pl_change p = Some c"
    "p' = p\<lparr>pl_content := Some (WChange i (Base (ch_version c) (ch_value c)))\<rparr>"
    by (auto simp: checkpoint_plan_def and_then_Inr split: option.splits storage_write.splits content.splits if_splits)
  have "plan_ok m0 t p'" if ok: "plan_ok m0 t p"
  proof -
    from ok c(1) obtain l c' where l: "loaded_plan t p l c'"
      unfolding plan_ok_def created_plan_def copied_plan_def retired_plan_def by auto
    with c have "loaded_plan t p' l c'" by (auto simp: loaded_plan_def content_fits_def)
    then show ?thesis by (rule plan_okI(3))
  qed
  then show ?thesis by (simp add: alike_def c(3))
qed (simp add: alike_def)

lemma each_related: "each f xs = Inr ys \<Longrightarrow> list_all2 (\<lambda>x y. f x = Inr y) xs ys"
  by (induction xs arbitrary: ys) (auto simp: and_then_Inr)

subsection \<open>The batch\<close>

definition batch_ok :: "store \<Rightarrow> tx \<Rightarrow> storage_write list \<times> doc_plan list \<Rightarrow> bool" where
  "batch_ok m0 t batch \<longleftrightarrow>
     fst batch = all_writes t (snd batch) \<and> settled m0 t (snd batch) \<and> owners_valid m0 t \<and> replaced_valid m0 t"

lemma line_assemble:
  assumes "kernel_ok m0"
  shows "triple (inside D m0 (\<lambda>t. each (prepare_document owned) (tx_documents t) = Inr docs)) (assemble docs)
    (\<lambda>batch. inside D m0 (\<lambda>t. batch_ok m0 t batch)) (tx_ok D m0)"
proof -
  let ?plans = "List.map_filter planDocument docs"
  let ?F1 = "\<lambda>t. list_all (plan_ok m0 t) ?plans"
  let ?F2 = "\<lambda>t. (?F1 t \<and> plans_layered ?plans) \<and> owners_valid m0 t"
  let ?F3 = "\<lambda>t. ?F2 t \<and> replaced_valid m0 t"
  let ?V = "\<lambda>t. owners_valid m0 t \<and> replaced_valid m0 t"
  have firm1: "firm (\<lambda>t. ?F1 t \<and> plans_layered ?plans)" by (intro firm_conj firm_plans firm_const)
  have firm2: "firm ?F2" by (intro firm_conj firm1 firm_valid)
  have firmV: "firm ?V" by (intro firm_conj firm_valid)
  have firmS: "firm (\<lambda>t. ?V t \<and> settled m0 t ps)" for ps by (intro firm_conj firmV firm_settled)
  have last: "triple (inside D m0 (\<lambda>t. (?V t \<and> settled m0 t ps) \<and> each checkpoint_plan ps = Inr ps'))
      (\<lambda>t. (Inr (all_writes t ps', ps'), t)) (\<lambda>batch. inside D m0 (\<lambda>t. batch_ok m0 t batch)) (tx_ok D m0)" for ps ps'
  proof -
    have "settled m0 t ps'" if "settled m0 t ps" "each checkpoint_plan ps = Inr ps'" for t
      by (rule settled_alike[OF that(1) list_all2_mono[OF each_related[OF that(2)]]]) (rule alike_checkpoint)
    then show ?thesis by (auto simp: triple_def inside_def batch_ok_def)
  qed
  have owned_plans: "triple (inside D m0 (\<lambda>t. (?V t \<and> settled m0 t ps) \<and> list_all2 replanned ps ps2))
      (bnd (\<lambda>t. act_each resolve_submission (tx_changes t) t) (\<lambda>_.
       bnd (given (each checkpoint_plan ps2)) (\<lambda>plans3 t. (Inr (all_writes t plans3, plans3), t))))
      (\<lambda>batch. inside D m0 (\<lambda>t. batch_ok m0 t batch)) (tx_ok D m0)" for ps ps2
  proof (rule line_pre[OF triple_bnd[OF line_resolves[OF firmS] triple_bnd[OF line_given last]]])
    fix t assume "(?V t \<and> settled m0 t ps) \<and> list_all2 replanned ps ps2"
    with settled_alike[of m0 t ps ps2] list_all2_mono[of replanned ps ps2 "alike m0 t"] alike_replanned
    show "?V t \<and> settled m0 t ps2" by blast
  qed
  have retired: "triple (inside D m0 (\<lambda>t. ?V t \<and> list_all (plan_ok m0 t) ps \<and> plans_layered ps \<and> documents_end m0 t ps))
      (bnd (act_map own_plan ps) (\<lambda>plans2.
       bnd (\<lambda>t. act_each resolve_submission (tx_changes t) t) (\<lambda>_.
       bnd (given (each checkpoint_plan plans2)) (\<lambda>plans3 t. (Inr (all_writes t plans3, plans3), t)))))
      (\<lambda>batch. inside D m0 (\<lambda>t. batch_ok m0 t batch)) (tx_ok D m0)" for ps
    by (rule line_pre[OF triple_bnd[OF line_own_plans[OF firm_touchable[OF firmS]] owned_plans]]) (simp add: settled_def)
  have "triple (inside D m0 (\<lambda>t. ?F1 t \<and> plans_layered ?plans)) (assemble docs)
    (\<lambda>batch. inside D m0 (\<lambda>t. batch_ok m0 t batch)) (tx_ok D m0)"
    unfolding assemble_def Let_def
    by (rule triple_bnd[OF line_reject triple_bnd[OF line_validate_owners[OF firm1]
          triple_bnd[OF line_validate_replaced[OF firm2] triple_bnd[OF line_pre[OF line_retire_terminal[OF firmV assms]] retired]]]])
      simp
  then show ?thesis by (rule line_pre) (use entry_plans in blast)
qed


lemma line_settle:
  assumes "kernel_ok m0"
  shows "triple (tx_ok D m0) (settleSuccess owned pending) (\<lambda>batch. inside D m0 (\<lambda>t. batch_ok m0 t batch)) (tx_ok D m0)"
proof -
  have seal: "tx_ok D m0 (t\<lparr>tx_sealed := True\<rparr>)" if "tx_ok D m0 t" for t
    by (rule tx_ok_calm[OF that])
      (use tx_okD(1)[OF that] session_ok_cong[of t "t\<lparr>tx_sealed := True\<rparr>" D]
        in \<open>auto simp: calm_def candidate_def fun_eq_iff loads_kept_def same_cache_def\<close>)
  have prepared: "triple (tx_ok D m0)
      (bnd (\<lambda>t. given (each (prepare_document owned) (tx_documents t)) t) assemble)
      (\<lambda>batch. inside D m0 (\<lambda>t. batch_ok m0 t batch)) (tx_ok D m0)"
  proof (rule triple_bnd[OF _ line_assemble[OF assms]])
    show "triple (tx_ok D m0) (\<lambda>t. given (each (prepare_document owned) (tx_documents t)) t)
        (\<lambda>docs. inside D m0 (\<lambda>t. each (prepare_document owned) (tx_documents t) = Inr docs)) (tx_ok D m0)"
      by (auto simp: triple_def given_def inside_def split: sum.split)
  qed
  show ?thesis
    unfolding settleSuccess_def
    by (rule triple_bnd[OF triple_changed[where Q = "\<lambda>_. tx_ok D m0"]])
      (use seal prepared in \<open>auto intro: triple_throw\<close>)
qed

lemma callback_ok:
  assumes "kernel_ok m0" "definitions_ok D" "list_all (call_ok D) (cb_calls cb)"
  shows "triple (tx_ok D m0) (run_callback owned cb) (\<lambda>batch. inside D m0 (\<lambda>t. batch_ok m0 t batch)) (tx_ok D m0)"
  unfolding run_callback_def
  by (rule triple_bnd[OF _ triple_bnd[OF triple_check[where Q = "\<lambda>_. tx_ok D m0"]
          triple_bnd[OF triple_healthy[where Q = "\<lambda>_. tx_ok D m0"] line_settle[OF assms(1)]]]])
    (use keeps_calls assms in \<open>auto simp: keeps_def\<close>)

end
