(* ===== verification/Session_Batch.thy ===== *)
theory Session_Batch
  imports Session_Settle
begin

text \<open>
  What the storage is given by a settled transaction, and what is stored of it: each write of the batch
  with the plan, task, submission or staged record it comes from.
\<close>

subsection \<open>Resolved writes\<close>

definition resolves_to :: "(nat \<Rightarrow> bool) \<Rightarrow> store \<Rightarrow> storage_write \<Rightarrow> storage_write \<Rightarrow> bool" where
  "resolves_to owned m w w' \<longleftrightarrow>
     (case w of
        WCopy r source p \<Rightarrow>
          \<exists>sd. materializeDocument owned m source p = Inr (Some sd) \<and> w' = WCreate r (sd_version sd) (sd_value sd)
      | _ \<Rightarrow> w' = w)"

lemma resolved_related:
  assumes "resolveDocumentCopies owned m ws = Inr ws'"
  shows "list_all2 (resolves_to owned m) ws ws'"
proof -
  have "resolves_to owned m w w'" if "resolve_copy owned m changed w = Inr w'" for changed w w'
    using that
    by (cases w) (auto simp: resolves_to_def split: if_splits sum.splits option.splits)
  then show ?thesis
    using assms unfolding resolveDocumentCopies_def by (blast intro: list_all2_mono[OF each_related])
qed

text \<open>The IDs of the documents that the writes create.\<close>

definition new_id :: "storage_write \<Rightarrow> int option" where
  "new_id w = (case w of WCreate r _ _ \<Rightarrow> Some (dc_id r) | WCopy r _ _ \<Rightarrow> Some (dc_id r) | _ \<Rightarrow> None)"

definition new_ids :: "storage_write list \<Rightarrow> int list" where
  "new_ids ws = List.map_filter new_id ws"

lemma new_ids_simps [simp]:
  "new_ids [] = []" "new_ids (w # ws) = (case new_id w of None \<Rightarrow> new_ids ws | Some i \<Rightarrow> i # new_ids ws)"
  "new_ids (ws @ ws') = new_ids ws @ new_ids ws'"
  by (simp_all add: new_ids_def map_filter_def)
    (simp add: new_ids_def map_filter_def split: option.split)

lemma resolved_new: "list_all2 (resolves_to owned m) ws ws' \<Longrightarrow> new_ids ws' = new_ids ws"
proof (induction rule: list_all2_induct)
  case (Cons w ws w' ws')
  then have "new_id w' = new_id w" by (cases w) (auto simp: resolves_to_def new_id_def)
  with Cons show ?case by (simp split: option.split)
qed simp

lemma resolved_copies:
  assumes "list_all2 (resolves_to owned m) ws ws'" "w \<in> set ws'"
  shows "\<not> is_copy w"
proof -
  from list_all2_pair(2)[OF assms] obtain w0 where "resolves_to owned m w0 w" by blast
  then show ?thesis by (cases w0) (auto simp: resolves_to_def)
qed

lemma accepted_new:
  assumes "prepareDocumentActions ws acts0 = Inr acts" "\<not> list_ex is_copy ws"
  shows "distinct (new_ids ws) \<and> (\<forall>i \<in> set (new_ids ws). da_create (action_of acts0 i) = None)"
  using assms
proof (induction ws arbitrary: acts0)
  case (Cons w ws)
  then obtain acts1 where step: "add_action w acts0 = Inr acts1" "prepareDocumentActions ws acts1 = Inr acts"
    by (auto simp: and_then_Inr)
  from Cons.IH[OF step(2)] Cons.prems(2)
  have ih: "distinct (new_ids ws)" "\<forall>i \<in> set (new_ids ws). da_create (action_of acts1 i) = None" by auto
  have kept: "da_create (action_of acts1 i) = None \<Longrightarrow> da_create (action_of acts0 i) = None" for i
    using step(1) by (cases w) (auto simp: Let_def action_update split: if_splits)
  show ?case
  proof (cases "new_id w")
    case None
    with ih kept show ?thesis by auto
  next
    case (Some j)
    with Cons.prems(2) obtain r v x where w: "w = WCreate r v x" "j = dc_id r"
      by (auto simp: new_id_def split: storage_write.splits)
    with step(1) have "da_create (action_of acts0 j) = None" "da_create (action_of acts1 j) = Some r"
      by (auto simp: Let_def action_update split: if_splits)
    with Some ih kept show ?thesis by auto
  qed
qed simp

subsection \<open>An accepted batch\<close>

text \<open>A transaction on the store \<open>m0\<close> that settled with \<open>plans\<close>, the writes \<open>ws\<close> that the storage made of its
  batch, the actions on documents, and the store \<open>m'\<close> after the commit.\<close>

definition accepted :: "doc_definition set \<Rightarrow> (nat \<Rightarrow> bool) \<Rightarrow> store \<Rightarrow> tx \<Rightarrow> doc_plan list
    \<Rightarrow> storage_write list \<Rightarrow> int \<Rightarrow> doc_actions \<Rightarrow> store \<Rightarrow> bool" where
  "accepted D owned m0 t plans ws seq acts m' \<longleftrightarrow>
     kernel_ok m0 \<and> tx_ok D m0 t \<and> settled m0 t plans \<and> owners_valid m0 t \<and> replaced_valid m0 t
     \<and> \<not> ms_closed (se_store t)
     \<and> list_all2 (resolves_to owned (se_store t)) (all_writes t plans) ws
     \<and> commit_effect (se_store t) seq ws acts m'
     \<and> distinct (new_ids (all_writes t plans))"

lemma prepared_accepted:
  assumes "kernel_ok m0" "tx_ok D m0 t" "batch_ok m0 t (ws, plans)"
    and p: "prepareCommit owned (se_store t) ws None = Inr p" "apply_prepared p (se_store t) = Inr (p', m')"
  shows "accepted D owned m0 t plans (pc_writes p) (pc_seq p) (pc_actions p) m'"
proof -
  note pre = prepareD[OF p(1)]
  have "list_all2 (resolves_to owned (se_store t)) ws (pc_writes p)" by (rule resolved_related[OF pre(4)])
  moreover have "distinct (new_ids ws)"
    using resolved_new[OF calculation] accepted_new[OF pre(6) resolved_no_copy[OF pre(4)]] by simp
  moreover have "commit_effect (se_store t) (pc_seq p) (pc_writes p) (pc_actions p) m'"
    using commit_effects[OF session_okD(2)[OF tx_okD(1)[OF assms(2)]] p] .
  ultimately show ?thesis using assms(1-3) pre(1) by (simp add: accepted_def batch_ok_def)
qed

lemma commit_accepted:
  assumes "kernel_ok m0" "tx_ok D m0 t" "batch_ok m0 t (ws, plans)" "commit owned ws (se_store t) = Inr (seq, m')"
  obtains ws' acts where "accepted D owned m0 t plans ws' seq acts m'"
proof -
  from assms(4) obtain p p' where p: "prepareCommit owned (se_store t) ws None = Inr p" "apply_prepared p (se_store t) = Inr (p', m')"
    "seq = pc_seq p"
    by (auto simp: commit_def and_then_Inr)
  from that[unfolded p(3)] prepared_accepted[OF assms(1-3) p(1,2)] show thesis .
qed

lemma acceptedD:
  assumes "accepted D owned m0 t plans ws seq acts m'"
  shows "kernel_ok m0" "tx_ok D m0 t" "settled m0 t plans" "owners_valid m0 t" "replaced_valid m0 t"
    "\<not> ms_closed (se_store t)" "list_all2 (resolves_to owned (se_store t)) (all_writes t plans) ws"
    "commit_effect (se_store t) seq ws acts m'" "distinct (new_ids (all_writes t plans))"
    "minted m0 (se_store t)" "session_ok D t" "kernel_ok (se_store t)" "store_ok m'"
proof -
  show ok: "kernel_ok m0" "tx_ok D m0 t" "settled m0 t plans" "owners_valid m0 t" "replaced_valid m0 t"
    "\<not> ms_closed (se_store t)" "list_all2 (resolves_to owned (se_store t)) (all_writes t plans) ws"
    "commit_effect (se_store t) seq ws acts m'" "distinct (new_ids (all_writes t plans))"
    using assms by (simp_all add: accepted_def)
  show "minted m0 (se_store t)" "session_ok D t" using tx_okD(1,2)[OF ok(2)] by simp_all
  then show "kernel_ok (se_store t)" by (simp add: session_okD(1))
  show "store_ok m'" using ok(8) by (simp add: commit_effect_def)
qed


subsection \<open>Where the writes come from\<close>

lemma plan_contents:
  assumes "plan_ok m0 t p" "pl_content p = Some w"
  shows "(\<exists>r v x. w = WCreate r v x \<and> created_plan p r v x \<and> create_staged m0 t (pl_address p) r)
    \<or> (\<exists>r source pt. w = WCopy r source pt \<and> copied_plan p r \<and> create_staged m0 t (pl_address p) r)
    \<or> (\<exists>l c k. w = WChange (dc_id (lo_record l)) k \<and> loaded_plan t p l c)"
  using assms(1) unfolding plan_ok_def
proof (elim disjE exE conjE)
  fix l c assume l: "loaded_plan t p l c"
  with assms(2) have "content_fits l c (Some w)" by (simp add: loaded_plan_def)
  with l show ?thesis by (auto simp: content_fits_def)
qed (use assms(2) in \<open>auto simp: created_plan_def copied_plan_def retired_plan_def\<close>)

lemma all_writes_mem:
  "w \<in> set (all_writes t plans) \<longleftrightarrow>
     w \<in> set (tx_writes t) \<or> (\<exists>(i, s) \<in> set (tx_submissions t). w = WSubmission s) \<or> (\<exists>k \<in> set (stagedTasks t). w = WTask k)
     \<or> (\<exists>p \<in> set plans. pl_content p = Some w) \<or> (\<exists>p \<in> set plans. pl_retire p \<and> w = WRetire (pl_id p))"
proof -
  have "w \<in> set (plan_writes p) \<longleftrightarrow> pl_content p = Some w \<or> pl_retire p \<and> w = WRetire (pl_id p)" for p
    by (auto simp: plan_writes_def split: option.split)
  moreover have "w \<in> set (map (WSubmission \<circ> snd) xs) \<longleftrightarrow> (\<exists>(i, s) \<in> set xs. w = WSubmission s)" for xs
    by force
  ultimately show ?thesis unfolding all_writes_def by auto
qed

lemma staged_tasks:
  assumes "tasks_staged m0 t"
  shows "k \<in> set (stagedTasks t) \<longleftrightarrow> (\<exists>w. candidate t (tk_id k) = Some w \<and> written_task w = k)"
proof -
  have "k \<in> set (stagedTasks t) \<longleftrightarrow> (\<exists>j w. (j, Some w) \<in> set (tx_tasks t) \<and> written_task w = k)"
    unfolding stagedTasks_def by (force simp: map_filter_set)
  also have "\<dots> \<longleftrightarrow> (\<exists>j w. candidate t j = Some w \<and> written_task w = k)" unfolding tasks_listed[OF assms] ..
  also have "\<dots> \<longleftrightarrow> (\<exists>w. candidate t (tk_id k) = Some w \<and> written_task w = k)"
    using assms unfolding tasks_staged_def by blast
  finally show ?thesis .
qed

lemma wrote:
  assumes "accepted D owned m0 t plans ws seq acts m'"
  shows "WRetire i \<in> set ws \<longleftrightarrow> (\<exists>p \<in> set plans. pl_retire p \<and> pl_id p = i)"
    "WChange i c \<in> set ws \<longleftrightarrow> (\<exists>p \<in> set plans. pl_content p = Some (WChange i c))"
    "WTask k \<in> set ws \<longleftrightarrow> (\<exists>w. candidate t (tk_id k) = Some w \<and> written_task w = k)"
    "WConversation v \<in> set ws \<longleftrightarrow> WConversation v \<in> set (tx_writes t)"
    "WEntry e \<in> set ws \<longleftrightarrow> WEntry e \<in> set (tx_writes t)"
    "WSubmission s \<in> set ws \<longleftrightarrow> (\<exists>i. (i, s) \<in> set (tx_submissions t))"
proof -
  note ok = acceptedD[OF assms]
  let ?aw = "all_writes t plans"
  have plan: "plan_ok m0 t p" if "p \<in> set plans" for p using ok(3) that by (simp add: settled_def list_all_iff)
  have same: "w \<in> set ws \<longleftrightarrow> w \<in> set ?aw" if "\<nexists>r v x. w = WCreate r v x" "\<not> is_copy w" for w
    using list_all2_pair(1)[OF ok(7), of w] list_all2_pair(2)[OF ok(7), of w] that
    by (fastforce simp: resolves_to_def split: storage_write.splits)
  have writes: "write_staged m0 t w" if "w \<in> set (tx_writes t)" for w
    using tx_okD(3)[OF ok(2)] that by (simp add: writes_staged_def)
  note contents = plan_contents[OF plan]
  show "WRetire i \<in> set ws \<longleftrightarrow> (\<exists>p \<in> set plans. pl_retire p \<and> pl_id p = i)"
    using writes[of "WRetire i"] contents by (auto simp: same all_writes_mem)
  show "WChange i c \<in> set ws \<longleftrightarrow> (\<exists>p \<in> set plans. pl_content p = Some (WChange i c))"
    using writes[of "WChange i c"] by (auto simp: same all_writes_mem)
  show "WTask k \<in> set ws \<longleftrightarrow> (\<exists>w. candidate t (tk_id k) = Some w \<and> written_task w = k)"
    using writes[of "WTask k"] contents staged_tasks[OF tx_okD(4)[OF ok(2)], of k] by (auto simp: same all_writes_mem)
  show "WConversation v \<in> set ws \<longleftrightarrow> WConversation v \<in> set (tx_writes t)"
    "WEntry e \<in> set ws \<longleftrightarrow> WEntry e \<in> set (tx_writes t)"
    using contents by (auto simp: same all_writes_mem)
  show "WSubmission s \<in> set ws \<longleftrightarrow> (\<exists>i. (i, s) \<in> set (tx_submissions t))"
    using writes[of "WSubmission s"] contents by (auto simp: same all_writes_mem)
qed

lemma wrote_create:
  assumes "accepted D owned m0 t plans ws seq acts m'" "WCreate r v x \<in> set ws"
  obtains p where "p \<in> set plans" "pl_record p = NewRecord r" "create_staged m0 t (pl_address p) r" "version_safe v" "is_JObj x"
    "created_plan p r v x \<or> copied_plan p r"
proof -
  note ok = acceptedD[OF assms(1)]
  have plan: "plan_ok m0 t p" if "p \<in> set plans" for p using ok(3) that by (simp add: settled_def list_all_iff)
  from list_all2_pair(2)[OF ok(7) assms(2)] obtain w where
    w: "w \<in> set (all_writes t plans)" "resolves_to owned (se_store t) w (WCreate r v x)" by blast
  from w(2) have shape: "w = WCreate r v x \<or> (\<exists>source pt. w = WCopy r source pt)"
    by (cases w) (auto simp: resolves_to_def)
  with tx_okD(3)[OF ok(2)] have "w \<notin> set (tx_writes t)" by (auto simp: writes_staged_def)
  with w(1) shape obtain p where p: "p \<in> set plans" "pl_content p = Some w" by (auto simp: all_writes_mem)
  from plan_contents[OF plan[OF p(1)] p(2)] shape show thesis
  proof (elim disjE exE conjE)
    fix r' v' x' assume "w = WCreate r' v' x'" "created_plan p r' v' x'" "create_staged m0 t (pl_address p) r'" "w = WCreate r v x"
    with p(1) that show thesis by (auto simp: created_plan_def)
  next
    fix r' source pt source' pt'
    assume c: "w = WCopy r' source pt" "copied_plan p r'" "create_staged m0 t (pl_address p) r'" "w = WCopy r source' pt'"
    with w(2) obtain sd where "materializeDocument owned (se_store t) source pt = Inr (Some sd)" "v = sd_version sd" "x = sd_value sd"
      by (auto simp: resolves_to_def)
    then have "document owned (se_store t) source pt = Inr (Some sd)" using ok(6) by (simp add: document_def assertOpen_def)
    from document_read[OF ok(12) this] have "version_safe v" "is_JObj x"
      using \<open>v = _\<close> \<open>x = _\<close> by blast+
    with c p(1) that[of p] show thesis by (auto simp: copied_plan_def)
  qed auto
qed

end
