(* ===== verification/Session_Kernel.thy ===== *)
theory Session_Kernel
  imports Session_Batch
begin

text \<open>
  The store after a commit of the Session: each document it holds, and that the store invariant of the
  Session holds again.
\<close>

subsection \<open>Documents after a commit\<close>

lemma wrote_content:
  assumes "accepted D owned m0 t plans ws seq acts m'" "p \<in> set plans" "pl_content p = Some w"
  shows "\<exists>w' \<in> set ws. changed_document w' = Some (pl_id p) \<and> \<not> is_copy w'"
proof -
  note ok = acceptedD[OF assms(1)]
  have "plan_ok m0 t p" using ok(3) assms(2) by (simp add: settled_def list_all_iff)
  from plan_contents[OF this assms(3)] have "changed_document w = Some (pl_id p)"
    by (auto simp: created_plan_def copied_plan_def loaded_plan_def pl_id_def doc_create.defs)
  moreover have "w \<in> set (all_writes t plans)" using assms(2,3) by (auto simp: all_writes_mem)
  from list_all2_pair(1)[OF ok(7) this] obtain w' where "w' \<in> set ws" "resolves_to owned (se_store t) w w'" by blast
  ultimately show ?thesis
    by (intro bexI[of _ w']) (cases w; auto simp: resolves_to_def)+
qed

definition retired_by :: "doc_plan list \<Rightarrow> int \<Rightarrow> bool" where
  "retired_by plans i \<longleftrightarrow> (\<exists>p \<in> set plans. pl_retire p \<and> pl_id p = i)"

lemma document_after:
  assumes acc: "accepted D owned m0 t plans ws seq acts m'" and doc: "ms_documents m' i = Some d'"
  obtains
    (same) "ms_documents m0 i = Some d'" "\<forall>p \<in> set plans. pl_id p = i \<longrightarrow> pl_content p = None \<and> \<not> pl_retire p"
      "\<not> retired_by plans i"
  | (made) r v x where "WCreate r v x \<in> set ws" "dc_id r = i" "ms_documents m0 i = None"
      "ds_record d' = doc_create.extend r \<lparr>dr_created = seq, dr_retired = (if retired_by plans i then Some seq else None)\<rparr>"
      "ds_revisions d' = [(Base v x, seq)] \<or> ds_revisions d' = [] \<and> retired_by plans i"
  | (changed) d revs where "ms_documents m0 i = Some d" "dr_retired (ds_record d) = None"
      "ds_record d' = (ds_record d)\<lparr>dr_retired := (if retired_by plans i then Some seq else None)\<rparr>"
      "revs = ds_revisions d \<and> (\<forall>c. WChange i c \<notin> set ws) \<or> (\<exists>c. WChange i c \<in> set ws \<and> revs = ds_revisions (change_document c seq d))"
      "ds_revisions d' = revs \<or> ds_revisions d' = [] \<and> retired_by plans i"
proof -
  note ok = acceptedD[OF acc]
  note eff = ok(8)[unfolded commit_effect_def]
  let ?m = "se_store t" and ?a = "action_of acts i"
  have docs: "ms_documents ?m = ms_documents m0" using minted_fields(6)[OF ok(10)] .
  have says: "says ws i ?a" using eff by blast
  from eff have "ms_documents m' i = (if ?a = no_action then ms_documents ?m i else Some (acted seq ?a (ms_documents ?m i)))"
    by blast
  note after = this[unfolded docs doc]
  have retire: "da_retire ?a \<longleftrightarrow> retired_by plans i"
    using saysD(3)[OF says] wrote(1)[OF acc] by (simp add: retired_by_def)
  show thesis
  proof (cases "?a = no_action")
    case True
    have content: "pl_content p = None" if "p \<in> set plans" "pl_id p = i" for p
    proof (cases "pl_content p")
      case (Some w)
      from wrote_content[OF acc that(1) Some] that(2) no_action_iff[OF says] True show ?thesis by auto
    qed
    have none: "\<not> retired_by plans i" using retire True by (simp add: no_action_def)
    then have "\<forall>p \<in> set plans. pl_id p = i \<longrightarrow> pl_content p = None \<and> \<not> pl_retire p"
      using content by (auto simp: retired_by_def)
    moreover have "ms_documents m0 i = Some d'" using after True by simp
    ultimately show thesis using same none by blast
  next
    case False
    have d': "d' = acted seq ?a (ms_documents m0 i)" using after False by simp
    have chk: "check_action ?m i ?a = None" "action_shape ws (i, ?a)" using eff False by blast+
    show thesis
    proof (cases "da_create ?a")
      case (Some r)
      with chk(2) obtain v x where c: "dc_id r = i" "da_content ?a = Some (Base v x)" "WCreate r v x \<in> set ws"
        by (auto simp: action_shape_def)
      have "ms_documents m0 i = None" using chk(1) Some docs by (auto simp: check_action_def Let_def split: if_splits)
      then show thesis
        using c Some d' retire
        by (intro made[of r v x]) (auto simp: acted_def retire_document_def Let_def)
    next
      case None
      from chk(1) None docs obtain d where d: "ms_documents m0 i = Some d" "dr_retired (ds_record d) = None"
        by (auto simp: check_action_def Let_def split: if_splits option.splits)
      have record_same: "(ds_record d)\<lparr>dr_retired := None\<rparr> = ds_record d" using d(2) by simp
      have kept: "ds_record (change_document c seq d) = ds_record d" for c by (simp add: change_document_def)
      show thesis
      proof (cases "da_content ?a")
        case (Some c)
        from saysD(5)[OF says Some] saysD(1)[OF says] None have "WChange i c \<in> set ws" by auto
        then show thesis
          using d Some None d' retire record_same kept
          by (intro changed[of d "ds_revisions (change_document c seq d)"]) (auto simp: acted_def retire_document_def Let_def)
      next
        case none: None
        from saysD(2)[OF says] none have "\<forall>c. WChange i c \<notin> set ws" by auto
        moreover have "da_retire ?a" using False None none by (cases ?a) (auto simp: no_action_def)
        ultimately show thesis
          using d none None d' retire
          by (intro changed[of d "ds_revisions d"]) (auto simp: acted_def retire_document_def Let_def)
      qed
    qed
  qed
qed

subsection \<open>Contents\<close>

lemma play_snoc: "play_all (revs @ [r]) = play r (play_all revs)"
  by (simp add: play_all_def)

lemma played_base: "play_all revs \<noteq> None \<Longrightarrow> last_base revs \<noteq> None"
proof (induction revs rule: rev_induct)
  case (snoc r revs)
  then show ?case by (cases r; cases "fst r") (auto simp: play_snoc last_base_append)
qed (simp add: play_all_def)

text \<open>What a document plays to after a change of its loaded value.\<close>

lemma changed_plays:
  assumes "cached_ok D m k l" "ms_documents m (dc_id (lo_record l)) = Some d" "content_fits l ch (Some (WChange i c))"
    and "applyOps (Some (lo_value l)) (ch_ops ch) = Inr (Some (ch_value ch))"
  shows "play_all (ds_revisions (change_document c seq d)) = Some (lo_version l, Inr (Some (ch_value ch)))"
    "length (snd (the (last_base (ds_revisions (change_document c seq d))))) = (if is_base c then 0 else lo_deltas l + 1)"
    "ds_revisions (change_document c seq d) = ds_revisions d @ [(c, seq)] \<or> is_base c \<and> ds_revisions (change_document c seq d) = [(c, seq)]"
proof -
  from assms(1,2) obtain x where x: "play_all (ds_revisions d) = Some (lo_stored l, Inr (Some x))"
    "lo_deltas l = length (snd (the (last_base (ds_revisions d))))" "shaped D l x"
    by (auto simp: cached_ok_def)
  from assms(3) consider "c = Base (lo_version l) (ch_value ch)" | "c = Delta (lo_version l) (ch_ops ch)" "lo_stored l = lo_version l"
    by (auto simp: content_fits_def)
  then have "play_all (ds_revisions (change_document c seq d)) = Some (lo_version l, Inr (Some (ch_value ch)))
    \<and> length (snd (the (last_base (ds_revisions (change_document c seq d))))) = (if is_base c then 0 else lo_deltas l + 1)
    \<and> (ds_revisions (change_document c seq d) = ds_revisions d @ [(c, seq)] \<or> is_base c \<and> ds_revisions (change_document c seq d) = [(c, seq)])"
  proof cases
    case 1
    then show ?thesis
      by (auto simp: change_document_def play_snoc play_all_def last_base_append)
  next
    case 2
    with x(3) have "lo_value l = x" by (simp add: shaped_def)
    moreover obtain b post where "last_base (ds_revisions d) = Some (b, post)" using played_base[of "ds_revisions d"] x(1) by auto
    ultimately show ?thesis
      using 2 x(1,2) assms(4) by (auto simp: change_document_def play_snoc last_base_append)
  qed
  then show "play_all (ds_revisions (change_document c seq d)) = Some (lo_version l, Inr (Some (ch_value ch)))"
    "length (snd (the (last_base (ds_revisions (change_document c seq d))))) = (if is_base c then 0 else lo_deltas l + 1)"
    "ds_revisions (change_document c seq d) = ds_revisions d @ [(c, seq)] \<or> is_base c \<and> ds_revisions (change_document c seq d) = [(c, seq)]"
    by blast+
qed

text \<open>A change that was written comes from a plan of a loaded document.\<close>

lemma wrote_loaded:
  assumes acc: "accepted D owned m0 t plans ws seq acts m'" and "WChange i c \<in> set ws"
  obtains p l ch where "p \<in> set plans" "loaded_plan t p l ch" "dc_id (lo_record l) = i" "content_fits l ch (Some (WChange i c))"
    "cached_ok D m0 (pl_address p) l" "pl_content p = Some (WChange i c)"
proof -
  note ok = acceptedD[OF acc]
  from wrote(2)[OF acc] assms(2) obtain p where p: "p \<in> set plans" "pl_content p = Some (WChange i c)" by blast
  have "plan_ok m0 t p" using ok(3) p(1) by (simp add: settled_def list_all_iff)
  from plan_contents[OF this p(2)] obtain l ch where l: "loaded_plan t p l ch" "i = dc_id (lo_record l)" by auto
  have "cached_ok D (se_store t) (pl_address p) l" using session_okD(3)[OF ok(11)] l(1) by (simp add: loaded_plan_def)
  then have "cached_ok D m0 (pl_address p) l" using minted_fields(6)[OF ok(10)] by (simp add: cached_ok_def)
  moreover have "content_fits l ch (Some (WChange i c))" using l(1) p(2) by (simp add: loaded_plan_def)
  ultimately show thesis by (intro that[of p l ch]) (use p l in auto)
qed

subsection \<open>The invariant of the store\<close>

lemma put_tasks:
  assumes "\<forall>k. WTask k \<in> set ws \<longrightarrow> tk_id k = i \<longrightarrow> k = k0"
  shows "fold task_put ws tasks i = (if \<exists>k. WTask k \<in> set ws \<and> tk_id k = i then Some k0 else tasks i)"
  using assms
proof (induction ws rule: rev_induct)
  case (snoc w ws)
  then show ?case by (cases w) auto
qed simp

lemma tasks_after:
  assumes acc: "accepted D owned m0 t plans ws seq acts m'"
  shows "ms_tasks m' i = task_now m0 t i"
proof -
  note ok = acceptedD[OF acc]
  have put: "ms_tasks m' = fold task_put ws (ms_tasks m0)"
    using ok(8) minted_fields(4)[OF ok(10)] by (simp add: commit_effect_def)
  have id: "tk_id (written_task w) = j" if "candidate t j = Some w" for j w
    using tx_okD(4)[OF ok(2)] that by (simp add: tasks_staged_def)
  show ?thesis
  proof (cases "candidate t i")
    case None
    then have "\<forall>k. WTask k \<in> set ws \<longrightarrow> tk_id k \<noteq> i" using wrote(3)[OF acc] by auto
    then have "fold task_put ws (ms_tasks m0) i = ms_tasks m0 i" using put_tasks[of ws i] by (metis (mono_tags))
    with None show ?thesis unfolding put task_now_def by simp
  next
    case (Some w)
    then have there: "WTask (written_task w) \<in> set ws" "tk_id (written_task w) = i" using wrote(3)[OF acc] id by auto
    have "\<forall>k. WTask k \<in> set ws \<longrightarrow> tk_id k = i \<longrightarrow> k = written_task w" using wrote(3)[OF acc] Some by auto
    from put_tasks[OF this, of "ms_tasks m0"] there have "fold task_put ws (ms_tasks m0) i = Some (written_task w)"
      by (metis (mono_tags))
    with Some show ?thesis unfolding put task_now_def by simp
  qed
qed

lemma known_id:
  assumes "kernel_ok m"
  shows "ms_types m i \<noteq> None \<Longrightarrow> 1 \<le> i \<and> i \<le> max_safe \<and> i < ms_nextId m"
    "ms_tasks m i \<noteq> None \<Longrightarrow> ms_types m i \<noteq> None" "ms_submissions m i \<noteq> None \<Longrightarrow> ms_types m i \<noteq> None"
    "ms_conversations m i \<noteq> None \<Longrightarrow> ms_types m i \<noteq> None" "ms_entries m i \<noteq> None \<Longrightarrow> ms_types m i \<noteq> None"
    "ms_documents m i \<noteq> None \<Longrightarrow> ms_types m i \<noteq> None" "2 \<le> ms_nextId m"
proof -
  from assms have types: "types_ok m" "ids_safe m" "2 \<le> ms_nextId m" by (simp_all add: kernel_ok_def store_ok_def tables_ok_def)
  then show "ms_types m i \<noteq> None \<Longrightarrow> 1 \<le> i \<and> i \<le> max_safe \<and> i < ms_nextId m" "2 \<le> ms_nextId m"
    by (auto simp: types_ok_def ids_safe_def)
  show "ms_tasks m i \<noteq> None \<Longrightarrow> ms_types m i \<noteq> None" "ms_submissions m i \<noteq> None \<Longrightarrow> ms_types m i \<noteq> None"
    "ms_conversations m i \<noteq> None \<Longrightarrow> ms_types m i \<noteq> None" "ms_entries m i \<noteq> None \<Longrightarrow> ms_types m i \<noteq> None"
    "ms_documents m i \<noteq> None \<Longrightarrow> ms_types m i \<noteq> None"
    using types_ok_at[OF types(1), of i] by auto
qed

lemma claimed_id:
  assumes acc: "accepted D owned m0 t plans ws seq acts m'" and 2: "w \<in> set ws" "claim w = Some (i, tab)"
  shows "1 \<le> i \<and> i \<le> max_safe"
proof -
  note ok = acceptedD[OF acc]
  note known = known_id[OF ok(1)]
  have fresh: "1 \<le> i \<and> i \<le> max_safe" if "fresh m0 (se_store t) i" using that known(7) by (simp add: fresh_def)
  note staged = tx_okD(3-5)[OF ok(2)]
  show ?thesis
  proof (cases w)
    case (WConversation v)
    with 2 wrote(4)[OF acc] have "WConversation v \<in> set (tx_writes t)" "cv_id v = i" by auto
    with staged(1) have "i \<in> set (tx_created t)" unfolding writes_staged_def by (metis write_staged.simps(1))
    with staged(1) have "i = root_conversation \<or> fresh m0 (se_store t) i" by (simp add: writes_staged_def)
    with fresh show ?thesis by (auto simp: root_conversation_def max_safe_def)
  next
    case (WEntry e)
    with 2 wrote(5)[OF acc] staged(1) have "fresh m0 (se_store t) i" by (auto simp: writes_staged_def)
    then show ?thesis by (rule fresh)
  next
    case (WTask k)
    with 2 wrote(3)[OF acc] obtain wt where wt: "candidate t i = Some wt" "written_task wt = k" by auto
    show ?thesis
    proof (cases wt)
      case (TaskCreate k')
      with wt staged(2) have "fresh m0 (se_store t) i" by (auto simp: tasks_staged_def)
      then show ?thesis by (rule fresh)
    next
      case (TaskReplace k')
      with wt ok(5) have "ms_tasks m0 i \<noteq> None" by (auto simp: replaced_valid_def replace_problem_def split: option.splits)
      then show ?thesis using known(1,2) by blast
    qed
  next
    case (WSubmission s)
    with 2 wrote(6)[OF acc] staged(3) have "fresh m0 (se_store t) i \<or> ms_submissions m0 i \<noteq> None"
      by (auto simp: submissions_staged_def)
    then show ?thesis using fresh known(1,3) by blast
  next
    case (WCreate r v x)
    with 2(1) have "WCreate r v x \<in> set ws" by simp
    then obtain p :: doc_plan where "create_staged m0 t (pl_address p) r" by (rule wrote_create[OF acc]) metis
    with 2 WCreate have "fresh m0 (se_store t) i" by (simp add: create_staged_def)
    then show ?thesis by (rule fresh)
  next
    case (WCopy r source p)
    with resolved_copies[OF ok(7) 2(1)] show ?thesis by simp
  qed (use 2 in simp_all)
qed

lemma ids_after:
  assumes acc: "accepted D owned m0 t plans ws seq acts m'"
  shows "ids_safe m'"
  unfolding ids_safe_def
proof (intro allI impI)
  fix i assume typed: "ms_types m' i \<noteq> None"
  note ok = acceptedD[OF acc]
  from ok(8) typed consider "ms_types m0 i \<noteq> None" | w tab where "w \<in> set ws" "claim w = Some (i, tab)"
    unfolding commit_effect_def using minted_fields(1)[OF ok(10)] by metis
  then show "1 \<le> i \<and> i \<le> max_safe" using known_id(1)[OF ok(1)] claimed_id[OF acc] by cases blast+
qed

lemma contents_after:
  assumes acc: "accepted D owned m0 t plans ws seq acts m'"
  shows "contents_ok m'"
  unfolding contents_ok_def
proof (intro allI impI)
  fix i d' assume doc: "ms_documents m' i = Some d'"
  note ok = acceptedD[OF acc]
  have old: "plays_objects (ds_revisions d)" if "ms_documents m0 i = Some d" for d
    using ok(1) that by (auto simp: kernel_ok_def contents_ok_def)
  have single: "plays_objects [(Base v x, seq)]" if "version_safe v" "is_JObj x" for v x
    using plays_objects_snoc[of "[]" "(Base v x, seq)"] that by (simp add: plays_object_def play_all_def)
  from acc doc show "plays_objects (ds_revisions d')"
  proof (cases rule: document_after)
    case same
    then show ?thesis using old by blast
  next
    case (made r v x)
    from made(1) have "version_safe v \<and> is_JObj x" by (rule wrote_create[OF acc]) simp
    with made(5) single show ?thesis by auto
  next
    case (changed d revs)
    have "plays_objects revs" using changed(4)
    proof (elim disjE exE conjE)
      fix c assume c: "WChange i c \<in> set ws" "revs = ds_revisions (change_document c seq d)"
      from wrote_loaded[OF acc c(1)] obtain p l ch where
        l: "loaded_plan t p l ch" "dc_id (lo_record l) = i" "content_fits l ch (Some (WChange i c))" "cached_ok D m0 (pl_address p) l"
        by blast
      then have "is_JObj (ch_value ch)" "version_safe (lo_version l)" "applyOps (Some (lo_value l)) (ch_ops ch) = Inr (Some (ch_value ch))"
        by (simp_all add: loaded_plan_def cached_ok_def)
      with changed_plays[OF l(4) _ l(3), of d seq] changed(1) l(2) have "plays_object revs" "revs = ds_revisions d @ [(c, seq)] \<or> revs = [(c, seq)]"
        by (auto simp: plays_object_def c(2))
      with old[OF changed(1)] plays_objects_snoc[of "ds_revisions d"] plays_objects_snoc[of "[]"] show ?thesis by auto
    qed (use old changed(1) in simp)
    with changed(5) show ?thesis by auto
  qed
qed


text \<open>A live document of a task after the commit: nothing retired it, so its task did not end.\<close>

lemma task_documents_after:
  assumes acc: "accepted D owned m0 t plans ws seq acts m'"
  shows "task_documents_ok m'"
  unfolding task_documents_ok_def
proof (intro allI impI)
  fix i d' k assume doc: "ms_documents m' i = Some d'" and live: "dr_retired (ds_record d') = None"
    and scope: "dc_scope (ds_record d') = TaskScope k"
  note ok = acceptedD[OF acc]
  from ok(3) have ends: "documents_end m0 t plans" and plan: "\<And>p. p \<in> set plans \<Longrightarrow> plan_ok m0 t p"
    by (simp_all add: settled_def list_all_iff)
  from ok(1) have old: "task_documents_ok m0" by (simp add: kernel_ok_def)
  have "\<not> retired_by plans i"
    using acc doc by (cases rule: document_after) (use live in \<open>auto split: if_splits\<close>)
  have found: "\<not> ended t k \<and> (candidate t k = None \<longrightarrow> live_task m0 k)"
    using acc doc
  proof (cases rule: document_after)
    case same
    with ends live scope have "\<not> ended t k" unfolding documents_end_def retired_by_def by blast
    moreover have "live_task m0 k" using old same(1) live scope unfolding task_documents_ok_def by blast
    ultimately show ?thesis by simp
  next
    case (changed d revs)
    then have d: "dr_retired (ds_record d) = None" "dc_scope (ds_record d) = TaskScope k" using scope by auto
    with ends changed(1) \<open>\<not> retired_by plans i\<close> have "\<not> ended t k" unfolding documents_end_def retired_by_def by blast
    moreover have "live_task m0 k" using old changed(1) d unfolding task_documents_ok_def by blast
    ultimately show ?thesis by simp
  next
    case (made r v x)
    from made(1) obtain p where p: "p \<in> set plans" "pl_record p = NewRecord r" "create_staged m0 t (pl_address p) r"
      by (rule wrote_create[OF acc]) metis
    have k: "dc_scope r = TaskScope k" using made(4) scope by simp
    then have "pl_scope p = TaskScope k" "pl_id p = i" using p(2) made(2) by (simp_all add: pl_scope_def pl_id_def)
    with ends p(1) \<open>\<not> retired_by plans i\<close> have "\<not> ended t k"
      unfolding documents_end_def retired_by_def by (metis scope_ended.simps(1))
    moreover have "scope_known m0 t (TaskScope k)" using p(3) k by (simp add: create_staged_def)
    ultimately show ?thesis by auto
  qed
  show "live_task m' k"
  proof (cases "candidate t k")
    case None
    with found show ?thesis by (simp add: live_task_def tasks_after[OF acc] task_now_def)
  next
    case (Some w)
    with found show ?thesis by (simp add: live_task_def tasks_after[OF acc] task_now_def ended_def)
  qed
qed

lemma conversations_after:
  assumes acc: "accepted D owned m0 t plans ws seq acts m'"
  shows "ms_conversations m' c = Some v \<Longrightarrow> ms_conversations m0 c = Some v \<or> WConversation v \<in> set (tx_writes t) \<and> cv_id v = c"
    "conversation_known m0 t c \<Longrightarrow> ms_conversations m' c \<noteq> None"
    "ms_entries m' i = Some e \<Longrightarrow> ms_entries m0 i = Some e \<or> WEntry e \<in> set (tx_writes t) \<and> en_id e = i"
    "ms_entries m0 i \<noteq> None \<Longrightarrow> ms_entries m' i \<noteq> None"
    "ms_types m0 i \<noteq> None \<Longrightarrow> ms_types m' i \<noteq> None"
proof -
  note ok = acceptedD[OF acc]
  note eff = ok(8)[unfolded commit_effect_def minted_fields(1-3)[OF ok(10)] wrote(4,5)[OF acc]]
  show "ms_conversations m' c = Some v \<Longrightarrow> ms_conversations m0 c = Some v \<or> WConversation v \<in> set (tx_writes t) \<and> cv_id v = c"
    using eff by blast
  show "ms_entries m' i = Some e \<Longrightarrow> ms_entries m0 i = Some e \<or> WEntry e \<in> set (tx_writes t) \<and> en_id e = i"
    using eff by blast
  show "ms_entries m0 i \<noteq> None \<Longrightarrow> ms_entries m' i \<noteq> None" "ms_types m0 i \<noteq> None \<Longrightarrow> ms_types m' i \<noteq> None"
    using eff by blast+
  assume "conversation_known m0 t c"
  then have "ms_conversations m0 c \<noteq> None \<or> (\<exists>v. WConversation v \<in> set (tx_writes t) \<and> cv_id v = c)"
    using tx_okD(3)[OF ok(2)] by (auto simp: conversation_known_def writes_staged_def)
  then show "ms_conversations m' c \<noteq> None" using eff by blast
qed

lemma owners_after:
  assumes acc: "accepted D owned m0 t plans ws seq acts m'"
  shows "owners_known m'"
  unfolding owners_known_def
proof (intro allI impI)
  fix c v oc ot assume v: "ms_conversations m' c = Some v" "cv_owner v = Some (oc, ot)"
  note ok = acceptedD[OF acc]
  from conversations_after(1)[OF acc v(1)] show "ms_tasks m' ot \<noteq> None"
  proof
    assume "ms_conversations m0 c = Some v"
    with v(2) ok(1) have "ms_tasks m0 ot \<noteq> None" unfolding kernel_ok_def owners_known_def by blast
    then show ?thesis by (simp add: tasks_after[OF acc] task_now_def split: option.split)
  next
    assume "WConversation v \<in> set (tx_writes t) \<and> cv_id v = c"
    with v(2) have "ot \<in> named_owners t" by (auto simp: named_owners_def)
    with ok(4) have "owner_problem ot (task_now m0 t ot) = None" by (simp add: owners_valid_def)
    then show ?thesis by (auto simp: tasks_after[OF acc] owner_problem_def split: option.splits)
  qed
qed

lemma entries_after:
  assumes acc: "accepted D owned m0 t plans ws seq acts m'"
  shows "entries_known m'" "documents_known m'"
proof -
  note ok = acceptedD[OF acc]
  show "entries_known m'"
    unfolding entries_known_def
  proof (intro allI impI)
    fix i e assume e: "ms_entries m' i = Some e"
    have "conversation_known m0 t (en_conversation e)"
      using conversations_after(3)[OF acc e]
    proof
      assume "ms_entries m0 i = Some e"
      with ok(1) have "ms_conversations m0 (en_conversation e) \<noteq> None" unfolding kernel_ok_def entries_known_def by blast
      then show ?thesis by (simp add: conversation_known_def)
    next
      assume "WEntry e \<in> set (tx_writes t) \<and> en_id e = i"
      then show ?thesis using tx_okD(3)[OF ok(2)] by (auto simp: writes_staged_def)
    qed
    then show "ms_conversations m' (en_conversation e) \<noteq> None" by (rule conversations_after(2)[OF acc])
  qed
  show "documents_known m'"
    unfolding documents_known_def
  proof (intro allI impI)
    fix i d' c assume d': "ms_documents m' i = Some d'" "dc_scope (ds_record d') = ConversationScope c"
    have old: "conversation_known m0 t c" if "ms_documents m0 i = Some d" "dc_scope (ds_record d) = ConversationScope c" for d
    proof -
      have "ms_conversations m0 c \<noteq> None" using ok(1) that unfolding kernel_ok_def documents_known_def by blast
      then show ?thesis by (simp add: conversation_known_def)
    qed
    have "conversation_known m0 t c"
      using acc d'(1)
    proof (cases rule: document_after)
      case (made r v x)
      from made(1) obtain p :: doc_plan where "create_staged m0 t (pl_address p) r" by (rule wrote_create[OF acc]) metis
      moreover have "dc_scope r = ConversationScope c" using made(4) d'(2) by simp
      ultimately show ?thesis by (simp add: create_staged_def)
    qed (use old d'(2) in auto)
    then show "ms_conversations m' c \<noteq> None" by (rule conversations_after(2)[OF acc])
  qed
qed


lemma forks_after:
  assumes acc: "accepted D owned m0 t plans ws seq acts m'"
  shows "forks_known m'"
  unfolding forks_known_def
proof (intro allI impI)
  fix c v p a assume v: "ms_conversations m' c = Some v" "cv_parent v = Some (p, a)"
  note ok = acceptedD[OF acc]
  note known = known_id[OF ok(1)]
  have below: "i < ms_nextId m0" if "ms_conversations m0 i \<noteq> None \<or> ms_entries m0 i \<noteq> None" for i
    using known(1,4,5) that by blast
  have new_entry: "ms_nextId m0 \<le> i" if "WEntry e \<in> set (tx_writes t)" "en_id e = i" for e i
    using tx_okD(3)[OF ok(2)] that by (auto simp: writes_staged_def fresh_def)
  have parts: "p < c \<and> ms_conversations m0 p \<noteq> None \<and> ms_entries m0 a \<noteq> None
      \<and> (\<forall>i e. ms_entries m0 i = Some e \<longrightarrow> en_conversation e = c \<longrightarrow> a < i)"
    using conversations_after(1)[OF acc v(1)]
  proof
    assume "ms_conversations m0 c = Some v"
    with v(2) ok(1) show ?thesis unfolding kernel_ok_def forks_known_def by blast
  next
    assume "WConversation v \<in> set (tx_writes t) \<and> cv_id v = c"
    then have new: "ms_nextId m0 \<le> c" "ms_conversations m0 p \<noteq> None" "ms_entries m0 a \<noteq> None"
      using tx_okD(3)[OF ok(2)] v(2) by (auto simp: writes_staged_def)
    have "False" if "ms_entries m0 i = Some e" "en_conversation e = c" for i e
    proof -
      have "ms_conversations m0 c \<noteq> None" using ok(1) that unfolding kernel_ok_def entries_known_def by blast
      with below[of c] new(1) show False by simp
    qed
    with new below[of p] show ?thesis by auto
  qed
  have "a < i" if e: "ms_entries m' i = Some e" "en_conversation e = c" for i e
    using conversations_after(3)[OF acc e(1)]
  proof
    assume "ms_entries m0 i = Some e"
    with parts e(2) show ?thesis by blast
  next
    assume "WEntry e \<in> set (tx_writes t) \<and> en_id e = i"
    then have "ms_nextId m0 \<le> i" using new_entry by blast
    moreover have "a < ms_nextId m0" using below[of a] parts by blast
    ultimately show ?thesis by simp
  qed
  moreover have "ms_conversations m' p \<noteq> None"
    by (rule conversations_after(2)[OF acc]) (use parts in \<open>simp add: conversation_known_def\<close>)
  moreover have "ms_entries m' a \<noteq> None" by (rule conversations_after(4)[OF acc]) (use parts in blast)
  ultimately show "p < c \<and> ms_conversations m' p \<noteq> None \<and> ms_entries m' a \<noteq> None
      \<and> (\<forall>i e. ms_entries m' i = Some e \<longrightarrow> en_conversation e = c \<longrightarrow> a < i)"
    using parts by blast
qed

lemma kernel_after:
  assumes "accepted D owned m0 t plans ws seq acts m'"
  shows "kernel_ok m'"
  unfolding kernel_ok_def
  using acceptedD(13)[OF assms] ids_after[OF assms] contents_after[OF assms] task_documents_after[OF assms]
    owners_after[OF assms] forks_after[OF assms] entries_after[OF assms] by blast


subsection \<open>What the JSONL storage asks of a commit\<close>

lemma planned_id:
  assumes acc: "accepted D owned m0 t plans ws seq acts m'" and p: "p \<in> set plans"
  shows "1 \<le> pl_id p \<and> pl_id p \<le> max_safe"
proof -
  note ok = acceptedD[OF acc]
  have "plan_ok m0 t p" using ok(3) p by (simp add: settled_def list_all_iff)
  then have "fresh m0 (se_store t) (pl_id p) \<or> ms_documents m0 (pl_id p) \<noteq> None"
    unfolding plan_ok_def
  proof (elim disjE exE conjE)
    fix l ch assume l: "loaded_plan t p l ch"
    then have "cached_ok D (se_store t) (pl_address p) l" using session_okD(3)[OF ok(11)] by (simp add: loaded_plan_def)
    with l show ?thesis using minted_fields(6)[OF ok(10)] by (auto simp: loaded_plan_def cached_ok_def pl_id_def doc_create.defs)
  qed (auto simp: created_plan_def copied_plan_def retired_plan_def create_staged_def live_record_def pl_id_def doc_create.defs)
  with known_id(1,6,7)[OF ok(1)] show ?thesis by (force simp: fresh_def)
qed

lemma writes_valid:
  assumes acc: "accepted D owned m0 t plans ws seq acts m'"
  shows "list_all valid_write ws"
  unfolding list_all_iff
proof
  fix w assume w: "w \<in> set ws"
  note ok = acceptedD[OF acc]
  note claimed = claimed_id[OF acc w]
  show "valid_write w"
  proof (cases w)
    case (WCreate r v x)
    then have "WCreate r v x \<in> set ws" using w by simp
    then have "version_safe v \<and> is_JObj x" by (rule wrote_create[OF acc]) simp
    then show ?thesis using claimed WCreate by (simp add: safe_id_def version_safe_def)
  next
    case (WChange i c)
    then have "WChange i c \<in> set ws" using w by simp
    then obtain p l ch where p: "p \<in> set plans" "loaded_plan t p l ch" "dc_id (lo_record l) = i"
      "content_fits l ch (Some (WChange i c))" "cached_ok D m0 (pl_address p) l"
      by (rule wrote_loaded[OF acc])
    have "pl_id p = i" using p(2,3) by (simp add: loaded_plan_def pl_id_def doc_create.defs)
    with planned_id[OF acc p(1)] have "1 \<le> i \<and> i \<le> max_safe" by simp
    moreover have "is_JObj (ch_value ch)" "version_safe (lo_version l)" using p(2,5) by (simp_all add: loaded_plan_def cached_ok_def)
    ultimately show ?thesis using p(4) WChange by (auto simp: content_fits_def safe_id_def version_safe_def)
  next
    case (WRetire i)
    then have "WRetire i \<in> set ws" using w by simp
    then obtain p where "p \<in> set plans" "pl_id p = i" unfolding wrote(1)[OF acc] by blast
    with planned_id[OF acc] WRetire show ?thesis by (force simp: safe_id_def)
  qed (use claimed in \<open>auto simp: safe_id_def\<close>)
qed

lemma lastingI:
  assumes "\<forall>k. WTask k \<in> set ws \<longrightarrow> is_terminal k \<or> (\<forall>u. tasks (tk_id k) = Some u \<longrightarrow> \<not> is_terminal u)"
    and "\<forall>k k'. WTask k \<in> set ws \<longrightarrow> WTask k' \<in> set ws \<longrightarrow> tk_id k = tk_id k' \<longrightarrow> k = k'"
  shows "lasting tasks ws"
  using assms
proof (induction ws arbitrary: tasks)
  case (Cons w ws)
  have "\<not> revives tasks w" using Cons.prems(1) by (cases w) (auto split: option.split)
  moreover have "lasting (task_put w tasks) ws"
  proof (rule Cons.IH)
    show "\<forall>k. WTask k \<in> set ws \<longrightarrow> is_terminal k \<or> (\<forall>u. task_put w tasks (tk_id k) = Some u \<longrightarrow> \<not> is_terminal u)"
    proof (intro allI impI)
      fix k assume k: "WTask k \<in> set ws"
      show "is_terminal k \<or> (\<forall>u. task_put w tasks (tk_id k) = Some u \<longrightarrow> \<not> is_terminal u)"
      proof (cases "\<exists>k0. w = WTask k0 \<and> tk_id k0 = tk_id k")
        case True
        then obtain k0 where "w = WTask k0" "tk_id k0 = tk_id k" by blast
        moreover from this have "k0 = k" using Cons.prems(2) k by auto
        ultimately show ?thesis by auto
      next
        case False
        then have "task_put w tasks (tk_id k) = tasks (tk_id k)" by (cases w) auto
        then show ?thesis using Cons.prems(1) k by auto
      qed
    qed
  qed (use Cons.prems(2) in auto)
  ultimately show ?case by simp
qed simp

lemma writes_lasting:
  assumes acc: "accepted D owned m0 t plans ws seq acts m'"
  shows "lasting (ms_tasks (se_store t)) ws"
proof (rule lastingI)
  note ok = acceptedD[OF acc]
  show "\<forall>k. WTask k \<in> set ws \<longrightarrow> is_terminal k \<or> (\<forall>u. ms_tasks (se_store t) (tk_id k) = Some u \<longrightarrow> \<not> is_terminal u)"
  proof (intro allI impI)
    fix k assume "WTask k \<in> set ws"
    then obtain w where w: "candidate t (tk_id k) = Some w" "written_task w = k" unfolding wrote(3)[OF acc] by blast
    show "is_terminal k \<or> (\<forall>u. ms_tasks (se_store t) (tk_id k) = Some u \<longrightarrow> \<not> is_terminal u)"
    proof (cases w)
      case (TaskCreate k')
      then have "fresh m0 (se_store t) (tk_id k)" using tx_okD(4)[OF ok(2)] w(1) by (auto simp: tasks_staged_def)
      with known_id(1,2)[OF ok(1), of "tk_id k"] have "ms_tasks m0 (tk_id k) = None" by (fastforce simp: fresh_def)
      then show ?thesis by (simp add: minted_fields(4)[OF ok(10)])
    next
      case (TaskReplace k')
      with ok(5) w(1) have "replace_problem (tk_id k) k' (ms_tasks m0 (tk_id k)) = None" by (simp add: replaced_valid_def)
      then show ?thesis
        by (auto simp: replace_problem_def is_terminal_def minted_fields(4)[OF ok(10)] split: option.splits if_splits)
    qed
  qed
  show "\<forall>k k'. WTask k \<in> set ws \<longrightarrow> WTask k' \<in> set ws \<longrightarrow> tk_id k = tk_id k' \<longrightarrow> k = k'"
  proof (intro allI impI)
    fix k k' assume "WTask k \<in> set ws" "WTask k' \<in> set ws" and same: "tk_id k = tk_id k'"
    then obtain w w' where "candidate t (tk_id k) = Some w" "written_task w = k"
      "candidate t (tk_id k') = Some w'" "written_task w' = k'" unfolding wrote(3)[OF acc] by blast
    with same show "k = k'" by simp
  qed
qed

end
