(* ===== verification/Session_Adoption.thy ===== *)
theory Session_Adoption
  imports Session_Kernel
begin

text \<open>
  The cache after a commit: adoption visits the plans in order, and what it leaves at an address agrees
  with the store that the commit made.
\<close>

subsection \<open>What adoption does at one address\<close>

definition old_id :: "doc_plan \<Rightarrow> int option" where
  "old_id p = (case pl_record p of OldRecord r \<Rightarrow> Some (dc_id r) | NewRecord _ \<Rightarrow> None)"

definition loaded_id :: "loaded option \<Rightarrow> int option" where
  "loaded_id c = map_option (dc_id \<circ> lo_record) c"

definition changed_at :: "int \<Rightarrow> doc_plan \<Rightarrow> loaded option \<Rightarrow> loaded option" where
  "changed_at seq p c =
     (case pl_change p of
        None \<Rightarrow> c
      | Some ch \<Rightarrow>
          (case ch_loaded ch of
             Some l \<Rightarrow> map_option (\<lambda>l0. if dc_id (lo_record l0) = dc_id (lo_record l) then adopted_loaded ch (pl_content p) l0 else l0) c
           | None \<Rightarrow>
               if pl_retire p then c
               else Some \<lparr>lo_address = pl_address p, lo_record = adopted_record seq p, lo_stored = ch_version ch,
                          lo_version = ch_version ch, lo_deltas = 0, lo_value = ch_value ch\<rparr>))"

definition adopt_at :: "int \<Rightarrow> doc_plan \<Rightarrow> loaded option \<Rightarrow> loaded option" where
  "adopt_at seq p c =
     (let c1 = changed_at seq p c in if pl_retire p \<and> old_id p \<noteq> None \<and> loaded_id c1 = old_id p then None else c1)"

text \<open>A plan that changes a loaded document changes it at its own address.\<close>

definition in_place :: "doc_plan \<Rightarrow> bool" where
  "in_place p \<longleftrightarrow> (\<forall>ch l. pl_change p = Some ch \<longrightarrow> ch_loaded ch = Some l \<longrightarrow> lo_address l = pl_address p)"

lemma update_fields:
  "se_store (update_cached k i f s) = se_store s" "se_attached (update_cached k i f s) = se_attached s"
  "se_idle (update_cached k i f s) = se_idle s" "se_failure (update_cached k i f s) = se_failure s"
  "se_documents (update_cached k i f s) =
     (se_documents s)(k := map_option (\<lambda>l. if dc_id (lo_record l) = i then f l else l) (se_documents s k))"
  by (auto simp: update_cached_def fun_eq_iff split: option.split)

lemma evict_fields:
  "se_store (evictDocument k i s) = se_store s" "se_attached (evictDocument k i s) = se_attached s"
  "se_failure (evictDocument k i s) = se_failure s"
  "se_documents (evictDocument k i s) =
     (se_documents s)(k := if loaded_id (se_documents s k) = Some i then None else se_documents s k)"
  by (auto simp: evictDocument_def loaded_id_def fun_eq_iff)

lemma adopted_keeps [simp]:
  "lo_record (adopted_loaded c content l) = lo_record l" "lo_address (adopted_loaded c content l) = lo_address l"
  "lo_version (adopted_loaded c content l) = lo_version l"
  by (simp_all add: adopted_loaded_def)

lemma change_fields:
  assumes "in_place p"
  shows "se_store (adopt_change seq p s) = se_store s" "se_attached (adopt_change seq p s) = se_attached s"
    "se_failure (adopt_change seq p s) = se_failure s"
    "se_documents (adopt_change seq p s) = (se_documents s)(pl_address p := changed_at seq p (se_documents s (pl_address p)))"
  using assms
  by (auto simp: adopt_change_def changed_at_def in_place_def update_fields split: option.splits)

lemma adopt_fields:
  assumes "in_place p"
  shows "se_store (adopt_plan seq p s) = se_store s" "se_attached (adopt_plan seq p s) = se_attached s"
    "se_failure (adopt_plan seq p s) = se_failure s"
    "se_documents (adopt_plan seq p s) = (se_documents s)(pl_address p := adopt_at seq p (se_documents s (pl_address p)))"
  by (auto simp: adopt_plan_def Let_def adopt_at_def old_id_def evict_fields change_fields[OF assms] split: planned_record.split)

lemma adopt_all:
  assumes "\<forall>p \<in> set ps. in_place p"
  shows "se_store (fold (adopt_plan seq) ps s) = se_store s" "se_attached (fold (adopt_plan seq) ps s) = se_attached s"
    "se_failure (fold (adopt_plan seq) ps s) = se_failure s"
    "se_documents (fold (adopt_plan seq) ps s) k = fold (adopt_at seq) (filter (\<lambda>p. pl_address p = k) ps) (se_documents s k)"
  using assms by (induction ps arbitrary: s) (simp_all add: adopt_fields)

subsection \<open>Idle documents\<close>

definition idle_linked :: "'s session_scheme \<Rightarrow> bool" where
  "idle_linked s \<longleftrightarrow>
     distinct (map fst (se_idle s)) \<and> (\<forall>k. k \<in> fst ` set (se_idle s) \<longleftrightarrow> (\<exists>l. se_documents s k = Some l \<and> \<not> observed s l))"

lemma same_record: "map_option lo_record x = map_option lo_record y \<Longrightarrow> (\<exists>l. x = Some l \<and> P (lo_record l)) \<longleftrightarrow> (\<exists>l. y = Some l \<and> P (lo_record l))"
  by (cases x; cases y) auto

lemma linked_update:
  assumes "idle_linked s" "\<And>l. lo_record (f l) = lo_record l"
  shows "idle_linked (update_cached k i f s)"
proof -
  have "map_option lo_record (se_documents (update_cached k i f s) k') = map_option lo_record (se_documents s k')" for k'
    using assms(2) by (cases "se_documents s k") (auto simp: update_fields)
  note same = same_record[OF this, where P = "\<lambda>r. se_attached s (dc_id r) = None"]
  show ?thesis using assms(1) same unfolding idle_linked_def observed_def update_fields(1-3) by simp
qed

lemma linked_drop: "idle_linked s \<Longrightarrow> idle_linked (dropDocument k s)"
  unfolding idle_linked_def observed_def drop_fields map_fst_filter fst_filter by (auto simp: distinct_filter)

lemma linked_evict: "idle_linked s \<Longrightarrow> idle_linked (evictDocument k i s)"
  by (simp add: evictDocument_def linked_drop)

lemma linked_install:
  assumes "idle_linked s" "\<not> observed s l"
  shows "idle_linked (installDocument l s)"
proof -
  let ?s = "s\<lparr>se_documents := (se_documents s)(lo_address l \<mapsto> l)\<rparr>"
  have t: "distinct (map fst (se_idle ?s))" using assms(1) by (simp add: idle_linked_def)
  show ?thesis
    unfolding idle_linked_def installDocument_def touch_idle(2)[OF t] touch_fields
    using touch_idle(1)[OF t] assms by (auto simp: idle_linked_def observed_def installDocument_def)
qed

lemma linked_adopt:
  assumes "idle_linked s" "pl_change p \<noteq> None \<Longrightarrow> ch_loaded (the (pl_change p)) = None \<Longrightarrow> se_attached s (pl_id p) = None"
    "in_place p" "ch_loaded (the (pl_change p)) = None \<Longrightarrow> pl_change p \<noteq> None \<Longrightarrow> \<exists>r. pl_record p = NewRecord r"
  shows "idle_linked (adopt_plan seq p s)"
proof -
  have "idle_linked (adopt_change seq p s)"
  proof (cases "pl_change p")
    case (Some ch)
    show ?thesis
    proof (cases "ch_loaded ch")
      case None
      with assms(4) Some obtain r where "pl_record p = NewRecord r" by auto
      then have "dc_id (adopted_record seq p) = pl_id p" by (simp add: adopted_record_def pl_id_def Let_def)
      with assms(1,2) Some None show ?thesis
        by (auto simp: adopt_change_def observed_def intro!: linked_install)
    next
      case (Some l)
      with \<open>pl_change p = Some ch\<close> assms(1) show ?thesis by (simp add: adopt_change_def linked_update)
    qed
  qed (simp add: adopt_change_def assms(1))
  then show ?thesis by (simp add: adopt_plan_def Let_def linked_evict split: planned_record.split)
qed

end
