(* ===== verification/Session_Coherence.thy ===== *)
theory Session_Coherence
  imports Session_Adoption
begin

text \<open>
  The cache and the idle documents agree with the store again after every commit, and with that every step
  of a Session keeps its invariant.
\<close>

subsection \<open>Retired plans\<close>

lemma changed_loaded_id:
  assumes "plan_ok m0 t p" "pl_retire p"
  shows "loaded_id (changed_at seq p c) = loaded_id c"
proof -
  have "\<forall>ch. pl_change p = Some ch \<longrightarrow> ch_loaded ch \<noteq> None \<or> pl_retire p" using assms(2) by simp
  then show ?thesis
    using assms(2) by (cases c) (auto simp: changed_at_def loaded_id_def split: option.split)
qed

text \<open>A retired plan evicts what is cached of its document, and leaves everything else.\<close>

lemma adopt_retired:
  assumes "plan_ok m0 t p" "pl_retire p"
  shows "adopt_at seq p c = (if old_id p \<noteq> None \<and> loaded_id c = old_id p then None else c)"
proof (cases "old_id p \<noteq> None \<and> loaded_id c = old_id p")
  case True
  then show ?thesis using changed_loaded_id[OF assms, of seq c] assms(2) by (simp add: adopt_at_def Let_def)
next
  case False
  have "changed_at seq p c = c"
    using assms(1) unfolding plan_ok_def
  proof (elim disjE exE conjE)
    fix l ch assume l: "loaded_plan t p l ch"
    then have "old_id p = Some (dc_id (lo_record l))" by (simp add: loaded_plan_def old_id_def)
    with False l show ?thesis by (cases c) (auto simp: loaded_plan_def changed_at_def loaded_id_def)
  qed (use assms(2) in \<open>auto simp: created_plan_def copied_plan_def retired_plan_def changed_at_def\<close>)
  with False show ?thesis by (auto simp: adopt_at_def Let_def)
qed

lemma adopt_retired_all:
  assumes "\<forall>p \<in> set rs. plan_ok m0 t p \<and> pl_retire p"
  shows "fold (adopt_at seq) rs c = (if \<exists>p \<in> set rs. old_id p \<noteq> None \<and> loaded_id c = old_id p then None else c)"
  using assms
proof (induction rs arbitrary: c)
  case (Cons p rs)
  have "loaded_id None = None" by (simp add: loaded_id_def)
  with Cons adopt_retired[of m0 t p seq c] show ?case by auto
qed simp

subsection \<open>Documents whose plans do nothing\<close>

lemma old_address:
  assumes "plan_ok m0 t p" "session_ok D t" "minted m0 (se_store t)" "old_id p = Some i" "ms_documents m0 i = Some d"
  shows "pl_address p = recordAddressKey (ds_record d)"
  using assms(1) unfolding plan_ok_def
proof (elim disjE exE conjE)
  fix l ch assume l: "loaded_plan t p l ch"
  then have "cached_ok D (se_store t) (pl_address p) l" using session_okD(3)[OF assms(2)] by (simp add: loaded_plan_def)
  then show ?thesis using l assms(4,5) minted_fields(6)[OF assms(3)] by (auto simp: loaded_plan_def old_id_def cached_ok_def)
next
  fix r assume "retired_plan m0 p r"
  then show ?thesis using assms(4,5) by (auto simp: retired_plan_def old_id_def live_record_def)
qed (use assms(4) in \<open>auto simp: created_plan_def copied_plan_def old_id_def\<close>)

lemma new_plan_fresh:
  assumes "plan_ok m0 t p" "old_id p = None"
  shows "fresh m0 (se_store t) (pl_id p)"
  using assms unfolding plan_ok_def
  by (auto simp: created_plan_def copied_plan_def loaded_plan_def retired_plan_def old_id_def create_staged_def pl_id_def)

lemma old_plan_id: "old_id p = Some i \<Longrightarrow> pl_id p = i"
  by (auto simp: old_id_def pl_id_def doc_create.defs split: planned_record.splits)

lemma fresh_unstored:
  assumes "kernel_ok m0" "fresh m0 m i"
  shows "ms_documents m0 i = None" "ms_types m0 i = None"
proof -
  show "ms_types m0 i = None" using known_id(1)[OF assms(1), of i] assms(2) by (cases "ms_types m0 i") (simp_all add: fresh_def)
  then show "ms_documents m0 i = None" using known_id(6)[OF assms(1), of i] by (cases "ms_documents m0 i") simp_all
qed

text \<open>A cached document stays right when no plan of its address is about it, or only one that stores nothing.\<close>

lemma untouched:
  assumes acc: "accepted D owned m0 t plans ws seq acts m'" and cached: "cached_ok D m0 k l"
    and idle: "\<forall>p \<in> set plans. pl_address p = k \<longrightarrow> old_id p = loaded_id (Some l) \<longrightarrow> \<not> pl_retire p \<and> pl_content p = None"
  shows "cached_ok D m' k l"
proof -
  note ok = acceptedD[OF acc]
  let ?i = "dc_id (lo_record l)"
  from cached obtain d x where d: "ms_documents m0 ?i = Some d" "ds_record d = lo_record l" by (auto simp: cached_ok_def)
  have plan: "plan_ok m0 t p" if "p \<in> set plans" for p using ok(3) that by (simp add: settled_def list_all_iff)
  have quiet: "\<not> pl_retire p \<and> pl_content p = None" if p: "p \<in> set plans" "pl_id p = ?i" for p
  proof (cases "old_id p")
    case None
    with fresh_unstored(1)[OF ok(1) new_plan_fresh[OF plan[OF p(1)]]] p(2) d(1) show ?thesis by simp
  next
    case (Some j)
    with old_plan_id p(2) have i: "old_id p = Some ?i" by auto
    from old_address[OF plan[OF p(1)] ok(11,10) this d(1)] d(2) cached have "pl_address p = k" by (simp add: cached_ok_def)
    with idle p(1) i show ?thesis by (simp add: loaded_id_def)
  qed
  have "ms_documents m' ?i = Some d"
  proof -
    have says: "says ws ?i (action_of acts ?i)" using ok(8) by (simp add: commit_effect_def)
    have "is_copy w" if w: "w \<in> set ws" "changed_document w = Some ?i" for w
    proof (cases w)
      case (WCreate r v y)
      with w(1) have "WCreate r v y \<in> set ws" by simp
      then obtain p :: doc_plan where "create_staged m0 t (pl_address p) r" by (rule wrote_create[OF acc]) metis
      with fresh_unstored(1)[OF ok(1), of "se_store t" ?i] w(2) WCreate d(1) show ?thesis by (simp add: create_staged_def)
    next
      case (WChange i c)
      with w have "WChange ?i c \<in> set ws" by simp
      then obtain p l' ch where "p \<in> set plans" "pl_content p = Some (WChange ?i c)" "loaded_plan t p l' ch" "dc_id (lo_record l') = ?i"
        by (rule wrote_loaded[OF acc]) metis
      then show ?thesis using quiet[of p] by (simp add: loaded_plan_def pl_id_def doc_create.defs)
    next
      case (WRetire i)
      with w wrote(1)[OF acc, of i] quiet show ?thesis by auto
    qed (use w in simp_all)
    with no_action_iff[OF says] have "action_of acts ?i = no_action" by blast
    then show ?thesis using ok(8) d(1) minted_fields(6)[OF ok(10)] by (simp add: commit_effect_def)
  qed
  with cached d show ?thesis by (simp add: cached_ok_def)
qed


subsection \<open>The cache after a commit\<close>

lemma layered_at:
  fixes k :: doc_address
  assumes "plans_layered ps"
  defines "qs \<equiv> filter (\<lambda>p. pl_address p = k) ps"
  shows "qs = [] \<or> (\<exists>rs q. qs = rs @ [q] \<and> (\<forall>p \<in> set rs. pl_retire p))"
proof (cases qs rule: rev_cases)
  case (snoc rs q)
  have "sorted_wrt (\<lambda>p p'. pl_address p = pl_address p' \<longrightarrow> pl_retire p) qs"
    using assms(1) unfolding qs_def plans_layered_def by (rule sorted_wrt_filter)
  then have after: "\<forall>p \<in> set rs. pl_address p = pl_address q \<longrightarrow> pl_retire p" unfolding snoc by (simp add: sorted_wrt_append)
  have "\<forall>p \<in> set qs. pl_address p = k" by (simp add: qs_def)
  with snoc have same: "pl_address p = pl_address q" if "p \<in> set rs" for p using that by simp
  show ?thesis
  proof (intro disjI2 exI conjI)
    show "qs = rs @ [q]" by (rule snoc)
    show "\<forall>p \<in> set rs. pl_retire p" using after same by blast
  qed
qed simp

lemma plans_in_place:
  assumes "accepted D owned m0 t plans ws seq acts m'"
  shows "\<forall>p \<in> set plans. in_place p"
proof
  fix p assume "p \<in> set plans"
  note ok = acceptedD[OF assms]
  have "plan_ok m0 t p" using ok(3) \<open>p \<in> set plans\<close> by (simp add: settled_def list_all_iff)
  then show "in_place p"
    unfolding plan_ok_def
  proof (elim disjE exE conjE)
    fix l ch assume l: "loaded_plan t p l ch"
    then have "cached_ok D (se_store t) (pl_address p) l" using session_okD(3)[OF ok(11)] by (simp add: loaded_plan_def)
    with l show ?thesis by (simp add: loaded_plan_def in_place_def cached_ok_def)
  qed (auto simp: created_plan_def copied_plan_def retired_plan_def in_place_def)
qed

text \<open>A document that the commit created and its plan leaves live is installed.\<close>

lemma created_after:
  assumes acc: "accepted D owned m0 t plans ws seq acts m'" and p: "p \<in> set plans" "\<not> pl_retire p"
    and new: "created_plan p r v x" "create_staged m0 t (pl_address p) r"
  shows "cached_ok D m' (pl_address p) \<lparr>lo_address = pl_address p, lo_record = adopted_record seq p, lo_stored = v,
      lo_version = v, lo_deltas = 0, lo_value = x\<rparr>"
proof -
  note ok = acceptedD[OF acc]
  have plan: "plan_ok m0 t p" if "p \<in> set plans" for p using ok(3) that by (simp add: settled_def list_all_iff)
  have says: "says ws i (action_of acts i)" for i using ok(8) by (simp add: commit_effect_def)
  have fresh: "fresh m0 (se_store t) (dc_id r)" using new(2) by (simp add: create_staged_def)
  have content: "pl_content p = Some (WCreate r v x)" "pl_record p = NewRecord r" "is_JObj x" "version_safe v"
    using new(1) by (auto simp: created_plan_def)
  then have "WCreate r v x \<in> set (all_writes t plans)" using p(1) by (auto simp: all_writes_mem)
  from list_all2_pair(1)[OF ok(7) this] have wrote: "WCreate r v x \<in> set ws" by (auto simp: resolves_to_def)
  note act = saysD(1)[OF says wrote refl]
  have stay: "\<not> retired_by plans (dc_id r)"
  proof
    assume "retired_by plans (dc_id r)"
    then obtain p' where p': "p' \<in> set plans" "pl_retire p'" "pl_id p' = dc_id r" by (auto simp: retired_by_def)
    show False
    proof (cases "old_id p'")
      case (Some i)
      with old_plan_id p'(3) have i: "old_id p' = Some (dc_id r)" by auto
      have "\<exists>d. ms_documents m0 (dc_id r) = Some d"
        using plan[OF p'(1)] unfolding plan_ok_def
      proof (elim disjE exE conjE)
        fix l ch assume l: "loaded_plan t p' l ch"
        then have "cached_ok D (se_store t) (pl_address p') l" using session_okD(3)[OF ok(11)] by (simp add: loaded_plan_def)
        with l i show ?thesis using minted_fields(6)[OF ok(10)] by (auto simp: loaded_plan_def old_id_def cached_ok_def)
      qed (use i in \<open>auto simp: created_plan_def copied_plan_def retired_plan_def old_id_def live_record_def\<close>)
      with fresh_unstored(1)[OF ok(1) fresh] show False by simp
    next
      case None
      have new_plan: "\<exists>w. pl_content p' = Some w \<and> new_id w = Some (pl_id p')"
        using plan[OF p'(1)] None unfolding plan_ok_def
        by (auto simp: created_plan_def copied_plan_def loaded_plan_def retired_plan_def old_id_def pl_id_def new_id_def)
      have "p \<noteq> p'" using p(2) p'(2) by auto
      then obtain xs ys zs where split: "plans = xs @ p # ys @ p' # zs \<or> plans = xs @ p' # ys @ p # zs"
        using p(1) p'(1) by (metis split_list append_Cons append_assoc in_set_conv_decomp set_ConsD Un_iff set_append)
      have ids: "dc_id r \<in> set (new_ids (plan_writes p))" "dc_id r \<in> set (new_ids (plan_writes p'))"
        using content new_plan p'(3) by (auto simp: plan_writes_def new_id_def)
      have "\<not> distinct (new_ids (concat (map plan_writes plans)))"
        using split ids by auto
      then show False using ok(9) by (simp add: all_writes_def)
    qed
  qed
  have "action_of acts (dc_id r) \<noteq> no_action" using act by (auto simp: no_action_def)
  then obtain d' where d': "ms_documents m' (dc_id r) = Some d'" using ok(8) by (simp add: commit_effect_def)
  have "ds_record d' = doc_create.extend r \<lparr>dr_created = seq, dr_retired = None\<rparr> \<and> ds_revisions d' = [(Base v x, seq)]"
    using acc d'
  proof (cases rule: document_after)
    case (made r' v' x')
    have "Some r' = Some r" "Some (Base v' x') = Some (Base v x)"
      using saysD(1)[OF says made(1,2)] act by argo+
    then have "r' = r" "v' = v" "x' = x" by simp_all
    with made(4,5) stay show ?thesis by simp
  qed (use fresh_unstored(1)[OF ok(1) fresh] in auto)
  moreover have "recordAddressKey r = pl_address p" using new(2) by (simp add: create_staged_def)
  ultimately show ?thesis
    using content p(2) d'
    by (auto simp: cached_ok_def adopted_record_def recordAddressKey_def play_all_def shaped_def)
qed


text \<open>A loaded document that the commit changed, with what adoption makes of it.\<close>

lemma loaded_after:
  assumes acc: "accepted D owned m0 t plans ws seq acts m'" and q: "q \<in> set plans" "loaded_plan t q l ch"
    and content: "pl_content q = Some w"
    and live: "\<not> retired_by plans (dc_id (lo_record l))"
  shows "cached_ok D m' (pl_address q) (adopted_loaded ch (Some w) l)"
proof -
  note ok = acceptedD[OF acc]
  let ?i = "dc_id (lo_record l)"
  have "cached_ok D (se_store t) (pl_address q) l" using session_okD(3)[OF ok(11)] q(2) by (simp add: loaded_plan_def)
  then have cached: "cached_ok D m0 (pl_address q) l" using minted_fields(6)[OF ok(10)] by (simp add: cached_ok_def)
  then obtain d where d: "ms_documents m0 ?i = Some d" "ds_record d = lo_record l" by (auto simp: cached_ok_def)
  from q(2) have ch: "content_fits l ch (Some w)" "applyOps (Some (lo_value l)) (ch_ops ch) = Inr (Some (ch_value ch))"
    "ch_version ch = lo_version l" "is_JObj (ch_value ch)"
    by (simp_all add: loaded_plan_def content)
  then obtain c where w: "w = WChange ?i c" by (auto simp: content_fits_def)
  have "pl_content q = Some (WChange ?i c)" using content w by simp
  then have wrote: "WChange ?i c \<in> set ws" unfolding wrote(2)[OF acc] using q(1) by blast
  have says: "says ws ?i (action_of acts ?i)" using ok(8) by (simp add: commit_effect_def)
  note act = saysD(2)[OF says]
  have "action_of acts ?i \<noteq> no_action" using act[OF wrote] by (auto simp: no_action_def)
  then obtain d' where d': "ms_documents m' ?i = Some d'" using ok(8) by (simp add: commit_effect_def)
  have after: "ds_record d' = lo_record l \<and> ds_revisions d' = ds_revisions (change_document c seq d)"
    using acc d'
  proof (cases rule: document_after)
    case same
    have "pl_id q = ?i" using q(2) by (simp add: loaded_plan_def pl_id_def doc_create.defs)
    with same(2) q(1) content show ?thesis by auto
  next
    case (changed d1 revs)
    have "d1 = d" using changed(1) d(1) by simp
    moreover have "revs = ds_revisions (change_document c seq d1)" using changed(4)
    proof (elim disjE exE conjE)
      fix c' assume "WChange ?i c' \<in> set ws" "revs = ds_revisions (change_document c' seq d1)"
      with act[OF this(1)] act[OF wrote] show ?thesis by simp
    qed (use wrote in blast)
    moreover have "dr_retired (lo_record l) = None" using cached by (simp add: cached_ok_def)
    ultimately show ?thesis using changed(3,5) live d(2) by simp
  qed (use d(1) in simp)
  note plays = changed_plays[OF cached d(1) ch(1)[unfolded w] ch(2), of seq]
  let ?l = "adopted_loaded ch (Some w) l"
  from cached have old: "version_safe (lo_version l)" "lo_address l = pl_address q" "recordAddressKey (lo_record l) = pl_address q"
    "dr_retired (lo_record l) = None" "lo_stored l \<le> lo_version l"
    by (auto simp: cached_ok_def shaped_def split: if_splits)
  have "lo_value ?l = ch_value ch"
    using ch(2) by (auto simp: adopted_loaded_def)
  moreover have "lo_stored ?l = lo_version l" using ch(3) old(5) by (simp add: adopted_loaded_def)
  moreover have "lo_deltas ?l = (if is_base c then 0 else lo_deltas l + 1)"
    by (cases c) (simp_all add: adopted_loaded_def w)
  ultimately show ?thesis
    using old ch(4) d' after plays(1,2) by (auto simp: cached_ok_def shaped_def)
qed

lemma cached_after:
  assumes acc: "accepted D owned m0 t plans ws seq acts m'"
    and result: "fold (adopt_at seq) (filter (\<lambda>p. pl_address p = k) plans) (se_documents t k) = Some l"
  shows "cached_ok D m' k l"
proof -
  note ok = acceptedD[OF acc]
  let ?qs = "filter (\<lambda>p. pl_address p = k) plans"
  have plan: "plan_ok m0 t p" if "p \<in> set plans" for p using ok(3) that by (simp add: settled_def list_all_iff)
  have cached: "cached_ok D m0 k l0" if "se_documents t k = Some l0" for l0
    using session_okD(3)[OF ok(11) that] minted_fields(6)[OF ok(10)] by (simp add: cached_ok_def)
  have "plans_layered plans" using ok(3) by (simp add: settled_def)
  from layered_at[OF this, of k] consider "?qs = []" | rs q where "?qs = rs @ [q]" "\<forall>p \<in> set rs. pl_retire p" by blast
  then show ?thesis
  proof cases
    case 1
    then have "\<forall>p \<in> set plans. pl_address p \<noteq> k" by (simp add: filter_empty_conv)
    with result 1 show ?thesis using untouched[OF acc cached] by simp
  next
    case (2 rs q)
    have mem: "p \<in> set ?qs \<longleftrightarrow> p \<in> set rs \<or> p = q" for p unfolding 2(1) by auto
    then have q: "q \<in> set plans" "pl_address q = k" by auto
    have rs: "\<forall>p \<in> set rs. plan_ok m0 t p \<and> pl_retire p" using mem plan 2(2) by fastforce
    define c1 where "c1 = fold (adopt_at seq) rs (se_documents t k)"
    have c1: "c1 = (if \<exists>p \<in> set rs. old_id p \<noteq> None \<and> loaded_id (se_documents t k) = old_id p then None else se_documents t k)"
      unfolding c1_def by (rule adopt_retired_all[OF rs])
    have res: "adopt_at seq q c1 = Some l" using result unfolding 2(1) c1_def by simp
    have kept: "se_documents t k = Some l0 \<and> (\<forall>p \<in> set rs. old_id p \<noteq> loaded_id (Some l0))" if "c1 = Some l0" for l0
      using that c1 by (auto simp: loaded_id_def split: if_splits)
    have rest: "cached_ok D m' k l0"
      if l0: "c1 = Some l0" "old_id q = loaded_id (Some l0) \<longrightarrow> \<not> pl_retire q \<and> pl_content q = None" for l0
    proof (rule untouched[OF acc cached])
      show "se_documents t k = Some l0" using kept[OF l0(1)] by blast
      show "\<forall>p \<in> set plans. pl_address p = k \<longrightarrow> old_id p = loaded_id (Some l0) \<longrightarrow> \<not> pl_retire p \<and> pl_content p = None"
        using mem kept[OF l0(1)] l0(2) by auto
    qed
    show ?thesis
    proof (cases "pl_retire q")
      case True
      with adopt_retired[OF plan[OF q(1)] True] res have "c1 = Some l" "old_id q \<noteq> loaded_id (Some l)"
        by (auto simp: loaded_id_def split: if_splits)
      then show ?thesis using rest by blast
    next
      case False
      then have adopt: "adopt_at seq q c1 = changed_at seq q c1" by (simp add: adopt_at_def Let_def)
      from plan[OF q(1)] show ?thesis unfolding plan_ok_def
      proof (elim disjE exE conjE)
        fix r v x assume new: "created_plan q r v x" "create_staged m0 t (pl_address q) r"
        then have "changed_at seq q c1 = Some \<lparr>lo_address = pl_address q, lo_record = adopted_record seq q, lo_stored = v,
            lo_version = v, lo_deltas = 0, lo_value = x\<rparr>"
          using False by (auto simp: created_plan_def changed_at_def)
        with created_after[OF acc q(1) False new] res adopt q(2) show ?thesis by simp
      next
        fix r assume "copied_plan q r"
        then have "changed_at seq q c1 = c1" "old_id q = None" by (auto simp: copied_plan_def changed_at_def old_id_def)
        with res adopt rest show ?thesis by (simp add: loaded_id_def)
      next
        fix l1 ch assume l1: "loaded_plan t q l1 ch"
        then have at_k: "se_documents t k = Some l1" "pl_change q = Some ch" "ch_loaded ch = Some l1" using q(2) by (simp_all add: loaded_plan_def)
        have "c1 \<noteq> None" using res adopt at_k by (auto simp: changed_at_def)
        then have c1': "c1 = Some l1" using c1 at_k(1) by (auto split: if_splits)
        then have l: "l = adopted_loaded ch (pl_content q) l1" using res adopt at_k by (simp add: changed_at_def)
        show ?thesis
        proof (cases "pl_content q")
          case None
          with l1 have "ch_ops ch = []" "lo_stored l1 = lo_version l1" "ch_version ch = lo_version l1"
            by (simp_all add: loaded_plan_def content_fits_def)
          then have "l = l1" using l None by (simp add: adopted_loaded_def)
          with rest c1' None False show ?thesis by blast
        next
          case (Some w)
          have "\<not> retired_by plans (dc_id (lo_record l1))"
          proof
            assume "retired_by plans (dc_id (lo_record l1))"
            then obtain p where p: "p \<in> set plans" "pl_retire p" "pl_id p = dc_id (lo_record l1)" by (auto simp: retired_by_def)
            from cached[OF at_k(1)] obtain d where d: "ms_documents m0 (dc_id (lo_record l1)) = Some d" "ds_record d = lo_record l1"
              by (auto simp: cached_ok_def)
            show False
            proof (cases "old_id p")
              case None
              with fresh_unstored(1)[OF ok(1) new_plan_fresh[OF plan[OF p(1)]]] p(3) d(1) show False by simp
            next
              case (Some j)
              with old_plan_id p(3) have i: "old_id p = Some (dc_id (lo_record l1))" by auto
              from old_address[OF plan[OF p(1)] ok(11,10) this d(1)] d(2) cached[OF at_k(1)] have "pl_address p = k"
                by (simp add: cached_ok_def)
              with mem p(1,2) False have "p \<in> set rs" by auto
              with kept[OF c1'] i show False by (auto simp: loaded_id_def)
            qed
          qed
          from loaded_after[OF acc q(1) l1 Some this] show ?thesis using l Some q(2) by simp
        qed
      next
        fix r assume "retired_plan m0 q r"
        with False show ?thesis by (simp add: retired_plan_def)
      qed
    qed
  qed
qed


subsection \<open>The Session after a commit\<close>

lemma idle_linked_ok: "idle_ok s \<longleftrightarrow> idle_linked s \<and> (\<forall>i. se_attached s i \<noteq> None \<longrightarrow> ms_types (se_store s) i \<noteq> None)"
  by (auto simp: idle_ok_def idle_linked_def)

lemma adopt_linked:
  assumes acc: "accepted D owned m0 t plans ws seq acts m'" and "set ps \<subseteq> set plans" "idle_linked s" "se_attached s = se_attached t"
  shows "idle_linked (fold (adopt_plan seq) ps s)"
  using assms(2-4)
proof (induction ps arbitrary: s)
  case (Cons p ps)
  note ok = acceptedD[OF acc]
  have p: "p \<in> set plans" "in_place p" using Cons.prems(1) plans_in_place[OF acc] by auto
  have plan: "plan_ok m0 t p" using ok(3) p(1) by (simp add: settled_def list_all_iff)
  have new: "old_id p = None" if "pl_change p \<noteq> None" "ch_loaded (the (pl_change p)) = None"
    using plan that by (auto simp: plan_ok_def created_plan_def copied_plan_def loaded_plan_def retired_plan_def old_id_def)
  have free: "se_attached s (pl_id p) = None" if "old_id p = None"
  proof -
    have "ms_types m0 (pl_id p) = None" using fresh_unstored(2)[OF ok(1) new_plan_fresh[OF plan that]] .
    with session_okD(4)[OF ok(11)] minted_fields(1)[OF ok(10)] Cons.prems(3) show ?thesis
      unfolding idle_ok_def by auto
  qed
  have "idle_linked (adopt_plan seq p s)"
    by (rule linked_adopt[OF Cons.prems(2) _ p(2)])
      (use new free in \<open>auto simp: old_id_def split: planned_record.splits\<close>)
  with Cons.IH[of "adopt_plan seq p s"] Cons.prems adopt_fields(2)[OF p(2), of seq s] show ?case by simp
qed simp

lemma adopted_ok:
  assumes acc: "accepted D owned m0 t plans ws seq acts m'"
    and s: "se_store s = m'" "se_documents s = se_documents t" "se_idle s = se_idle t" "se_attached s = se_attached t"
  shows "session_ok D (snd (adopt seq plans s))"
proof -
  note ok = acceptedD[OF acc]
  let ?s = "fold (adopt_plan seq) plans s"
  note fields = adopt_all[OF plans_in_place[OF acc], of seq s]
  have "cache_ok D ?s"
    unfolding cache_ok_def fields(1,4) s using cached_after[OF acc] by blast
  moreover have "idle_ok ?s"
  proof -
    have "idle_linked s" using session_okD(4)[OF ok(11)] s(2-4) by (simp add: idle_linked_ok idle_linked_def observed_def)
    then have "idle_linked ?s" by (rule adopt_linked[OF acc subset_refl _ s(4)])
    moreover have "ms_types m' i \<noteq> None" if "se_attached t i \<noteq> None" for i
    proof (rule conversations_after(5)[OF acc])
      show "ms_types m0 i \<noteq> None" using session_okD(4)[OF ok(11)] that minted_fields(1)[OF ok(10)] unfolding idle_ok_def by auto
    qed
    ultimately show ?thesis unfolding idle_linked_ok fields(1,2) s by blast
  qed
  ultimately show ?thesis using kernel_after[OF acc] by (simp add: session_ok_def adopt_def fields(1) s)
qed

lemma touches_ok: "session_ok D s \<Longrightarrow> session_ok D (fold (\<lambda>x. touchDocument (f x)) xs s)"
  by (induction xs arbitrary: s) (auto intro: touch_ok)

lemma truncated:
  "se_store (session.truncate t) = se_store t" "se_documents (session.truncate t) = se_documents t"
  "se_idle (session.truncate t) = se_idle t" "se_attached (session.truncate t) = se_attached t"
  "session_ok D (session.truncate t) = session_ok D t"
proof -
  show "se_store (session.truncate t) = se_store t" "se_documents (session.truncate t) = se_documents t"
    "se_idle (session.truncate t) = se_idle t" "se_attached (session.truncate t) = se_attached t"
    by (simp_all add: session.truncate_def)
  then show "session_ok D (session.truncate t) = session_ok D t" by (intro session_ok_cong) (simp add: same_cache_def)
qed

text \<open>What a Session is in any state it reaches: what it stores is sound, and while it has not failed its cache
  agrees with that.\<close>

definition session_sound :: "doc_definition set \<Rightarrow> session \<Rightarrow> bool" where
  "session_sound D s \<longleftrightarrow> kernel_ok (se_store s) \<and> (se_failure s = None \<longrightarrow> session_ok D s)"

lemma sound_ok: "session_ok D s \<Longrightarrow> session_sound D s"
  by (simp add: session_sound_def session_ok_def)

lemma sound_failed: "kernel_ok (se_store s) \<Longrightarrow> session_sound D (fail_session e s)"
  by (auto simp: session_sound_def fail_session_def)

text \<open>A commit at the storage is refused, or throws and fails the Session with the store before or after the
  batch, or answers.\<close>

lemma storage_commit_cases:
  obtains (refused) e where "storage_commit owned b ws s = (Inl e, s)"
  | (fails) e f m where "storage_commit owned b ws s = (Inl e, fail_session f (s\<lparr>se_store := m\<rparr>))" "se_failure s = None"
      "m = se_store s \<or> b \<noteq> Answers \<and> (\<exists>seq. commit owned ws (se_store s) = Inr (seq, m))"
  | (works) seq m where "storage_commit owned b ws s = (Inr seq, s\<lparr>se_store := m\<rparr>)" "commit owned ws (se_store s) = Inr (seq, m)"
proof (cases "se_failure s = None \<and> \<not> ms_closed (se_store s)")
  case False
  then have "\<exists>e. storage_commit owned b ws s = (Inl e, s)"
    by (auto simp: storage_commit_def bnd_def assertHealthy_def split: option.split)
  with refused show thesis by blast
next
  case True
  obtain result m where r: "backend_commit owned b ws (se_store s) = (result, m)"
    by (cases "backend_commit owned b ws (se_store s)")
  have m: "m = se_store s \<or> b = Answers \<and> (\<exists>seq. result = Inr seq) \<or> b \<noteq> Answers \<and> (\<exists>seq. commit owned ws (se_store s) = Inr (seq, m))"
    using r by (auto simp: backend_commit_def split: sum.splits backend.splits if_splits)
  have commit: "storage_commit owned b ws s =
      (case b of
         Overtaken _ f \<Rightarrow> (Inl (FailedBefore f), fail_session f (s\<lparr>se_store := m\<rparr>))
       | _ \<Rightarrow> (case result of
           Inl e \<Rightarrow> (Inl (StorageThrew e), fail_session (StorageThrew e) (s\<lparr>se_store := m\<rparr>))
         | Inr seq \<Rightarrow> (Inr seq, s\<lparr>se_store := m\<rparr>)))"
    using True r by (simp add: storage_commit_def bnd_def assertHealthy_def Let_def)
  show thesis
  proof (cases "b = Answers \<and> (\<exists>seq. result = Inr seq)")
    case True
    then obtain seq where "result = Inr seq" "b = Answers" by blast
    moreover from this r have "commit owned ws (se_store s) = Inr (seq, m)" by (auto simp: backend_commit_def split: sum.splits)
    ultimately show thesis using works commit by simp
  next
    case False
    have "\<exists>e f. storage_commit owned b ws s = (Inl e, fail_session f (s\<lparr>se_store := m\<rparr>))"
      using False r unfolding commit by (auto simp: backend_commit_def split: sum.splits backend.splits)
    with fails m True False show thesis by blast
  qed
qed

text \<open>A commit that publishes accepted its batch. Any other leaves the store as it was, but for minted IDs,
  or fails the Session after the batch of its callback was committed.\<close>

definition settled_in_doubt :: "(nat \<Rightarrow> bool) \<Rightarrow> commit_faults \<Rightarrow> commit_callback \<Rightarrow> session \<Rightarrow> session \<Rightarrow> bool" where
  "settled_in_doubt owned fault cb s s' \<longleftrightarrow>
     fault \<noteq> no_faults \<and> se_failure s' \<noteq> None
     \<and> (\<exists>ws plans t seq. run_callback owned cb (new_tx (cb_conversation cb) (cb_task cb) s) = (Inr (ws, plans), t)
          \<and> minted (se_store s) (se_store t) \<and> commit owned ws (se_store t) = Inr (seq, se_store s'))"

definition commit_result ::
    "doc_definition set \<Rightarrow> (nat \<Rightarrow> bool) \<Rightarrow> commit_faults \<Rightarrow> commit_callback \<Rightarrow> session \<Rightarrow> (session_error + publication option) \<times> session \<Rightarrow> bool" where
  "commit_result D owned fault cb s result \<longleftrightarrow>
     session_sound D (snd result)
     \<and> (case fst result of
          Inr (Some pub) \<Rightarrow>
            se_failure s = None
            \<and> (\<exists>t plans ws acts. accepted D owned (se_store s) t plans ws (pb_seq pub) acts (se_store (snd result))
                \<and> pb_tables pub = List.map_filter table_change_of (all_writes t plans))
        | _ \<Rightarrow> minted (se_store s) (se_store (snd result)) \<or> settled_in_doubt owned fault cb s (snd result))"

lemma sweep_store: "se_store (sweepDocuments s) = se_store s"
proof -
  have "se_store (fold (\<lambda>(k, _). dropDocument k) ks s) = se_store s" for ks :: "(doc_address \<times> rat) list" and s :: "'a session_scheme"
    by (induction ks arbitrary: s) auto
  then show ?thesis by (simp add: sweepDocuments_def)
qed

lemma touches_store: "se_store (fold (\<lambda>x. touchDocument (f x)) xs s) = se_store s"
  by (induction xs arbitrary: s) simp_all

text \<open>The last part of a commit, from the batch that its callback settled.\<close>

lemma settled_result:
  assumes "session_ok D s" "se_failure s = None" "tx_ok D (se_store s) t" "batch_ok (se_store s) t (ws, plans)"
    and run: "run_callback owned cb (new_tx (cb_conversation cb) (cb_task cb) s) = (Inr (ws, plans), t)"
  shows "commit_result D owned fault cb s
      (bnd (storage_commit owned (fl_backend fault) ws) (\<lambda>seq.
         bnd (adopt_or_fail (fl_adopt fault) seq plans) (\<lambda>docs s1.
           (Inr (Some (publish seq ws docs)),
            sweepDocuments (fold (\<lambda>d. touchDocument (addressId (published_record d))) docs s1)))) (session.truncate t))"
    (is "commit_result D owned fault cb s ?result")
proof -
  have kernel: "kernel_ok (se_store s)" using session_okD(1)[OF assms(1)] .
  have t_ok: "session_ok D (session.truncate t)" "minted (se_store s) (se_store t)" "kernel_ok (se_store t)"
    using tx_okD(1,2)[OF assms(3)] session_okD(1)[OF tx_okD(1)[OF assms(3)]] by (simp_all add: truncated)
  have acc: "\<exists>ws' acts. accepted D owned (se_store s) t plans ws' seq acts m"
    if "commit owned ws (se_store t) = Inr (seq, m)" for seq m
    using commit_accepted[OF kernel assms(3,4) that] by blast
  show ?thesis
  proof (cases rule: storage_commit_cases[of owned "fl_backend fault" ws "session.truncate t"])
    case (refused e)
    then have "?result = (Inl e, session.truncate t)" by (simp add: bnd_def)
    then show ?thesis using t_ok by (simp add: commit_result_def sound_ok truncated)
  next
    case (fails e f m)
    then have result: "?result = (Inl e, fail_session f ((session.truncate t)\<lparr>se_store := m\<rparr>))" by (simp add: bnd_def)
    from fails(3) show ?thesis
    proof
      assume "m = se_store (session.truncate t)"
      then show ?thesis unfolding result using t_ok by (simp add: commit_result_def sound_failed truncated)
    next
      assume "fl_backend fault \<noteq> Answers \<and> (\<exists>seq. commit owned ws (se_store (session.truncate t)) = Inr (seq, m))"
      then obtain seq where "fl_backend fault \<noteq> Answers" and c: "commit owned ws (se_store t) = Inr (seq, m)"
        by (auto simp: truncated)
      then have faulty: "fault \<noteq> no_faults" by (auto simp: no_faults_def)
      from acc[OF c] kernel_after have "kernel_ok m" by blast
      moreover have "settled_in_doubt owned fault cb s (fail_session f ((session.truncate t)\<lparr>se_store := m\<rparr>))"
        using run t_ok(2) c faulty by (simp add: settled_in_doubt_def fail_session_def)
      ultimately show ?thesis unfolding result by (simp add: commit_result_def sound_failed)
    qed
  next
    case (works seq m)
    then have c: "commit owned ws (se_store t) = Inr (seq, m)" by (simp add: truncated)
    with acc obtain ws' acts where a: "accepted D owned (se_store s) t plans ws' seq acts m" by blast
    let ?s1 = "(session.truncate t)\<lparr>se_store := m\<rparr>"
    have store: "se_store (fold (adopt_plan seq) (take n plans) ?s1) = m" for n
      by (subst adopt_all) (use plans_in_place[OF a] in \<open>auto dest: in_set_takeD\<close>)
    show ?thesis
    proof (cases "fl_adopt fault")
      case None
      obtain docs s2 where adopt: "adopt seq plans ?s1 = (docs, s2)" by (cases "adopt seq plans ?s1")
      then have result: "?result = (Inr (Some (publish seq ws docs)),
          sweepDocuments (fold (\<lambda>d. touchDocument (addressId (published_record d))) docs s2))"
        using works(1) None by (simp add: bnd_def adopt_or_fail_def)
      have "session_ok D s2" "se_store s2 = m"
        using adopted_ok[OF a, of ?s1] store[of "length plans"] adopt by (auto simp: truncated adopt_def)
      moreover have "ws = all_writes t plans" using assms(4) by (simp add: batch_ok_def)
      ultimately show ?thesis
        using a assms(2) unfolding result
        by (auto simp: commit_result_def sound_ok sweep_ok touches_ok sweep_store touches_store publish_def)
    next
      case (Some ne)
      obtain n e where ne: "ne = (n, e)" by (cases ne)
      let ?s2 = "fail_session e (snd (adopt seq (take n plans) ?s1))"
      have result: "?result = (Inl e, ?s2)"
        using works(1) Some ne by (simp add: bnd_def adopt_or_fail_def)
      have "settled_in_doubt owned fault cb s ?s2"
        using run t_ok(2) c store[of n] Some by (auto simp: settled_in_doubt_def adopt_def no_faults_def) (simp add: fail_session_def split: if_splits)
      then show ?thesis
        unfolding result using kernel_after[OF a] store[of n] by (simp add: commit_result_def sound_failed adopt_def)
    qed
  qed
qed

lemma runCommit_result:
  assumes "session_ok D s" "se_failure s = None" "definitions_ok D" "list_all (call_ok D) (cb_calls cb)"
  shows "commit_result D owned fault cb s (runCommit owned fault cb s)"
proof -
  let ?m0 = "se_store s" and ?t0 = "new_tx (cb_conversation cb) (cb_task cb) s"
  have kernel: "kernel_ok ?m0" using session_okD(1)[OF assms(1)] .
  note callback = callback_ok[OF kernel assms(3,4), of owned] and start = new_tx_ok[OF assms(1), of "cb_conversation cb" "cb_task cb"]
  obtain r t where run: "run_callback owned cb ?t0 = (r, t)" by (cases "run_callback owned cb ?t0")
  show ?thesis
  proof (cases r)
    case (Inl e)
    with tripleD(2)[OF callback start] run have t: "tx_ok D ?m0 t" by blast
    then have "session_ok D (session.truncate t)" "minted ?m0 (se_store t)" using tx_okD(1,2)[OF t] by (simp_all add: truncated)
    with Inl run assms(2) show ?thesis
      by (cases e) (simp_all add: runCommit_def bnd_def assertHealthy_def sweep_ok sweep_store truncated commit_result_def sound_ok)
  next
    case (Inr batch)
    obtain ws plans where batch: "batch = (ws, plans)" by (cases batch)
    from tripleD(1)[OF callback start] run Inr have settled: "tx_ok D ?m0 t" "batch_ok ?m0 t batch" by (auto simp: inside_def)
    have t_ok: "session_ok D (session.truncate t)" "minted ?m0 (se_store t)" using tx_okD(1,2)[OF settled(1)] by (simp_all add: truncated)
    show ?thesis
    proof (cases "ws = []")
      case True
      then have "runCommit owned fault cb s = (Inr None, sweepDocuments (session.truncate t))"
        using assms(2) run Inr batch by (simp add: runCommit_def bnd_def assertHealthy_def)
      then show ?thesis using t_ok by (simp add: commit_result_def sound_ok sweep_ok sweep_store truncated)
    next
      case False
      with settled_result[OF assms(1,2) settled(1) settled(2)[unfolded batch] run[unfolded Inr batch], of fault]
      show ?thesis using assms(2) run Inr batch by (simp add: runCommit_def bnd_def assertHealthy_def)
    qed
  qed
qed

lemma commitWith_result:
  assumes "session_sound D s" "definitions_ok D" "list_all (call_ok D) (cb_calls cb)"
  shows "commit_result D owned fault cb s (commitWith owned fault cb s)"
proof (cases "se_failure s = None \<and> \<not> se_closing s")
  case True
  then have "commitWith owned fault cb s = runCommit owned fault cb s"
    by (simp add: commitWith_def session_usable_def bnd_def assertHealthy_def)
  with runCommit_result[OF _ _ assms(2,3)] True assms(1) show ?thesis by (simp add: session_sound_def)
next
  case False
  then have "\<exists>e. commitWith owned fault cb s = (Inl e, s)"
    by (auto simp: commitWith_def session_usable_def bnd_def assertHealthy_def split: option.split)
  with assms(1) show ?thesis by (auto simp: commit_result_def)
qed

subsection \<open>Every step\<close>

text \<open>A failed Session answers nothing.\<close>

lemma failed_answers:
  assumes "se_failure s = Some e"
  shows "commitWith owned fault cb s = (Inl (FailedBefore e), s)" "snapshot owned d args s = (Inl (FailedBefore e), s)"
    "snapshotAsOf owned d args i s = (Inl (FailedBefore e), s)" "attachDocument owned d args s = (Inl (FailedBefore e), s)"
  using assms
  by (simp_all add: commitWith_def snapshot_def snapshotAsOf_def attachDocument_def session_usable_def bnd_def assertHealthy_def)

lemma unpin_store: "se_store (unpinDocument k i s) = se_store s" "se_failure (unpinDocument k i s) = se_failure s"
  by (simp_all add: unpinDocument_def Let_def)

lemma sweep_failure: "se_failure (sweepDocuments s) = se_failure s"
proof -
  have "se_failure (fold (\<lambda>(k, _). dropDocument k) ks s) = se_failure s" for ks :: "(doc_address \<times> rat) list" and s :: "'a session_scheme"
    by (induction ks arbitrary: s) auto
  then show ?thesis by (simp add: sweepDocuments_def)
qed

lemma failed_step:
  assumes "session_step owned D s s'" "session_sound D s" "se_failure s = Some e"
  shows "session_sound D s'"
proof -
  have kernel: "kernel_ok (se_store s)" using assms(2) by (simp add: session_sound_def)
  have sound: "session_sound D u" if "se_store u = se_store s" "se_failure u = se_failure s" for u
    using that kernel assms(3) by (simp add: session_sound_def)
  note same = failed_answers[OF assms(3)]
  show ?thesis using assms(1)
  proof cases
    case (Close) then show ?thesis
      using kernel assms(3) by (simp add: session_sound_def close_job_def kernel_closed)
  qed (use assms(2,3) sound same in \<open>auto simp: unpin_store sweep_store sweep_failure unloadDocuments_def seal_session_def
      fail_session_def\<close>)
qed

lemma healthy_step:
  assumes "session_step owned D s s'" "session_ok D s" "definitions_ok D"
  shows "session_sound D s'"
  using assms(1)
proof cases
  case (Commit cb fault r)
  with commitWith_result[OF sound_ok[OF assms(2)] assms(3), of cb owned fault] show ?thesis by (simp add: commit_result_def)
next
  case (Snapshot d args r)
  with triple_after[OF snapshot_keeps[OF _ assms(3)] assms(2)] show ?thesis by (metis snd_conv sound_ok)
next
  case (SnapshotAsOf d args i r)
  with triple_after[OF snapshotAsOf_keeps assms(2)] show ?thesis by (metis snd_conv sound_ok)
next
  case (Attach d args r)
  with triple_after[OF attach_keeps[OF _ assms(3)] assms(2)] show ?thesis by (metis snd_conv sound_ok)
next
  case (Detach i x)
  with unpin_ok[OF assms(2)] show ?thesis by (simp add: sound_ok)
next
  case Sweep
  with sweep_ok[OF assms(2)] show ?thesis by (simp add: sound_ok)
next
  case Unload
  with unload_ok[OF assms(2)] show ?thesis by (simp add: sound_ok)
next
  case (Environment now retention)
  have "same_cache s s'" unfolding Environment by (simp add: same_cache_def)
  with session_ok_cong assms(2) show ?thesis by (blast intro: sound_ok)
next
  case Seal
  have "same_cache s s'" unfolding Seal by (simp add: same_cache_def seal_session_def)
  with session_ok_cong assms(2) show ?thesis by (blast intro: sound_ok)
next
  case (Fail e)
  with session_okD(1)[OF assms(2)] show ?thesis by (simp add: sound_failed)
next
  case Close
  with close_ok[OF assms(2)] show ?thesis by (simp add: sound_ok)
qed

lemma step_sound:
  assumes "session_step owned D s s'" "session_sound D s" "definitions_ok D"
  shows "session_sound D s'"
  using failed_step[OF assms(1,2)] healthy_step[OF assms(1) _ assms(3)] assms(2)
  by (cases "se_failure s") (auto simp: session_sound_def)

text \<open>The states of a Session over a new storage.\<close>

abbreviation session_life :: "(nat \<Rightarrow> bool) \<Rightarrow> doc_definition set \<Rightarrow> rat option \<Rightarrow> session \<Rightarrow> bool" where
  "session_life owned D retention s \<equiv> (session_step owned D)\<^sup>*\<^sup>* (new_session new_store retention) s"

lemma session_life_sound:
  assumes "session_life owned D retention s" "definitions_ok D"
  shows "session_sound D s"
  using assms(1)
proof (induction rule: rtranclp_induct)
  case base
  show ?case by (rule sound_ok) (simp add: session_ok_def new_session_def kernel_new cache_ok_def idle_ok_def)
next
  case (step s s')
  with step_sound assms(2) show ?case by blast
qed

lemma session_life_kernel:
  assumes "session_life owned D retention s" "definitions_ok D"
  shows "kernel_ok (se_store s)" "se_failure s = None \<Longrightarrow> session_ok D s"
  using session_life_sound[OF assms] by (simp_all add: session_sound_def)

end
