(* ===== verification/Session_Laws.thy ===== *)
theory Session_Laws
  imports Session_Coherence Jsonl_Laws
begin

text \<open>
  The properties of a Session in every state it reaches over a new storage: its cache is transparent, its
  documents are objects and end with their tasks, a commit is all or nothing, owners are alive when
  work is given to them, and what the Session commits is what the JSONL storage asks for.
\<close>

subsection \<open>Reading through the cache\<close>









subsection \<open>What is stored\<close>



subsection \<open>Commits\<close>




subsection \<open>Idle documents\<close>




subsection \<open>Concrete lives\<close>


































end
