(* ===== verification/Spec2Isabelle.thy ===== *)
theory Spec2Isabelle
  imports Robot_Session_Sends Rpc_Client Closed_Loop Motion_Approval Human_Operator Delta_Codec
    Delta_Diff_Correct Durable_Entries Jsonl_Laws
    Session_Laws
begin

text \<open>
  A verification development for pi-embodied, a TypeScript workspace that lets a language-model agent
  operate robots. Three of its packages carry logic of their own that can be stated apart from I/O:
  \<^verbatim>\<open>packages/embodied\<close> (what may move a robot), \<^verbatim>\<open>packages/chord/src/delta\<close> (differences of JSON values) and
  \<^verbatim>\<open>packages/durable\<close> (the event store of an agent, on disk and in memory).

  How the parts interact. An MCP client calls the tools of a robot through a session, which asks the
  operator gate before a motion is sent to the robot's environment server; the manifest of the robot says
  which tools there are, and a planner run wraps them in the approval gate, the human operator and the
  re-observe gate. A durable Session runs transactions over a storage: documents are JSON roots that a
  transaction edits by delta operations, and the storage keeps bases and delta batches and replays them.
  The in-memory storage is the state of every storage; the JSONL storage adds a log that is replayed into it.

  The theories, by part.

  \<^item> \<^verbatim>\<open>Prelude\<close>: JSON values, JavaScript helpers, folds, lists and maps that several parts use.
  \<^item> Embodied. \<^verbatim>\<open>Operator_Gate\<close> (\<^verbatim>\<open>integrations/mcp/gate.ts\<close>): confirm file, tickets, \<open>authorise\<close>.
    \<^verbatim>\<open>Robot_Manifest\<close> (\<^verbatim>\<open>primitives/manifest.ts\<close>, \<^verbatim>\<open>primitives/arguments.ts\<close>, \<^verbatim>\<open>integrations/mcp/tools.ts\<close>): entries, their
    checks, placeholders, tool selection. \<^verbatim>\<open>Robot_Session\<close> (\<^verbatim>\<open>integrations/mcp/session.ts\<close>): the session as a step
    function over calls, replies, operator writes and clock readings, \<open>sess_step\<close>; every \<open>await\<close> is a point where
    other events may come between. A motion counts as sent when the session hands it to \<open>RpcClient.call\<close>.
    \<^verbatim>\<open>Robot_Session_Safety\<close> proves what every interleaving keeps of the motions, \<^verbatim>\<open>Robot_Session_Sends\<close> what a session
    may still send after a stop and after the end of an episode. \<^verbatim>\<open>Rpc_Client\<close> (\<^verbatim>\<open>infra/rpc.ts\<close>) is the queue of an
    endpoint that the calls handed over wait in: it is first come first served, knows nothing of the guards of the
    session, and is bypassed by an interrupt. \<^verbatim>\<open>Closed_Loop\<close> (\<^verbatim>\<open>planner/closed-loop.ts\<close>), \<^verbatim>\<open>Motion_Approval\<close> and \<^verbatim>\<open>Human_Operator\<close>
    (\<^verbatim>\<open>capabilities/operator.ts\<close>) are the gates of a planner run.
  \<^item> Deltas, \<^verbatim>\<open>packages/chord/src/delta\<close>. \<^verbatim>\<open>Delta_Ops\<close>: operations, validation, application in place;
    \<^verbatim>\<open>Delta_Immutable\<close>: the replay on copies; \<^verbatim>\<open>Delta_Codec\<close>: the wire codec; \<^verbatim>\<open>Delta_Diff\<close>: the structural difference
    of two revisions that share containers. \<^verbatim>\<open>Delta_Edit\<close>, \<^verbatim>\<open>Delta_Matches\<close> and \<^verbatim>\<open>Delta_Diff_Correct\<close> hold the
    lemmas: exact validation, edits at a path, the anchors of the diff, and that the diff is always found and correct.
  \<^item> Storage, \<^verbatim>\<open>packages/durable/src/types.ts\<close> and \<^verbatim>\<open>storage/memory.ts\<close>. \<^verbatim>\<open>Durable_Types\<close>, \<^verbatim>\<open>Durable_Index\<close>,
    \<^verbatim>\<open>Durable_Memory\<close> (commit: preparation, checks, application; minting; document reads) and \<^verbatim>\<open>Durable_Reads\<close>
    (records, scans, forks, head markers) hold the model. \<^verbatim>\<open>Durable_Tables\<close>, \<^verbatim>\<open>Durable_Documents\<close>, \<^verbatim>\<open>Durable_Addresses\<close>,
    \<^verbatim>\<open>Durable_Invariant\<close> prove the invariant \<open>store_ok\<close> of every reachable state, \<^verbatim>\<open>Durable_History\<close> how a store
    evolves, \<^verbatim>\<open>Durable_Replay\<close> what a read gives, \<^verbatim>\<open>Durable_Scans\<close> and \<^verbatim>\<open>Durable_Entries\<close> that paging ends and
    reads everything once (\<open>scanAll\<close> of \<^verbatim>\<open>harness/util.ts\<close>), \<^verbatim>\<open>Durable_Laws\<close> the properties.
  \<^item> JSONL storage, \<^verbatim>\<open>storage/jsonl\<close>. \<^verbatim>\<open>Jsonl_Disk\<close> (records, validation, files and their outcomes), \<^verbatim>\<open>Jsonl_Storage\<close>
    (publication of a commit, markers, reclamation), \<^verbatim>\<open>Jsonl_Recovery\<close> (reading back and cutting torn tails) hold the
    model. \<^verbatim>\<open>Jsonl_Encoding\<close>, \<^verbatim>\<open>Jsonl_History\<close>, \<^verbatim>\<open>Jsonl_Survey\<close>, \<^verbatim>\<open>Jsonl_Thinning\<close>, \<^verbatim>\<open>Jsonl_Replay\<close>, \<^verbatim>\<open>Jsonl_Recovered\<close>,
    \<^verbatim>\<open>Jsonl_Commit\<close>, \<^verbatim>\<open>Jsonl_Crash\<close>, \<^verbatim>\<open>Jsonl_Life\<close> prove that what reclamation removed is never needed and that
    recovery equals the replay of the complete commits; \<^verbatim>\<open>Jsonl_Laws\<close> states the properties.
  \<^item> Session, \<^verbatim>\<open>packages/durable/src/session\<close>. \<^verbatim>\<open>Session_Documents\<close> (\<^verbatim>\<open>documents.ts\<close>: definitions, resolution, record versions),
    \<^verbatim>\<open>Session_Cache\<close> (\<^verbatim>\<open>session.ts\<close>: the kernel, loads, idle documents, retention), \<^verbatim>\<open>Session_Transaction\<close>
    (\<^verbatim>\<open>transaction.ts\<close>, \<^verbatim>\<open>forks.ts\<close>: every call of a commit callback), \<^verbatim>\<open>Session_Assembly\<close> (plans, writes, adoption),
    \<^verbatim>\<open>Session_Commits\<close> (\<open>#runCommit\<close>, attachments, the closing) hold the model. An edit emits operations below the
    root or, as \<open>rewrite_draft\<close>, the root replacement of the tracker. A commit may fail before the storage took the
    batch, after it, behind its back (\<open>Overtaken\<close>) or in the adoption: datatype \<open>backend\<close> and record
    \<open>commit_faults\<close>; the Session then fails and is told so from there on. \<^verbatim>\<open>Session_Actions\<close> has the rules for reasoning
    about state and errors, \<^verbatim>\<open>Session_Invariant\<close> the invariant \<open>session_ok\<close> and that every read keeps it, \<^verbatim>\<open>Session_Calls\<close> and
    \<^verbatim>\<open>Session_Drafts\<close> the invariant \<open>tx_ok\<close> of a transaction and that every call of a callback keeps it, \<^verbatim>\<open>Session_Effects\<close>
    what an accepted commit does to the store, \<^verbatim>\<open>Session_Scans\<close> the scan of documents, \<^verbatim>\<open>Session_Plans\<close> the plans and
    writes of a settlement and \<^verbatim>\<open>Session_Settle\<close> the settlement as a whole: the batch of a callback is well formed and
    its plans agree with it. \<^verbatim>\<open>Session_Batch\<close> says which writes of an accepted batch are there, \<^verbatim>\<open>Session_Kernel\<close> what
    the store is after a commit, document by document, and that the batch meets what a storage asks of it.
    \<^verbatim>\<open>Session_Adoption\<close> follows the cache through the plans, \<^verbatim>\<open>Session_Coherence\<close> joins both: after a commit the
    cache agrees with the store, a refused one changes neither, one in doubt leaves the store with the whole batch or
    without it, and every step of a Session keeps \<open>session_sound\<close>: \<open>session_ok\<close>, or a failed Session over a sound store.
    \<^verbatim>\<open>Session_Laws\<close> states the properties.

  Parameters. Code outside the repository and the platform are parameters: the home directory and path
  resolution of the gate, the schema validation of tool arguments, the clock, the outcome of every
  file operation (it works, or fails after some bytes), which containers a replay already owns, callbacks of a document
  definition (\<open>None\<close> is a callback that throws), and what the storage behind a Session does with a commit (it answers,
  throws before or after it committed, or answers for another sequence) and whether the adoption throws. The callbacks
  \<open>initial\<close> and \<open>migrate\<close> give objects when they give a value, as their types say (\<open>definitions_ok\<close>). A line
  of JSONL is the JSON value it parses to; a torn line parses to nothing.

  Numbers and loops. A finite double is a rational; IDs and sequences are integers with the bound of
  \<open>MAX_SAFE_INTEGER\<close> where the code checks it. Loops that need not end are \<open>partial_function (option)\<close> (\<open>scanAll\<close>, the
  walks along forks); that they end in a reachable store is proved, not assumed. The only other bound is
  the probe and scan length of \<open>overlap\<close>, which is the code's own.

  Concurrency. Steps between two awaits are atomic. The calls of a transaction callback run one after another,
  and the jobs on the Session's line one at a time, as in the code; an eviction sweep may come at any time. Calls
  of one callback that overlap (two acquisitions of one document awaited together) and the cancellation of a caller that
  waits for the line are left out.

  Not modelled: the SQLite storage (statements of a database), the recording proxies of
  \<^verbatim>\<open>delta/tracker.ts\<close> (a tracker is its committed value and the operations it emits), observers and commit listeners
  of a Session, the harness above it, the reactive runtime of \<^verbatim>\<open>packages/chord\<close>, model providers, the coding agent, the
  terminal UI, MCP transports, robot bindings and simulators, whose logic is I/O, rendering or remote services.
  Power loss (as opposed to the death of the process) is not a step of the JSONL model.
\<close>

end
